(* ===== verification/Prelude.thy ===== *)
theory Prelude
  imports Main "HOL-Library.Word" "HOL-Library.Monad_Syntax"
begin

text \<open>
  What every component shares: the machine integer types, the loop that searches a static
  table for the first matching slot, counting and summing over a table that is updated in
  one slot, and the named collections of facts the component theories extend.

  \<^item> \<open>table_simps\<close> collects what a single slot update does to a table.
  \<^item> \<open>ring_simps\<close> collects the facts on circular buffers (theory \<open>Ring\<close>).
  \<^item> \<open>frame_simps\<close> collects the facts that say which part of the kernel state an
    operation leaves alone.
\<close>

unbundle bit_operations_syntax

named_theorems table_simps "updates of one slot of a static table"
named_theorems ring_simps "circular buffers read as lists"
named_theorems frame_simps "state an operation does not change"

type_synonym u8 = "8 word"
type_synonym u32 = "32 word"
type_synonym u64 = "64 word"

text \<open>An address, and a C pointer: \<open>None\<close> is \<open>NULL\<close>.\<close>

type_synonym addr = nat
type_synonym ptr = "nat option"

abbreviation (input) MAX_PROCESSES :: nat where "MAX_PROCESSES \<equiv> 64"

subsection \<open>Searching a table\<close>

text \<open>The loop \<open>for(i = 0; i < N; i++) if(P(table[i])) return i;\<close>.\<close>

fun first_idx :: "('a \<Rightarrow> bool) \<Rightarrow> 'a list \<Rightarrow> nat option" where
  "first_idx P [] = None"
| "first_idx P (x # xs) = (if P x then Some 0 else map_option Suc (first_idx P xs))"

lemma first_idx_None_iff [simp]: "first_idx P xs = None \<longleftrightarrow> (\<forall>x\<in>set xs. \<not> P x)"
  by (induction xs) auto

lemma first_idx_SomeD:
  "first_idx P xs = Some i \<Longrightarrow> i < length xs \<and> P (xs ! i) \<and> (\<forall>j<i. \<not> P (xs ! j))"
proof (induction xs arbitrary: i)
  case (Cons x xs)
  then show ?case by (auto split: if_splits simp: less_Suc_eq_0_disj)
qed simp

lemma first_idx_SomeI:
  "i < length xs \<Longrightarrow> P (xs ! i) \<Longrightarrow> (\<And>j. j < i \<Longrightarrow> \<not> P (xs ! j)) \<Longrightarrow> first_idx P xs = Some i"
proof (induction xs arbitrary: i)
  case (Cons x xs)
  show ?case
  proof (cases i)
    case 0
    with Cons.prems show ?thesis by simp
  next
    case (Suc k)
    have "\<not> P x" using Cons.prems(3) [of 0] Suc by simp
    moreover have "first_idx P xs = Some k"
      using Cons.prems Suc by (intro Cons.IH) force+
    ultimately show ?thesis using Suc by simp
  qed
qed simp

lemma first_idx_Some_iff:
  "first_idx P xs = Some i \<longleftrightarrow> i < length xs \<and> P (xs ! i) \<and> (\<forall>j<i. \<not> P (xs ! j))"
  using first_idx_SomeD [of P xs i] first_idx_SomeI [of i xs P] by blast

lemma first_idx_unique:
  "i < length xs \<Longrightarrow> P (xs ! i) \<Longrightarrow> (\<And>j. j < length xs \<Longrightarrow> P (xs ! j) \<Longrightarrow> j = i)
   \<Longrightarrow> first_idx P xs = Some i"
  using first_idx_None_iff [of P xs] first_idx_SomeD [of P xs] by (metis nth_mem not_None_eq)

subsection \<open>Updating one slot\<close>

definition modify :: "nat \<Rightarrow> ('a \<Rightarrow> 'a) \<Rightarrow> 'a list \<Rightarrow> 'a list" where
  "modify i f xs = (if i < length xs then xs[i := f (xs ! i)] else xs)"

lemma length_modify [simp]: "length (modify i f xs) = length xs"
  by (simp add: modify_def)

lemma nth_modify [table_simps]:
  "j < length xs \<Longrightarrow> modify i f xs ! j = (if i = j then f (xs ! j) else xs ! j)"
  by (auto simp: modify_def)

lemma nth_modify_same [simp]: "i < length xs \<Longrightarrow> modify i f xs ! i = f (xs ! i)"
  by (simp add: table_simps)

lemma nth_modify_other [simp]: "i \<noteq> j \<Longrightarrow> modify i f xs ! j = xs ! j"
  by (auto simp: modify_def)

lemma modify_id: "(i < length xs \<Longrightarrow> f (xs ! i) = xs ! i) \<Longrightarrow> modify i f xs = xs"
  by (auto simp: modify_def)

lemma modify_Cons_0 [simp]: "modify 0 f (x # xs) = f x # xs"
  by (simp add: modify_def)

lemma modify_Cons_Suc [simp]: "modify (Suc i) f (x # xs) = x # modify i f xs"
  by (simp add: modify_def)

lemma modify_modify [simp]: "modify i f (modify i g xs) = modify i (f \<circ> g) xs"
  by (simp add: modify_def)

lemma map_modify:
  "(i < length xs \<Longrightarrow> h (f (xs ! i)) = g (h (xs ! i))) \<Longrightarrow> map h (modify i f xs) = modify i g (map h xs)"
  unfolding modify_def by (cases "i < length xs") (simp_all add: map_update)

lemma map_modify_same:
  "(i < length xs \<Longrightarrow> h (f (xs ! i)) = h (xs ! i)) \<Longrightarrow> map h (modify i f xs) = map h xs"
  by (simp add: map_modify [where g = id] modify_id)

lemma list_all_modify:
  "list_all P xs \<Longrightarrow> (i < length xs \<Longrightarrow> P (xs ! i) \<Longrightarrow> P (f (xs ! i))) \<Longrightarrow> list_all P (modify i f xs)"
  by (auto simp: list_all_length table_simps)

lemma set_modify_subset: "set (modify i f xs) \<subseteq> insert (f (xs ! i)) (set xs)"
  by (auto simp: modify_def dest!: set_update_subset_insert [THEN subsetD])

text \<open>A sum over a table changes by what the updated slot changes.\<close>

lemma sum_list_modify:
  fixes h :: "'a \<Rightarrow> int"
  assumes "i < length xs"
  shows "(\<Sum>x\<leftarrow>modify i f xs. h x) = (\<Sum>x\<leftarrow>xs. h x) + h (f (xs ! i)) - h (xs ! i)"
  using assms
proof (induction xs arbitrary: i)
  case (Cons x xs)
  then show ?case by (cases i) auto
qed simp

subsection \<open>Clearing the low bits of a word\<close>

lemma and_not_7: "(x :: u64) AND NOT 7 = x - take_bit 3 x"
proof -
  have m: "(7 :: u64) = mask 3" by (simp add: mask_eq_exp_minus_1)
  have "(x AND mask 3) AND (x AND NOT (mask 3)) = 0"
    by (simp add: bit_eq_iff bit_simps)
  then have "(x AND mask 3) + (x AND NOT (mask 3)) = (x AND mask 3) OR (x AND NOT (mask 3))"
    by (rule disjunctive_add_eq_or)
  also have "\<dots> = x" by (rule bit_eqI) (auto simp: bit_simps)
  finally have "x AND NOT (mask 3) = x - (x AND mask 3)" by (metis add_diff_cancel_left')
  then show ?thesis unfolding m by (simp add: take_bit_eq_mask)
qed

lemma unat_and_not_7: "unat ((x :: u64) AND NOT 7) = unat x - unat x mod 8"
proof -
  have t: "unat (take_bit 3 x) = unat x mod 8"
    by (simp only: unsigned_take_bit_eq) (simp add: take_bit_eq_mod)
  then have "take_bit 3 x \<le> x" by (simp add: word_le_nat_alt)
  with t show ?thesis unfolding and_not_7 by (simp add: unat_sub)
qed

text \<open>Addition that wraps exactly once.\<close>

lemma unat_lt_64: "unat (x :: u64) < 2 ^ 64"
  by (rule order_less_le_trans [OF unsigned_less]) simp

lemma unat_add_wrap:
  assumes "2 ^ 64 \<le> unat (x :: u64) + unat y"
  shows "unat (x + y) = unat x + unat y - 2 ^ 64"
proof -
  have "unat (x + y) = (unat x + unat y) mod 2 ^ 64" by (simp add: unat_word_ariths)
  also have "\<dots> = (unat x + unat y - 2 ^ 64) mod 2 ^ 64" using assms by (rule le_mod_geq)
  also have "\<dots> = unat x + unat y - 2 ^ 64"
    using unat_lt_64 [of x] unat_lt_64 [of y] by (intro mod_less) linarith
  finally show ?thesis .
qed

end
