(* ===== verification/Ring.thy ===== *)
theory Ring
  imports Prelude
begin

text \<open>
  Circular buffers. The kernel has four of them: the queues of waiting PIDs of
  \<open>semaphore.c\<close> and \<open>pipe.c\<close> (64 slots), the byte buffer of a pipe (4096 bytes) and
  the keyboard buffer (256 bytes). All keep an array, the index of the oldest element and a
  count, and step indices by \<open>(i + 1) % N\<close>. \<open>ring_list\<close> reads such a buffer as the
  list it stands for; the lemmas say what writing behind the newest element, dropping the
  oldest and overwriting the oldest in a full buffer do to that list.

  The locale \<open>fifo\<close> is the contract of a bounded queue; its clients' lemmas (order of
  service, no overtaking) are proved once from it.
\<close>

definition ring_list :: "'a list \<Rightarrow> nat \<Rightarrow> nat \<Rightarrow> 'a list" where
  "ring_list buf h n = map (\<lambda>i. buf ! ((h + i) mod length buf)) [0..<n]"

lemma length_ring_list [simp]: "length (ring_list buf h n) = n"
  by (simp add: ring_list_def)

lemma ring_list_0 [simp]: "ring_list buf h 0 = []"
  by (simp add: ring_list_def)

lemma nth_ring_list: "i < n \<Longrightarrow> ring_list buf h n ! i = buf ! ((h + i) mod length buf)"
  by (simp add: ring_list_def)

lemma mod_add_inj_le:
  fixes h i j N :: nat
  assumes "i \<le> j" "j < N" "(h + i) mod N = (h + j) mod N"
  shows "i = j"
proof -
  have "N dvd (h + j) - (h + i)"
    using assms(1,3) mod_eq_dvd_iff_nat [of "h + i" "h + j" N] by simp
  then have "N dvd j - i" by simp
  moreover have "j - i < N" using assms(2) by simp
  ultimately have "j - i = 0" using nat_dvd_not_less by blast
  with assms(1) show ?thesis by simp
qed

lemma mod_add_inj:
  fixes h i j N :: nat
  assumes "i < N" "j < N" "(h + i) mod N = (h + j) mod N"
  shows "i = j"
  using mod_add_inj_le [of i j N h] mod_add_inj_le [of j i N h] assms nat_le_linear [of i j] by auto

lemma ring_list_append:
  assumes "n < length buf"
  shows "ring_list (buf[(h + n) mod length buf := x]) h (Suc n) = ring_list buf h n @ [x]"
proof (rule nth_equalityI)
  show "length (ring_list (buf[(h + n) mod length buf := x]) h (Suc n)) = length (ring_list buf h n @ [x])"
    by simp
next
  fix i assume "i < length (ring_list (buf[(h + n) mod length buf := x]) h (Suc n))"
  then have i: "i < Suc n" by simp
  have pos: "(h + n) mod length buf < length buf" using assms by (intro mod_less_divisor) auto
  show "ring_list (buf[(h + n) mod length buf := x]) h (Suc n) ! i = (ring_list buf h n @ [x]) ! i"
  proof (cases "i = n")
    case True
    then show ?thesis using pos by (simp add: nth_ring_list nth_append)
  next
    case False
    then have "i < n" using i by simp
    moreover have "(h + n) mod length buf \<noteq> (h + i) mod length buf"
      using mod_add_inj [of n "length buf" i h] assms \<open>i < n\<close> by auto
    ultimately show ?thesis by (simp add: nth_ring_list nth_append)
  qed
qed

lemma ring_list_Cons:
  "ring_list buf h (Suc n) = buf ! (h mod length buf) # ring_list buf (Suc h mod length buf) n"
proof (rule nth_equalityI)
  fix i assume "i < length (ring_list buf h (Suc n))"
  then show "ring_list buf h (Suc n) ! i =
      (buf ! (h mod length buf) # ring_list buf (Suc h mod length buf) n) ! i"
    by (cases i) (simp_all add: nth_ring_list mod_add_left_eq)
qed simp

lemma ring_list_pop:
  "0 < n \<Longrightarrow> ring_list buf h n = buf ! (h mod length buf) # ring_list buf (Suc h mod length buf) (n - 1)"
  by (cases n) (simp_all add: ring_list_Cons)

lemma hd_ring_list: "0 < n \<Longrightarrow> hd (ring_list buf h n) = buf ! (h mod length buf)"
  by (simp add: ring_list_pop)

lemma tl_ring_list: "0 < n \<Longrightarrow> ring_list buf (Suc h mod length buf) (n - 1) = tl (ring_list buf h n)"
  by (simp add: ring_list_pop)

lemma ring_list_linear: "n \<le> length buf \<Longrightarrow> ring_list buf 0 n = take n buf"
  by (rule nth_equalityI) (auto simp: nth_ring_list)

text \<open>Writing into a full buffer: the oldest element makes room for the newest.\<close>

lemma ring_list_overwrite:
  assumes "n = length buf" "0 < n"
  shows "ring_list (buf[h mod length buf := x]) (Suc h mod length buf) n = tl (ring_list buf h n) @ [x]"
proof -
  have pos: "h mod length buf < length buf" using assms by simp
  have "(Suc h mod length buf + (n - 1)) mod length buf = (Suc h + (n - 1)) mod length buf"
    by (simp add: mod_add_left_eq)
  also have "Suc h + (n - 1) = h + length buf" using assms by simp
  finally have "h mod length buf = (Suc h mod length buf + (n - 1)) mod length buf" by simp
  then have "ring_list (buf[h mod length buf := x]) (Suc h mod length buf) (Suc (n - 1)) =
      ring_list buf (Suc h mod length buf) (n - 1) @ [x]"
    using ring_list_append [of "n - 1" buf "Suc h mod length buf" x] assms by simp
  moreover have "ring_list buf (Suc h mod length buf) (n - 1) = tl (ring_list buf h n)"
    by (rule tl_ring_list) (rule assms(2))
  ultimately show ?thesis using assms(2) by simp
qed

declare ring_list_append [ring_simps] hd_ring_list [ring_simps] tl_ring_list [ring_simps]

subsection \<open>The contract of a bounded queue\<close>

text \<open>Popping \<open>n\<close> times.\<close>

fun drain :: "('q \<Rightarrow> 'a \<times> 'q) \<Rightarrow> nat \<Rightarrow> 'q \<Rightarrow> 'a list" where
  "drain pop 0 q = []"
| "drain pop (Suc n) q = fst (pop q) # drain pop n (snd (pop q))"

locale fifo =
  fixes items :: "'q \<Rightarrow> 'a list"
    and push :: "'q \<Rightarrow> 'a \<Rightarrow> 'q"
    and pop :: "'q \<Rightarrow> 'a \<times> 'q"
    and inv :: "'q \<Rightarrow> bool"
    and cap :: nat
  assumes push_items: "inv q \<Longrightarrow> length (items q) < cap \<Longrightarrow> x \<notin> set (items q) \<Longrightarrow>
      items (push q x) = items q @ [x]"
    and push_inv: "inv q \<Longrightarrow> inv (push q x)"
    and pop_items: "inv q \<Longrightarrow> items q \<noteq> [] \<Longrightarrow> fst (pop q) = hd (items q) \<and> items (snd (pop q)) = tl (items q)"
    and pop_inv: "inv q \<Longrightarrow> items q \<noteq> [] \<Longrightarrow> inv (snd (pop q))"
begin

lemma drain_take: "inv q \<Longrightarrow> n \<le> length (items q) \<Longrightarrow> drain pop n q = take n (items q)"
proof (induction n arbitrary: q)
  case (Suc n)
  then have ne: "items q \<noteq> []" by auto
  note p = pop_items [OF Suc.prems(1) ne] and i = pop_inv [OF Suc.prems(1) ne]
  have "drain pop n (snd (pop q)) = take n (tl (items q))"
    using Suc.IH [OF i] Suc.prems(2) p by simp
  with p ne show ?case by (cases "items q") simp_all
qed simp

lemma push_all_items:
  "inv q \<Longrightarrow> distinct (items q @ xs) \<Longrightarrow> length (items q) + length xs \<le> cap \<Longrightarrow>
   inv (foldl push q xs) \<and> items (foldl push q xs) = items q @ xs"
proof (induction xs arbitrary: q)
  case (Cons x xs)
  have "items (push q x) = items q @ [x]" using Cons.prems by (intro push_items) auto
  with Cons.prems Cons.IH [of "push q x"] show ?case by (simp add: push_inv)
qed simp

lemma fifo_order:
  "inv q \<Longrightarrow> items q = [] \<Longrightarrow> distinct xs \<Longrightarrow> length xs \<le> cap \<Longrightarrow>
   drain pop (length xs) (foldl push q xs) = xs"
  using push_all_items [of q xs] by (simp add: drain_take)

end

end
