(* ===== verification/MM_FirstFit.thy ===== *)
theory MM_FirstFit
  imports Prelude
begin

text \<open>
  The First-Fit memory manager, \<open>Kernel/c/memoryManager/memoryManagerFF.c\<close>, the
  allocator of the default build. The headers live in the heap itself, so the state is
  \<open>heap_start\<close> and a store from addresses to headers; the list of blocks is the chain of
  \<open>next\<close> pointers through that store, and every loop of the code follows it. Following a
  chain may never end, so the loops are \<open>partial_function (option)\<close>: \<open>None\<close> is "does not
  return".

  Request sizes are 64-bit words, because rounding them up can wrap. The \<open>size\<close> fields
  of the headers are natural numbers: the chain of a well-formed heap tiles the region
  handed to \<open>mm_init\<close> (\<open>contig\<close>), so their sums stay below its end and the
  \<open>uint64_t\<close> arithmetic of the code does not wrap on them.
\<close>

record mem_block =
  mb_size :: nat
  mb_is_free :: bool
  mb_is_kernel :: bool
  mb_next :: ptr

record ff_heap =
  heap_start :: ptr
  blocks :: "addr \<Rightarrow> mem_block"

text \<open>\<open>sizeof(MemBlock)\<close> and \<open>MIN_SPLIT\<close>.\<close>

abbreviation (input) HDR :: nat where "HDR \<equiv> 24"
abbreviation (input) MIN_SPLIT :: nat where "MIN_SPLIT \<equiv> 32"

subsection \<open>The code\<close>

definition mm_init :: "addr \<Rightarrow> nat \<Rightarrow> ff_heap \<Rightarrow> ff_heap" where
  "mm_init start sz h =
     (if sz \<le> HDR then h
      else h\<lparr>heap_start := Some start,
             blocks := (blocks h)(start := \<lparr>mb_size = sz - HDR, mb_is_free = True,
               mb_is_kernel = False, mb_next = None\<rparr>)\<rparr>)"

text \<open>\<open>size = (size + 7) & ~(uint64_t)7\<close>\<close>

definition align8 :: "u64 \<Rightarrow> u64" where
  "align8 sz = (sz + 7) AND NOT 7"

text \<open>The body of the loop once a block fits: split it if enough is left, mark it used.\<close>

definition malloc_take :: "nat \<Rightarrow> bool \<Rightarrow> (addr \<Rightarrow> mem_block) \<Rightarrow> addr \<Rightarrow> (addr \<Rightarrow> mem_block)" where
  "malloc_take sz is_kernel m a =
     (let m1 =
        (if sz + MIN_SPLIT \<le> mb_size (m a) then
           let split = a + HDR + sz;
               m' = m(split := \<lparr>mb_size = mb_size (m a) - sz - HDR, mb_is_free = True,
                                mb_is_kernel = False, mb_next = mb_next (m a)\<rparr>)
           in m'(a := (m a)\<lparr>mb_size := sz, mb_next := Some split\<rparr>)
         else m)
      in m1(a := (m1 a)\<lparr>mb_is_free := False, mb_is_kernel := is_kernel\<rparr>))"

partial_function (option) malloc_loop ::
  "nat \<Rightarrow> bool \<Rightarrow> (addr \<Rightarrow> mem_block) \<Rightarrow> ptr \<Rightarrow> ((addr \<Rightarrow> mem_block) \<times> ptr) option" where
  "malloc_loop sz is_kernel m block =
     (if block = None then Some (m, None)
      else let a = the block in
        if mb_is_free (m a) \<and> sz \<le> mb_size (m a)
        then Some (malloc_take sz is_kernel m a, Some (a + HDR))
        else malloc_loop sz is_kernel m (mb_next (m a)))"

definition malloc_impl :: "u64 \<Rightarrow> bool \<Rightarrow> ff_heap \<Rightarrow> (ff_heap \<times> ptr) option" where
  "malloc_impl sz is_kernel h =
     (if sz = 0 \<or> heap_start h = None then Some (h, None)
      else do {
        (m, p) \<leftarrow> malloc_loop (unat (align8 sz)) is_kernel (blocks h) (heap_start h);
        Some (h\<lparr>blocks := m\<rparr>, p)
      })"

definition mm_malloc :: "u64 \<Rightarrow> ff_heap \<Rightarrow> (ff_heap \<times> ptr) option" where
  "mm_malloc sz h = malloc_impl sz False h"

definition mm_malloc_kernel :: "u64 \<Rightarrow> ff_heap \<Rightarrow> (ff_heap \<times> ptr) option" where
  "mm_malloc_kernel sz h = malloc_impl sz True h"

text \<open>Absorb the free blocks that follow \<open>block\<close>.\<close>

partial_function (option) coalesce_fwd :: "(addr \<Rightarrow> mem_block) \<Rightarrow> addr \<Rightarrow> (addr \<Rightarrow> mem_block) option" where
  "coalesce_fwd m block =
     (if mb_next (m block) = None then Some m
      else let n = the (mb_next (m block)) in
        if mb_is_free (m n)
        then coalesce_fwd (m(block := (m block)\<lparr>mb_size := mb_size (m block) + (HDR + mb_size (m n)),
                               mb_next := mb_next (m n)\<rparr>)) block
        else Some m)"

text \<open>The walk \<open>while(prev != NULL && prev->next != block) prev = prev->next\<close>.\<close>

partial_function (option) find_prev :: "(addr \<Rightarrow> mem_block) \<Rightarrow> addr \<Rightarrow> ptr \<Rightarrow> ptr option" where
  "find_prev m block prev =
     (if prev = None then Some None
      else let p = the prev in
        if mb_next (m p) \<noteq> Some block then find_prev m block (mb_next (m p))
        else Some prev)"

definition mm_free :: "ptr \<Rightarrow> ff_heap \<Rightarrow> ff_heap option" where
  "mm_free ptr h =
     (case ptr of
        None \<Rightarrow> Some h
      | Some q \<Rightarrow>
          (let block = q - HDR;
               m0 = (blocks h)(block := (blocks h block)\<lparr>mb_is_free := True\<rparr>)
           in do {
             m1 \<leftarrow> coalesce_fwd m0 block;
             prev \<leftarrow> find_prev m1 block (heap_start h);
             Some (h\<lparr>blocks :=
               (case prev of
                  None \<Rightarrow> m1
                | Some p \<Rightarrow>
                    (if mb_is_free (m1 p)
                     then m1(p := (m1 p)\<lparr>mb_size := mb_size (m1 p) + (HDR + mb_size (m1 block)),
                                          mb_next := mb_next (m1 block)\<rparr>)
                     else m1))\<rparr>)
           }))"

record mem_status =
  ms_total :: nat
  ms_free :: nat
  ms_used :: nat
  ms_used_kernel :: nat
  ms_alloc_count :: nat

partial_function (option) status_loop :: "(addr \<Rightarrow> mem_block) \<Rightarrow> ptr \<Rightarrow> mem_status \<Rightarrow> mem_status option" where
  "status_loop m block st =
     (if block = None then Some st
      else let a = the block;
               bsz = mb_size (m a) + HDR;
               st1 = st\<lparr>ms_total := ms_total st + bsz\<rparr>;
               st2 = (if mb_is_free (m a) then st1\<lparr>ms_free := ms_free st1 + bsz\<rparr>
                      else if mb_is_kernel (m a) then st1\<lparr>ms_used_kernel := ms_used_kernel st1 + bsz\<rparr>
                      else st1\<lparr>ms_used := ms_used st1 + bsz, ms_alloc_count := ms_alloc_count st1 + 1\<rparr>)
           in status_loop m (mb_next (m a)) st2)"

text \<open>\<open>status == NULL\<close> is the argument \<open>None\<close>: then, and on a heap that was never
  initialised, the code writes nothing.\<close>

definition mm_status :: "mem_status option \<Rightarrow> ff_heap \<Rightarrow> mem_status option option" where
  "mm_status status h =
     (case status of
        None \<Rightarrow> Some None
      | Some st \<Rightarrow>
          (if heap_start h = None then Some (Some st)
           else do {
             st' \<leftarrow> status_loop (blocks h) (heap_start h)
               \<lparr>ms_total = 0, ms_free = 0, ms_used = 0, ms_used_kernel = 0, ms_alloc_count = 0\<rparr>;
             Some (Some st')
           }))"

text \<open>The loops, one unfolding at a time.\<close>

lemma malloc_loop_simps [simp]:
  "malloc_loop sz k m None = Some (m, None)"
  "malloc_loop sz k m (Some a) =
     (if mb_is_free (m a) \<and> sz \<le> mb_size (m a) then Some (malloc_take sz k m a, Some (a + HDR))
      else malloc_loop sz k m (mb_next (m a)))"
  by (subst malloc_loop.simps; simp)+

lemma find_prev_simps [simp]:
  "find_prev m x None = Some None"
  "find_prev m x (Some p) = (if mb_next (m p) = Some x then Some (Some p) else find_prev m x (mb_next (m p)))"
  by (subst find_prev.simps; simp)+

lemma coalesce_fwd_stop:
  "mb_next (m b) = None \<Longrightarrow> coalesce_fwd m b = Some m"
  "mb_next (m b) = Some n \<Longrightarrow> \<not> mb_is_free (m n) \<Longrightarrow> coalesce_fwd m b = Some m"
  by (subst coalesce_fwd.simps; simp)+

lemma coalesce_fwd_step:
  "mb_next (m b) = Some n \<Longrightarrow> mb_is_free (m n) \<Longrightarrow>
   coalesce_fwd m b = coalesce_fwd (m(b := (m b)\<lparr>mb_size := mb_size (m b) + (HDR + mb_size (m n)),
                                          mb_next := mb_next (m n)\<rparr>)) b"
  by (subst coalesce_fwd.simps) simp

lemma status_loop_None [simp]: "status_loop m None st = Some st"
  by (subst status_loop.simps) simp

lemma status_loop_Some:
  "status_loop m (Some a) st =
     (let bsz = mb_size (m a) + HDR;
          st1 = st\<lparr>ms_total := ms_total st + bsz\<rparr>;
          st2 = (if mb_is_free (m a) then st1\<lparr>ms_free := ms_free st1 + bsz\<rparr>
                 else if mb_is_kernel (m a) then st1\<lparr>ms_used_kernel := ms_used_kernel st1 + bsz\<rparr>
                 else st1\<lparr>ms_used := ms_used st1 + bsz, ms_alloc_count := ms_alloc_count st1 + 1\<rparr>)
      in status_loop m (mb_next (m a)) st2)"
  by (subst status_loop.simps) simp

end
