(* ===== verification/Allocator.thy ===== *)
theory Allocator
  imports Prelude
begin

text \<open>
  The interface of \<open>memoryManager.h\<close> as a contract. A heap in good order holds a set of
  live regions (payload address and payload size). An allocation returns, and gives either
  no block and no change, or a region that starts where no live region starts; a release of
  a live block returns and removes it. Live regions never overlap. The kernel can be built
  with either of two allocators; each one that is modelled interprets this locale.

  \<open>mem_run\<close> is a client: it allocates and releases in any order, keeping the pointers it
  was given. The locale proves that no such client ever hangs the allocator or is handed
  overlapping memory.
\<close>

datatype mem_op = Alloc u64 bool | Free nat

fun mem_run ::
  "(u64 \<Rightarrow> bool \<Rightarrow> 'h \<Rightarrow> ('h \<times> ptr) option) \<Rightarrow> (ptr \<Rightarrow> 'h \<Rightarrow> 'h option) \<Rightarrow> mem_op list \<Rightarrow>
   'h \<times> addr list \<Rightarrow> ('h \<times> addr list) option" where
  "mem_run alloc release [] s = Some s"
| "mem_run alloc release (Alloc n k # ops) (h, held) =
     (case alloc n k h of
        None \<Rightarrow> None
      | Some (h', r) \<Rightarrow>
          mem_run alloc release ops (h', case r of None \<Rightarrow> held | Some p \<Rightarrow> p # held))"
| "mem_run alloc release (Free i # ops) (h, held) =
     (if i < length held
      then (case release (Some (held ! i)) h of
              None \<Rightarrow> None
            | Some h' \<Rightarrow> mem_run alloc release ops (h', take i held @ drop (Suc i) held))
      else mem_run alloc release ops (h, held))"

lemma distinct_remove_nth:
  "distinct xs \<Longrightarrow> i < length xs \<Longrightarrow>
   distinct (take i xs @ drop (Suc i) xs) \<and> set (take i xs @ drop (Suc i) xs) = set xs - {xs ! i}"
proof -
  assume d: "distinct xs" and i: "i < length xs"
  from i have eq: "xs = take i xs @ xs ! i # drop (Suc i) xs" by (rule id_take_nth_drop)
  have "distinct (ys @ y # zs) \<Longrightarrow> distinct (ys @ zs) \<and> set (ys @ zs) = set (ys @ y # zs) - {y}" for y :: 'a and ys zs
    by auto
  from this [of "take i xs" "xs ! i" "drop (Suc i) xs"] d eq show ?thesis by simp
qed

locale allocator =
  fixes alloc :: "u64 \<Rightarrow> bool \<Rightarrow> 'h \<Rightarrow> ('h \<times> ptr) option"
    and release :: "ptr \<Rightarrow> 'h \<Rightarrow> 'h option"
    and rep :: "'h \<Rightarrow> (nat \<times> nat) set \<Rightarrow> bool"
    and fits :: "u64 \<Rightarrow> bool"
  assumes alloc_ok: "rep h L \<Longrightarrow> \<exists>h' r. alloc n k h = Some (h', r) \<and>
      (case r of
         None \<Rightarrow> rep h' L
       | Some p \<Rightarrow> \<exists>sz. (fits n \<longrightarrow> unat n \<le> sz) \<and> rep h' (insert (p, sz) L) \<and> p \<notin> fst ` L)"
    and release_ok: "rep h L \<Longrightarrow> (p, m) \<in> L \<Longrightarrow> \<exists>h'. release (Some p) h = Some h' \<and> rep h' (L - {(p, m)})"
    and release_NULL: "release None h = Some h"
    and rep_disjoint: "rep h L \<Longrightarrow> (p, m) \<in> L \<Longrightarrow> (q, l) \<in> L \<Longrightarrow> (p, m) \<noteq> (q, l) \<Longrightarrow>
      p + m \<le> q \<or> q + l \<le> p"
begin

lemma mem_run_ok:
  "rep h L \<Longrightarrow> inj_on fst L \<Longrightarrow> set held = fst ` L \<Longrightarrow> distinct held \<Longrightarrow>
   \<exists>h' held' L'. mem_run alloc release ops (h, held) = Some (h', held') \<and>
     rep h' L' \<and> inj_on fst L' \<and> set held' = fst ` L' \<and> distinct held'"
proof (induction ops arbitrary: h L held)
  case Nil
  then show ?case by auto
next
  case (Cons op ops)
  show ?case
  proof (cases op)
    case (Alloc n k)
    from alloc_ok [OF Cons.prems(1)] obtain h1 r where a: "alloc n k h = Some (h1, r)"
      "case r of None \<Rightarrow> rep h1 L
       | Some p \<Rightarrow> \<exists>sz. (fits n \<longrightarrow> unat n \<le> sz) \<and> rep h1 (insert (p, sz) L) \<and> p \<notin> fst ` L" by blast
    show ?thesis
    proof (cases r)
      case None
      with a Cons.IH [of h1 L held] Cons.prems Alloc show ?thesis by simp
    next
      case (Some p)
      with a(2) obtain sz where sz: "rep h1 (insert (p, sz) L)" "p \<notin> fst ` L" by auto
      have "inj_on fst (insert (p, sz) L)" using Cons.prems(2) sz(2) by (auto simp: inj_on_insert)
      moreover have "set (p # held) = fst ` insert (p, sz) L" "distinct (p # held)"
        using Cons.prems(3,4) sz(2) by simp_all
      ultimately have "\<exists>h' held' L'. mem_run alloc release ops (h1, p # held) = Some (h', held') \<and>
          rep h' L' \<and> inj_on fst L' \<and> set held' = fst ` L' \<and> distinct held'"
        by (rule Cons.IH [OF sz(1)])
      with a(1) Some Alloc show ?thesis by simp
    qed
  next
    case (Free i)
    show ?thesis
    proof (cases "i < length held")
      case True
      then have "held ! i \<in> fst ` L" using Cons.prems(3) nth_mem by blast
      then obtain m where m: "(held ! i, m) \<in> L" by (auto simp: image_iff)
      from release_ok [OF Cons.prems(1) m] obtain h1 where h1: "release (Some (held ! i)) h = Some h1"
        "rep h1 (L - {(held ! i, m)})" by blast
      let ?held = "take i held @ drop (Suc i) held"
      have "fst ` (L - {(held ! i, m)}) = fst ` L - {held ! i}"
        using inj_on_image_set_diff [of fst L L "{(held ! i, m)}"] m Cons.prems(2) by simp
      then have "set ?held = fst ` (L - {(held ! i, m)})" "distinct ?held"
        using distinct_remove_nth [OF Cons.prems(4) True] Cons.prems(3) by simp_all
      moreover have "inj_on fst (L - {(held ! i, m)})" using Cons.prems(2) by (rule inj_on_diff)
      ultimately have "\<exists>h' held' L'. mem_run alloc release ops (h1, ?held) = Some (h', held') \<and>
          rep h' L' \<and> inj_on fst L' \<and> set held' = fst ` L' \<and> distinct held'"
        by (intro Cons.IH [OF h1(2)])
      with Free True h1(1) show ?thesis by simp
    next
      case False
      with Free Cons.IH [of h L held] Cons.prems show ?thesis by simp
    qed
  qed
qed

end

end
