(* ===== verification/FF_Spec.thy ===== *)
theory FF_Spec
  imports MM_FirstFit Allocator
begin

text \<open>
  The abstract First-Fit allocator: a heap is the list of its blocks in address order.
  \<open>spec_malloc\<close> and \<open>spec_free\<close> say what allocation and release do to that list, with
  no pointers and no loops that may not end. The invariants of the allocator are proved
  here: the blocks tile the heap (\<open>contig\<close>), no two free blocks are neighbours
  (\<open>coalesced\<close>), the payloads of the allocated blocks are disjoint. Theory
  \<open>FF_Refine\<close> shows that the pointer code computes exactly these functions.
\<close>

record blk =
  b_addr :: nat
  b_size :: nat
  b_free :: bool
  b_kern :: bool

definition b_end :: "blk \<Rightarrow> nat" where
  "b_end b = b_addr b + HDR + b_size b"

text \<open>The blocks tile \<open>[a, e)\<close>.\<close>

fun contig :: "nat \<Rightarrow> nat \<Rightarrow> blk list \<Rightarrow> bool" where
  "contig a e [] \<longleftrightarrow> a = e"
| "contig a e (b # bs) \<longleftrightarrow> b_addr b = a \<and> contig (b_end b) e bs"

fun coalesced :: "blk list \<Rightarrow> bool" where
  "coalesced (b # c # bs) \<longleftrightarrow> \<not> (b_free b \<and> b_free c) \<and> coalesced (c # bs)"
| "coalesced _ \<longleftrightarrow> True"

definition take_blk :: "nat \<Rightarrow> bool \<Rightarrow> blk \<Rightarrow> blk list" where
  "take_blk sz k b =
     (if sz + MIN_SPLIT \<le> b_size b
      then [\<lparr>b_addr = b_addr b, b_size = sz, b_free = False, b_kern = k\<rparr>,
            \<lparr>b_addr = b_addr b + HDR + sz, b_size = b_size b - sz - HDR, b_free = True, b_kern = False\<rparr>]
      else [b\<lparr>b_free := False, b_kern := k\<rparr>])"

fun spec_malloc :: "nat \<Rightarrow> bool \<Rightarrow> blk list \<Rightarrow> (blk list \<times> nat) option" where
  "spec_malloc sz k [] = None"
| "spec_malloc sz k (b # bs) =
     (if b_free b \<and> sz \<le> b_size b then Some (take_blk sz k b @ bs, b_addr b + HDR)
      else map_option (\<lambda>(bs', p). (b # bs', p)) (spec_malloc sz k bs))"

text \<open>A block absorbs the free blocks behind it.\<close>

fun absorb :: "blk \<Rightarrow> blk list \<Rightarrow> blk \<times> blk list" where
  "absorb b [] = (b, [])"
| "absorb b (c # bs) =
     (if b_free c then absorb (b\<lparr>b_size := b_size b + (HDR + b_size c)\<rparr>) bs else (b, c # bs))"

text \<open>Release \<open>b\<close>, which lies between \<open>pre\<close> and \<open>post\<close>.\<close>

definition spec_free :: "blk list \<Rightarrow> blk \<Rightarrow> blk list \<Rightarrow> blk list" where
  "spec_free pre b post =
     (let (c, rest) = absorb (b\<lparr>b_free := True\<rparr>) post
      in if pre \<noteq> [] \<and> b_free (last pre)
         then butlast pre @ (last pre)\<lparr>b_size := b_size (last pre) + (HDR + b_size c)\<rparr> # rest
         else pre @ c # rest)"

definition live_regions :: "blk list \<Rightarrow> (nat \<times> nat) set" where
  "live_regions bs = {(b_addr b + HDR, b_size b) | b. b \<in> set bs \<and> \<not> b_free b}"

subsection \<open>Tiling\<close>

lemma contig_append: "contig a e (xs @ ys) \<longleftrightarrow> (\<exists>m. contig a m xs \<and> contig m e ys)"
  by (induction xs arbitrary: a) auto

lemma contig_le: "contig a e bs \<Longrightarrow> a \<le> e"
  by (induction bs arbitrary: a) (auto simp: b_end_def dest: add_leD1)

lemma contig_bounds: "contig a e bs \<Longrightarrow> b \<in> set bs \<Longrightarrow> a \<le> b_addr b \<and> b_end b \<le> e"
proof (induction bs arbitrary: a)
  case (Cons c bs)
  then have "b_end c \<le> e" using contig_le by auto
  with Cons show ?case by (fastforce simp: b_end_def)
qed simp

lemma contig_sorted: "contig a e bs \<Longrightarrow> sorted_wrt (\<lambda>b c. b_end b \<le> b_addr c) bs"
  by (induction bs arbitrary: a) (auto dest: contig_bounds)

lemma contig_distinct: "contig a e bs \<Longrightarrow> distinct (map b_addr bs)"
  by (induction bs arbitrary: a) (auto dest!: contig_bounds simp: b_end_def)

lemma contig_sum: "contig a e bs \<Longrightarrow> (\<Sum>b\<leftarrow>bs. HDR + b_size b) = e - a"
proof (induction bs arbitrary: a)
  case (Cons b bs)
  then have "contig (b_end b) e bs" by simp
  from Cons.IH [OF this] contig_le [OF this] Cons.prems show ?case by (simp add: b_end_def)
qed simp

lemma contig_disjoint:
  assumes "contig a e bs" "b \<in> set bs" "c \<in> set bs" "b \<noteq> c"
  shows "b_end b \<le> b_addr c \<or> b_end c \<le> b_addr b"
proof -
  obtain i j where ij: "i < length bs" "j < length bs" "b = bs ! i" "c = bs ! j"
    using assms(2,3) by (auto simp: in_set_conv_nth)
  have "i \<noteq> j" using assms(4) ij by auto
  then have "i < j \<or> j < i" by arith
  then show ?thesis using contig_sorted [OF assms(1)] ij by (auto simp: sorted_wrt_iff_nth_less)
qed

lemma coalesced_Cons:
  "coalesced (b # bs) \<longleftrightarrow> coalesced bs \<and> (bs = [] \<or> \<not> (b_free b \<and> b_free (hd bs)))"
  by (cases bs) auto

lemma coalesced_append:
  "coalesced (xs @ ys) \<longleftrightarrow> coalesced xs \<and> coalesced ys \<and>
     (xs = [] \<or> ys = [] \<or> \<not> (b_free (last xs) \<and> b_free (hd ys)))"
  by (induction xs) (auto simp: coalesced_Cons)

declare coalesced.simps [simp del]

lemmas coalesced_simps = coalesced.simps(2,3) coalesced_Cons coalesced_append

lemma live_regions_simps [simp]:
  "live_regions [] = {}"
  "live_regions (b # bs) = (if b_free b then {} else {(b_addr b + HDR, b_size b)}) \<union> live_regions bs"
  "live_regions (xs @ ys) = live_regions xs \<union> live_regions ys"
  by (auto simp: live_regions_def)

text \<open>Allocated payloads lie inside the heap and do not overlap.\<close>

lemma live_in_heap:
  "contig a e bs \<Longrightarrow> (p, n) \<in> live_regions bs \<Longrightarrow> a + HDR \<le> p \<and> p + n \<le> e"
  by (auto simp: live_regions_def b_end_def dest!: contig_bounds)

lemma live_disjoint:
  assumes "contig a e bs" "(p, m) \<in> live_regions bs" "(q, n) \<in> live_regions bs" "(p, m) \<noteq> (q, n)"
  shows "p + m \<le> q \<or> q + n \<le> p"
proof -
  obtain b c where b: "b \<in> set bs" "p = b_addr b + HDR" "m = b_size b"
    and c: "c \<in> set bs" "q = b_addr c + HDR" "n = b_size c"
    using assms(2,3) by (auto simp: live_regions_def)
  with assms(4) have "b \<noteq> c" by auto
  from contig_disjoint [OF assms(1) b(1) c(1) this] b c show ?thesis by (auto simp: b_end_def)
qed

lemma live_functional:
  assumes "contig a e bs" "(p, m) \<in> live_regions bs" "(p, n) \<in> live_regions bs"
  shows "m = n"
proof -
  obtain b c where b: "b \<in> set bs" "p = b_addr b + HDR" "m = b_size b"
    and c: "c \<in> set bs" "p = b_addr c + HDR" "n = b_size c"
    using assms(2,3) by (auto simp: live_regions_def)
  have "inj_on b_addr (set bs)" using contig_distinct [OF assms(1)] by (simp add: distinct_map)
  with b c have "b = c" by (auto dest: inj_onD)
  with b c show ?thesis by simp
qed

subsection \<open>Allocation\<close>

lemma spec_malloc_None_iff: "spec_malloc sz k bs = None \<longleftrightarrow> (\<forall>b\<in>set bs. b_free b \<longrightarrow> b_size b < sz)"
  by (induction bs) auto

lemma spec_malloc_SomeE:
  assumes "spec_malloc sz k bs = Some (bs', p)"
  obtains pre b post where "bs = pre @ b # post" "bs' = pre @ take_blk sz k b @ post"
    "p = b_addr b + HDR" "b_free b" "sz \<le> b_size b" "\<forall>c\<in>set pre. b_free c \<longrightarrow> b_size c < sz"
proof -
  from assms have "\<exists>pre b post. bs = pre @ b # post \<and> bs' = pre @ take_blk sz k b @ post \<and>
      p = b_addr b + HDR \<and> b_free b \<and> sz \<le> b_size b \<and> (\<forall>c\<in>set pre. b_free c \<longrightarrow> b_size c < sz)"
  proof (induction bs arbitrary: bs')
    case (Cons c bs)
    show ?case
    proof (cases "b_free c \<and> sz \<le> b_size c")
      case True
      with Cons.prems show ?thesis by (intro exI [of _ "[]"] exI [of _ c] exI [of _ bs]) auto
    next
      case False
      with Cons.prems obtain bs1 where 1: "spec_malloc sz k bs = Some (bs1, p)" "bs' = c # bs1"
        by (auto split: if_splits)
      from Cons.IH [OF 1(1)] obtain pre b post where 2: "bs = pre @ b # post"
        "bs1 = pre @ take_blk sz k b @ post" "p = b_addr b + HDR" "b_free b" "sz \<le> b_size b"
        "\<forall>c\<in>set pre. b_free c \<longrightarrow> b_size c < sz" by blast
      with 1 False show ?thesis by (intro exI [of _ "c # pre"] exI [of _ b] exI [of _ post]) auto
    qed
  qed simp
  then show thesis using that by blast
qed

lemma take_blk_contig: "contig (b_addr b) m (take_blk sz k b) \<longleftrightarrow> m = b_end b"
  by (auto simp: take_blk_def b_end_def)

lemma spec_malloc_contig:
  assumes "contig a e bs" "spec_malloc sz k bs = Some (bs', p)"
  shows "contig a e bs'"
  using assms(2)
proof (rule spec_malloc_SomeE)
  fix pre b post
  assume d: "bs = pre @ b # post" "bs' = pre @ take_blk sz k b @ post"
  from assms(1) d(1) have "contig a (b_addr b) pre" "contig (b_end b) e post"
    by (auto simp: contig_append)
  then show ?thesis unfolding d(2) contig_append using take_blk_contig by blast
qed

lemma spec_malloc_coalesced:
  assumes "coalesced bs" "spec_malloc sz k bs = Some (bs', p)"
  shows "coalesced bs'"
  using assms(2)
proof (rule spec_malloc_SomeE)
  fix pre b post
  assume d: "bs = pre @ b # post" "bs' = pre @ take_blk sz k b @ post" "b_free b"
  with assms(1) show ?thesis by (auto simp: take_blk_def coalesced_simps)
qed

lemma spec_malloc_live:
  assumes "contig a e bs" "spec_malloc sz k bs = Some (bs', p)"
  obtains n where "sz \<le> n" "live_regions bs' = insert (p, n) (live_regions bs)"
    "(p, n) \<notin> live_regions bs"
  using assms(2)
proof (rule spec_malloc_SomeE)
  fix pre b post
  assume d: "bs = pre @ b # post" "bs' = pre @ take_blk sz k b @ post" "p = b_addr b + HDR"
    "b_free b" "sz \<le> b_size b"
  define n where "n = (if sz + MIN_SPLIT \<le> b_size b then sz else b_size b)"
  have "distinct (map b_addr bs)" by (rule contig_distinct [OF assms(1)])
  with d have "b_addr b \<notin> b_addr ` set pre" "b_addr b \<notin> b_addr ` set post" by auto
  then have "(p, n) \<notin> live_regions bs" using d by (auto simp: live_regions_def)
  moreover have "live_regions bs' = insert (p, n) (live_regions bs)"
    using d by (auto simp: take_blk_def n_def)
  moreover have "sz \<le> n" using d(5) by (simp add: n_def)
  ultimately show thesis using that by blast
qed

subsection \<open>Release\<close>

lemma absorb_split:
  "absorb b bs = (c, rest) \<Longrightarrow>
   \<exists>fs. bs = fs @ rest \<and> (\<forall>f\<in>set fs. b_free f) \<and> (rest = [] \<or> \<not> b_free (hd rest)) \<and>
     b_addr c = b_addr b \<and> b_free c = b_free b \<and> b_kern c = b_kern b \<and>
     (\<forall>e. contig (b_end b) e bs \<longrightarrow> contig (b_end c) e rest)"
proof (induction bs arbitrary: b)
  case (Cons d bs)
  show ?case
  proof (cases "b_free d")
    case True
    let ?b = "b\<lparr>b_size := b_size b + (HDR + b_size d)\<rparr>"
    from True Cons.prems have "absorb ?b bs = (c, rest)" by simp
    from Cons.IH [OF this] obtain fs where fs: "bs = fs @ rest" "\<forall>f\<in>set fs. b_free f"
      "rest = [] \<or> \<not> b_free (hd rest)" "b_addr c = b_addr b" "b_free c = b_free b" "b_kern c = b_kern b"
      "\<forall>e. contig (b_end ?b) e bs \<longrightarrow> contig (b_end c) e rest" by auto
    have "b_end ?b = b_end d" if "b_addr d = b_end b" using that by (simp add: b_end_def)
    with fs True show ?thesis by (intro exI [of _ "d # fs"]) auto
  next
    case False
    with Cons.prems show ?thesis by (intro exI [of _ "[]"]) auto
  qed
qed simp

lemma contig_merge:
  assumes "contig a (b_addr c) (xs @ [b])"
  shows "contig a (b_end c) (xs @ [b\<lparr>b_size := b_size b + (HDR + b_size c)\<rparr>])"
  using assms by (auto simp: contig_append b_end_def)

lemma spec_free_contig:
  assumes "contig a e (pre @ b # post)"
  shows "contig a e (spec_free pre b post)"
proof -
  obtain c rest where ab: "absorb (b\<lparr>b_free := True\<rparr>) post = (c, rest)" by fastforce
  from assms have pre: "contig a (b_addr b) pre" and post: "contig (b_end b) e post"
    by (auto simp: contig_append)
  from absorb_split [OF ab] post have c: "b_addr c = b_addr b" "contig (b_end c) e rest"
    by (auto simp: b_end_def)
  show ?thesis
  proof (cases "pre \<noteq> [] \<and> b_free (last pre)")
    case True
    then have "contig a (b_addr c) (butlast pre @ [last pre])" using pre c by simp
    from contig_merge [OF this] c(2) True ab show ?thesis
      by (auto simp: spec_free_def contig_append)
  next
    case False
    with pre c ab show ?thesis by (auto simp: spec_free_def contig_append)
  qed
qed

lemma spec_free_coalesced:
  assumes "coalesced (pre @ b # post)"
  shows "coalesced (spec_free pre b post)"
proof -
  obtain c rest where ab: "absorb (b\<lparr>b_free := True\<rparr>) post = (c, rest)" by fastforce
  from absorb_split [OF ab] obtain fs where fs: "post = fs @ rest" "b_free c"
    "rest = [] \<or> \<not> b_free (hd rest)" by auto
  from assms fs have "coalesced pre" "coalesced rest" by (auto simp: coalesced_simps)
  moreover have "coalesced (butlast pre @ last pre # rest)" if "pre \<noteq> []"
  proof -
    have "coalesced (butlast pre @ [last pre])" using calculation(1) that by simp
    with calculation(2) fs(3) show ?thesis by (auto simp: coalesced_simps)
  qed
  ultimately show ?thesis
    using ab fs(2,3) append_butlast_last_id [of pre]
    by (cases "pre = []") (auto simp: spec_free_def coalesced_simps)
qed

lemma live_absorb: "absorb b bs = (c, rest) \<Longrightarrow> live_regions rest = live_regions bs"
  by (drule absorb_split) (auto simp: live_regions_def)

lemma spec_free_live:
  assumes "contig a e (pre @ b # post)" "\<not> b_free b"
  shows "live_regions (spec_free pre b post) =
    live_regions (pre @ b # post) - {(b_addr b + HDR, b_size b)}"
proof -
  obtain c rest where ab: "absorb (b\<lparr>b_free := True\<rparr>) post = (c, rest)" by fastforce
  have "b_free c" using absorb_split [OF ab] by auto
  have "distinct (map b_addr (pre @ b # post))" by (rule contig_distinct [OF assms(1)])
  then have "(b_addr b + HDR, b_size b) \<notin> live_regions pre \<union> live_regions post"
    by (auto simp: live_regions_def)
  moreover have "live_regions (spec_free pre b post) = live_regions pre \<union> live_regions post"
  proof (cases "pre \<noteq> [] \<and> b_free (last pre)")
    case True
    then have "live_regions pre = live_regions (butlast pre)"
      using live_regions_simps(3) [of "butlast pre" "[last pre]"] by simp
    with True ab \<open>b_free c\<close> show ?thesis by (simp add: spec_free_def live_absorb [OF ab])
  next
    case False
    with ab \<open>b_free c\<close> show ?thesis by (auto simp: spec_free_def live_absorb [OF ab])
  qed
  ultimately show ?thesis using assms(2) by auto
qed

text \<open>Releasing what was just allocated restores the list: the split is undone. Only the
  owner flag of the block, which has no meaning while it is free, keeps its new value.\<close>

lemma spec_malloc_free:
  assumes "coalesced (pre @ b # post)" "b_free b" "sz \<le> b_size b"
    and "take_blk sz k b = u # r"
  shows "spec_free pre u (r @ post) = pre @ b\<lparr>b_kern := k\<rparr> # post"
proof -
  have post: "post = [] \<or> \<not> b_free (hd post)" and pre: "pre = [] \<or> \<not> b_free (last pre)"
    using assms(1,2) by (auto simp: coalesced_simps)
  have "absorb d post = (d, post)" for d using post by (cases post) auto
  then have "absorb (u\<lparr>b_free := True\<rparr>) (r @ post) = (b\<lparr>b_kern := k\<rparr>, post)"
    using assms(2,3,4) by (auto simp: take_blk_def split: if_splits)
  with pre show ?thesis by (auto simp: spec_free_def)
qed

end
