(* ===== verification/FF_Refine.thy ===== *)
theory FF_Refine
  imports FF_Spec
begin

text \<open>
  The pointer code of \<open>memoryManagerFF.c\<close> refines the block lists of \<open>FF_Spec\<close>:
  \<open>seg\<close> says which list of blocks a chain of \<open>next\<close> pointers stands for, and each loop,
  started on a heap that represents a list, ends and leaves a heap that represents the list
  the abstract function gives. Termination is part of every statement, since the loops
  return \<open>None\<close> when they do not end.
\<close>

definition hdr_of :: "(addr \<Rightarrow> mem_block) \<Rightarrow> blk \<Rightarrow> bool" where
  "hdr_of m b \<longleftrightarrow> mb_size (m (b_addr b)) = b_size b \<and> mb_is_free (m (b_addr b)) = b_free b \<and>
     mb_is_kernel (m (b_addr b)) = b_kern b"

fun seg :: "(addr \<Rightarrow> mem_block) \<Rightarrow> ptr \<Rightarrow> blk list \<Rightarrow> ptr \<Rightarrow> bool" where
  "seg m p [] q \<longleftrightarrow> p = q"
| "seg m p (b # bs) q \<longleftrightarrow> p = Some (b_addr b) \<and> hdr_of m b \<and> seg m (mb_next (m (b_addr b))) bs q"

lemma seg_append: "seg m p (xs @ ys) q \<longleftrightarrow> (\<exists>r. seg m p xs r \<and> seg m r ys q)"
  by (induction xs arbitrary: p) auto

lemma seg_cong:
  "(\<And>b. b \<in> set bs \<Longrightarrow> m' (b_addr b) = m (b_addr b)) \<Longrightarrow> seg m' p bs q = seg m p bs q"
  by (induction bs arbitrary: p) (auto simp: hdr_of_def)

lemma seg_upd_other [simp]:
  "a \<notin> b_addr ` set bs \<Longrightarrow> seg (m(a := x)) p bs q = seg m p bs q"
  by (rule seg_cong) auto

text \<open>The heap \<open>h\<close> holds the blocks \<open>bs\<close>, which tile \<open>[a, e)\<close> with no two free neighbours.\<close>

definition ff_rep :: "addr \<Rightarrow> addr \<Rightarrow> ff_heap \<Rightarrow> blk list \<Rightarrow> bool" where
  "ff_rep a e h bs \<longleftrightarrow> bs \<noteq> [] \<and> heap_start h = Some a \<and> seg (blocks h) (Some a) bs None \<and>
     contig a e bs \<and> coalesced bs"

lemma ff_rep_init:
  "HDR < sz \<Longrightarrow> ff_rep a (a + sz) (mm_init a sz h)
     [\<lparr>b_addr = a, b_size = sz - HDR, b_free = True, b_kern = False\<rparr>]"
  by (simp add: ff_rep_def mm_init_def hdr_of_def b_end_def coalesced_simps)

subsection \<open>Allocation\<close>

lemma malloc_take_seg:
  assumes "seg m (Some (b_addr b)) (b # post) q" "contig (b_end b) e post" "sz \<le> b_size b"
  shows "seg (malloc_take sz k m (b_addr b)) (Some (b_addr b)) (take_blk sz k b @ post) q"
proof -
  have out: "x < b_end b \<Longrightarrow> x \<notin> b_addr ` set post" for x
    using contig_bounds [OF assms(2)] by fastforce
  have "b_addr b < b_end b" by (simp add: b_end_def)
  with assms out out [of "b_addr b + HDR + sz"] show ?thesis
    by (auto simp: malloc_take_def take_blk_def hdr_of_def b_end_def Let_def)
qed

lemma malloc_take_frame:
  "x < a \<Longrightarrow> malloc_take sz k m a x = m x"
  by (auto simp: malloc_take_def Let_def)

lemma malloc_loop_spec:
  assumes "seg m p bs None" "contig a e bs"
  shows "case spec_malloc sz k bs of
      None \<Rightarrow> malloc_loop sz k m p = Some (m, None)
    | Some (bs', r) \<Rightarrow> \<exists>m'. malloc_loop sz k m p = Some (m', Some r) \<and> seg m' p bs' None \<and>
        (\<forall>x<a. m' x = m x)"
  using assms
proof (induction bs arbitrary: p a)
  case Nil
  then show ?case by simp
next
  case (Cons b bs)
  then have p: "p = Some (b_addr b)" and h: "hdr_of m b" and ab: "b_addr b = a"
    and s: "seg m (mb_next (m (b_addr b))) bs None" and c: "contig (b_end b) e bs" by auto
  show ?case
  proof (cases "b_free b \<and> sz \<le> b_size b")
    case True
    have "seg (malloc_take sz k m a) p (take_blk sz k b @ bs) None"
      using malloc_take_seg [OF _ c, of m None sz k] Cons.prems(1) p ab True by simp
    moreover have "malloc_loop sz k m p = Some (malloc_take sz k m a, Some (b_addr b + HDR))"
      using True p h ab by (simp add: hdr_of_def)
    ultimately show ?thesis using True malloc_take_frame by simp
  next
    case False
    have step: "malloc_loop sz k m p = malloc_loop sz k m (mb_next (m (b_addr b)))"
      using False p h by (auto simp: hdr_of_def)
    have "a < b_end b" using ab by (simp add: b_end_def)
    with Cons.IH [OF s c] step False p h ab show ?thesis
      by (auto simp: hdr_of_def split: option.splits prod.splits)
  qed
qed

lemma malloc_impl_refines:
  assumes "ff_rep a e h bs" "sz \<noteq> 0"
  shows "case spec_malloc (unat (align8 sz)) k bs of
      None \<Rightarrow> malloc_impl sz k h = Some (h, None)
    | Some (bs', r) \<Rightarrow> \<exists>h'. malloc_impl sz k h = Some (h', Some r) \<and> ff_rep a e h' bs'"
proof (cases "spec_malloc (unat (align8 sz)) k bs")
  case None
  with malloc_loop_spec [of "blocks h" "Some a" bs a e "unat (align8 sz)" k] assms
  show ?thesis by (simp add: malloc_impl_def ff_rep_def)
next
  case (Some r)
  obtain bs' p where r: "r = (bs', p)" by fastforce
  with Some malloc_loop_spec [of "blocks h" "Some a" bs a e "unat (align8 sz)" k] assms
  obtain m' where m': "malloc_loop (unat (align8 sz)) k (blocks h) (Some a) = Some (m', Some p)"
    "seg m' (Some a) bs' None" by (auto simp: ff_rep_def)
  have "bs' \<noteq> []" using Some r by (auto elim!: spec_malloc_SomeE simp: take_blk_def split: if_splits)
  with m' assms Some r show ?thesis
    using spec_malloc_contig [of a e bs] spec_malloc_coalesced [of bs]
    by (auto simp: malloc_impl_def ff_rep_def)
qed

subsection \<open>Release\<close>

lemma coalesce_fwd_spec:
  assumes "hdr_of m b" "seg m (mb_next (m (b_addr b))) post None" "contig (b_end b) e post"
    "absorb b post = (c, rest)"
  shows "\<exists>m'. coalesce_fwd m (b_addr b) = Some m' \<and> hdr_of m' c \<and>
    seg m' (mb_next (m' (b_addr b))) rest None \<and> (\<forall>y. y \<noteq> b_addr b \<longrightarrow> m' y = m y)"
  using assms
proof (induction post arbitrary: m b)
  case Nil
  then show ?case by (intro exI [of _ m]) (simp add: coalesce_fwd_stop)
next
  case (Cons d post)
  then have n: "mb_next (m (b_addr b)) = Some (b_addr d)" and d: "hdr_of m d"
    and s: "seg m (mb_next (m (b_addr d))) post None" and ad: "b_addr d = b_end b"
    and ct: "contig (b_end d) e post" by auto
  show ?case
  proof (cases "b_free d")
    case True
    let ?b = "b\<lparr>b_size := b_size b + (HDR + b_size d)\<rparr>"
    let ?m = "m(b_addr b := (m (b_addr b))\<lparr>mb_size := mb_size (m (b_addr b)) + (HDR + mb_size (m (b_addr d))),
                               mb_next := mb_next (m (b_addr d))\<rparr>)"
    have step: "coalesce_fwd m (b_addr b) = coalesce_fwd ?m (b_addr b)"
      by (rule coalesce_fwd_step) (use n d True in \<open>simp_all add: hdr_of_def\<close>)
    have e: "b_end ?b = b_end d" using ad by (simp add: b_end_def)
    have "b_addr b \<notin> b_addr ` set post" using contig_bounds [OF ct] ad by (fastforce simp: b_end_def)
    then have 1: "hdr_of ?m ?b" and 2: "seg ?m (mb_next (?m (b_addr ?b))) post None"
      using Cons.prems(1) d s by (simp_all add: hdr_of_def)
    have 3: "contig (b_end ?b) e post" unfolding e by (rule ct)
    have 4: "absorb ?b post = (c, rest)" using Cons.prems(4) True by simp
    have 5: "b_addr ?b = b_addr b" by simp
    from Cons.IH [OF 1 2 3 4, unfolded 5] obtain m' where "coalesce_fwd ?m (b_addr b) = Some m'"
      "hdr_of m' c" "seg m' (mb_next (m' (b_addr b))) rest None"
      "\<forall>y. y \<noteq> b_addr b \<longrightarrow> m' y = ?m y"
      by blast
    with step show ?thesis by (intro exI [of _ m']) simp
  next
    case False
    with Cons.prems n d show ?thesis
      by (intro exI [of _ m]) (auto simp: coalesce_fwd_stop(2) hdr_of_def)
  qed
qed

lemma find_prev_None:
  "seg m p bs None \<Longrightarrow> contig a e bs \<Longrightarrow> x \<le> a \<Longrightarrow> find_prev m x p = Some None"
proof (induction bs arbitrary: p a)
  case Nil
  then show ?case by simp
next
  case (Cons b bs)
  have x: "x < b_end b" using Cons.prems by (simp add: b_end_def)
  have "mb_next (m (b_addr b)) \<noteq> Some x"
    using Cons.prems x by (cases bs) auto
  moreover have "find_prev m x (mb_next (m (b_addr b))) = Some None"
    using Cons.IH [of "mb_next (m (b_addr b))" "b_end b"] Cons.prems x by simp
  ultimately show ?case using Cons.prems by simp
qed

lemma find_prev_Some:
  "seg m p pre (Some x) \<Longrightarrow> contig a x pre \<Longrightarrow> pre \<noteq> [] \<Longrightarrow>
   find_prev m x p = Some (Some (b_addr (last pre)))"
proof (induction pre arbitrary: p a)
  case (Cons b pre)
  show ?case
  proof (cases "pre = []")
    case True
    with Cons.prems show ?thesis by simp
  next
    case False
    then obtain c cs where c: "pre = c # cs" by (cases pre) auto
    with Cons.prems have "b_end b = b_addr c" "b_end c \<le> x" using contig_le by auto
    then have "mb_next (m (b_addr b)) \<noteq> Some x" using Cons.prems c by (auto simp: b_end_def)
    moreover have "find_prev m x (mb_next (m (b_addr b))) = Some (Some (b_addr (last pre)))"
      using Cons.IH [of _ "b_end b"] Cons.prems False by simp
    ultimately show ?thesis using Cons.prems False by simp
  qed
qed simp

text \<open>The chain up to the last block before \<open>block\<close>, which is rewritten.\<close>

lemma seg_snoc: "seg m p (xs @ [b]) q \<longleftrightarrow> seg m p xs (Some (b_addr b)) \<and> hdr_of m b \<and> mb_next (m (b_addr b)) = q"
  by (auto simp: seg_append)

lemma mm_free_refines:
  assumes rep: "ff_rep a e h (pre @ b # post)"
  shows "\<exists>h'. mm_free (Some (b_addr b + HDR)) h = Some h' \<and> ff_rep a e h' (spec_free pre b post)"
proof -
  let ?x = "b_addr b" and ?b = "b\<lparr>b_free := True\<rparr>"
  obtain c rest where ab: "absorb ?b post = (c, rest)" by fastforce
  from absorb_split [OF ab] have ca: "b_addr c = ?x" and cf: "b_free c" by auto
  from rep have hs: "heap_start h = Some a" and s: "seg (blocks h) (Some a) (pre @ b # post) None"
    and ct: "contig a e (pre @ b # post)" by (auto simp: ff_rep_def)
  from ct have cpre: "contig a ?x pre" and cpost: "contig (b_end b) e post"
    by (auto simp: contig_append)
  have dist: "distinct (map b_addr (pre @ b # post))" by (rule contig_distinct [OF ct])
  from s obtain spre: "seg (blocks h) (Some a) pre (Some ?x)" and hb: "hdr_of (blocks h) b"
    and spost: "seg (blocks h) (mb_next (blocks h ?x)) post None" by (auto simp: seg_append)
  define m0 where "m0 = (blocks h)(?x := (blocks h ?x)\<lparr>mb_is_free := True\<rparr>)"
  have "hdr_of m0 ?b" "seg m0 (mb_next (m0 (b_addr ?b))) post None" "contig (b_end ?b) e post"
    using hb spost dist cpost by (auto simp: m0_def hdr_of_def b_end_def)
  from coalesce_fwd_spec [OF this ab] obtain m1 where m1: "coalesce_fwd m0 ?x = Some m1" "hdr_of m1 c"
    "seg m1 (mb_next (m1 ?x)) rest None" "\<forall>y. y \<noteq> ?x \<longrightarrow> m1 y = m0 y" by auto
  then have eq: "y \<noteq> ?x \<Longrightarrow> m1 y = blocks h y" for y by (simp add: m0_def)
  have spre1: "seg m1 (Some a) pre (Some ?x)"
  proof -
    have "b_addr d \<noteq> ?x" if "d \<in> set pre" for d using dist imageI [OF that, of b_addr] by auto
    then have "seg m1 (Some a) pre (Some ?x) = seg (blocks h) (Some a) pre (Some ?x)"
      by (intro seg_cong) (simp add: eq)
    with spre show ?thesis by simp
  qed
  have s1: "seg m1 (Some a) (pre @ c # rest) None" using spre1 m1 ca by (auto simp: seg_append)
  note free_contig = spec_free_contig [OF ct]
  have free_coal: "coalesced (spec_free pre b post)"
    using rep by (intro spec_free_coalesced) (simp add: ff_rep_def)
  show ?thesis
  proof (cases "pre = []")
    case True
    then have "?x = a" using cpre by simp
    have "contig ?x e (c # rest)" using free_contig True ab ca by (simp add: spec_free_def)
    then have crest: "contig (b_end c) e rest" "?x < b_end c" using ca by (auto simp: b_end_def)
    have "find_prev m1 ?x (Some ?x) = Some None"
      using find_prev_None [of m1 "Some ?x" "c # rest" ?x e ?x] s1 True \<open>?x = a\<close> crest(1) ca by simp
    with m1 hs True \<open>?x = a\<close> s1 free_contig free_coal ab show ?thesis
      by (intro exI [of _ "h\<lparr>blocks := m1\<rparr>"])
        (simp add: mm_free_def ff_rep_def spec_free_def Let_def m0_def del: find_prev_simps)
  next
    case False
    then obtain ps l where pl: "pre = ps @ [l]" by (cases pre rule: rev_cases) auto
    let ?y = "b_addr l"
    have prev: "find_prev m1 ?x (Some a) = Some (Some ?y)"
      using find_prev_Some [OF spre1 cpre False] pl by simp
    have l: "hdr_of m1 l" "mb_next (m1 ?y) = Some ?x" "seg m1 (Some a) ps (Some ?y)"
      using spre1 pl by (auto simp: seg_snoc)
    show ?thesis
    proof (cases "b_free l")
      case True
      let ?m = "m1(?y := (m1 ?y)\<lparr>mb_size := mb_size (m1 ?y) + (HDR + mb_size (m1 ?x)),
                                 mb_next := mb_next (m1 ?x)\<rparr>)"
      have fr: "mm_free (Some (?x + HDR)) h = Some (h\<lparr>blocks := ?m\<rparr>)"
        using m1(1) hs prev True l(1) by (simp add: mm_free_def Let_def m0_def hdr_of_def)
      have sp: "spec_free pre b post = ps @ l\<lparr>b_size := b_size l + (HDR + b_size c)\<rparr> # rest"
        using ab pl True by (simp add: spec_free_def)
      have "?y \<notin> b_addr ` set rest" "?y \<notin> b_addr ` set ps"
        using contig_distinct [OF free_contig] by (auto simp: sp)
      then have "seg ?m (Some a) (spec_free pre b post) None"
        using l m1(2,3) ca by (auto simp: sp seg_append hdr_of_def)
      with fr hs free_contig free_coal sp show ?thesis by (auto simp: ff_rep_def)
    next
      case False
      have fr: "mm_free (Some (?x + HDR)) h = Some (h\<lparr>blocks := m1\<rparr>)"
        using m1(1) hs prev False l(1) by (simp add: mm_free_def Let_def m0_def hdr_of_def)
      have "spec_free pre b post = pre @ c # rest"
        using ab pl False by (simp add: spec_free_def)
      with fr hs s1 free_contig free_coal show ?thesis by (simp add: ff_rep_def)
    qed
  qed
qed

subsection \<open>The report\<close>

definition bytes_of :: "(blk \<Rightarrow> bool) \<Rightarrow> blk list \<Rightarrow> nat" where
  "bytes_of P bs = (\<Sum>b\<leftarrow>filter P bs. HDR + b_size b)"

lemma status_loop_spec:
  "seg m p bs None \<Longrightarrow> status_loop m p st = Some
     \<lparr>ms_total = ms_total st + bytes_of (\<lambda>_. True) bs,
      ms_free = ms_free st + bytes_of b_free bs,
      ms_used = ms_used st + bytes_of (\<lambda>b. \<not> b_free b \<and> \<not> b_kern b) bs,
      ms_used_kernel = ms_used_kernel st + bytes_of (\<lambda>b. \<not> b_free b \<and> b_kern b) bs,
      ms_alloc_count = ms_alloc_count st + length (filter (\<lambda>b. \<not> b_free b \<and> \<not> b_kern b) bs)\<rparr>"
proof (induction bs arbitrary: p st)
  case Nil
  then show ?case by (cases st) (simp add: bytes_of_def)
next
  case (Cons b bs)
  then have "p = Some (b_addr b)" "hdr_of m b" "seg m (mb_next (m (b_addr b))) bs None" by auto
  with Cons.IH show ?case
    by (cases "b_free b"; cases "b_kern b") (simp_all add: status_loop_Some hdr_of_def bytes_of_def Let_def ac_simps)
qed

lemma bytes_of_partition:
  "bytes_of (\<lambda>_. True) bs =
   bytes_of b_free bs + bytes_of (\<lambda>b. \<not> b_free b \<and> \<not> b_kern b) bs + bytes_of (\<lambda>b. \<not> b_free b \<and> b_kern b) bs"
  by (induction bs) (auto simp: bytes_of_def)

subsection \<open>The contract of the allocator\<close>

lemma align8_bounds:
  "unat n + 7 < 2 ^ 64 \<Longrightarrow> unat n \<le> unat (align8 n) \<and> unat (align8 n) < unat n + 8"
proof -
  assume "unat n + 7 < 2 ^ 64"
  then have "unat (n + 7) = unat n + 7" by (simp add: unat_word_ariths)
  then show ?thesis unfolding align8_def unat_and_not_7 by presburger
qed

lemma align8_dvd: "8 dvd unat (align8 n)"
  unfolding align8_def unat_and_not_7 by (rule dvd_minus_mod)

definition ff_live :: "addr \<Rightarrow> addr \<Rightarrow> ff_heap \<Rightarrow> (nat \<times> nat) set \<Rightarrow> bool" where
  "ff_live a e h L \<longleftrightarrow> (\<exists>bs. ff_rep a e h bs \<and> L = live_regions bs)"

text \<open>A request that rounds up within 64 bits.\<close>

definition ff_fits :: "u64 \<Rightarrow> bool" where
  "ff_fits n \<longleftrightarrow> unat n + 7 < 2 ^ 64"

lemma ff_alloc_ok:
  assumes "ff_live a e h L"
  shows "\<exists>h' r. malloc_impl n k h = Some (h', r) \<and>
    (case r of
       None \<Rightarrow> ff_live a e h' L
     | Some p \<Rightarrow> \<exists>sz. (ff_fits n \<longrightarrow> unat n \<le> sz) \<and> ff_live a e h' (insert (p, sz) L) \<and> p \<notin> fst ` L)"
proof -
  obtain bs where bs: "ff_rep a e h bs" "L = live_regions bs" using assms by (auto simp: ff_live_def)
  have ct: "contig a e bs" using bs by (simp add: ff_rep_def)
  show ?thesis
  proof (cases "n = 0")
    case True
    with assms show ?thesis by (simp add: malloc_impl_def)
  next
    case False
    show ?thesis
    proof (cases "spec_malloc (unat (align8 n)) k bs")
      case None
      with malloc_impl_refines [OF bs(1) False, of k] assms show ?thesis by simp
    next
      case (Some r)
      obtain bs' p where r: "r = (bs', p)" by fastforce
      from malloc_impl_refines [OF bs(1) False, of k] Some r obtain h' where
        h': "malloc_impl n k h = Some (h', Some p)" "ff_rep a e h' bs'" by auto
      from spec_malloc_live [OF ct Some [unfolded r]] obtain sz where
        sz: "unat (align8 n) \<le> sz" "live_regions bs' = insert (p, sz) (live_regions bs)"
        "(p, sz) \<notin> live_regions bs" .
      have "p \<notin> fst ` L"
      proof
        assume "p \<in> fst ` L"
        then obtain q where q: "(p, q) \<in> live_regions bs" using bs(2) by force
        have "contig a e bs'" using h'(2) by (simp add: ff_rep_def)
        moreover have "(p, q) \<in> live_regions bs'" "(p, sz) \<in> live_regions bs'" using q sz(2) by auto
        ultimately have "q = sz" by (rule live_functional)
        with q sz(3) show False by simp
      qed
      moreover have "ff_fits n \<longrightarrow> unat n \<le> sz"
        using sz(1) align8_bounds [of n] by (auto simp: ff_fits_def)
      moreover have "ff_live a e h' (insert (p, sz) L)"
        using h'(2) sz(2) bs(2) unfolding ff_live_def by blast
      ultimately show ?thesis using h'(1) by auto
    qed
  qed
qed

lemma ff_release_ok:
  assumes "ff_live a e h L" "(p, m) \<in> L"
  shows "\<exists>h'. mm_free (Some p) h = Some h' \<and> ff_live a e h' (L - {(p, m)})"
proof -
  obtain bs where bs: "ff_rep a e h bs" "L = live_regions bs" using assms by (auto simp: ff_live_def)
  then obtain b where b: "b \<in> set bs" "p = b_addr b + HDR" "m = b_size b" "\<not> b_free b"
    using assms(2) by (auto simp: live_regions_def)
  then obtain pre post where s: "bs = pre @ b # post" by (auto simp: in_set_conv_decomp)
  from mm_free_refines [OF bs(1) [unfolded s]] obtain h' where
    h': "mm_free (Some p) h = Some h'" "ff_rep a e h' (spec_free pre b post)" using b(2) by auto
  have "contig a e (pre @ b # post)" using bs(1) s by (simp add: ff_rep_def)
  from spec_free_live [OF this b(4)] h' bs(2) s b show ?thesis by (auto simp: ff_live_def)
qed

lemma ff_live_disjoint:
  "ff_live a e h L \<Longrightarrow> (p, m) \<in> L \<Longrightarrow> (q, n) \<in> L \<Longrightarrow> (p, m) \<noteq> (q, n) \<Longrightarrow> p + m \<le> q \<or> q + n \<le> p"
  unfolding ff_live_def ff_rep_def using live_disjoint by blast

interpretation ff: allocator malloc_impl mm_free "ff_live a e" ff_fits for a e
  by unfold_locales (simp_all add: ff_alloc_ok ff_release_ok ff_live_disjoint, simp add: mm_free_def)

end
