(* ===== verification/FF_Props.thy ===== *)
theory FF_Props
  imports FF_Refine
begin

text \<open>
  The properties of the First-Fit allocator, stated about the pointer code of
  \<open>memoryManagerFF.c\<close> and proved from the refinement to block lists and from the
  allocator contract.
\<close>

text \<open>C1: Starting from \<open>mm_init\<close>, any sequence of allocations and releases of held pointers
  returns (no loop of the allocator runs forever), the pointers held are exactly the starts of
  the live payloads, and the live payloads lie inside the heap and never overlap.\<close>

theorem ff_workload_safe:
  assumes "HDR < sz"
  shows "\<exists>h' held L. mem_run malloc_impl mm_free ops (mm_init a sz h, []) = Some (h', held) \<and>
    ff_live a (a + sz) h' L \<and> set held = fst ` L \<and> distinct held \<and>
    (\<forall>p m. (p, m) \<in> L \<longrightarrow> a + HDR \<le> p \<and> p + m \<le> a + sz) \<and>
    (\<forall>p m q n. (p, m) \<in> L \<longrightarrow> (q, n) \<in> L \<longrightarrow> (p, m) \<noteq> (q, n) \<longrightarrow> p + m \<le> q \<or> q + n \<le> p)"
proof -
  have "ff_live a (a + sz) (mm_init a sz h) {}"
    using ff_rep_init [OF assms, of a h] by (auto simp: ff_live_def intro!: exI)
  from ff.mem_run_ok [OF this, of "[]" ops] obtain h' held L where
    r: "mem_run malloc_impl mm_free ops (mm_init a sz h, []) = Some (h', held)"
    "ff_live a (a + sz) h' L" "set held = fst ` L" "distinct held" by auto
  have "a + HDR \<le> p \<and> p + m \<le> a + sz" if "(p, m) \<in> L" for p m
    using r(2) that live_in_heap by (auto simp: ff_live_def ff_rep_def)
  with r ff.rep_disjoint [OF r(2)] show ?thesis by blast
qed

theorem ff_workload_safe_witness:
  "\<exists>h' held L. mem_run malloc_impl mm_free [Alloc 4096 True, Alloc 10 False, Free 1, Alloc 5000 False]
      (mm_init 6291456 8388608 \<lparr>heap_start = None, blocks = \<lambda>_. \<lparr>mb_size = 0, mb_is_free = False,
         mb_is_kernel = False, mb_next = None\<rparr>\<rparr>, []) = Some (h', held) \<and>
    ff_live 6291456 14680064 h' L"
  using ff_workload_safe [of 8388608 "[Alloc 4096 True, Alloc 10 False, Free 1, Alloc 5000 False]" 6291456
    "\<lparr>heap_start = None, blocks = \<lambda>_. \<lparr>mb_size = 0, mb_is_free = False, mb_is_kernel = False, mb_next = None\<rparr>\<rparr>"]
  by auto

text \<open>C2: On a heap that holds the blocks \<open>bs\<close>, \<open>malloc_impl\<close> returns and computes first fit
  on that list: \<open>NULL\<close> and no change exactly when no free block is large enough for the rounded
  request, and otherwise the payload address of the first free block that fits, split when at
  least \<open>MIN_SPLIT\<close> bytes are left.\<close>

theorem ff_malloc_refines:
  assumes "ff_rep a e h bs" "sz \<noteq> 0"
  shows "(malloc_impl sz k h = Some (h, None) \<and> (\<forall>b\<in>set bs. b_free b \<longrightarrow> b_size b < unat (align8 sz))) \<or>
    (\<exists>h' pre b post. malloc_impl sz k h = Some (h', Some (b_addr b + HDR)) \<and>
       bs = pre @ b # post \<and> b_free b \<and> unat (align8 sz) \<le> b_size b \<and>
       (\<forall>c\<in>set pre. b_free c \<longrightarrow> b_size c < unat (align8 sz)) \<and>
       ff_rep a e h' (pre @ take_blk (unat (align8 sz)) k b @ post))"
proof (cases "spec_malloc (unat (align8 sz)) k bs")
  case None
  with malloc_impl_refines [OF assms, of k] show ?thesis by (simp add: spec_malloc_None_iff)
next
  case (Some r)
  obtain bs' p where r: "r = (bs', p)" by fastforce
  with malloc_impl_refines [OF assms, of k] Some obtain h' where
    h': "malloc_impl sz k h = Some (h', Some p)" "ff_rep a e h' bs'" by auto
  from Some r have "spec_malloc (unat (align8 sz)) k bs = Some (bs', p)" by simp
  then show ?thesis
    using h' by (elim spec_malloc_SomeE) blast
qed

definition heap8 :: ff_heap where
  "heap8 = mm_init 6291456 8388608 \<lparr>heap_start = None,
     blocks = \<lambda>_. \<lparr>mb_size = 0, mb_is_free = False, mb_is_kernel = False, mb_next = None\<rparr>\<rparr>"

definition heap8_blks :: "blk list" where
  "heap8_blks = [\<lparr>b_addr = 6291456, b_size = 8388584, b_free = True, b_kern = False\<rparr>]"

lemma heap8_rep: "ff_rep 6291456 14680064 heap8 heap8_blks"
  using ff_rep_init [of 8388608 6291456] by (simp add: heap8_def heap8_blks_def)

theorem ff_malloc_refines_witness:
  "\<exists>h' pre b post. malloc_impl 4096 True heap8 = Some (h', Some (b_addr b + HDR)) \<and>
     heap8_blks = pre @ b # post \<and> b_free b"
  using ff_malloc_refines [OF heap8_rep, of 4096 True]
  by (auto simp: heap8_blks_def align8_def)

text \<open>C3: Releasing the payload of an allocated block returns, merges the block with the free
  blocks behind it and with a free block in front of it, and the result again tiles the heap
  with no two free neighbours; every other live region stays as it was.\<close>

theorem ff_free_refines:
  assumes "ff_rep a e h (pre @ b # post)" "\<not> b_free b"
  shows "\<exists>h'. mm_free (Some (b_addr b + HDR)) h = Some h' \<and> ff_rep a e h' (spec_free pre b post) \<and>
    live_regions (spec_free pre b post) = live_regions (pre @ b # post) - {(b_addr b + HDR, b_size b)}"
proof -
  have "contig a e (pre @ b # post)" using assms(1) by (simp add: ff_rep_def)
  with mm_free_refines [OF assms(1)] spec_free_live [OF _ assms(2)] show ?thesis by blast
qed

theorem ff_free_refines_witness:
  "\<exists>h h'. ff_rep 0 200 h
      ([\<lparr>b_addr = 0, b_size = 16, b_free = True, b_kern = False\<rparr>] @
       \<lparr>b_addr = 40, b_size = 8, b_free = False, b_kern = True\<rparr> #
       [\<lparr>b_addr = 72, b_size = 104, b_free = True, b_kern = False\<rparr>]) \<and>
     mm_free (Some 64) h = Some h' \<and>
     ff_rep 0 200 h' [\<lparr>b_addr = 0, b_size = 176, b_free = True, b_kern = False\<rparr>]"
proof -
  let ?h = "\<lparr>heap_start = Some 0, blocks = (\<lambda>_. \<lparr>mb_size = 16, mb_is_free = True,
      mb_is_kernel = False, mb_next = Some 40\<rparr>)
      (40 := \<lparr>mb_size = 8, mb_is_free = False, mb_is_kernel = True, mb_next = Some 72\<rparr>,
       72 := \<lparr>mb_size = 104, mb_is_free = True, mb_is_kernel = False, mb_next = None\<rparr>)\<rparr>"
  let ?b = "\<lparr>b_addr = 40, b_size = 8, b_free = False, b_kern = True\<rparr>"
  let ?pre = "[\<lparr>b_addr = 0, b_size = 16, b_free = True, b_kern = False\<rparr>]"
  let ?post = "[\<lparr>b_addr = 72, b_size = 104, b_free = True, b_kern = False\<rparr>]"
  have r: "ff_rep 0 200 ?h (?pre @ ?b # ?post)"
    by (simp add: ff_rep_def hdr_of_def b_end_def coalesced_simps)
  from ff_free_refines [OF r] obtain h' where "mm_free (Some 64) ?h = Some h'"
    "ff_rep 0 200 h' (spec_free ?pre ?b ?post)" by auto
  moreover have "spec_free ?pre ?b ?post = [\<lparr>b_addr = 0, b_size = 176, b_free = True, b_kern = False\<rparr>]"
    by (simp add: spec_free_def)
  ultimately show ?thesis using r by (intro exI [of _ ?h] exI [of _ h'] conjI) simp_all
qed

text \<open>C4: Releasing what was just allocated undoes the allocation: the blocks of the heap are
  back to their addresses, sizes and free flags, so the split leaves no trace.\<close>

theorem ff_malloc_free_roundtrip:
  assumes "ff_rep a e h bs" "malloc_impl sz k h = Some (h1, Some p)"
  shows "\<exists>h2 bs2. mm_free (Some p) h1 = Some h2 \<and> ff_rep a e h2 bs2 \<and>
    map (\<lambda>b. (b_addr b, b_size b, b_free b)) bs2 = map (\<lambda>b. (b_addr b, b_size b, b_free b)) bs"
proof -
  have "sz \<noteq> 0" using assms(2) by (auto simp: malloc_impl_def)
  let ?n = "unat (align8 sz)"
  from ff_malloc_refines [OF assms(1) \<open>sz \<noteq> 0\<close>, of k] assms(2) obtain pre b post where
    b: "p = b_addr b + HDR" "bs = pre @ b # post" "b_free b" "?n \<le> b_size b"
    "ff_rep a e h1 (pre @ take_blk ?n k b @ post)" by auto
  obtain u r where u: "take_blk ?n k b = u # r" "b_addr u = b_addr b"
    by (cases "?n + MIN_SPLIT \<le> b_size b") (auto simp: take_blk_def)
  from mm_free_refines [of a e h1 pre u "r @ post"] b(5) u obtain h2 where
    h2: "mm_free (Some p) h1 = Some h2" "ff_rep a e h2 (spec_free pre u (r @ post))"
    using b(1) by auto
  have "coalesced (pre @ b # post)" using assms(1) b(2) by (simp add: ff_rep_def)
  from spec_malloc_free [OF this b(3,4) u(1)] h2 b(2) show ?thesis by auto
qed

theorem ff_malloc_free_roundtrip_witness:
  "\<exists>h1 p h2 bs2. malloc_impl 4096 True heap8 = Some (h1, Some p) \<and> mm_free (Some p) h1 = Some h2 \<and>
     ff_rep 6291456 14680064 h2 bs2 \<and>
     map (\<lambda>b. (b_addr b, b_size b, b_free b)) bs2 = [(6291456, 8388584, True)]"
proof -
  obtain h1 p where 1: "malloc_impl 4096 True heap8 = Some (h1, Some p)"
    by (auto simp: malloc_impl_def heap8_def mm_init_def align8_def)
  from ff_malloc_free_roundtrip [OF heap8_rep 1] 1 show ?thesis by (simp add: heap8_blks_def)
qed

text \<open>\<open>mm_status\<close> returns, reports the whole heap as its total, the total is the sum of the
  free, user and kernel bytes, and the allocation count is the number of live user blocks.\<close>

theorem ff_status_invariant:
  assumes "ff_rep a e h bs"
  shows "\<exists>st. mm_status (Some st0) h = Some (Some st) \<and> ms_total st = e - a \<and>
    ms_total st = ms_free st + ms_used st + ms_used_kernel st \<and>
    ms_free st = bytes_of b_free bs \<and>
    ms_alloc_count st = card {b \<in> set bs. \<not> b_free b \<and> \<not> b_kern b}"
proof -
  from assms have s: "seg (blocks h) (Some a) bs None" "heap_start h = Some a" and ct: "contig a e bs"
    by (auto simp: ff_rep_def)
  have "distinct bs" using contig_distinct [OF ct] by (simp add: distinct_map)
  then have "length (filter (\<lambda>b. \<not> b_free b \<and> \<not> b_kern b) bs) = card {b \<in> set bs. \<not> b_free b \<and> \<not> b_kern b}"
    using distinct_card [of "filter (\<lambda>b. \<not> b_free b \<and> \<not> b_kern b) bs"] by simp
  moreover have "bytes_of (\<lambda>_. True) bs = e - a" using contig_sum [OF ct] by (simp add: bytes_of_def)
  ultimately show ?thesis
    using status_loop_spec [OF s(1)] s(2) bytes_of_partition [of bs] by (simp add: mm_status_def)
qed

theorem ff_status_invariant_witness:
  "\<exists>st. mm_status (Some \<lparr>ms_total = 0, ms_free = 0, ms_used = 0, ms_used_kernel = 0, ms_alloc_count = 7\<rparr>) heap8 =
     Some (Some st) \<and> ms_total st = 8388608 \<and> ms_alloc_count st = 0"
  using ff_status_invariant [OF heap8_rep,
    of "\<lparr>ms_total = 0, ms_free = 0, ms_used = 0, ms_used_kernel = 0, ms_alloc_count = 7\<rparr>"]
  by (auto simp: heap8_blks_def)

text \<open>The rounding of a request wraps in 64 bits: the seven largest sizes round to zero, so
  on the heap the kernel starts with the allocator answers a request for nearly \<open>2\<^sup>6\<^sup>4\<close> bytes with
  a non-null pointer to a block with an empty payload instead of \<open>NULL\<close>.\<close>

theorem ff_malloc_wraps:
  assumes "2 ^ 64 - 7 \<le> unat sz"
  shows "align8 sz = 0 \<and>
    (\<exists>h'. malloc_impl sz k heap8 = Some (h', Some (6291456 + HDR)) \<and> mb_size (blocks h' 6291456) = 0)"
proof -
  have "unat (sz + 7) = unat sz + unat (7 :: u64) - 2 ^ 64"
    by (rule unat_add_wrap) (use assms in simp)
  then have "unat (sz + 7) < 8" using assms unat_lt_64 [of sz] by simp
  then have "unat (align8 sz) = 0" unfolding align8_def unat_and_not_7 by simp
  then have z: "align8 sz = 0" by (simp add: unat_eq_0)
  moreover have "sz \<noteq> 0" using assms by auto
  ultimately show ?thesis
    by (simp add: malloc_impl_def heap8_def mm_init_def malloc_take_def)
qed

theorem ff_malloc_wraps_witness:
  "align8 (2 ^ 64 - 1) = 0 \<and> (\<exists>h'. malloc_impl (2 ^ 64 - 1) False heap8 = Some (h', Some 6291480))"
  using ff_malloc_wraps [of "2 ^ 64 - 1" False] by auto

end
