(* ===== verification/CStr.thy ===== *)
theory CStr
  imports Prelude
begin

text \<open>
  C strings. A \<open>char *\<close> argument is the list of the characters the pointer reaches;
  reading at or past the end of the list gives the terminating \<open>'\0'\<close>, and a list that
  holds a \<open>'\0'\<close> stops there, as the loops of the code do. The functions are those of
  \<open>process.c\<close> (\<open>str_len\<close>, \<open>str_copy\<close>) and of \<open>semaphore.c\<close> (\<open>sem_str_eq\<close>,
  \<open>sem_str_copy\<close>); the lemmas say which list each loop computes.
\<close>

abbreviation NUL :: char where "NUL \<equiv> CHR 0x00"

definition cget :: "string \<Rightarrow> nat \<Rightarrow> char" where
  "cget s i = (if i < length s then s ! i else NUL)"

text \<open>The string a C reader sees: everything before the first \<open>'\0'\<close>.\<close>

definition cstr :: "string \<Rightarrow> string" where
  "cstr s = takeWhile (\<lambda>c. c \<noteq> NUL) s"

lemma cget_in_range: "cget s i \<noteq> NUL \<Longrightarrow> i < length s"
  by (auto simp: cget_def split: if_splits)

lemma cget_Cons_0 [simp]: "cget (c # s) 0 = c"
  by (simp add: cget_def)

lemma cget_Nil [simp]: "cget [] i = NUL"
  by (simp add: cget_def)

lemma cget_Cons_Suc [simp]: "cget (c # s) (Suc i) = cget s i"
  by (simp add: cget_def)

lemma cstr_drop_step: "cget s i \<noteq> NUL \<Longrightarrow> cstr (drop i s) = cget s i # cstr (drop (Suc i) s)"
proof -
  assume c: "cget s i \<noteq> NUL"
  then have "drop i s = cget s i # drop (Suc i) s"
    using cget_in_range [OF c] Cons_nth_drop_Suc [of i s] by (simp add: cget_def)
  with c show ?thesis by (simp add: cstr_def)
qed

lemma cstr_drop_stop: "cget s i = NUL \<Longrightarrow> cstr (drop i s) = []"
proof (cases "i < length s")
  case True
  assume "cget s i = NUL"
  with True have "drop i s = NUL # drop (Suc i) s"
    using Cons_nth_drop_Suc [of i s] by (simp add: cget_def)
  then show ?thesis by (simp add: cstr_def)
qed (simp add: cstr_def)

lemma cstr_no_NUL: "NUL \<notin> set (cstr s)"
  unfolding cstr_def by (metis set_takeWhileD)

lemma cstr_id: "NUL \<notin> set s \<Longrightarrow> cstr s = s"
  by (auto simp: cstr_def takeWhile_eq_all_conv)

lemma cstr_cstr [simp]: "cstr (cstr s) = cstr s"
  by (rule cstr_id) (rule cstr_no_NUL)

subsection \<open>The loops of the code\<close>

function str_len_loop :: "string \<Rightarrow> nat \<Rightarrow> nat" where
  "str_len_loop s n = (if cget s n \<noteq> NUL then str_len_loop s (Suc n) else n)"
  by pat_completeness auto
termination
  by (relation "measure (\<lambda>(s, n). length s - n)") (auto dest: cget_in_range)

declare str_len_loop.simps [simp del]

definition str_len :: "string option \<Rightarrow> nat" where
  "str_len s = (case s of None \<Rightarrow> 0 | Some t \<Rightarrow> str_len_loop t 0)"

function str_copy_loop :: "nat \<Rightarrow> string \<Rightarrow> nat \<Rightarrow> string" where
  "str_copy_loop mx src i =
     (if i < mx - 1 \<and> cget src i \<noteq> NUL then cget src i # str_copy_loop mx src (Suc i) else [])"
  by pat_completeness auto
termination
  by (relation "measure (\<lambda>(mx, s, i). mx - i)") auto

declare str_copy_loop.simps [simp del]

text \<open>The destination array as the string it holds afterwards.\<close>

definition str_copy :: "string option \<Rightarrow> nat \<Rightarrow> string" where
  "str_copy src mx = (case src of None \<Rightarrow> [] | Some s \<Rightarrow> str_copy_loop mx s 0)"

function sem_str_eq_loop :: "string \<Rightarrow> string \<Rightarrow> nat \<Rightarrow> bool" where
  "sem_str_eq_loop a b i =
     (if cget a i \<noteq> NUL \<and> cget a i = cget b i then sem_str_eq_loop a b (Suc i)
      else cget a i = cget b i)"
  by pat_completeness auto
termination
  by (relation "measure (\<lambda>(a, b, i). length a - i)") (auto dest: cget_in_range)

declare sem_str_eq_loop.simps [simp del]

definition sem_str_eq :: "string option \<Rightarrow> string option \<Rightarrow> bool" where
  "sem_str_eq a b =
     (case (a, b) of (Some x, Some y) \<Rightarrow> sem_str_eq_loop x y 0 | _ \<Rightarrow> False)"

definition sem_str_copy :: "string option \<Rightarrow> nat \<Rightarrow> string" where
  "sem_str_copy src mx = (case src of None \<Rightarrow> [] | Some s \<Rightarrow> str_copy_loop mx s 0)"

subsection \<open>What the loops compute\<close>

lemma str_len_loop_eq: "str_len_loop s n = n + length (cstr (drop n s))"
proof (induction s n rule: str_len_loop.induct)
  case (1 s n)
  then show ?case
    by (cases "cget s n = NUL")
      (simp_all add: str_len_loop.simps [of s n] cstr_drop_stop cstr_drop_step)
qed

lemma str_len_Some [simp]: "str_len (Some s) = length (cstr s)"
  by (simp add: str_len_def str_len_loop_eq)

lemma str_copy_loop_eq: "str_copy_loop mx s i = take (mx - 1 - i) (cstr (drop i s))"
proof (induction mx s i rule: str_copy_loop.induct)
  case (1 mx s i)
  show ?case
  proof (cases "i < mx - 1 \<and> cget s i \<noteq> NUL")
    case True
    then have "mx - 1 - i = Suc (mx - 1 - Suc i)" by arith
    with True 1 show ?thesis by (simp add: str_copy_loop.simps [of mx s i] cstr_drop_step)
  next
    case False
    then show ?thesis by (auto simp: str_copy_loop.simps [of mx s i] cstr_drop_stop)
  qed
qed

lemma str_copy_Some: "str_copy (Some s) mx = take (mx - 1) (cstr s)"
  by (simp add: str_copy_def str_copy_loop_eq)

lemma sem_str_copy_Some: "sem_str_copy (Some s) mx = take (mx - 1) (cstr s)"
  by (simp add: sem_str_copy_def str_copy_loop_eq)

lemma sem_str_eq_loop_eq: "sem_str_eq_loop a b i \<longleftrightarrow> cstr (drop i a) = cstr (drop i b)"
proof (induction a b i rule: sem_str_eq_loop.induct)
  case (1 a b i)
  consider "cget a i = NUL" "cget b i = NUL" | "cget a i = NUL" "cget b i \<noteq> NUL"
    | "cget a i \<noteq> NUL" "cget b i = NUL" | "cget a i \<noteq> NUL" "cget b i \<noteq> NUL"
    by blast
  then show ?case
    by cases (use 1 in \<open>auto simp: sem_str_eq_loop.simps [of a b i] cstr_drop_stop cstr_drop_step\<close>)
qed

lemma sem_str_eq_Some [simp]: "sem_str_eq (Some a) (Some b) \<longleftrightarrow> cstr a = cstr b"
  by (simp add: sem_str_eq_def sem_str_eq_loop_eq)

lemma sem_str_copy_fits:
  "length (cstr s) < mx \<Longrightarrow> cstr (sem_str_copy (Some s) mx) = cstr s"
  by (simp add: sem_str_copy_Some)

lemma length_str_copy: "length (str_copy s mx) \<le> mx - 1"
  by (cases s) (simp_all add: str_copy_def str_copy_loop_eq)

lemma length_sem_str_copy: "length (sem_str_copy s mx) \<le> mx - 1"
  by (cases s) (simp_all add: sem_str_copy_def str_copy_loop_eq)

lemma cstr_take_cstr [simp]: "cstr (take n (cstr s)) = take n (cstr s)"
  by (rule cstr_id) (use cstr_no_NUL in_set_takeD in fastforce)

end
