(* ===== verification/Process_Core.thy ===== *)
theory Process_Core
  imports CStr
begin

text \<open>
  The process table of \<open>Kernel/c/process/process.c\<close> and the operations on it that the
  semaphores, the pipes and the scheduler call: \<open>process_get\<close>, \<open>process_current\<close>,
  \<open>process_block\<close>, \<open>process_unblock\<close>. A \<open>PCB *\<close> is the index of the PCB in
  \<open>process_table\<close>. The record \<open>psys\<close> holds the static variables of \<open>process.c\<close> and
  the flag \<open>force_switch\<close> of \<open>scheduler.c\<close>; the later components extend it.

  \<open>benign\<close> is the relation between the state before and after an operation that moves
  processes between READY and BLOCKED only; it is a preorder, and the invariant of the table
  (\<open>table_inv\<close>: live PIDs are distinct, non-zero and were handed out by \<open>process_create\<close>;
  only the current process is RUNNING) is kept by it.
\<close>

datatype pstate =
  PROCESS_FREE | PROCESS_READY | PROCESS_RUNNING | PROCESS_BLOCKED | PROCESS_ZOMBIE

record pcb =
  p_pid :: u64
  p_name :: string
  p_entry :: u64
  p_priority :: u8
  p_remaining_quanta :: u8
  p_wait_ticks :: u32
  p_state :: pstate
  p_rsp :: ptr
  p_stack_base :: ptr
  p_foreground :: u8
  p_fd :: "int list"
  p_parent_pid :: u64
  p_waiting_for :: u64
  p_argc :: int
  p_argv :: ptr
  p_retval :: int
  p_held_sems :: u32
  p_opened_sems :: u32

text \<open>A PCB after \<open>memset(process_table, 0, sizeof(process_table))\<close>.\<close>

definition zero_pcb :: pcb where
  "zero_pcb = \<lparr>p_pid = 0, p_name = [], p_entry = 0, p_priority = 0, p_remaining_quanta = 0,
     p_wait_ticks = 0, p_state = PROCESS_FREE, p_rsp = None, p_stack_base = None,
     p_foreground = 0, p_fd = [0, 0], p_parent_pid = 0, p_waiting_for = 0, p_argc = 0,
     p_argv = None, p_retval = 0, p_held_sems = 0, p_opened_sems = 0\<rparr>"

record psys =
  process_table :: "pcb list"
  next_pid :: u64
  current_process :: ptr
  force_switch :: bool

definition process_init :: "'a psys_scheme \<Rightarrow> 'a psys_scheme" where
  "process_init s = s\<lparr>process_table := replicate MAX_PROCESSES zero_pcb, next_pid := 0,
     current_process := None\<rparr>"

subsection \<open>Access to a PCB through its index\<close>

definition pcb_at :: "'a psys_scheme \<Rightarrow> nat \<Rightarrow> pcb" where
  "pcb_at s i = process_table s ! i"

definition upd_pcb :: "nat \<Rightarrow> (pcb \<Rightarrow> pcb) \<Rightarrow> 'a psys_scheme \<Rightarrow> 'a psys_scheme" where
  "upd_pcb i f s = s\<lparr>process_table := modify i f (process_table s)\<rparr>"

lemma upd_pcb_sels [simp, frame_simps]:
  "next_pid (upd_pcb i f s) = next_pid s"
  "current_process (upd_pcb i f s) = current_process s"
  "force_switch (upd_pcb i f s) = force_switch s"
  "length (process_table (upd_pcb i f s)) = length (process_table s)"
  "psys.more (upd_pcb i f s) = psys.more s"
  by (simp_all add: upd_pcb_def)

lemma process_table_upd_pcb: "process_table (upd_pcb i f s) = modify i f (process_table s)"
  by (simp add: upd_pcb_def)

lemma pcb_at_upd_pcb [table_simps]:
  "j < length (process_table s) \<Longrightarrow> pcb_at (upd_pcb i f s) j = (if i = j then f (pcb_at s j) else pcb_at s j)"
  by (simp add: pcb_at_def upd_pcb_def table_simps)

lemma pcb_at_force_switch [simp]: "pcb_at (s\<lparr>force_switch := b\<rparr>) i = pcb_at s i"
  by (simp add: pcb_at_def)

subsection \<open>The operations\<close>

definition process_current :: "'a psys_scheme \<Rightarrow> ptr" where
  "process_current s = current_process s"

definition process_set_current :: "ptr \<Rightarrow> 'a psys_scheme \<Rightarrow> 'a psys_scheme" where
  "process_set_current p s = s\<lparr>current_process := p\<rparr>"

definition process_get :: "'a psys_scheme \<Rightarrow> u64 \<Rightarrow> ptr" where
  "process_get s k =
     (if k = 0 then None
      else first_idx (\<lambda>p. p_pid p = k \<and> p_state p \<noteq> PROCESS_FREE) (process_table s))"

definition process_block :: "u64 \<Rightarrow> 'a psys_scheme \<Rightarrow> 'a psys_scheme" where
  "process_block k s =
     (case process_get s k of
        None \<Rightarrow> s
      | Some i \<Rightarrow>
          (if p_state (pcb_at s i) = PROCESS_FREE \<or> p_state (pcb_at s i) = PROCESS_ZOMBIE then s
           else if p_state (pcb_at s i) = PROCESS_BLOCKED then s
           else
             let s1 = upd_pcb i (\<lambda>p. p\<lparr>p_state := PROCESS_BLOCKED\<rparr>) s
             in if current_process s1 = Some i then s1\<lparr>force_switch := True\<rparr> else s1))"

definition process_unblock :: "u64 \<Rightarrow> 'a psys_scheme \<Rightarrow> 'a psys_scheme" where
  "process_unblock k s =
     (case process_get s k of
        None \<Rightarrow> s
      | Some i \<Rightarrow>
          (if p_state (pcb_at s i) \<noteq> PROCESS_BLOCKED then s
           else
             let s1 = upd_pcb i (\<lambda>p. p\<lparr>p_state := PROCESS_READY, p_wait_ticks := 0\<rparr>) s
             in (case process_current s1 of
                   None \<Rightarrow> s1
                 | Some c \<Rightarrow>
                     (if p_priority (pcb_at s1 i) > p_priority (pcb_at s1 c)
                      then s1\<lparr>force_switch := True\<rparr> else s1))))"

subsection \<open>Looking a PID up\<close>

definition live :: "'a psys_scheme \<Rightarrow> nat \<Rightarrow> bool" where
  "live s i \<longleftrightarrow> i < length (process_table s) \<and> p_state (pcb_at s i) \<noteq> PROCESS_FREE"

lemma process_get_0 [simp]: "process_get s 0 = None"
  by (simp add: process_get_def)

lemma process_get_Some:
  "process_get s k = Some i \<Longrightarrow> k \<noteq> 0 \<and> live s i \<and> p_pid (pcb_at s i) = k"
  by (auto simp: process_get_def live_def pcb_at_def dest!: first_idx_SomeD split: if_splits)

lemma process_get_None:
  "process_get s k = None \<Longrightarrow> k \<noteq> 0 \<Longrightarrow> live s i \<Longrightarrow> p_pid (pcb_at s i) \<noteq> k"
  by (auto simp: process_get_def live_def pcb_at_def split: if_splits)

definition pids_unique :: "'a psys_scheme \<Rightarrow> bool" where
  "pids_unique s \<longleftrightarrow> (\<forall>i j. live s i \<longrightarrow> live s j \<longrightarrow> p_pid (pcb_at s i) = p_pid (pcb_at s j) \<longrightarrow> i = j)"

lemma process_get_live:
  assumes "pids_unique s" "live s i" "p_pid (pcb_at s i) \<noteq> 0"
  shows "process_get s (p_pid (pcb_at s i)) = Some i"
proof -
  obtain j where j: "process_get s (p_pid (pcb_at s i)) = Some j"
    using process_get_None [OF _ assms(3,2)] by (cases "process_get s (p_pid (pcb_at s i))") auto
  from process_get_Some [OF j] have "live s j" "p_pid (pcb_at s j) = p_pid (pcb_at s i)" by auto
  with assms have "j = i" by (auto simp: pids_unique_def)
  with j show ?thesis by simp
qed

text \<open>A change that keeps PIDs and freeness keeps every lookup.\<close>

lemma first_idx_cong2:
  "list_all2 (\<lambda>x y. P x = Q y) xs ys \<Longrightarrow> first_idx P xs = first_idx Q ys"
  by (induction rule: list_all2_induct) auto


subsection \<open>Benign changes of the table\<close>

definition state_le :: "pstate \<Rightarrow> pstate \<Rightarrow> bool" where
  "state_le a b \<longleftrightarrow> b = a \<or> a \<notin> {PROCESS_FREE, PROCESS_ZOMBIE} \<and> b \<in> {PROCESS_READY, PROCESS_BLOCKED}"

lemma state_le_refl [simp]: "state_le a a"
  by (simp add: state_le_def)

lemma state_le_trans: "state_le a b \<Longrightarrow> state_le b c \<Longrightarrow> state_le a c"
  by (cases a; cases b; cases c) (simp_all add: state_le_def)

text \<open>The fields a benign change keeps.\<close>

definition pcb_key :: "pcb \<Rightarrow> u64 \<times> u8 \<times> u8 \<times> int list \<times> ptr \<times> ptr \<times> ptr \<times> u64 \<times> u64 \<times> int" where
  "pcb_key p = (p_pid p, p_priority p, p_foreground p, p_fd p, p_rsp p, p_stack_base p, p_argv p,
     p_parent_pid p, p_waiting_for p, p_retval p)"

definition pcb_le :: "pcb \<Rightarrow> pcb \<Rightarrow> bool" where
  "pcb_le p q \<longleftrightarrow> pcb_key q = pcb_key p \<and> state_le (p_state p) (p_state q)"

lemma pcb_le_refl [simp]: "pcb_le p p"
  by (simp add: pcb_le_def)

lemma pcb_le_trans: "pcb_le p q \<Longrightarrow> pcb_le q r \<Longrightarrow> pcb_le p r"
  using state_le_trans [of "p_state p" "p_state q" "p_state r"] by (simp add: pcb_le_def)

lemma pcb_le_pid: "pcb_le p q \<Longrightarrow> p_pid q = p_pid p"
  by (simp add: pcb_le_def pcb_key_def)

lemma pcb_le_free: "pcb_le p q \<Longrightarrow> p_state q = PROCESS_FREE \<longleftrightarrow> p_state p = PROCESS_FREE"
  by (auto simp: pcb_le_def state_le_def)

lemma pcb_le_zombie: "pcb_le p q \<Longrightarrow> p_state q = PROCESS_ZOMBIE \<longleftrightarrow> p_state p = PROCESS_ZOMBIE"
  by (auto simp: pcb_le_def state_le_def)

lemma pcb_le_running: "pcb_le p q \<Longrightarrow> p_state q = PROCESS_RUNNING \<Longrightarrow> p_state p = PROCESS_RUNNING"
  by (auto simp: pcb_le_def state_le_def)

definition benign :: "'a psys_scheme \<Rightarrow> 'b psys_scheme \<Rightarrow> bool" where
  "benign s t \<longleftrightarrow> list_all2 pcb_le (process_table s) (process_table t) \<and>
     next_pid t = next_pid s \<and> current_process t = current_process s"

lemma benign_refl [simp, intro]: "benign s s"
  by (simp add: benign_def list_all2_refl)

lemma benign_trans [trans]: "benign s t \<Longrightarrow> benign t u \<Longrightarrow> benign s u"
proof -
  assume st: "benign s t" and tu: "benign t u"
  have "list_all2 pcb_le (process_table s) (process_table u)"
    by (rule list_all2_trans [OF pcb_le_trans]) (use st tu in \<open>auto simp: benign_def\<close>)
  with st tu show ?thesis by (simp add: benign_def)
qed

lemma benign_force_switch [simp]: "benign s (t\<lparr>force_switch := b\<rparr>) \<longleftrightarrow> benign s t"
  by (simp add: benign_def)

lemma benign_upd_pcb:
  "(i < length (process_table s) \<Longrightarrow> pcb_le (pcb_at s i) (f (pcb_at s i))) \<Longrightarrow> benign s (upd_pcb i f s)"
  by (auto simp: benign_def upd_pcb_def pcb_at_def list_all2_conv_all_nth table_simps)

lemma benign_length: "benign s t \<Longrightarrow> length (process_table t) = length (process_table s)"
  by (auto simp: benign_def dest: list_all2_lengthD)

lemma benign_pcb: "benign s t \<Longrightarrow> i < length (process_table s) \<Longrightarrow> pcb_le (pcb_at s i) (pcb_at t i)"
  by (auto simp: benign_def pcb_at_def list_all2_conv_all_nth)

lemma benign_current: "benign s t \<Longrightarrow> current_process t = current_process s"
  by (simp add: benign_def)

lemma benign_live: "benign s t \<Longrightarrow> live t i \<longleftrightarrow> live s i"
  using benign_pcb [of s t i] benign_length [of s t] by (auto simp: live_def pcb_le_free)

lemma benign_process_get: "benign s t \<Longrightarrow> process_get t k = process_get s k"
proof -
  assume b: "benign s t"
  have "list_all2 (\<lambda>p q. (p_pid p = k \<and> p_state p \<noteq> PROCESS_FREE) = (p_pid q = k \<and> p_state q \<noteq> PROCESS_FREE))
      (process_table s) (process_table t)"
    using b unfolding benign_def by (auto elim!: list_all2_mono simp: pcb_le_pid pcb_le_free)
  then show ?thesis by (simp add: process_get_def first_idx_cong2)
qed

lemma benign_process_block: "benign s (process_block k s)"
  by (auto simp: process_block_def Let_def pcb_le_def pcb_key_def state_le_def intro!: benign_upd_pcb split: option.split)

lemma benign_process_unblock: "benign s (process_unblock k s)"
  by (auto simp: process_unblock_def Let_def pcb_le_def pcb_key_def state_le_def intro!: benign_upd_pcb split: option.split)

subsection \<open>The invariant of the table\<close>

definition table_inv :: "'a psys_scheme \<Rightarrow> bool" where
  "table_inv s \<longleftrightarrow>
     length (process_table s) = MAX_PROCESSES \<and> pids_unique s \<and>
     (\<forall>i. live s i \<longrightarrow> p_pid (pcb_at s i) \<noteq> 0 \<and> p_pid (pcb_at s i) \<le> next_pid s) \<and>
     (\<forall>i. current_process s = Some i \<longrightarrow> i < MAX_PROCESSES) \<and>
     (\<forall>i. i < MAX_PROCESSES \<longrightarrow> p_state (pcb_at s i) = PROCESS_RUNNING \<longrightarrow> current_process s = Some i)"

lemma table_invD:
  assumes "table_inv s"
  shows table_inv_length: "length (process_table s) = MAX_PROCESSES"
    and table_inv_unique: "pids_unique s"
    and table_inv_pid: "live s i \<Longrightarrow> p_pid (pcb_at s i) \<noteq> 0 \<and> p_pid (pcb_at s i) \<le> next_pid s"
    and table_inv_current: "current_process s = Some i \<Longrightarrow> i < MAX_PROCESSES"
    and table_inv_running: "i < MAX_PROCESSES \<Longrightarrow> p_state (pcb_at s i) = PROCESS_RUNNING \<Longrightarrow>
      current_process s = Some i"
  using assms unfolding table_inv_def by blast+

lemma table_invI:
  assumes "length (process_table s) = MAX_PROCESSES" "pids_unique s"
    and "\<And>i. live s i \<Longrightarrow> p_pid (pcb_at s i) \<noteq> 0 \<and> p_pid (pcb_at s i) \<le> next_pid s"
    and "\<And>i. current_process s = Some i \<Longrightarrow> i < MAX_PROCESSES"
    and "\<And>i. i < MAX_PROCESSES \<Longrightarrow> p_state (pcb_at s i) = PROCESS_RUNNING \<Longrightarrow> current_process s = Some i"
  shows "table_inv s"
  using assms unfolding table_inv_def by blast

lemma table_inv_init: "table_inv (process_init s)"
  by (auto simp: table_inv_def process_init_def pids_unique_def live_def pcb_at_def zero_pcb_def)

lemma table_inv_benign:
  assumes b: "benign s t" and i: "table_inv s"
  shows "table_inv t"
proof (rule table_invI)
  note len = table_inv_length [OF i]
  have lv: "live s k \<Longrightarrow> k < MAX_PROCESSES" for k using len by (simp add: live_def)
  have le: "k < MAX_PROCESSES \<Longrightarrow> pcb_le (pcb_at s k) (pcb_at t k)" for k
    using benign_pcb [OF b] len by simp
  show "length (process_table t) = MAX_PROCESSES" using benign_length [OF b] len by simp
  show "pids_unique t"
    using table_inv_unique [OF i] pcb_le_pid [OF le [OF lv]]
    by (simp add: pids_unique_def benign_live [OF b])
  show "p_pid (pcb_at t k) \<noteq> 0 \<and> p_pid (pcb_at t k) \<le> next_pid t" if "live t k" for k
    using that table_inv_pid [OF i, of k] pcb_le_pid [OF le [OF lv, of k]] b
    by (simp add: benign_live [OF b] benign_def)
  show "k < MAX_PROCESSES" if "current_process t = Some k" for k
    using that table_inv_current [OF i] by (simp add: benign_current [OF b])
  show "current_process t = Some k"
    if "k < MAX_PROCESSES" "p_state (pcb_at t k) = PROCESS_RUNNING" for k
    using table_inv_running [OF i that(1) pcb_le_running [OF le [OF that(1)] that(2)]]
    by (simp add: benign_current [OF b])
qed

lemma table_inv_get:
  "table_inv s \<Longrightarrow> live s i \<Longrightarrow> process_get s (p_pid (pcb_at s i)) = Some i"
  using process_get_live [OF table_inv_unique] table_inv_pid by blast

lemma table_inv_lookup:
  "table_inv s \<Longrightarrow> process_get s k = Some i \<longleftrightarrow> live s i \<and> p_pid (pcb_at s i) = k"
  using process_get_Some [of s k i] table_inv_get [of s i] by auto

end
