(* ===== verification/Scheduler.thy ===== *)
theory Scheduler
  imports Process_Core FF_Refine
begin

text \<open>
  The scheduler, \<open>Kernel/c/scheduler/scheduler.c\<close>: a run queue of PCB pointers ordered by
  priority, a cursor \<open>queue_idx\<close> for round robin, aging by \<open>wait_ticks\<close>, and the two entry
  points of the interrupt handlers, \<open>scheduler_tick\<close> and \<open>scheduler_yield_impl\<close>. The record
  \<open>ssys\<close> adds to the process table the static variables of \<open>scheduler.c\<close>, the tick counter of
  \<open>time.c\<close> and the heap of the memory manager, from which the stack and the arguments of a dead
  process are released.

  \<open>run_queue\<close> is the array of 64 slots; the slots at or behind \<open>queue_size\<close> are never
  read. \<open>rq\<close> is the list of the slots in use.
\<close>

record ssys = psys +
  run_queue :: "nat list"
  queue_size :: nat
  queue_idx :: nat
  idle_pcb :: ptr
  ticks :: u64
  heap :: ff_heap

abbreviation (input) AGING_INTERVAL :: nat where "AGING_INTERVAL \<equiv> 50"
abbreviation (input) MAX_AGING_BONUS :: nat where "MAX_AGING_BONUS \<equiv> 4"

definition rq :: "'a ssys_scheme \<Rightarrow> nat list" where
  "rq s = take (queue_size s) (run_queue s)"

subsection \<open>The code\<close>

definition scheduler_set_idle :: "ptr \<Rightarrow> 'a ssys_scheme \<Rightarrow> 'a ssys_scheme" where
  "scheduler_set_idle p s = s\<lparr>idle_pcb := p\<rparr>"

definition scheduler_init :: "'a ssys_scheme \<Rightarrow> 'a ssys_scheme" where
  "scheduler_init s = s\<lparr>queue_size := 0, queue_idx := 0\<rparr>"

definition aging_bonus :: "pcb \<Rightarrow> nat" where
  "aging_bonus p =
     (let b = unat (p_wait_ticks p) div AGING_INTERVAL
      in if b > MAX_AGING_BONUS then MAX_AGING_BONUS else b)"

text \<open>\<open>for(j = n; j > i; j--) q[j] = q[j-1];\<close>\<close>

function shift_right :: "nat \<Rightarrow> nat \<Rightarrow> 'a list \<Rightarrow> 'a list" where
  "shift_right i j q = (if i < j then shift_right i (j - 1) (q[j := q ! (j - 1)]) else q)"
  by pat_completeness auto
termination
  by (relation "measure (\<lambda>(i, j, q). j)") auto

text \<open>\<open>for(j = i; j < n; j++) q[j] = q[j+1];\<close>\<close>

function shift_left :: "nat \<Rightarrow> nat \<Rightarrow> 'a list \<Rightarrow> 'a list" where
  "shift_left j n q = (if j < n then shift_left (Suc j) n (q[j := q ! Suc j]) else q)"
  by pat_completeness auto
termination
  by (relation "measure (\<lambda>(j, n, q). n - j)") auto

declare shift_right.simps [simp del] shift_left.simps [simp del]

definition scheduler_add :: "nat \<Rightarrow> 'a ssys_scheme \<Rightarrow> 'a ssys_scheme" where
  "scheduler_add p s =
     (if queue_size s \<ge> MAX_PROCESSES then s
      else if Some p = idle_pcb s then s
      else
        let found = first_idx (\<lambda>r. p_priority (pcb_at s r) < p_priority (pcb_at s p)) (rq s);
            insert_pos = (case found of None \<Rightarrow> queue_size s | Some i \<Rightarrow> i);
            q = (case found of None \<Rightarrow> run_queue s | Some i \<Rightarrow> shift_right i (queue_size s) (run_queue s));
            s1 = s\<lparr>run_queue := q[insert_pos := p], queue_size := queue_size s + 1\<rparr>
        in if insert_pos \<le> queue_idx s1 \<and> queue_size s1 > 1
           then s1\<lparr>queue_idx := queue_idx s1 + 1\<rparr> else s1)"

definition scheduler_remove :: "nat \<Rightarrow> 'a ssys_scheme \<Rightarrow> 'a ssys_scheme" where
  "scheduler_remove p s =
     (case first_idx (\<lambda>r. p = r) (rq s) of
        None \<Rightarrow> s
      | Some i \<Rightarrow>
          let s1 = s\<lparr>run_queue := shift_left i (queue_size s - 1) (run_queue s),
                     queue_size := queue_size s - 1\<rparr>
          in if queue_idx s1 \<ge> queue_size s1 \<and> queue_size s1 > 0
             then s1\<lparr>queue_idx := queue_size s1 - 1\<rparr>
             else if i < queue_idx s1 then s1\<lparr>queue_idx := queue_idx s1 - 1\<rparr>
             else s1)"

text \<open>The effective priority: base, foreground, aging.\<close>

definition eff :: "pcb \<Rightarrow> int" where
  "eff p = int (unat (p_priority p)) + (if p_foreground p \<noteq> 0 then 1 else 0) + int (aging_bonus p)"

definition highest_eff :: "'a ssys_scheme \<Rightarrow> int" where
  "highest_eff s =
     fold (\<lambda>r h. if p_state (pcb_at s r) = PROCESS_READY \<and> eff (pcb_at s r) > h
                 then eff (pcb_at s r) else h) (rq s) (-1)"

text \<open>One pass over the queue from behind the cursor: at most \<open>k\<close> steps, each
  \<open>queue_idx = (queue_idx + 1) % queue_size\<close>; the pass stops at the first candidate.\<close>

fun scan :: "nat \<Rightarrow> (nat \<Rightarrow> bool) \<Rightarrow> nat list \<Rightarrow> nat \<Rightarrow> nat \<Rightarrow> ptr \<times> nat" where
  "scan 0 P q n idx = (None, idx)"
| "scan (Suc k) P q n idx =
     (let idx' = (idx + 1) mod n
      in if P (q ! idx') then (Some (q ! idx'), idx') else scan k P q n idx')"

definition scheduler_next_ready :: "'a ssys_scheme \<Rightarrow> ptr \<times> 'a ssys_scheme" where
  "scheduler_next_ready s =
     (if queue_size s = 0 then (idle_pcb s, s)
      else if highest_eff s < 0 then (idle_pcb s, s)
      else
        let h = highest_eff s;
            pass1 = (\<lambda>c. p_state (pcb_at s c) = PROCESS_READY \<and> p_foreground (pcb_at s c) \<noteq> 0 \<and>
              int (unat (p_priority (pcb_at s c))) + 1 + int (aging_bonus (pcb_at s c)) = h);
            pass2 = (\<lambda>c. p_state (pcb_at s c) = PROCESS_READY \<and> eff (pcb_at s c) = h)
        in case scan (queue_size s) pass1 (run_queue s) (queue_size s) (queue_idx s) of
             (Some c, i) \<Rightarrow> (Some c, s\<lparr>queue_idx := i\<rparr>)
           | (None, i) \<Rightarrow>
               (case scan (queue_size s) pass2 (run_queue s) (queue_size s) i of
                  (Some c, j) \<Rightarrow> (Some c, s\<lparr>queue_idx := j\<rparr>)
                | (None, j) \<Rightarrow> (idle_pcb s, s\<lparr>queue_idx := j\<rparr>)))"

text \<open>\<open>timer_handler\<close> of \<open>time.c\<close>.\<close>

definition timer_handler :: "'a ssys_scheme \<Rightarrow> 'a ssys_scheme" where
  "timer_handler s = s\<lparr>ticks := ticks s + 1\<rparr>"

text \<open>The aging loop of \<open>scheduler_tick\<close>.\<close>

definition age_ready :: "ptr \<Rightarrow> 'a ssys_scheme \<Rightarrow> 'a ssys_scheme" where
  "age_ready cur s =
     fold (\<lambda>r t. if Some r \<noteq> cur \<and> p_state (pcb_at t r) = PROCESS_READY
                 then upd_pcb r (\<lambda>p. p\<lparr>p_wait_ticks := p_wait_ticks p + 1\<rparr>) t else t) (rq s) s"

text \<open>\<open>mm_free\<close> on the heap of the kernel.\<close>

definition kfree :: "ptr \<Rightarrow> 'a ssys_scheme \<Rightarrow> 'a ssys_scheme option" where
  "kfree p s = map_option (\<lambda>h. s\<lparr>heap := h\<rparr>) (mm_free p (heap s))"

text \<open>Release the stack and the argument block of \<open>process_table[c]\<close>.\<close>

definition free_stack_argv :: "nat \<Rightarrow> 'a ssys_scheme \<Rightarrow> 'a ssys_scheme option" where
  "free_stack_argv c s = do {
     s1 \<leftarrow> (if p_stack_base (pcb_at s c) \<noteq> None
           then map_option (upd_pcb c (\<lambda>p. p\<lparr>p_stack_base := None\<rparr>)) (kfree (p_stack_base (pcb_at s c)) s)
           else Some s);
     (if p_argv (pcb_at s1 c) \<noteq> None
      then map_option (upd_pcb c (\<lambda>p. p\<lparr>p_argv := None\<rparr>)) (kfree (p_argv (pcb_at s1 c)) s1)
      else Some s1)
   }"

text \<open>Reap the ZOMBIE that ran before the switch.\<close>

definition reap :: "ptr \<Rightarrow> 'a ssys_scheme \<Rightarrow> 'a ssys_scheme option" where
  "reap cur s =
     (case cur of
        None \<Rightarrow> Some s
      | Some c \<Rightarrow>
          (if p_state (pcb_at s c) = PROCESS_ZOMBIE
           then do {
             s1 \<leftarrow> free_stack_argv c (scheduler_remove c s);
             Some (upd_pcb c (\<lambda>p. p\<lparr>p_rsp := None, p_state := PROCESS_FREE, p_pid := 0\<rparr>) s1)
           }
           else Some s))"

definition dispatch :: "nat \<Rightarrow> 'a ssys_scheme \<Rightarrow> ptr \<times> 'a ssys_scheme" where
  "dispatch n s =
     (let s1 = upd_pcb n (\<lambda>p. p\<lparr>p_wait_ticks := 0, p_state := PROCESS_RUNNING\<rparr>) s;
          s2 = process_set_current (Some n) s1
      in (p_rsp (pcb_at s2 n), s2))"

text \<open>What \<open>scheduler_tick\<close> does once the current process has been put aside.\<close>

definition switch_tick :: "ptr \<Rightarrow> ptr \<Rightarrow> 'a ssys_scheme \<Rightarrow> (ptr \<times> 'a ssys_scheme) option" where
  "switch_tick cur current_rsp s =
     (case scheduler_next_ready s of
        (None, s1) \<Rightarrow>
          (case cur of
             Some c \<Rightarrow>
               (if p_state (pcb_at s1 c) = PROCESS_READY \<or> p_state (pcb_at s1 c) = PROCESS_RUNNING
                then Some (current_rsp, upd_pcb c (\<lambda>p. p\<lparr>p_state := PROCESS_RUNNING\<rparr>) s1)
                else Some (current_rsp, s1))
           | None \<Rightarrow> Some (current_rsp, s1))
      | (Some n, s1) \<Rightarrow> map_option (dispatch n) (reap cur s1))"

text \<open>The current process at a timer interrupt: its stack pointer is saved and, if it is
  RUNNING, a tick of its quantum is charged. The flag says that it keeps the CPU.\<close>

definition tick_aside :: "ptr \<Rightarrow> 'a ssys_scheme \<Rightarrow> bool \<times> 'a ssys_scheme" where
  "tick_aside current_rsp s =
     (case process_current s of
        None \<Rightarrow> (False, s)
      | Some c \<Rightarrow>
          (let s2 = upd_pcb c (\<lambda>p. p\<lparr>p_rsp := current_rsp\<rparr>) s
           in if p_state (pcb_at s2 c) = PROCESS_RUNNING
              then
                let s3 = (if p_remaining_quanta (pcb_at s2 c) > 0
                          then upd_pcb c (\<lambda>p. p\<lparr>p_remaining_quanta := p_remaining_quanta p - 1\<rparr>) s2
                          else s2)
                in if p_remaining_quanta (pcb_at s3 c) > 0 then (True, s3)
                   else (False, upd_pcb c (\<lambda>p. p\<lparr>p_state := PROCESS_READY, p_remaining_quanta := p_priority p\<rparr>) s3)
              else (False, s2)))"

definition scheduler_tick :: "ptr \<Rightarrow> 'a ssys_scheme \<Rightarrow> (ptr \<times> 'a ssys_scheme) option" where
  "scheduler_tick current_rsp s =
     (let s0 = timer_handler s;
          cur = process_current s0
      in case tick_aside current_rsp (age_ready cur s0) of
           (True, s1) \<Rightarrow> Some (current_rsp, s1)
         | (False, s1) \<Rightarrow> switch_tick cur current_rsp s1)"

text \<open>The current process at a voluntary switch.\<close>

definition yield_aside :: "ptr \<Rightarrow> 'a ssys_scheme \<Rightarrow> 'a ssys_scheme" where
  "yield_aside current_rsp s =
     (case process_current s of
        None \<Rightarrow> s
      | Some c \<Rightarrow>
          (let t1 = upd_pcb c (\<lambda>p. p\<lparr>p_rsp := current_rsp\<rparr>) s;
               t2 = (if p_state (pcb_at t1 c) = PROCESS_RUNNING
                     then upd_pcb c (\<lambda>p. p\<lparr>p_state := PROCESS_READY\<rparr>) t1 else t1)
           in upd_pcb c (\<lambda>p. p\<lparr>p_remaining_quanta := p_priority p\<rparr>) t2))"

definition scheduler_yield_impl :: "ptr \<Rightarrow> 'a ssys_scheme \<Rightarrow> (ptr \<times> 'a ssys_scheme) option" where
  "scheduler_yield_impl current_rsp s =
     (let cur = process_current s
      in case scheduler_next_ready (yield_aside current_rsp s) of
           (None, s2) \<Rightarrow>
             (case cur of
                Some c \<Rightarrow>
                  (if p_state (pcb_at s2 c) = PROCESS_READY
                   then Some (current_rsp, upd_pcb c (\<lambda>p. p\<lparr>p_state := PROCESS_RUNNING\<rparr>) s2)
                   else Some (current_rsp, s2))
              | None \<Rightarrow> Some (current_rsp, s2))
         | (Some n, s2) \<Rightarrow> map_option (dispatch n) (reap cur s2))"

text \<open>The first dispatch at boot; \<open>None\<close> is the error return with nothing to run, \<open>Some\<close> the
  saved stack pointer handed to \<open>scheduler_start_asm\<close>.\<close>

definition scheduler_start :: "'a ssys_scheme \<Rightarrow> ptr option \<times> 'a ssys_scheme" where
  "scheduler_start s =
     (case scheduler_next_ready s of
        (None, s1) \<Rightarrow> (None, s1)
      | (Some n, s1) \<Rightarrow>
          let s2 = process_set_current (Some n) (upd_pcb n (\<lambda>p. p\<lparr>p_state := PROCESS_RUNNING\<rparr>) s1)
          in (Some (p_rsp (pcb_at s2 n)), s2))"

end
