(* ===== verification/Sched_Queue.thy ===== *)
theory Sched_Queue
  imports Scheduler
begin

text \<open>
  The run queue as a list. The abstract run queue is the list of processes in the slots in
  use, in descending order of priority and, within a priority, in order of arrival;
  \<open>insert_desc\<close> is its insertion. The lemmas show that the shifting loops of
  \<open>scheduler_add\<close> and \<open>scheduler_remove\<close> implement insertion and removal, that the
  round-robin cursor stays on the process it pointed to, and that the queue invariant
  \<open>queue_inv\<close> is kept.
\<close>

subsection \<open>The shifting loops\<close>

lemma length_shift_right [simp]: "length (shift_right i j q) = length q"
  by (induction i j q rule: shift_right.induct) (simp add: shift_right.simps)

lemma length_shift_left [simp]: "length (shift_left j n q) = length q"
  by (induction j n q rule: shift_left.induct) (subst shift_left.simps, simp)

lemma nth_shift_right:
  "j < length q \<Longrightarrow> k < length q \<Longrightarrow>
   shift_right i j q ! k = (if i < k \<and> k \<le> j then q ! (k - 1) else q ! k)"
proof (induction i j q rule: shift_right.induct)
  case (1 i j q)
  then show ?case
    by (subst shift_right.simps) (auto simp: nth_list_update)
qed

lemma nth_shift_left:
  "n < length q \<Longrightarrow> k < length q \<Longrightarrow>
   shift_left j n q ! k = (if j \<le> k \<and> k < n then q ! Suc k else q ! k)"
proof (induction j n q rule: shift_left.induct)
  case (1 j n q)
  then show ?case
    by (subst shift_left.simps) (cases "j = k"; auto simp: nth_list_update)
qed

lemma shift_right_insert:
  assumes "n < length q" "i \<le> n"
  shows "take (Suc n) ((shift_right i n q)[i := p]) = take i (take n q) @ p # drop i (take n q)"
proof (rule nth_equalityI)
  show "length (take (Suc n) ((shift_right i n q)[i := p])) = length (take i (take n q) @ p # drop i (take n q))"
    using assms by simp
next
  fix k assume "k < length (take (Suc n) ((shift_right i n q)[i := p]))"
  then have k: "k < Suc n" "k < length q" using assms by simp_all
  show "take (Suc n) ((shift_right i n q)[i := p]) ! k = (take i (take n q) @ p # drop i (take n q)) ! k"
    using k assms by (auto simp: nth_shift_right nth_append nth_Cons' nth_list_update)
qed

lemma shift_left_delete:
  assumes "0 < n" "n \<le> length q" "i < n"
  shows "take (n - 1) (shift_left i (n - 1) q) = take i (take n q) @ drop (Suc i) (take n q)"
proof (rule nth_equalityI)
  show "length (take (n - 1) (shift_left i (n - 1) q)) = length (take i (take n q) @ drop (Suc i) (take n q))"
    using assms by simp
next
  fix k assume "k < length (take (n - 1) (shift_left i (n - 1) q))"
  then have k: "k < n - 1" "k < length q" using assms by simp_all
  show "take (n - 1) (shift_left i (n - 1) q) ! k = (take i (take n q) @ drop (Suc i) (take n q)) ! k"
    using k assms by (auto simp: nth_shift_left nth_append)
qed

subsection \<open>The abstract run queue\<close>

definition insert_desc :: "('a \<Rightarrow> 'b::linorder) \<Rightarrow> 'a \<Rightarrow> 'a list \<Rightarrow> 'a list" where
  "insert_desc key p xs =
     takeWhile (\<lambda>r. key p \<le> key r) xs @ p # dropWhile (\<lambda>r. key p \<le> key r) xs"

definition desc_by :: "('a \<Rightarrow> 'b::linorder) \<Rightarrow> 'a list \<Rightarrow> bool" where
  "desc_by key xs = sorted_wrt (\<lambda>a b. key b \<le> key a) xs"

lemma set_insert_desc [simp]: "set (insert_desc key p xs) = insert p (set xs)"
proof -
  have "set xs = set (takeWhile (\<lambda>r. key p \<le> key r) xs) \<union> set (dropWhile (\<lambda>r. key p \<le> key r) xs)"
    by (metis set_append takeWhile_dropWhile_id)
  then show ?thesis by (auto simp: insert_desc_def)
qed

lemma length_insert_desc [simp]: "length (insert_desc key p xs) = Suc (length xs)"
  unfolding insert_desc_def
  by (metis add_Suc_right length_Cons length_append takeWhile_dropWhile_id)

lemma distinct_insert_desc: "distinct (insert_desc key p xs) \<longleftrightarrow> p \<notin> set xs \<and> distinct xs"
proof -
  have "distinct (a @ p # b) \<longleftrightarrow> p \<notin> set (a @ b) \<and> distinct (a @ b)" for a b by auto
  then show ?thesis by (simp add: insert_desc_def del: set_append distinct_append)
qed

lemma desc_insert_desc: "desc_by key xs \<Longrightarrow> desc_by key (insert_desc key p xs)"
proof (induction xs)
  case Nil
  show ?case by (simp add: desc_by_def insert_desc_def)
next
  case (Cons x xs)
  show ?case
  proof (cases "key p \<le> key x")
    case True
    then have eq: "insert_desc key p (x # xs) = x # insert_desc key p xs" by (simp add: insert_desc_def)
    from Cons.prems have "desc_by key xs" "\<forall>b\<in>set xs. key b \<le> key x" by (simp_all add: desc_by_def)
    with Cons.IH True show ?thesis unfolding eq by (simp add: desc_by_def)
  next
    case False
    then have "insert_desc key p (x # xs) = p # x # xs" by (simp add: insert_desc_def)
    with Cons.prems False show ?thesis by (auto simp: desc_by_def)
  qed
qed

lemma desc_remove1: "desc_by key xs \<Longrightarrow> desc_by key (remove1 p xs)"
  by (induction xs) (auto simp: desc_by_def dest: set_remove1_subset [THEN subsetD])

lemma desc_cong: "(\<And>r. r \<in> set xs \<Longrightarrow> key r = key' r) \<Longrightarrow> desc_by key xs \<longleftrightarrow> desc_by key' xs"
  unfolding desc_by_def by (induction xs) auto

text \<open>Arrival order within a priority: a new process goes behind its equals.\<close>

lemma insert_desc_level:
  "desc_by key xs \<Longrightarrow>
   filter (\<lambda>r. key r = k) (insert_desc key p xs) = filter (\<lambda>r. key r = k) xs @ (if key p = k then [p] else [])"
proof (induction xs)
  case Nil
  show ?case by (simp add: insert_desc_def)
next
  case (Cons x xs)
  show ?case
  proof (cases "key p \<le> key x")
    case True
    then have eq: "insert_desc key p (x # xs) = x # insert_desc key p xs" by (simp add: insert_desc_def)
    from Cons.prems have "desc_by key xs" by (simp add: desc_by_def)
    from Cons.IH [OF this] show ?thesis unfolding eq by simp
  next
    case False
    then have "key x < key p" by simp
    have "\<forall>b\<in>set (x # xs). key b < key p"
      using Cons.prems \<open>key x < key p\<close> by (auto simp: desc_by_def dest: le_less_trans)
    then have f: "key p = k \<Longrightarrow> filter (\<lambda>r. key r = k) (x # xs) = []" by (intro filter_False) auto
    have "insert_desc key p (x # xs) = p # x # xs" using False by (simp add: insert_desc_def)
    then show ?thesis using f by (cases "key p = k") simp_all
  qed
qed

lemma first_idx_takeWhile:
  "first_idx P xs = Some i \<Longrightarrow> takeWhile (\<lambda>x. \<not> P x) xs = take i xs \<and> dropWhile (\<lambda>x. \<not> P x) xs = drop i xs"
  by (induction xs arbitrary: i) (auto split: if_splits)

lemma remove1_first_idx:
  "first_idx (\<lambda>r. p = r) xs = Some i \<Longrightarrow> remove1 p xs = take i xs @ drop (Suc i) xs"
  by (induction xs arbitrary: i) (auto split: if_splits)

subsection \<open>The invariant of the run queue\<close>

abbreviation prio :: "'a ssys_scheme \<Rightarrow> nat \<Rightarrow> u8" where "prio s r \<equiv> p_priority (pcb_at s r)"

definition queue_inv :: "'a ssys_scheme \<Rightarrow> bool" where
  "queue_inv s \<longleftrightarrow>
     length (run_queue s) = MAX_PROCESSES \<and> queue_size s \<le> MAX_PROCESSES \<and>
     distinct (rq s) \<and> (\<forall>r\<in>set (rq s). r < MAX_PROCESSES \<and> Some r \<noteq> idle_pcb s) \<and>
     desc_by (prio s) (rq s) \<and> (queue_idx s < queue_size s \<or> queue_idx s = 0)"

lemma queue_invD:
  assumes "queue_inv s"
  shows queue_inv_length: "length (run_queue s) = MAX_PROCESSES"
    and queue_inv_size: "queue_size s \<le> MAX_PROCESSES"
    and queue_inv_distinct: "distinct (rq s)"
    and queue_inv_member: "r \<in> set (rq s) \<Longrightarrow> r < MAX_PROCESSES"
    and queue_inv_idle: "r \<in> set (rq s) \<Longrightarrow> Some r \<noteq> idle_pcb s"
    and queue_inv_desc: "desc_by (prio s) (rq s)"
    and queue_inv_idx: "queue_idx s < queue_size s \<or> queue_idx s = 0"
    and queue_inv_rq_length: "length (rq s) = queue_size s"
  using assms unfolding queue_inv_def by (auto simp: rq_def)

lemma rq_upd_pcb [simp, frame_simps]: "rq (upd_pcb i f s) = rq s"
  by (simp add: rq_def upd_pcb_def)

lemma ssys_upd_pcb [simp, frame_simps]:
  "run_queue (upd_pcb i f s) = run_queue s" "queue_size (upd_pcb i f s) = queue_size s"
  "queue_idx (upd_pcb i f s) = queue_idx s" "idle_pcb (upd_pcb i f s) = idle_pcb s"
  "ticks (upd_pcb i f s) = ticks s" "heap (upd_pcb i f s) = heap s"
  "ssys.more (upd_pcb i f s) = ssys.more s"
  by (simp_all add: upd_pcb_def)

text \<open>The invariant looks at the queue and the priorities only.\<close>

lemma queue_inv_cong:
  assumes "queue_inv s" "run_queue t = run_queue s" "queue_size t = queue_size s"
    and "queue_idx t < queue_size s \<or> queue_idx t = 0" "idle_pcb t = idle_pcb s"
    and "\<And>r. r \<in> set (rq s) \<Longrightarrow> prio t r = prio s r"
  shows "queue_inv t"
proof -
  have "rq t = rq s" using assms(2,3) by (simp add: rq_def)
  moreover from this have "desc_by (prio t) (rq t)"
    using desc_cong [of "rq s" "prio t" "prio s"] assms(6) queue_inv_desc [OF assms(1)] by simp
  ultimately show ?thesis using assms(1-5) by (simp add: queue_inv_def)
qed

lemma prio_upd_pcb: "(\<And>p. p_priority (f p) = p_priority p) \<Longrightarrow> prio (upd_pcb i f s) r = prio s r"
  by (cases "i < length (process_table s)"; cases "r = i") (simp_all add: pcb_at_def upd_pcb_def modify_def)

lemma queue_inv_upd_pcb:
  "queue_inv s \<Longrightarrow> (\<And>p. p_priority (f p) = p_priority p) \<Longrightarrow> queue_inv (upd_pcb i f s)"
  by (rule queue_inv_cong) (auto simp: prio_upd_pcb dest: queue_inv_idx)

subsection \<open>Insertion and removal\<close>

lemma queue_inv_init: "length (run_queue s) = MAX_PROCESSES \<Longrightarrow> queue_inv (scheduler_init s)"
  by (simp add: queue_inv_def scheduler_init_def rq_def desc_by_def)

lemma frame_scheduler_add [simp, frame_simps]:
  "process_table (scheduler_add p s) = process_table s" "next_pid (scheduler_add p s) = next_pid s"
  "current_process (scheduler_add p s) = current_process s" "idle_pcb (scheduler_add p s) = idle_pcb s"
  "force_switch (scheduler_add p s) = force_switch s" "heap (scheduler_add p s) = heap s"
  "ticks (scheduler_add p s) = ticks s" "ssys.more (scheduler_add p s) = ssys.more s"
  by (simp_all add: scheduler_add_def Let_def)

lemma frame_scheduler_remove [simp, frame_simps]:
  "process_table (scheduler_remove p s) = process_table s" "next_pid (scheduler_remove p s) = next_pid s"
  "current_process (scheduler_remove p s) = current_process s" "idle_pcb (scheduler_remove p s) = idle_pcb s"
  "force_switch (scheduler_remove p s) = force_switch s" "heap (scheduler_remove p s) = heap s"
  "ticks (scheduler_remove p s) = ticks s" "ssys.more (scheduler_remove p s) = ssys.more s"
  by (simp_all add: scheduler_remove_def Let_def split: option.splits)

lemma pcb_at_scheduler [simp]:
  "pcb_at (scheduler_add p s) i = pcb_at s i" "pcb_at (scheduler_remove p s) i = pcb_at s i"
  by (simp_all add: pcb_at_def)

text \<open>What \<open>scheduler_add\<close> does to the array, in the terms of the abstract queue.\<close>

lemma scheduler_add_shape:
  assumes q: "queue_inv s" and sp: "queue_size s < MAX_PROCESSES" and ni: "Some p \<noteq> idle_pcb s"
  defines "pos \<equiv> length (takeWhile (\<lambda>r. prio s p \<le> prio s r) (rq s))"
  shows "rq (scheduler_add p s) = insert_desc (prio s) p (rq s)"
    and "queue_size (scheduler_add p s) = Suc (queue_size s)"
    and "length (run_queue (scheduler_add p s)) = MAX_PROCESSES"
    and "queue_idx (scheduler_add p s) =
      (if pos \<le> queue_idx s \<and> 0 < queue_size s then Suc (queue_idx s) else queue_idx s)"
proof -
  note len = queue_inv_length [OF q] and rl = queue_inv_rq_length [OF q]
  define found where "found = first_idx (\<lambda>r. p_priority (pcb_at s r) < p_priority (pcb_at s p)) (rq s)"
  define at where "at = (case found of None \<Rightarrow> queue_size s | Some i \<Rightarrow> i)"
  define arr where "arr = (case found of None \<Rightarrow> run_queue s | Some i \<Rightarrow> shift_right i (queue_size s) (run_queue s))"
  have add: "scheduler_add p s = (let s1 = s\<lparr>run_queue := arr[at := p], queue_size := queue_size s + 1\<rparr> in
      if at \<le> queue_idx s1 \<and> queue_size s1 > 1 then s1\<lparr>queue_idx := queue_idx s1 + 1\<rparr> else s1)"
    using sp ni by (simp add: scheduler_add_def found_def at_def arr_def Let_def)
  have np: "(\<lambda>r. \<not> prio s r < prio s p) = (\<lambda>r. prio s p \<le> prio s r)" by auto
  have "take (Suc (queue_size s)) (arr[at := p]) = insert_desc (prio s) p (rq s) \<and> at = pos \<and> length arr = MAX_PROCESSES"
  proof (cases found)
    case None
    then have all: "\<forall>r\<in>set (rq s). prio s p \<le> prio s r" by (auto simp: found_def not_less)
    then have "insert_desc (prio s) p (rq s) = rq s @ [p]" by (simp add: insert_desc_def)
    moreover have "take (Suc (queue_size s)) ((run_queue s)[queue_size s := p]) = rq s @ [p]"
      using sp len by (simp add: rq_def take_Suc_conv_app_nth)
    moreover have tw: "takeWhile (\<lambda>r. prio s p \<le> prio s r) (rq s) = rq s"
      using all by (simp only: takeWhile_eq_all_conv)
    have "pos = queue_size s" unfolding pos_def tw by (rule rl)
    ultimately show ?thesis using None len by (simp add: at_def arr_def)
  next
    case (Some i)
    note sp1 = first_idx_takeWhile [OF Some [unfolded found_def]]
    have i: "i < queue_size s" using first_idx_SomeD [OF Some [unfolded found_def]] rl by simp
    have "take (Suc (queue_size s)) (arr[at := p]) = take i (rq s) @ p # drop i (rq s)"
      unfolding at_def arr_def rq_def
      using shift_right_insert [of "queue_size s" "run_queue s" i p] i sp len Some by simp
    moreover have "insert_desc (prio s) p (rq s) = take i (rq s) @ p # drop i (rq s)" "pos = i"
      using sp1 i rl unfolding np by (simp_all add: insert_desc_def pos_def)
    ultimately show ?thesis using Some len by (simp add: at_def arr_def)
  qed
  then have arr: "take (Suc (queue_size s)) (arr[pos := p]) = insert_desc (prio s) p (rq s)"
    and at: "at = pos" and "length arr = MAX_PROCESSES" by auto
  then show "rq (scheduler_add p s) = insert_desc (prio s) p (rq s)"
    and "queue_size (scheduler_add p s) = Suc (queue_size s)"
    and "length (run_queue (scheduler_add p s)) = MAX_PROCESSES"
    and "queue_idx (scheduler_add p s) =
      (if pos \<le> queue_idx s \<and> 0 < queue_size s then Suc (queue_idx s) else queue_idx s)"
    unfolding add at by (simp_all add: rq_def [of "_ :: 'a ssys_scheme"] Let_def)
qed

lemma queue_inv_add:
  assumes q: "queue_inv s" and p: "p < MAX_PROCESSES" "p \<notin> set (rq s)"
  shows "queue_inv (scheduler_add p s)"
proof (cases "queue_size s < MAX_PROCESSES \<and> Some p \<noteq> idle_pcb s")
  case True
  then have sp: "queue_size s < MAX_PROCESSES" and ni: "Some p \<noteq> idle_pcb s" by auto
  note sh = scheduler_add_shape [OF q sp ni]
  have pr: "prio (scheduler_add p s) = prio s" by simp
  show ?thesis
    unfolding queue_inv_def sh(1,2,3) pr frame_scheduler_add
    using q p ni sp sh(4) queue_invD [OF q]
    by (auto simp: distinct_insert_desc desc_insert_desc)
next
  case False
  then have "scheduler_add p s = s" by (auto simp: scheduler_add_def)
  with q show ?thesis by simp
qed

lemma scheduler_remove_shape:
  assumes q: "queue_inv s"
  shows "rq (scheduler_remove p s) = remove1 p (rq s)"
    and "length (run_queue (scheduler_remove p s)) = MAX_PROCESSES"
    and "queue_size (scheduler_remove p s) = length (remove1 p (rq s))"
    and "queue_idx (scheduler_remove p s) < queue_size (scheduler_remove p s) \<or>
      queue_idx (scheduler_remove p s) = 0"
proof -
  note len = queue_inv_length [OF q] and rl = queue_inv_rq_length [OF q]
  have "rq (scheduler_remove p s) = remove1 p (rq s) \<and> length (run_queue (scheduler_remove p s)) = MAX_PROCESSES \<and>
    queue_size (scheduler_remove p s) = length (remove1 p (rq s)) \<and>
    (queue_idx (scheduler_remove p s) < queue_size (scheduler_remove p s) \<or> queue_idx (scheduler_remove p s) = 0)"
  proof (cases "first_idx (\<lambda>r. p = r) (rq s)")
    case None
    then have "p \<notin> set (rq s)" by auto
    then have "remove1 p (rq s) = rq s" by (simp add: remove1_idem)
    moreover have "scheduler_remove p s = s" unfolding scheduler_remove_def None by simp
    ultimately show ?thesis using len rl queue_inv_idx [OF q] by simp
  next
    case (Some i)
    have i: "i < queue_size s" "p = rq s ! i" using first_idx_SomeD [OF Some] rl by auto
    then have mem: "p \<in> set (rq s)" using rl nth_mem [of i "rq s"] by simp
    have "take (queue_size s - 1) (shift_left i (queue_size s - 1) (run_queue s)) = remove1 p (rq s)"
      using shift_left_delete [of "queue_size s" "run_queue s" i] i(1) len queue_inv_size [OF q]
        remove1_first_idx [OF Some] by (simp add: rq_def)
    then show ?thesis
      using Some i len rl mem queue_inv_idx [OF q]
      by (auto simp: scheduler_remove_def rq_def Let_def length_remove1)
  qed
  then show "rq (scheduler_remove p s) = remove1 p (rq s)"
    and "length (run_queue (scheduler_remove p s)) = MAX_PROCESSES"
    and "queue_size (scheduler_remove p s) = length (remove1 p (rq s))"
    and "queue_idx (scheduler_remove p s) < queue_size (scheduler_remove p s) \<or>
      queue_idx (scheduler_remove p s) = 0" by auto
qed

lemma queue_inv_remove:
  assumes q: "queue_inv s"
  shows "queue_inv (scheduler_remove p s)"
proof -
  have pr: "prio (scheduler_remove p s) = prio s" by simp
  have len: "length (remove1 p (rq s)) \<le> MAX_PROCESSES"
    using queue_inv_size [OF q] queue_inv_rq_length [OF q] length_remove1 [of p "rq s"]
    by (auto split: if_splits)
  show ?thesis
    unfolding queue_inv_def pr
    using scheduler_remove_shape [OF q, of p] queue_invD [OF q] desc_remove1 [OF queue_inv_desc [OF q]] len
    by (auto dest: set_remove1_subset [THEN subsetD])
qed

lemma scheduler_add_full:
  "\<not> (queue_size s < MAX_PROCESSES \<and> Some p \<noteq> idle_pcb s) \<Longrightarrow> scheduler_add p s = s"
  by (auto simp: scheduler_add_def)

text \<open>The cursor stays on the process it pointed to.\<close>

lemma nth_insert_desc:
  fixes key :: "'a \<Rightarrow> 'b::linorder" and p :: 'a
  assumes "i < length xs"
  defines "pos \<equiv> length (takeWhile (\<lambda>r. key p \<le> key r) xs)"
  shows "insert_desc key p xs ! (if pos \<le> i then Suc i else i) = xs ! i"
proof -
  let ?a = "takeWhile (\<lambda>r. key p \<le> key r) xs" and ?b = "dropWhile (\<lambda>r. key p \<le> key r) xs"
  have "xs ! i = (?a @ ?b) ! i" by simp
  also have "\<dots> = (?a @ p # ?b) ! (if pos \<le> i then Suc i else i)"
    unfolding pos_def nth_append by (simp add: Suc_diff_le)
  finally show ?thesis by (simp add: insert_desc_def)
qed

lemma add_cursor:
  assumes q: "queue_inv s" and sz: "0 < queue_size s"
  shows "rq (scheduler_add p s) ! queue_idx (scheduler_add p s) = rq s ! queue_idx s"
proof (cases "queue_size s < MAX_PROCESSES \<and> Some p \<noteq> idle_pcb s")
  case True
  then have sp: "queue_size s < MAX_PROCESSES" and ni: "Some p \<noteq> idle_pcb s" by auto
  have "queue_idx s < length (rq s)" using queue_inv_idx [OF q] queue_inv_rq_length [OF q] sz by auto
  from nth_insert_desc [OF this, of "prio s" p] show ?thesis
    unfolding scheduler_add_shape [OF q sp ni] using sz by simp
qed (simp add: scheduler_add_full)

lemma remove_cursor:
  assumes q: "queue_inv s" and sz: "0 < queue_size s" and ne: "p \<noteq> rq s ! queue_idx s"
  shows "rq (scheduler_remove p s) ! queue_idx (scheduler_remove p s) = rq s ! queue_idx s"
proof (cases "first_idx (\<lambda>r. p = r) (rq s)")
  case None
  show ?thesis unfolding scheduler_remove_def None by simp
next
  case (Some i)
  note rl = queue_inv_rq_length [OF q]
  have c: "queue_idx s < queue_size s" using queue_inv_idx [OF q] sz by auto
  have i: "i < queue_size s" "rq s ! i = p" using first_idx_SomeD [OF Some] rl by auto
  with ne have "i \<noteq> queue_idx s" by auto
  then have idx: "queue_idx (scheduler_remove p s) = (if i < queue_idx s then queue_idx s - 1 else queue_idx s)"
    unfolding scheduler_remove_def Some using i c by (auto simp: Let_def)
  show ?thesis
    unfolding idx scheduler_remove_shape(1) [OF q] remove1_first_idx [OF Some]
    using i c rl \<open>i \<noteq> queue_idx s\<close> by (auto simp: nth_append)
qed

end
