(* ===== verification/Sched_Select.thy ===== *)
theory Sched_Select
  imports Sched_Queue
begin

text \<open>
  Which process runs next. \<open>select\<close> states the policy of \<open>scheduler_next_ready\<close> over the
  run queue read cyclically from behind the cursor: among the READY processes the ones of
  the highest effective priority, of these the foreground ones if there are any, of these
  the first; the idle process if none is READY. The two passes of the code compute it.
\<close>

definition ready :: "'a ssys_scheme \<Rightarrow> nat \<Rightarrow> bool" where
  "ready s r \<longleftrightarrow> p_state (pcb_at s r) = PROCESS_READY"

definition best :: "(nat \<Rightarrow> pcb) \<Rightarrow> nat list \<Rightarrow> nat list" where
  "best pcb xs = filter (\<lambda>r. p_state (pcb r) = PROCESS_READY \<and>
     (\<forall>q\<in>set xs. p_state (pcb q) = PROCESS_READY \<longrightarrow> eff (pcb q) \<le> eff (pcb r))) xs"

definition select :: "ptr \<Rightarrow> (nat \<Rightarrow> pcb) \<Rightarrow> nat list \<Rightarrow> ptr" where
  "select idle pcb xs =
     (case filter (\<lambda>r. p_foreground (pcb r) \<noteq> 0) (best pcb xs) of
        c # _ \<Rightarrow> Some c
      | [] \<Rightarrow> (case best pcb xs of c # _ \<Rightarrow> Some c | [] \<Rightarrow> idle))"

lemma find_filter: "find P xs = (case filter P xs of c # _ \<Rightarrow> Some c | [] \<Rightarrow> None)"
  by (induction xs) auto

subsection \<open>One pass\<close>

definition cyc :: "nat list \<Rightarrow> nat \<Rightarrow> nat list" where
  "cyc xs i = map (\<lambda>d. xs ! ((i + d) mod length xs)) [1..<Suc (length xs)]"

lemma cyc_rotate: "cyc xs i = rotate (Suc i) xs"
proof (rule nth_equalityI)
  show "length (cyc xs i) = length (rotate (Suc i) xs)" by (cases xs) (simp_all add: cyc_def del: upt_Suc)
next
  fix k assume "k < length (cyc xs i)"
  then have k: "k < length xs" by (cases xs) (simp_all add: cyc_def del: upt_Suc)
  then show "cyc xs i ! k = rotate (Suc i) xs ! k"
    by (simp add: cyc_def nth_rotate del: upt_Suc rotate_Suc)
qed

lemma set_cyc [simp]: "set (cyc xs i) = set xs"
  by (simp add: cyc_rotate del: rotate_Suc)

lemma scan_find:
  "0 < n \<Longrightarrow> i < n \<Longrightarrow> scan k P q n i =
     (case find (\<lambda>d. P (q ! ((i + d) mod n))) [1..<Suc k] of
        None \<Rightarrow> (None, (i + k) mod n)
      | Some d \<Rightarrow> (Some (q ! ((i + d) mod n)), (i + d) mod n))"
proof (induction k arbitrary: i)
  case (Suc k)
  let ?j = "(i + 1) mod n"
  have j: "?j < n" using Suc.prems by simp
  have shift: "[1..<Suc (Suc k)] = 1 # map Suc [1..<Suc k]"
    by (simp add: map_Suc_upt upt_conv_Cons del: upt_Suc)
  have step: "(?j + d) mod n = (i + Suc d) mod n" for d
    by (simp add: mod_add_left_eq)
  have find_map: "find Q (map Suc ds) = map_option Suc (find (\<lambda>d. Q (Suc d)) ds)" for Q ds
    by (induction ds) auto
  show ?case
  proof (cases "P (q ! ?j)")
    case True
    then show ?thesis unfolding shift by (simp add: Let_def)
  next
    case False
    have "scan (Suc k) P q n i = scan k P q n ?j" using False by (simp add: Let_def)
    also have "\<dots> = (case find (\<lambda>d. P (q ! ((?j + d) mod n))) [1..<Suc k] of
        None \<Rightarrow> (None, (?j + k) mod n)
      | Some d \<Rightarrow> (Some (q ! ((?j + d) mod n)), (?j + d) mod n))"
      by (rule Suc.IH [OF Suc.prems(1) j])
    also have "\<dots> = (case find (\<lambda>d. P (q ! ((i + d) mod n))) [1..<Suc (Suc k)] of
        None \<Rightarrow> (None, (i + Suc k) mod n)
      | Some d \<Rightarrow> (Some (q ! ((i + d) mod n)), (i + d) mod n))"
      unfolding shift step using False by (simp add: find_map split: option.split)
    finally show ?thesis .
  qed
qed simp

lemma find_map_comp: "find P (map f xs) = map_option f (find (\<lambda>x. P (f x)) xs)"
  by (induction xs) auto

text \<open>A full pass over the slots in use finds the first candidate in cyclic order.\<close>

lemma scan_full:
  assumes n: "0 < n" "n \<le> length q" "i < n"
  shows "fst (scan n P q n i) = find P (cyc (take n q) i)"
    and "snd (scan n P q n i) < n"
    and "find P (cyc (take n q) i) = Some c \<Longrightarrow> take n q ! snd (scan n P q n i) = c"
    and "find P (cyc (take n q) i) = None \<Longrightarrow> snd (scan n P q n i) = i"
proof -
  let ?f = "find (\<lambda>d. P (q ! ((i + d) mod n))) [1..<Suc n]"
  have "cyc (take n q) i = map (\<lambda>d. q ! ((i + d) mod n)) [1..<Suc n]"
    using n by (simp add: cyc_def del: upt_Suc)
  then have f: "find P (cyc (take n q) i) = map_option (\<lambda>d. q ! ((i + d) mod n)) ?f"
    by (simp only: find_map_comp)
  note sf = scan_find [OF n(1,3), of n P q]
  show "fst (scan n P q n i) = find P (cyc (take n q) i)"
    unfolding f sf by (simp split: option.split del: upt_Suc)
  show "snd (scan n P q n i) < n"
    unfolding sf using n by (simp split: option.split del: upt_Suc)
  show "find P (cyc (take n q) i) = Some c \<Longrightarrow> take n q ! snd (scan n P q n i) = c"
    unfolding f sf using n by (auto split: option.splits simp del: upt_Suc)
  show "find P (cyc (take n q) i) = None \<Longrightarrow> snd (scan n P q n i) = i"
    unfolding f sf using n by (auto split: option.splits simp del: upt_Suc)
qed

subsection \<open>The highest effective priority\<close>

lemma eff_nonneg: "0 \<le> eff p"
  by (simp add: eff_def)

lemma Max_insert_if:
  "finite A \<Longrightarrow> Max (insert a (insert b A)) = Max (insert (if b > a then b else a) (A :: int set))"
  by (cases "A = {}") (simp_all add: max_def)

lemma fold_max_if:
  "fold (\<lambda>r h. if P r \<and> f r > h then f r else h) xs (a::int) = Max (insert a (f ` {r \<in> set xs. P r}))"
proof (induction xs arbitrary: a)
  case (Cons x xs)
  have fin: "finite (f ` {r \<in> set xs. P r})" by simp
  show ?case
  proof (cases "P x")
    case True
    have "f ` {r \<in> set (x # xs). P r} = insert (f x) (f ` {r \<in> set xs. P r})" using True by auto
    then show ?thesis
      using Cons.IH [of "if f x > a then f x else a"] True Max_insert_if [OF fin, of a "f x"] by simp
  next
    case False
    then have "{r \<in> set (x # xs). P r} = {r \<in> set xs. P r}" by auto
    then show ?thesis using Cons.IH [of a] False by simp
  qed
qed simp

lemma highest_eff_Max: "highest_eff s = Max (insert (-1) ((\<lambda>r. eff (pcb_at s r)) ` {r \<in> set (rq s). ready s r}))"
  unfolding highest_eff_def ready_def by (rule fold_max_if)

lemma highest_eff_none: "highest_eff s < 0 \<longleftrightarrow> (\<forall>r\<in>set (rq s). \<not> ready s r)"
proof -
  let ?S = "(\<lambda>r. eff (pcb_at s r)) ` {r \<in> set (rq s). ready s r}"
  have "highest_eff s < 0 \<longleftrightarrow> (\<forall>x\<in>?S. x < 0)"
    unfolding highest_eff_Max by (subst Max_less_iff) auto
  moreover have "(\<forall>x\<in>?S. x < 0) \<longleftrightarrow> (\<forall>r\<in>set (rq s). \<not> ready s r)"
    using eff_nonneg by (auto simp: leD)
  ultimately show ?thesis by simp
qed

lemma highest_eff_is:
  assumes "r \<in> set (rq s)" "ready s r"
  shows "eff (pcb_at s r) = highest_eff s \<longleftrightarrow>
    (\<forall>q\<in>set (rq s). ready s q \<longrightarrow> eff (pcb_at s q) \<le> eff (pcb_at s r))"
proof -
  let ?S = "insert (-1) ((\<lambda>r. eff (pcb_at s r)) ` {r \<in> set (rq s). ready s r})"
  have "eff (pcb_at s r) \<in> ?S" using assms by auto
  then have "eff (pcb_at s r) = Max ?S \<longleftrightarrow> (\<forall>x\<in>?S. x \<le> eff (pcb_at s r))"
    by (subst eq_Max_iff) auto
  then show ?thesis using eff_nonneg [of "pcb_at s r"] by (auto simp: highest_eff_Max)
qed

lemma best_alt:
  assumes "set xs = set (rq s)"
  shows "best (pcb_at s) xs = filter (\<lambda>r. ready s r \<and> eff (pcb_at s r) = highest_eff s) xs"
  unfolding best_def using assms highest_eff_is [of _ s] by (intro filter_cong) (auto simp: ready_def)

subsection \<open>The two passes compute the policy\<close>

lemma next_ready_select:
  assumes q: "queue_inv s"
  defines "order \<equiv> rotate (Suc (queue_idx s)) (rq s)"
  obtains j where
    "scheduler_next_ready s = (select (idle_pcb s) (pcb_at s) order, s\<lparr>queue_idx := j\<rparr>)"
    "j < queue_size s \<or> j = 0"
    "\<And>c. select None (pcb_at s) order = Some c \<Longrightarrow> rq s ! j = c \<and> j < queue_size s"
proof (cases "queue_size s = 0 \<or> highest_eff s < 0")
  case True
  then have none: "best (pcb_at s) order = []"
  proof
    assume "queue_size s = 0"
    then show ?thesis by (simp add: best_def order_def rq_def)
  next
    assume "highest_eff s < 0"
    then show ?thesis by (simp add: best_def highest_eff_none ready_def order_def filter_empty_conv del: rotate_Suc)
  qed
  have "scheduler_next_ready s = (idle_pcb s, s\<lparr>queue_idx := queue_idx s\<rparr>)"
    using True by (auto simp: scheduler_next_ready_def)
  with none that [of "queue_idx s"] queue_inv_idx [OF q] show thesis by (simp add: select_def)
next
  case False
  let ?n = "queue_size s" and ?h = "highest_eff s"
  let ?p2 = "\<lambda>c. ready s c \<and> eff (pcb_at s c) = ?h"
  let ?p1 = "\<lambda>c. p_foreground (pcb_at s c) \<noteq> 0 \<and> ?p2 c"
  have n: "0 < ?n" "?n \<le> length (run_queue s)" "queue_idx s < ?n"
    using False queue_invD [OF q] by auto
  have cyc: "cyc (take ?n (run_queue s)) (queue_idx s) = order"
    by (simp only: cyc_rotate order_def rq_def)
  have b: "best (pcb_at s) order = filter ?p2 order"
    by (rule best_alt) (simp add: order_def del: rotate_Suc)
  have f1: "filter (\<lambda>r. p_foreground (pcb_at s r) \<noteq> 0) (best (pcb_at s) order) = filter ?p1 order"
    unfolding b filter_filter by (rule filter_cong) auto
  define r1 where "r1 = scan ?n ?p1 (run_queue s) ?n (queue_idx s)"
  define r2 where "r2 = scan ?n ?p2 (run_queue s) ?n (snd r1)"
  note s1 = scan_full [OF n, of ?p1, folded r1_def, unfolded cyc]
  have P1: "(\<lambda>c. p_state (pcb_at s c) = PROCESS_READY \<and> p_foreground (pcb_at s c) \<noteq> 0 \<and>
      int (unat (p_priority (pcb_at s c))) + 1 + int (aging_bonus (pcb_at s c)) = ?h) = ?p1"
    by (auto simp: ready_def eff_def)
  have P2: "(\<lambda>c. p_state (pcb_at s c) = PROCESS_READY \<and> eff (pcb_at s c) = ?h) = ?p2"
    by (auto simp: ready_def)
  have run: "scheduler_next_ready s = (case r1 of (Some c, i) \<Rightarrow> (Some c, s\<lparr>queue_idx := i\<rparr>)
     | (None, i) \<Rightarrow> (case scan ?n ?p2 (run_queue s) ?n i of
                  (Some c, j) \<Rightarrow> (Some c, s\<lparr>queue_idx := j\<rparr>)
                | (None, j) \<Rightarrow> (idle_pcb s, s\<lparr>queue_idx := j\<rparr>)))"
    unfolding scheduler_next_ready_def Let_def P1 P2 r1_def using False by simp
  show thesis
  proof (cases "find ?p1 order")
    case (Some c)
    then have "r1 = (Some c, snd r1)" using s1(1) by (metis prod.collapse)
    then have "scheduler_next_ready s = (Some c, s\<lparr>queue_idx := snd r1\<rparr>)" unfolding run by (cases r1) simp
    moreover have "select x (pcb_at s) order = Some c" for x
      using Some unfolding select_def f1 find_filter by (simp split: list.splits)
    ultimately show thesis using that [of "snd r1"] s1(2,3) Some by (simp add: rq_def)
  next
    case None
    then have r1: "fst r1 = None" "snd r1 = queue_idx s" using s1(1,4) by simp_all
    note s2 = scan_full [OF n(1,2), of "snd r1" ?p2, folded r2_def, unfolded r1(2) cyc, OF n(3)]
    have sel: "select x (pcb_at s) order = (case find ?p2 order of Some c \<Rightarrow> Some c | None \<Rightarrow> x)" for x
      using None unfolding select_def f1 find_filter unfolding b by (simp split: list.splits del: filter_filter)
    have "scheduler_next_ready s = (select (idle_pcb s) (pcb_at s) order, s\<lparr>queue_idx := snd r2\<rparr>)"
      unfolding run sel using r1 s2(1) by (cases r1; cases r2) (simp add: r2_def split: option.split)
    with that [of "snd r2"] s2(2,3) show thesis by (auto simp: sel rq_def split: option.splits)
  qed
qed

lemma select_Some:
  "select None pcb xs = Some c \<Longrightarrow> c \<in> set (best pcb xs) \<and> (\<forall>x. select x pcb xs = Some c)"
proof -
  assume "select None pcb xs = Some c"
  then have "c \<in> set (best pcb xs)"
    by (auto simp: select_def split: list.splits dest!: filter_eq_ConsD)
  moreover from \<open>select None pcb xs = Some c\<close> have "select x pcb xs = Some c" for x
    by (auto simp: select_def split: list.splits)
  ultimately show ?thesis by blast
qed

lemma select_None: "select None pcb xs = None \<longleftrightarrow> (\<forall>r\<in>set xs. p_state (pcb r) \<noteq> PROCESS_READY)"
proof
  assume n: "\<forall>r\<in>set xs. p_state (pcb r) \<noteq> PROCESS_READY"
  then have "best pcb xs = []" by (simp add: best_def filter_empty_conv)
  then show "select None pcb xs = None" by (simp add: select_def)
next
  assume n: "select None pcb xs = None"
  then have b: "best pcb xs = []" by (auto simp: select_def split: list.splits)
  show "\<forall>r\<in>set xs. p_state (pcb r) \<noteq> PROCESS_READY"
  proof (rule ccontr)
    let ?R = "{r \<in> set xs. p_state (pcb r) = PROCESS_READY}"
    assume "\<not> (\<forall>r\<in>set xs. p_state (pcb r) \<noteq> PROCESS_READY)"
    then have ne: "(\<lambda>r. eff (pcb r)) ` ?R \<noteq> {}" by auto
    have fin: "finite ((\<lambda>r. eff (pcb r)) ` ?R)" by simp
    from Max_in [OF fin ne] obtain r where r: "r \<in> ?R" "eff (pcb r) = Max ((\<lambda>r. eff (pcb r)) ` ?R)" by auto
    then have "r \<in> set (best pcb xs)"
      unfolding best_def using Max_ge [OF fin] by auto
    with b show False by simp
  qed
qed

lemma select_idle: "select None pcb xs = None \<Longrightarrow> select x pcb xs = x"
  by (auto simp: select_def split: list.splits)

end
