(* ===== verification/Sched_Switch.thy ===== *)
theory Sched_Switch
  imports Sched_Select
begin

text \<open>
  Context switches: what \<open>scheduler_tick\<close> and \<open>scheduler_yield_impl\<close> leave behind. The
  invariant \<open>sched_inv\<close> joins the invariant of the process table with that of the run
  queue; \<open>mem_inv\<close> says that the stacks and argument blocks of the live processes are
  distinct live blocks of the kernel heap, so that the reaping of a ZOMBIE returns.
\<close>

definition sched_inv :: "'a ssys_scheme \<Rightarrow> bool" where
  "sched_inv s \<longleftrightarrow> table_inv s \<and> queue_inv s \<and>
     (\<forall>i. idle_pcb s = Some i \<longrightarrow> live s i \<and> p_state (pcb_at s i) \<noteq> PROCESS_ZOMBIE) \<and>
     (\<forall>r\<in>set (rq s). live s r)"

lemma sched_invD:
  assumes "sched_inv s"
  shows sched_inv_table: "table_inv s" and sched_inv_queue: "queue_inv s"
    and sched_inv_idle: "idle_pcb s = Some i \<Longrightarrow> live s i \<and> p_state (pcb_at s i) \<noteq> PROCESS_ZOMBIE"
    and sched_inv_live: "r \<in> set (rq s) \<Longrightarrow> live s r"
    and sched_inv_length: "length (process_table s) = MAX_PROCESSES"
  using assms by (auto simp: sched_inv_def table_inv_length)

lemma live_less: "live s i \<Longrightarrow> i < length (process_table s)"
  by (simp add: live_def)

subsection \<open>Blocks owned by processes\<close>

definition own :: "pcb \<Rightarrow> addr list" where
  "own p = (case p_stack_base p of None \<Rightarrow> [] | Some b \<Rightarrow> [b]) @ (case p_argv p of None \<Rightarrow> [] | Some b \<Rightarrow> [b])"

text \<open>\<open>L\<close> is the set of live blocks (payload address, size).\<close>

definition mem_inv :: "(nat \<times> nat) set \<Rightarrow> 'a ssys_scheme \<Rightarrow> bool" where
  "mem_inv L s \<longleftrightarrow> (\<exists>a e. ff_live a e (heap s) L) \<and>
     (\<forall>i. live s i \<longrightarrow> distinct (own (pcb_at s i)) \<and> set (own (pcb_at s i)) \<subseteq> fst ` L) \<and>
     (\<forall>i j. live s i \<longrightarrow> live s j \<longrightarrow> i \<noteq> j \<longrightarrow> set (own (pcb_at s i)) \<inter> set (own (pcb_at s j)) = {})"

definition drop_blocks :: "addr set \<Rightarrow> (nat \<times> nat) set \<Rightarrow> (nat \<times> nat) set" where
  "drop_blocks A L = {b \<in> L. fst b \<notin> A}"

lemma ff_live_functional:
  "ff_live a e h L \<Longrightarrow> (p, m) \<in> L \<Longrightarrow> (p, n) \<in> L \<Longrightarrow> m = n"
  unfolding ff_live_def ff_rep_def using live_functional by blast

lemma free_live_block:
  assumes "ff_live a e h L" "p \<in> fst ` L"
  obtains h' where "mm_free (Some p) h = Some h'" "ff_live a e h' (drop_blocks {p} L)"
proof -
  from assms(2) obtain m where m: "(p, m) \<in> L" by auto
  have "L - {(p, m)} = drop_blocks {p} L"
    by (auto simp: drop_blocks_def dest: ff_live_functional [OF assms(1) m])
  with ff.release_ok [OF assms(1) m] obtain h' where
    "mm_free (Some p) h = Some h'" "ff_live a e h' (drop_blocks {p} L)" by auto
  then show thesis by (rule that)
qed

lemma drop_blocks_drop_blocks: "drop_blocks A (drop_blocks B L) = drop_blocks (A \<union> B) L"
  by (auto simp: drop_blocks_def)

lemma drop_blocks_empty [simp]: "drop_blocks {} L = L"
  by (simp add: drop_blocks_def)

lemma fst_drop_blocks: "fst ` drop_blocks A L = fst ` L - A"
  by (force simp: drop_blocks_def)

lemma kfree_live:
  assumes "ff_live a e (heap s) L" "set (case p of None \<Rightarrow> [] | Some b \<Rightarrow> [b]) \<subseteq> fst ` L"
  obtains h' where "kfree p s = Some (s\<lparr>heap := h'\<rparr>)"
    "ff_live a e h' (drop_blocks (set (case p of None \<Rightarrow> [] | Some b \<Rightarrow> [b])) L)"
    "p = None \<longrightarrow> h' = heap s"
proof (cases p)
  case None
  with assms(1) that [of "heap s"] show thesis by (simp add: kfree_def ff.release_NULL)
next
  case (Some b)
  then have "b \<in> fst ` L" using assms(2) by simp
  from free_live_block [OF assms(1) this] obtain h' where
    "mm_free (Some b) (heap s) = Some h'" "ff_live a e h' (drop_blocks {b} L)" .
  with Some that [of h'] show thesis by (simp add: kfree_def)
qed

lemma pcb_at_heap [simp]: "pcb_at (s\<lparr>heap := h\<rparr>) i = pcb_at s i"
  by (simp add: pcb_at_def)

lemma upd_pcb_heap [simp]: "upd_pcb i f (s\<lparr>heap := h\<rparr>) = (upd_pcb i f s)\<lparr>heap := h\<rparr>"
  by (simp add: upd_pcb_def)

lemma upd_pcb_upd_pcb [simp]: "upd_pcb i f (upd_pcb i g s) = upd_pcb i (f \<circ> g) s"
  by (simp add: upd_pcb_def)

text \<open>Releasing the stack and the arguments of process \<open>c\<close>.\<close>

lemma free_stack_argv_live:
  assumes l: "ff_live a e (heap s) L" and c: "c < length (process_table s)"
    and o: "distinct (own (pcb_at s c))" "set (own (pcb_at s c)) \<subseteq> fst ` L"
  obtains h' where
    "free_stack_argv c s = Some (upd_pcb c (\<lambda>p. p\<lparr>p_stack_base := None, p_argv := None\<rparr>) s\<lparr>heap := h'\<rparr>)"
    "ff_live a e h' (drop_blocks (set (own (pcb_at s c))) L)"
proof -
  let ?st = "p_stack_base (pcb_at s c)" and ?av = "p_argv (pcb_at s c)"
  let ?S = "set (case ?st of None \<Rightarrow> [] | Some b \<Rightarrow> [b])" and ?A = "set (case ?av of None \<Rightarrow> [] | Some b \<Rightarrow> [b])"
  have sub: "?S \<subseteq> fst ` L" "?A \<subseteq> fst ` L" "?S \<inter> ?A = {}" using o by (auto simp: own_def)
  have eqs: "(\<lambda>p. p\<lparr>p_stack_base := None\<rparr>) (pcb_at s c) = pcb_at s c" if "?st = None"
    using that by simp
  from kfree_live [OF l sub(1)] obtain h1 where h1: "kfree ?st s = Some (s\<lparr>heap := h1\<rparr>)"
    "ff_live a e h1 (drop_blocks ?S L)" "?st = None \<longrightarrow> h1 = heap s" .
  define s1 where "s1 = (upd_pcb c (\<lambda>p. p\<lparr>p_stack_base := None\<rparr>) s)\<lparr>heap := h1\<rparr>"
  have first: "(if ?st \<noteq> None then map_option (upd_pcb c (\<lambda>p. p\<lparr>p_stack_base := None\<rparr>)) (kfree ?st s)
      else Some s) = Some s1"
  proof (cases "?st = None")
    case True
    then have "h1 = heap s" using h1(3) by simp
    moreover have "upd_pcb c (\<lambda>p. p\<lparr>p_stack_base := None\<rparr>) s = s"
      using True eqs c by (simp add: upd_pcb_def pcb_at_def modify_id)
    ultimately show ?thesis using True by (simp add: s1_def)
  next
    case False
    then show ?thesis using h1(1) by (simp add: s1_def)
  qed
  have at1: "p_argv (pcb_at s1 c) = ?av" using c by (simp add: s1_def table_simps)
  have len1: "c < length (process_table s1)" using c by (simp add: s1_def)
  have l1: "ff_live a e (heap s1) (drop_blocks ?S L)" using h1(2) by (simp add: s1_def)
  have "?A \<subseteq> fst ` drop_blocks ?S L" using sub by (auto simp: fst_drop_blocks)
  from kfree_live [OF l1 this] obtain h2 where h2: "kfree ?av s1 = Some (s1\<lparr>heap := h2\<rparr>)"
    "ff_live a e h2 (drop_blocks ?A (drop_blocks ?S L))" "?av = None \<longrightarrow> h2 = heap s1" .
  have "(if ?av \<noteq> None then map_option (upd_pcb c (\<lambda>p. p\<lparr>p_argv := None\<rparr>)) (kfree ?av s1) else Some s1) =
      Some ((upd_pcb c (\<lambda>p. p\<lparr>p_argv := None\<rparr>) s1)\<lparr>heap := h2\<rparr>)"
  proof (cases "?av = None")
    case True
    then have "h2 = heap s1" using h2(3) by simp
    moreover have "upd_pcb c (\<lambda>p. p\<lparr>p_argv := None\<rparr>) s1 = s1"
      using True at1 len1 by (simp add: upd_pcb_def pcb_at_def modify_id)
    ultimately show ?thesis using True by simp
  next
    case False
    then show ?thesis using h2(1) by simp
  qed
  then have "free_stack_argv c s = Some ((upd_pcb c (\<lambda>p. p\<lparr>p_argv := None\<rparr>) s1)\<lparr>heap := h2\<rparr>)"
    unfolding free_stack_argv_def first Option.bind.bind_lunit at1 .
  moreover have "(upd_pcb c (\<lambda>p. p\<lparr>p_argv := None\<rparr>) s1)\<lparr>heap := h2\<rparr> =
      upd_pcb c (\<lambda>p. p\<lparr>p_stack_base := None, p_argv := None\<rparr>) s\<lparr>heap := h2\<rparr>"
    by (simp add: s1_def upd_pcb_def comp_def)
  moreover have "?A \<union> ?S = set (own (pcb_at s c))" by (auto simp: own_def)
  ultimately show thesis using that h2(2) by (simp add: drop_blocks_drop_blocks)
qed

subsection \<open>Reaping a ZOMBIE\<close>

definition freed_pcb :: "pcb \<Rightarrow> pcb" where
  "freed_pcb p = p\<lparr>p_stack_base := None, p_argv := None, p_rsp := None, p_state := PROCESS_FREE, p_pid := 0\<rparr>"

text \<open>A process dies: its slot becomes FREE and it leaves the run queue. This keeps every
  invariant and takes exactly its blocks from the live blocks of the heap.\<close>

lemma pcb_at_upd [table_simps]:
  "c < length (process_table s) \<Longrightarrow> pcb_at (upd_pcb c f s) i = (if i = c then f (pcb_at s i) else pcb_at s i)"
  by (cases "i = c") (simp_all add: pcb_at_def upd_pcb_def)

lemma live_upd_pcb:
  "c < length (process_table s) \<Longrightarrow>
   live (upd_pcb c f s) i \<longleftrightarrow> (if i = c then p_state (f (pcb_at s c)) \<noteq> PROCESS_FREE else live s i)"
  by (auto simp: live_def pcb_at_upd)

lemma live_scheduler [simp]: "live (scheduler_add p s) = live s" "live (scheduler_remove p s) = live s"
  by (simp_all add: live_def fun_eq_iff)

lemma live_heap [simp]: "live (s\<lparr>heap := h\<rparr>) = live s"
  by (simp add: live_def fun_eq_iff)

lemma mem_invD:
  assumes "mem_inv L s"
  shows mem_inv_heap: "\<exists>a e. ff_live a e (heap s) L"
    and mem_inv_distinct: "live s i \<Longrightarrow> distinct (own (pcb_at s i))"
    and mem_inv_owned: "live s i \<Longrightarrow> set (own (pcb_at s i)) \<subseteq> fst ` L"
    and mem_inv_disjoint: "live s i \<Longrightarrow> live s j \<Longrightarrow> i \<noteq> j \<Longrightarrow>
      set (own (pcb_at s i)) \<inter> set (own (pcb_at s j)) = {}"
  using assms unfolding mem_inv_def by blast+

lemma mem_inv_free_slot:
  assumes m: "mem_inv L s" and c: "live s c" and h: "ff_live a e h (drop_blocks (set (own (pcb_at s c))) L)"
    and lv: "\<And>i. live t i \<Longrightarrow> i \<noteq> c \<and> live s i \<and> own (pcb_at t i) = own (pcb_at s i)" and th: "heap t = h"
  shows "mem_inv (drop_blocks (set (own (pcb_at s c))) L) t"
  unfolding mem_inv_def fst_drop_blocks
proof (intro conjI allI impI)
  show "\<exists>a e. ff_live a e (heap t) (drop_blocks (set (own (pcb_at s c))) L)" using h th by blast
next
  fix i assume "live t i"
  note l = lv [OF this]
  show "distinct (own (pcb_at t i))" using l mem_inv_distinct [OF m, of i] by simp
  have "live s i" "i \<noteq> c" using l by auto
  from mem_inv_owned [OF m this(1)] mem_inv_disjoint [OF m this(1) c this(2)]
  show "set (own (pcb_at t i)) \<subseteq> fst ` L - set (own (pcb_at s c))" using l by auto
next
  fix i j assume "live t i" "live t j" "i \<noteq> j"
  then show "set (own (pcb_at t i)) \<inter> set (own (pcb_at t j)) = {}"
    using lv [of i] lv [of j] mem_inv_disjoint [OF m, of i j] by simp
qed

lemma reap_zombie:
  assumes i: "sched_inv s" and m: "mem_inv L s"
    and c: "c < MAX_PROCESSES" "p_state (pcb_at s c) = PROCESS_ZOMBIE"
  obtains h' where
    "reap (Some c) s = Some (upd_pcb c freed_pcb (scheduler_remove c s)\<lparr>heap := h'\<rparr>)"
    "mem_inv (drop_blocks (set (own (pcb_at s c))) L) (upd_pcb c freed_pcb (scheduler_remove c s)\<lparr>heap := h'\<rparr>)"
proof -
  let ?r = "scheduler_remove c s"
  have len: "c < length (process_table s)" using c(1) sched_inv_length [OF i] by simp
  have lc: "live s c" using c(2) len by (simp add: live_def)
  from mem_inv_heap [OF m] obtain a e where l: "ff_live a e (heap ?r) L" by auto
  from free_stack_argv_live [OF l, of c] mem_inv_distinct [OF m lc] mem_inv_owned [OF m lc] len
  obtain h' where h': "free_stack_argv c ?r =
      Some (upd_pcb c (\<lambda>p. p\<lparr>p_stack_base := None, p_argv := None\<rparr>) ?r\<lparr>heap := h'\<rparr>)"
    "ff_live a e h' (drop_blocks (set (own (pcb_at s c))) L)" by auto
  have fp: "(\<lambda>p. p\<lparr>p_rsp := None, p_state := PROCESS_FREE, p_pid := 0\<rparr>) \<circ>
      (\<lambda>p. p\<lparr>p_stack_base := None, p_argv := None\<rparr>) = freed_pcb"
    by (simp add: fun_eq_iff freed_pcb_def)
  have r: "reap (Some c) s = Some (upd_pcb c freed_pcb ?r\<lparr>heap := h'\<rparr>)"
    using c(2) h'(1) by (simp add: reap_def fp)
  have "i \<noteq> c \<and> live s i \<and> own (pcb_at (upd_pcb c freed_pcb ?r\<lparr>heap := h'\<rparr>) i) = own (pcb_at s i)"
    if "live (upd_pcb c freed_pcb ?r\<lparr>heap := h'\<rparr>) i" for i
    using that len by (auto simp: live_upd_pcb pcb_at_upd freed_pcb_def live_def split: if_splits)
  from mem_inv_free_slot [OF m lc h'(2) this] have
    "mem_inv (drop_blocks (set (own (pcb_at s c))) L) (upd_pcb c freed_pcb ?r\<lparr>heap := h'\<rparr>)" by simp
  with r show thesis by (rule that)
qed

text \<open>The table after a process left it.\<close>

lemma table_inv_dead:
  assumes i: "table_inv s" and c: "c < MAX_PROCESSES"
    and t: "process_table t = modify c f (process_table s)" "next_pid t = next_pid s"
      "current_process t = current_process s" and f: "p_state (f (pcb_at s c)) = PROCESS_FREE"
  shows "table_inv t"
proof -
  note len = table_inv_length [OF i]
  have p: "pcb_at t k = (if k = c then f (pcb_at s k) else pcb_at s k)" for k
    using c len t(1) by (cases "k = c") (simp_all add: pcb_at_def)
  have lv: "live t k \<longleftrightarrow> live s k \<and> k \<noteq> c" for k
    using t(1) f p [of k] by (auto simp: live_def)
  show ?thesis
  proof (rule table_invI)
    show "length (process_table t) = MAX_PROCESSES" using len t(1) by simp
    show "pids_unique t" using table_inv_unique [OF i] by (auto simp: pids_unique_def lv p)
    show "p_pid (pcb_at t k) \<noteq> 0 \<and> p_pid (pcb_at t k) \<le> next_pid t" if "live t k" for k
      using that table_inv_pid [OF i, of k] t(2) by (simp add: lv p)
    show "k < MAX_PROCESSES" if "current_process t = Some k" for k
      using that table_inv_current [OF i] t(3) by simp
    show "current_process t = Some k" if "k < MAX_PROCESSES" "p_state (pcb_at t k) = PROCESS_RUNNING" for k
      using that f table_inv_running [OF i, of k] t(3) by (auto simp: p split: if_splits)
  qed
qed

subsection \<open>Changes that keep the invariants\<close>


lemma pcb_at_queue_idx [simp]: "pcb_at (s\<lparr>queue_idx := j\<rparr>) i = pcb_at s i"
  by (simp add: pcb_at_def)

lemma live_queue_idx [simp]: "live (s\<lparr>queue_idx := j\<rparr>) = live s"
  by (simp add: live_def fun_eq_iff)

lemma rq_queue_idx [simp]: "rq (s\<lparr>queue_idx := j\<rparr>) = rq s" "rq (s\<lparr>heap := h\<rparr>) = rq s"
  by (simp_all add: rq_def)

lemma table_inv_cong:
  "table_inv s \<Longrightarrow> process_table t = process_table s \<Longrightarrow> next_pid t = next_pid s \<Longrightarrow>
   current_process t = current_process s \<Longrightarrow> table_inv t"
  by (erule table_inv_benign [rotated]) (simp add: benign_def list_all2_refl)

lemma sched_inv_queue_idx:
  assumes "sched_inv s" "j < queue_size s \<or> j = 0"
  shows "sched_inv (s\<lparr>queue_idx := j\<rparr>)"
proof -
  have "queue_inv (s\<lparr>queue_idx := j\<rparr>)"
    by (rule queue_inv_cong [OF sched_inv_queue [OF assms(1)]]) (use assms(2) in simp_all)
  moreover have "table_inv (s\<lparr>queue_idx := j\<rparr>)"
    by (rule table_inv_cong [OF sched_inv_table [OF assms(1)]]) simp_all
  ultimately show ?thesis using assms(1) by (simp add: sched_inv_def)
qed

lemma mem_inv_cong:
  assumes "mem_inv L s" "heap t = heap s" "\<And>i. live t i \<Longrightarrow> live s i \<and> own (pcb_at t i) = own (pcb_at s i)"
  shows "mem_inv L t"
  using assms(1,2) assms(3) unfolding mem_inv_def by (metis)

text \<open>A slot update that keeps the PID, the priority and the blocks, does not free the slot
  and does not make a process RUNNING that is not the current one.\<close>

lemma sched_inv_upd_pcb:
  assumes i: "sched_inv s" and c: "c < MAX_PROCESSES"
    and f: "p_pid (f (pcb_at s c)) = p_pid (pcb_at s c)" "\<And>p. p_priority (f p) = p_priority p"
      "p_state (f (pcb_at s c)) = PROCESS_FREE \<longleftrightarrow> p_state (pcb_at s c) = PROCESS_FREE"
      "idle_pcb s = Some c \<Longrightarrow> p_state (f (pcb_at s c)) \<noteq> PROCESS_ZOMBIE"
      "p_state (f (pcb_at s c)) = PROCESS_RUNNING \<Longrightarrow> current_process s = Some c"
  shows "sched_inv (upd_pcb c f s)"
proof -
  note len = sched_inv_length [OF i]
  have p: "pcb_at (upd_pcb c f s) k = (if k = c then f (pcb_at s k) else pcb_at s k)" for k
    using c len by (simp add: pcb_at_upd)
  have cl: "c < length (process_table s)" using c len by simp
  have "p_state (f (pcb_at s c)) \<noteq> PROCESS_FREE \<longleftrightarrow> live s c" using cl f(3) by (simp add: live_def)
  then have lv: "live (upd_pcb c f s) k \<longleftrightarrow> live s k" for k
    using live_upd_pcb [OF cl, of f k] by (cases "k = c") simp_all
  have pid: "p_pid (pcb_at (upd_pcb c f s) k) = p_pid (pcb_at s k)" for k using f(1) by (simp add: p)
  have "table_inv (upd_pcb c f s)"
  proof (rule table_invI)
    show "length (process_table (upd_pcb c f s)) = MAX_PROCESSES" using len by simp
    show "pids_unique (upd_pcb c f s)"
      using table_inv_unique [OF sched_inv_table [OF i]] by (simp add: pids_unique_def lv pid)
    show "p_pid (pcb_at (upd_pcb c f s) k) \<noteq> 0 \<and> p_pid (pcb_at (upd_pcb c f s) k) \<le> next_pid (upd_pcb c f s)"
      if "live (upd_pcb c f s) k" for k
      using that table_inv_pid [OF sched_inv_table [OF i], of k] by (simp add: lv pid)
    show "k < MAX_PROCESSES" if "current_process (upd_pcb c f s) = Some k" for k
      using that table_inv_current [OF sched_inv_table [OF i]] by simp
    show "current_process (upd_pcb c f s) = Some k"
      if "k < MAX_PROCESSES" "p_state (pcb_at (upd_pcb c f s) k) = PROCESS_RUNNING" for k
      using that f(5) table_inv_running [OF sched_inv_table [OF i], of k] by (auto simp: p split: if_splits)
  qed
  moreover have "queue_inv (upd_pcb c f s)" by (rule queue_inv_upd_pcb [OF sched_inv_queue [OF i] f(2)])
  moreover have "live s k \<and> p_state (pcb_at (upd_pcb c f s) k) \<noteq> PROCESS_ZOMBIE" if "idle_pcb s = Some k" for k
    using sched_inv_idle [OF i that] f(4) that by (auto simp: p)
  ultimately show ?thesis using sched_inv_live [OF i] by (simp add: sched_inv_def lv)
qed

lemma mem_inv_upd_pcb:
  assumes "mem_inv L s" "c < length (process_table s)" "own (f (pcb_at s c)) = own (pcb_at s c)"
    "p_state (f (pcb_at s c)) \<noteq> PROCESS_FREE \<Longrightarrow> p_state (pcb_at s c) \<noteq> PROCESS_FREE"
  shows "mem_inv L (upd_pcb c f s)"
  by (rule mem_inv_cong [OF assms(1)]) (use assms(2-) in \<open>auto simp: live_upd_pcb pcb_at_upd live_def split: if_splits\<close>)

subsection \<open>The switch itself\<close>

text \<open>What a switch to process \<open>n\<close> does to the state \<open>s\<close> it starts from.\<close>

definition runs :: "nat \<Rightarrow> 'a ssys_scheme \<Rightarrow> bool" where
  "runs n s \<longleftrightarrow> current_process s = Some n \<and> n < MAX_PROCESSES \<and> p_state (pcb_at s n) = PROCESS_RUNNING \<and>
     p_wait_ticks (pcb_at s n) = 0 \<and> (\<forall>i<MAX_PROCESSES. p_state (pcb_at s i) = PROCESS_RUNNING \<longrightarrow> i = n)"

definition dead_blocks :: "ptr \<Rightarrow> 'a ssys_scheme \<Rightarrow> addr set" where
  "dead_blocks cur s = (case cur of None \<Rightarrow> {}
     | Some c \<Rightarrow> if p_state (pcb_at s c) = PROCESS_ZOMBIE then set (own (pcb_at s c)) else {})"

lemma sched_inv_dead:
  assumes i: "sched_inv s" and c: "c < MAX_PROCESSES" "p_state (pcb_at s c) = PROCESS_ZOMBIE"
  shows "sched_inv (upd_pcb c freed_pcb (scheduler_remove c s)\<lparr>heap := h\<rparr>)" (is "sched_inv ?t")
proof -
  note q = sched_inv_queue [OF i] and len = sched_inv_length [OF i]
  have lv: "live ?t k \<longleftrightarrow> live s k \<and> k \<noteq> c" for k
    using c(1) len by (cases "k = c") (simp_all add: live_upd_pcb freed_pcb_def)
  have "queue_inv (upd_pcb c freed_pcb (scheduler_remove c s))"
    by (rule queue_inv_upd_pcb [OF queue_inv_remove [OF q]]) (simp add: freed_pcb_def)
  then have "queue_inv ?t"
    by (rule queue_inv_cong) (use scheduler_remove_shape(4) [OF q, of c] in auto)
  moreover have "table_inv ?t"
    by (rule table_inv_dead [OF sched_inv_table [OF i] c(1), of _ freed_pcb])
      (simp_all add: process_table_upd_pcb freed_pcb_def)
  moreover have "live s k \<and> k \<noteq> c \<and> p_state (pcb_at ?t k) \<noteq> PROCESS_ZOMBIE" if "idle_pcb s = Some k" for k
    using sched_inv_idle [OF i that] c len by (auto simp: pcb_at_upd)
  moreover have "live s r \<and> r \<noteq> c" if "r \<in> set (remove1 c (rq s))" for r
    using that sched_inv_live [OF i] queue_inv_distinct [OF q] by (auto simp: set_remove1_eq)
  ultimately show ?thesis using lv by (simp add: sched_inv_def scheduler_remove_shape [OF q])
qed

text \<open>Dispatching a live process when nobody is RUNNING.\<close>

lemma sched_inv_dispatch:
  assumes i: "sched_inv s" and n: "live s n" and nz: "p_state (pcb_at s n) \<noteq> PROCESS_ZOMBIE"
    and idle: "\<forall>k<MAX_PROCESSES. p_state (pcb_at s k) \<noteq> PROCESS_RUNNING"
  shows "dispatch n s = (p_rsp (pcb_at s n), snd (dispatch n s)) \<and> sched_inv (snd (dispatch n s)) \<and>
    runs n (snd (dispatch n s)) \<and> (\<forall>k. k \<noteq> n \<longrightarrow> pcb_at (snd (dispatch n s)) k = pcb_at s k) \<and>
    pcb_at (snd (dispatch n s)) n = (pcb_at s n)\<lparr>p_wait_ticks := 0, p_state := PROCESS_RUNNING\<rparr>"
proof -
  let ?f = "\<lambda>p. p\<lparr>p_wait_ticks := 0, p_state := PROCESS_RUNNING\<rparr>"
  let ?s0 = "s\<lparr>current_process := Some n\<rparr>"
  note len = sched_inv_length [OF i]
  have nl: "n < MAX_PROCESSES" using live_less [OF n] len by simp
  have eq: "snd (dispatch n s) = upd_pcb n ?f ?s0"
    by (simp add: dispatch_def process_set_current_def upd_pcb_def Let_def)
  have at0: "pcb_at ?s0 k = pcb_at s k" "live ?s0 k = live s k" for k by (simp_all add: pcb_at_def live_def)
  have at: "pcb_at (upd_pcb n ?f ?s0) k = (if k = n then ?f (pcb_at s k) else pcb_at s k)" for k
    using nl len by (simp add: pcb_at_upd at0)
  have "table_inv ?s0"
  proof (rule table_invI)
    show "length (process_table ?s0) = MAX_PROCESSES" using len by simp
    show "pids_unique ?s0" using table_inv_unique [OF sched_inv_table [OF i]] by (simp add: pids_unique_def at0)
    show "p_pid (pcb_at ?s0 k) \<noteq> 0 \<and> p_pid (pcb_at ?s0 k) \<le> next_pid ?s0" if "live ?s0 k" for k
      using that table_inv_pid [OF sched_inv_table [OF i], of k] by (simp add: at0)
    show "k < MAX_PROCESSES" if "current_process ?s0 = Some k" for k using that nl by simp
    show "current_process ?s0 = Some k" if "k < MAX_PROCESSES" "p_state (pcb_at ?s0 k) = PROCESS_RUNNING" for k
      using that idle by (simp add: at0)
  qed
  moreover have rq0: "rq ?s0 = rq s" by (simp add: rq_def)
  have "queue_inv ?s0"
    by (rule queue_inv_cong [OF sched_inv_queue [OF i]]) (use queue_inv_idx [OF sched_inv_queue [OF i]] in \<open>simp_all add: at0\<close>)
  ultimately have "sched_inv ?s0"
    using sched_inv_idle [OF i] sched_inv_live [OF i] by (simp add: sched_inv_def at0 rq0)
  then have "sched_inv (upd_pcb n ?f ?s0)"
    by (rule sched_inv_upd_pcb) (use n nl in \<open>simp_all add: at0 live_def\<close>)
  moreover have "runs n (upd_pcb n ?f ?s0)"
    using nl idle by (auto simp: runs_def at)
  ultimately show ?thesis unfolding eq by (simp add: at dispatch_def process_set_current_def Let_def upd_pcb_def)
    (use nl len in \<open>simp add: pcb_at_def\<close>)
qed

text \<open>Reaping, for whatever process ran before.\<close>

definition reaped :: "ptr \<Rightarrow> 'a ssys_scheme \<Rightarrow> nat set" where
  "reaped cur s = (case cur of None \<Rightarrow> {} | Some c \<Rightarrow> if p_state (pcb_at s c) = PROCESS_ZOMBIE then {c} else {})"

lemma reap_ok:
  assumes i: "sched_inv s" and m: "mem_inv L s" and c: "\<And>c. cur = Some c \<Longrightarrow> c < MAX_PROCESSES"
  obtains s' where "reap cur s = Some s'" "sched_inv s'" "mem_inv (drop_blocks (dead_blocks cur s) L) s'"
    "\<And>k. pcb_at s' k = (if k \<in> reaped cur s then freed_pcb (pcb_at s k) else pcb_at s k)"
    "rq s' = filter (\<lambda>k. k \<notin> reaped cur s) (rq s)" "idle_pcb s' = idle_pcb s" "next_pid s' = next_pid s"
    "\<And>k. live s' k \<longleftrightarrow> live s k \<and> k \<notin> reaped cur s"
proof (cases "reaped cur s = {}")
  case True
  then have "reap cur s = Some s" "dead_blocks cur s = {}"
    by (auto simp: reaped_def reap_def dead_blocks_def split: option.splits if_splits)
  with that [of s] i m True show thesis by simp
next
  case False
  then obtain d where d: "cur = Some d" "p_state (pcb_at s d) = PROCESS_ZOMBIE"
    by (auto simp: reaped_def split: option.splits if_splits)
  then have r: "reaped cur s = {d}" "dead_blocks cur s = set (own (pcb_at s d))"
    by (simp_all add: reaped_def dead_blocks_def)
  note dl = c [OF d(1)] and len = sched_inv_length [OF i] and q = sched_inv_queue [OF i]
  obtain h where h: "reap cur s = Some (upd_pcb d freed_pcb (scheduler_remove d s)\<lparr>heap := h\<rparr>)"
    "mem_inv (drop_blocks (set (own (pcb_at s d))) L) (upd_pcb d freed_pcb (scheduler_remove d s)\<lparr>heap := h\<rparr>)"
    using reap_zombie [OF i m dl d(2)] d(1) by metis
  let ?t = "upd_pcb d freed_pcb (scheduler_remove d s)\<lparr>heap := h\<rparr>"
  have p: "pcb_at ?t k = (if k \<in> reaped cur s then freed_pcb (pcb_at s k) else pcb_at s k)" for k
    using dl len by (simp add: pcb_at_upd r(1))
  have lv: "live ?t k \<longleftrightarrow> live s k \<and> k \<notin> reaped cur s" for k
    using dl len by (cases "k = d") (simp_all add: live_upd_pcb freed_pcb_def r(1))
  have rq: "rq ?t = filter (\<lambda>k. k \<notin> reaped cur s) (rq s)"
    using queue_inv_distinct [OF q]
    by (simp add: scheduler_remove_shape [OF q] r(1) distinct_remove1_removeAll removeAll_filter_not_eq)
      (metis)
  show thesis
    by (rule that [OF h(1) sched_inv_dead [OF i dl d(2)]]) (use h(2) p rq lv in \<open>simp_all add: r(2)\<close>)
qed

definition no_running :: "'a ssys_scheme \<Rightarrow> bool" where
  "no_running s \<longleftrightarrow> (\<forall>k<MAX_PROCESSES. p_state (pcb_at s k) \<noteq> PROCESS_RUNNING)"

text \<open>The choice made in state \<open>s\<close>.\<close>

definition choice :: "'a ssys_scheme \<Rightarrow> ptr" where
  "choice s = select (idle_pcb s) (pcb_at s) (rotate (Suc (queue_idx s)) (rq s))"

lemma choice_ready_or_idle:
  assumes "choice s = Some n"
  shows "n \<in> set (best (pcb_at s) (rq s)) \<or> idle_pcb s = Some n \<and> (\<forall>r\<in>set (rq s). \<not> ready s r)"
proof (cases "select None (pcb_at s) (rotate (Suc (queue_idx s)) (rq s))")
  case None
  then have "\<forall>r\<in>set (rq s). \<not> ready s r"
    using select_None [of "pcb_at s" "rotate (Suc (queue_idx s)) (rq s)"] by (simp add: ready_def del: rotate_Suc)
  then show ?thesis using assms select_idle [OF None] by (simp add: choice_def)
next
  case (Some c)
  from select_Some [OF Some] have "n \<in> set (best (pcb_at s) (rotate (Suc (queue_idx s)) (rq s)))"
    using assms by (simp add: choice_def del: rotate_Suc)
  then show ?thesis by (simp add: best_def del: rotate_Suc)
qed

lemma switch_ok:
  assumes i: "sched_inv s" and m: "mem_inv L s" and c0: "\<forall>c. cur = Some c \<longrightarrow> c < MAX_PROCESSES"
    and idle: "idle_pcb s \<noteq> None" and nr: "no_running s"
  shows "\<exists>n s1 s'. scheduler_next_ready s = (Some n, s1) \<and> choice s = Some n \<and>
    map_option (dispatch n) (reap cur s1) = Some (p_rsp (pcb_at s' n), s') \<and>
    sched_inv s' \<and> runs n s' \<and> mem_inv (drop_blocks (dead_blocks cur s) L) s' \<and>
    (\<forall>k. pcb_at s' k = (if k = n then (pcb_at s n)\<lparr>p_wait_ticks := 0, p_state := PROCESS_RUNNING\<rparr>
        else if k \<in> reaped cur s then freed_pcb (pcb_at s k) else pcb_at s k)) \<and>
    rq s' = filter (\<lambda>k. k \<notin> reaped cur s) (rq s) \<and> idle_pcb s' = idle_pcb s"
proof -
  have c: "\<And>c. cur = Some c \<Longrightarrow> c < MAX_PROCESSES" using c0 by simp
  from next_ready_select [OF sched_inv_queue [OF i]] obtain j where
    j: "scheduler_next_ready s = (choice s, s\<lparr>queue_idx := j\<rparr>)" "j < queue_size s \<or> j = 0"
    unfolding choice_def by metis
  let ?s1 = "s\<lparr>queue_idx := j\<rparr>"
  have "choice s \<noteq> None"
    using idle unfolding choice_def select_def by (simp split: list.split)
  then obtain n where n: "choice s = Some n" by auto
  have nl: "live s n \<and> p_state (pcb_at s n) \<noteq> PROCESS_ZOMBIE"
    using choice_ready_or_idle [OF n] sched_inv_idle [OF i] sched_inv_live [OF i] by (auto simp: best_def)
  have i1: "sched_inv ?s1" by (rule sched_inv_queue_idx [OF i j(2)])
  have m1: "mem_inv L ?s1" by (rule mem_inv_cong [OF m]) simp_all
  have same: "reaped cur ?s1 = reaped cur s" "dead_blocks cur ?s1 = dead_blocks cur s"
    by (simp_all add: reaped_def dead_blocks_def split: option.split)
  have "\<exists>t. reap cur ?s1 = Some t \<and> sched_inv t \<and> mem_inv (drop_blocks (dead_blocks cur s) L) t \<and>
    (\<forall>k. pcb_at t k = (if k \<in> reaped cur s then freed_pcb (pcb_at s k) else pcb_at s k)) \<and>
    rq t = filter (\<lambda>k. k \<notin> reaped cur s) (rq s) \<and> idle_pcb t = idle_pcb s \<and>
    (\<forall>k. live t k \<longleftrightarrow> live s k \<and> k \<notin> reaped cur s)"
    by (rule reap_ok [OF i1 m1 c], assumption) (rule exI, rule conjI, assumption, intro conjI allI, simp_all add: same)
  then obtain t where
    t: "reap cur ?s1 = Some t" "sched_inv t" "mem_inv (drop_blocks (dead_blocks cur s) L) t"
    and p: "\<And>k. pcb_at t k = (if k \<in> reaped cur s then freed_pcb (pcb_at s k) else pcb_at s k)"
    and rq: "rq t = filter (\<lambda>k. k \<notin> reaped cur s) (rq s)" and it: "idle_pcb t = idle_pcb s"
    and lv: "\<And>k. live t k \<longleftrightarrow> live s k \<and> k \<notin> reaped cur s" by blast
  have nn: "n \<notin> reaped cur s" using nl by (auto simp: reaped_def split: option.splits)
  have "\<forall>k<MAX_PROCESSES. p_state (pcb_at t k) \<noteq> PROCESS_RUNNING"
    using nr by (auto simp: p no_running_def freed_pcb_def)
  from sched_inv_dispatch [OF t(2) _ _ this, of n] nl nn lv p have
    d: "dispatch n t = (p_rsp (pcb_at t n), snd (dispatch n t))" "sched_inv (snd (dispatch n t))"
    "runs n (snd (dispatch n t))" "\<And>k. k \<noteq> n \<Longrightarrow> pcb_at (snd (dispatch n t)) k = pcb_at t k"
    "pcb_at (snd (dispatch n t)) n = (pcb_at s n)\<lparr>p_wait_ticks := 0, p_state := PROCESS_RUNNING\<rparr>"
    by auto
  have fr: "heap (snd (dispatch n t)) = heap t" "rq (snd (dispatch n t)) = rq t" "idle_pcb (snd (dispatch n t)) = idle_pcb t"
    "length (process_table (snd (dispatch n t))) = length (process_table t)"
    by (simp_all add: dispatch_def process_set_current_def Let_def upd_pcb_def rq_def)
  have "mem_inv (drop_blocks (dead_blocks cur s) L) (snd (dispatch n t))"
  proof (rule mem_inv_cong [OF t(3) fr(1)])
    fix k assume k: "live (snd (dispatch n t)) k"
    have "live t n" using nl nn lv by simp
    with k show "live t k \<and> own (pcb_at (snd (dispatch n t)) k) = own (pcb_at t k)"
      using d(4) [of k] d(5) nn p [of n] fr(4) by (cases "k = n") (auto simp: live_def own_def)
  qed
  moreover have "p_rsp (pcb_at t n) = p_rsp (pcb_at (snd (dispatch n t)) n)"
    using d(5) nn by (simp add: p)
  moreover have "\<forall>k. pcb_at (snd (dispatch n t)) k =
      (if k = n then (pcb_at s n)\<lparr>p_wait_ticks := 0, p_state := PROCESS_RUNNING\<rparr>
       else if k \<in> reaped cur s then freed_pcb (pcb_at s k) else pcb_at s k)"
    using d(4,5) p by simp
  ultimately show ?thesis
    using j(1) n t(1) d(1-3) fr rq it by (intro exI [of _ n] exI [of _ ?s1] exI [of _ "snd (dispatch n t)"]) simp
qed

end
