(* ===== verification/Sched_Props.thy ===== *)
theory Sched_Props
  imports Sched_Switch
begin

text \<open>
  The properties of the scheduler: the run queue refines insertion into a priority list, the
  choice follows the policy of \<open>Sched_Select\<close>, a voluntary switch and a timer interrupt
  leave one RUNNING process in a kernel state in good order, a process keeps the CPU for its
  quantum, and aging does not save a background process of priority 1 from a foreground
  process of priority 5.
\<close>

subsection \<open>Aging\<close>

lemma rq_timer [simp]: "rq (timer_handler s) = rq s" "pcb_at (timer_handler s) i = pcb_at s i"
  "process_current (timer_handler s) = current_process s" "queue_idx (timer_handler s) = queue_idx s"
  "idle_pcb (timer_handler s) = idle_pcb s" "length (process_table (timer_handler s)) = length (process_table s)"
  "heap (timer_handler s) = heap s" "live (timer_handler s) = live s"
  by (simp_all add: rq_def timer_handler_def pcb_at_def process_current_def live_def fun_eq_iff)

definition aged :: "nat list \<Rightarrow> ptr \<Rightarrow> 'a ssys_scheme \<Rightarrow> nat \<Rightarrow> pcb" where
  "aged xs cur s k =
     (if k \<in> set xs \<and> Some k \<noteq> cur \<and> ready s k then (pcb_at s k)\<lparr>p_wait_ticks := p_wait_ticks (pcb_at s k) + 1\<rparr>
      else pcb_at s k)"

definition age_one :: "ptr \<Rightarrow> nat \<Rightarrow> 'a ssys_scheme \<Rightarrow> 'a ssys_scheme" where
  "age_one cur r t = (if Some r \<noteq> cur \<and> p_state (pcb_at t r) = PROCESS_READY
     then upd_pcb r (\<lambda>p. p\<lparr>p_wait_ticks := p_wait_ticks p + 1\<rparr>) t else t)"

lemma age_ready_eq: "age_ready cur s = fold (age_one cur) (rq s) s"
  unfolding age_ready_def age_one_def by (rule refl)

lemma age_one_frame [simp]:
  "rq (age_one cur r t) = rq t" "queue_idx (age_one cur r t) = queue_idx t" "idle_pcb (age_one cur r t) = idle_pcb t"
  "current_process (age_one cur r t) = current_process t" "heap (age_one cur r t) = heap t"
  "length (process_table (age_one cur r t)) = length (process_table t)" "next_pid (age_one cur r t) = next_pid t"
  by (simp_all add: age_one_def)

lemma sched_inv_age_one:
  assumes "sched_inv t" "r < MAX_PROCESSES"
  shows "sched_inv (age_one cur r t)"
  unfolding age_one_def by (auto intro!: sched_inv_upd_pcb assms simp: sched_inv_idle [OF assms(1)])

lemma mem_inv_age_one: "mem_inv L t \<Longrightarrow> r < length (process_table t) \<Longrightarrow> mem_inv L (age_one cur r t)"
  unfolding age_one_def by (auto intro!: mem_inv_upd_pcb simp: own_def)

lemma fold_age:
  "distinct xs \<Longrightarrow> \<forall>r\<in>set xs. r < length (process_table s) \<Longrightarrow>
   pcb_at (fold (age_one cur) xs s) k = aged xs cur s k"
proof (induction xs arbitrary: s)
  case (Cons x xs)
  have x: "x < length (process_table s)" "x \<notin> set xs" using Cons.prems by auto
  have at: "pcb_at (age_one cur x s) j = (if j = x then aged [x] cur s j else pcb_at s j)" for j
    using x by (auto simp: age_one_def aged_def pcb_at_upd ready_def)
  have "pcb_at (fold (age_one cur) xs (age_one cur x s)) k = aged xs cur (age_one cur x s) k"
    using Cons.prems by (intro Cons.IH) auto
  also have "\<dots> = aged (x # xs) cur s k"
    using x at [of k] by (cases "k = x") (auto simp: aged_def ready_def)
  finally show ?case by simp
qed (simp add: aged_def)

lemma fold_age_frame:
  "rq (fold (age_one cur) xs t) = rq t" "queue_idx (fold (age_one cur) xs t) = queue_idx t"
  "idle_pcb (fold (age_one cur) xs t) = idle_pcb t" "current_process (fold (age_one cur) xs t) = current_process t"
  "heap (fold (age_one cur) xs t) = heap t" "length (process_table (fold (age_one cur) xs t)) = length (process_table t)"
  by (induction xs arbitrary: t) simp_all

lemma fold_age_inv:
  "sched_inv t \<Longrightarrow> \<forall>r\<in>set xs. r < MAX_PROCESSES \<Longrightarrow> sched_inv (fold (age_one cur) xs t)"
  by (induction xs arbitrary: t) (simp_all add: sched_inv_age_one)

lemma fold_age_mem:
  "mem_inv L t \<Longrightarrow> \<forall>r\<in>set xs. r < length (process_table t) \<Longrightarrow> mem_inv L (fold (age_one cur) xs t)"
  by (induction xs arbitrary: t) (simp_all add: mem_inv_age_one)

lemma sched_inv_timer: "sched_inv s \<Longrightarrow> sched_inv (timer_handler s)"
proof -
  assume i: "sched_inv s"
  have "queue_inv (timer_handler s)"
    by (rule queue_inv_cong [OF sched_inv_queue [OF i]])
      (use queue_inv_idx [OF sched_inv_queue [OF i]] in \<open>simp_all add: timer_handler_def pcb_at_def\<close>)
  moreover have "table_inv (timer_handler s)"
    by (rule table_inv_cong [OF sched_inv_table [OF i]]) (simp_all add: timer_handler_def)
  ultimately show ?thesis using i by (simp add: sched_inv_def)
qed

text \<open>The state a timer interrupt starts from: the clock has advanced and the others have
  waited one more tick.\<close>

definition tick_start :: "'a ssys_scheme \<Rightarrow> 'a ssys_scheme" where
  "tick_start s = age_ready (process_current (timer_handler s)) (timer_handler s)"

lemma tick_start:
  assumes i: "sched_inv s" and m: "mem_inv L s"
  shows "sched_inv (tick_start s)" "mem_inv L (tick_start s)"
    "pcb_at (tick_start s) k = aged (rq s) (current_process s) s k"
    "rq (tick_start s) = rq s" "queue_idx (tick_start s) = queue_idx s" "idle_pcb (tick_start s) = idle_pcb s"
    "current_process (tick_start s) = current_process s"
proof -
  let ?t = "timer_handler s"
  have mem: "\<forall>r\<in>set (rq s). r < MAX_PROCESSES" using queue_inv_member [OF sched_inv_queue [OF i]] by blast
  have ml: "\<forall>r\<in>set (rq s). r < length (process_table ?t)" using mem sched_inv_length [OF i] by simp
  have eq: "tick_start s = fold (age_one (current_process s)) (rq s) ?t"
    by (simp add: tick_start_def age_ready_eq)
  show "sched_inv (tick_start s)" unfolding eq using sched_inv_timer [OF i] mem by (rule fold_age_inv)
  have "mem_inv L ?t" by (rule mem_inv_cong [OF m]) simp_all
  then show "mem_inv L (tick_start s)" unfolding eq using ml by (rule fold_age_mem)
  show "pcb_at (tick_start s) k = aged (rq s) (current_process s) s k"
    unfolding eq fold_age [OF queue_inv_distinct [OF sched_inv_queue [OF i]] ml]
    by (simp add: aged_def ready_def)
  have "current_process ?t = current_process s" by (simp add: timer_handler_def)
  then show "rq (tick_start s) = rq s" "queue_idx (tick_start s) = queue_idx s" "idle_pcb (tick_start s) = idle_pcb s"
    "current_process (tick_start s) = current_process s" unfolding eq by (simp_all add: fold_age_frame)
qed

subsection \<open>Putting the current process aside\<close>

definition demoted :: "ptr \<Rightarrow> pcb \<Rightarrow> pcb" where
  "demoted rsp p = p\<lparr>p_rsp := rsp, p_state := (if p_state p = PROCESS_RUNNING then PROCESS_READY else p_state p),
     p_remaining_quanta := p_priority p\<rparr>"

lemma yield_aside_eq:
  "c < length (process_table s) \<Longrightarrow> current_process s = Some c \<Longrightarrow> yield_aside rsp s = upd_pcb c (demoted rsp) s"
  by (simp add: yield_aside_def process_current_def Let_def upd_pcb_def pcb_at_def modify_def demoted_def)

lemma aside_ok:
  assumes i: "sched_inv s" and m: "mem_inv L s" and c: "current_process s = Some c"
    and f: "\<And>p. p_pid (f p) = p_pid p" "\<And>p. p_priority (f p) = p_priority p" "\<And>p. own (f p) = own p"
      "\<And>p. p_state (f p) = (if p_state p = PROCESS_RUNNING then PROCESS_READY else p_state p)"
  shows "sched_inv (upd_pcb c f s)" "mem_inv L (upd_pcb c f s)" "no_running (upd_pcb c f s)"
proof -
  have cl: "c < MAX_PROCESSES" by (rule table_inv_current [OF sched_inv_table [OF i] c])
  have len: "c < length (process_table s)" using cl sched_inv_length [OF i] by simp
  have nz: "idle_pcb s = Some c \<Longrightarrow> p_state (pcb_at s c) \<noteq> PROCESS_ZOMBIE" using sched_inv_idle [OF i] by blast
  show "sched_inv (upd_pcb c f s)"
    by (rule sched_inv_upd_pcb [OF i cl]) (use f nz c in auto)
  show "mem_inv L (upd_pcb c f s)" by (rule mem_inv_upd_pcb [OF m len]) (use f in auto)
  show "no_running (upd_pcb c f s)"
    unfolding no_running_def
  proof (intro allI impI)
    fix k assume "k < MAX_PROCESSES"
    then show "p_state (pcb_at (upd_pcb c f s) k) \<noteq> PROCESS_RUNNING"
      using len f(4) table_inv_running [OF sched_inv_table [OF i], of k] c by (auto simp: pcb_at_upd)
  qed
qed

subsection \<open>A concrete kernel state\<close>

text \<open>The idle process (slot 0), a foreground process of priority 5 that is running (slot 1) and
  a background process of priority 1 (slot 2), on a fresh heap; used to show that the
  hypotheses of the properties can hold.\<close>

definition demo_pcb :: "u64 \<Rightarrow> u8 \<Rightarrow> u8 \<Rightarrow> pstate \<Rightarrow> pcb" where
  "demo_pcb k pr fg st = zero_pcb\<lparr>p_pid := k, p_name := ''p'', p_priority := pr, p_remaining_quanta := pr,
     p_state := st, p_rsp := Some 4096, p_foreground := fg, p_fd := [0, 1]\<rparr>"

definition demo_table :: "pcb list" where
  "demo_table = [demo_pcb 1 1 0 PROCESS_READY, demo_pcb 2 5 1 PROCESS_RUNNING, demo_pcb 3 1 0 PROCESS_READY]
     @ replicate 61 zero_pcb"

definition demo_heap :: ff_heap where
  "demo_heap = mm_init 6291456 8388608 \<lparr>heap_start = None, blocks = \<lambda>_. \<lparr>mb_size = 0, mb_is_free = False,
     mb_is_kernel = False, mb_next = None\<rparr>\<rparr>"

definition demo_s :: ssys where
  "demo_s = \<lparr>process_table = demo_table, next_pid = 3, current_process = Some 1, force_switch = False,
     run_queue = 1 # 2 # replicate 62 0, queue_size = 2, queue_idx = 0, idle_pcb = Some 0,
     ticks = 0, heap = demo_heap\<rparr>"

lemma demo_table_nth:
  "i < 64 \<Longrightarrow> demo_table ! i = (if i = 0 then demo_pcb 1 1 0 PROCESS_READY
     else if i = 1 then demo_pcb 2 5 1 PROCESS_RUNNING
     else if i = 2 then demo_pcb 3 1 0 PROCESS_READY else zero_pcb)"
  by (auto simp: demo_table_def nth_append nth_Cons split: nat.split)

lemma length_demo_table [simp]: "length demo_table = 64"
  by (simp add: demo_table_def)

lemma demo_live: "process_table s = demo_table \<Longrightarrow> live s i \<longleftrightarrow> i < 3"
  by (cases "i < 64") (auto simp: live_def pcb_at_def demo_table_nth demo_pcb_def zero_pcb_def)

lemma demo_table_inv:
  assumes "process_table s = demo_table" "next_pid s = 3" "current_process s = Some 1"
  shows "table_inv s"
proof (rule table_invI)
  have l3: "i = 0 \<or> i = 1 \<or> i = 2" if "i < 3" for i :: nat using that by arith
  show "pids_unique s"
    using assms(1) by (auto simp: pids_unique_def demo_live pcb_at_def demo_table_nth demo_pcb_def dest!: l3)
  show "p_pid (pcb_at s i) \<noteq> 0 \<and> p_pid (pcb_at s i) \<le> next_pid s" if "live s i" for i
    using that assms by (auto simp: demo_live pcb_at_def demo_table_nth demo_pcb_def dest!: l3)
  show "current_process s = Some i" if "i < MAX_PROCESSES" "p_state (pcb_at s i) = PROCESS_RUNNING" for i
    using that assms by (auto simp: pcb_at_def demo_table_nth demo_pcb_def zero_pcb_def split: if_splits)
qed (use assms in auto)

lemma demo_heap_live: "ff_live 6291456 (6291456 + 8388608) demo_heap {}"
  using ff_rep_init [of 8388608 6291456] unfolding demo_heap_def ff_live_def by (auto intro!: exI)

lemma demo_mem_inv: "process_table s = demo_table \<Longrightarrow> heap s = demo_heap \<Longrightarrow> mem_inv {} s"
  unfolding mem_inv_def using demo_heap_live
  by (auto simp: demo_live pcb_at_def demo_table_nth own_def demo_pcb_def zero_pcb_def)

lemma demo_sched_inv:
  assumes "process_table s = demo_table" "next_pid s = 3" "current_process s = Some 1"
    "run_queue s = 1 # 2 # replicate 62 0" "queue_size s = 2" "queue_idx s = 0" "idle_pcb s = Some 0"
  shows "sched_inv s"
proof -
  have rq: "rq s = [1, 2]" using assms by (simp add: rq_def)
  have "queue_inv s"
    using assms by (simp add: queue_inv_def rq desc_by_def pcb_at_def demo_table_nth demo_pcb_def)
  then show ?thesis
    using assms demo_table_inv [OF assms(1-3)]
    by (simp add: sched_inv_def rq demo_live pcb_at_def demo_table_nth demo_pcb_def)
qed

lemma demo_ok: "sched_inv demo_s" "mem_inv {} demo_s" "idle_pcb demo_s = Some 0" "current_process demo_s = Some 1"
  "pcb_at demo_s i = demo_table ! i" "rq demo_s = [1, 2]"
  by (auto intro!: demo_sched_inv demo_mem_inv simp: demo_s_def pcb_at_def rq_def)

subsection \<open>The properties\<close>

lemma yield_run:
  assumes "sched_inv s" "mem_inv L s" "idle_pcb s \<noteq> None" "current_process s = Some c"
  shows "\<exists>n s'. scheduler_yield_impl rsp s = Some (p_rsp (pcb_at s' n), s') \<and>
    choice (yield_aside rsp s) = Some n \<and> runs n s' \<and> sched_inv s' \<and>
    mem_inv (drop_blocks (dead_blocks (Some c) s) L) s' \<and>
    (if p_state (pcb_at s c) = PROCESS_ZOMBIE then \<not> live s' c \<and> c \<notin> set (rq s')
     else n \<noteq> c \<longrightarrow> p_rsp (pcb_at s' c) = rsp) \<and>
    (\<forall>k. k \<noteq> n \<longrightarrow> k \<noteq> c \<longrightarrow> pcb_at s' k = pcb_at s k) \<and>
    p_pid (pcb_at s' n) = p_pid (pcb_at s n) \<and> live s n"
proof -
  have cl: "c < MAX_PROCESSES" by (rule table_inv_current [OF sched_inv_table [OF assms(1)] assms(4)])
  then have len: "c < length (process_table s)" using sched_inv_length [OF assms(1)] by simp
  have a: "yield_aside rsp s = upd_pcb c (demoted rsp) s" (is "_ = ?a") by (rule yield_aside_eq [OF len assms(4)])
  have ok: "sched_inv ?a" "mem_inv L ?a" "no_running ?a"
    by (rule aside_ok [OF assms(1,2,4)]; simp add: demoted_def own_def)+
  have idle: "idle_pcb ?a \<noteq> None" using assms(3) by simp
  have z: "p_state (pcb_at ?a c) = PROCESS_ZOMBIE \<longleftrightarrow> p_state (pcb_at s c) = PROCESS_ZOMBIE"
    using len by (simp add: pcb_at_upd demoted_def)
  have same: "dead_blocks (Some c) ?a = dead_blocks (Some c) s" "reaped (Some c) ?a = reaped (Some c) s"
    using z len by (simp_all add: dead_blocks_def reaped_def pcb_at_upd demoted_def own_def)
  have clc: "\<forall>d. Some c = Some d \<longrightarrow> d < MAX_PROCESSES" using cl by simp
  from switch_ok [OF ok(1,2) clc idle ok(3), unfolded same rq_upd_pcb] obtain n s1 s' where
    n: "scheduler_next_ready ?a = (Some n, s1)" "choice ?a = Some n"
    "map_option (dispatch n) (reap (Some c) s1) = Some (p_rsp (pcb_at s' n), s')"
    "sched_inv s'" "runs n s'" "mem_inv (drop_blocks (dead_blocks (Some c) s) L) s'"
    and p0: "\<forall>k. pcb_at s' k = (if k = n then (pcb_at ?a n)\<lparr>p_wait_ticks := 0, p_state := PROCESS_RUNNING\<rparr>
        else if k \<in> reaped (Some c) s then freed_pcb (pcb_at ?a k) else pcb_at ?a k)"
    and rq: "rq s' = filter (\<lambda>k. k \<notin> reaped (Some c) s) (rq s)"
    by (elim exE conjE)
  note p = p0 [rule_format]
  have run: "scheduler_yield_impl rsp s = Some (p_rsp (pcb_at s' n), s')"
    using n(1,3) assms(4) by (simp add: scheduler_yield_impl_def process_current_def a)
  have zc: "n \<noteq> c" if "p_state (pcb_at s c) = PROCESS_ZOMBIE"
    using that choice_ready_or_idle [OF n(2)] z sched_inv_idle [OF ok(1)] by (auto simp: best_def)
  have "if p_state (pcb_at s c) = PROCESS_ZOMBIE then \<not> live s' c \<and> c \<notin> set (rq s')
     else n \<noteq> c \<longrightarrow> p_rsp (pcb_at s' c) = rsp"
    using p [of c] zc rq len by (auto simp: reaped_def live_def freed_pcb_def pcb_at_upd demoted_def)
  moreover have "\<forall>k. k \<noteq> n \<longrightarrow> k \<noteq> c \<longrightarrow> pcb_at s' k = pcb_at s k"
    using p len by (auto simp: reaped_def pcb_at_upd split: if_splits)
  moreover have "p_pid (pcb_at s' n) = p_pid (pcb_at s n)"
    using p [of n] len by (simp add: pcb_at_upd demoted_def)
  moreover have "live ?a n"
    using choice_ready_or_idle [OF n(2)] sched_inv_idle [OF ok(1), of n] sched_inv_live [OF ok(1), of n]
    by (auto simp: best_def)
  then have "live s n" using live_upd_pcb [OF len, of "demoted rsp" n] len
    by (cases "n = c") (auto simp: demoted_def live_def split: if_splits)
  ultimately show ?thesis using run n unfolding a by blast
qed

text \<open>C5: A voluntary switch always finds a process to run, even when the current process is
  blocked or dead: it saves the stack pointer of the process that gives up the CPU, dispatches
  the process the policy chooses and leaves exactly that process RUNNING; a ZOMBIE is removed
  from the table and exactly its stack and arguments are released, and the invariants of the
  process table, the run queue and the kernel heap hold again.\<close>

theorem yield_switch:
  assumes "sched_inv s" "mem_inv L s" "idle_pcb s \<noteq> None" "current_process s = Some c"
  shows "\<exists>n s'. scheduler_yield_impl rsp s = Some (p_rsp (pcb_at s' n), s') \<and>
    choice (yield_aside rsp s) = Some n \<and> runs n s' \<and> sched_inv s' \<and>
    mem_inv (drop_blocks (dead_blocks (Some c) s) L) s' \<and>
    (if p_state (pcb_at s c) = PROCESS_ZOMBIE then \<not> live s' c \<and> c \<notin> set (rq s')
     else n \<noteq> c \<longrightarrow> p_rsp (pcb_at s' c) = rsp) \<and>
    (\<forall>k. k \<noteq> n \<longrightarrow> k \<noteq> c \<longrightarrow> pcb_at s' k = pcb_at s k)"
  using yield_run [OF assms] by blast

theorem yield_switch_witness:
  "\<exists>n s'. scheduler_yield_impl (Some 8192) demo_s = Some (p_rsp (pcb_at s' n), s') \<and>
    runs n s' \<and> sched_inv s' \<and> mem_inv (drop_blocks (dead_blocks (Some 1) demo_s) {}) s'"
  using yield_switch [of demo_s "{}" 1 "Some 8192"] by (auto simp: demo_ok)

text \<open>The timer interrupt in the two cases.\<close>

definition tick_charged :: "ptr \<Rightarrow> pcb \<Rightarrow> pcb" where
  "tick_charged rsp p = p\<lparr>p_rsp := rsp, p_remaining_quanta := p_remaining_quanta p - 1\<rparr>"

definition tick_expired :: "ptr \<Rightarrow> pcb \<Rightarrow> pcb" where
  "tick_expired rsp p = p\<lparr>p_rsp := rsp, p_state := (if p_state p = PROCESS_RUNNING then PROCESS_READY else p_state p),
     p_remaining_quanta := (if p_state p = PROCESS_RUNNING then p_priority p else p_remaining_quanta p)\<rparr>"

lemma tick_aside_keep:
  assumes "c < length (process_table s)" "current_process s = Some c"
    "p_state (pcb_at s c) = PROCESS_RUNNING" "1 < p_remaining_quanta (pcb_at s c)"
  shows "tick_aside rsp s = (True, upd_pcb c (tick_charged rsp) s)"
proof -
  have q: "0 < p_remaining_quanta (pcb_at s c)" "0 < p_remaining_quanta (pcb_at s c) - 1"
    using assms(4) by (unat_arith, unat_arith)
  have "(\<lambda>p. p\<lparr>p_remaining_quanta := p_remaining_quanta p - 1\<rparr>) \<circ> (\<lambda>p. p\<lparr>p_rsp := rsp\<rparr>) = tick_charged rsp"
    by (simp add: fun_eq_iff tick_charged_def)
  with q assms(1-3) show ?thesis
    by (simp add: tick_aside_def process_current_def Let_def pcb_at_upd tick_charged_def)
qed

lemma tick_aside_expire:
  assumes "c < length (process_table s)" "current_process s = Some c"
    "p_state (pcb_at s c) = PROCESS_RUNNING \<longrightarrow> p_remaining_quanta (pcb_at s c) \<le> 1"
  shows "tick_aside rsp s = (False, upd_pcb c (tick_expired rsp) s)"
proof (cases "p_state (pcb_at s c) = PROCESS_RUNNING")
  case True
  let ?q = "p_remaining_quanta (pcb_at s c)"
  have "?q = 0 \<or> ?q = 1" using assms(3) True by unat_arith
  then have eq: "(if 0 < ?q then ?q - 1 else ?q) = 0" by auto
  show ?thesis using assms(1,2) True eq
    by (auto simp: tick_aside_def process_current_def Let_def pcb_at_upd upd_pcb_def modify_def pcb_at_def tick_expired_def
        split: if_splits)
next
  case False
  then show ?thesis using assms(1,2)
    by (simp add: tick_aside_def process_current_def Let_def pcb_at_upd)
      (simp add: upd_pcb_def modify_def pcb_at_def tick_expired_def)
qed

lemma scheduler_tick_eq:
  assumes "current_process s = Some c"
  shows "scheduler_tick rsp s = (case tick_aside rsp (tick_start s) of (True, s1) \<Rightarrow> Some (rsp, s1)
         | (False, s1) \<Rightarrow> switch_tick (Some c) rsp s1)"
proof -
  have pcur: "process_current (timer_handler s) = Some c" using assms by simp
  show ?thesis unfolding scheduler_tick_def tick_start_def Let_def pcur by (rule refl)
qed

lemma tick_setup:
  assumes i: "sched_inv s" and m: "mem_inv L s" and cur: "current_process s = Some c"
  shows "c < MAX_PROCESSES" "c < length (process_table (tick_start s))"
    "current_process (tick_start s) = Some c" "pcb_at (tick_start s) c = pcb_at s c"
proof -
  note ts = tick_start [OF i m]
  show cl: "c < MAX_PROCESSES" by (rule table_inv_current [OF sched_inv_table [OF i] cur])
  then show "c < length (process_table (tick_start s))" using sched_inv_length [OF ts(1)] by simp
  show "current_process (tick_start s) = Some c" using ts(7) cur by simp
  show "pcb_at (tick_start s) c = pcb_at s c" using ts(3) [of c] cur by (simp add: aged_def)
qed

lemma tick_keep:
  assumes i: "sched_inv s" and m: "mem_inv L s" and cur: "current_process s = Some c"
    and run: "p_state (pcb_at s c) = PROCESS_RUNNING" "1 < p_remaining_quanta (pcb_at s c)"
  shows "\<exists>s'. scheduler_tick rsp s = Some (rsp, s') \<and> current_process s' = Some c \<and>
      pcb_at s' c = tick_charged rsp (pcb_at s c) \<and> sched_inv s' \<and> mem_inv L s' \<and> rq s' = rq s \<and>
      idle_pcb s' = idle_pcb s \<and> (\<forall>k. k \<noteq> c \<longrightarrow> pcb_at s' k = aged (rq s) (Some c) s k)"
proof -
  note ts = tick_start [OF i m] and su = tick_setup [OF i m cur]
  let ?t = "tick_start s"
  let ?a = "upd_pcb c (tick_charged rsp) ?t"
  have "tick_aside rsp ?t = (True, ?a)" using run su(4) by (intro tick_aside_keep [OF su(2,3)]) simp_all
  then have "scheduler_tick rsp s = Some (rsp, ?a)" by (simp add: scheduler_tick_eq [OF cur])
  moreover have "sched_inv ?a"
    by (rule sched_inv_upd_pcb [OF ts(1) su(1)]) (use su(3) sched_inv_idle [OF ts(1)] in \<open>auto simp: tick_charged_def\<close>)
  moreover have "mem_inv L ?a"
    by (rule mem_inv_upd_pcb [OF ts(2) su(2)]) (simp_all add: tick_charged_def own_def)
  moreover have "\<forall>k. pcb_at ?a k = (if k = c then tick_charged rsp (pcb_at s c) else aged (rq s) (Some c) s k)"
    using su(2,4) ts(3) cur by (simp add: pcb_at_upd)
  ultimately show ?thesis using su(3) ts(4,6) by (intro exI [of _ ?a]) simp
qed

lemma tick_expire:
  assumes i: "sched_inv s" and m: "mem_inv L s" and cur: "current_process s = Some c"
    and idl: "idle_pcb s \<noteq> None"
    and ex: "p_state (pcb_at s c) = PROCESS_RUNNING \<longrightarrow> p_remaining_quanta (pcb_at s c) \<le> 1"
  shows "\<exists>n s'. scheduler_tick rsp s = Some (p_rsp (pcb_at s' n), s') \<and>
      choice (upd_pcb c (tick_expired rsp) (tick_start s)) = Some n \<and> runs n s' \<and> sched_inv s' \<and>
      mem_inv (drop_blocks (dead_blocks (Some c) s) L) s' \<and> idle_pcb s' = idle_pcb s \<and>
      rq s' = filter (\<lambda>k. k \<notin> reaped (Some c) s) (rq s) \<and>
      (\<forall>k. pcb_at s' k = (if k = n
           then (pcb_at (upd_pcb c (tick_expired rsp) (tick_start s)) n)\<lparr>p_wait_ticks := 0, p_state := PROCESS_RUNNING\<rparr>
         else if k \<in> reaped (Some c) s then freed_pcb (tick_expired rsp (pcb_at s k))
         else if k = c then tick_expired rsp (pcb_at s k) else aged (rq s) (Some c) s k))"
proof -
  note ts = tick_start [OF i m] and su = tick_setup [OF i m cur]
  let ?t = "tick_start s"
  let ?a = "upd_pcb c (tick_expired rsp) ?t"
  have ta: "tick_aside rsp ?t = (False, ?a)" using ex su(4) by (intro tick_aside_expire [OF su(2,3)]) simp
  have ok: "sched_inv ?a" "mem_inv L ?a" "no_running ?a"
    by (rule aside_ok [OF ts(1,2) su(3)]; simp add: tick_expired_def own_def)+
  have idle: "idle_pcb ?a \<noteq> None" using idl ts(6) by simp
  have clc: "\<forall>d. Some c = Some d \<longrightarrow> d < MAX_PROCESSES" using su(1) by simp
  have pa: "pcb_at ?a k = (if k = c then tick_expired rsp (pcb_at s c) else aged (rq s) (Some c) s k)" for k
    using su(2,4) ts(3) cur by (simp add: pcb_at_upd)
  have same: "dead_blocks (Some c) ?a = dead_blocks (Some c) s" "reaped (Some c) ?a = reaped (Some c) s"
    by (simp_all add: dead_blocks_def reaped_def pa tick_expired_def own_def)
  have fr: "rq ?a = rq s" "idle_pcb ?a = idle_pcb s" by (simp_all add: ts)
  from switch_ok [OF ok(1,2) clc idle ok(3), unfolded same fr] obtain n s1 s' where
    n: "scheduler_next_ready ?a = (Some n, s1)" "choice ?a = Some n"
    "map_option (dispatch n) (reap (Some c) s1) = Some (p_rsp (pcb_at s' n), s')"
    "sched_inv s'" "runs n s'" "mem_inv (drop_blocks (dead_blocks (Some c) s) L) s'"
    and p0: "\<forall>k. pcb_at s' k = (if k = n then (pcb_at ?a n)\<lparr>p_wait_ticks := 0, p_state := PROCESS_RUNNING\<rparr>
        else if k \<in> reaped (Some c) s then freed_pcb (pcb_at ?a k) else pcb_at ?a k)"
    and rq: "rq s' = filter (\<lambda>k. k \<notin> reaped (Some c) s) (rq s)" and id: "idle_pcb s' = idle_pcb s"
    by (elim exE conjE)
  have "switch_tick (Some c) rsp ?a = Some (p_rsp (pcb_at s' n), s')"
    using n(1,3) by (simp add: switch_tick_def)
  then have "scheduler_tick rsp s = Some (p_rsp (pcb_at s' n), s')" by (simp add: scheduler_tick_eq [OF cur] ta)
  moreover have "\<forall>k. pcb_at s' k = (if k = n
         then (pcb_at ?a n)\<lparr>p_wait_ticks := 0, p_state := PROCESS_RUNNING\<rparr>
       else if k \<in> reaped (Some c) s then freed_pcb (tick_expired rsp (pcb_at s k))
       else if k = c then tick_expired rsp (pcb_at s k) else aged (rq s) (Some c) s k)"
    using p0 by (auto simp: pa reaped_def split: if_splits)
  ultimately show ?thesis using n(2,4-6) rq id by blast
qed

text \<open>C6: At a timer interrupt a RUNNING process with more than one tick of its quantum left
  keeps the CPU and is charged one tick. Otherwise the process the policy chooses is dispatched and the
  invariants hold again; before the choice a process whose quantum is used up becomes READY with its quantum
  renewed to its priority, while the quantum of a process that is no longer RUNNING stays as it is. A
  process that is dead is taken off the queue and its blocks are released; all other READY processes
  in the queue have aged by one tick.\<close>

theorem tick_switch:
  assumes "sched_inv s" "mem_inv L s" "idle_pcb s \<noteq> None" "current_process s = Some c"
  shows "if p_state (pcb_at s c) = PROCESS_RUNNING \<and> 1 < p_remaining_quanta (pcb_at s c)
    then \<exists>s'. scheduler_tick rsp s = Some (rsp, s') \<and> current_process s' = Some c \<and>
      pcb_at s' c = tick_charged rsp (pcb_at s c) \<and> sched_inv s' \<and> mem_inv L s' \<and> rq s' = rq s \<and>
      idle_pcb s' = idle_pcb s \<and> (\<forall>k. k \<noteq> c \<longrightarrow> pcb_at s' k = aged (rq s) (Some c) s k)
    else \<exists>n s'. scheduler_tick rsp s = Some (p_rsp (pcb_at s' n), s') \<and>
      choice (upd_pcb c (tick_expired rsp) (tick_start s)) = Some n \<and> runs n s' \<and> sched_inv s' \<and>
      mem_inv (drop_blocks (dead_blocks (Some c) s) L) s' \<and> idle_pcb s' = idle_pcb s \<and>
      rq s' = filter (\<lambda>k. k \<notin> reaped (Some c) s) (rq s) \<and>
      (\<forall>k. pcb_at s' k = (if k = n
           then (pcb_at (upd_pcb c (tick_expired rsp) (tick_start s)) n)\<lparr>p_wait_ticks := 0, p_state := PROCESS_RUNNING\<rparr>
         else if k \<in> reaped (Some c) s then freed_pcb (tick_expired rsp (pcb_at s k))
         else if k = c then tick_expired rsp (pcb_at s k) else aged (rq s) (Some c) s k))"
proof (cases "p_state (pcb_at s c) = PROCESS_RUNNING \<and> 1 < p_remaining_quanta (pcb_at s c)")
  case True
  show ?thesis unfolding if_P [OF True] by (rule tick_keep [OF assms(1,2,4)]) (use True in simp_all)
next
  case False
  show ?thesis unfolding if_not_P [OF False]
    by (rule tick_expire [OF assms(1,2,4,3)]) (use False in \<open>simp add: not_less\<close>)
qed

theorem tick_switch_witness:
  "\<exists>s'. scheduler_tick (Some 8192) demo_s = Some (Some 8192, s') \<and> current_process s' = Some 1 \<and> sched_inv s'"
proof -
  have "p_state (pcb_at demo_s 1) = PROCESS_RUNNING \<and> 1 < p_remaining_quanta (pcb_at demo_s 1)"
    by (simp add: demo_ok demo_table_nth demo_pcb_def)
  with tick_switch [of demo_s "{}" 1 "Some 8192"] show ?thesis by (auto simp: demo_ok)
qed

subsection \<open>The quantum\<close>

text \<open>\<open>k\<close> timer interrupts in a row.\<close>

fun tick_n :: "nat \<Rightarrow> ptr \<Rightarrow> 'a ssys_scheme \<Rightarrow> 'a ssys_scheme option" where
  "tick_n 0 rsp s = Some s"
| "tick_n (Suc k) rsp s = (case scheduler_tick rsp s of None \<Rightarrow> None | Some (r, s') \<Rightarrow> tick_n k rsp s')"

text \<open>A RUNNING process whose quantum has \<open>q\<close> ticks left keeps the CPU through the next
  \<open>k < q\<close> timer interrupts, with \<open>q - k\<close> ticks left after them; its wait counter, its
  priority and the run queue do not change meanwhile.\<close>

theorem quantum_exact:
  assumes "sched_inv s" "mem_inv L s" "current_process s = Some c"
    "p_state (pcb_at s c) = PROCESS_RUNNING" "k < unat (p_remaining_quanta (pcb_at s c))"
  shows "\<exists>s'. tick_n k rsp s = Some s' \<and> current_process s' = Some c \<and> sched_inv s' \<and> mem_inv L s' \<and>
    p_state (pcb_at s' c) = PROCESS_RUNNING \<and> rq s' = rq s \<and>
    unat (p_remaining_quanta (pcb_at s' c)) = unat (p_remaining_quanta (pcb_at s c)) - k \<and>
    p_wait_ticks (pcb_at s' c) = p_wait_ticks (pcb_at s c) \<and> p_priority (pcb_at s' c) = p_priority (pcb_at s c)"
  using assms
proof (induction k arbitrary: s)
  case (Suc k)
  let ?q = "p_remaining_quanta (pcb_at s c)"
  have q: "1 < ?q" using Suc.prems(5) by (simp add: word_less_nat_alt)
  from tick_keep [OF Suc.prems(1-4) q, of rsp] obtain s1 where
    s1: "scheduler_tick rsp s = Some (rsp, s1)" "current_process s1 = Some c"
    "pcb_at s1 c = tick_charged rsp (pcb_at s c)" "sched_inv s1" "mem_inv L s1" "rq s1 = rq s" by blast
  have q1: "unat (p_remaining_quanta (pcb_at s1 c)) = unat ?q - 1"
    using q unfolding s1(3) tick_charged_def by simp unat_arith
  have st: "p_state (pcb_at s1 c) = PROCESS_RUNNING" using Suc.prems(4) by (simp add: s1(3) tick_charged_def)
  have "k < unat (p_remaining_quanta (pcb_at s1 c))" using q1 Suc.prems(5) by simp
  from Suc.IH [OF s1(4,5,2) st this] q1 s1(1,3,6) show ?case by (auto simp: tick_charged_def)
qed simp

theorem quantum_exact_witness:
  "\<exists>s'. tick_n 4 (Some 8192) demo_s = Some s' \<and> current_process s' = Some 1 \<and>
     p_state (pcb_at s' 1) = PROCESS_RUNNING \<and> unat (p_remaining_quanta (pcb_at s' 1)) = 1"
proof -
  have p: "p_state (pcb_at demo_s 1) = PROCESS_RUNNING" "unat (p_remaining_quanta (pcb_at demo_s 1)) = 5"
    by (simp_all add: demo_ok demo_table_nth demo_pcb_def)
  from quantum_exact [OF demo_ok(1,2,4) p(1), of 4 "Some 8192"] p(2) show ?thesis by auto
qed

subsection \<open>The run queue and the choice\<close>

text \<open>C7: \<open>scheduler_next_ready\<close> chooses by the policy: a READY process of the highest
  effective priority, a foreground one if there is one among these, the first behind the cursor
  in round-robin order; the idle process exactly when nobody in the queue is READY. It moves the
  cursor to the process it chose and changes nothing else.\<close>

theorem next_ready_policy:
  assumes "queue_inv s"
  shows "\<exists>j. scheduler_next_ready s = (select (idle_pcb s) (pcb_at s) (rotate (Suc (queue_idx s)) (rq s)), s\<lparr>queue_idx := j\<rparr>) \<and>
    (if \<exists>r\<in>set (rq s). ready s r
     then \<exists>c. choice s = Some c \<and> rq s ! j = c \<and> j < queue_size s \<and> c \<in> set (rq s) \<and> ready s c \<and>
       (\<forall>q\<in>set (rq s). ready s q \<longrightarrow> eff (pcb_at s q) \<le> eff (pcb_at s c))
     else choice s = idle_pcb s)"
proof -
  let ?o = "rotate (Suc (queue_idx s)) (rq s)"
  from next_ready_select [OF assms] obtain j where
    j: "scheduler_next_ready s = (select (idle_pcb s) (pcb_at s) ?o, s\<lparr>queue_idx := j\<rparr>)"
    "\<forall>c. select None (pcb_at s) ?o = Some c \<longrightarrow> rq s ! j = c \<and> j < queue_size s" by metis
  have so: "set ?o = set (rq s)" by (simp del: rotate_Suc)
  show ?thesis
  proof (cases "select None (pcb_at s) ?o")
    case None
    then have "\<not> (\<exists>r\<in>set (rq s). ready s r)" using select_None [of "pcb_at s" ?o] so by (simp add: ready_def)
    with j(1) select_idle [OF None] show ?thesis
      by (intro exI [of _ j]) (simp add: choice_def del: rotate_Suc)
  next
    case (Some c)
    then have b: "c \<in> set (best (pcb_at s) (rq s))" "choice s = Some c"
      using select_Some [OF Some] so by (simp_all add: choice_def best_def del: rotate_Suc)
    then have "\<exists>r\<in>set (rq s). ready s r" by (auto simp: best_def ready_def)
    with j Some b show ?thesis
      by (intro exI [of _ j]) (auto simp: best_def ready_def simp del: rotate_Suc)
  qed
qed

theorem next_ready_policy_witness:
  "\<exists>j. scheduler_next_ready demo_s =
     (select (idle_pcb demo_s) (pcb_at demo_s) (rotate (Suc (queue_idx demo_s)) (rq demo_s)), demo_s\<lparr>queue_idx := j\<rparr>)"
  using next_ready_policy [OF sched_inv_queue [OF demo_ok(1)]] by auto

text \<open>C8: \<open>scheduler_add\<close> inserts into the list of the run queue in descending order of
  priority, behind the processes of the same priority, and \<open>scheduler_remove\<close> deletes; both
  keep the queue in order and its cursor in range, and both leave the cursor on the process it
  pointed to (unless that one is removed). Adding the idle process, or to a full queue, changes
  nothing.\<close>

theorem run_queue_refines:
  assumes "queue_inv s" "p < MAX_PROCESSES" "p \<notin> set (rq s)"
  shows "rq (scheduler_add p s) =
      (if queue_size s < MAX_PROCESSES \<and> Some p \<noteq> idle_pcb s then insert_desc (prio s) p (rq s) else rq s) \<and>
    queue_inv (scheduler_add p s) \<and>
    (0 < queue_size s \<longrightarrow> rq (scheduler_add p s) ! queue_idx (scheduler_add p s) = rq s ! queue_idx s) \<and>
    rq (scheduler_remove q s) = remove1 q (rq s) \<and> queue_inv (scheduler_remove q s) \<and>
    (0 < queue_size s \<longrightarrow> q \<noteq> rq s ! queue_idx s \<longrightarrow>
      rq (scheduler_remove q s) ! queue_idx (scheduler_remove q s) = rq s ! queue_idx s)"
proof (intro conjI impI)
  show "rq (scheduler_add p s) =
      (if queue_size s < MAX_PROCESSES \<and> Some p \<noteq> idle_pcb s then insert_desc (prio s) p (rq s) else rq s)"
    using scheduler_add_shape(1) [OF assms(1), of p] scheduler_add_full [of s p] by simp
qed (simp_all add: assms scheduler_remove_shape(1) queue_inv_add queue_inv_remove add_cursor
    remove_cursor [OF assms(1), unfolded scheduler_remove_shape(1) [OF assms(1)]])

theorem run_queue_refines_witness:
  "rq (scheduler_add 0 (demo_s\<lparr>idle_pcb := None\<rparr>)) = insert_desc (prio (demo_s\<lparr>idle_pcb := None\<rparr>)) 0 [1, 2]"
proof -
  have q: "queue_inv (demo_s\<lparr>idle_pcb := None\<rparr>)"
    using sched_inv_queue [OF demo_ok(1)] by (simp add: queue_inv_def rq_def pcb_at_def)
  have "rq (demo_s\<lparr>idle_pcb := None\<rparr>) = [1, 2]" using demo_ok(6) by (simp add: rq_def)
  with run_queue_refines [OF q, of 0 5] show ?thesis by (simp add: demo_s_def)
qed

subsection \<open>Starvation\<close>

text \<open>\<open>f\<close> is a foreground process of priority 5 that never blocks and \<open>b\<close> a waiting
  background process of priority 1.\<close>

definition contest :: "nat \<Rightarrow> nat \<Rightarrow> 'a ssys_scheme \<Rightarrow> bool" where
  "contest f b s \<longleftrightarrow>
     sched_inv s \<and> (\<exists>L. mem_inv L s) \<and> idle_pcb s \<noteq> None \<and>
     (\<exists>c. current_process s = Some c \<and> c \<noteq> b \<and> p_state (pcb_at s c) = PROCESS_RUNNING) \<and>
     f \<in> set (rq s) \<and> b \<in> set (rq s) \<and> f \<noteq> b \<and>
     p_priority (pcb_at s f) = 5 \<and> p_foreground (pcb_at s f) = 1 \<and>
     p_state (pcb_at s f) \<in> {PROCESS_READY, PROCESS_RUNNING} \<and>
     p_priority (pcb_at s b) = 1 \<and> p_foreground (pcb_at s b) = 0 \<and> p_state (pcb_at s b) = PROCESS_READY"

lemma aging_bonus_le: "aging_bonus p \<le> 4"
  by (simp add: aging_bonus_def Let_def)

lemma eff_background: "p_priority p = 1 \<Longrightarrow> p_foreground p = 0 \<Longrightarrow> eff p \<le> 5"
  using aging_bonus_le [of p] by (simp add: eff_def)

lemma eff_foreground: "p_priority p = 5 \<Longrightarrow> p_foreground p = 1 \<Longrightarrow> 6 \<le> eff p"
  by (simp add: eff_def)

text \<open>One timer interrupt.\<close>

lemma contest_tick:
  assumes "contest f b s"
  shows "\<exists>r s'. scheduler_tick rsp s = Some (r, s') \<and> contest f b s'"
proof -
  from assms obtain c L where s: "sched_inv s" "mem_inv L s" "idle_pcb s \<noteq> None"
    and c: "current_process s = Some c" "c \<noteq> b" "p_state (pcb_at s c) = PROCESS_RUNNING"
    and fb: "f \<in> set (rq s)" "b \<in> set (rq s)" "f \<noteq> b"
    and f: "p_priority (pcb_at s f) = 5" "p_foreground (pcb_at s f) = 1"
      "p_state (pcb_at s f) \<in> {PROCESS_READY, PROCESS_RUNNING}"
    and b: "p_priority (pcb_at s b) = 1" "p_foreground (pcb_at s b) = 0" "p_state (pcb_at s b) = PROCESS_READY"
    unfolding contest_def by blast
  have nz: "reaped (Some c) s = {}" "dead_blocks (Some c) s = {}" using c(3) by (simp_all add: reaped_def dead_blocks_def)
  have fr: "f \<noteq> c \<Longrightarrow> p_state (pcb_at s f) = PROCESS_READY"
    using f(3) table_inv_running [OF sched_inv_table [OF s(1)] queue_inv_member [OF sched_inv_queue [OF s(1)] fb(1)]] c(1)
    by auto
  show ?thesis
  proof (cases "1 < p_remaining_quanta (pcb_at s c)")
    case True
    from tick_keep [OF s(1,2) c(1,3) True, of rsp] obtain s' where
      s': "scheduler_tick rsp s = Some (rsp, s')" "current_process s' = Some c"
      "pcb_at s' c = tick_charged rsp (pcb_at s c)" "sched_inv s'" "mem_inv L s'" "rq s' = rq s"
      "idle_pcb s' = idle_pcb s" "\<forall>k. k \<noteq> c \<longrightarrow> pcb_at s' k = aged (rq s) (Some c) s k" by blast
    have "contest f b s'"
      unfolding contest_def using s s' c fb f b
      by (cases "f = c") (auto simp: tick_charged_def aged_def)
    with s'(1) show ?thesis by blast
  next
    case False
    let ?a = "upd_pcb c (tick_expired rsp) (tick_start s)"
    have ex: "p_state (pcb_at s c) = PROCESS_RUNNING \<longrightarrow> p_remaining_quanta (pcb_at s c) \<le> 1"
      using False by (simp add: not_less)
    from tick_expire [OF s(1,2) c(1) s(3) ex, of rsp, unfolded nz empty_iff if_False drop_blocks_empty]
    obtain n s' where
      n0: "scheduler_tick rsp s = Some (p_rsp (pcb_at s' n), s')" "choice ?a = Some n" "runs n s'" "sched_inv s'"
      "mem_inv L s'" "idle_pcb s' = idle_pcb s" and rq0: "rq s' = filter (\<lambda>k. \<not> False) (rq s)"
      and p: "\<forall>k. pcb_at s' k = (if k = n then (pcb_at ?a n)\<lparr>p_wait_ticks := 0, p_state := PROCESS_RUNNING\<rparr>
         else if k = c then tick_expired rsp (pcb_at s k) else aged (rq s) (Some c) s k)"
      by (elim exE conjE)
    have n: "scheduler_tick rsp s = Some (p_rsp (pcb_at s' n), s')" "choice ?a = Some n" "runs n s'" "sched_inv s'"
      "mem_inv L s'" "idle_pcb s' = idle_pcb s" "rq s' = rq s" using n0 rq0 by simp_all
    have pa: "pcb_at ?a k = (if k = c then tick_expired rsp (pcb_at s c) else aged (rq s) (Some c) s k)" for k
      using tick_setup [OF s(1,2) c(1)] tick_start(3) [OF s(1,2)] c(1) by (simp add: pcb_at_upd)
    have ra: "rq ?a = rq s" by (simp add: tick_start [OF s(1,2)])
    have f5: "6 \<le> eff (pcb_at ?a f)" "ready ?a f"
      using f fr c(3) by (auto simp: pa tick_expired_def aged_def ready_def intro!: eff_foreground)
    have b5: "eff (pcb_at ?a b) \<le> 5"
      using b c(2) by (auto simp: pa aged_def intro!: eff_background)
    have "n \<in> set (best (pcb_at ?a) (rq s))"
      using choice_ready_or_idle [OF n(2)] f5(2) fb(1) ra by auto
    then have "eff (pcb_at ?a f) \<le> eff (pcb_at ?a n)" using fb(1) f5(2) by (simp add: best_def ready_def)
    then have nb: "n \<noteq> b" using f5 b5 by auto
    have "contest f b s'"
      unfolding contest_def
    proof (intro conjI)
      show "\<exists>d. current_process s' = Some d \<and> d \<noteq> b \<and> p_state (pcb_at s' d) = PROCESS_RUNNING"
        using n(3) nb by (auto simp: runs_def)
      have pf: "p_priority (pcb_at ?a f) = 5" "p_foreground (pcb_at ?a f) = 1" "p_state (pcb_at ?a f) = PROCESS_READY"
        using f f5(2) by (auto simp: pa tick_expired_def aged_def ready_def)
      have sf: "pcb_at s' f = (if f = n then (pcb_at ?a f)\<lparr>p_wait_ticks := 0, p_state := PROCESS_RUNNING\<rparr>
          else pcb_at ?a f)" using p [rule_format, of f] by (auto simp: pa)
      show "p_priority (pcb_at s' f) = 5" "p_foreground (pcb_at s' f) = 1"
        "p_state (pcb_at s' f) \<in> {PROCESS_READY, PROCESS_RUNNING}"
        unfolding sf using pf by auto
      have "pcb_at s' b = aged (rq s) (Some c) s b" using p nb c(2) by simp
      then show "p_priority (pcb_at s' b) = 1" "p_foreground (pcb_at s' b) = 0" "p_state (pcb_at s' b) = PROCESS_READY"
        using b by (simp_all add: aged_def)
    qed (use n fb s(3) in auto)
    with n(1) show ?thesis by blast
  qed
qed

text \<open>C9: Aging does not prevent starvation. As long as a foreground process of priority 5 stays
  runnable, a waiting background process of priority 1 is never dispatched, however many timer
  interrupts pass: the aging bonus is capped at 4, so its effective priority stays at 5 while
  the foreground process has at least 6.\<close>

theorem background_starves:
  assumes "contest f b s"
  shows "\<exists>s'. tick_n k rsp s = Some s' \<and> contest f b s' \<and> current_process s' \<noteq> Some b \<and>
    p_state (pcb_at s' b) = PROCESS_READY"
  using assms
proof (induction k arbitrary: s)
  case 0
  then show ?case by (auto simp: contest_def)
next
  case (Suc k)
  from contest_tick [OF Suc.prems, of rsp] obtain r s1 where
    "scheduler_tick rsp s = Some (r, s1)" "contest f b s1" by blast
  with Suc.IH [of s1] show ?case by simp
qed

theorem background_starves_witness:
  "\<exists>s'. tick_n 1000000 (Some 8192) demo_s = Some s' \<and> current_process s' \<noteq> Some 2"
proof -
  have "contest 1 2 demo_s"
    unfolding contest_def using demo_ok(1-4) by (auto simp: demo_ok(5,6) demo_table_nth demo_pcb_def)
  from background_starves [OF this, of 1000000 "Some 8192"] show ?thesis by blast
qed

end
