(* ===== verification/Wait_Queue.thy ===== *)
theory Wait_Queue
  imports Process_Core Ring
begin

text \<open>
  The circular queues of blocked PIDs. \<open>semaphore.c\<close> keeps one per semaphore and \<open>pipe.c\<close>
  two per pipe, each as an array of 64 PIDs with head, tail and count; the record \<open>pidq\<close>
  groups these four fields. The two files have their own copies of the functions: the
  \<open>queue_pop\<close> and \<open>queue_remove_pid\<close> of both are the same code, the \<open>queue_push\<close> of
  \<open>pipe.c\<close> also refuses a PID that is queued already.

  \<open>items\<close> reads a queue as the list of PIDs in order of arrival; both push functions
  interpret the contract \<open>fifo\<close>.
\<close>

record pidq =
  q_slots :: "u64 list"
  q_head :: nat
  q_tail :: nat
  q_count :: nat

definition empty_pidq :: pidq where
  "empty_pidq = \<lparr>q_slots = replicate MAX_PROCESSES 0, q_head = 0, q_tail = 0, q_count = 0\<rparr>"

subsection \<open>The code\<close>

definition sem_queue_push :: "pidq \<Rightarrow> u64 \<Rightarrow> pidq" where
  "sem_queue_push q pid =
     (if q_count q \<ge> MAX_PROCESSES then q
      else q\<lparr>q_slots := (q_slots q)[q_tail q := pid],
             q_tail := (q_tail q + 1) mod MAX_PROCESSES,
             q_count := q_count q + 1\<rparr>)"

definition queue_pop :: "pidq \<Rightarrow> u64 \<times> pidq" where
  "queue_pop q =
     (q_slots q ! q_head q,
      q\<lparr>q_head := (q_head q + 1) mod MAX_PROCESSES, q_count := q_count q - 1\<rparr>)"

text \<open>The loop of \<open>queue_remove_pid\<close>: the PIDs kept, in order, and whether one was dropped.\<close>

fun remove_loop :: "nat \<Rightarrow> nat \<Rightarrow> u64 list \<Rightarrow> u64 \<Rightarrow> u64 list \<times> bool" where
  "remove_loop 0 idx q pid = ([], False)"
| "remove_loop (Suc k) idx q pid =
     (let (kept, found) = remove_loop k ((idx + 1) mod MAX_PROCESSES) q pid
      in if q ! idx \<noteq> pid then (q ! idx # kept, found) else (kept, True))"

text \<open>\<open>for(i = 0; i < n; i++) queue[i] = new_q[i];\<close>\<close>

definition copy_front :: "u64 list \<Rightarrow> u64 list \<Rightarrow> u64 list" where
  "copy_front new old = fold (\<lambda>i q. q[i := new ! i]) [0..<length new] old"

definition queue_remove_pid :: "pidq \<Rightarrow> u64 \<Rightarrow> bool \<times> pidq" where
  "queue_remove_pid q pid =
     (if q_count q = 0 then (False, q)
      else
        let (kept, found) = remove_loop (q_count q) (q_head q) (q_slots q) pid
        in if found
           then (True, q\<lparr>q_slots := copy_front kept (q_slots q), q_head := 0,
                         q_tail := length kept, q_count := length kept\<rparr>)
           else (False, q))"

text \<open>The duplicate check of \<open>pipe.c\<close>.\<close>

fun queued_loop :: "nat \<Rightarrow> nat \<Rightarrow> u64 list \<Rightarrow> u64 \<Rightarrow> bool" where
  "queued_loop 0 idx q pid = False"
| "queued_loop (Suc k) idx q pid =
     (if q ! idx = pid then True else queued_loop k ((idx + 1) mod MAX_PROCESSES) q pid)"

definition pipe_queue_push :: "pidq \<Rightarrow> u64 \<Rightarrow> pidq" where
  "pipe_queue_push q pid =
     (if q_count q \<ge> MAX_PROCESSES then q
      else if queued_loop (q_count q) ((q_tail q + MAX_PROCESSES - q_count q) mod MAX_PROCESSES) (q_slots q) pid
      then q
      else q\<lparr>q_slots := (q_slots q)[q_tail q := pid],
             q_tail := (q_tail q + 1) mod MAX_PROCESSES,
             q_count := q_count q + 1\<rparr>)"

subsection \<open>A queue as a list\<close>

definition items :: "pidq \<Rightarrow> u64 list" where
  "items q = ring_list (q_slots q) (q_head q) (q_count q)"

definition pidq_wf :: "pidq \<Rightarrow> bool" where
  "pidq_wf q \<longleftrightarrow> length (q_slots q) = MAX_PROCESSES \<and> q_head q < MAX_PROCESSES \<and>
     q_count q \<le> MAX_PROCESSES \<and> q_tail q = (q_head q + q_count q) mod MAX_PROCESSES"

lemma length_items [simp]: "length (items q) = q_count q"
  by (simp add: items_def)

lemma items_eq_Nil [simp]: "items q = [] \<longleftrightarrow> q_count q = 0"
  by (metis length_0_conv length_items)

lemma pidq_wf_empty [simp]: "pidq_wf empty_pidq" "items empty_pidq = []"
  by (simp_all add: pidq_wf_def empty_pidq_def)

lemma pidq_wf_reset:
  "length (q_slots q) = MAX_PROCESSES \<Longrightarrow> pidq_wf (q\<lparr>q_head := 0, q_tail := 0, q_count := 0\<rparr>)"
  by (simp add: pidq_wf_def)

lemma items_empty [simp]: "q_count q = 0 \<Longrightarrow> items q = []"
  by simp

lemma items_reset [simp]: "items (q\<lparr>q_head := 0, q_tail := 0, q_count := 0\<rparr>) = []"
  by simp

lemma sem_queue_push:
  assumes "pidq_wf q"
  shows "pidq_wf (sem_queue_push q pid)"
    and "items (sem_queue_push q pid) = (if q_count q < MAX_PROCESSES then items q @ [pid] else items q)"
proof -
  have tl: "(q_tail q + 1) mod MAX_PROCESSES = (q_head q + Suc (q_count q)) mod MAX_PROCESSES"
    using assms by (simp add: pidq_wf_def mod_Suc_eq)
  then show "pidq_wf (sem_queue_push q pid)"
    using assms by (simp add: sem_queue_push_def pidq_wf_def)
  show "items (sem_queue_push q pid) = (if q_count q < MAX_PROCESSES then items q @ [pid] else items q)"
    using assms ring_list_append [of "q_count q" "q_slots q" "q_head q" pid]
    by (simp add: sem_queue_push_def pidq_wf_def items_def)
qed

lemma queue_pop:
  assumes "pidq_wf q" "0 < q_count q"
  shows "pidq_wf (snd (queue_pop q))" "fst (queue_pop q) = hd (items q)"
    "items (snd (queue_pop q)) = tl (items q)"
proof -
  have l: "length (q_slots q) = MAX_PROCESSES" "q_head q < MAX_PROCESSES"
    "q_tail q = (q_head q + q_count q) mod MAX_PROCESSES" "q_count q \<le> MAX_PROCESSES"
    using assms(1) by (simp_all add: pidq_wf_def)
  have "((q_head q + 1) mod MAX_PROCESSES + (q_count q - 1)) mod MAX_PROCESSES =
      (q_head q + 1 + (q_count q - 1)) mod MAX_PROCESSES" by (rule mod_add_left_eq)
  with l assms(2) show "pidq_wf (snd (queue_pop q))" by (simp add: queue_pop_def pidq_wf_def)
  show "fst (queue_pop q) = hd (items q)"
    using hd_ring_list [OF assms(2), of "q_slots q" "q_head q"] l by (simp add: queue_pop_def items_def)
  show "items (snd (queue_pop q)) = tl (items q)"
    using tl_ring_list [OF assms(2), of "q_slots q" "q_head q"] l by (simp add: queue_pop_def items_def)
qed

lemma copy_front: "length new \<le> length old \<Longrightarrow> copy_front new old = new @ drop (length new) old"
proof -
  have "n \<le> length new \<Longrightarrow> length new \<le> length old \<Longrightarrow>
    fold (\<lambda>i q. q[i := new ! i]) [0..<n] old = take n new @ drop n old" for n
  proof (induction n)
    case (Suc n)
    have "(take n new @ drop n old)[n := new ! n] = take n new @ new ! n # drop (Suc n) old"
      using Suc.prems by (simp add: list_update_append Cons_nth_drop_Suc [symmetric])
    with Suc show ?case by (simp add: take_Suc_conv_app_nth)
  qed simp
  from this [of "length new"] show "length new \<le> length old \<Longrightarrow> ?thesis" by (simp add: copy_front_def)
qed

lemma remove_loop:
  "length q = MAX_PROCESSES \<Longrightarrow> idx < MAX_PROCESSES \<Longrightarrow>
   remove_loop k idx q pid = (filter (\<lambda>x. x \<noteq> pid) (ring_list q idx k), pid \<in> set (ring_list q idx k))"
proof (induction k arbitrary: idx)
  case (Suc k)
  have "remove_loop k ((idx + 1) mod MAX_PROCESSES) q pid =
      (filter (\<lambda>x. x \<noteq> pid) (ring_list q ((idx + 1) mod MAX_PROCESSES) k),
       pid \<in> set (ring_list q ((idx + 1) mod MAX_PROCESSES) k))"
    by (rule Suc.IH [OF Suc.prems(1)]) simp
  moreover have "ring_list q idx (Suc k) = q ! idx # ring_list q ((idx + 1) mod MAX_PROCESSES) k"
    using Suc.prems by (simp add: ring_list_Cons)
  ultimately show ?case by auto
qed simp

lemma queued_loop:
  "length q = MAX_PROCESSES \<Longrightarrow> idx < MAX_PROCESSES \<Longrightarrow>
   queued_loop k idx q pid \<longleftrightarrow> pid \<in> set (ring_list q idx k)"
proof (induction k arbitrary: idx)
  case (Suc k)
  have "queued_loop k ((idx + 1) mod MAX_PROCESSES) q pid \<longleftrightarrow> pid \<in> set (ring_list q ((idx + 1) mod MAX_PROCESSES) k)"
    by (rule Suc.IH [OF Suc.prems(1)]) simp
  moreover have "ring_list q idx (Suc k) = q ! idx # ring_list q ((idx + 1) mod MAX_PROCESSES) k"
    using Suc.prems by (simp add: ring_list_Cons)
  ultimately show ?case by auto
qed simp

lemma queue_remove_pid:
  assumes "pidq_wf q"
  shows "pidq_wf (snd (queue_remove_pid q pid))"
    "fst (queue_remove_pid q pid) \<longleftrightarrow> pid \<in> set (items q)"
    "items (snd (queue_remove_pid q pid)) = filter (\<lambda>x. x \<noteq> pid) (items q)"
proof -
  have l: "length (q_slots q) = MAX_PROCESSES" "q_head q < MAX_PROCESSES" "q_count q \<le> MAX_PROCESSES"
    using assms by (simp_all add: pidq_wf_def)
  let ?k = "filter (\<lambda>x. x \<noteq> pid) (items q)"
  have loop: "remove_loop (q_count q) (q_head q) (q_slots q) pid = (?k, pid \<in> set (items q))"
    unfolding items_def by (rule remove_loop [OF l(1,2)])
  have "pidq_wf (snd (queue_remove_pid q pid)) \<and> (fst (queue_remove_pid q pid) \<longleftrightarrow> pid \<in> set (items q)) \<and>
    items (snd (queue_remove_pid q pid)) = ?k"
  proof (cases "pid \<in> set (items q)")
    case True
    then have ne: "q_count q \<noteq> 0" by (metis items_eq_Nil empty_iff list.set(1))
    have "length ?k < length (items q)" using True by (rule length_filter_less) simp
    then have kl: "length ?k < MAX_PROCESSES" using l(3) by simp
    let ?s = "copy_front ?k (q_slots q)"
    have "?s = ?k @ drop (length ?k) (q_slots q)" using kl l(1) by (intro copy_front) simp
    then have "length ?s = MAX_PROCESSES" "ring_list ?s 0 (length ?k) = ?k"
      using kl l(1) by (simp_all add: ring_list_linear)
    with True ne loop kl show ?thesis
      by (simp add: queue_remove_pid_def pidq_wf_def items_def [of "_\<lparr>q_count := _\<rparr>"])
  next
    case False
    then have "?k = items q" by (metis (mono_tags, lifting) filter_True)
    with False loop assms show ?thesis by (simp add: queue_remove_pid_def)
  qed
  then show "pidq_wf (snd (queue_remove_pid q pid))"
    "fst (queue_remove_pid q pid) \<longleftrightarrow> pid \<in> set (items q)"
    "items (snd (queue_remove_pid q pid)) = ?k" by auto
qed

lemma pipe_queue_push:
  assumes "pidq_wf q"
  shows "pidq_wf (pipe_queue_push q pid)"
    "items (pipe_queue_push q pid) =
      (if q_count q < MAX_PROCESSES \<and> pid \<notin> set (items q) then items q @ [pid] else items q)"
proof -
  have l: "length (q_slots q) = MAX_PROCESSES" "q_head q < MAX_PROCESSES" "q_count q \<le> MAX_PROCESSES"
    "q_tail q = (q_head q + q_count q) mod MAX_PROCESSES"
    using assms by (simp_all add: pidq_wf_def)
  have "(q_tail q + MAX_PROCESSES - q_count q) mod MAX_PROCESSES = q_head q"
  proof (cases "q_head q + q_count q < MAX_PROCESSES")
    case True
    then show ?thesis using l by simp
  next
    case False
    then have "q_tail q = q_head q + q_count q - MAX_PROCESSES"
      using l by (simp add: le_mod_geq)
    then show ?thesis using False l by simp
  qed
  then have qd: "queued_loop (q_count q) ((q_tail q + MAX_PROCESSES - q_count q) mod MAX_PROCESSES) (q_slots q) pid \<longleftrightarrow>
      pid \<in> set (items q)" using queued_loop [OF l(1,2)] by (simp add: items_def)
  have eq: "pipe_queue_push q pid = (if pid \<in> set (items q) then q else sem_queue_push q pid)"
    unfolding pipe_queue_push_def qd sem_queue_push_def by simp
  show "pidq_wf (pipe_queue_push q pid)"
    "items (pipe_queue_push q pid) =
      (if q_count q < MAX_PROCESSES \<and> pid \<notin> set (items q) then items q @ [pid] else items q)"
    unfolding eq using sem_queue_push [OF assms] assms by simp_all
qed

interpretation sem_fifo: fifo items sem_queue_push queue_pop pidq_wf 64
  by unfold_locales (auto simp: sem_queue_push queue_pop)

interpretation pipe_fifo: fifo items pipe_queue_push queue_pop pidq_wf 64
  by unfold_locales (auto simp: pipe_queue_push queue_pop)

lemma queue_remove_pid_absent: "\<not> fst (queue_remove_pid q pid) \<Longrightarrow> snd (queue_remove_pid q pid) = q"
  by (auto simp: queue_remove_pid_def split: prod.splits if_splits)

end
