(* ===== verification/Semaphore.thy ===== *)
theory Semaphore
  imports Scheduler Wait_Queue
begin

text \<open>
  The semaphores of \<open>Kernel/c/semaphore/semaphore.c\<close>: a static table of 32, found by name,
  each with a value, a queue of blocked PIDs and a spinlock taken with \<open>xchg\<close>. Interrupts are
  off in a system call, so nobody releases a lock that is found taken: \<open>sem_lock\<close> is a
  partial function, and an operation that spins forever has the value \<open>None\<close>.

  \<open>sm_value\<close> is the \<open>int64_t\<close> of the source read as an integer; it moves by one per call.
\<close>

abbreviation (input) MAX_SEMS :: nat where "MAX_SEMS \<equiv> 32"
abbreviation (input) SEM_NAME_LEN :: nat where "SEM_NAME_LEN \<equiv> 32"
abbreviation (input) LOCKED :: u64 where "LOCKED \<equiv> 1"
abbreviation (input) UNLOCKED :: u64 where "UNLOCKED \<equiv> 0"

record Semaphore =
  sm_name :: string
  sm_value :: int
  sm_wait :: pidq
  sm_open :: int
  sm_lock :: u64

record semsys = ssys +
  sem_table :: "Semaphore list"

definition sem_at :: "'a semsys_scheme \<Rightarrow> nat \<Rightarrow> Semaphore" where
  "sem_at s i = sem_table s ! i"

definition upd_sem :: "nat \<Rightarrow> (Semaphore \<Rightarrow> Semaphore) \<Rightarrow> 'a semsys_scheme \<Rightarrow> 'a semsys_scheme" where
  "upd_sem i f s = s\<lparr>sem_table := modify i f (sem_table s)\<rparr>"

subsection \<open>Helpers\<close>

definition find_sem :: "'a semsys_scheme \<Rightarrow> string option \<Rightarrow> ptr" where
  "find_sem s name = first_idx (\<lambda>q. sm_open q > 0 \<and> sem_str_eq (Some (sm_name q)) name) (sem_table s)"

text \<open>\<open>while(atomic_xchg(l, LOCKED) == LOCKED);\<close>\<close>

partial_function (option) sem_lock :: "nat \<Rightarrow> 'a semsys_scheme \<Rightarrow> 'a semsys_scheme option" where
  "sem_lock i s =
     (let old = sm_lock (sem_at s i); s1 = upd_sem i (\<lambda>q. q\<lparr>sm_lock := LOCKED\<rparr>) s
      in if old = LOCKED then sem_lock i s1 else Some s1)"

definition sem_unlock :: "nat \<Rightarrow> 'a semsys_scheme \<Rightarrow> 'a semsys_scheme" where
  "sem_unlock i s = upd_sem i (\<lambda>q. q\<lparr>sm_lock := UNLOCKED\<rparr>) s"

text \<open>\<open>1u << i\<close>\<close>

definition sem_bit :: "nat \<Rightarrow> u32" where
  "sem_bit i = push_bit i 1"

definition has_bit :: "u32 \<Rightarrow> nat \<Rightarrow> bool" where
  "has_bit w i = (drop_bit i w AND 1 \<noteq> 0)"

definition set_held :: "nat \<Rightarrow> pcb \<Rightarrow> pcb" where
  "set_held i p = p\<lparr>p_held_sems := p_held_sems p OR sem_bit i\<rparr>"

definition clear_held :: "nat \<Rightarrow> pcb \<Rightarrow> pcb" where
  "clear_held i p = p\<lparr>p_held_sems := p_held_sems p AND NOT (sem_bit i)\<rparr>"

text \<open>\<open>if(cur != NULL) cur->... = ...;\<close>\<close>

definition upd_current :: "(pcb \<Rightarrow> pcb) \<Rightarrow> 'a psys_scheme \<Rightarrow> 'a psys_scheme" where
  "upd_current f s = (case process_current s of None \<Rightarrow> s | Some c \<Rightarrow> upd_pcb c f s)"

subsection \<open>The operations\<close>

definition sem_init :: "'a semsys_scheme \<Rightarrow> 'a semsys_scheme" where
  "sem_init s = s\<lparr>sem_table := map (\<lambda>q. q\<lparr>sm_open := 0, sm_value := 0, sm_name := [], sm_lock := UNLOCKED,
     sm_wait := \<lparr>q_slots = replicate MAX_PROCESSES 0, q_head = 0, q_tail = 0, q_count = 0\<rparr>\<rparr>) (sem_table s)\<rparr>"

definition sem_open_slot :: "string option \<Rightarrow> u64 \<Rightarrow> Semaphore \<Rightarrow> Semaphore" where
  "sem_open_slot name initial_value q =
     q\<lparr>sm_name := sem_str_copy name SEM_NAME_LEN, sm_value := sint initial_value, sm_open := 1,
       sm_wait := (sm_wait q)\<lparr>q_head := 0, q_tail := 0, q_count := 0\<rparr>, sm_lock := UNLOCKED\<rparr>"

definition sem_opened :: "nat \<Rightarrow> 'a semsys_scheme \<Rightarrow> int \<times> 'a semsys_scheme" where
  "sem_opened i s = (1, upd_current (\<lambda>p. p\<lparr>p_opened_sems := p_opened_sems p OR sem_bit i\<rparr>) s)"

definition sem_open :: "string option \<Rightarrow> u64 \<Rightarrow> 'a semsys_scheme \<Rightarrow> int \<times> 'a semsys_scheme" where
  "sem_open name initial_value s =
     (if name = None then (0, s)
      else case find_sem s name of
        Some i \<Rightarrow> sem_opened i (upd_sem i (\<lambda>q. q\<lparr>sm_open := sm_open q + 1\<rparr>) s)
      | None \<Rightarrow>
          (case first_idx (\<lambda>q. sm_open q = 0) (sem_table s) of
             None \<Rightarrow> (0, s)
           | Some i \<Rightarrow> sem_opened i (upd_sem i (sem_open_slot name initial_value) s)))"

definition sem_wait :: "string option \<Rightarrow> 'a semsys_scheme \<Rightarrow> (int \<times> 'a semsys_scheme) option" where
  "sem_wait name s =
     (if name = None then Some (-1, s)
      else case find_sem s name of
        None \<Rightarrow> Some (-1, s)
      | Some i \<Rightarrow> do {
          s1 \<leftarrow> sem_lock i s;
          let s2 = upd_sem i (\<lambda>q. q\<lparr>sm_value := sm_value q - 1\<rparr>) s1;
          if sm_value (sem_at s2 i) < 0
          then (case process_current s of
                  None \<Rightarrow> Some (-1, sem_unlock i s2)
                | Some c \<Rightarrow>
                    let pid = p_pid (pcb_at s c);
                        s3 = upd_sem i (\<lambda>q. q\<lparr>sm_wait := sem_queue_push (sm_wait q) pid\<rparr>) s2
                    in Some (0, process_block pid (sem_unlock i s3)))
          else Some (0, sem_unlock i (upd_current (set_held i) s2))
        })"

text \<open>Pop a waiter and hand it the resource; common to \<open>sem_post\<close> and the clean-up.\<close>

definition sem_wake :: "nat \<Rightarrow> 'a semsys_scheme \<Rightarrow> 'a semsys_scheme" where
  "sem_wake i s =
     (let (pid, w) = queue_pop (sm_wait (sem_at s i));
          s1 = upd_sem i (\<lambda>q. q\<lparr>sm_wait := w\<rparr>) s;
          s2 = (case process_get s1 pid of None \<Rightarrow> s1 | Some k \<Rightarrow> upd_pcb k (set_held i) s1)
      in process_unblock pid (sem_unlock i s2))"

definition sem_post :: "string option \<Rightarrow> 'a semsys_scheme \<Rightarrow> (int \<times> 'a semsys_scheme) option" where
  "sem_post name s =
     (if name = None then Some (-1, s)
      else case find_sem s name of
        None \<Rightarrow> Some (-1, s)
      | Some i \<Rightarrow> do {
          s1 \<leftarrow> sem_lock i s;
          let s2 = upd_current (clear_held i) s1;
          let s3 = upd_sem i (\<lambda>q. q\<lparr>sm_value := sm_value q + 1\<rparr>) s2;
          if sm_value (sem_at s3 i) \<le> 0 \<and> q_count (sm_wait (sem_at s3 i)) > 0
          then Some (0, sem_wake i s3)
          else Some (0, sem_unlock i s3)
        })"

text \<open>One pass of the loop of \<open>sem_cleanup_for_process\<close>; \<open>p\<close> is the PCB of \<open>pid\<close>.\<close>

definition sem_cleanup_step :: "nat \<Rightarrow> u64 \<Rightarrow> nat \<Rightarrow> 'a semsys_scheme \<Rightarrow> 'a semsys_scheme option" where
  "sem_cleanup_step p pid i s =
     (if sm_open (sem_at s i) \<le> 0 then Some s
      else do {
        s1 \<leftarrow> sem_lock i s;
        let (was_queued, w) = queue_remove_pid (sm_wait (sem_at s1 i)) pid;
        let s2 = upd_sem i (\<lambda>q. q\<lparr>sm_wait := w\<rparr>) s1;
        let s3 = (if has_bit (p_opened_sems (pcb_at s2 p)) i
                  then upd_sem i (\<lambda>q. if sm_open q > 0 then q\<lparr>sm_open := sm_open q - 1\<rparr> else q)
                         (upd_pcb p (\<lambda>x. x\<lparr>p_opened_sems := p_opened_sems x AND NOT (sem_bit i)\<rparr>) s2)
                  else s2);
        if was_queued
        then Some (sem_unlock i (upd_pcb p (clear_held i) (upd_sem i (\<lambda>q. q\<lparr>sm_value := sm_value q + 1\<rparr>) s3)))
        else if has_bit (p_held_sems (pcb_at s3 p)) i
        then (let s4 = upd_sem i (\<lambda>q. q\<lparr>sm_value := sm_value q + 1\<rparr>) (upd_pcb p (clear_held i) s3)
              in if sm_value (sem_at s4 i) \<le> 0 \<and> q_count (sm_wait (sem_at s4 i)) > 0
                 then Some (sem_wake i s4) else Some (sem_unlock i s4))
        else Some (sem_unlock i s3)
      })"

fun sem_cleanup_loop :: "nat \<Rightarrow> u64 \<Rightarrow> nat list \<Rightarrow> 'a semsys_scheme \<Rightarrow> 'a semsys_scheme option" where
  "sem_cleanup_loop p pid [] s = Some s"
| "sem_cleanup_loop p pid (i # is) s =
     (case sem_cleanup_step p pid i s of None \<Rightarrow> None | Some s' \<Rightarrow> sem_cleanup_loop p pid is s')"

definition sem_cleanup_for_process :: "u64 \<Rightarrow> 'a semsys_scheme \<Rightarrow> 'a semsys_scheme option" where
  "sem_cleanup_for_process pid s =
     (case process_get s pid of
        None \<Rightarrow> Some s
      | Some p \<Rightarrow>
          map_option (upd_pcb p (\<lambda>x. x\<lparr>p_held_sems := 0, p_opened_sems := 0\<rparr>))
            (sem_cleanup_loop p pid [0..<MAX_SEMS] s))"

definition sem_close :: "string option \<Rightarrow> 'a semsys_scheme \<Rightarrow> int \<times> 'a semsys_scheme" where
  "sem_close name s =
     (if name = None then (-1, s)
      else case find_sem s name of
        None \<Rightarrow> (-1, s)
      | Some i \<Rightarrow>
          let s1 = upd_current (\<lambda>p. p\<lparr>p_held_sems := p_held_sems p AND NOT (sem_bit i),
                     p_opened_sems := p_opened_sems p AND NOT (sem_bit i)\<rparr>) s;
              s2 = upd_sem i (\<lambda>q. q\<lparr>sm_open := sm_open q - 1\<rparr>) s1
          in (0, if sm_open (sem_at s2 i) \<le> 0
                 then upd_sem i (\<lambda>q. q\<lparr>sm_open := 0, sm_name := [],
                        sm_wait := (sm_wait q)\<lparr>q_head := 0, q_tail := 0, q_count := 0\<rparr>\<rparr>) s2
                 else s2))"

subsection \<open>Access\<close>

lemma upd_sem_sels [simp, frame_simps]:
  "process_table (upd_sem i f s) = process_table s" "next_pid (upd_sem i f s) = next_pid s"
  "current_process (upd_sem i f s) = current_process s" "force_switch (upd_sem i f s) = force_switch s"
  "length (sem_table (upd_sem i f s)) = length (sem_table s)" "pcb_at (upd_sem i f s) k = pcb_at s k"
  "live (upd_sem i f s) = live s" "process_get (upd_sem i f s) pid = process_get s pid"
  "process_current (upd_sem i f s) = process_current s"
  by (simp_all add: upd_sem_def pcb_at_def live_def process_get_def process_current_def fun_eq_iff)

lemma sem_at_upd_sem [table_simps]:
  "i < length (sem_table s) \<Longrightarrow> sem_at (upd_sem i f s) j = (if j = i then f (sem_at s j) else sem_at s j)"
  by (cases "j = i") (simp_all add: sem_at_def upd_sem_def)

lemma sem_table_upd_pcb [simp, frame_simps]:
  "sem_table (upd_pcb k f s) = sem_table s" "sem_at (upd_pcb k f s) i = sem_at s i"
  by (simp_all add: upd_pcb_def sem_at_def)

lemma sem_table_block [simp, frame_simps]:
  "sem_table (process_block pid s) = sem_table s" "sem_at (process_block pid s) i = sem_at s i"
  "sem_table (process_unblock pid s) = sem_table s" "sem_at (process_unblock pid s) i = sem_at s i"
  by (simp_all add: process_block_def process_unblock_def Let_def sem_at_def split: option.split)

lemma sem_table_upd_current [simp, frame_simps]:
  "sem_table (upd_current f s) = sem_table s" "sem_at (upd_current f s) i = sem_at s i"
  "current_process (upd_current f s) = current_process s"
  by (simp_all add: upd_current_def split: option.split)

lemma upd_current_Some: "current_process s = Some c \<Longrightarrow> upd_current f s = upd_pcb c f s"
  by (simp add: upd_current_def process_current_def)

lemma find_sem_SomeD:
  "find_sem s (Some nm) = Some i \<Longrightarrow> i < length (sem_table s) \<and> sm_open (sem_at s i) > 0 \<and>
     cstr (sm_name (sem_at s i)) = cstr nm"
  by (auto simp: find_sem_def sem_at_def dest!: first_idx_SomeD)

subsection \<open>The lock\<close>

lemma sem_lock_free:
  "sm_lock (sem_at s i) = UNLOCKED \<Longrightarrow> sem_lock i s = Some (upd_sem i (\<lambda>q. q\<lparr>sm_lock := LOCKED\<rparr>) s)"
  by (subst sem_lock.simps) (simp add: Let_def)

end
