(* ===== verification/Sem_Lemmas.thy ===== *)
theory Sem_Lemmas
  imports Semaphore Sched_Switch
begin

text \<open>
  What the semaphore operations do, in closed form, and the invariant of a semaphore slot:
  the lock is free between operations, the queue is well formed, and while the semaphore is
  open its queue holds each waiting PID once, only live PIDs, and exactly \<open>- value\<close> of them
  when the value is negative and none otherwise.
\<close>

subsection \<open>Bits\<close>

lemma has_bit_iff: "has_bit w i \<longleftrightarrow> bit w i"
  by (simp add: has_bit_def and_one_eq bit_iff_odd_drop_bit odd_iff_mod_2_eq_one)

lemma bit_sem_bit: "i < 32 \<Longrightarrow> bit (sem_bit i) j \<longleftrightarrow> j = i"
  by (auto simp: sem_bit_def bit_simps)

lemma has_bit_set [simp]: "i < 32 \<Longrightarrow> has_bit (w OR sem_bit i) j \<longleftrightarrow> has_bit w j \<or> j = i"
  by (auto simp: has_bit_iff bit_or_iff bit_sem_bit)

lemma has_bit_clear [simp]: "i < 32 \<Longrightarrow> has_bit (w AND NOT (sem_bit i)) j \<longleftrightarrow> has_bit w j \<and> j \<noteq> i"
  by (auto simp: has_bit_iff bit_and_iff bit_not_iff bit_sem_bit dest: bit_imp_le_length)

lemma has_bit_0 [simp]: "\<not> has_bit 0 i"
  by (simp add: has_bit_def)

subsection \<open>Closed forms\<close>

lemma upd_sem_upd_pcb: "upd_sem i f (upd_pcb k g s) = upd_pcb k g (upd_sem i f s)"
  by (simp add: upd_sem_def upd_pcb_def)

lemma upd_sem_upd_sem [simp]: "upd_sem i f (upd_sem i g s) = upd_sem i (f \<circ> g) s"
  by (simp add: upd_sem_def)

lemma upd_sem_cong:
  "f (sem_at s i) = g (sem_at s i) \<Longrightarrow> upd_sem i f s = upd_sem i g s"
  by (simp add: upd_sem_def modify_def sem_at_def)

definition taken :: "Semaphore \<Rightarrow> Semaphore" where
  "taken q = q\<lparr>sm_value := sm_value q - 1\<rparr>"

definition blocked :: "u64 \<Rightarrow> Semaphore \<Rightarrow> Semaphore" where
  "blocked pid q = q\<lparr>sm_value := sm_value q - 1, sm_wait := sem_queue_push (sm_wait q) pid\<rparr>"

definition released :: "Semaphore \<Rightarrow> Semaphore" where
  "released q = q\<lparr>sm_value := sm_value q + 1\<rparr>"

definition passed_on :: "Semaphore \<Rightarrow> Semaphore" where
  "passed_on q = q\<lparr>sm_value := sm_value q + 1, sm_wait := snd (queue_pop (sm_wait q))\<rparr>"

text \<open>Waking the process \<open>pid\<close> as the new owner.\<close>

definition hand_over :: "nat \<Rightarrow> u64 \<Rightarrow> 'a psys_scheme \<Rightarrow> 'a psys_scheme" where
  "hand_over i pid s =
     process_unblock pid (case process_get s pid of None \<Rightarrow> s | Some k \<Rightarrow> upd_pcb k (set_held i) s)"

lemma sem_wait_eq:
  assumes "find_sem s (Some nm) = Some i" "sm_lock (sem_at s i) = UNLOCKED" "current_process s = Some c"
  shows "sem_wait (Some nm) s = Some (0,
     if sm_value (sem_at s i) \<le> 0
     then process_block (p_pid (pcb_at s c)) (upd_sem i (blocked (p_pid (pcb_at s c))) s)
     else upd_pcb c (set_held i) (upd_sem i taken s))"
proof -
  have il: "i < length (sem_table s)" using find_sem_SomeD [OF assms(1)] by simp
  have l: "sm_lock (sem_at s i) = 0" using assms(2) by simp
  have eqs: "upd_sem i ((\<lambda>q. q\<lparr>sm_lock := UNLOCKED\<rparr>) \<circ> ((\<lambda>q. q\<lparr>sm_wait := sem_queue_push (sm_wait q) pid\<rparr>) \<circ>
      ((\<lambda>q. q\<lparr>sm_value := sm_value q - 1\<rparr>) \<circ> (\<lambda>q. q\<lparr>sm_lock := LOCKED\<rparr>)))) s = upd_sem i (blocked pid) s"
    "upd_sem i ((\<lambda>q. q\<lparr>sm_lock := UNLOCKED\<rparr>) \<circ> ((\<lambda>q. q\<lparr>sm_value := sm_value q - 1\<rparr>) \<circ> (\<lambda>q. q\<lparr>sm_lock := LOCKED\<rparr>))) s
      = upd_sem i taken s" for pid
    by (rule upd_sem_cong, use l in \<open>simp add: blocked_def taken_def\<close>)+
  show ?thesis
    using assms(1,3) il
    by (simp add: sem_wait_def sem_lock_free [OF assms(2)] Let_def sem_at_upd_sem process_current_def
        sem_unlock_def upd_current_def upd_sem_upd_pcb eqs)
qed

lemma sem_wake_eq:
  "sem_wake i s = hand_over i (fst (queue_pop (sm_wait (sem_at s i))))
     (upd_sem i (\<lambda>q. q\<lparr>sm_wait := snd (queue_pop (sm_wait q)), sm_lock := UNLOCKED\<rparr>) s)"
proof -
  let ?w = "snd (queue_pop (sm_wait (sem_at s i)))"
  have eq: "upd_sem i ((\<lambda>q. q\<lparr>sm_lock := UNLOCKED\<rparr>) \<circ> (\<lambda>q. q\<lparr>sm_wait := ?w\<rparr>)) s =
      upd_sem i (\<lambda>q. q\<lparr>sm_wait := snd (queue_pop (sm_wait q)), sm_lock := UNLOCKED\<rparr>) s"
    by (rule upd_sem_cong) simp
  show ?thesis
    by (simp add: sem_wake_def Let_def case_prod_beta hand_over_def sem_unlock_def upd_sem_upd_pcb eq
        split: option.split)
qed

lemma sem_post_eq:
  assumes "find_sem s (Some nm) = Some i" "sm_lock (sem_at s i) = UNLOCKED" "current_process s = Some c"
  shows "sem_post (Some nm) s = Some (0,
     if sm_value (sem_at s i) < 0 \<and> q_count (sm_wait (sem_at s i)) > 0
     then hand_over i (fst (queue_pop (sm_wait (sem_at s i))))
            (upd_pcb c (clear_held i) (upd_sem i passed_on s))
     else upd_pcb c (clear_held i) (upd_sem i released s))"
proof -
  have il: "i < length (sem_table s)" using find_sem_SomeD [OF assms(1)] by simp
  have l: "sm_lock (sem_at s i) = 0" using assms(2) by simp
  have eqs: "upd_sem i ((\<lambda>q. q\<lparr>sm_wait := snd (queue_pop (sm_wait q)), sm_lock := UNLOCKED\<rparr>) \<circ>
      ((\<lambda>q. q\<lparr>sm_value := sm_value q + 1\<rparr>) \<circ> (\<lambda>q. q\<lparr>sm_lock := LOCKED\<rparr>))) s = upd_sem i passed_on s"
    "upd_sem i ((\<lambda>q. q\<lparr>sm_lock := UNLOCKED\<rparr>) \<circ> ((\<lambda>q. q\<lparr>sm_value := sm_value q + 1\<rparr>) \<circ> (\<lambda>q. q\<lparr>sm_lock := LOCKED\<rparr>))) s
      = upd_sem i released s"
    by (rule upd_sem_cong, use l in \<open>simp add: passed_on_def released_def\<close>)+
  have z: "sm_value (sem_at s i) + 1 \<le> 0 \<longleftrightarrow> sm_value (sem_at s i) < 0" by arith
  show ?thesis
    using assms(1) il
    by (simp add: sem_post_def sem_lock_free [OF assms(2)] Let_def sem_at_upd_sem sem_wake_eq z
        sem_unlock_def upd_current_Some assms(3) upd_sem_upd_pcb eqs)
qed

subsection \<open>All operations are benign for the process table\<close>

lemma benign_upd_sem [simp]: "benign s (upd_sem i f t) \<longleftrightarrow> benign s t"
  by (simp add: benign_def)

lemma benign_key: "(\<And>p. pcb_key (f p) = pcb_key p) \<Longrightarrow> (\<And>p. p_state (f p) = p_state p) \<Longrightarrow> benign s (upd_pcb k f s)"
  by (rule benign_upd_pcb) (simp add: pcb_le_def)

lemma pcb_key_held [simp]:
  "pcb_key (set_held i p) = pcb_key p" "p_state (set_held i p) = p_state p" "p_pid (set_held i p) = p_pid p"
  "pcb_key (clear_held i p) = pcb_key p" "p_state (clear_held i p) = p_state p" "p_pid (clear_held i p) = p_pid p"
  by (simp_all add: set_held_def clear_held_def pcb_key_def)

lemma benign_hand_over: "benign s (hand_over i pid s)"
proof -
  have "benign s (case process_get s pid of None \<Rightarrow> s | Some k \<Rightarrow> upd_pcb k (set_held i) s)"
    by (auto split: option.split intro!: benign_key)
  then show ?thesis unfolding hand_over_def using benign_process_unblock by (rule benign_trans)
qed

lemma benign_upd_sem_left: "benign (upd_sem i f s) t \<longleftrightarrow> benign s t"
  by (simp add: benign_def)

lemma benign_upd_current: "(\<And>p. pcb_key (f p) = pcb_key p) \<Longrightarrow> (\<And>p. p_state (f p) = p_state p) \<Longrightarrow> benign s (upd_current f s)"
  by (auto simp: upd_current_def split: option.split intro: benign_key)

lemma sem_at_hand_over [simp]: "sem_at (hand_over i pid s) j = sem_at s j"
  "length (sem_table (hand_over i pid s)) = length (sem_table s)"
  by (simp_all add: hand_over_def split: option.split)

subsection \<open>The invariant of a slot\<close>

definition live_pids :: "'a psys_scheme \<Rightarrow> u64 set" where
  "live_pids s = {p_pid (pcb_at s k) |k. live s k}"

lemma live_pids_benign: "benign s t \<Longrightarrow> live_pids t = live_pids s"
proof -
  assume b: "benign s t"
  have "live s k \<Longrightarrow> p_pid (pcb_at t k) = p_pid (pcb_at s k)" for k
    using benign_pcb [OF b, of k] by (simp add: pcb_le_pid live_def)
  then show ?thesis unfolding live_pids_def benign_live [OF b] by (intro Collect_cong) metis
qed

lemma live_pids_finite: "finite (live_pids s)"
  and live_pids_card: "length (process_table s) = MAX_PROCESSES \<Longrightarrow> card (live_pids s) \<le> MAX_PROCESSES"
proof -
  have eq: "live_pids s = (\<lambda>k. p_pid (pcb_at s k)) ` {k. live s k}" by (auto simp: live_pids_def)
  have sub: "{k. live s k} \<subseteq> {..<length (process_table s)}" by (auto simp: live_def)
  then have fin: "finite {k. live s k}" by (rule finite_subset) simp
  then show "finite (live_pids s)" by (simp add: eq)
  have "card {k. live s k} \<le> length (process_table s)" using card_mono [OF _ sub] by simp
  then show "length (process_table s) = MAX_PROCESSES \<Longrightarrow> card (live_pids s) \<le> MAX_PROCESSES"
    using card_image_le [OF fin, of "\<lambda>k. p_pid (pcb_at s k)"] by (simp add: eq)
qed

definition slot_ok :: "u64 set \<Rightarrow> Semaphore \<Rightarrow> bool" where
  "slot_ok P q \<longleftrightarrow> sm_lock q = UNLOCKED \<and> pidq_wf (sm_wait q) \<and> 0 \<le> sm_open q \<and>
     length (sm_name q) < SEM_NAME_LEN \<and>
     (0 < sm_open q \<longrightarrow> distinct (items (sm_wait q)) \<and> set (items (sm_wait q)) \<subseteq> P \<and>
        int (q_count (sm_wait q)) = (if sm_value q < 0 then - sm_value q else 0))"

definition sem_inv :: "'a semsys_scheme \<Rightarrow> bool" where
  "sem_inv s \<longleftrightarrow> length (sem_table s) = MAX_SEMS \<and> (\<forall>i<MAX_SEMS. slot_ok (live_pids s) (sem_at s i))"

lemma slot_ok_count:
  assumes "slot_ok P q" "0 < sm_open q" "finite P" "card P \<le> MAX_PROCESSES" "pid \<in> P" "pid \<notin> set (items (sm_wait q))"
  shows "q_count (sm_wait q) < MAX_PROCESSES"
proof -
  have "set (items (sm_wait q)) \<subset> P" using assms by (auto simp: slot_ok_def)
  then have "card (set (items (sm_wait q))) < card P" using assms(3) by (rule psubset_card_mono [rotated])
  moreover have "card (set (items (sm_wait q))) = q_count (sm_wait q)"
    using assms(1,2) by (simp add: slot_ok_def distinct_card)
  ultimately show ?thesis using assms(4) by simp
qed

lemma slot_ok_taken: "slot_ok P q \<Longrightarrow> 0 < sm_value q \<Longrightarrow> slot_ok P (taken q)"
  by (auto simp: slot_ok_def taken_def)

lemma slot_ok_blocked:
  assumes "slot_ok P q" "0 < sm_open q" "finite P" "card P \<le> MAX_PROCESSES" "pid \<in> P"
    "pid \<notin> set (items (sm_wait q))" "sm_value q \<le> 0"
  shows "slot_ok P (blocked pid q)" "items (sm_wait (blocked pid q)) = items (sm_wait q) @ [pid]"
proof -
  have w: "pidq_wf (sm_wait q)" using assms(1) by (simp add: slot_ok_def)
  note c = slot_ok_count [OF assms(1-6)]
  note p = sem_queue_push [OF w, of pid]
  show it: "items (sm_wait (blocked pid q)) = items (sm_wait q) @ [pid]"
    using p(2) c by (simp add: blocked_def)
  have "q_count (sm_wait (blocked pid q)) = Suc (q_count (sm_wait q))"
    using it by (metis length_append_singleton length_items)
  then show "slot_ok P (blocked pid q)"
    using assms it p(1) unfolding slot_ok_def by (simp add: blocked_def)
qed

lemma slot_ok_released: "slot_ok P q \<Longrightarrow> 0 < sm_open q \<Longrightarrow> \<not> (sm_value q < 0 \<and> 0 < q_count (sm_wait q)) \<Longrightarrow> slot_ok P (released q)"
  by (auto simp: slot_ok_def released_def split: if_splits)

lemma slot_ok_passed_on:
  assumes "slot_ok P q" "0 < sm_open q" "sm_value q < 0" "0 < q_count (sm_wait q)"
  shows "slot_ok P (passed_on q)" "items (sm_wait q) = fst (queue_pop (sm_wait q)) # items (sm_wait (passed_on q))"
proof -
  have w: "pidq_wf (sm_wait q)" using assms(1) by (simp add: slot_ok_def)
  note p = queue_pop [OF w assms(4)]
  have ne: "items (sm_wait q) \<noteq> []" using assms(4) by simp
  show it: "items (sm_wait q) = fst (queue_pop (sm_wait q)) # items (sm_wait (passed_on q))"
    using p(2,3) ne by (simp add: passed_on_def)
  then have "q_count (sm_wait q) = Suc (q_count (sm_wait (passed_on q)))"
    by (metis length_Cons length_items)
  moreover have "distinct (items (sm_wait q))" "set (items (sm_wait q)) \<subseteq> P" using assms(1,2) by (simp_all add: slot_ok_def)
  ultimately show "slot_ok P (passed_on q)"
    using assms it p(1) by (auto simp: slot_ok_def passed_on_def)
qed

lemma slot_ok_Int:
  "slot_ok P q \<Longrightarrow> (0 < sm_open q \<Longrightarrow> set (items (sm_wait q)) \<subseteq> Q) \<Longrightarrow> slot_ok Q q"
  by (auto simp: slot_ok_def)

lemma slot_ok_open_slot:
  "slot_ok P q \<Longrightarrow> 0 \<le> sint v \<Longrightarrow> slot_ok P (sem_open_slot (Some nm) v q)"
  using length_sem_str_copy [of "Some nm" 32]
  by (auto simp: slot_ok_def sem_open_slot_def pidq_wf_def)

lemma slot_ok_reopen: "slot_ok P q \<Longrightarrow> 0 < sm_open q \<Longrightarrow> slot_ok P (q\<lparr>sm_open := sm_open q + 1\<rparr>)"
  by (simp add: slot_ok_def)

lemma slot_ok_closed:
  "slot_ok P q \<Longrightarrow> slot_ok P (q\<lparr>sm_open := 0, sm_name := [], sm_wait := (sm_wait q)\<lparr>q_head := 0, q_tail := 0, q_count := 0\<rparr>\<rparr>)"
  by (simp add: slot_ok_def pidq_wf_def)

lemma slot_ok_less_open: "slot_ok P q \<Longrightarrow> 0 < sm_open q \<Longrightarrow> slot_ok P (q\<lparr>sm_open := sm_open q - 1\<rparr>)"
  by (auto simp: slot_ok_def)

text \<open>A queued PID leaves the queue and gives its unit back.\<close>

lemma slot_ok_dequeued:
  assumes "slot_ok P q" "0 < sm_open q" "pid \<in> set (items (sm_wait q))"
  shows "slot_ok (P - {pid}) (q\<lparr>sm_wait := snd (queue_remove_pid (sm_wait q) pid), sm_value := sm_value q + 1\<rparr>)"
proof -
  have w: "pidq_wf (sm_wait q)" and d: "distinct (items (sm_wait q))" using assms(1,2) by (simp_all add: slot_ok_def)
  note r = queue_remove_pid [OF w, of pid]
  have f: "items (snd (queue_remove_pid (sm_wait q) pid)) = remove1 pid (items (sm_wait q))"
    using r(3) d by (simp add: distinct_remove1_removeAll removeAll_filter_not_eq) metis
  then have "q_count (snd (queue_remove_pid (sm_wait q) pid)) = q_count (sm_wait q) - 1"
    using assms(3) by (metis length_items length_remove1)
  moreover have "0 < q_count (sm_wait q)" using assms(3) by (metis gr0I items_eq_Nil list.set(1) empty_iff)
  moreover from this have "sm_value q < 0" using assms(1,2) by (simp add: slot_ok_def split: if_splits)
  ultimately show ?thesis
    using assms r(1) r(3) by (auto simp: slot_ok_def)
qed

lemma sem_inv_slot: "sem_inv s \<Longrightarrow> i < length (sem_table s) \<Longrightarrow> slot_ok (live_pids s) (sem_at s i)"
  by (simp add: sem_inv_def)

lemma sem_inv_lock: "sem_inv s \<Longrightarrow> i < length (sem_table s) \<Longrightarrow> sm_lock (sem_at s i) = UNLOCKED"
  using sem_inv_slot [of s i] by (simp add: slot_ok_def)

text \<open>One slot changes, the live PIDs stay.\<close>

lemma sem_inv_update:
  assumes "sem_inv s" "benign s t" "i < length (sem_table s)"
    and "\<And>j. sem_at t j = (if j = i then q else sem_at s j)" "length (sem_table t) = length (sem_table s)"
    and "slot_ok (live_pids s) q"
  shows "sem_inv t"
  using assms by (simp add: sem_inv_def live_pids_benign)

lemma sem_inv_same:
  assumes "sem_inv s" "benign s t" "\<And>j. sem_at t j = sem_at s j" "length (sem_table t) = length (sem_table s)"
  shows "sem_inv t"
  using assms by (simp add: sem_inv_def live_pids_benign)

lemma live_pid: "live s k \<Longrightarrow> p_pid (pcb_at s k) \<in> live_pids s"
  by (auto simp: live_pids_def)

lemma sem_inv_wait:
  assumes i: "sem_inv s" and t: "length (process_table s) = MAX_PROCESSES" and c: "current_process s = Some c" "live s c"
    and f: "find_sem s (Some nm) = Some i" and nq: "p_pid (pcb_at s c) \<notin> set (items (sm_wait (sem_at s i)))"
  shows "\<exists>s'. sem_wait (Some nm) s = Some (0, s') \<and> sem_inv s' \<and> benign s s'"
proof -
  have il: "i < length (sem_table s)" "0 < sm_open (sem_at s i)" using find_sem_SomeD [OF f] by auto
  note sl = sem_inv_slot [OF i il(1)]
  let ?pid = "p_pid (pcb_at s c)"
  let ?b = "process_block ?pid (upd_sem i (blocked ?pid) s)"
  let ?t = "upd_pcb c (set_held i) (upd_sem i taken s)"
  have bb: "benign s ?b"
    using benign_process_block [of "upd_sem i (blocked ?pid) s"] by (simp add: benign_upd_sem_left)
  have bt: "benign s ?t"
    using benign_key [of "set_held i" "upd_sem i taken s" c] by (simp add: benign_upd_sem_left)
  show ?thesis
  proof (cases "sm_value (sem_at s i) \<le> 0")
    case True
    have "slot_ok (live_pids s) (blocked ?pid (sem_at s i))"
      by (rule slot_ok_blocked [OF sl il(2) live_pids_finite live_pids_card [OF t] live_pid [OF c(2)] nq True])
    then have "sem_inv ?b"
      by (rule sem_inv_update [OF i bb il(1), rotated 2]) (simp_all add: sem_at_upd_sem il)
    with True bb show ?thesis by (simp add: sem_wait_eq [OF f sem_inv_lock [OF i il(1)] c(1)])
  next
    case False
    then have "slot_ok (live_pids s) (taken (sem_at s i))" by (intro slot_ok_taken [OF sl]) simp
    then have "sem_inv ?t"
      by (rule sem_inv_update [OF i bt il(1), rotated 2]) (simp_all add: sem_at_upd_sem il)
    with False bt show ?thesis by (simp add: sem_wait_eq [OF f sem_inv_lock [OF i il(1)] c(1)])
  qed
qed

lemma sem_inv_post:
  assumes i: "sem_inv s" and c: "current_process s = Some c" and f: "find_sem s (Some nm) = Some i"
  shows "\<exists>s'. sem_post (Some nm) s = Some (0, s') \<and> sem_inv s' \<and> benign s s'"
proof -
  have il: "i < length (sem_table s)" "0 < sm_open (sem_at s i)" using find_sem_SomeD [OF f] by auto
  note sl = sem_inv_slot [OF i il(1)]
  let ?q = "sem_at s i"
  let ?p = "upd_pcb c (clear_held i) (upd_sem i passed_on s)"
  let ?h = "hand_over i (fst (queue_pop (sm_wait ?q))) ?p"
  let ?r = "upd_pcb c (clear_held i) (upd_sem i released s)"
  have "benign s ?p" using benign_key [of "clear_held i" "upd_sem i passed_on s" c] by (simp add: benign_upd_sem_left)
  then have bh: "benign s ?h" using benign_hand_over by (rule benign_trans)
  have br: "benign s ?r" using benign_key [of "clear_held i" "upd_sem i released s" c] by (simp add: benign_upd_sem_left)
  show ?thesis
  proof (cases "sm_value ?q < 0 \<and> 0 < q_count (sm_wait ?q)")
    case True
    then have "slot_ok (live_pids s) (passed_on ?q)" by (intro slot_ok_passed_on [OF sl il(2)]) auto
    then have "sem_inv ?h"
      by (rule sem_inv_update [OF i bh il(1), rotated 2]) (simp_all add: sem_at_upd_sem il)
    with True bh show ?thesis by (simp add: sem_post_eq [OF f sem_inv_lock [OF i il(1)] c])
  next
    case False
    then have "slot_ok (live_pids s) (released ?q)" by (rule slot_ok_released [OF sl il(2)])
    then have "sem_inv ?r"
      by (rule sem_inv_update [OF i br il(1), rotated 2]) (simp_all add: sem_at_upd_sem il)
    with False br show ?thesis
      unfolding sem_post_eq [OF f sem_inv_lock [OF i il(1)] c] if_not_P [OF False] by blast
  qed
qed

subsection \<open>Clean-up after a dying process\<close>

definition forget_open :: "nat \<Rightarrow> pcb \<Rightarrow> pcb" where
  "forget_open i x = (if has_bit (p_opened_sems x) i then x\<lparr>p_opened_sems := p_opened_sems x AND NOT (sem_bit i)\<rparr> else x)"

definition drop_open :: "bool \<Rightarrow> Semaphore \<Rightarrow> Semaphore" where
  "drop_open b q = (if b \<and> sm_open q > 0 then q\<lparr>sm_open := sm_open q - 1\<rparr> else q)"

definition dequeued :: "u64 \<Rightarrow> Semaphore \<Rightarrow> Semaphore" where
  "dequeued pid q = q\<lparr>sm_wait := snd (queue_remove_pid (sm_wait q) pid), sm_value := sm_value q + 1\<rparr>"

lemma pcb_key_forget_open [simp]:
  "pcb_key (forget_open i p) = pcb_key p" "p_state (forget_open i p) = p_state p" "p_pid (forget_open i p) = p_pid p"
  "p_held_sems (forget_open i p) = p_held_sems p"
  by (simp_all add: forget_open_def pcb_key_def)

text \<open>The clean-up of one open semaphore in closed form.\<close>

definition cleaned :: "nat \<Rightarrow> u64 \<Rightarrow> nat \<Rightarrow> 'a semsys_scheme \<Rightarrow> 'a semsys_scheme" where
  "cleaned p pid i s =
     (let q = sem_at s i; d = drop_open (has_bit (p_opened_sems (pcb_at s p)) i);
          g = (\<lambda>f t. upd_pcb p (clear_held i \<circ> forget_open i) (upd_sem i (d \<circ> f) t))
      in if pid \<in> set (items (sm_wait q)) then g (dequeued pid) s
         else if has_bit (p_held_sems (pcb_at s p)) i
         then if sm_value q < 0 \<and> q_count (sm_wait q) > 0
              then hand_over i (fst (queue_pop (sm_wait q))) (g passed_on s)
              else g released s
         else upd_pcb p (forget_open i) (upd_sem i d s))"

lemma sem_cleanup_step_eq:
  assumes p: "p < length (process_table s)" and i: "i < length (sem_table s)" and o: "0 < sm_open (sem_at s i)"
    and l: "sm_lock (sem_at s i) = UNLOCKED" and w: "pidq_wf (sm_wait (sem_at s i))"
  shows "sem_cleanup_step p pid i s = Some (cleaned p pid i s)"
proof -
  let ?q = "sem_at s i" and ?od = "has_bit (p_opened_sems (pcb_at s p)) i"
  let ?L = "\<lambda>q. q\<lparr>sm_lock := LOCKED\<rparr>"
  define s1 where "s1 = upd_sem i ?L s"
  define w' where "w' = snd (queue_remove_pid (sm_wait ?q) pid)"
  define s2 where "s2 = upd_sem i (\<lambda>q. q\<lparr>sm_wait := w'\<rparr>) s1"
  define s3 where "s3 = (if ?od then upd_sem i (\<lambda>q. if sm_open q > 0 then q\<lparr>sm_open := sm_open q - 1\<rparr> else q)
                         (upd_pcb p (\<lambda>x. x\<lparr>p_opened_sems := p_opened_sems x AND NOT (sem_bit i)\<rparr>) s2)
                  else s2)"
  have fst: "fst (queue_remove_pid (sm_wait ?q) pid) \<longleftrightarrow> pid \<in> set (items (sm_wait ?q))"
    by (rule queue_remove_pid(2) [OF w])
  have s3: "s3 = upd_pcb p (forget_open i) (upd_sem i (\<lambda>q. (drop_open ?od q)\<lparr>sm_wait := w', sm_lock := LOCKED\<rparr>) s)"
  proof (cases ?od)
    case True
    have "upd_pcb p (\<lambda>x. x\<lparr>p_opened_sems := p_opened_sems x AND NOT (sem_bit i)\<rparr>) t = upd_pcb p (forget_open i) t"
      if "pcb_at t p = pcb_at s p" for t :: "'a semsys_scheme"
      using that True by (simp add: upd_pcb_def modify_def pcb_at_def forget_open_def)
    then show ?thesis
      using True by (simp add: s3_def s2_def s1_def upd_sem_upd_pcb) (rule arg_cong [where f = "upd_pcb p _"],
        rule upd_sem_cong, simp add: drop_open_def)
  next
    case False
    have "upd_pcb p (forget_open i) t = t" if "pcb_at t p = pcb_at s p" for t :: "'a semsys_scheme"
      using that False by (simp add: upd_pcb_def modify_id pcb_at_def forget_open_def)
    then show ?thesis
      using False by (simp add: s3_def s2_def s1_def) (rule upd_sem_cong, simp add: drop_open_def)
  qed
  have "sem_cleanup_step p pid i s =
      (if pid \<in> set (items (sm_wait ?q))
        then Some (sem_unlock i (upd_pcb p (clear_held i) (upd_sem i (\<lambda>q. q\<lparr>sm_value := sm_value q + 1\<rparr>) s3)))
        else if has_bit (p_held_sems (pcb_at s3 p)) i
        then (let s4 = upd_sem i (\<lambda>q. q\<lparr>sm_value := sm_value q + 1\<rparr>) (upd_pcb p (clear_held i) s3)
              in if sm_value (sem_at s4 i) \<le> 0 \<and> q_count (sm_wait (sem_at s4 i)) > 0
                 then Some (sem_wake i s4) else Some (sem_unlock i s4))
        else Some (sem_unlock i s3))"
    using o i unfolding s3_def s2_def s1_def w'_def
    by (simp add: sem_cleanup_step_def sem_lock_free [OF l] Let_def case_prod_beta fst sem_at_upd_sem)
  also have "\<dots> = Some (cleaned p pid i s)"
  proof -
    let ?d = "drop_open ?od"
    have held: "p_held_sems (pcb_at s3 p) = p_held_sems (pcb_at s p)"
      using p unfolding s3 by (simp add: pcb_at_upd)
    have c: "upd_sem i (F \<circ> (\<lambda>q. (?d q)\<lparr>sm_wait := w', sm_lock := LOCKED\<rparr>)) s = upd_sem i (?d \<circ> G) s"
      if "F ((?d ?q)\<lparr>sm_wait := w', sm_lock := LOCKED\<rparr>) = ?d (G ?q)" for F G
      by (rule upd_sem_cong) (simp add: that)
    show ?thesis
    proof (cases "pid \<in> set (items (sm_wait ?q))")
      case True
      have "upd_sem i ((\<lambda>q. q\<lparr>sm_lock := UNLOCKED\<rparr>) \<circ> ((\<lambda>q. q\<lparr>sm_value := sm_value q + 1\<rparr>) \<circ>
          (\<lambda>q. (?d q)\<lparr>sm_wait := w', sm_lock := LOCKED\<rparr>))) s = upd_sem i (?d \<circ> dequeued pid) s"
        unfolding comp_assoc [symmetric] by (rule c) (simp add: l w'_def dequeued_def drop_open_def)
      with True show ?thesis unfolding cleaned_def s3
        by (simp add: sem_unlock_def upd_sem_upd_pcb)
    next
      case False
      then have w': "w' = sm_wait ?q" using fst queue_remove_pid_absent by (simp add: w'_def)
      have dq: "sm_value (?d ?q) = sm_value ?q" "sm_wait (?d ?q) = sm_wait ?q"
        by (simp_all add: drop_open_def)
      have rel: "upd_sem i ((\<lambda>q. q\<lparr>sm_lock := UNLOCKED\<rparr>) \<circ> ((\<lambda>q. q\<lparr>sm_value := sm_value q + 1\<rparr>) \<circ>
          (\<lambda>q. (?d q)\<lparr>sm_wait := w', sm_lock := LOCKED\<rparr>))) s = upd_sem i (?d \<circ> released) s"
        unfolding comp_assoc [symmetric] by (rule c) (simp add: l w' released_def drop_open_def)
      have pas: "upd_sem i ((\<lambda>q. q\<lparr>sm_wait := snd (queue_pop (sm_wait q)), sm_lock := UNLOCKED\<rparr>) \<circ>
          ((\<lambda>q. q\<lparr>sm_value := sm_value q + 1\<rparr>) \<circ> (\<lambda>q. (?d q)\<lparr>sm_wait := w', sm_lock := LOCKED\<rparr>))) s =
          upd_sem i (?d \<circ> passed_on) s"
        unfolding comp_assoc [symmetric] by (rule c) (simp add: l w' passed_on_def drop_open_def)
      have keep: "upd_sem i ((\<lambda>q. q\<lparr>sm_lock := UNLOCKED\<rparr>) \<circ> (\<lambda>q. (?d q)\<lparr>sm_wait := w', sm_lock := LOCKED\<rparr>)) s =
          upd_sem i ?d s"
        by (rule upd_sem_cong) (simp add: l w' drop_open_def)
      have z: "sm_value ?q + 1 \<le> 0 \<longleftrightarrow> sm_value ?q < 0" by arith
      have at4: "sm_value (sem_at (upd_sem i (\<lambda>q. q\<lparr>sm_value := sm_value q + 1\<rparr>) (upd_pcb p (clear_held i) s3)) i) = sm_value ?q + 1"
        "sm_wait (sem_at (upd_sem i (\<lambda>q. q\<lparr>sm_value := sm_value q + 1\<rparr>) (upd_pcb p (clear_held i) s3)) i) = sm_wait ?q"
        using i unfolding s3 by (simp_all add: sem_at_upd_sem dq w')
      show ?thesis
        using False unfolding held Let_def at4 z sem_wake_eq
        unfolding s3 cleaned_def Let_def sem_unlock_def upd_sem_upd_pcb upd_pcb_upd_pcb upd_sem_upd_sem rel pas keep
        by simp
    qed
  qed
  finally show ?thesis .
qed

lemma slot_ok_drop_open: "slot_ok P q \<Longrightarrow> slot_ok P (drop_open b q)"
  using slot_ok_less_open [of P q] by (simp add: drop_open_def)

lemma drop_open_sels [simp]:
  "sm_wait (drop_open b q) = sm_wait q" "sm_value (drop_open b q) = sm_value q" "sm_lock (drop_open b q) = sm_lock q"
  by (simp_all add: drop_open_def)

lemma cleaned_ok:
  assumes s: "sem_inv s" and p: "live s p" and i: "i < MAX_SEMS" "0 < sm_open (sem_at s i)"
  shows "sem_inv (cleaned p pid i s)" "benign s (cleaned p pid i s)"
    "j \<noteq> i \<Longrightarrow> sem_at (cleaned p pid i s) j = sem_at s j"
    "pid \<notin> set (items (sm_wait (sem_at (cleaned p pid i s) i)))"
proof -
  let ?q = "sem_at s i" and ?d = "drop_open (has_bit (p_opened_sems (pcb_at s p)) i)"
  have il: "i < length (sem_table s)" using s i(1) by (simp add: sem_inv_def)
  note sl = sem_inv_slot [OF s il]
  have w: "pidq_wf (sm_wait ?q)" using sl by (simp add: slot_ok_def)
  let ?g = "\<lambda>f. upd_pcb p (clear_held i \<circ> forget_open i) (upd_sem i (?d \<circ> f) s)"
  have bg: "benign s (?g f)" for f
    using benign_key [of "clear_held i \<circ> forget_open i" "upd_sem i (?d \<circ> f) s" p] by (simp add: benign_upd_sem_left)
  have bk: "benign s (upd_pcb p (forget_open i) (upd_sem i ?d s))"
    using benign_key [of "forget_open i" "upd_sem i ?d s" p] by (simp add: benign_upd_sem_left)
  have "\<exists>q. benign s (cleaned p pid i s) \<and> slot_ok (live_pids s) q \<and> pid \<notin> set (items (sm_wait q)) \<and>
      (\<forall>j. sem_at (cleaned p pid i s) j = (if j = i then q else sem_at s j)) \<and>
      length (sem_table (cleaned p pid i s)) = length (sem_table s)"
  proof -
    consider (queued) "pid \<in> set (items (sm_wait ?q))"
      | (pass) "pid \<notin> set (items (sm_wait ?q))" "has_bit (p_held_sems (pcb_at s p)) i" "sm_value ?q < 0 \<and> 0 < q_count (sm_wait ?q)"
      | (rel) "pid \<notin> set (items (sm_wait ?q))" "has_bit (p_held_sems (pcb_at s p)) i" "\<not> (sm_value ?q < 0 \<and> 0 < q_count (sm_wait ?q))"
      | (none) "pid \<notin> set (items (sm_wait ?q))" "\<not> has_bit (p_held_sems (pcb_at s p)) i" by blast
    then show ?thesis
    proof cases
      case queued
      have "slot_ok (live_pids s - {pid}) (dequeued pid ?q)"
        using slot_ok_dequeued [OF sl i(2) queued] by (simp add: dequeued_def)
      then have "slot_ok (live_pids s) (?d (dequeued pid ?q))"
        by (intro slot_ok_drop_open) (auto simp: slot_ok_def)
      moreover have "pid \<notin> set (items (sm_wait (?d (dequeued pid ?q))))"
        using queue_remove_pid(3) [OF w, of pid] by (simp add: dequeued_def)
      moreover have "cleaned p pid i s = ?g (dequeued pid)" using queued by (simp add: cleaned_def)
      ultimately show ?thesis using bg il by (intro exI [of _ "?d (dequeued pid ?q)"]) (simp add: sem_at_upd_sem)
    next
      case pass
      have "slot_ok (live_pids s) (?d (passed_on ?q))"
        using slot_ok_passed_on(1) [OF sl i(2)] pass(3) by (intro slot_ok_drop_open) simp
      moreover have "pid \<notin> set (items (sm_wait (?d (passed_on ?q))))"
        using slot_ok_passed_on(2) [OF sl i(2)] pass by auto
      moreover have "cleaned p pid i s = hand_over i (fst (queue_pop (sm_wait ?q))) (?g passed_on)"
        using pass by (simp add: cleaned_def)
      moreover have "benign s (hand_over i (fst (queue_pop (sm_wait ?q))) (?g passed_on))"
        using bg benign_hand_over by (rule benign_trans)
      ultimately show ?thesis using il by (intro exI [of _ "?d (passed_on ?q)"]) (simp add: sem_at_upd_sem)
    next
      case rel
      have "slot_ok (live_pids s) (?d (released ?q))"
        using slot_ok_released [OF sl i(2) rel(3)] by (rule slot_ok_drop_open)
      moreover have "pid \<notin> set (items (sm_wait (?d (released ?q))))" using rel(1) by (simp add: released_def)
      moreover have "cleaned p pid i s = ?g released"
        using rel unfolding cleaned_def Let_def if_not_P [OF rel(1)] if_P [OF rel(2)] if_not_P [OF rel(3)] by blast
      ultimately show ?thesis using bg il by (intro exI [of _ "?d (released ?q)"]) (simp add: sem_at_upd_sem)
    next
      case none
      have "slot_ok (live_pids s) (?d ?q)" using sl by (rule slot_ok_drop_open)
      moreover have "cleaned p pid i s = upd_pcb p (forget_open i) (upd_sem i ?d s)"
        using none by (simp add: cleaned_def)
      ultimately show ?thesis using bk il none(1) by (intro exI [of _ "?d ?q"]) (simp add: sem_at_upd_sem)
    qed
  qed
  then obtain q where q: "benign s (cleaned p pid i s)" "slot_ok (live_pids s) q" "pid \<notin> set (items (sm_wait q))"
    "\<And>j. sem_at (cleaned p pid i s) j = (if j = i then q else sem_at s j)"
    "length (sem_table (cleaned p pid i s)) = length (sem_table s)" by blast
  show "sem_inv (cleaned p pid i s)" by (rule sem_inv_update [OF s q(1) il q(4,5,2)])
  show "benign s (cleaned p pid i s)" by (rule q(1))
  show "j \<noteq> i \<Longrightarrow> sem_at (cleaned p pid i s) j = sem_at s j" using q(4) by simp
  show "pid \<notin> set (items (sm_wait (sem_at (cleaned p pid i s) i)))" using q(3,4) by simp
qed

lemma cleanup_loop_ok:
  "sem_inv s \<Longrightarrow> live s p \<Longrightarrow> \<forall>i\<in>set is. i < MAX_SEMS \<Longrightarrow> distinct is \<Longrightarrow>
   \<exists>s'. sem_cleanup_loop p pid is s = Some s' \<and> sem_inv s' \<and> benign s s' \<and>
     (\<forall>j. j \<notin> set is \<longrightarrow> sem_at s' j = sem_at s j) \<and>
     (\<forall>j\<in>set is. 0 < sm_open (sem_at s' j) \<longrightarrow> pid \<notin> set (items (sm_wait (sem_at s' j))))"
proof (induction "is" arbitrary: s)
  case (Cons i js)
  have i: "i < MAX_SEMS" "i \<notin> set js" using Cons.prems by auto
  show ?case
  proof (cases "0 < sm_open (sem_at s i)")
    case True
    let ?c = "cleaned p pid i s"
    note ok = cleaned_ok [OF Cons.prems(1,2) i(1) True, where pid = pid]
    have il: "i < length (sem_table s)" using Cons.prems(1) i(1) by (simp add: sem_inv_def)
    have sl: "slot_ok (live_pids s) (sem_at s i)" by (rule sem_inv_slot [OF Cons.prems(1) il])
    have "sem_cleanup_step p pid i s = Some ?c"
      by (rule sem_cleanup_step_eq [OF live_less [OF Cons.prems(2)] il True]) (use sl in \<open>simp_all add: slot_ok_def\<close>)
    moreover have "live ?c p" using benign_live [OF ok(2)] Cons.prems(2) by simp
    moreover from this obtain s' where s': "sem_cleanup_loop p pid js ?c = Some s'" "sem_inv s'" "benign ?c s'"
      "\<forall>j. j \<notin> set js \<longrightarrow> sem_at s' j = sem_at ?c j"
      "\<forall>j\<in>set js. 0 < sm_open (sem_at s' j) \<longrightarrow> pid \<notin> set (items (sm_wait (sem_at s' j)))"
      using Cons.IH [OF ok(1)] Cons.prems(3,4) by auto
    moreover have "benign s s'" using ok(2) s'(3) by (rule benign_trans)
    moreover have "sem_at s' i = sem_at ?c i" using s'(4) i(2) by simp
    ultimately show ?thesis using ok(3,4) by (intro exI [of _ s']) auto
  next
    case False
    from Cons.IH [OF Cons.prems(1,2)] Cons.prems(3,4) obtain s' where
      s': "sem_cleanup_loop p pid js s = Some s'" "sem_inv s'" "benign s s'"
      "\<forall>j. j \<notin> set js \<longrightarrow> sem_at s' j = sem_at s j"
      "\<forall>j\<in>set js. 0 < sm_open (sem_at s' j) \<longrightarrow> pid \<notin> set (items (sm_wait (sem_at s' j)))" by auto
    have "sem_at s' i = sem_at s i" using s'(4) i(2) by simp
    with s' False show ?thesis by (intro exI [of _ s']) (auto simp: sem_cleanup_step_def)
  qed
qed simp

definition no_sems :: "pcb \<Rightarrow> pcb" where
  "no_sems x = x\<lparr>p_held_sems := 0, p_opened_sems := 0\<rparr>"

lemma sem_cleanup_ok:
  assumes s: "sem_inv s" and g: "process_get s pid = Some p"
  shows "\<exists>s'. sem_cleanup_for_process pid s = Some s' \<and> sem_inv s' \<and> benign s s' \<and>
    (\<forall>i<MAX_SEMS. 0 < sm_open (sem_at s' i) \<longrightarrow> pid \<notin> set (items (sm_wait (sem_at s' i)))) \<and>
    p_held_sems (pcb_at s' p) = 0 \<and> p_opened_sems (pcb_at s' p) = 0"
proof -
  have lp: "live s p" using process_get_Some [OF g] by simp
  from cleanup_loop_ok [OF s lp, of "[0..<MAX_SEMS]" pid] obtain t where
    t: "sem_cleanup_loop p pid [0..<MAX_SEMS] s = Some t" "sem_inv t" "benign s t"
    "\<forall>j\<in>set [0..<MAX_SEMS]. 0 < sm_open (sem_at t j) \<longrightarrow> pid \<notin> set (items (sm_wait (sem_at t j)))" by auto
  let ?s = "upd_pcb p no_sems t"
  have b: "benign t ?s" by (rule benign_key) (simp_all add: no_sems_def pcb_key_def)
  have "sem_inv ?s" by (rule sem_inv_same [OF t(2) b]) simp_all
  moreover have "benign s ?s" using t(3) b by (rule benign_trans)
  moreover have "p < length (process_table t)" using live_less [OF lp] benign_length [OF t(3)] by simp
  moreover have ns: "no_sems = (\<lambda>x. x\<lparr>p_held_sems := 0, p_opened_sems := 0\<rparr>)" by (simp add: fun_eq_iff no_sems_def)
  have "sem_cleanup_for_process pid s = Some ?s"
    using g t(1) unfolding sem_cleanup_for_process_def ns by simp
  ultimately show ?thesis
    using t(4) by (intro exI [of _ ?s]) (simp add: no_sems_def pcb_at_upd)
qed

subsection \<open>Opening and closing\<close>

lemma benign_opened: "benign s (snd (sem_opened i s))"
  by (simp add: sem_opened_def) (rule benign_upd_current; simp add: pcb_key_def)

lemma sem_inv_opened: "sem_inv s \<Longrightarrow> sem_inv (snd (sem_opened i s))"
  by (erule sem_inv_same [OF _ benign_opened]) (simp_all add: sem_opened_def)

lemma sem_inv_open:
  assumes s: "sem_inv s" and v: "0 \<le> sint v"
  shows "sem_inv (snd (sem_open (Some nm) v s))" "benign s (snd (sem_open (Some nm) v s))"
proof -
  have upd: "sem_inv (snd (sem_opened i (upd_sem i f s))) \<and> benign s (snd (sem_opened i (upd_sem i f s)))"
    if "i < length (sem_table s)" "slot_ok (live_pids s) (f (sem_at s i))" for i f
  proof -
    have "sem_inv (upd_sem i f s)"
      by (rule sem_inv_update [OF s _ that(1) _ _ that(2)]) (simp_all add: sem_at_upd_sem that)
    moreover have "benign (upd_sem i f s) (snd (sem_opened i (upd_sem i f s)))" by (rule benign_opened)
    ultimately show ?thesis by (simp add: sem_inv_opened benign_upd_sem_left)
  qed
  have "sem_inv (snd (sem_open (Some nm) v s)) \<and> benign s (snd (sem_open (Some nm) v s))"
  proof (cases "find_sem s (Some nm)")
    case (Some i)
    then have i: "i < length (sem_table s)" "0 < sm_open (sem_at s i)" using find_sem_SomeD by blast+
    from upd [of i "\<lambda>q. q\<lparr>sm_open := sm_open q + 1\<rparr>"] slot_ok_reopen [OF sem_inv_slot [OF s i(1)] i(2)] i Some
    show ?thesis by (simp add: sem_open_def)
  next
    case None
    show ?thesis
    proof (cases "first_idx (\<lambda>q. sm_open q = 0) (sem_table s)")
      case (Some i)
      then have i: "i < length (sem_table s)" using first_idx_SomeD by blast
      from upd [of i "sem_open_slot (Some nm) v"] slot_ok_open_slot [OF sem_inv_slot [OF s i] v] i None Some
      show ?thesis by (simp add: sem_open_def)
    next
      case none: None
      have "sem_open (Some nm) v s = (0, s)" unfolding sem_open_def None none by simp
      with s show ?thesis by simp
    qed
  qed
  then show "sem_inv (snd (sem_open (Some nm) v s))" "benign s (snd (sem_open (Some nm) v s))" by auto
qed

lemma sem_inv_close:
  assumes s: "sem_inv s"
  shows "sem_inv (snd (sem_close nm s))" "benign s (snd (sem_close nm s))"
proof -
  have "sem_inv (snd (sem_close nm s)) \<and> benign s (snd (sem_close nm s))"
  proof (cases "nm = None \<or> find_sem s nm = None")
    case True
    then have "sem_close nm s = (-1, s)" by (auto simp: sem_close_def)
    with s show ?thesis by simp
  next
    case False
    then obtain n i where n: "nm = Some n" "find_sem s (Some n) = Some i" by auto
    from find_sem_SomeD [OF this(2)] have i: "i < length (sem_table s)" "0 < sm_open (sem_at s i)" by auto
    note sl = sem_inv_slot [OF s i(1)]
    let ?u = "upd_current (\<lambda>p. p\<lparr>p_held_sems := p_held_sems p AND NOT (sem_bit i),
                     p_opened_sems := p_opened_sems p AND NOT (sem_bit i)\<rparr>) s"
    let ?c = "\<lambda>q. q\<lparr>sm_open := 0, sm_name := [], sm_wait := (sm_wait q)\<lparr>q_head := 0, q_tail := 0, q_count := 0\<rparr>\<rparr>"
    let ?d = "\<lambda>q. q\<lparr>sm_open := sm_open q - 1\<rparr>"
    have bu: "benign s ?u" by (rule benign_upd_current) (simp_all add: pcb_key_def)
    have lu: "i < length (sem_table ?u)" using i by simp
    have ok1: "slot_ok (live_pids s) (?d (sem_at s i))" using sl i(2) by (rule slot_ok_less_open)
    have ok2: "slot_ok (live_pids s) ((?c \<circ> ?d) (sem_at s i))" using slot_ok_closed [OF ok1] by simp
    have a: "sem_inv (upd_sem i f ?u) \<and> benign s (upd_sem i f ?u)" if "slot_ok (live_pids s) (f (sem_at s i))" for f
    proof -
      have "benign s (upd_sem i f ?u)" using bu by simp
      moreover from this have "sem_inv (upd_sem i f ?u)"
        by (rule sem_inv_update [OF s _ i(1) _ _ that]) (simp_all add: sem_at_upd_sem i(1))
      ultimately show ?thesis by simp
    qed
    show ?thesis
      using a [of ?d, OF ok1] a [of "?c \<circ> ?d", OF ok2] n by (simp add: sem_close_def Let_def del: upd_sem_upd_sem) (simp add: comp_def)
  qed
  then show "sem_inv (snd (sem_close nm s))" "benign s (snd (sem_close nm s))" by auto
qed

end
