(* ===== verification/Sem_Mutex.thy ===== *)
theory Sem_Mutex
  imports Sem_Lemmas
begin

text \<open>
  Semaphores as a synchronisation protocol. \<open>sem_run\<close> is the step relation of a kernel in
  which one semaphore is used with discipline: processes wait on it when they do not hold it,
  post it when they hold it, may die at any moment, and the rest of the kernel does what it
  likes with everything else in between. The invariant \<open>units_inv\<close> counts: holders and free
  units together are the initial value.
\<close>

definition holds :: "'a psys_scheme \<Rightarrow> nat \<Rightarrow> nat \<Rightarrow> bool" where
  "holds s i k \<longleftrightarrow> live s k \<and> has_bit (p_held_sems (pcb_at s k)) i"

definition holders :: "'a psys_scheme \<Rightarrow> nat \<Rightarrow> nat set" where
  "holders s i = {k. holds s i k}"

lemma finite_holders [simp]: "finite (holders s i)"
proof -
  have "holders s i \<subseteq> {..<length (process_table s)}" by (auto simp: holders_def holds_def live_def)
  then show ?thesis by (rule finite_subset) simp
qed

lemma holders_upd_sem [simp]: "holders (upd_sem j f s) i = holders s i"
  by (simp add: holders_def holds_def)

lemma holders_same:
  assumes "benign s t" "\<And>k. p_held_sems (pcb_at t k) = p_held_sems (pcb_at s k)"
  shows "holders t i = holders s i"
  using assms(2) benign_live [OF assms(1)] by (simp add: holders_def holds_def)

lemma pcb_at_block:
  "\<exists>st w. pcb_at (process_block pid s) k = (pcb_at s k)\<lparr>p_state := st\<rparr>"
  "\<exists>st w. pcb_at (process_unblock pid s) k = (pcb_at s k)\<lparr>p_state := st, p_wait_ticks := w\<rparr>"
proof -
  have u: "pcb_at (upd_pcb i f s) k = pcb_at s k \<or> pcb_at (upd_pcb i f s) k = f (pcb_at s k)" for i f
    by (cases "i < length (process_table s)"; cases "k = i") (simp_all add: pcb_at_upd pcb_at_def upd_pcb_def modify_def)
  have id: "\<exists>st. pcb_at s k = (pcb_at s k)\<lparr>p_state := st\<rparr>"
    "\<exists>st w. pcb_at s k = (pcb_at s k)\<lparr>p_state := st, p_wait_ticks := w\<rparr>"
    by (rule exI [of _ "p_state (pcb_at s k)"], simp)
      (rule exI [of _ "p_state (pcb_at s k)"], rule exI [of _ "p_wait_ticks (pcb_at s k)"], simp)
  show "\<exists>st w. pcb_at (process_block pid s) k = (pcb_at s k)\<lparr>p_state := st\<rparr>"
    unfolding process_block_def Let_def using u id(1) by (auto split: option.split) metis+
  show "\<exists>st w. pcb_at (process_unblock pid s) k = (pcb_at s k)\<lparr>p_state := st, p_wait_ticks := w\<rparr>"
    unfolding process_unblock_def Let_def using u id(2) by (auto split: option.split) metis+
qed

lemma held_block [simp]:
  "p_held_sems (pcb_at (process_block pid s) k) = p_held_sems (pcb_at s k)"
  "p_held_sems (pcb_at (process_unblock pid s) k) = p_held_sems (pcb_at s k)"
  using pcb_at_block(1) [of pid s k] pcb_at_block(2) [of pid s k] by auto

lemma holders_block [simp]: "holders (process_block pid s) i = holders s i"
  "holders (process_unblock pid s) i = holders s i"
  by (rule holders_same [OF benign_process_block], simp) (rule holders_same [OF benign_process_unblock], simp)

lemma holders_upd_pcb:
  assumes "k < length (process_table s)" "p_state (f (pcb_at s k)) = p_state (pcb_at s k)"
  shows "holders (upd_pcb k f s) i =
    (if has_bit (p_held_sems (f (pcb_at s k))) i \<and> live s k then insert k (holders s i) else holders s i - {k})"
  using assms by (auto simp: holders_def holds_def live_upd_pcb pcb_at_upd live_def split: if_splits)

lemma holders_set:
  "live s k \<Longrightarrow> i < MAX_SEMS \<Longrightarrow> holders (upd_pcb k (set_held i) s) i = insert k (holders s i)"
  by (simp add: holders_upd_pcb live_less) (simp add: set_held_def)

lemma holders_clear:
  "k < length (process_table s) \<Longrightarrow> i < MAX_SEMS \<Longrightarrow> holders (upd_pcb k (clear_held i) s) i = holders s i - {k}"
  by (simp add: holders_upd_pcb) (simp add: clear_held_def)

lemma holders_other:
  assumes "k < length (process_table s)" "p_state (f (pcb_at s k)) = p_state (pcb_at s k)"
    "has_bit (p_held_sems (f (pcb_at s k))) i = has_bit (p_held_sems (pcb_at s k)) i"
  shows "holders (upd_pcb k f s) i = holders s i"
  using assms by (auto simp: holders_upd_pcb) (auto simp: holders_def holds_def)

lemma holders_hand_over:
  assumes "process_get s pid = Some k" "i < MAX_SEMS"
  shows "holders (hand_over i pid s) i = insert k (holders s i)"
  using process_get_Some [OF assms(1)] assms by (simp add: hand_over_def holders_set)

lemma holders_hand_over_other:
  assumes "j \<noteq> i" "j < MAX_SEMS"
  shows "holders (hand_over j pid s) i = holders s i"
proof (cases "process_get s pid")
  case (Some k)
  then have "k < length (process_table s)" using process_get_Some live_less by blast
  then show ?thesis using Some assms by (simp add: hand_over_def holders_other set_held_def)
qed (simp add: hand_over_def)

lemma waiter_get:
  assumes "table_inv s" "slot_ok (live_pids s) q" "0 < sm_open q" "pid \<in> set (items (sm_wait q))"
  obtains k where "process_get s pid = Some k" "live s k" "p_pid (pcb_at s k) = pid"
proof -
  have "pid \<in> live_pids s" using assms(2-4) by (auto simp: slot_ok_def)
  then obtain k where "live s k" "p_pid (pcb_at s k) = pid" by (auto simp: live_pids_def)
  with that table_inv_get [OF assms(1), of k] show thesis by simp
qed

subsection \<open>The invariant\<close>

definition units_inv :: "string \<Rightarrow> nat \<Rightarrow> nat \<Rightarrow> 'a semsys_scheme \<Rightarrow> bool" where
  "units_inv nm i v s \<longleftrightarrow> table_inv s \<and> sem_inv s \<and> i < MAX_SEMS \<and> find_sem s (Some nm) = Some i \<and>
     int (card (holders s i)) + max 0 (sm_value (sem_at s i)) = int v \<and>
     (\<forall>k\<in>holders s i. p_pid (pcb_at s k) \<notin> set (items (sm_wait (sem_at s i))))"

lemma units_invD:
  assumes "units_inv nm i v s"
  shows units_table: "table_inv s" and units_sem: "sem_inv s" and units_less: "i < MAX_SEMS"
    and units_find: "find_sem s (Some nm) = Some i"
    and units_count: "int (card (holders s i)) + max 0 (sm_value (sem_at s i)) = int v"
    and units_queue: "k \<in> holders s i \<Longrightarrow> p_pid (pcb_at s k) \<notin> set (items (sm_wait (sem_at s i)))"
  using assms by (auto simp: units_inv_def)

lemma units_slot: "units_inv nm i v s \<Longrightarrow> i < length (sem_table s) \<and> 0 < sm_open (sem_at s i) \<and> slot_ok (live_pids s) (sem_at s i)"
  using units_find find_sem_SomeD sem_inv_slot [OF units_sem] by metis

lemma find_sem_upd:
  assumes "find_sem s n = Some i" "\<And>q. sm_open (f q) = sm_open q" "\<And>q. sm_name (f q) = sm_name q"
  shows "find_sem (upd_sem i f s) n = Some i"
proof -
  have "first_idx (\<lambda>q. sm_open q > 0 \<and> sem_str_eq (Some (sm_name q)) n) (modify i f (sem_table s)) =
      first_idx (\<lambda>q. sm_open q > 0 \<and> sem_str_eq (Some (sm_name q)) n) (sem_table s)"
    by (rule first_idx_cong2) (auto simp: list_all2_conv_all_nth modify_def nth_list_update assms)
  then show ?thesis using assms(1) by (simp add: find_sem_def upd_sem_def)
qed

lemma find_sem_table: "sem_table t = sem_table s \<Longrightarrow> find_sem t n = find_sem s n"
  by (simp add: find_sem_def)

lemma sem_table_hand_over [simp]: "sem_table (hand_over i pid s) = sem_table s"
  by (simp add: hand_over_def split: option.split)

lemma pid_benign: "benign s t \<Longrightarrow> live s k \<Longrightarrow> p_pid (pcb_at t k) = p_pid (pcb_at s k)"
  using benign_pcb [of s t k] by (simp add: pcb_le_pid live_def)

lemma holders_live: "k \<in> holders s i \<Longrightarrow> live s k"
  by (simp add: holders_def holds_def)

lemma units_wait:
  assumes u: "units_inv nm i v s" and c: "current_process s = Some c" "live s c" and nh: "c \<notin> holders s i"
    and nq: "p_pid (pcb_at s c) \<notin> set (items (sm_wait (sem_at s i)))"
    and w: "sem_wait (Some nm) s = Some (r, s')"
  shows "units_inv nm i v s'"
proof -
  note f = units_find [OF u] and sl = units_slot [OF u] and ti = units_table [OF u]
  have len: "length (process_table s) = MAX_PROCESSES" by (rule table_inv_length [OF ti])
  have lk: "sm_lock (sem_at s i) = UNLOCKED" using sl by (simp add: slot_ok_def)
  from sem_inv_wait [OF units_sem [OF u] len c f nq] w have i': "sem_inv s'" and b: "benign s s'" by auto
  have ti': "table_inv s'" by (rule table_inv_benign [OF b ti])
  let ?pid = "p_pid (pcb_at s c)"
  note eq = w [unfolded sem_wait_eq [OF f lk c(1)]]
  have pid: "k \<in> holders s i \<Longrightarrow> p_pid (pcb_at s' k) = p_pid (pcb_at s k)" for k
    using pid_benign [OF b holders_live] by blast
  show ?thesis
  proof (cases "sm_value (sem_at s i) \<le> 0")
    case True
    then have s': "s' = process_block ?pid (upd_sem i (blocked ?pid) s)" using eq by simp
    have it: "items (sm_wait (blocked ?pid (sem_at s i))) = items (sm_wait (sem_at s i)) @ [?pid]"
      using slot_ok_blocked(2) [OF _ _ live_pids_finite live_pids_card [OF len] live_pid [OF c(2)] nq True] sl by blast
    have "find_sem s' (Some nm) = Some i"
      unfolding s' using find_sem_upd [OF f, of "blocked ?pid"] by (simp add: find_sem_table [of "process_block _ _"] blocked_def)
    moreover have "holders s' i = holders s i" "sm_value (sem_at s' i) = sm_value (sem_at s i) - 1"
      "sm_wait (sem_at s' i) = sm_wait (blocked ?pid (sem_at s i))"
      using sl by (simp_all add: s' sem_at_upd_sem blocked_def)
    moreover have "p_pid (pcb_at s k) \<noteq> ?pid" if "k \<in> holders s i" for k
      using that nh holders_live [OF that] c(2) table_inv_unique [OF ti] by (auto simp: pids_unique_def)
    ultimately show ?thesis
      using u ti' i' pid it True by (auto simp: units_inv_def)
  next
    case False
    then have s': "s' = upd_pcb c (set_held i) (upd_sem i taken s)" using eq by simp
    have "find_sem s' (Some nm) = Some i"
      unfolding s' using find_sem_upd [OF f, of taken] by (simp add: find_sem_table [of "upd_pcb _ _ _"] taken_def)
    moreover have "holders s' i = insert c (holders s i)"
      using c(2) units_less [OF u] by (simp add: s' holders_set)
    moreover have "sm_value (sem_at s' i) = sm_value (sem_at s i) - 1" "sm_wait (sem_at s' i) = sm_wait (sem_at s i)"
      using sl by (simp_all add: s' sem_at_upd_sem taken_def)
    moreover have "p_pid (pcb_at s' c) = ?pid" by (rule pid_benign [OF b c(2)])
    ultimately show ?thesis
      using u ti' i' pid nh nq False by (auto simp: units_inv_def)
  qed
qed

text \<open>A unit comes back from process \<open>c\<close>: it goes to the first waiter or becomes free.\<close>

lemma units_give_back:
  fixes s :: "'a semsys_scheme"
  assumes u: "units_inv nm i v s" and c: "c \<in> holders s i"
    and b: "benign s s'" and si: "sem_inv s'" and f: "find_sem s' (Some nm) = Some i"
    and h: "holders s' i = (if sm_value (sem_at s i) < 0 \<and> q_count (sm_wait (sem_at s i)) > 0
        then {k. process_get s (hd (items (sm_wait (sem_at s i)))) = Some k} \<union> (holders s i - {c}) else holders s i - {c})"
    and vl: "sm_value (sem_at s' i) = sm_value (sem_at s i) + 1"
    and it: "items (sm_wait (sem_at s' i)) = (if sm_value (sem_at s i) < 0 \<and> q_count (sm_wait (sem_at s i)) > 0
        then tl (items (sm_wait (sem_at s i))) else items (sm_wait (sem_at s i)))"
  shows "units_inv nm i v s'"
proof -
  note sl = units_slot [OF u] and ti = units_table [OF u]
  let ?q = "sem_at s i"
  have sl': "slot_ok (live_pids s) ?q" "0 < sm_open ?q" using sl by auto
  have ti': "table_inv s'" by (rule table_inv_benign [OF b ti])
  have pid: "live s k \<Longrightarrow> p_pid (pcb_at s' k) = p_pid (pcb_at s k)" for k by (rule pid_benign [OF b])
  have hpid: "k \<in> holders s i \<Longrightarrow> p_pid (pcb_at s' k) = p_pid (pcb_at s k)" for k by (rule pid [OF holders_live])
  have cnt: "int (q_count (sm_wait ?q)) = (if sm_value ?q < 0 then - sm_value ?q else 0)" and d: "distinct (items (sm_wait ?q))"
    using sl' by (simp_all add: slot_ok_def)
  show ?thesis
  proof (cases "sm_value ?q < 0")
    case True
    then have pos: "q_count (sm_wait ?q) > 0" using cnt by simp
    then obtain pd rest where pr: "items (sm_wait ?q) = pd # rest"
      by (metis items_eq_Nil list.exhaust not_gr_zero)
    then have "pd \<in> set (items (sm_wait ?q))" by simp
    from waiter_get [OF ti sl' this] obtain k where
      k: "process_get s pd = Some k" "live s k" "p_pid (pcb_at s k) = pd" by blast
    have kn: "k \<notin> holders s i" using units_queue [OF u, of k] k(3) pr by auto
    have hs: "holders s' i = insert k (holders s i - {c})" using h True pos pr k(1) by auto
    have card: "card (holders s' i) = card (holders s i)"
      unfolding hs using kn card_Suc_Diff1 [OF finite_holders c] by simp
    have "p_pid (pcb_at s m) \<notin> set rest" if "m \<in> insert k (holders s i - {c})" for m
      using that k(3) d pr units_queue [OF u, of m] by auto
    then have "\<forall>m\<in>holders s' i. p_pid (pcb_at s' m) \<notin> set (items (sm_wait (sem_at s' i)))"
      using it True pos pr hs pid [OF k(2)] hpid by auto
    then show ?thesis using u ti' si f card vl True by (simp add: units_inv_def)
  next
    case False
    then have "holders s' i = holders s i - {c}" "items (sm_wait (sem_at s' i)) = items (sm_wait ?q)" using h it by auto
    moreover have "int (card (holders s i - {c})) = int (card (holders s i)) - 1"
      using card_Suc_Diff1 [OF finite_holders c] by linarith
    ultimately show ?thesis
      using u ti' si f vl False hpid by (auto simp: units_inv_def)
  qed
qed

lemma units_post:
  assumes u: "units_inv nm i v s" and c: "current_process s = Some c" "c \<in> holders s i"
    and w: "sem_post (Some nm) s = Some (r, s')"
  shows "units_inv nm i v s'"
proof -
  note f = units_find [OF u] and sl = units_slot [OF u] and il = units_less [OF u]
  have lk: "sm_lock (sem_at s i) = UNLOCKED" and wf: "pidq_wf (sm_wait (sem_at s i))" using sl by (simp_all add: slot_ok_def)
  have lc: "c < length (process_table s)" by (rule live_less [OF holders_live [OF c(2)]])
  from sem_inv_post [OF units_sem [OF u] c(1) f] w have i': "sem_inv s'" and b: "benign s s'" by auto
  let ?q = "sem_at s i"
  note eq = w [unfolded sem_post_eq [OF f lk c(1)]]
  show ?thesis
  proof (rule units_give_back [OF u c(2) b i'])
    let ?b = "sm_value ?q < 0 \<and> q_count (sm_wait ?q) > 0"
    have s': "s' = (if ?b then hand_over i (hd (items (sm_wait ?q))) (upd_pcb c (clear_held i) (upd_sem i passed_on s))
        else upd_pcb c (clear_held i) (upd_sem i released s))"
      using eq queue_pop(2) [OF wf] by (cases ?b) auto
    show "find_sem s' (Some nm) = Some i"
      using find_sem_upd [OF f, of passed_on] find_sem_upd [OF f, of released] unfolding s'
      by (simp add: find_sem_table [of "upd_pcb _ _ _"] find_sem_table [of "hand_over _ _ _"] passed_on_def released_def)
    show "sm_value (sem_at s' i) = sm_value ?q + 1"
      using sl by (simp add: s' sem_at_upd_sem passed_on_def released_def)
    show "items (sm_wait (sem_at s' i)) = (if ?b then tl (items (sm_wait ?q)) else items (sm_wait ?q))"
      using sl queue_pop(3) [OF wf] by (simp add: s' sem_at_upd_sem passed_on_def released_def)
    let ?t = "upd_pcb c (clear_held i) (upd_sem i passed_on s)"
    have ht: "holders ?t i = holders s i - {c}" using lc il by (simp add: holders_clear)
    have pg: "process_get ?t pid = process_get s pid" for pid
      using benign_key [of "clear_held i" "upd_sem i passed_on s" c]
      by (intro benign_process_get) (simp add: benign_upd_sem_left)
    show "holders s' i = (if ?b then {k. process_get s (hd (items (sm_wait ?q))) = Some k} \<union> (holders s i - {c})
        else holders s i - {c})"
    proof (cases ?b)
      case True
      then have ne: "hd (items (sm_wait ?q)) \<in> set (items (sm_wait ?q))" by (intro hd_in_set) simp
      from waiter_get [OF units_table [OF u] _ _ ne] sl obtain k where k: "process_get s (hd (items (sm_wait ?q))) = Some k" by blast
      have "holders s' i = insert k (holders ?t i)"
        unfolding s' if_P [OF True] by (rule holders_hand_over) (simp_all add: pg k il)
      with True k ht show ?thesis by simp
    next
      case False
      then show ?thesis unfolding s' if_not_P [OF False] using lc il by (simp add: holders_clear)
    qed
  qed
qed

text \<open>Death of a process: the steps of the clean-up for the other semaphores do not matter.\<close>

lemma cleaned_other:
  assumes s: "sem_inv s" and p: "live s p" and j: "j < MAX_SEMS" "0 < sm_open (sem_at s j)" "j \<noteq> i"
  shows "holders (cleaned p pid j s) i = holders s i"
proof -
  have pl: "p < length (process_table s)" by (rule live_less [OF p])
  have bits: "has_bit (p_held_sems ((clear_held j \<circ> forget_open j) x)) i = has_bit (p_held_sems x) i" for x
    using j by (simp add: clear_held_def)
  have g: "holders (upd_pcb p (clear_held j \<circ> forget_open j) (upd_sem j f s)) i = holders s i" for f
    using pl j(1) by (simp add: holders_other bits [unfolded comp_apply])
  have k: "holders (upd_pcb p (forget_open j) (upd_sem j f s)) i = holders s i" for f
    using pl by (simp add: holders_other)
  show ?thesis
    using j by (simp add: cleaned_def Let_def g k holders_hand_over_other)
qed

lemma units_cleaned:
  assumes u: "units_inv nm i v s" and p: "process_get s pid = Some p"
    and f: "find_sem (cleaned p pid i s) (Some nm) = Some i"
  shows "units_inv nm i v (cleaned p pid i s)" "p \<notin> holders (cleaned p pid i s) i"
proof -
  note sl = units_slot [OF u] and il = units_less [OF u] and si = units_sem [OF u] and ti = units_table [OF u]
  let ?q = "sem_at s i" and ?c = "cleaned p pid i s" and ?d = "drop_open (has_bit (p_opened_sems (pcb_at s p)) i)"
  have lp: "live s p" and pp: "p_pid (pcb_at s p) = pid" using process_get_Some [OF p] by auto
  have pl: "p < length (process_table s)" by (rule live_less [OF lp])
  have wf: "pidq_wf (sm_wait ?q)" and d: "distinct (items (sm_wait ?q))"
    and cnt: "int (q_count (sm_wait ?q)) = (if sm_value ?q < 0 then - sm_value ?q else 0)"
    using sl by (simp_all add: slot_ok_def)
  note ok = cleaned_ok [OF si lp il, where pid = pid]
  have b: "benign s ?c" and i': "sem_inv ?c" using ok sl by auto
  have ti': "table_inv ?c" by (rule table_inv_benign [OF b ti])
  have hpid: "k \<in> holders s i \<Longrightarrow> p_pid (pcb_at ?c k) = p_pid (pcb_at s k)" for k
    by (rule pid_benign [OF b holders_live])
  let ?g = "\<lambda>f. upd_pcb p (clear_held i \<circ> forget_open i) (upd_sem i (?d \<circ> f) s)"
  have hg: "holders (?g f) i = holders s i - {p}" for f
  proof -
    have "\<not> has_bit (p_held_sems ((clear_held i \<circ> forget_open i) (pcb_at s p))) i"
      using il by (simp add: clear_held_def)
    then show ?thesis using pl by (simp add: holders_upd_pcb)
  qed
  have "units_inv nm i v ?c \<and> p \<notin> holders ?c i"
  proof (cases "p \<in> holders s i")
    case True
    then have nq: "pid \<notin> set (items (sm_wait ?q))" using units_queue [OF u True] pp by simp
    have hb: "has_bit (p_held_sems (pcb_at s p)) i" using True by (simp add: holders_def holds_def)
    let ?b = "sm_value ?q < 0 \<and> q_count (sm_wait ?q) > 0"
    have c: "?c = (if ?b then hand_over i (hd (items (sm_wait ?q))) (?g passed_on) else ?g released)"
      unfolding cleaned_def Let_def if_not_P [OF nq] if_P [OF hb] using queue_pop(2) [OF wf] by simp
    have vl: "sm_value (sem_at ?c i) = sm_value ?q + 1"
      using sl by (simp add: c sem_at_upd_sem passed_on_def released_def)
    have it: "items (sm_wait (sem_at ?c i)) = (if ?b then tl (items (sm_wait ?q)) else items (sm_wait ?q))"
      using sl queue_pop(3) [OF wf] by (simp add: c sem_at_upd_sem passed_on_def released_def)
    have pg: "process_get (?g passed_on) x = process_get s x" for x
      using benign_key [of "clear_held i \<circ> forget_open i" "upd_sem i (?d \<circ> passed_on) s" p]
      by (intro benign_process_get) (simp add: benign_upd_sem_left)
    have hs: "holders ?c i = (if ?b then {k. process_get s (hd (items (sm_wait ?q))) = Some k} \<union> (holders s i - {p})
        else holders s i - {p}) \<and> p \<notin> holders ?c i"
    proof (cases ?b)
      case b: True
      then have ne: "hd (items (sm_wait ?q)) \<in> set (items (sm_wait ?q))" by (intro hd_in_set) simp
      from waiter_get [OF ti _ _ ne] sl obtain k where
        k: "process_get s (hd (items (sm_wait ?q))) = Some k" "p_pid (pcb_at s k) = hd (items (sm_wait ?q))" by blast
      have "k \<noteq> p" using k(2) pp nq ne by auto
      moreover have "holders ?c i = insert k (holders (?g passed_on) i)"
        unfolding c if_P [OF b] by (rule holders_hand_over) (simp_all add: pg k il)
      then have "holders ?c i = insert k (holders s i - {p})" by (simp only: hg)
      ultimately show ?thesis using b k(1) by auto
    next
      case False
      then show ?thesis unfolding c if_not_P [OF False] by (auto simp: hg)
    qed
    have "units_inv nm i v ?c"
      by (rule units_give_back [OF u True b i' f _ vl it]) (use hs in simp)
    with conjunct2 [OF hs] show ?thesis by blast
  next
    case nh: False
    then have hb: "\<not> has_bit (p_held_sems (pcb_at s p)) i" using lp by (simp add: holders_def holds_def)
    show ?thesis
    proof (cases "pid \<in> set (items (sm_wait ?q))")
      case True
      then have "?c = ?g (dequeued pid)" by (simp add: cleaned_def)
      then have "holders ?c i = holders s i" "sm_value (sem_at ?c i) = sm_value ?q + 1"
        "items (sm_wait (sem_at ?c i)) = filter (\<lambda>x. x \<noteq> pid) (items (sm_wait ?q))"
        using sl hg nh queue_remove_pid(3) [OF wf, of pid] by (simp_all add: sem_at_upd_sem dequeued_def)
      moreover have "sm_value ?q < 0"
        using cnt True by (metis empty_iff items_eq_Nil list.set(1) of_nat_0_eq_iff)
      ultimately show ?thesis using u ti' i' f hpid nh by (auto simp: units_inv_def)
    next
      case False
      then have c: "?c = upd_pcb p (forget_open i) (upd_sem i ?d s)" using hb by (simp add: cleaned_def)
      then have "holders ?c i = holders s i" using pl by (simp add: holders_other)
      moreover have "sm_value (sem_at ?c i) = sm_value ?q" "sm_wait (sem_at ?c i) = sm_wait ?q"
        using sl by (simp_all add: c sem_at_upd_sem)
      ultimately show ?thesis using u ti' i' f hpid nh by (auto simp: units_inv_def)
    qed
  qed
  then show "units_inv nm i v ?c" "p \<notin> holders ?c i" by auto
qed

lemma cleaned_slot:
  assumes "j < length (sem_table s)"
  shows "sm_open (sem_at (cleaned p pid j s) i) \<le> sm_open (sem_at s i)"
    "sm_name (sem_at (cleaned p pid j s) i) = sm_name (sem_at s i)"
    "length (sem_table (cleaned p pid j s)) = length (sem_table s)"
  using assms
  by (simp_all add: cleaned_def Let_def sem_at_upd_sem drop_open_def dequeued_def passed_on_def released_def)

lemma find_sem_mono:
  assumes "find_sem s (Some nm) = Some i" "length (sem_table t) = length (sem_table s)" "0 < sm_open (sem_at t i)"
    and "\<And>j. sm_open (sem_at t j) \<le> sm_open (sem_at s j)" "\<And>j. sm_name (sem_at t j) = sm_name (sem_at s j)"
  shows "find_sem t (Some nm) = Some i"
proof -
  note d = first_idx_SomeD [OF assms(1) [unfolded find_sem_def]]
  have o: "0 < sm_open (sem_table t ! j) \<Longrightarrow> 0 < sm_open (sem_table s ! j)" for j
    using assms(4) [of j] by (simp add: sem_at_def)
  have n: "sm_name (sem_table t ! j) = sm_name (sem_table s ! j)" for j using assms(5) [of j] by (simp add: sem_at_def)
  show ?thesis
    unfolding find_sem_def
    by (rule first_idx_SomeI) (use d assms(2,3) o n in \<open>auto simp: sem_at_def\<close>)
qed

lemma cleanup_loop_slots:
  "sem_cleanup_loop p pid is s = Some s' \<Longrightarrow> sem_inv s \<Longrightarrow> live s p \<Longrightarrow> \<forall>j\<in>set is. j < MAX_SEMS \<Longrightarrow>
   sm_open (sem_at s' i) \<le> sm_open (sem_at s i)"
proof (induction "is" arbitrary: s)
  case (Cons j js)
  show ?case
  proof (cases "0 < sm_open (sem_at s j)")
    case True
    have j: "j < MAX_SEMS" using Cons.prems(4) by simp
    have jl: "j < length (sem_table s)" using Cons.prems(2) j by (simp add: sem_inv_def)
    note ok = cleaned_ok [OF Cons.prems(2,3) j True, where pid = pid]
    have "sem_cleanup_step p pid j s = Some (cleaned p pid j s)"
      using sem_inv_slot [OF Cons.prems(2) jl]
      by (intro sem_cleanup_step_eq [OF live_less [OF Cons.prems(3)] jl True]) (simp_all add: slot_ok_def)
    moreover have "live (cleaned p pid j s) p" using benign_live [OF ok(2)] Cons.prems(3) by simp
    ultimately have "sm_open (sem_at s' i) \<le> sm_open (sem_at (cleaned p pid j s) i)"
      using Cons.IH [OF _ ok(1)] Cons.prems(1,4) by simp
    also have "\<dots> \<le> sm_open (sem_at s i)" by (rule cleaned_slot(1) [OF jl])
    finally show ?thesis .
  next
    case False
    then show ?thesis using Cons by (simp add: sem_cleanup_step_def)
  qed
qed simp

lemma units_env:
  assumes u: "units_inv nm i v s" and b: "benign s t" and si: "sem_inv t" and at: "sem_at t i = sem_at s i"
    and f: "find_sem t (Some nm) = Some i" and h: "holders t i = holders s i"
  shows "units_inv nm i v t"
proof -
  have "k \<in> holders s i \<Longrightarrow> p_pid (pcb_at t k) = p_pid (pcb_at s k)" for k by (rule pid_benign [OF b holders_live])
  then show ?thesis using u si at f h table_inv_benign [OF b units_table [OF u]] by (auto simp: units_inv_def)
qed

lemma units_cleanup_loop:
  "sem_cleanup_loop p pid is s = Some s' \<Longrightarrow> units_inv nm i v s \<Longrightarrow> process_get s pid = Some p \<Longrightarrow>
   \<forall>j\<in>set is. j < MAX_SEMS \<Longrightarrow> 0 < sm_open (sem_at s' i) \<Longrightarrow>
   units_inv nm i v s' \<and> process_get s' pid = Some p \<and> (i \<in> set is \<or> p \<notin> holders s i \<longrightarrow> p \<notin> holders s' i)"
proof (induction "is" arbitrary: s)
  case (Cons j js)
  note u = Cons.prems(2) and p = Cons.prems(3)
  have lp: "live s p" using process_get_Some [OF p] by simp
  have j: "j < MAX_SEMS" using Cons.prems(4) by simp
  have jl: "j < length (sem_table s)" using units_sem [OF u] j by (simp add: sem_inv_def)
  show ?case
  proof (cases "0 < sm_open (sem_at s j)")
    case True
    let ?c = "cleaned p pid j s"
    note ok = cleaned_ok [OF units_sem [OF u] lp j True, where pid = pid]
    have "sem_cleanup_step p pid j s = Some ?c"
      using sem_inv_slot [OF units_sem [OF u] jl]
      by (intro sem_cleanup_step_eq [OF live_less [OF lp] jl True]) (simp_all add: slot_ok_def)
    then have run: "sem_cleanup_loop p pid js ?c = Some s'" using Cons.prems(1) by simp
    have pc: "process_get ?c pid = Some p" using benign_process_get [OF ok(2)] p by simp
    have "live ?c p" using benign_live [OF ok(2)] lp by simp
    from cleanup_loop_slots [OF run ok(1) this, of i] Cons.prems(4,5) have oc: "0 < sm_open (sem_at ?c i)" by simp
    have f: "find_sem ?c (Some nm) = Some i"
      by (rule find_sem_mono [OF units_find [OF u] _ oc]) (rule cleaned_slot [OF jl])+
    have uc: "units_inv nm i v ?c \<and> (j = i \<or> p \<notin> holders s i \<longrightarrow> p \<notin> holders ?c i)"
    proof (cases "j = i")
      case True
      then show ?thesis using units_cleaned [OF u p] f by simp
    next
      case False
      have h: "holders ?c i = holders s i" by (rule cleaned_other [OF units_sem [OF u] lp j True False])
      then show ?thesis using units_env [OF u ok(2,1) ok(3) f h] False by simp
    qed
    then show ?thesis using Cons.IH [OF run _ pc _ Cons.prems(5)] Cons.prems(4) by auto
  next
    case False
    then have "j \<noteq> i" using units_slot [OF u] by auto
    then show ?thesis using False Cons by (simp add: sem_cleanup_step_def)
  qed
qed simp

lemma units_die:
  assumes u: "units_inv nm i v s" and d: "sem_cleanup_for_process pid s = Some s'"
    and f: "find_sem s' (Some nm) = Some i"
  shows "units_inv nm i v s'" "process_get s pid = Some p \<Longrightarrow> p \<notin> holders s' i"
proof -
  have "units_inv nm i v s' \<and> (\<forall>p. process_get s pid = Some p \<longrightarrow> p \<notin> holders s' i)"
  proof (cases "process_get s pid")
    case None
    then show ?thesis using u d by (simp add: sem_cleanup_for_process_def)
  next
    case (Some p)
    have ns: "no_sems = (\<lambda>x. x\<lparr>p_held_sems := 0, p_opened_sems := 0\<rparr>)" by (simp add: fun_eq_iff no_sems_def)
    from d Some obtain t where t: "sem_cleanup_loop p pid [0..<MAX_SEMS] s = Some t" "s' = upd_pcb p no_sems t"
      by (auto simp: sem_cleanup_for_process_def ns simp del: upt_Suc)
    have o: "0 < sm_open (sem_at t i)" using find_sem_SomeD [OF f] by (simp add: t(2))
    have il: "i \<in> set [0..<MAX_SEMS]" using units_less [OF u] by simp
    from units_cleanup_loop [OF t(1) u Some _ o] il have
      ut: "units_inv nm i v t" "process_get t pid = Some p" "p \<notin> holders t i" by auto
    have b: "benign t s'" unfolding t(2) by (rule benign_key) (simp_all add: no_sems_def pcb_key_def)
    have pl: "p < length (process_table t)" using process_get_Some [OF ut(2)] live_less by blast
    have h: "holders s' i = holders t i"
      using ut(3) pl by (simp add: t(2) holders_upd_pcb no_sems_def)
    have si: "sem_inv s'" by (rule sem_inv_same [OF units_sem [OF ut(1)] b]) (simp_all add: t(2))
    have "units_inv nm i v s'" by (rule units_env [OF ut(1) b si _ f h]) (simp add: t(2))
    with h ut(3) Some show ?thesis by simp
  qed
  then show "units_inv nm i v s'" "process_get s pid = Some p \<Longrightarrow> p \<notin> holders s' i" by auto
qed

text \<open>Opening and closing change the number of users, and bits of the caller that do not make it a holder.\<close>

lemma units_cong:
  assumes u: "units_inv nm i v s" and b: "benign s t" and si: "sem_inv t" and f: "find_sem t (Some nm) = Some i"
    and at: "sm_value (sem_at t i) = sm_value (sem_at s i)" "sm_wait (sem_at t i) = sm_wait (sem_at s i)"
    and h: "holders t i = holders s i"
  shows "units_inv nm i v t"
proof -
  have "k \<in> holders s i \<Longrightarrow> p_pid (pcb_at t k) = p_pid (pcb_at s k)" for k by (rule pid_benign [OF b holders_live])
  then show ?thesis using u si at f h table_inv_benign [OF b units_table [OF u]] by (auto simp: units_inv_def)
qed

lemma holders_upd_current_other:
  assumes "\<And>p. p_state (g p) = p_state p" "\<And>p. has_bit (p_held_sems (g p)) i = has_bit (p_held_sems p) i"
  shows "holders (upd_current g s) i = holders s i"
proof (cases "current_process s")
  case (Some c)
  show ?thesis
  proof (cases "c < length (process_table s)")
    case True
    show ?thesis unfolding upd_current_Some [OF Some] by (rule holders_other [OF True]) (simp_all add: assms)
  qed (simp add: upd_current_Some [OF Some] upd_pcb_def modify_def holders_def holds_def live_def pcb_at_def)
qed (simp add: upd_current_def process_current_def)

lemma holders_upd_current_not:
  assumes "\<And>p. p_state (g p) = p_state p" "\<And>p. \<not> has_bit (p_held_sems (g p)) i" "\<forall>c. current_process s = Some c \<longrightarrow> c \<notin> holders s i"
  shows "holders (upd_current g s) i = holders s i"
proof (cases "current_process s")
  case (Some c)
  show ?thesis
  proof (cases "c < length (process_table s)")
    case True
    show ?thesis using assms(3) Some by (simp add: upd_current_Some [OF Some] holders_upd_pcb [OF True] assms(1,2))
  qed (simp add: upd_current_Some [OF Some] upd_pcb_def modify_def holders_def holds_def live_def pcb_at_def)
qed (simp add: upd_current_def process_current_def)

lemma holders_opened: "holders (snd (sem_opened j s)) i = holders s i"
  by (simp add: sem_opened_def holders_upd_current_other)

lemma sem_opened_sem [simp]: "sem_table (snd (sem_opened j s)) = sem_table s" "sem_at (snd (sem_opened j s)) i = sem_at s i"
  by (simp_all add: sem_opened_def sem_at_def)

lemma units_open:
  assumes u: "units_inv nm i v s" and w: "0 \<le> sint w" and op: "sem_open (Some n) w s = (r, t)" and f: "find_sem t (Some nm) = Some i"
  shows "units_inv nm i v t"
proof -
  note sl = units_slot [OF u]
  have t: "t = snd (sem_open (Some n) w s)" using op by simp
  have "sm_value (sem_at t i) = sm_value (sem_at s i) \<and> sm_wait (sem_at t i) = sm_wait (sem_at s i) \<and> holders t i = holders s i"
  proof (cases "find_sem s (Some n)")
    case (Some j)
    then have "j < length (sem_table s)" using find_sem_SomeD by blast
    then show ?thesis by (simp add: t sem_open_def Some holders_opened sem_at_upd_sem)
  next
    case None
    show ?thesis
    proof (cases "first_idx (\<lambda>q. sm_open q = 0) (sem_table s)")
      case (Some j)
      have "j < length (sem_table s)" "j \<noteq> i" using first_idx_SomeD [OF Some] sl by (auto simp: sem_at_def)
      then show ?thesis using None Some by (simp add: t sem_open_def holders_opened sem_at_upd_sem)
    qed (simp only: t sem_open_def None, simp)
  qed
  then show ?thesis using units_cong [OF u _ _ f] sem_inv_open [OF units_sem [OF u] w, of n] t by simp
qed

lemma units_close:
  assumes u: "units_inv nm i v s" and c: "\<forall>c. current_process s = Some c \<longrightarrow> c \<notin> holders s i"
    and cl: "sem_close (Some n) s = (r, t)" and f: "find_sem t (Some nm) = Some i"
  shows "units_inv nm i v t"
proof -
  have t: "t = snd (sem_close (Some n) s)" using cl by simp
  have o: "0 < sm_open (sem_at t i)" using find_sem_SomeD [OF f] by simp
  have "sm_value (sem_at t i) = sm_value (sem_at s i) \<and> sm_wait (sem_at t i) = sm_wait (sem_at s i) \<and> holders t i = holders s i"
  proof (cases "find_sem s (Some n)")
    case (Some j)
    then have j: "j < length (sem_table s)" using find_sem_SomeD by blast
    then have j32: "j < MAX_SEMS" using units_sem [OF u] by (simp add: sem_inv_def)
    let ?g = "\<lambda>p. p\<lparr>p_held_sems := p_held_sems p AND NOT (sem_bit j), p_opened_sems := p_opened_sems p AND NOT (sem_bit j)\<rparr>"
    have h: "holders (upd_current ?g s) i = holders s i"
    proof (cases "j = i")
      case True
      then show ?thesis using j32 by (intro holders_upd_current_not [OF _ _ c]) simp_all
    next
      case False
      then show ?thesis using j32 by (intro holders_upd_current_other) auto
    qed
    have "holders t i = holders s i" by (simp add: t sem_close_def Some Let_def h)
    moreover have "sm_value (sem_at t i) = sm_value (sem_at s i) \<and> sm_wait (sem_at t i) = sm_wait (sem_at s i)"
      using o j by (cases "j = i") (simp_all add: t sem_close_def Some Let_def sem_at_upd_sem split: if_splits)
    ultimately show ?thesis by simp
  qed (simp add: t sem_close_def)
  then show ?thesis using units_cong [OF u _ _ f] sem_inv_close [OF units_sem [OF u], of "Some n"] t by simp
qed

end
