(* ===== verification/Sem_Props.thy ===== *)
theory Sem_Props
  imports Sem_Mutex Sched_Props
begin

text \<open>
  The properties of the semaphores: what wait and post do, that every operation returns and
  keeps the invariant, mutual exclusion under disciplined use with processes dying at any
  moment, first-come first-served wake-up, clean-up after death, and the names that are
  accepted but can never be found again.
\<close>

definition demo_sem :: semsys where
  "demo_sem = ssys.extend demo_s \<lparr>sem_table =
     replicate MAX_SEMS \<lparr>sm_name = [], sm_value = 0, sm_wait = empty_pidq, sm_open = 0, sm_lock = UNLOCKED\<rparr>\<rparr>"

lemma demo_sem_fields:
  "process_table demo_sem = demo_table" "current_process demo_sem = Some 1" "next_pid demo_sem = 3"
  "force_switch demo_sem = False" "length (sem_table demo_sem) = 32"
  by (simp_all add: demo_sem_def demo_s_def ssys.defs psys.defs)

lemma demo_sem_at: "i < 32 \<Longrightarrow> sem_at demo_sem i =
    \<lparr>sm_name = [], sm_value = 0, sm_wait = empty_pidq, sm_open = 0, sm_lock = UNLOCKED\<rparr>"
  by (simp add: sem_at_def demo_sem_def ssys.defs)

lemma demo_sem_inv: "sem_inv demo_sem"
  by (simp add: sem_inv_def demo_sem_fields demo_sem_at slot_ok_def)

lemma demo_sem_table_inv: "table_inv demo_sem"
  by (rule demo_table_inv) (simp_all add: demo_sem_fields)

lemma demo_sem_live: "live demo_sem 1" "live demo_sem 2" "p_pid (pcb_at demo_sem 1) = 2" "p_pid (pcb_at demo_sem 2) = 3"
  by (simp_all add: demo_live demo_sem_fields pcb_at_def demo_table_nth demo_pcb_def zero_pcb_def)

text \<open>The state with one open semaphore ''m'' of value 1.\<close>

definition demo_open :: semsys where
  "demo_open = snd (sem_open (Some ''m'') 1 demo_sem)"

lemma demo_open_eq: "demo_open =
  upd_pcb 1 (\<lambda>p. p\<lparr>p_opened_sems := p_opened_sems p OR sem_bit 0\<rparr>) (upd_sem 0 (sem_open_slot (Some ''m'') 1) demo_sem)"
proof -
  have n: "\<not> sm_open (sem_table demo_sem ! i) > 0" "sm_open (sem_table demo_sem ! i) = 0" if "i < 32" for i
    using demo_sem_at [OF that] by (simp_all add: sem_at_def)
  have "find_sem demo_sem (Some ''m'') = None"
    using n demo_sem_fields(5) by (auto simp: find_sem_def in_set_conv_nth)
  moreover have "first_idx (\<lambda>q. sm_open q = 0) (sem_table demo_sem) = Some 0"
    by (rule first_idx_SomeI) (use n demo_sem_fields(5) in auto)
  ultimately show ?thesis
    by (simp add: demo_open_def sem_open_def sem_opened_def upd_current_def process_current_def demo_sem_fields)
qed

lemma demo_open_ok: "sem_inv demo_open" "benign demo_sem demo_open" "table_inv demo_open"
  "current_process demo_open = Some 1" "live demo_open 1" "live demo_open 2"
  "find_sem demo_open (Some ''m'') = Some 0"
  "sem_at demo_open 0 = \<lparr>sm_name = ''m'', sm_value = 1, sm_wait = empty_pidq, sm_open = 1, sm_lock = UNLOCKED\<rparr>"
proof -
  have v: "0 \<le> sint (1::u64)" by simp
  show b: "benign demo_sem demo_open" "sem_inv demo_open"
    unfolding demo_open_def by (rule sem_inv_open [OF demo_sem_inv v])+
  show "table_inv demo_open" by (rule table_inv_benign [OF b(1) demo_sem_table_inv])
  show "current_process demo_open = Some 1" using benign_current [OF b(1)] demo_sem_fields by simp
  show "live demo_open 1" "live demo_open 2" using benign_live [OF b(1)] demo_sem_live by simp_all
  have nm: "sem_str_copy (Some ''m'') 32 = ''m''" by (simp add: sem_str_copy_Some cstr_def)
  have e: "empty_pidq\<lparr>q_head := 0, q_tail := 0, q_count := 0\<rparr> = empty_pidq" by (simp add: empty_pidq_def)
  show at: "sem_at demo_open 0 = \<lparr>sm_name = ''m'', sm_value = 1, sm_wait = empty_pidq, sm_open = 1, sm_lock = UNLOCKED\<rparr>"
    by (simp add: demo_open_eq sem_at_upd_sem demo_sem_fields demo_sem_at sem_open_slot_def nm e)
  show "find_sem demo_open (Some ''m'') = Some 0"
    unfolding find_sem_def
    by (rule first_idx_SomeI) (use at in \<open>simp_all add: demo_open_eq demo_sem_fields sem_at_def\<close>)
qed

subsection \<open>Every operation returns\<close>





text \<open>The locks alone, whatever the rest of the table looks like.\<close>

definition locks_free :: "'a semsys_scheme \<Rightarrow> bool" where
  "locks_free s \<longleftrightarrow> length (sem_table s) = MAX_SEMS \<and> (\<forall>i<MAX_SEMS. sm_lock (sem_at s i) = UNLOCKED)"

text \<open>The lock of \<open>i\<close> may be taken, all others are free.\<close>

definition others_free :: "nat \<Rightarrow> 'a semsys_scheme \<Rightarrow> bool" where
  "others_free i s \<longleftrightarrow> length (sem_table s) = MAX_SEMS \<and> (\<forall>j<MAX_SEMS. j \<noteq> i \<longrightarrow> sm_lock (sem_at s j) = UNLOCKED)"


lemma others_free_upd [simp]:
  "others_free i (upd_sem i f s) = others_free i s" "others_free i (upd_pcb k g s) = others_free i s"
  "others_free i (upd_current g s) = others_free i s"
  by (cases "i < length (sem_table s)";
      auto simp: others_free_def sem_at_upd_sem upd_sem_def upd_pcb_def sem_at_def upd_current_def modify_def split: option.split)+


lemma locks_free_rest [simp]:
  "locks_free (process_block pid s) = locks_free s" "locks_free (process_unblock pid s) = locks_free s"
  "locks_free (upd_pcb k g s) = locks_free s" "locks_free (upd_current g s) = locks_free s"
  by (simp_all add: locks_free_def)








subsection \<open>Wait and post\<close>

text \<open>C11: \<open>sem_wait\<close> by a running process takes a unit if the value is positive, and the process
  goes on as its holder; otherwise the process joins the end of the queue, becomes BLOCKED and
  the CPU is given up at the end of the system call. The value drops by one either way, the
  other semaphores and the other processes are not touched.\<close>

theorem sem_wait_spec:
  assumes "sem_inv s" "table_inv s" "current_process s = Some c" "p_state (pcb_at s c) = PROCESS_RUNNING"
    "find_sem s (Some nm) = Some i" "p_pid (pcb_at s c) \<notin> set (items (sm_wait (sem_at s i)))"
  shows "\<exists>s'. sem_wait (Some nm) s = Some (0, s') \<and>
    sm_value (sem_at s' i) = sm_value (sem_at s i) - 1 \<and>
    (if 0 < sm_value (sem_at s i)
     then items (sm_wait (sem_at s' i)) = items (sm_wait (sem_at s i)) \<and>
       pcb_at s' c = set_held i (pcb_at s c) \<and> force_switch s' = force_switch s
     else items (sm_wait (sem_at s' i)) = items (sm_wait (sem_at s i)) @ [p_pid (pcb_at s c)] \<and>
       pcb_at s' c = (pcb_at s c)\<lparr>p_state := PROCESS_BLOCKED\<rparr> \<and> force_switch s') \<and>
    (\<forall>j. j \<noteq> i \<longrightarrow> sem_at s' j = sem_at s j) \<and> (\<forall>k. k \<noteq> c \<longrightarrow> pcb_at s' k = pcb_at s k)"
proof -
  note len = table_inv_length [OF assms(2)]
  have cl: "c < MAX_PROCESSES" by (rule table_inv_current [OF assms(2,3)])
  then have lc: "live s c" using len assms(4) by (simp add: live_def)
  from find_sem_SomeD [OF assms(5)] have i: "i < length (sem_table s)" "0 < sm_open (sem_at s i)" by auto
  note sl = sem_inv_slot [OF assms(1) i(1)]
  have lk: "sm_lock (sem_at s i) = UNLOCKED" by (rule sem_inv_lock [OF assms(1) i(1)])
  note eq = sem_wait_eq [OF assms(5) lk assms(3)]
  show ?thesis
  proof (cases "0 < sm_value (sem_at s i)")
    case True
    then show ?thesis
      unfolding eq using i cl len by (simp add: sem_at_upd_sem taken_def pcb_at_upd)
  next
    case False
    let ?pid = "p_pid (pcb_at s c)"
    let ?u = "upd_sem i (blocked ?pid) s"
    have g: "process_get ?u ?pid = Some c" using table_inv_get [OF assms(2) lc] by simp
    have pb: "process_block ?pid ?u = upd_pcb c (\<lambda>p. p\<lparr>p_state := PROCESS_BLOCKED\<rparr>) ?u\<lparr>force_switch := True\<rparr>"
      using assms(3,4) unfolding process_block_def g Let_def by (simp add: upd_pcb_def)
    have "items (sm_wait (blocked ?pid (sem_at s i))) = items (sm_wait (sem_at s i)) @ [?pid]"
      by (rule slot_ok_blocked(2) [OF sl i(2) live_pids_finite live_pids_card [OF len] live_pid [OF lc] assms(6)])
        (use False in simp)
    then have "sm_value (sem_at (process_block ?pid ?u) i) = sm_value (sem_at s i) - 1 \<and>
      items (sm_wait (sem_at (process_block ?pid ?u) i)) = items (sm_wait (sem_at s i)) @ [?pid] \<and>
      (\<forall>j. j \<noteq> i \<longrightarrow> sem_at (process_block ?pid ?u) j = sem_at s j)"
      using i by (simp add: sem_at_upd_sem) (simp add: blocked_def)
    moreover have "pcb_at (process_block ?pid ?u) k = (if k = c then (pcb_at s c)\<lparr>p_state := PROCESS_BLOCKED\<rparr> else pcb_at s k)" for k
    proof -
      have "pcb_at (upd_pcb c (\<lambda>p. p\<lparr>p_state := PROCESS_BLOCKED\<rparr>) ?u\<lparr>force_switch := True\<rparr>) k =
          pcb_at (upd_pcb c (\<lambda>p. p\<lparr>p_state := PROCESS_BLOCKED\<rparr>) ?u) k" by (simp add: pcb_at_def upd_pcb_def)
      then show ?thesis unfolding pb using cl len by (simp add: pcb_at_upd)
    qed
    moreover have "force_switch (process_block ?pid ?u)" unfolding pb by (simp add: upd_pcb_def)
    moreover have "sem_wait (Some nm) s = Some (0, process_block ?pid ?u)" unfolding eq using False by simp
    ultimately show ?thesis using False by (intro exI [of _ "process_block ?pid ?u"]) simp
  qed
qed

theorem sem_wait_spec_witness:
  "\<exists>s'. sem_wait (Some ''m'') demo_open = Some (0, s') \<and> sm_value (sem_at s' 0) = 0"
proof -
  have "p_state (pcb_at demo_open 1) = PROCESS_RUNNING"
    by (simp add: demo_open_eq pcb_at_upd demo_sem_fields)
      (simp add: pcb_at_def demo_sem_fields demo_table_nth demo_pcb_def)
  from sem_wait_spec [OF demo_open_ok(1,3,4) this demo_open_ok(7)] show ?thesis by (auto simp: demo_open_ok)
qed

text \<open>The process that is handed the unit holds it and can run.\<close>

lemma hand_over_wakes:
  assumes k: "process_get s pid = Some k" and c: "c < length (process_table s)" and i: "i < MAX_SEMS"
  defines "p \<equiv> upd_pcb c (clear_held i) (upd_sem i passed_on s)"
  shows "holders (hand_over i pid p) i = insert k (holders s i - {c})"
    "p_state (pcb_at (hand_over i pid p) k) = (if p_state (pcb_at s k) = PROCESS_BLOCKED then PROCESS_READY else p_state (pcb_at s k))"
proof -
  have bp: "benign s p" using benign_key [of "clear_held i" "upd_sem i passed_on s" c] by (simp add: p_def benign_upd_sem_left)
  have gp: "process_get p pid = Some k" using benign_process_get [OF bp] k by simp
  show "holders (hand_over i pid p) i = insert k (holders s i - {c})"
    using holders_hand_over [OF gp i] i c by (simp add: p_def holders_clear)
  have kl: "k < length (process_table s)" using process_get_Some [OF k] live_less by blast
  have st: "p_state (pcb_at p k) = p_state (pcb_at s k)" using c by (simp add: p_def pcb_at_upd)
  let ?h = "upd_pcb k (set_held i) p"
  have "benign p ?h" by (rule benign_key) simp_all
  from benign_process_get [OF this] gp have gh: "process_get ?h pid = Some k" by simp
  have "p_state (pcb_at (process_unblock pid ?h) k) = (if p_state (pcb_at s k) = PROCESS_BLOCKED then PROCESS_READY else p_state (pcb_at s k))"
    using kl st unfolding process_unblock_def gh by (simp add: p_def pcb_at_upd Let_def split: option.split)
  then show "p_state (pcb_at (hand_over i pid p) k) = (if p_state (pcb_at s k) = PROCESS_BLOCKED then PROCESS_READY else p_state (pcb_at s k))"
    by (simp add: hand_over_def gp)
qed

text \<open>C12: \<open>sem_post\<close> gives up the caller's unit. If processes are waiting, the one that has
  waited longest leaves the queue, holds the unit from now on and is READY again; otherwise the
  unit becomes free. The value rises by one either way.\<close>

theorem sem_post_spec:
  assumes "sem_inv s" "table_inv s" "current_process s = Some c" "live s c" "find_sem s (Some nm) = Some i"
  shows "\<exists>s'. sem_post (Some nm) s = Some (0, s') \<and>
    sm_value (sem_at s' i) = sm_value (sem_at s i) + 1 \<and> (\<forall>j. j \<noteq> i \<longrightarrow> sem_at s' j = sem_at s j) \<and>
    (case items (sm_wait (sem_at s i)) of
       [] \<Rightarrow> items (sm_wait (sem_at s' i)) = [] \<and> holders s' i = holders s i - {c}
     | pid # rest \<Rightarrow> items (sm_wait (sem_at s' i)) = rest \<and>
         (\<exists>k. process_get s pid = Some k \<and> holders s' i = insert k (holders s i - {c}) \<and>
           p_state (pcb_at s' k) = (if p_state (pcb_at s k) = PROCESS_BLOCKED then PROCESS_READY else p_state (pcb_at s k))))"
proof -
  from find_sem_SomeD [OF assms(5)] have i: "i < length (sem_table s)" "0 < sm_open (sem_at s i)" by auto
  note sl = sem_inv_slot [OF assms(1) i(1)]
  have i32: "i < MAX_SEMS" using assms(1) i by (simp add: sem_inv_def)
  have cl: "c < length (process_table s)" by (rule live_less [OF assms(4)])
  have lk: "sm_lock (sem_at s i) = UNLOCKED" by (rule sem_inv_lock [OF assms(1) i(1)])
  note eq = sem_post_eq [OF assms(5) lk assms(3)]
  have wf: "pidq_wf (sm_wait (sem_at s i))"
    and cnt: "int (q_count (sm_wait (sem_at s i))) = (if sm_value (sem_at s i) < 0 then - sm_value (sem_at s i) else 0)"
    using sl i by (simp_all add: slot_ok_def)
  show ?thesis
  proof (cases "items (sm_wait (sem_at s i))")
    case Nil
    then have z: "q_count (sm_wait (sem_at s i)) = 0" by simp
    let ?s = "upd_pcb c (clear_held i) (upd_sem i released s)"
    have e: "sem_post (Some nm) s = Some (0, ?s)" unfolding eq using z by simp
    have h: "holders ?s i = holders s i - {c}" using cl i32 by (simp add: holders_clear)
    show ?thesis unfolding Nil list.case
      using e h i z by (intro exI [of _ ?s]) (simp add: sem_at_upd_sem released_def)
  next
    case (Cons pid rest)
    then have pos: "0 < q_count (sm_wait (sem_at s i))" by (metis items_eq_Nil list.distinct(1) neq0_conv)
    then have neg: "sm_value (sem_at s i) < 0" using cnt by (simp split: if_splits)
    note pop = queue_pop [OF wf pos, unfolded Cons list.sel]
    have "pid \<in> set (items (sm_wait (sem_at s i)))" using Cons by simp
    from waiter_get [OF assms(2) sl i(2) this] obtain k where k: "process_get s pid = Some k" by blast
    let ?s = "hand_over i pid (upd_pcb c (clear_held i) (upd_sem i passed_on s))"
    note h = hand_over_wakes [OF k cl i32]
    have e: "sem_post (Some nm) s = Some (0, ?s)" unfolding eq using neg pos pop by simp
    have it: "items (sm_wait (sem_at ?s i)) = rest" using i pop by (simp add: sem_at_upd_sem passed_on_def)
    show ?thesis using e h k i it Cons by (intro exI [of _ ?s]) (simp add: sem_at_upd_sem passed_on_def)
  qed
qed

theorem sem_post_spec_witness:
  "\<exists>s'. sem_post (Some ''m'') demo_open = Some (0, s') \<and> sm_value (sem_at s' 0) = 2"
  using sem_post_spec [OF demo_open_ok(1,3,4,5,7)] by (auto simp: demo_open_ok)

subsection \<open>Mutual exclusion\<close>

text \<open>What the rest of the kernel may do between two operations on semaphore \<open>i\<close>: anything that
  keeps its value and its queue, keeps the tables in good order, keeps its holders and its waiters
  alive under their PIDs, and makes nobody a holder. Other semaphores, processes and pipes may come and go.\<close>

definition env_step :: "string \<Rightarrow> nat \<Rightarrow> 'a semsys_scheme \<Rightarrow> 'a semsys_scheme \<Rightarrow> bool" where
  "env_step nm i s t \<longleftrightarrow> sm_value (sem_at t i) = sm_value (sem_at s i) \<and> sm_wait (sem_at t i) = sm_wait (sem_at s i) \<and>
     find_sem t (Some nm) = Some i \<and> sem_inv t \<and> table_inv t \<and>
     holders t i = holders s i \<and> (\<forall>k\<in>holders s i. p_pid (pcb_at t k) = p_pid (pcb_at s k))"

inductive sem_run :: "string \<Rightarrow> nat \<Rightarrow> nat \<Rightarrow> 'a semsys_scheme \<Rightarrow> bool" for nm :: string and i :: nat and v :: nat where
  created: "\<lbrakk>table_inv s; sem_inv s; find_sem s (Some nm) = Some i; sm_value (sem_at s i) = int v; holders s i = {}\<rbrakk> \<Longrightarrow>
    sem_run nm i v s"
| env: "\<lbrakk>sem_run nm i v s; env_step nm i s t\<rbrakk> \<Longrightarrow> sem_run nm i v t"
| wait: "\<lbrakk>sem_run nm i v s; current_process s = Some c; live s c; c \<notin> holders s i;
    p_pid (pcb_at s c) \<notin> set (items (sm_wait (sem_at s i))); sem_wait (Some nm) s = Some (r, t)\<rbrakk> \<Longrightarrow> sem_run nm i v t"
| post: "\<lbrakk>sem_run nm i v s; current_process s = Some c; c \<in> holders s i; sem_post (Some nm) s = Some (r, t)\<rbrakk> \<Longrightarrow>
    sem_run nm i v t"
| die: "\<lbrakk>sem_run nm i v s; sem_cleanup_for_process pid s = Some t; find_sem t (Some nm) = Some i\<rbrakk> \<Longrightarrow> sem_run nm i v t"
| opens: "\<lbrakk>sem_run nm i v s; 0 \<le> sint w; sem_open (Some n) w s = (r, t); find_sem t (Some nm) = Some i\<rbrakk> \<Longrightarrow> sem_run nm i v t"
| closes: "\<lbrakk>sem_run nm i v s; \<forall>c. current_process s = Some c \<longrightarrow> c \<notin> holders s i; sem_close (Some n) s = (r, t);
    find_sem t (Some nm) = Some i\<rbrakk> \<Longrightarrow> sem_run nm i v t"

lemma sem_run_units: "sem_run nm i v s \<Longrightarrow> units_inv nm i v s"
proof (induction rule: sem_run.induct)
  case (created s)
  then have "i < MAX_SEMS" using find_sem_SomeD by (fastforce simp: sem_inv_def)
  with created show ?case by (simp add: units_inv_def)
next
  case (env s t)
  then show ?case by (simp add: env_step_def units_inv_def)
qed (blast intro: units_wait units_post units_die units_open units_close)+

text \<open>C13: Mutual exclusion. However waits, posts, opens, closes and deaths of processes interleave with whatever the rest
  of the kernel does to other objects, never more than the initial value of processes hold the semaphore at a time; a holder is
  never also queued, and when somebody is queued all units are held. With initial value 1 the
  semaphore is a mutex, also when holders or waiters are killed. The processes keep to this discipline, which the code does not
  check: they wait only when they neither hold the semaphore nor stand in its queue, post only when they hold it,
  do not close a semaphore while they hold this one, and open with initial values that are not negative. The run lasts
  as long as the semaphore is in use, that is found under its name.\<close>

theorem sem_mutual_exclusion:
  assumes "sem_run nm i v s"
  shows "card (holders s i) \<le> v \<and>
    (\<forall>k\<in>holders s i. p_pid (pcb_at s k) \<notin> set (items (sm_wait (sem_at s i)))) \<and>
    (items (sm_wait (sem_at s i)) \<noteq> [] \<longrightarrow> card (holders s i) = v)"
proof -
  note u = sem_run_units [OF assms]
  have c: "int (q_count (sm_wait (sem_at s i))) = (if sm_value (sem_at s i) < 0 then - sm_value (sem_at s i) else 0)"
    using units_slot [OF u] by (simp add: slot_ok_def)
  have "card (holders s i) \<le> v" using units_count [OF u] by linarith
  moreover have "card (holders s i) = v" if "items (sm_wait (sem_at s i)) \<noteq> []"
    using that c units_count [OF u] by (auto split: if_splits)
  ultimately show ?thesis using units_queue [OF u] by blast
qed

lemma demo_open_holders: "holders demo_open 0 = {}"
proof -
  have "has_bit (p_held_sems (pcb_at demo_open k)) 0 = False" if "live demo_open k" for k
  proof -
    have "k < 3" using that benign_live [OF demo_open_ok(2)] demo_live demo_sem_fields(1) by metis
    then show ?thesis
      by (simp add: demo_open_eq pcb_at_upd demo_sem_fields)
        (simp add: pcb_at_def demo_sem_fields demo_table_nth demo_pcb_def zero_pcb_def)
  qed
  then show ?thesis by (auto simp: holders_def holds_def)
qed

theorem sem_mutual_exclusion_witness:
  "\<exists>s. sem_wait (Some ''m'') demo_open = Some (0, s) \<and> card (holders s 0) \<le> 1"
proof -
  have r: "sem_run ''m'' 0 1 demo_open"
    by (rule sem_run.created) (simp_all add: demo_open_ok demo_open_holders)
  have "\<exists>s'. sem_wait (Some ''m'') demo_open = Some (0, s')"
    by (simp add: sem_wait_eq [OF demo_open_ok(7) _ demo_open_ok(4)] demo_open_ok(8))
  then obtain s where s: "sem_wait (Some ''m'') demo_open = Some (0, s)" by blast
  have "sem_run ''m'' 0 1 s"
    by (rule sem_run.wait [OF r demo_open_ok(4,5) _ _ s]) (simp_all add: demo_open_holders demo_open_ok(8))
  from sem_mutual_exclusion [OF this] s show ?thesis by blast
qed

subsection \<open>Order of service\<close>

fun post_n :: "nat \<Rightarrow> string \<Rightarrow> 'a semsys_scheme \<Rightarrow> 'a semsys_scheme option" where
  "post_n 0 nm s = Some s"
| "post_n (Suc n) nm s = (case sem_post (Some nm) s of None \<Rightarrow> None | Some (r, s') \<Rightarrow> post_n n nm s')"

text \<open>The queue of the semaphore under \<open>n\<close> posts.\<close>

fun pops :: "nat \<Rightarrow> pidq \<Rightarrow> pidq" where
  "pops 0 q = q"
| "pops (Suc n) q = pops n (snd (queue_pop q))"

text \<open>Waiters are served in the order in which they blocked: \<open>n\<close> posts take exactly the first
  \<open>n\<close> PIDs of the queue, oldest first, and leave the rest in order.\<close>

theorem sem_fifo_service:
  assumes "sem_inv s" "table_inv s" "current_process s = Some c" "live s c" "find_sem s (Some nm) = Some i"
    "n \<le> length (items (sm_wait (sem_at s i)))"
  shows "\<exists>s'. post_n n nm s = Some s' \<and> sm_wait (sem_at s' i) = pops n (sm_wait (sem_at s i)) \<and>
    items (sm_wait (sem_at s' i)) = drop n (items (sm_wait (sem_at s i))) \<and>
    drain queue_pop n (sm_wait (sem_at s i)) = take n (items (sm_wait (sem_at s i)))"
proof -
  from find_sem_SomeD [OF assms(5)] have il: "i < length (sem_table s)" by auto
  have wf: "pidq_wf (sm_wait (sem_at s i))" using sem_inv_slot [OF assms(1) il] by (simp add: slot_ok_def)
  have "\<exists>s'. post_n n nm s = Some s' \<and> sm_wait (sem_at s' i) = pops n (sm_wait (sem_at s i)) \<and>
    items (sm_wait (sem_at s' i)) = drop n (items (sm_wait (sem_at s i)))"
    using assms
  proof (induction n arbitrary: s)
    case (Suc n)
    note f = Suc.prems(5)
    from find_sem_SomeD [OF f] have i: "i < length (sem_table s)" "0 < sm_open (sem_at s i)" by auto
    note sl = sem_inv_slot [OF Suc.prems(1) i(1)]
    have pos: "0 < q_count (sm_wait (sem_at s i))" using Suc.prems(6) by simp
    then have neg: "sm_value (sem_at s i) < 0" using sl i(2) by (simp add: slot_ok_def split: if_splits)
    have w: "pidq_wf (sm_wait (sem_at s i))" using sl by (simp add: slot_ok_def)
    let ?p = "upd_pcb c (clear_held i) (upd_sem i passed_on s)"
    let ?s = "hand_over i (fst (queue_pop (sm_wait (sem_at s i)))) ?p"
    have run: "sem_post (Some nm) s = Some (0, ?s)"
      using sem_post_eq [OF f sem_inv_lock [OF Suc.prems(1) i(1)] Suc.prems(3)] neg pos by simp
    from sem_inv_post [OF Suc.prems(1,3) f] run have si: "sem_inv ?s" and b: "benign s ?s" by auto
    have f': "find_sem ?s (Some nm) = Some i"
      using find_sem_upd [OF f, of passed_on] by (simp add: find_sem_def passed_on_def)
    have wt: "sm_wait (sem_at ?s i) = snd (queue_pop (sm_wait (sem_at s i)))"
      using i by (simp add: sem_at_upd_sem passed_on_def)
    have it: "items (sm_wait (sem_at ?s i)) = tl (items (sm_wait (sem_at s i)))"
      unfolding wt by (rule queue_pop(3) [OF w pos])
    have "current_process ?s = Some c" "live ?s c" "table_inv ?s"
      using benign_current [OF b] benign_live [OF b] table_inv_benign [OF b] Suc.prems by auto
    note st = this
    have le: "n \<le> length (items (sm_wait (sem_at ?s i)))" unfolding it using Suc.prems(6) by simp
    from Suc.IH [OF si st(3,1,2) f' le, unfolded it, unfolded wt] run show ?case by (auto simp: drop_Suc)
  qed simp
  with sem_fifo.drain_take [OF wf assms(6)] show ?thesis by blast
qed

text \<open>The state after two waits of the same process on ''m'': the second one queued it.\<close>

lemma demo_queued:
  obtains s :: semsys where "sem_inv s" "table_inv s" "current_process s = Some 1" "live s 1"
    "find_sem s (Some ''m'') = Some 0" "items (sm_wait (sem_at s 0)) = [2]"
proof -
  let ?a = "upd_pcb 1 (set_held 0) (upd_sem 0 taken demo_open)"
  have len: "length (process_table demo_open) = 64" by (rule table_inv_length [OF demo_open_ok(3)])
  have w1: "sem_wait (Some ''m'') demo_open = Some (0, ?a)"
    by (simp add: sem_wait_eq [OF demo_open_ok(7) _ demo_open_ok(4)] demo_open_ok(8))
  from sem_inv_wait [OF demo_open_ok(1) len demo_open_ok(4,5,7)] w1 have
    a: "sem_inv ?a" "benign demo_open ?a" by (auto simp: demo_open_ok(8))
  have ta: "table_inv ?a" "current_process ?a = Some 1" "live ?a 1"
    using table_inv_benign [OF a(2) demo_open_ok(3)] benign_current [OF a(2)] benign_live [OF a(2)] demo_open_ok by auto
  have fa: "find_sem ?a (Some ''m'') = Some 0"
    using find_sem_upd [OF demo_open_ok(7), of taken] by (simp add: find_sem_table [of "upd_pcb _ _ _"] taken_def)
  have lt: "0 < length (sem_table demo_open)" using demo_open_ok(1) by (simp add: sem_inv_def)
  have sa: "sem_at ?a 0 = \<lparr>sm_name = ''m'', sm_value = 0, sm_wait = empty_pidq, sm_open = 1, sm_lock = UNLOCKED\<rparr>"
    using lt by (simp add: sem_at_upd_sem taken_def demo_open_ok(8))
  have pd: "p_pid (pcb_at ?a 1) = 2"
    using pid_benign [OF benign_trans [OF demo_open_ok(2) a(2)], of 1] demo_sem_live by simp
  let ?b = "process_block 2 (upd_sem 0 (blocked 2) ?a)"
  have w2: "sem_wait (Some ''m'') ?a = Some (0, ?b)"
  proof -
    have lk: "sm_lock (sem_at ?a 0) = 0" unfolding sa by simp
    show ?thesis unfolding sem_wait_eq [OF fa lk ta(2)] pd sa by simp
  qed
  have nq: "p_pid (pcb_at ?a 1) \<notin> set (items (sm_wait (sem_at ?a 0)))" unfolding sa by simp
  from sem_inv_wait [OF a(1) table_inv_length [OF ta(1)] ta(2,3) fa nq, unfolded w2] have
    b: "sem_inv ?b" "benign ?a ?b" by auto
  have "table_inv ?b" "current_process ?b = Some 1" "live ?b 1"
    using table_inv_benign [OF b(2) ta(1)] benign_current [OF b(2)] benign_live [OF b(2)] ta by auto
  moreover have "find_sem ?b (Some ''m'') = Some 0"
    using find_sem_upd [OF fa, of "blocked 2"] by (simp add: find_sem_table [of "process_block _ _"] blocked_def)
  moreover have "items (sm_wait (sem_at ?b 0)) = [2]"
  proof -
    have "0 < length (sem_table ?a)" using lt by simp
    from sem_at_upd_sem [OF this, of "blocked 2" 0] have "sem_at ?b 0 = blocked 2 (sem_at ?a 0)" by simp
    then show ?thesis
      unfolding sa using sem_queue_push(2) [OF pidq_wf_empty(1), of 2] by (simp add: blocked_def empty_pidq_def)
  qed
  ultimately show thesis using that b(1) by blast
qed

theorem sem_fifo_service_witness:
  "\<exists>(s :: semsys) s'. items (sm_wait (sem_at s 0)) = [2] \<and> post_n 1 ''m'' s = Some s' \<and> items (sm_wait (sem_at s' 0)) = []"
proof -
  obtain s :: semsys where s: "sem_inv s" "table_inv s" "current_process s = Some 1" "live s 1"
    "find_sem s (Some ''m'') = Some 0" "items (sm_wait (sem_at s 0)) = [2]" by (rule demo_queued)
  have "1 \<le> length (items (sm_wait (sem_at s 0)))" unfolding s(6) by simp
  from sem_fifo_service [OF s(1-5) this, unfolded s(6)] obtain s' where
    "post_n 1 ''m'' s = Some s'" "items (sm_wait (sem_at s' 0)) = []" by (auto simp del: items_eq_Nil)
  with s(6) show ?thesis by blast
qed

subsection \<open>Death and names\<close>

text \<open>C14: After the clean-up for a dying process no open semaphore has it in its queue and it holds
  and has opened none; the table is in good order.\<close>

theorem sem_cleanup_complete:
  assumes "sem_inv s" "process_get s pid = Some p"
  shows "\<exists>s'. sem_cleanup_for_process pid s = Some s' \<and> sem_inv s' \<and>
    (\<forall>i<MAX_SEMS. 0 < sm_open (sem_at s' i) \<longrightarrow> pid \<notin> set (items (sm_wait (sem_at s' i)))) \<and>
    (\<forall>i. p \<notin> holders s' i) \<and> p_opened_sems (pcb_at s' p) = 0"
proof -
  from sem_cleanup_ok [OF assms] obtain s' where
    s': "sem_cleanup_for_process pid s = Some s'" "sem_inv s'"
    "\<forall>i<MAX_SEMS. 0 < sm_open (sem_at s' i) \<longrightarrow> pid \<notin> set (items (sm_wait (sem_at s' i)))"
    "p_held_sems (pcb_at s' p) = 0" "p_opened_sems (pcb_at s' p) = 0" by blast
  then show ?thesis by (auto simp: holders_def holds_def)
qed

theorem sem_cleanup_complete_witness:
  "\<exists>s'. sem_cleanup_for_process 2 demo_open = Some s' \<and> sem_inv s' \<and> 1 \<notin> holders s' 0"
proof -
  have "p_pid (pcb_at demo_open 1) = 2" using pid_benign [OF demo_open_ok(2) demo_sem_live(1)] demo_sem_live by simp
  then have "process_get demo_open 2 = Some 1" using table_inv_get [OF demo_open_ok(3,5)] by simp
  from sem_cleanup_complete [OF demo_open_ok(1) this] show ?thesis by auto
qed

text \<open>A name of 32 characters or more is accepted by \<open>sem_open\<close>, which stores its first 31
  characters, but compared in full afterwards: the semaphore just opened is never found again,
  so wait, post and close on it fail, and opening it again takes another slot.\<close>

theorem sem_long_name_lost:
  assumes "sem_inv s" "SEM_NAME_LEN \<le> length (cstr nm)" "0 \<le> sint v"
  defines "s' \<equiv> snd (sem_open (Some nm) v s)"
  shows "find_sem s' (Some nm) = None \<and> sem_wait (Some nm) s' = Some (-1, s') \<and>
    sem_post (Some nm) s' = Some (-1, s') \<and> sem_close (Some nm) s' = (-1, s') \<and>
    (\<forall>i. fst (sem_open (Some nm) v s) = 1 \<longrightarrow> first_idx (\<lambda>q. sm_open q = 0) (sem_table s) = Some i \<longrightarrow>
       sm_open (sem_at s' i) = 1)"
proof -
  have none: "find_sem t (Some nm) = None" if "sem_inv t" for t :: "'a semsys_scheme"
  proof (cases "find_sem t (Some nm)")
    case (Some i)
    from find_sem_SomeD [OF this] have i: "i < length (sem_table t)" "cstr (sm_name (sem_at t i)) = cstr nm" by auto
    have "length (cstr (sm_name (sem_at t i))) \<le> length (sm_name (sem_at t i))"
      by (simp add: cstr_def length_takeWhile_le)
    also have "\<dots> < SEM_NAME_LEN" using sem_inv_slot [OF that i(1)] by (simp add: slot_ok_def)
    finally show ?thesis using i(2) assms(2) by simp
  qed
  have n: "find_sem s' (Some nm) = None"
    unfolding s'_def by (rule none [OF sem_inv_open(1) [OF assms(1,3)]])
  have "sm_open (sem_at s' i) = 1" if "first_idx (\<lambda>q. sm_open q = 0) (sem_table s) = Some i" for i
    using first_idx_SomeD [OF that] that none [OF assms(1)]
    by (simp add: s'_def sem_open_def sem_opened_def sem_at_upd_sem sem_open_slot_def)
  with n show ?thesis by (simp add: sem_wait_def sem_post_def sem_close_def)
qed

theorem sem_long_name_lost_witness:
  "find_sem (snd (sem_open (Some (replicate 40 CHR ''a'')) 1 demo_sem)) (Some (replicate 40 CHR ''a'')) = None"
proof -
  have "cstr (replicate 40 CHR ''a'') = replicate 40 CHR ''a''" by (rule cstr_id) simp
  then show ?thesis using sem_long_name_lost [OF demo_sem_inv, of "replicate 40 CHR ''a''" 1] by simp
qed

end
