(* ===== verification/Pipe.thy ===== *)
theory Pipe
  imports Semaphore
begin

text \<open>
  The pipes of \<open>Kernel/c/pipe/pipe.c\<close>: a static table of 32, each a circular byte buffer of
  4096 bytes with two queues of blocked PIDs, counts of open ends and, for named pipes, an
  end-of-file flag. A function of the source that takes a \<open>Pipe *\<close> is here a function of the
  pipe and of the process state, which it may change by blocking and unblocking; the pointer
  argument of the public functions is an index into the table, \<open>None\<close> for \<open>NULL\<close>.

  A reader's buffer is the list of bytes stored through it; the flag says that the pointer is not
  \<open>NULL\<close>. The counts of the source are unsigned 64 bit numbers that never get near the bound.
\<close>

abbreviation (input) PIPE_BUFFER_SIZE :: nat where "PIPE_BUFFER_SIZE \<equiv> 4096"
abbreviation (input) MAX_PIPES :: nat where "MAX_PIPES \<equiv> 32"
abbreviation (input) PIPE_NAME_LEN :: nat where "PIPE_NAME_LEN \<equiv> 32"

record Pipe =
  pp_buffer :: "u8 list"
  pp_read_idx :: nat
  pp_write_idx :: nat
  pp_count :: nat
  pp_open_read :: nat
  pp_open_write :: nat
  pp_readers :: pidq
  pp_writers :: pidq
  pp_in_use :: bool
  pp_is_named :: bool
  pp_eof :: bool
  pp_opens :: nat
  pp_name :: string

record pipesys = semsys +
  pipe_table :: "Pipe list"

definition pipe_at :: "'a pipesys_scheme \<Rightarrow> nat \<Rightarrow> Pipe" where
  "pipe_at s i = pipe_table s ! i"

definition set_pipe :: "nat \<Rightarrow> Pipe \<Rightarrow> 'a pipesys_scheme \<Rightarrow> 'a pipesys_scheme" where
  "set_pipe i p s = s\<lparr>pipe_table := (pipe_table s)[i := p]\<rparr>"

subsection \<open>Waking\<close>

definition pipe_wake_reader :: "Pipe \<Rightarrow> 'a psys_scheme \<Rightarrow> Pipe \<times> 'a psys_scheme" where
  "pipe_wake_reader p s =
     (if q_count (pp_readers p) > 0
      then let (pid, q) = queue_pop (pp_readers p) in (p\<lparr>pp_readers := q\<rparr>, process_unblock pid s)
      else (p, s))"

definition pipe_wake_writer :: "Pipe \<Rightarrow> 'a psys_scheme \<Rightarrow> Pipe \<times> 'a psys_scheme" where
  "pipe_wake_writer p s =
     (if q_count (pp_writers p) > 0
      then let (pid, q) = queue_pop (pp_writers p) in (p\<lparr>pp_writers := q\<rparr>, process_unblock pid s)
      else (p, s))"

function pipe_wake_all_readers :: "Pipe \<Rightarrow> 'a psys_scheme \<Rightarrow> Pipe \<times> 'a psys_scheme" where
  "pipe_wake_all_readers p s =
     (if q_count (pp_readers p) > 0
      then pipe_wake_all_readers (fst (pipe_wake_reader p s)) (snd (pipe_wake_reader p s))
      else (p, s))"
  by pat_completeness auto
termination
  by (relation "measure (\<lambda>(p, s). q_count (pp_readers p))")
    (simp_all add: pipe_wake_reader_def queue_pop_def)

function pipe_wake_all_writers :: "Pipe \<Rightarrow> 'a psys_scheme \<Rightarrow> Pipe \<times> 'a psys_scheme" where
  "pipe_wake_all_writers p s =
     (if q_count (pp_writers p) > 0
      then pipe_wake_all_writers (fst (pipe_wake_writer p s)) (snd (pipe_wake_writer p s))
      else (p, s))"
  by pat_completeness auto
termination
  by (relation "measure (\<lambda>(p, s). q_count (pp_writers p))")
    (simp_all add: pipe_wake_writer_def queue_pop_def)

declare pipe_wake_all_readers.simps [simp del] pipe_wake_all_writers.simps [simp del]

subsection \<open>The table\<close>

definition pipe_reset :: "Pipe \<Rightarrow> Pipe" where
  "pipe_reset p = p\<lparr>pp_read_idx := 0, pp_write_idx := 0, pp_count := 0, pp_open_read := 0, pp_open_write := 0,
     pp_readers := (pp_readers p)\<lparr>q_head := 0, q_tail := 0, q_count := 0\<rparr>,
     pp_writers := (pp_writers p)\<lparr>q_head := 0, q_tail := 0, q_count := 0\<rparr>,
     pp_is_named := False, pp_eof := False, pp_opens := 0, pp_name := []\<rparr>"

definition pipe_maybe_free :: "Pipe \<Rightarrow> Pipe" where
  "pipe_maybe_free p =
     (if pp_open_read p = 0 \<and> pp_open_write p = 0 then (pipe_reset p)\<lparr>pp_in_use := False\<rparr> else p)"

text \<open>A pipe after \<open>memset\<close>.\<close>

definition zero_pipe :: Pipe where
  "zero_pipe = \<lparr>pp_buffer = replicate PIPE_BUFFER_SIZE 0, pp_read_idx = 0, pp_write_idx = 0, pp_count = 0,
     pp_open_read = 0, pp_open_write = 0, pp_readers = empty_pidq, pp_writers = empty_pidq,
     pp_in_use = False, pp_is_named = False, pp_eof = False, pp_opens = 0, pp_name = []\<rparr>"

definition pipe_init :: "'a pipesys_scheme \<Rightarrow> 'a pipesys_scheme" where
  "pipe_init s = s\<lparr>pipe_table := replicate MAX_PIPES zero_pipe\<rparr>"

definition pipe_forget :: "u64 \<Rightarrow> Pipe \<Rightarrow> Pipe" where
  "pipe_forget pid p =
     (if \<not> pp_in_use p then p
      else p\<lparr>pp_readers := snd (queue_remove_pid (pp_readers p) pid),
             pp_writers := snd (queue_remove_pid (pp_writers p) pid)\<rparr>)"

definition pipe_cleanup_for_process :: "u64 \<Rightarrow> 'a pipesys_scheme \<Rightarrow> 'a pipesys_scheme" where
  "pipe_cleanup_for_process pid s = s\<lparr>pipe_table := map (pipe_forget pid) (pipe_table s)\<rparr>"

definition pipe_alloc :: "'a pipesys_scheme \<Rightarrow> ptr \<times> 'a pipesys_scheme" where
  "pipe_alloc s =
     (case first_idx (\<lambda>p. \<not> pp_in_use p) (pipe_table s) of
        None \<Rightarrow> (None, s)
      | Some i \<Rightarrow> (Some i, set_pipe i ((pipe_reset (pipe_at s i))\<lparr>pp_in_use := True\<rparr>) s))"

text \<open>The comparison loop of \<open>pipe_open\<close>.\<close>

function pipe_name_loop :: "string \<Rightarrow> string \<Rightarrow> nat \<Rightarrow> bool" where
  "pipe_name_loop name nm j =
     (if cget name j \<noteq> NUL \<and> cget nm j \<noteq> NUL \<and> cget name j = cget nm j then pipe_name_loop name nm (Suc j)
      else cget name j = NUL \<and> cget nm j = NUL)"
  by pat_completeness auto
termination
  by (relation "measure (\<lambda>(a, b, i). length a - i)") (auto dest: cget_in_range)

declare pipe_name_loop.simps [simp del]

definition pipe_open :: "string option \<Rightarrow> 'a pipesys_scheme \<Rightarrow> ptr \<times> 'a pipesys_scheme" where
  "pipe_open name s =
     (let found = (case name of None \<Rightarrow> None
        | Some n \<Rightarrow> first_idx (\<lambda>p. pp_in_use p \<and> pp_is_named p \<and> pipe_name_loop n (pp_name p) 0) (pipe_table s))
      in case found of
        Some i \<Rightarrow> (Some i, set_pipe i ((pipe_at s i)\<lparr>pp_opens := pp_opens (pipe_at s i) + 1\<rparr>) s)
      | None \<Rightarrow>
          (case pipe_alloc s of
             (None, s1) \<Rightarrow> (None, s1)
           | (Some i, s1) \<Rightarrow>
               (case name of
                  None \<Rightarrow> (Some i, s1)
                | Some n \<Rightarrow> (Some i, set_pipe i ((pipe_at s1 i)\<lparr>pp_name := str_copy_loop PIPE_NAME_LEN n 0,
                    pp_is_named := True, pp_opens := 1\<rparr>) s1))))"

subsection \<open>Opening and closing ends\<close>

definition pipe_open_read1 :: "Pipe \<Rightarrow> 'a psys_scheme \<Rightarrow> Pipe \<times> 'a psys_scheme" where
  "pipe_open_read1 p s =
     (let p1 = p\<lparr>pp_open_read := pp_open_read p + 1\<rparr>
      in if pp_is_named p1 \<and> q_count (pp_writers p1) > 0 \<and> pp_open_read p1 > 0
         then pipe_wake_all_writers p1 s else (p1, s))"

definition pipe_open_write1 :: "Pipe \<Rightarrow> 'a psys_scheme \<Rightarrow> Pipe \<times> 'a psys_scheme" where
  "pipe_open_write1 p s =
     (let p1 = p\<lparr>pp_open_write := pp_open_write p + 1\<rparr>
      in if pp_is_named p1
         then let p2 = p1\<lparr>pp_eof := False\<rparr>
              in if q_count (pp_readers p2) > 0 then pipe_wake_all_readers p2 s else (p2, s)
         else (p1, s))"

definition pipe_close_read1 :: "Pipe \<Rightarrow> 'a psys_scheme \<Rightarrow> Pipe \<times> 'a psys_scheme" where
  "pipe_close_read1 p s =
     (let p1 = (if pp_open_read p > 0 then p\<lparr>pp_open_read := pp_open_read p - 1\<rparr> else p);
          (p2, s2) = (if pp_open_read p1 = 0 then pipe_wake_all_writers p1 s else (p1, s))
      in (pipe_maybe_free p2, s2))"

definition pipe_close_write1 :: "Pipe \<Rightarrow> 'a psys_scheme \<Rightarrow> Pipe \<times> 'a psys_scheme" where
  "pipe_close_write1 p s =
     (let p1 = (if pp_open_write p > 0 then p\<lparr>pp_open_write := pp_open_write p - 1\<rparr> else p);
          (p2, s2) = (if pp_open_write p1 = 0
                      then pipe_wake_all_readers
                             (if pp_is_named p1 \<and> pp_opens p1 \<ge> 2 then p1\<lparr>pp_eof := True\<rparr> else p1) s
                      else (p1, s))
      in (pipe_maybe_free p2, s2))"

text \<open>The pointer arguments.\<close>

definition on_pipe :: "(Pipe \<Rightarrow> 'a pipesys_scheme \<Rightarrow> Pipe \<times> 'a pipesys_scheme) \<Rightarrow> ptr \<Rightarrow> 'a pipesys_scheme \<Rightarrow> 'a pipesys_scheme" where
  "on_pipe f p s = (case p of None \<Rightarrow> s | Some i \<Rightarrow> let (q, s1) = f (pipe_at s i) s in set_pipe i q s1)"

definition pipe_open_read :: "ptr \<Rightarrow> 'a pipesys_scheme \<Rightarrow> 'a pipesys_scheme" where
  "pipe_open_read p s = on_pipe pipe_open_read1 p s"

definition pipe_open_write :: "ptr \<Rightarrow> 'a pipesys_scheme \<Rightarrow> 'a pipesys_scheme" where
  "pipe_open_write p s = on_pipe pipe_open_write1 p s"

definition pipe_close_read :: "ptr \<Rightarrow> 'a pipesys_scheme \<Rightarrow> 'a pipesys_scheme" where
  "pipe_close_read p s = on_pipe pipe_close_read1 p s"

definition pipe_close_write :: "ptr \<Rightarrow> 'a pipesys_scheme \<Rightarrow> 'a pipesys_scheme" where
  "pipe_close_write p s = on_pipe pipe_close_write1 p s"

subsection \<open>Reading and writing\<close>

abbreviation (input) READ_BLOCKED :: u64 where "READ_BLOCKED \<equiv> - 1"

text \<open>The current process joins a queue and is blocked; nothing without a current process.\<close>

definition pipe_block_reader :: "Pipe \<Rightarrow> 'a psys_scheme \<Rightarrow> Pipe \<times> 'a psys_scheme" where
  "pipe_block_reader p s =
     (case process_current s of
        None \<Rightarrow> (p, s)
      | Some c \<Rightarrow> (p\<lparr>pp_readers := pipe_queue_push (pp_readers p) (p_pid (pcb_at s c))\<rparr>,
                   process_block (p_pid (pcb_at s c)) s))"

definition pipe_block_writer :: "Pipe \<Rightarrow> 'a psys_scheme \<Rightarrow> Pipe \<times> 'a psys_scheme" where
  "pipe_block_writer p s =
     (case process_current s of
        None \<Rightarrow> (p, s)
      | Some c \<Rightarrow> (p\<lparr>pp_writers := pipe_queue_push (pp_writers p) (p_pid (pcb_at s c))\<rparr>,
                   process_block (p_pid (pcb_at s c)) s))"

fun pipe_copy_out :: "nat \<Rightarrow> Pipe \<Rightarrow> u8 list \<times> Pipe" where
  "pipe_copy_out 0 p = ([], p)"
| "pipe_copy_out (Suc n) p =
     (let b = pp_buffer p ! pp_read_idx p;
          p1 = p\<lparr>pp_read_idx := (pp_read_idx p + 1) mod PIPE_BUFFER_SIZE, pp_count := pp_count p - 1\<rparr>;
          (bs, p2) = pipe_copy_out n p1
      in (b # bs, p2))"

fun pipe_copy_in :: "u8 list \<Rightarrow> Pipe \<Rightarrow> Pipe" where
  "pipe_copy_in [] p = p"
| "pipe_copy_in (b # bs) p =
     pipe_copy_in bs (p\<lparr>pp_buffer := (pp_buffer p)[pp_write_idx p := b],
       pp_write_idx := (pp_write_idx p + 1) mod PIPE_BUFFER_SIZE, pp_count := pp_count p + 1\<rparr>)"

text \<open>Result, bytes stored through \<open>buf\<close>, new pipe, new process state.\<close>

definition pipe_read1 :: "nat \<Rightarrow> Pipe \<Rightarrow> 'a psys_scheme \<Rightarrow> u64 \<times> u8 list \<times> Pipe \<times> 'a psys_scheme" where
  "pipe_read1 cnt p s =
     (if pp_count p = 0
      then if pp_is_named p
           then if pp_eof p then (0, [], p, s) else (READ_BLOCKED, [], pipe_block_reader p s)
           else if pp_open_write p = 0 then (0, [], p, s) else (READ_BLOCKED, [], pipe_block_reader p s)
      else
        let to_read = (if cnt > pp_count p then pp_count p else cnt);
            (bs, p1) = pipe_copy_out to_read p;
            (p2, s2) = (if q_count (pp_writers p1) > 0 \<and> pp_count p1 < PIPE_BUFFER_SIZE
                        then pipe_wake_writer p1 s else (p1, s))
        in (of_nat to_read, bs, p2, s2))"

definition pipe_read :: "ptr \<Rightarrow> bool \<Rightarrow> nat \<Rightarrow> 'a pipesys_scheme \<Rightarrow> u64 \<times> u8 list \<times> 'a pipesys_scheme" where
  "pipe_read p buf cnt s =
     (if p = None \<or> \<not> buf \<or> cnt = 0 then (0, [], s)
      else let (r, bs, q, s1) = pipe_read1 cnt (pipe_at s (the p)) s in (r, bs, set_pipe (the p) q s1))"

definition pipe_write1 :: "u8 list \<Rightarrow> Pipe \<Rightarrow> 'a psys_scheme \<Rightarrow> u64 \<times> Pipe \<times> 'a psys_scheme" where
  "pipe_write1 buf p s =
     (if pp_open_read p = 0
      then if pp_is_named p
           then if pp_eof p then (0, p, s) else (READ_BLOCKED, pipe_block_writer p s)
           else (0, p, s)
      else if pp_count p \<ge> PIPE_BUFFER_SIZE then (READ_BLOCKED, pipe_block_writer p s)
      else
        let space = PIPE_BUFFER_SIZE - pp_count p;
            to_write = (if length buf < space then length buf else space);
            p1 = pipe_copy_in (take to_write buf) p;
            (p2, s2) = (if q_count (pp_readers p1) > 0 \<and> pp_count p1 > 0
                        then pipe_wake_reader p1 s else (p1, s))
        in (of_nat to_write, p2, s2))"

text \<open>\<open>buf\<close> holds the \<open>count\<close> bytes to write.\<close>

definition pipe_write :: "ptr \<Rightarrow> u8 list option \<Rightarrow> 'a pipesys_scheme \<Rightarrow> u64 \<times> 'a pipesys_scheme" where
  "pipe_write p buf s =
     (if p = None \<or> buf = None \<or> buf = Some [] then (0, s)
      else let (r, q, s1) = pipe_write1 (the buf) (pipe_at s (the p)) s in (r, set_pipe (the p) q s1))"

end
