(* ===== verification/Pipe_Lemmas.thy ===== *)
theory Pipe_Lemmas
  imports Pipe Sem_Lemmas
begin

text \<open>
  What the pipe functions compute: the buffer as a byte list, the copy loops as appending and
  dropping, waking all as a fold over the queue. The contract \<open>waker\<close> states what the pipes
  rely on when they wake processes; \<open>process_unblock\<close> provides it.
\<close>

subsection \<open>The contract of waking\<close>

locale waker =
  fixes wake :: "u64 \<Rightarrow> 's \<Rightarrow> 's"
    and le :: "'s \<Rightarrow> 's \<Rightarrow> bool"
    and asleep :: "u64 \<Rightarrow> 's \<Rightarrow> bool"
  assumes le_refl: "le s s"
    and le_trans: "le s t \<Longrightarrow> le t u \<Longrightarrow> le s u"
    and wake_le: "le s (wake pid s)"
    and wake_awake: "\<not> asleep pid (wake pid s)"
    and wake_keeps: "\<not> asleep q s \<Longrightarrow> \<not> asleep q (wake pid s)"
begin

lemma fold_le: "le s (fold wake ps s)"
  by (induction ps arbitrary: s) (simp add: le_refl, metis fold_simps(2) le_trans wake_le)

lemma fold_keeps: "\<not> asleep q s \<Longrightarrow> \<not> asleep q (fold wake ps s)"
  by (induction ps arbitrary: s) (simp_all add: wake_keeps)

lemma fold_awake: "p \<in> set ps \<Longrightarrow> \<not> asleep p (fold wake ps s)"
proof (induction ps arbitrary: s)
  case (Cons q qs)
  show ?case
  proof (cases "p \<in> set qs")
    case True
    with Cons.IH show ?thesis by simp
  next
    case False
    with Cons.prems have "p = q" by simp
    with fold_keeps [OF wake_awake] show ?thesis by simp
  qed
qed simp

end

definition pid_blocked :: "u64 \<Rightarrow> 'a psys_scheme \<Rightarrow> bool" where
  "pid_blocked pid s = (case process_get s pid of None \<Rightarrow> False | Some k \<Rightarrow> p_state (pcb_at s k) = PROCESS_BLOCKED)"

lemma get_unblock [simp]: "process_get (process_unblock pid s) q = process_get s q"
  by (rule benign_process_get [OF benign_process_unblock])

lemma state_unblock:
  "p_state (pcb_at (process_unblock pid s) k) =
    (if process_get s pid = Some k \<and> p_state (pcb_at s k) = PROCESS_BLOCKED then PROCESS_READY else p_state (pcb_at s k))"
proof (cases "process_get s pid")
  case None
  then show ?thesis by (simp add: process_unblock_def)
next
  case (Some i)
  then have "i < length (process_table s)" using process_get_Some live_less by blast
  then show ?thesis using Some by (auto simp: process_unblock_def Let_def pcb_at_upd split: option.split)
qed

interpretation pw: waker process_unblock benign pid_blocked
proof unfold_locales
  show "\<not> pid_blocked pid (process_unblock pid s)" for pid and s :: "'a psys_scheme"
    by (simp add: pid_blocked_def state_unblock split: option.split)
  show "\<not> pid_blocked q s \<Longrightarrow> \<not> pid_blocked q (process_unblock pid s)" for q pid and s :: "'a psys_scheme"
    by (simp add: pid_blocked_def state_unblock split: option.splits)
qed (auto intro: benign_trans benign_process_unblock)

subsection \<open>The buffer\<close>

definition pipe_data :: "Pipe \<Rightarrow> u8 list" where
  "pipe_data p = ring_list (pp_buffer p) (pp_read_idx p) (pp_count p)"

definition pipe_wf :: "Pipe \<Rightarrow> bool" where
  "pipe_wf p \<longleftrightarrow> length (pp_buffer p) = PIPE_BUFFER_SIZE \<and> pp_read_idx p < PIPE_BUFFER_SIZE \<and>
     pp_count p \<le> PIPE_BUFFER_SIZE \<and> pp_write_idx p = (pp_read_idx p + pp_count p) mod PIPE_BUFFER_SIZE \<and>
     pidq_wf (pp_readers p) \<and> pidq_wf (pp_writers p) \<and> length (pp_name p) < PIPE_NAME_LEN"

lemma length_pipe_data [simp]: "length (pipe_data p) = pp_count p"
  by (simp add: pipe_data_def)

lemma pipe_wf_zero: "pipe_wf zero_pipe"
  by (simp add: pipe_wf_def zero_pipe_def)

lemma pipe_copy_out:
  "pipe_wf p \<Longrightarrow> n \<le> pp_count p \<Longrightarrow>
   \<exists>i. i < PIPE_BUFFER_SIZE \<and> pipe_copy_out n p = (take n (pipe_data p), p\<lparr>pp_read_idx := i, pp_count := pp_count p - n\<rparr>) \<and>
     pipe_data (p\<lparr>pp_read_idx := i, pp_count := pp_count p - n\<rparr>) = drop n (pipe_data p) \<and>
     pipe_wf (p\<lparr>pp_read_idx := i, pp_count := pp_count p - n\<rparr>)"
proof (induction n arbitrary: p)
  case 0
  then show ?case by (intro exI [of _ "pp_read_idx p"]) (simp add: pipe_wf_def)
next
  case (Suc n)
  let ?j = "(pp_read_idx p + 1) mod PIPE_BUFFER_SIZE"
  let ?p = "p\<lparr>pp_read_idx := ?j, pp_count := pp_count p - 1\<rparr>"
  have l: "length (pp_buffer p) = PIPE_BUFFER_SIZE" "pp_read_idx p < PIPE_BUFFER_SIZE" "0 < pp_count p"
    using Suc.prems by (simp_all add: pipe_wf_def)
  have d: "pipe_data p = pp_buffer p ! pp_read_idx p # pipe_data ?p"
    using ring_list_pop [OF l(3), of "pp_buffer p" "pp_read_idx p"] l by (simp add: pipe_data_def)
  have "(?j + (pp_count p - 1)) mod PIPE_BUFFER_SIZE = (pp_read_idx p + 1 + (pp_count p - 1)) mod PIPE_BUFFER_SIZE"
    by (rule mod_add_left_eq)
  then have w: "pipe_wf ?p" using Suc.prems(1) l(3) by (auto simp: pipe_wf_def)
  have "n \<le> pp_count ?p" using Suc.prems(2) by simp
  from Suc.IH [OF w this] obtain i where i: "i < PIPE_BUFFER_SIZE"
    "pipe_copy_out n ?p = (take n (pipe_data ?p), ?p\<lparr>pp_read_idx := i, pp_count := pp_count ?p - n\<rparr>)"
    "pipe_data (?p\<lparr>pp_read_idx := i, pp_count := pp_count ?p - n\<rparr>) = drop n (pipe_data ?p)"
    "pipe_wf (?p\<lparr>pp_read_idx := i, pp_count := pp_count ?p - n\<rparr>)" by blast
  have e: "?p\<lparr>pp_read_idx := i, pp_count := pp_count ?p - n\<rparr> = p\<lparr>pp_read_idx := i, pp_count := pp_count p - Suc n\<rparr>"
    by simp
  have "pipe_copy_out (Suc n) p = (take (Suc n) (pipe_data p), p\<lparr>pp_read_idx := i, pp_count := pp_count p - Suc n\<rparr>)"
    unfolding pipe_copy_out.simps Let_def i(2) e by (simp add: d)
  moreover have "pipe_data (p\<lparr>pp_read_idx := i, pp_count := pp_count p - Suc n\<rparr>) = drop (Suc n) (pipe_data p)"
    using i(3) unfolding e by (simp add: d)
  ultimately show ?case using i(1,4) unfolding e by blast
qed

lemma pipe_copy_in:
  "pipe_wf p \<Longrightarrow> pp_count p + length bs \<le> PIPE_BUFFER_SIZE \<Longrightarrow>
   \<exists>b i. pipe_copy_in bs p = p\<lparr>pp_buffer := b, pp_write_idx := i, pp_count := pp_count p + length bs\<rparr> \<and>
     pipe_data (pipe_copy_in bs p) = pipe_data p @ bs \<and> pipe_wf (pipe_copy_in bs p)"
proof (induction bs arbitrary: p)
  case Nil
  then show ?case by (intro exI [of _ "pp_buffer p"] exI [of _ "pp_write_idx p"]) simp
next
  case (Cons x xs)
  let ?p = "p\<lparr>pp_buffer := (pp_buffer p)[pp_write_idx p := x],
       pp_write_idx := (pp_write_idx p + 1) mod PIPE_BUFFER_SIZE, pp_count := pp_count p + 1\<rparr>"
  have l: "length (pp_buffer p) = PIPE_BUFFER_SIZE" "pp_count p < length (pp_buffer p)"
    "pp_write_idx p = (pp_read_idx p + pp_count p) mod length (pp_buffer p)"
    using Cons.prems by (simp_all add: pipe_wf_def)
  have d: "pipe_data ?p = pipe_data p @ [x]"
    using ring_list_append [OF l(2), of "pp_read_idx p" x] l(3) by (simp add: pipe_data_def)
  have w: "pipe_wf ?p" using Cons.prems by (simp add: pipe_wf_def mod_Suc_eq)
  have "pp_count ?p + length xs \<le> PIPE_BUFFER_SIZE" using Cons.prems(2) by simp
  from Cons.IH [OF w this] d show ?case by auto
qed

subsection \<open>Waking all\<close>

text \<open>The queue under \<open>n\<close> pops.\<close>

fun popped :: "nat \<Rightarrow> pidq \<Rightarrow> pidq" where
  "popped 0 q = q"
| "popped (Suc n) q = popped n (snd (queue_pop q))"

lemma popped_all: "pidq_wf q \<Longrightarrow> n = q_count q \<Longrightarrow> pidq_wf (popped n q) \<and> items (popped n q) = []"
proof (induction n arbitrary: q)
  case (Suc n)
  then have pos: "0 < q_count q" by simp
  have "pidq_wf (snd (queue_pop q))" using Suc.prems(1) pos by (rule queue_pop)
  moreover have "n = q_count (snd (queue_pop q))" using Suc.prems(2) by (simp add: queue_pop_def)
  ultimately show ?case using Suc.IH by simp
qed simp

lemma wake_all_readers:
  "pidq_wf (pp_readers p) \<Longrightarrow> pipe_wake_all_readers p s =
     (p\<lparr>pp_readers := popped (q_count (pp_readers p)) (pp_readers p)\<rparr>, fold process_unblock (items (pp_readers p)) s)"
proof (induction "q_count (pp_readers p)" arbitrary: p s)
  case 0
  then have "items (pp_readers p) = []" by simp
  with 0 show ?case by (simp add: pipe_wake_all_readers.simps [of p s])
next
  case (Suc n)
  let ?q = "pp_readers p"
  have pos: "0 < q_count ?q" using Suc.hyps(2) by simp
  note pop = queue_pop [OF Suc.prems pos]
  have w: "pipe_wake_reader p s = (p\<lparr>pp_readers := snd (queue_pop ?q)\<rparr>, process_unblock (fst (queue_pop ?q)) s)"
    using pos by (simp add: pipe_wake_reader_def case_prod_beta)
  have n: "n = q_count (pp_readers (p\<lparr>pp_readers := snd (queue_pop ?q)\<rparr>))"
    using Suc.hyps(2) by (simp add: queue_pop_def)
  have "items ?q = fst (queue_pop ?q) # items (snd (queue_pop ?q))"
    using pop(2,3) pos by (metis items_eq_Nil list.collapse less_irrefl)
  moreover have "pidq_wf (pp_readers (p\<lparr>pp_readers := snd (queue_pop ?q)\<rparr>))" using pop(1) by simp
  note Suc.hyps(1) [OF n this, of "process_unblock (fst (queue_pop ?q)) s"]
  moreover have "pipe_wake_all_readers p s =
      pipe_wake_all_readers (p\<lparr>pp_readers := snd (queue_pop ?q)\<rparr>) (process_unblock (fst (queue_pop ?q)) s)"
    using pos w by (subst pipe_wake_all_readers.simps) simp
  ultimately show ?case using Suc.hyps(2) n by (simp flip: Suc.hyps(2))
qed

lemma wake_all_writers:
  "pidq_wf (pp_writers p) \<Longrightarrow> pipe_wake_all_writers p s =
     (p\<lparr>pp_writers := popped (q_count (pp_writers p)) (pp_writers p)\<rparr>, fold process_unblock (items (pp_writers p)) s)"
proof (induction "q_count (pp_writers p)" arbitrary: p s)
  case 0
  then have "items (pp_writers p) = []" by simp
  with 0 show ?case by (simp add: pipe_wake_all_writers.simps [of p s])
next
  case (Suc n)
  let ?q = "pp_writers p"
  have pos: "0 < q_count ?q" using Suc.hyps(2) by simp
  note pop = queue_pop [OF Suc.prems pos]
  have w: "pipe_wake_writer p s = (p\<lparr>pp_writers := snd (queue_pop ?q)\<rparr>, process_unblock (fst (queue_pop ?q)) s)"
    using pos by (simp add: pipe_wake_writer_def case_prod_beta)
  have n: "n = q_count (pp_writers (p\<lparr>pp_writers := snd (queue_pop ?q)\<rparr>))"
    using Suc.hyps(2) by (simp add: queue_pop_def)
  have "items ?q = fst (queue_pop ?q) # items (snd (queue_pop ?q))"
    using pop(2,3) pos by (metis items_eq_Nil list.collapse less_irrefl)
  moreover have "pidq_wf (pp_writers (p\<lparr>pp_writers := snd (queue_pop ?q)\<rparr>))" using pop(1) by simp
  note Suc.hyps(1) [OF n this, of "process_unblock (fst (queue_pop ?q)) s"]
  moreover have "pipe_wake_all_writers p s =
      pipe_wake_all_writers (p\<lparr>pp_writers := snd (queue_pop ?q)\<rparr>) (process_unblock (fst (queue_pop ?q)) s)"
    using pos w by (subst pipe_wake_all_writers.simps) simp
  ultimately show ?case using Suc.hyps(2) n by (simp flip: Suc.hyps(2))
qed

end
