(* ===== verification/Pipe_Props.thy ===== *)
theory Pipe_Props
  imports Pipe_Lemmas Sem_Props
begin

text \<open>
  The properties of the pipes: every branch of read and write, the byte stream, what closing the
  last writer or reader does, the invariant of the table, and a reader that stays asleep although
  there is data for it.
\<close>

subsection \<open>Frames\<close>

lemma pipe_table_process [simp, frame_simps]:
  "pipe_table (process_block pid s) = pipe_table s" "pipe_table (process_unblock pid s) = pipe_table s"
  by (simp_all add: process_block_def process_unblock_def Let_def upd_pcb_def split: option.split)

lemma pipe_table_fold [simp, frame_simps]: "pipe_table (fold process_unblock ps s) = pipe_table s"
  by (induction ps arbitrary: s) simp_all

lemma pipe_at_process [simp, frame_simps]:
  "pipe_at (process_block pid s) i = pipe_at s i" "pipe_at (process_unblock pid s) i = pipe_at s i"
  "pipe_at (fold process_unblock ps s) i = pipe_at s i"
  by (simp_all add: pipe_at_def)

lemma pipe_at_set_pipe [simp]:
  "i < length (pipe_table s) \<Longrightarrow> pipe_at (set_pipe i p s) j = (if j = i then p else pipe_at s j)"
  by (simp add: pipe_at_def set_pipe_def)

lemma set_pipe_sels [simp, frame_simps]:
  "length (pipe_table (set_pipe i p s)) = length (pipe_table s)" "pcb_at (set_pipe i p s) k = pcb_at s k"
  "process_get (set_pipe i p s) pid = process_get s pid" "force_switch (set_pipe i p s) = force_switch s"
  "benign t (set_pipe i p s) \<longleftrightarrow> benign t s" "benign (set_pipe i p s) t \<longleftrightarrow> benign s t"
  "sem_table (set_pipe i p s) = sem_table s"
  by (simp_all add: set_pipe_def pcb_at_def process_get_def benign_def)

lemma pid_blocked_set_pipe [simp]: "pid_blocked pid (set_pipe i p s) = pid_blocked pid s"
  by (simp add: pid_blocked_def split: option.split)

lemma set_pipe_same: "set_pipe i (pipe_at s i) s = s"
  by (simp add: set_pipe_def pipe_at_def)

subsection \<open>Read and write\<close>

definition reader_waits :: "u64 \<Rightarrow> Pipe \<Rightarrow> Pipe" where
  "reader_waits pid p = p\<lparr>pp_readers := pipe_queue_push (pp_readers p) pid\<rparr>"

definition writer_waits :: "u64 \<Rightarrow> Pipe \<Rightarrow> Pipe" where
  "writer_waits pid p = p\<lparr>pp_writers := pipe_queue_push (pp_writers p) pid\<rparr>"

lemma waits_wf: "pipe_wf p \<Longrightarrow> pipe_wf (reader_waits pid p) \<and> pipe_data (reader_waits pid p) = pipe_data p"
  "pipe_wf p \<Longrightarrow> pipe_wf (writer_waits pid p) \<and> pipe_data (writer_waits pid p) = pipe_data p"
  by (simp_all add: pipe_wf_def reader_waits_def writer_waits_def pipe_data_def pipe_queue_push)

text \<open>Reading from a pipe with data.\<close>

lemma pipe_read1_data:
  assumes w: "pipe_wf p" and c: "pp_count p \<noteq> 0" and n: "n = min cnt (pp_count p)" and pos: "cnt \<noteq> 0"
  shows "\<exists>p' s'. pipe_read1 cnt p s = (of_nat n, take n (pipe_data p), p', s') \<and> pipe_wf p' \<and>
    pipe_data p' = drop n (pipe_data p) \<and> pp_readers p' = pp_readers p \<and>
    pp_open_read p' = pp_open_read p \<and> pp_open_write p' = pp_open_write p \<and> pp_in_use p' = pp_in_use p \<and> benign s s' \<and>
    (case items (pp_writers p) of [] \<Rightarrow> s' = s \<and> items (pp_writers p') = []
     | pid # rest \<Rightarrow> s' = process_unblock pid s \<and> items (pp_writers p') = rest)"
proof -
  have nn: "(if cnt > pp_count p then pp_count p else cnt) = n" using n by simp
  have "n \<le> pp_count p" using n by simp
  from pipe_copy_out [OF w this] obtain i where i:
    "pipe_copy_out n p = (take n (pipe_data p), p\<lparr>pp_read_idx := i, pp_count := pp_count p - n\<rparr>)"
    "pipe_data (p\<lparr>pp_read_idx := i, pp_count := pp_count p - n\<rparr>) = drop n (pipe_data p)"
    "pipe_wf (p\<lparr>pp_read_idx := i, pp_count := pp_count p - n\<rparr>)" by blast
  let ?p = "p\<lparr>pp_read_idx := i, pp_count := pp_count p - n\<rparr>"
  have "0 < n" using n c pos by simp
  then have lt: "pp_count ?p < PIPE_BUFFER_SIZE" using w c by (auto simp: pipe_wf_def)
  have run: "pipe_read1 cnt p s = (of_nat n, take n (pipe_data p),
      if q_count (pp_writers p) > 0 then pipe_wake_writer ?p s else (?p, s))"
    using c lt unfolding pipe_read1_def Let_def nn i(1) by simp
  show ?thesis
  proof (cases "items (pp_writers p)")
    case Nil
    then have "q_count (pp_writers p) = 0" by simp
    with run i(2,3) show ?thesis unfolding Nil list.case by (intro exI [of _ ?p] exI [of _ s]) (simp add: Nil)
  next
    case (Cons pid rest)
    then have pos: "0 < q_count (pp_writers p)" by (metis items_eq_Nil list.distinct(1) neq0_conv)
    have wq: "pidq_wf (pp_writers p)" using w by (simp add: pipe_wf_def)
    note pop = queue_pop [OF wq pos, unfolded Cons list.sel]
    let ?q = "?p\<lparr>pp_writers := snd (queue_pop (pp_writers p))\<rparr>"
    have "pipe_wake_writer ?p s = (?q, process_unblock pid s)"
      using pos pop by (simp add: pipe_wake_writer_def case_prod_beta)
    moreover have "pipe_wf ?q" using i(3) pop(1) by (simp add: pipe_wf_def)
    moreover have "pipe_data ?q = drop n (pipe_data p)" using i(2) by (simp add: pipe_data_def)
    ultimately show ?thesis unfolding Cons list.case
      using run pos pop(3) benign_process_unblock by (intro exI [of _ ?q] exI [of _ "process_unblock pid s"]) simp
  qed
qed

lemma pipe_write1_data:
  assumes w: "pipe_wf p" and o: "pp_open_read p \<noteq> 0" and c: "pp_count p < PIPE_BUFFER_SIZE"
    and n: "n = min (length buf) (PIPE_BUFFER_SIZE - pp_count p)" and ne: "buf \<noteq> []"
  shows "\<exists>p' s'. pipe_write1 buf p s = (of_nat n, p', s') \<and> pipe_wf p' \<and>
    pipe_data p' = pipe_data p @ take n buf \<and> pp_writers p' = pp_writers p \<and>
    pp_open_read p' = pp_open_read p \<and> pp_open_write p' = pp_open_write p \<and> pp_in_use p' = pp_in_use p \<and> benign s s' \<and>
    (case items (pp_readers p) of [] \<Rightarrow> s' = s \<and> items (pp_readers p') = []
     | pid # rest \<Rightarrow> s' = process_unblock pid s \<and> items (pp_readers p') = rest)"
proof -
  have nn: "(if length buf < PIPE_BUFFER_SIZE - pp_count p then length buf else PIPE_BUFFER_SIZE - pp_count p) = n"
    using n by simp
  have ln: "length (take n buf) = n" using n by simp
  have "pp_count p + length (take n buf) \<le> PIPE_BUFFER_SIZE" using ln n c by simp
  from pipe_copy_in [OF w this] obtain b i where i:
    "pipe_copy_in (take n buf) p = p\<lparr>pp_buffer := b, pp_write_idx := i, pp_count := pp_count p + n\<rparr>"
    "pipe_data (pipe_copy_in (take n buf) p) = pipe_data p @ take n buf" "pipe_wf (pipe_copy_in (take n buf) p)"
    unfolding ln by blast
  let ?p = "p\<lparr>pp_buffer := b, pp_write_idx := i, pp_count := pp_count p + n\<rparr>"
  have "0 < n" using n c ne by simp
  then have run: "pipe_write1 buf p s = (of_nat n, if q_count (pp_readers p) > 0 then pipe_wake_reader ?p s else (?p, s))"
    using o c unfolding pipe_write1_def Let_def nn i(1) by simp
  show ?thesis
  proof (cases "items (pp_readers p)")
    case Nil
    then have "q_count (pp_readers p) = 0" by simp
    with run i show ?thesis unfolding Nil list.case by (intro exI [of _ ?p] exI [of _ s]) (simp add: Nil)
  next
    case (Cons pid rest)
    then have pos: "0 < q_count (pp_readers p)" by (metis items_eq_Nil list.distinct(1) neq0_conv)
    have wq: "pidq_wf (pp_readers p)" using w by (simp add: pipe_wf_def)
    note pop = queue_pop [OF wq pos, unfolded Cons list.sel]
    let ?q = "?p\<lparr>pp_readers := snd (queue_pop (pp_readers p))\<rparr>"
    have "pipe_wake_reader ?p s = (?q, process_unblock pid s)"
      using pos pop by (simp add: pipe_wake_reader_def case_prod_beta)
    moreover have "pipe_wf ?q" using i(1,3) pop(1) by (simp add: pipe_wf_def)
    moreover have "pipe_data ?q = pipe_data p @ take n buf" using i(1,2) by (simp add: pipe_data_def)
    ultimately show ?thesis unfolding Cons list.case
      using run pos pop(3) benign_process_unblock by (intro exI [of _ ?q] exI [of _ "process_unblock pid s"]) simp
  qed
qed

lemma pipe_block_wf:
  assumes "pipe_wf p"
  shows "pipe_wf (fst (pipe_block_reader p s)) \<and> pipe_data (fst (pipe_block_reader p s)) = pipe_data p \<and>
      benign s (snd (pipe_block_reader p s))"
    "pipe_wf (fst (pipe_block_writer p s)) \<and> pipe_data (fst (pipe_block_writer p s)) = pipe_data p \<and>
      benign s (snd (pipe_block_writer p s))"
  using assms waits_wf [OF assms] benign_process_block [of s]
  by (simp_all add: pipe_block_reader_def pipe_block_writer_def reader_waits_def writer_waits_def split: option.split)

subsection \<open>The properties\<close>

definition demo_pipe :: pipesys where
  "demo_pipe = semsys.extend demo_sem \<lparr>pipe_table =
     zero_pipe\<lparr>pp_in_use := True, pp_open_read := 1, pp_open_write := 1\<rparr> # replicate 31 zero_pipe\<rparr>"

lemma demo_pipe_fields:
  "process_table demo_pipe = demo_table" "current_process demo_pipe = Some 1" "next_pid demo_pipe = 3"
  "length (pipe_table demo_pipe) = 32"
  "pipe_at demo_pipe 0 = zero_pipe\<lparr>pp_in_use := True, pp_open_read := 1, pp_open_write := 1\<rparr>"
  by (simp_all add: demo_pipe_def demo_sem_def demo_s_def semsys.defs ssys.defs psys.defs pipe_at_def)

lemma demo_pipe_wf: "pipe_wf (pipe_at demo_pipe 0)" "table_inv demo_pipe"
  using pipe_wf_zero by (simp add: demo_pipe_fields pipe_wf_def) (rule demo_table_inv, simp_all add: demo_pipe_fields)

text \<open>The current process is blocked.\<close>

lemma block_current:
  assumes "table_inv s" "current_process s = Some c" "p_state (pcb_at s c) = PROCESS_RUNNING"
  shows "pcb_at (process_block (p_pid (pcb_at s c)) s) k = (if k = c then (pcb_at s c)\<lparr>p_state := PROCESS_BLOCKED\<rparr> else pcb_at s k)"
    "force_switch (process_block (p_pid (pcb_at s c)) s)"
proof -
  have len: "c < length (process_table s)" using table_inv_current [OF assms(1,2)] table_inv_length [OF assms(1)] by simp
  then have lc: "live s c" using assms(3) by (simp add: live_def)
  have g: "process_get s (p_pid (pcb_at s c)) = Some c" by (rule table_inv_get [OF assms(1) lc])
  let ?u = "upd_pcb c (\<lambda>p. p\<lparr>p_state := PROCESS_BLOCKED\<rparr>) s"
  have eq: "process_block (p_pid (pcb_at s c)) s = ?u\<lparr>force_switch := True\<rparr>"
    using assms(2,3) unfolding process_block_def g Let_def by simp
  have "pcb_at (?u\<lparr>force_switch := True\<rparr>) k = pcb_at ?u k" by (simp add: pcb_at_def)
  then show "pcb_at (process_block (p_pid (pcb_at s c)) s) k = (if k = c then (pcb_at s c)\<lparr>p_state := PROCESS_BLOCKED\<rparr> else pcb_at s k)"
    unfolding eq using len by (simp add: pcb_at_upd)
  show "force_switch (process_block (p_pid (pcb_at s c)) s)" unfolding eq by simp
qed

text \<open>C15: Reading up to \<open>cnt\<close> bytes from pipe \<open>i\<close> by a running process. With data in the pipe it
  returns the oldest \<open>min cnt count\<close> bytes, removes them, and wakes the writer that has waited
  longest, if any. Without data it returns 0 at end of file (a named pipe whose flag \<open>eof\<close> is set, as
  its last writer does when it was opened twice or more, an anonymous pipe without writers); otherwise the process is queued once as a reader and
  blocked, and the result is -1.\<close>

theorem pipe_read_spec:
  assumes "pipe_wf (pipe_at s i)" "i < length (pipe_table s)" "cnt \<noteq> 0" "table_inv s"
    "current_process s = Some c" "p_state (pcb_at s c) = PROCESS_RUNNING"
  shows "case pipe_read (Some i) True cnt s of (r, bs, s') \<Rightarrow>
    pipe_wf (pipe_at s' i) \<and> benign s s' \<and> (\<forall>j. j \<noteq> i \<longrightarrow> pipe_at s' j = pipe_at s j) \<and>
    (if pipe_data (pipe_at s i) \<noteq> []
     then r = of_nat (min cnt (pp_count (pipe_at s i))) \<and> bs = take cnt (pipe_data (pipe_at s i)) \<and>
       pipe_data (pipe_at s' i) = drop cnt (pipe_data (pipe_at s i)) \<and>
       (\<forall>pid rest. items (pp_writers (pipe_at s i)) = pid # rest \<longrightarrow>
          items (pp_writers (pipe_at s' i)) = rest \<and> \<not> pid_blocked pid s')
     else if (if pp_is_named (pipe_at s i) then pp_eof (pipe_at s i) else pp_open_write (pipe_at s i) = 0)
     then r = 0 \<and> bs = [] \<and> s' = s
     else r = READ_BLOCKED \<and> bs = [] \<and> p_state (pcb_at s' c) = PROCESS_BLOCKED \<and> force_switch s' \<and>
       items (pp_readers (pipe_at s' i)) =
         (if q_count (pp_readers (pipe_at s i)) < MAX_PROCESSES \<and> p_pid (pcb_at s c) \<notin> set (items (pp_readers (pipe_at s i)))
          then items (pp_readers (pipe_at s i)) @ [p_pid (pcb_at s c)] else items (pp_readers (pipe_at s i))))"
proof -
  let ?p = "pipe_at s i"
  have ne: "pipe_data ?p \<noteq> [] \<longleftrightarrow> pp_count ?p \<noteq> 0" by (metis length_0_conv length_pipe_data)
  consider (data) "pp_count ?p \<noteq> 0"
    | (eof) "pp_count ?p = 0" "if pp_is_named ?p then pp_eof ?p else pp_open_write ?p = 0"
    | (block) "pp_count ?p = 0" "\<not> (if pp_is_named ?p then pp_eof ?p else pp_open_write ?p = 0)" by blast
  then show ?thesis
  proof cases
    case data
    let ?n = "min cnt (pp_count ?p)"
    from pipe_read1_data [OF assms(1) data refl assms(3), of s] obtain p' s' where
      r: "pipe_read1 cnt ?p s = (of_nat ?n, take ?n (pipe_data ?p), p', s')" "pipe_wf p'"
      "pipe_data p' = drop ?n (pipe_data ?p)" "benign s s'"
      "case items (pp_writers ?p) of [] \<Rightarrow> s' = s \<and> items (pp_writers p') = []
        | pid # rest \<Rightarrow> s' = process_unblock pid s \<and> items (pp_writers p') = rest" by blast
    have tk: "take ?n (pipe_data ?p) = take cnt (pipe_data ?p)" "drop ?n (pipe_data ?p) = drop cnt (pipe_data ?p)"
      by (simp_all add: min_def)
    have pt: "pipe_table s' = pipe_table s" using r(5) by (simp split: list.splits)
    have il: "i < length (pipe_table s')" using assms(2) pt by simp
    have run: "pipe_read (Some i) True cnt s = (of_nat ?n, take cnt (pipe_data ?p), set_pipe i p' s')"
      using r(1) assms(3) tk by (simp add: pipe_read_def)
    have "items (pp_writers p') = rest \<and> \<not> pid_blocked pid s'" if "items (pp_writers ?p) = pid # rest" for pid rest
      using r(5) that pw.wake_awake by simp
    then show ?thesis unfolding run using r il tk data ne pt by (simp add: pipe_at_def [of s] pipe_at_def [of s'])
  next
    case eof
    then have "pipe_read (Some i) True cnt s = (0, [], s)"
      using assms(3) by (auto simp: pipe_read_def pipe_read1_def set_pipe_same split: if_splits)
    then show ?thesis using eof ne assms(1) by simp
  next
    case block
    let ?pid = "p_pid (pcb_at s c)"
    have run: "pipe_read (Some i) True cnt s = (READ_BLOCKED, [], set_pipe i (reader_waits ?pid ?p) (process_block ?pid s))"
      using block assms(3,5) by (auto simp: pipe_read_def pipe_read1_def pipe_block_reader_def process_current_def
          reader_waits_def split: if_splits)
    have q: "pidq_wf (pp_readers ?p)" using assms(1) by (simp add: pipe_wf_def)
    show ?thesis
      unfolding run using block ne assms(2) waits_wf(1) [OF assms(1), of ?pid] benign_process_block [of s ?pid]
        block_current [OF assms(4-6)] pipe_queue_push(2) [OF q, of ?pid]
      by (simp add: reader_waits_def)
  qed
qed

theorem pipe_read_spec_witness:
  "case pipe_read (Some 0) True 10 demo_pipe of (r, bs, s') \<Rightarrow>
     r = READ_BLOCKED \<and> items (pp_readers (pipe_at s' 0)) = [2] \<and> p_state (pcb_at s' 1) = PROCESS_BLOCKED"
proof -
  have st: "p_state (pcb_at demo_pipe 1) = PROCESS_RUNNING" and pd: "p_pid (pcb_at demo_pipe 1) = 2"
    by (simp_all add: pcb_at_def demo_pipe_fields demo_table_nth demo_pcb_def)
  have d: "pipe_data (pipe_at demo_pipe 0) = []" "\<not> pp_is_named (pipe_at demo_pipe 0)" "pp_open_write (pipe_at demo_pipe 0) = 1"
    "q_count (pp_readers (pipe_at demo_pipe 0)) = 0" "items (pp_readers (pipe_at demo_pipe 0)) = []"
    by (simp_all add: demo_pipe_fields zero_pipe_def pipe_data_def empty_pidq_def)
  show ?thesis
    using pipe_read_spec [OF demo_pipe_wf(1) _ _ demo_pipe_wf(2) demo_pipe_fields(2) st, of 10] d pd
    by (auto simp: demo_pipe_fields(4) split: prod.splits)
qed

text \<open>C16: Writing the bytes \<open>buf\<close> to pipe \<open>i\<close> by a running process. With a reader and room it
  appends as many bytes as fit, returns their number, and wakes the reader that has waited longest,
  if any. Without readers it returns 0 (anonymous pipe, or end of file); a named pipe without
  readers and a full pipe queue the process once as a writer, block it, and return -1.\<close>

theorem pipe_write_spec:
  assumes "pipe_wf (pipe_at s i)" "i < length (pipe_table s)" "buf \<noteq> []" "table_inv s"
    "current_process s = Some c" "p_state (pcb_at s c) = PROCESS_RUNNING"
  shows "case pipe_write (Some i) (Some buf) s of (r, s') \<Rightarrow>
    pipe_wf (pipe_at s' i) \<and> benign s s' \<and> (\<forall>j. j \<noteq> i \<longrightarrow> pipe_at s' j = pipe_at s j) \<and>
    (if pp_open_read (pipe_at s i) = 0 \<and> (\<not> pp_is_named (pipe_at s i) \<or> pp_eof (pipe_at s i)) then r = 0 \<and> s' = s
     else if pp_open_read (pipe_at s i) = 0 \<or> PIPE_BUFFER_SIZE \<le> pp_count (pipe_at s i)
     then r = READ_BLOCKED \<and> p_state (pcb_at s' c) = PROCESS_BLOCKED \<and> force_switch s' \<and>
       pipe_data (pipe_at s' i) = pipe_data (pipe_at s i) \<and>
       items (pp_writers (pipe_at s' i)) =
         (if q_count (pp_writers (pipe_at s i)) < MAX_PROCESSES \<and> p_pid (pcb_at s c) \<notin> set (items (pp_writers (pipe_at s i)))
          then items (pp_writers (pipe_at s i)) @ [p_pid (pcb_at s c)] else items (pp_writers (pipe_at s i)))
     else (let n = min (length buf) (PIPE_BUFFER_SIZE - pp_count (pipe_at s i)) in
       r = of_nat n \<and> pipe_data (pipe_at s' i) = pipe_data (pipe_at s i) @ take n buf \<and>
       (\<forall>pid rest. items (pp_readers (pipe_at s i)) = pid # rest \<longrightarrow>
          items (pp_readers (pipe_at s' i)) = rest \<and> \<not> pid_blocked pid s')))"
proof -
  let ?p = "pipe_at s i"
  consider (none) "pp_open_read ?p = 0 \<and> (\<not> pp_is_named ?p \<or> pp_eof ?p)"
    | (block) "\<not> (pp_open_read ?p = 0 \<and> (\<not> pp_is_named ?p \<or> pp_eof ?p))" "pp_open_read ?p = 0 \<or> PIPE_BUFFER_SIZE \<le> pp_count ?p"
    | (data) "pp_open_read ?p \<noteq> 0" "pp_count ?p < PIPE_BUFFER_SIZE" by (meson not_less)
  then show ?thesis
  proof cases
    case none
    then have "pipe_write (Some i) (Some buf) s = (0, s)"
      using assms(3) by (auto simp: pipe_write_def pipe_write1_def set_pipe_same)
    then show ?thesis using none assms(1) by simp
  next
    case block
    let ?pid = "p_pid (pcb_at s c)"
    have run: "pipe_write (Some i) (Some buf) s = (READ_BLOCKED, set_pipe i (writer_waits ?pid ?p) (process_block ?pid s))"
      using block assms(3,5) by (auto simp: pipe_write_def pipe_write1_def pipe_block_writer_def process_current_def writer_waits_def)
    have q: "pidq_wf (pp_writers ?p)" using assms(1) by (simp add: pipe_wf_def)
    show ?thesis
      unfolding run prod.case if_not_P [OF block(1)] if_P [OF block(2)]
      using assms(2) waits_wf(2) [OF assms(1), of ?pid] benign_process_block [of s ?pid]
        block_current [OF assms(4-6)] pipe_queue_push(2) [OF q, of ?pid]
      by (simp add: writer_waits_def)
  next
    case data
    let ?n = "min (length buf) (PIPE_BUFFER_SIZE - pp_count ?p)"
    from pipe_write1_data [OF assms(1) data refl assms(3), of s] obtain p' s' where
      r: "pipe_write1 buf ?p s = (of_nat ?n, p', s')" "pipe_wf p'" "pipe_data p' = pipe_data ?p @ take ?n buf" "benign s s'"
      "case items (pp_readers ?p) of [] \<Rightarrow> s' = s \<and> items (pp_readers p') = []
        | pid # rest \<Rightarrow> s' = process_unblock pid s \<and> items (pp_readers p') = rest" by blast
    have pt: "pipe_table s' = pipe_table s" using r(5) by (simp split: list.splits)
    have il: "i < length (pipe_table s')" using assms(2) pt by simp
    have run: "pipe_write (Some i) (Some buf) s = (of_nat ?n, set_pipe i p' s')"
      using r(1) assms(3) by (simp add: pipe_write_def)
    have "items (pp_readers p') = rest \<and> \<not> pid_blocked pid s'" if "items (pp_readers ?p) = pid # rest" for pid rest
      using r(5) that pw.wake_awake by simp
    then show ?thesis unfolding run using r il data pt by (simp add: pipe_at_def [of s] pipe_at_def [of s'] Let_def)
  qed
qed

theorem pipe_write_spec_witness:
  "case pipe_write (Some 0) (Some [1, 2, 3]) demo_pipe of (r, s') \<Rightarrow> r = 3 \<and> pipe_data (pipe_at s' 0) = [1, 2, 3]"
proof -
  have st: "p_state (pcb_at demo_pipe 1) = PROCESS_RUNNING"
    by (simp add: pcb_at_def demo_pipe_fields demo_table_nth demo_pcb_def)
  have d: "pipe_data (pipe_at demo_pipe 0) = []" "pp_open_read (pipe_at demo_pipe 0) = 1" "pp_count (pipe_at demo_pipe 0) = 0"
    by (simp_all add: demo_pipe_fields zero_pipe_def pipe_data_def)
  show ?thesis
    using pipe_write_spec [OF demo_pipe_wf(1) _ _ demo_pipe_wf(2) demo_pipe_fields(2) st, of "[1, 2, 3]"] d
    by (auto simp: demo_pipe_fields(4) Let_def split: prod.splits)
qed

subsection \<open>The byte stream\<close>

text \<open>What can happen to a pipe: reads and writes, ends that are opened and closed, another user that finds it by its name
  (or takes another pipe), the death of a process.\<close>

datatype pipe_op = PRead nat | PWrite "u8 list" | POpenRead | POpenWrite | PCloseRead | PCloseWrite | PUse "string option" | PDeath u64

text \<open>The bytes read, the bytes accepted, and the new state.\<close>

fun pipe_exec :: "nat \<Rightarrow> pipe_op \<Rightarrow> 'a pipesys_scheme \<Rightarrow> u8 list \<times> u8 list \<times> 'a pipesys_scheme" where
  "pipe_exec i (PRead n) s = (let (r, bs, s1) = pipe_read (Some i) True n s in (bs, [], s1))"
| "pipe_exec i (PWrite buf) s =
     (let (r, s1) = pipe_write (Some i) (Some buf) s in ([], if r = READ_BLOCKED then [] else take (unat r) buf, s1))"
| "pipe_exec i POpenRead s = ([], [], pipe_open_read (Some i) s)"
| "pipe_exec i POpenWrite s = ([], [], pipe_open_write (Some i) s)"
| "pipe_exec i PCloseRead s = ([], [], pipe_close_read (Some i) s)"
| "pipe_exec i PCloseWrite s = ([], [], pipe_close_write (Some i) s)"
| "pipe_exec i (PUse name) s = ([], [], snd (pipe_open name s))"
| "pipe_exec i (PDeath pid) s = ([], [], pipe_cleanup_for_process pid s)"

text \<open>A sequence of them. The process that makes each call, and whatever else happens between two calls, are what
  \<open>env\<close> makes of the state. The sequence ends when the last end is closed and the slot becomes free.\<close>

fun stream :: "('a pipesys_scheme \<Rightarrow> 'a pipesys_scheme) \<Rightarrow> nat \<Rightarrow> pipe_op list \<Rightarrow> 'a pipesys_scheme \<Rightarrow>
    u8 list \<times> u8 list \<times> 'a pipesys_scheme" where
  "stream env i [] s = ([], [], s)"
| "stream env i (op # ops) s =
     (let (bs, as, s1) = pipe_exec i op s
      in if \<not> pp_in_use (pipe_at s1 i) then (bs, as, s1)
         else let (out, acc, s2) = stream env i ops (env s1) in (bs @ out, as @ acc, s2))"

text \<open>The environment may do anything to processes and to other pipes, and change the ends and the queues of pipe \<open>i\<close>, but
  neither its bytes nor whether it is in use.\<close>

definition pipe_env :: "nat \<Rightarrow> ('a pipesys_scheme \<Rightarrow> 'a pipesys_scheme) \<Rightarrow> bool" where
  "pipe_env i env \<longleftrightarrow> (\<forall>t. length (pipe_table (env t)) = length (pipe_table t) \<and>
     pp_in_use (pipe_at (env t) i) = pp_in_use (pipe_at t i) \<and> pipe_data (pipe_at (env t) i) = pipe_data (pipe_at t i) \<and>
     (pipe_wf (pipe_at t i) \<longrightarrow> pipe_wf (pipe_at (env t) i)))"

lemma read_conserves:
  assumes "pipe_wf (pipe_at s i)" "i < length (pipe_table s)"
  shows "\<exists>r bs s'. pipe_read (Some i) True n s = (r, bs, s') \<and> pipe_wf (pipe_at s' i) \<and>
    length (pipe_table s') = length (pipe_table s) \<and> pp_in_use (pipe_at s' i) = pp_in_use (pipe_at s i) \<and>
    pipe_data (pipe_at s i) = bs @ pipe_data (pipe_at s' i)"
proof (cases "n = 0 \<or> pp_count (pipe_at s i) = 0")
  case True
  have pt: "length (pipe_table (snd (pipe_block_reader (pipe_at s i) s))) = length (pipe_table s)"
    "pp_in_use (fst (pipe_block_reader (pipe_at s i) s)) = pp_in_use (pipe_at s i)"
    by (simp_all add: pipe_block_reader_def split: option.split)
  show ?thesis
    using True assms pipe_block_wf(1) [OF assms(1), of s] pt
    by (auto simp: pipe_read_def pipe_read1_def set_pipe_same case_prod_beta)
next
  case False
  let ?n = "min n (pp_count (pipe_at s i))"
  from False pipe_read1_data [OF assms(1) _ refl, of n s] obtain p' s' where
    r: "pipe_read1 n (pipe_at s i) s = (of_nat ?n, take ?n (pipe_data (pipe_at s i)), p', s')" "pipe_wf p'"
    "pipe_data p' = drop ?n (pipe_data (pipe_at s i))" "pp_in_use p' = pp_in_use (pipe_at s i)"
    "case items (pp_writers (pipe_at s i)) of [] \<Rightarrow> s' = s \<and> items (pp_writers p') = []
        | pid # rest \<Rightarrow> s' = process_unblock pid s \<and> items (pp_writers p') = rest" by blast
  have pt: "pipe_table s' = pipe_table s" using r(5) by (simp split: list.splits)
  then have il: "i < length (pipe_table s')" using assms(2) by simp
  have "pipe_read (Some i) True n s = (of_nat ?n, take ?n (pipe_data (pipe_at s i)), set_pipe i p' s')"
    using r(1) False by (simp add: pipe_read_def)
  with r il pt show ?thesis by simp
qed

lemma write_conserves:
  assumes "pipe_wf (pipe_at s i)" "i < length (pipe_table s)"
  shows "\<exists>r s'. pipe_write (Some i) (Some buf) s = (r, s') \<and> pipe_wf (pipe_at s' i) \<and>
    length (pipe_table s') = length (pipe_table s) \<and> pp_in_use (pipe_at s' i) = pp_in_use (pipe_at s i) \<and>
    pipe_data (pipe_at s' i) = pipe_data (pipe_at s i) @ (if r = READ_BLOCKED then [] else take (unat r) buf)"
proof (cases "buf = [] \<or> pp_open_read (pipe_at s i) = 0 \<or> PIPE_BUFFER_SIZE \<le> pp_count (pipe_at s i)")
  case True
  have pt: "length (pipe_table (snd (pipe_block_writer (pipe_at s i) s))) = length (pipe_table s)"
    "pp_in_use (fst (pipe_block_writer (pipe_at s i) s)) = pp_in_use (pipe_at s i)"
    by (simp_all add: pipe_block_writer_def split: option.split)
  show ?thesis
    using True assms pipe_block_wf(2) [OF assms(1), of s] pt
    by (auto simp: pipe_write_def pipe_write1_def set_pipe_same case_prod_beta)
next
  case False
  let ?n = "min (length buf) (PIPE_BUFFER_SIZE - pp_count (pipe_at s i))"
  from False pipe_write1_data [OF assms(1) _ _ refl, of buf s] obtain p' s' where
    r: "pipe_write1 buf (pipe_at s i) s = (of_nat ?n, p', s')" "pipe_wf p'"
    "pipe_data p' = pipe_data (pipe_at s i) @ take ?n buf" "pp_in_use p' = pp_in_use (pipe_at s i)"
    "case items (pp_readers (pipe_at s i)) of [] \<Rightarrow> s' = s \<and> items (pp_readers p') = []
        | pid # rest \<Rightarrow> s' = process_unblock pid s \<and> items (pp_readers p') = rest" by (auto simp: not_le)
  have pt: "pipe_table s' = pipe_table s" using r(5) by (simp split: list.splits)
  then have il: "i < length (pipe_table s')" using assms(2) by simp
  have n: "?n < 2 ^ 64 - 1" by simp
  then have u: "unat (of_nat ?n :: u64) = ?n" unfolding unat_of_nat by (intro mod_less) simp
  have "(of_nat ?n :: u64) \<noteq> READ_BLOCKED"
  proof
    assume "(of_nat ?n :: u64) = READ_BLOCKED"
    then have "?n = unat (- 1 :: u64)" using u by simp
    with n show False by (simp add: unsigned_minus_1_eq_mask mask_eq_exp_minus_1)
  qed
  moreover have "pipe_write (Some i) (Some buf) s = (of_nat ?n, set_pipe i p' s')"
    using r(1) False by (simp add: pipe_write_def)
  ultimately show ?thesis using r(2-4) il pt u by simp
qed

text \<open>One end more or less: the bytes stay until the last end is closed.\<close>

definition bytes_kept :: "Pipe \<Rightarrow> Pipe \<Rightarrow> bool" where
  "bytes_kept p q \<longleftrightarrow> pp_in_use q \<longrightarrow> pipe_wf q \<and> pipe_data q = pipe_data p"

lemma maybe_free_kept: "pipe_wf q \<Longrightarrow> pipe_data q = pipe_data p \<Longrightarrow> bytes_kept p (pipe_maybe_free q)"
  by (simp add: bytes_kept_def pipe_maybe_free_def)

lemma wake_all_kept:
  assumes "pipe_wf p"
  shows "pipe_wf (fst (pipe_wake_all_readers p s))" "pipe_data (fst (pipe_wake_all_readers p s)) = pipe_data p"
    "pipe_wf (fst (pipe_wake_all_writers p s))" "pipe_data (fst (pipe_wake_all_writers p s)) = pipe_data p"
    "pipe_table (snd (pipe_wake_all_readers p t)) = pipe_table t"
    "pipe_table (snd (pipe_wake_all_writers p t)) = pipe_table t"
proof -
  have q: "pidq_wf (pp_readers p)" "pidq_wf (pp_writers p)" using assms by (simp_all add: pipe_wf_def)
  show "pipe_wf (fst (pipe_wake_all_readers p s))" "pipe_data (fst (pipe_wake_all_readers p s)) = pipe_data p"
    "pipe_wf (fst (pipe_wake_all_writers p s))" "pipe_data (fst (pipe_wake_all_writers p s)) = pipe_data p"
    "pipe_table (snd (pipe_wake_all_readers p t)) = pipe_table t"
    "pipe_table (snd (pipe_wake_all_writers p t)) = pipe_table t"
    using assms popped_all [OF q(1) refl] popped_all [OF q(2) refl]
    by (simp_all add: wake_all_readers [OF q(1)] wake_all_writers [OF q(2)] pipe_wf_def pipe_data_def)
qed

lemma ends_only_data:
  "pipe_wf (p\<lparr>pp_open_read := a\<rparr>) = pipe_wf p" "pipe_wf (p\<lparr>pp_open_write := a\<rparr>) = pipe_wf p" "pipe_wf (p\<lparr>pp_eof := e\<rparr>) = pipe_wf p"
  "pipe_data (p\<lparr>pp_open_read := a\<rparr>) = pipe_data p" "pipe_data (p\<lparr>pp_open_write := a\<rparr>) = pipe_data p"
  "pipe_data (p\<lparr>pp_eof := e\<rparr>) = pipe_data p"
  "pipe_wf (p\<lparr>pp_open_write := a, pp_eof := e\<rparr>) = pipe_wf p" "pipe_data (p\<lparr>pp_open_write := a, pp_eof := e\<rparr>) = pipe_data p"
  by (simp_all add: pipe_wf_def pipe_data_def)

lemmas ends_simps = wake_all_kept ends_only_data

lemma ends_kept:
  assumes w: "pipe_wf p"
  shows "bytes_kept p (fst (pipe_open_read1 p s))" "pipe_table (snd (pipe_open_read1 p t)) = pipe_table t"
    "bytes_kept p (fst (pipe_open_write1 p s))" "pipe_table (snd (pipe_open_write1 p t)) = pipe_table t"
    "bytes_kept p (fst (pipe_close_read1 p s))" "pipe_table (snd (pipe_close_read1 p t)) = pipe_table t"
    "bytes_kept p (fst (pipe_close_write1 p s))" "pipe_table (snd (pipe_close_write1 p t)) = pipe_table t"
  using w
  by (simp_all add: pipe_open_read1_def pipe_open_write1_def pipe_close_read1_def pipe_close_write1_def Let_def case_prod_beta
      ends_simps maybe_free_kept) (simp_all add: bytes_kept_def ends_simps)

lemma on_pipe_kept:
  assumes "bytes_kept (pipe_at s i) (fst (f (pipe_at s i) s))" "pipe_table (snd (f (pipe_at s i) s)) = pipe_table s"
    "i < length (pipe_table s)"
  shows "bytes_kept (pipe_at s i) (pipe_at (on_pipe f (Some i) s) i) \<and> length (pipe_table (on_pipe f (Some i) s)) = length (pipe_table s)"
  using assms by (simp add: on_pipe_def case_prod_beta)

lemma pipe_open_kept:
  assumes "pipe_wf (pipe_at s i)" "i < length (pipe_table s)" "pp_in_use (pipe_at s i)"
  shows "bytes_kept (pipe_at s i) (pipe_at (snd (pipe_open name s)) i) \<and> length (pipe_table (snd (pipe_open name s))) = length (pipe_table s)"
proof -
  have opens: "bytes_kept (pipe_at s i) (pipe_at (set_pipe j ((pipe_at s j)\<lparr>pp_opens := n\<rparr>) s) i)" if "j < length (pipe_table s)" for j n
    using that assms by (auto simp: bytes_kept_def pipe_wf_def pipe_data_def)
  have other: "pipe_at (snd (pipe_alloc s)) i = pipe_at s i \<and> length (pipe_table (snd (pipe_alloc s))) = length (pipe_table s) \<and>
      (\<forall>j. fst (pipe_alloc s) = Some j \<longrightarrow> j \<noteq> i \<and> j < length (pipe_table s))"
    using assms(3) by (auto simp: pipe_alloc_def pipe_at_def [of s] dest!: first_idx_SomeD split: option.split)
  have same: "bytes_kept (pipe_at s i) (pipe_at s i)" using assms(1) by (simp add: bytes_kept_def)
  obtain a t where at: "pipe_alloc s = (a, t)" by fastforce
  have fresh: "bytes_kept (pipe_at s i) (pipe_at (snd (case pipe_alloc s of
       (None, s1) \<Rightarrow> (None, s1)
     | (Some i, s1) \<Rightarrow> (case name of None \<Rightarrow> (Some i, s1)
         | Some n \<Rightarrow> (Some i, set_pipe i ((pipe_at s1 i)\<lparr>pp_name := str_copy_loop PIPE_NAME_LEN n 0,
             pp_is_named := True, pp_opens := 1\<rparr>) s1)))) i) \<and>
    length (pipe_table (snd (case pipe_alloc s of
       (None, s1) \<Rightarrow> (None, s1)
     | (Some i, s1) \<Rightarrow> (case name of None \<Rightarrow> (Some i, s1)
         | Some n \<Rightarrow> (Some i, set_pipe i ((pipe_at s1 i)\<lparr>pp_name := str_copy_loop PIPE_NAME_LEN n 0,
             pp_is_named := True, pp_opens := 1\<rparr>) s1))))) = length (pipe_table s)"
    using other same by (cases a; cases name) (auto simp: at)
  show ?thesis
    using fresh opens first_idx_SomeD
    unfolding pipe_open_def Let_def by (auto split: option.split dest!: first_idx_SomeD)
qed

lemma exec_conserves:
  assumes "pipe_wf (pipe_at s i)" "i < length (pipe_table s)" "pp_in_use (pipe_at s i)"
  shows "case pipe_exec i op s of (bs, as, s') \<Rightarrow> length (pipe_table s') = length (pipe_table s) \<and>
    (if pp_in_use (pipe_at s' i) then pipe_wf (pipe_at s' i) \<and> pipe_data (pipe_at s i) @ as = bs @ pipe_data (pipe_at s' i)
     else bs = [] \<and> as = [])"
proof (cases op)
  case (PRead n)
  with read_conserves [OF assms(1,2), of n] assms(3) show ?thesis by fastforce
next
  case (PWrite buf)
  with write_conserves [OF assms(1,2), of buf] assms(3) show ?thesis by fastforce
next
  case (PUse name)
  with pipe_open_kept [OF assms, of name] show ?thesis by (simp add: bytes_kept_def)
next
  case (PDeath pid)
  have "pidq_wf (pp_readers (pipe_at s i))" "pidq_wf (pp_writers (pipe_at s i))" using assms(1) by (simp_all add: pipe_wf_def)
  then have "bytes_kept (pipe_at s i) (pipe_forget pid (pipe_at s i))"
    using assms(1) queue_remove_pid(1) by (auto simp: bytes_kept_def pipe_forget_def pipe_wf_def pipe_data_def)
  then show ?thesis using PDeath assms(2) by (simp add: pipe_cleanup_for_process_def pipe_at_def bytes_kept_def)
next
  case POpenRead
  with on_pipe_kept [of s i pipe_open_read1, OF ends_kept(1,2) [OF assms(1)] assms(2)] show ?thesis by (simp add: pipe_open_read_def bytes_kept_def)
next
  case POpenWrite
  with on_pipe_kept [of s i pipe_open_write1, OF ends_kept(3,4) [OF assms(1)] assms(2)] show ?thesis by (simp add: pipe_open_write_def bytes_kept_def)
next
  case PCloseRead
  with on_pipe_kept [of s i pipe_close_read1, OF ends_kept(5,6) [OF assms(1)] assms(2)] show ?thesis by (simp add: pipe_close_read_def bytes_kept_def)
next
  case PCloseWrite
  with on_pipe_kept [of s i pipe_close_write1, OF ends_kept(7,8) [OF assms(1)] assms(2)] show ?thesis by (simp add: pipe_close_write_def bytes_kept_def)
qed

text \<open>C17: The byte stream of a pipe. However reads and writes, openings and closings of its ends and deaths of processes
  interleave, nothing is duplicated or reordered, and nothing is lost while the pipe is in use: what was buffered at the start
  followed by every byte the writes accepted is exactly what the reads returned followed by what is
  still buffered. When the last end is closed the stream ends; what the reads have returned by then is a prefix of what was
  written, and only what was still buffered is gone.\<close>

theorem pipe_stream:
  assumes "pipe_wf (pipe_at s i)" "i < length (pipe_table s)" "pp_in_use (pipe_at s i)" "pipe_env i env"
  shows "case stream env i ops s of (out, acc, s') \<Rightarrow>
    if pp_in_use (pipe_at s' i)
    then pipe_data (pipe_at s i) @ acc = out @ pipe_data (pipe_at s' i) \<and> pipe_wf (pipe_at s' i)
    else \<exists>gone. pipe_data (pipe_at s i) @ acc = out @ gone"
  using assms(1-3)
proof (induction ops arbitrary: s)
  case (Cons op ops)
  obtain bs as s1 where s1: "pipe_exec i op s = (bs, as, s1)" by (metis prod_cases3)
  note c = exec_conserves [OF Cons.prems, of op, unfolded s1 prod.case]
  show ?case
  proof (cases "pp_in_use (pipe_at s1 i)")
    case True
    obtain out acc s2 where st: "stream env i ops (env s1) = (out, acc, s2)" by (metis prod_cases3)
    have e: "pipe_wf (pipe_at (env s1) i)" "i < length (pipe_table (env s1))" "pp_in_use (pipe_at (env s1) i)"
      "pipe_data (pipe_at (env s1) i) = pipe_data (pipe_at s1 i)"
      using assms(4) True c Cons.prems(2) by (simp_all add: pipe_env_def)
    have d: "pipe_data (pipe_at s i) @ as = bs @ pipe_data (pipe_at s1 i)" using c True by simp
    have "\<exists>rest. pipe_data (pipe_at s1 i) @ acc = out @ rest \<and>
        (pp_in_use (pipe_at s2 i) \<longrightarrow> rest = pipe_data (pipe_at s2 i) \<and> pipe_wf (pipe_at s2 i))"
      using Cons.IH [OF e(1-3)] e(4) by (auto simp: st split: if_splits)
    then show ?thesis using d by (auto simp: s1 True st) (metis append.assoc)+
  next
    case False
    then show ?thesis using c by (simp add: s1)
  qed
qed simp

theorem pipe_stream_witness:
  "case stream id 0 [PWrite [1, 2, 3], PRead 2, POpenWrite, PCloseWrite, PWrite [4], PRead 10] demo_pipe of (out, acc, s') \<Rightarrow>
     \<exists>rest. acc = out @ rest"
proof -
  have d: "pipe_data (pipe_at demo_pipe 0) = []" by (simp add: demo_pipe_fields zero_pipe_def pipe_data_def)
  have u: "pp_in_use (pipe_at demo_pipe 0)" "pipe_env 0 id" by (simp_all add: demo_pipe_fields pipe_env_def)
  show ?thesis
    using pipe_stream [OF demo_pipe_wf(1) _ u, of "[PWrite [1, 2, 3], PRead 2, POpenWrite, PCloseWrite, PWrite [4], PRead 10]"] d
    by (auto simp: demo_pipe_fields(4) simp del: stream.simps split: prod.splits if_splits)
qed

subsection \<open>Closing\<close>

lemma fold_benign: "benign s (fold process_unblock ps s)"
  by (rule pw.fold_le)

text \<open>When the last writer closes its end, every process that waits to read is woken (the loop
  ends and the queue is empty); if a reader is left the pipe stays and is at end of file when it is
  a named pipe that was opened from both sides, and if no end is open any more the slot is free,
  empty and without a name.\<close>

theorem pipe_close_last_writer:
  assumes "pipe_wf (pipe_at s i)" "i < length (pipe_table s)" "pp_open_write (pipe_at s i) \<le> 1"
  shows "benign s (pipe_close_write (Some i) s) \<and>
    (\<forall>pid\<in>set (items (pp_readers (pipe_at s i))). \<not> pid_blocked pid (pipe_close_write (Some i) s)) \<and>
    items (pp_readers (pipe_at (pipe_close_write (Some i) s) i)) = [] \<and>
    pp_open_write (pipe_at (pipe_close_write (Some i) s) i) = 0 \<and> pipe_wf (pipe_at (pipe_close_write (Some i) s) i) \<and>
    (if pp_open_read (pipe_at s i) = 0
     then \<not> pp_in_use (pipe_at (pipe_close_write (Some i) s) i) \<and> pipe_data (pipe_at (pipe_close_write (Some i) s) i) = [] \<and>
       pp_name (pipe_at (pipe_close_write (Some i) s) i) = []
     else pipe_data (pipe_at (pipe_close_write (Some i) s) i) = pipe_data (pipe_at s i) \<and>
       (pp_is_named (pipe_at s i) \<and> 2 \<le> pp_opens (pipe_at s i) \<longrightarrow> pp_eof (pipe_at (pipe_close_write (Some i) s) i)))"
proof -
  let ?p = "pipe_at s i"
  have q: "pidq_wf (pp_readers ?p)" and wq: "pidq_wf (pp_writers ?p)" using assms(1) by (simp_all add: pipe_wf_def)
  let ?c = "(if pp_open_write ?p > 0 then ?p\<lparr>pp_open_write := pp_open_write ?p - 1\<rparr> else ?p)"
  let ?e = "(if pp_is_named ?c \<and> pp_opens ?c \<ge> 2 then ?c\<lparr>pp_eof := True\<rparr> else ?c)"
  let ?r = "popped (q_count (pp_readers ?p)) (pp_readers ?p)"
  let ?s = "fold process_unblock (items (pp_readers ?p)) s"
  have c0: "pp_open_write ?c = 0" using assms(3) by simp
  have er: "pp_readers ?e = pp_readers ?p" by simp
  have "pipe_close_write1 ?p s = (pipe_maybe_free (?e\<lparr>pp_readers := ?r\<rparr>), ?s)"
    unfolding pipe_close_write1_def Let_def if_P [OF c0] wake_all_readers [of ?e, unfolded er, OF q] by simp
  then have run: "pipe_close_write (Some i) s = set_pipe i (pipe_maybe_free (?e\<lparr>pp_readers := ?r\<rparr>)) ?s"
    by (simp add: pipe_close_write_def on_pipe_def)
  have il: "i < length (pipe_table ?s)" using assms(2) by simp
  note pa = popped_all [OF q refl]
  have wf: "pipe_wf (?e\<lparr>pp_readers := ?r\<rparr>)" using assms(1) pa by (simp add: pipe_wf_def)
  have ow: "pp_open_write (?e\<lparr>pp_readers := ?r\<rparr>) = 0" using c0 by simp
  have or: "pp_open_read (?e\<lparr>pp_readers := ?r\<rparr>) = pp_open_read ?p" by simp
  have "pipe_wf (pipe_maybe_free (?e\<lparr>pp_readers := ?r\<rparr>))"
    using wf by (auto simp: pipe_maybe_free_def pipe_reset_def pipe_wf_def pidq_wf_def)
  moreover have "items (pp_readers (pipe_maybe_free (?e\<lparr>pp_readers := ?r\<rparr>))) = []"
    using conjunct2 [OF pa] by (auto simp: pipe_maybe_free_def pipe_reset_def)
  moreover have "\<forall>pid\<in>set (items (pp_readers ?p)). \<not> pid_blocked pid ?s" using pw.fold_awake by blast
  ultimately show ?thesis
    unfolding run using il ow fold_benign
    by (auto simp: pipe_maybe_free_def pipe_reset_def pipe_data_def)
qed

theorem pipe_close_last_writer_witness:
  "\<not> pp_in_use (pipe_at (pipe_close_write (Some 0)
     (set_pipe 0 (zero_pipe\<lparr>pp_in_use := True, pp_open_write := 1\<rparr>) demo_pipe)) 0)"
proof -
  let ?s = "set_pipe 0 (zero_pipe\<lparr>pp_in_use := True, pp_open_write := 1\<rparr>) demo_pipe"
  have l: "0 < length (pipe_table ?s)" by (simp add: demo_pipe_fields)
  have at: "pipe_at ?s 0 = zero_pipe\<lparr>pp_in_use := True, pp_open_write := 1\<rparr>" by (simp add: demo_pipe_fields)
  have w: "pipe_wf (pipe_at ?s 0)" unfolding at using pipe_wf_zero by (simp add: pipe_wf_def)
  have o: "pp_open_write (pipe_at ?s 0) \<le> 1" "pp_open_read (pipe_at ?s 0) = 0" unfolding at by (simp_all add: zero_pipe_def)
  from pipe_close_last_writer [OF w l o(1)] show ?thesis unfolding if_P [OF o(2)] by blast
qed

text \<open>A write wakes one reader, and a read wakes none. When two processes wait for data and the
  one that is woken takes only part of what was written, the other one stays queued and blocked
  while the pipe holds data, until somebody writes again or the last writer closes.\<close>

theorem pipe_reader_stranded:
  assumes "pipe_wf (pipe_at s i)" "i < length (pipe_table s)" "cnt \<noteq> 0" "cnt < pp_count (pipe_at s i)"
    "items (pp_writers (pipe_at s i)) = []" "pid \<in> set (items (pp_readers (pipe_at s i)))" "pid_blocked pid s"
  shows "case pipe_read (Some i) True cnt s of (r, bs, s') \<Rightarrow>
    r = of_nat cnt \<and> pipe_data (pipe_at s' i) \<noteq> [] \<and> pid \<in> set (items (pp_readers (pipe_at s' i))) \<and> pid_blocked pid s'"
proof -
  let ?p = "pipe_at s i"
  have n: "min cnt (pp_count ?p) = cnt" "pp_count ?p \<noteq> 0" using assms(4) by simp_all
  from pipe_read1_data [OF assms(1) n(2) refl assms(3), of s] assms(5) n obtain p' where
    r: "pipe_read1 cnt ?p s = (of_nat cnt, take cnt (pipe_data ?p), p', s)"
    "pipe_data p' = drop cnt (pipe_data ?p)" "pp_readers p' = pp_readers ?p" by auto
  have "pipe_read (Some i) True cnt s = (of_nat cnt, take cnt (pipe_data ?p), set_pipe i p' s)"
    using r(1) assms(3) by (simp add: pipe_read_def)
  then show ?thesis using r(2,3) assms by simp
qed

theorem pipe_reader_stranded_witness:
  "\<exists>s. case pipe_read (Some 0) True 2 s of (r, bs, s') \<Rightarrow>
    r = 2 \<and> pipe_data (pipe_at (s' :: pipesys) 0) \<noteq> [] \<and> pid_blocked 3 s'"
proof -
  let ?w = "reader_waits 3 (pipe_at demo_pipe 0)"
  let ?p = "pipe_copy_in [1, 2, 3] ?w"
  let ?s = "set_pipe 0 ?p (process_block 3 demo_pipe)"
  note ww = waits_wf(1) [OF demo_pipe_wf(1), of 3]
  have e: "pidq_wf (pp_readers (pipe_at demo_pipe 0))" using demo_pipe_wf(1) by (simp add: pipe_wf_def)
  have c0: "pp_count ?w = 0" "items (pp_writers ?w) = []" "items (pp_readers ?w) = [3]"
    using pipe_queue_push(2) [OF e, of 3]
    by (simp_all add: reader_waits_def demo_pipe_fields zero_pipe_def empty_pidq_def)
  have "pp_count ?w + length [1, 2, 3 :: u8] \<le> PIPE_BUFFER_SIZE" using c0(1) by simp
  from pipe_copy_in [OF conjunct1 [OF ww] this] obtain b i where
    i0: "?p = ?w\<lparr>pp_buffer := b, pp_write_idx := i, pp_count := pp_count ?w + length [1, 2, 3 :: u8]\<rparr>" "pipe_wf ?p"
    by blast
  have "pp_count ?w + length [1, 2, 3 :: u8] = 3" using c0(1) by simp
  note i = i0 [unfolded this]
  have l: "0 < length (pipe_table (process_block 3 demo_pipe))" by (simp add: demo_pipe_fields)
  have at: "pipe_at ?s 0 = ?p" using l by simp
  have w: "pipe_wf (pipe_at ?s 0)" "0 < length (pipe_table ?s)" "(2::nat) < pp_count (pipe_at ?s 0)"
    "items (pp_writers (pipe_at ?s 0)) = []" "3 \<in> set (items (pp_readers (pipe_at ?s 0)))"
    unfolding at using i l c0 by simp_all
  have lp: "live demo_pipe 2" "p_pid (pcb_at demo_pipe 2) = 3"
    by (simp_all add: demo_live demo_pipe_fields pcb_at_def demo_table_nth demo_pcb_def)
  then have g: "process_get demo_pipe 3 = Some 2" using table_inv_get [OF demo_pipe_wf(2) lp(1)] by simp
  have "p_state (pcb_at (process_block 3 demo_pipe) 2) = PROCESS_BLOCKED"
    unfolding process_block_def g Let_def
    by (simp add: demo_pipe_fields pcb_at_upd) (simp add: pcb_at_def demo_pipe_fields demo_table_nth demo_pcb_def)
  then have "pid_blocked 3 ?s"
    using g benign_process_get [OF benign_process_block [of demo_pipe 3], of 3] by (simp add: pid_blocked_def)
  from pipe_reader_stranded [OF w(1,2) _ w(3,4,5) this] show ?thesis by (intro exI [of _ ?s]) auto
qed

end
