(* ===== verification/Keyboard.thy ===== *)
theory Keyboard
  imports Pipe
begin

text \<open>
  The state of \<open>Kernel/c/drivers/keyboardDriver.c\<close> and the operations on it that do not touch a
  process: the circular buffer of 256 typed characters, the line buffer of the terminal in
  cooked mode, the slot for the one process that waits for input, and the text of the register
  snapshot with \<open>intToHexa\<close> and \<open>uintToBase\<close> (the latter from \<open>naiveConsole.c\<close>). The
  interrupt handler \<open>handlePressedKey\<close> kills processes on Ctrl-C and comes after them, in the theory
  \<open>Key_Handler\<close>.

  The record adds to the kernel state the static variables of the driver, and the list of the
  characters handed to \<open>videoPutChar\<close> with their colour, newest last: the screen as an output
  device. Characters are bytes.
\<close>

abbreviation (input) BUFF_LENGTH :: nat where "BUFF_LENGTH \<equiv> 256"
abbreviation (input) TTY_RAW :: int where "TTY_RAW \<equiv> 0"
abbreviation (input) TTY_COOKED :: int where "TTY_COOKED \<equiv> 1"

record kbdsys = pipesys +
  kbd_waiting_process :: ptr
  kb_shift :: bool
  kb_caps :: bool
  kb_ctrl :: bool
  kb_buff :: "u8 list"
  kb_size :: nat
  kb_start :: nat
  kb_end :: nat
  boolRegisters :: bool
  registersBuff :: "u8 list"
  regsArray :: "u64 list"
  tty_mode :: int
  tty_line :: "u8 list"
  tty_line_len :: nat
  tty_line_ready :: bool
  tty_eof :: bool
  screen :: "(u8 \<times> u32) list"

definition videoPutChar :: "u8 \<Rightarrow> u32 \<Rightarrow> 'a kbdsys_scheme \<Rightarrow> 'a kbdsys_scheme" where
  "videoPutChar c color s = s\<lparr>screen := screen s @ [(c, color)]\<rparr>"

subsection \<open>The waiting process and the mode\<close>

definition kbd_set_waiting :: "ptr \<Rightarrow> 'a kbdsys_scheme \<Rightarrow> 'a kbdsys_scheme" where
  "kbd_set_waiting p s = s\<lparr>kbd_waiting_process := p\<rparr>"

definition kbd_clear_waiting :: "ptr \<Rightarrow> 'a kbdsys_scheme \<Rightarrow> 'a kbdsys_scheme" where
  "kbd_clear_waiting p s = (if kbd_waiting_process s = p then s\<lparr>kbd_waiting_process := None\<rparr> else s)"

definition tty_get_mode :: "'a kbdsys_scheme \<Rightarrow> int" where
  "tty_get_mode s = tty_mode s"

definition tty_set_mode :: "int \<Rightarrow> 'a kbdsys_scheme \<Rightarrow> 'a kbdsys_scheme" where
  "tty_set_mode m s = s\<lparr>tty_mode := m, tty_line_len := 0, tty_line_ready := False, tty_eof := False\<rparr>"

subsection \<open>The circular buffer\<close>

definition writeBuff :: "u8 \<Rightarrow> 'a kbdsys_scheme \<Rightarrow> 'a kbdsys_scheme" where
  "writeBuff c s =
     (let s1 = s\<lparr>kb_buff := (kb_buff s)[kb_end s := c]\<rparr>;
          s2 = s1\<lparr>kb_end := (kb_end s1 + 1) mod BUFF_LENGTH\<rparr>
      in if kb_size s2 < BUFF_LENGTH then s2\<lparr>kb_size := kb_size s2 + 1\<rparr>
         else s2\<lparr>kb_start := (kb_start s2 + 1) mod BUFF_LENGTH\<rparr>)"

definition clearBuff :: "'a kbdsys_scheme \<Rightarrow> 'a kbdsys_scheme" where
  "clearBuff s = s\<lparr>kb_size := 0, kb_start := 0, kb_end := 0\<rparr>"

definition getFromBuffer :: "'a kbdsys_scheme \<Rightarrow> u8 \<times> 'a kbdsys_scheme" where
  "getFromBuffer s =
     (if kb_size s = 0 then (- 1, s)
      else let s1 = s\<lparr>kb_size := kb_size s - 1\<rparr>
           in (kb_buff s1 ! kb_start s1, s1\<lparr>kb_start := (kb_start s1 + 1) mod BUFF_LENGTH\<rparr>))"

text \<open>The loop reads \<open>buff_size\<close> anew in every test, and \<open>getFromBuffer\<close> decrements it.\<close>

function readKeyBuff_loop :: "nat \<Rightarrow> nat \<Rightarrow> 'a kbdsys_scheme \<Rightarrow> u8 list \<times> 'a kbdsys_scheme" where
  "readKeyBuff_loop count i s =
     (if i < count \<and> i < kb_size s
      then let (c, s1) = getFromBuffer s;
               (cs, s2) = readKeyBuff_loop count (Suc i) s1
           in (c # cs, s2)
      else ([], s))"
  by pat_completeness auto
termination
  by (relation "measure (\<lambda>(count, i, s). count - i)") auto

declare readKeyBuff_loop.simps [simp del]

text \<open>The bytes stored through \<open>buff\<close>; their number is the result of the C function.\<close>

definition readKeyBuff :: "nat \<Rightarrow> 'a kbdsys_scheme \<Rightarrow> u8 list \<times> 'a kbdsys_scheme" where
  "readKeyBuff count s = readKeyBuff_loop count 0 s"

subsection \<open>Numbers as text\<close>

text \<open>The \<open>do\<close> loop of \<open>uintToBase\<close>: the digits from the lowest one.\<close>

function uint_digits :: "u64 \<Rightarrow> u32 \<Rightarrow> u8 list" where
  "uint_digits v base =
     (if base < 2 then []
      else
        let r = unat v mod unat base;
            d = (if r < 10 then of_nat (r + 48) else of_nat (r + 65 - 10));
            v' = of_nat (unat v div unat base)
        in if v' \<noteq> 0 then d # uint_digits v' base else [d])"
  by pat_completeness auto
termination
proof (relation "measure (\<lambda>(v, base). unat v)", simp)
  fix v :: u64 and base :: u32 and r d v'
  assume b: "\<not> base < 2" and v': "v' = (of_nat (unat v div unat base) :: u64)" and nz: "v' \<noteq> 0"
  have b2: "1 < unat base" using b by (simp add: not_less word_le_nat_alt)
  have lt: "unat v div unat base < 2 ^ 64" using div_le_dividend [of "unat v" "unat base"] unat_lt_64 [of v]
    by (rule order_le_less_trans)
  then have "unat v' = unat v div unat base" unfolding v' by (simp add: unat_of_nat)
  moreover have "unat v \<noteq> 0"
  proof
    assume "unat v = 0"
    then have "v' = 0" unfolding v' by simp
    with nz show False ..
  qed
  ultimately show "((v', base), v, base) \<in> measure (\<lambda>(v, base). unat v)" using b2 by simp
qed

declare uint_digits.simps [simp del]

text \<open>The loop that reverses the digits in place.\<close>

function reverse_loop :: "nat \<Rightarrow> nat \<Rightarrow> 'a list \<Rightarrow> 'a list" where
  "reverse_loop p1 p2 b =
     (if p1 < p2 then reverse_loop (Suc p1) (p2 - 1) (b[p1 := b ! p2, p2 := b ! p1]) else b)"
  by pat_completeness auto
termination
  by (relation "measure (\<lambda>(p1, p2, b). p2 - p1)") auto

declare reverse_loop.simps [simp del]

text \<open>The text stored through \<open>buff\<close>, without the terminating \<open>'\0'\<close>; the number of digits is
  the result. A base below 2 divides by zero or never ends and does not occur.\<close>

definition uintToBase :: "u64 \<Rightarrow> u32 \<Rightarrow> u8 list" where
  "uintToBase v base = (let b = uint_digits v base in reverse_loop 0 (length b - 1) b)"

text \<open>The loop that counts the nibbles.\<close>

function zeros_pad :: "u64 \<Rightarrow> nat \<Rightarrow> nat" where
  "zeros_pad aux z = (if aux \<noteq> 0 then zeros_pad (drop_bit 4 aux) (z - 1) else z)"
  by pat_completeness auto
termination
proof (relation "measure (\<lambda>(aux, z). unat aux)", simp)
  fix aux :: u64 and z :: nat
  assume nz: "aux \<noteq> 0"
  have "unat (drop_bit 4 aux) = unat aux div 16"
    by (simp only: unat_drop_bit_eq) (simp add: drop_bit_eq_div)
  moreover have "0 < unat aux" using nz by (simp add: unat_gt_0)
  ultimately show "((drop_bit 4 aux, z - 1), aux, z) \<in> measure (\<lambda>(aux, z). unat aux)" by simp
qed

declare zeros_pad.simps [simp del]

definition intToHexa :: "u64 \<Rightarrow> u8 list" where
  "intToHexa v =
     replicate (zeros_pad v 16) (of_char (CHR ''0'')) @ (if v \<noteq> 0 then uintToBase v 16 else [])"

subsection \<open>The register snapshot\<close>

definition reg_names :: "string list" where
  "reg_names = [''RAX: 0x'', ''RBX: 0x'', ''RCX: 0x'', ''RDX: 0x'', ''RBP: 0x'', ''RDI: 0x'', ''RSI: 0x'',
     ''R8: 0x'', ''R9: 0x'', ''R10: 0x'', ''R11: 0x'', ''R12: 0x'', ''R13: 0x'', ''R14: 0x'', ''R15: 0x'',
     ''RIP: 0x'', ''CS: 0x'', ''RFLAGS: 0x'', ''RSP: 0x'', ''SS: 0x'']"

text \<open>Store a run of bytes from index \<open>j\<close> on, as the loops that write \<open>registersBuff[j++]\<close> do.\<close>

fun put_bytes :: "nat \<Rightarrow> u8 list \<Rightarrow> u8 list \<Rightarrow> u8 list" where
  "put_bytes j [] b = b"
| "put_bytes j (x # xs) b = put_bytes (Suc j) xs (b[j := x])"

definition reg_line :: "string \<Rightarrow> u64 \<Rightarrow> u8 list" where
  "reg_line nm v = map of_char nm @ intToHexa v @ [10]"

fun snapshot_loop :: "string list \<Rightarrow> u64 list \<Rightarrow> nat \<Rightarrow> u8 list \<Rightarrow> nat \<times> u8 list" where
  "snapshot_loop (nm # nms) (v # vs) j b =
     snapshot_loop nms vs (j + length (reg_line nm v)) (put_bytes j (reg_line nm v) b)"
| "snapshot_loop _ _ j b = (j, b)"

definition storeSnapshot :: "'a kbdsys_scheme \<Rightarrow> 'a kbdsys_scheme" where
  "storeSnapshot s =
     (let (j, b) = snapshot_loop reg_names (regsArray s) 0 (registersBuff s)
      in s\<lparr>registersBuff := b[j := 0]\<rparr>)"

text \<open>The string copied out, if a snapshot was taken.\<close>

definition copyRegistersBuffer :: "'a kbdsys_scheme \<Rightarrow> u8 list option" where
  "copyRegistersBuffer s =
     (if boolRegisters s then Some (takeWhile (\<lambda>c. c \<noteq> 0) (registersBuff s)) else None)"

end
