(* ===== verification/Fd.thy ===== *)
theory Fd
  imports Keyboard
begin

text \<open>
  The file descriptors of \<open>Kernel/c/pipe/fd.c\<close>: one global table of 130 entries, each a terminal
  or one end of a pipe with a reference count. An \<open>FD *\<close> is the index of the entry, the
  \<open>data\<close> pointer of a pipe end the index of the pipe. \<open>fd_read\<close> and \<open>fd_write\<close> are the two
  calls behind the system calls \<open>read\<close> and \<open>write\<close>: the terminal in cooked and raw mode, and pipes.
\<close>

datatype FDType = FD_NONE | FD_TERMINAL | FD_PIPE_READ | FD_PIPE_WRITE

record FD =
  fd_type :: FDType
  fd_refcount :: nat
  fd_data :: ptr

abbreviation (input) MAX_FDS :: nat where "MAX_FDS \<equiv> 130"
abbreviation (input) FD_STDIN :: nat where "FD_STDIN \<equiv> 0"
abbreviation (input) FD_STDOUT :: nat where "FD_STDOUT \<equiv> 1"

record fdsys = kbdsys +
  fd_table :: "FD list"

definition fd_at :: "'a fdsys_scheme \<Rightarrow> nat \<Rightarrow> FD" where
  "fd_at s i = fd_table s ! i"

definition upd_fd :: "nat \<Rightarrow> (FD \<Rightarrow> FD) \<Rightarrow> 'a fdsys_scheme \<Rightarrow> 'a fdsys_scheme" where
  "upd_fd i f s = s\<lparr>fd_table := modify i f (fd_table s)\<rparr>"

subsection \<open>The table\<close>

definition fd_alloc :: "FDType \<Rightarrow> ptr \<Rightarrow> 'a fdsys_scheme \<Rightarrow> int \<times> 'a fdsys_scheme" where
  "fd_alloc t d s =
     (case first_idx (\<lambda>e. fd_type e = FD_NONE) (fd_table s) of
        Some i \<Rightarrow> (int i, upd_fd i (\<lambda>e. e\<lparr>fd_type := t, fd_data := d, fd_refcount := 0\<rparr>) s)
      | None \<Rightarrow> (-1, s))"

definition fd_init :: "'a fdsys_scheme \<Rightarrow> 'a fdsys_scheme" where
  "fd_init s =
     (let s1 = s\<lparr>fd_table := replicate MAX_FDS \<lparr>fd_type = FD_NONE, fd_refcount = 0, fd_data = None\<rparr>\<rparr>;
          s2 = upd_fd FD_STDIN (\<lambda>e. e\<lparr>fd_type := FD_TERMINAL\<rparr>) s1
      in upd_fd FD_STDOUT (\<lambda>e. e\<lparr>fd_type := FD_TERMINAL\<rparr>) s2)"

definition fd_get :: "u64 \<Rightarrow> 'a fdsys_scheme \<Rightarrow> ptr" where
  "fd_get fd s =
     (if unat fd \<ge> MAX_FDS then None
      else if fd_type (fd_at s (unat fd)) = FD_NONE then None
      else Some (unat fd))"

definition fd_incref :: "u64 \<Rightarrow> 'a fdsys_scheme \<Rightarrow> 'a fdsys_scheme" where
  "fd_incref fd s =
     (case fd_get fd s of
        None \<Rightarrow> s
      | Some d \<Rightarrow>
          (let s1 = upd_fd d (\<lambda>e. e\<lparr>fd_refcount := fd_refcount e + 1\<rparr>) s
           in if fd_type (fd_at s1 d) = FD_PIPE_READ then pipe_open_read (fd_data (fd_at s1 d)) s1
              else if fd_type (fd_at s1 d) = FD_PIPE_WRITE then pipe_open_write (fd_data (fd_at s1 d)) s1
              else s1))"

definition fd_decref :: "u64 \<Rightarrow> 'a fdsys_scheme \<Rightarrow> 'a fdsys_scheme" where
  "fd_decref fd s =
     (case fd_get fd s of
        None \<Rightarrow> s
      | Some d \<Rightarrow>
          (let s1 =
             (if fd_refcount (fd_at s d) > 0
              then
                let t = upd_fd d (\<lambda>e. e\<lparr>fd_refcount := fd_refcount e - 1\<rparr>) s
                in if fd_type (fd_at t d) = FD_PIPE_READ then pipe_close_read (fd_data (fd_at t d)) t
                   else if fd_type (fd_at t d) = FD_PIPE_WRITE then pipe_close_write (fd_data (fd_at t d)) t
                   else t
              else s)
           in if fd_refcount (fd_at s1 d) = 0 \<and> fd_type (fd_at s1 d) \<noteq> FD_TERMINAL
              then upd_fd d (\<lambda>e. e\<lparr>fd_type := FD_NONE, fd_data := None\<rparr>) s1 else s1))"

text \<open>\<open>p = None\<close> is the \<open>NULL\<close> pipe.\<close>

definition fd_create_pipe :: "ptr \<Rightarrow> bool \<Rightarrow> 'a fdsys_scheme \<Rightarrow> int \<times> 'a fdsys_scheme" where
  "fd_create_pipe p write_end s =
     (if p = None then (-1, s)
      else
        let t = (if write_end then FD_PIPE_WRITE else FD_PIPE_READ);
            (fd, s1) = fd_alloc t p s
        in if fd < 0 then (-1, s1) else (fd, fd_incref (of_int fd) s1))"

subsection \<open>Reading\<close>

text \<open>The reader registers with the keyboard and goes to sleep.\<close>

definition tty_block :: "nat \<Rightarrow> 'a kbdsys_scheme \<Rightarrow> 'a kbdsys_scheme" where
  "tty_block c s =
     (upd_pcb c (\<lambda>p. p\<lparr>p_state := PROCESS_BLOCKED\<rparr>) (kbd_set_waiting (Some c) s))\<lparr>force_switch := True\<rparr>"

text \<open>\<open>for(i = 0; i < n; i++) line[i] = line[i + k];\<close>\<close>

definition tty_shift :: "nat \<Rightarrow> nat \<Rightarrow> u8 list \<Rightarrow> u8 list" where
  "tty_shift k n line = fold (\<lambda>i l. l[i := l ! (i + k)]) [0..<n] line"

text \<open>The cooked mode: a complete line, or as much of it as fits.\<close>

definition tty_read_cooked :: "nat \<Rightarrow> nat \<Rightarrow> 'a kbdsys_scheme \<Rightarrow> u64 \<times> u8 list \<times> 'a kbdsys_scheme" where
  "tty_read_cooked count c s =
     (if tty_eof s \<and> tty_line_len s = 0 then (0, [], s\<lparr>tty_eof := False\<rparr>)
      else if tty_line_ready s \<or> tty_eof s
      then
        let to_copy = (if tty_line_len s > count then count else tty_line_len s);
            bytes = map (\<lambda>i. tty_line s ! i) [0..<to_copy];
            s1 = (if to_copy = tty_line_len s
                  then s\<lparr>tty_line_len := 0, tty_line_ready := False, tty_eof := False\<rparr>
                  else s\<lparr>tty_line := tty_shift to_copy (tty_line_len s - to_copy) (tty_line s),
                         tty_line_len := tty_line_len s - to_copy\<rparr>)
        in (of_nat to_copy, bytes, s1)
      else (READ_BLOCKED, [], tty_block c s))"

text \<open>The raw mode: what the keyboard buffer has; the byte 4 of Ctrl-D in front is an end of file.\<close>

definition tty_read_raw :: "nat \<Rightarrow> nat \<Rightarrow> 'a kbdsys_scheme \<Rightarrow> u64 \<times> u8 list \<times> 'a kbdsys_scheme" where
  "tty_read_raw count c s =
     (let (bytes, s1) = readKeyBuff count s; n = length bytes
      in if n > 0 \<and> bytes ! 0 = 4 then (0, bytes, s1)
         else if n = 0 then (READ_BLOCKED, [], tty_block c s1)
         else (of_nat n, bytes, s1))"

text \<open>Result, bytes stored through \<open>buf\<close>, state. The flag says that \<open>buf\<close> is not \<open>NULL\<close>.\<close>

definition fd_read :: "ptr \<Rightarrow> bool \<Rightarrow> nat \<Rightarrow> ptr \<Rightarrow> 'a fdsys_scheme \<Rightarrow> u64 \<times> u8 list \<times> 'a fdsys_scheme" where
  "fd_read d buf count cur s =
     (if d = None \<or> \<not> buf \<or> count = 0 then (0, [], s)
      else case fd_type (fd_at s (the d)) of
        FD_TERMINAL \<Rightarrow>
          (case cur of
             None \<Rightarrow> (0, [], s)
           | Some c \<Rightarrow>
               (if p_foreground (pcb_at s c) = 0 then (0, [], s)
                else if tty_get_mode s = TTY_COOKED then tty_read_cooked count c s
                else tty_read_raw count c s))
      | FD_PIPE_READ \<Rightarrow> pipe_read (fd_data (fd_at s (the d))) buf count s
      | _ \<Rightarrow> (0, [], s))"

subsection \<open>Writing\<close>

text \<open>\<open>buf\<close> holds the \<open>count\<close> bytes to write.\<close>

definition fd_write :: "ptr \<Rightarrow> u8 list option \<Rightarrow> ptr \<Rightarrow> u32 \<Rightarrow> 'a fdsys_scheme \<Rightarrow> u64 \<times> 'a fdsys_scheme" where
  "fd_write d buf cur color s =
     (if d = None \<or> buf = None \<or> buf = Some [] then (0, s)
      else case fd_type (fd_at s (the d)) of
        FD_TERMINAL \<Rightarrow> (of_nat (length (the buf)), fold (\<lambda>c. videoPutChar c color) (the buf) s)
      | FD_PIPE_WRITE \<Rightarrow> pipe_write (fd_data (fd_at s (the d))) buf s
      | _ \<Rightarrow> (0, s))"

end
