(* ===== verification/Process.thy ===== *)
theory Process
  imports Fd Semaphore
begin

text \<open>
  The life of a process, \<open>Kernel/c/process/process.c\<close>: creation with a fresh stack and a private copy
  of the arguments, exit, kill, change of priority, waiting for a child, listing, redirection of
  the standard descriptors. The record \<open>ksys\<close> is the whole kernel state; it adds the memory the
  kernel writes through pointers, as a store of 64 bit words (stack frames, pointer arrays) and a
  store of characters (copied strings), both by address, and the link-time address of
  \<open>process_trampoline\<close>.

  A function that allocates, releases or takes a spinlock has an optional result: \<open>None\<close> is a call
  that never returns, and for \<open>process_pipe_setup\<close> also an access outside the array \<open>fd\<close>.
\<close>

abbreviation (input) STACK_SIZE :: nat where "STACK_SIZE \<equiv> 4096"
abbreviation (input) MAX_NAME_LEN :: nat where "MAX_NAME_LEN \<equiv> 32"
abbreviation (input) MIN_PRIORITY :: u8 where "MIN_PRIORITY \<equiv> 1"
abbreviation (input) MAX_PRIORITY :: u8 where "MAX_PRIORITY \<equiv> 5"
abbreviation (input) DEFAULT_PRIORITY :: u8 where "DEFAULT_PRIORITY \<equiv> 3"

record ksys = fdsys +
  kwords :: "addr \<Rightarrow> u64"
  kbytes :: "addr \<Rightarrow> char"
  trampoline :: u64

definition ptr_word :: "ptr \<Rightarrow> u64" where
  "ptr_word p = (case p of None \<Rightarrow> 0 | Some a \<Rightarrow> of_nat a)"

definition ptr_addr :: "ptr \<Rightarrow> addr" where
  "ptr_addr p = (case p of None \<Rightarrow> 0 | Some a \<Rightarrow> a)"

subsection \<open>The initial stack\<close>

text \<open>\<open>*(--sp) = v;\<close>\<close>

definition push_word :: "u64 \<Rightarrow> addr \<times> (addr \<Rightarrow> u64) \<Rightarrow> addr \<times> (addr \<Rightarrow> u64)" where
  "push_word v sm = (case sm of (sp, m) \<Rightarrow> (sp - 8, m(sp - 8 := v)))"

definition build_initial_stack ::
  "addr \<Rightarrow> u64 \<Rightarrow> int \<Rightarrow> ptr \<Rightarrow> (addr \<Rightarrow> u64) \<Rightarrow> addr \<times> (addr \<Rightarrow> u64)" where
  "build_initial_stack stack_top entry argc argv m =
     fold push_word
       [0, of_nat stack_top, 0x202, 0x08, entry,
        0, 0, 0, 0, 0, of_int argc, ptr_word argv,
        0, 0, 0, 0, 0, 0, 0, 0] (stack_top, m)"

subsection \<open>The copy of the arguments\<close>

fun args_size :: "string option list \<Rightarrow> u64 \<Rightarrow> u64" where
  "args_size [] tot = tot"
| "args_size (a # as) tot =
     args_size as (if a \<noteq> None then tot + (of_nat (str_len a) + 1) else tot)"

definition copy_bytes :: "addr \<Rightarrow> string \<Rightarrow> nat \<Rightarrow> (addr \<Rightarrow> char) \<Rightarrow> addr \<Rightarrow> char" where
  "copy_bytes dst src n b = (\<lambda>a. if dst \<le> a \<and> a < dst + n then cget src (a - dst) else b a)"

fun copy_args ::
  "addr \<Rightarrow> string option list \<Rightarrow> nat \<Rightarrow> addr \<Rightarrow> (addr \<Rightarrow> u64) \<times> (addr \<Rightarrow> char) \<Rightarrow> (addr \<Rightarrow> u64) \<times> (addr \<Rightarrow> char)" where
  "copy_args av [] i pool m = m"
| "copy_args av (a # as) i pool m =
     (case a of
        Some str \<Rightarrow>
          (let len = str_len (Some str) + 1
           in copy_args av as (Suc i) (pool + len)
                ((fst m)(av + 8 * i := of_nat pool), copy_bytes pool str len (snd m)))
      | None \<Rightarrow> copy_args av as (Suc i) pool ((fst m)(av + 8 * i := 0), snd m))"

text \<open>\<open>Some None\<close> is the \<open>NULL\<close> of a process without arguments, \<open>None\<close> an allocation that failed.\<close>

definition copy_argv :: "int \<Rightarrow> string option list option \<Rightarrow> 'a ksys_scheme \<Rightarrow> (ptr option \<times> 'a ksys_scheme) option" where
  "copy_argv argc argv s =
     (case argv of
        None \<Rightarrow> Some (Some None, s)
      | Some args \<Rightarrow>
          (if argc \<le> 0 then Some (Some None, s)
           else
             let n = nat argc; total_size = args_size (take n args) (8 * of_nat (n + 1))
             in do {
               (h, r) \<leftarrow> mm_malloc_kernel total_size (heap s);
               let s1 = s\<lparr>heap := h\<rparr>;
               (case r of
                  None \<Rightarrow> Some (None, s1)
                | Some av \<Rightarrow>
                    (let m = copy_args av (take n args) 0 (av + 8 * (n + 1)) (kwords s1, kbytes s1)
                     in Some (Some (Some av),
                          s1\<lparr>kwords := (fst m)(av + 8 * n := 0), kbytes := snd m\<rparr>)))
             }))"

subsection \<open>Creation\<close>

text \<open>The C \<open>int\<close> of a PID.\<close>

definition int_of_pid :: "u64 \<Rightarrow> int" where
  "int_of_pid k = sint (ucast k :: 32 word)"

definition parent_of_new :: "'a psys_scheme \<Rightarrow> u64" where
  "parent_of_new s = (case current_process s of None \<Rightarrow> 0 | Some c \<Rightarrow> p_pid (pcb_at s c))"

text \<open>Fill the PCB, add it to the run queue.\<close>

definition process_fill ::
  "nat \<Rightarrow> string option \<Rightarrow> u64 \<Rightarrow> int \<Rightarrow> ptr \<Rightarrow> u8 \<Rightarrow> 'a ksys_scheme \<Rightarrow> int \<times> 'a ksys_scheme" where
  "process_fill slot name entry argc argv_copy fg s =
     (let stack_top = ptr_addr (p_stack_base (pcb_at s slot)) + STACK_SIZE;
          (sp, m) = build_initial_stack stack_top (trampoline s) argc argv_copy (kwords s);
          s1 = upd_pcb slot (\<lambda>p. p\<lparr>p_rsp := Some sp\<rparr>) (s\<lparr>kwords := m\<rparr>);
          s2 = s1\<lparr>next_pid := next_pid s1 + 1\<rparr>;
          s3 = upd_pcb slot (\<lambda>p. p\<lparr>p_pid := next_pid s2, p_priority := DEFAULT_PRIORITY,
                 p_remaining_quanta := DEFAULT_PRIORITY, p_wait_ticks := 0,
                 p_state := (if fg AND 2 \<noteq> 0 then PROCESS_BLOCKED else PROCESS_READY),
                 p_foreground := fg, p_fd := [int FD_STDIN, int FD_STDOUT]\<rparr>) s2;
          s4 = fd_incref (of_int (p_fd (pcb_at s3 slot) ! 0)) s3;
          s5 = fd_incref (of_int (p_fd (pcb_at s4 slot) ! 1)) s4;
          nm = str_copy name MAX_NAME_LEN;
          s6 = upd_pcb slot (\<lambda>p. p\<lparr>p_parent_pid := parent_of_new s5, p_waiting_for := 0, p_argc := argc,
                 p_argv := argv_copy, p_retval := 0, p_entry := entry, p_held_sems := 0,
                 p_opened_sems := 0,
                 p_name := (if str_len (Some nm) = 0 then ''?'' else nm)\<rparr>) s5;
          s7 = scheduler_add slot s6
      in (int_of_pid (p_pid (pcb_at s7 slot)), s7))"

definition process_create ::
  "string option \<Rightarrow> u64 \<Rightarrow> int \<Rightarrow> string option list option \<Rightarrow> u8 \<Rightarrow> 'a ksys_scheme \<Rightarrow> (int \<times> 'a ksys_scheme) option" where
  "process_create name entry argc argv fg s =
     (case first_idx (\<lambda>p. p_state p = PROCESS_FREE) (process_table s) of
        None \<Rightarrow> Some (-1, s)
      | Some slot \<Rightarrow> do {
          (h, sb) \<leftarrow> mm_malloc_kernel (of_nat STACK_SIZE) (heap s);
          let s1 = upd_pcb slot (\<lambda>p. p\<lparr>p_stack_base := sb\<rparr>) (s\<lparr>heap := h\<rparr>);
          (if sb = None then Some (-1, s1)
           else do {
             (av, s2) \<leftarrow> copy_argv argc argv s1;
             (case av of
                None \<Rightarrow> map_option (\<lambda>s3. (-1, s3)) (kfree (p_stack_base (pcb_at s2 slot)) s2)
              | Some argv_copy \<Rightarrow> Some (process_fill slot name entry argc argv_copy fg s2))
           })
        })"

subsection \<open>The end of a process\<close>

definition process_release_fds :: "nat \<Rightarrow> 'a fdsys_scheme \<Rightarrow> 'a fdsys_scheme" where
  "process_release_fds c s =
     (let s1 = (if p_fd (pcb_at s c) ! 0 \<ge> 0 then fd_decref (of_int (p_fd (pcb_at s c) ! 0)) s else s);
          s2 = (if p_fd (pcb_at s1 c) ! 1 \<ge> 0 then fd_decref (of_int (p_fd (pcb_at s1 c) ! 1)) s1 else s1)
      in upd_pcb c (\<lambda>p. p\<lparr>p_fd := (p_fd p)[0 := -1, 1 := -1]\<rparr>) s2)"

text \<open>Wake the parent if it waits for \<open>pid\<close>: the value goes into the slot of RAX in its saved
  registers, 14 words above the saved stack pointer.\<close>

definition notify_parent :: "u64 \<Rightarrow> u64 \<Rightarrow> int \<Rightarrow> 'a ksys_scheme \<Rightarrow> 'a ksys_scheme" where
  "notify_parent parent_pid pid retval s =
     (case process_get s parent_pid of
        None \<Rightarrow> s
      | Some q \<Rightarrow>
          (if p_state (pcb_at s q) = PROCESS_BLOCKED \<and> p_waiting_for (pcb_at s q) = pid
           then upd_pcb q (\<lambda>p. p\<lparr>p_waiting_for := 0, p_state := PROCESS_READY, p_wait_ticks := 0\<rparr>)
                  (s\<lparr>kwords := (kwords s)(ptr_addr (p_rsp (pcb_at s q)) + 8 * 14 := of_int retval)\<rparr>)
           else s))"

definition process_exit :: "int \<Rightarrow> 'a ksys_scheme \<Rightarrow> 'a ksys_scheme option" where
  "process_exit retval s =
     (case current_process s of
        None \<Rightarrow> Some s
      | Some c \<Rightarrow> do {
          let s1 = upd_pcb c (\<lambda>p. p\<lparr>p_retval := retval\<rparr>) s;
          s2 \<leftarrow> sem_cleanup_for_process (p_pid (pcb_at s1 c)) s1;
          let s3 = pipe_cleanup_for_process (p_pid (pcb_at s2 c)) s2;
          let s4 = kbd_clear_waiting (Some c) s3;
          let s5 = process_release_fds c s4;
          let s6 = notify_parent (p_parent_pid (pcb_at s5 c)) (p_pid (pcb_at s5 c)) retval s5;
          Some ((upd_pcb c (\<lambda>p. p\<lparr>p_state := PROCESS_ZOMBIE\<rparr>) s6)\<lparr>force_switch := True\<rparr>)
        })"

definition process_kill :: "u64 \<Rightarrow> 'a ksys_scheme \<Rightarrow> 'a ksys_scheme option" where
  "process_kill pid s =
     (case process_get s pid of
        None \<Rightarrow> Some s
      | Some i \<Rightarrow>
          (if p_state (pcb_at s i) = PROCESS_FREE \<or> p_state (pcb_at s i) = PROCESS_ZOMBIE then Some s
           else do {
             let s1 = upd_pcb i (\<lambda>p. p\<lparr>p_retval := -1\<rparr>) s;
             s2 \<leftarrow> sem_cleanup_for_process pid s1;
             let s3 = pipe_cleanup_for_process pid s2;
             let s4 = kbd_clear_waiting (Some i) s3;
             let s5 = notify_parent (p_parent_pid (pcb_at s4 i)) pid (-1) s4;
             (if current_process s5 = Some i
              then
                let s6 = upd_pcb i (\<lambda>p. p\<lparr>p_state := PROCESS_ZOMBIE\<rparr>) s5
                in Some ((process_release_fds i s6)\<lparr>force_switch := True\<rparr>)
              else do {
                let s6 = scheduler_remove i s5;
                let s7 = process_release_fds i s6;
                s8 \<leftarrow> free_stack_argv i s7;
                Some (upd_pcb i (\<lambda>p. p\<lparr>p_state := PROCESS_FREE, p_pid := 0\<rparr>) s8)
              })
           }))"

text \<open>The scan of \<open>process_kill_foreground\<close>: PID of the newest foreground process, its index,
  the number of foreground processes.\<close>

definition newest_foreground :: "'a psys_scheme \<Rightarrow> int \<times> u64 \<times> nat" where
  "newest_foreground s =
     fold (\<lambda>i (idx, tpid, n).
       let p = pcb_at s i
       in if p_state p \<noteq> PROCESS_FREE \<and> p_foreground p \<noteq> 0
          then (if p_pid p > tpid then (int i, p_pid p, n + 1) else (idx, tpid, n + 1))
          else (idx, tpid, n)) [0..<MAX_PROCESSES] (-1, 0, 0)"

definition process_kill_foreground :: "'a ksys_scheme \<Rightarrow> 'a ksys_scheme option" where
  "process_kill_foreground s =
     (let (target_idx, target_pid, fg_count) = newest_foreground s
      in if target_idx \<ge> 0 \<and> fg_count > 1 then process_kill target_pid s else Some s)"

subsection \<open>Priority, waiting, listing\<close>

definition process_nice :: "u64 \<Rightarrow> u8 \<Rightarrow> 'a ssys_scheme \<Rightarrow> 'a ssys_scheme" where
  "process_nice pid new_priority s =
     (case process_get s pid of
        None \<Rightarrow> s
      | Some i \<Rightarrow>
          (let np = (if new_priority < MIN_PRIORITY then MIN_PRIORITY else new_priority);
               np = (if np > MAX_PRIORITY then MAX_PRIORITY else np);
               s1 = upd_pcb i (\<lambda>p. p\<lparr>p_priority := np, p_wait_ticks := 0, p_remaining_quanta := np\<rparr>) s
           in if p_state (pcb_at s1 i) \<noteq> PROCESS_FREE \<and> p_state (pcb_at s1 i) \<noteq> PROCESS_ZOMBIE
              then scheduler_add i (scheduler_remove i s1) else s1))"

definition process_waitpid :: "u64 \<Rightarrow> 'a ssys_scheme \<Rightarrow> (int \<times> 'a ssys_scheme) option" where
  "process_waitpid pid s =
     (case process_get s pid of
        None \<Rightarrow> Some (-1, s)
      | Some i \<Rightarrow>
          (if p_state (pcb_at s i) = PROCESS_ZOMBIE
           then do {
             let retval = p_retval (pcb_at s i);
             s1 \<leftarrow> free_stack_argv i s;
             Some (retval, upd_pcb i (\<lambda>p. p\<lparr>p_rsp := None, p_state := PROCESS_FREE, p_pid := 0\<rparr>) s1)
           }
           else
             let s1 = (case current_process s of
                         None \<Rightarrow> s
                       | Some c \<Rightarrow> upd_pcb c (\<lambda>p. p\<lparr>p_state := PROCESS_BLOCKED, p_waiting_for := pid\<rparr>) s)
             in Some (0, s1\<lparr>force_switch := True\<rparr>)))"

record ProcessInfo =
  pi_pid :: u64
  pi_name :: string
  pi_priority :: u8
  pi_state :: pstate
  pi_foreground :: u8
  pi_rsp :: u64

definition process_info :: "pcb \<Rightarrow> ProcessInfo" where
  "process_info p = \<lparr>pi_pid = p_pid p, pi_name = str_copy (Some (p_name p)) MAX_NAME_LEN,
     pi_priority = p_priority p, pi_state = p_state p, pi_foreground = p_foreground p,
     pi_rsp = ptr_word (p_rsp p)\<rparr>"

text \<open>The entries stored through \<open>buf\<close>; their number is the result.\<close>

fun ps_loop :: "pcb list \<Rightarrow> nat \<Rightarrow> nat \<Rightarrow> ProcessInfo list" where
  "ps_loop [] count mx = []"
| "ps_loop (p # ps) count mx =
     (if count < mx
      then if p_state p \<noteq> PROCESS_FREE then process_info p # ps_loop ps (Suc count) mx
           else ps_loop ps count mx
      else [])"

definition process_ps :: "nat \<Rightarrow> 'a psys_scheme \<Rightarrow> ProcessInfo list" where
  "process_ps mx s = ps_loop (process_table s) 0 mx"

subsection \<open>Redirection\<close>

text \<open>\<open>target\<close> is only checked from above: a negative one is an access in front of the array.\<close>

definition process_pipe_setup :: "u64 \<Rightarrow> int \<Rightarrow> int \<Rightarrow> 'a fdsys_scheme \<Rightarrow> 'a fdsys_scheme option" where
  "process_pipe_setup pid stdio_fd target s =
     (case process_get s pid of
        None \<Rightarrow> Some s
      | Some i \<Rightarrow>
          (if target > 1 then Some s
           else if target < 0 then None
           else
             let t = nat target;
                 s1 = (if p_fd (pcb_at s i) ! t \<ge> 0 then fd_decref (of_int (p_fd (pcb_at s i) ! t)) s else s);
                 s2 = upd_pcb i (\<lambda>p. p\<lparr>p_fd := (p_fd p)[t := stdio_fd]\<rparr>) s1
             in Some (fd_incref (of_int stdio_fd) s2)))"

end
