(* ===== verification/Frames.thy ===== *)
theory Frames
  imports Process Sem_Lemmas
begin

text \<open>
  What an operation leaves alone. The locales state, for a part \<open>fr\<close> of the kernel state, that the
  basic updates of a component do not change it, and prove once that no operation of the component
  does: blocking and waking write PCBs and \<open>force_switch\<close> only, the semaphores also their table, the
  pipes theirs, the descriptors theirs. The interpretations are for the scheduler with the heap
  (\<open>sched_part\<close>), for the keyboard and the terminal (\<open>tty_part\<close>), and for the other tables.
\<close>

locale psys_frame =
  fixes fr :: "'a psys_scheme \<Rightarrow> 'b"
  assumes fr_pcb: "fr (upd_pcb c f s) = fr s"
    and fr_force: "fr (s\<lparr>force_switch := b\<rparr>) = fr s"
begin

lemma fr_block: "fr (process_block k s) = fr s"
  by (simp add: process_block_def Let_def fr_pcb fr_force split: option.split)

lemma fr_unblock: "fr (process_unblock k s) = fr s"
  by (simp add: process_unblock_def Let_def fr_pcb fr_force split: option.split)

lemma fr_upd_current: "fr (upd_current f s) = fr s"
  by (simp add: upd_current_def fr_pcb split: option.split)

lemma fr_wake_reader: "fr (snd (pipe_wake_reader p s)) = fr s"
  by (simp add: pipe_wake_reader_def fr_unblock split: prod.split)

lemma fr_wake_writer: "fr (snd (pipe_wake_writer p s)) = fr s"
  by (simp add: pipe_wake_writer_def fr_unblock split: prod.split)

lemma fr_wake_all_readers: "fr (snd (pipe_wake_all_readers p s)) = fr s"
  by (induction p s rule: pipe_wake_all_readers.induct)
    (subst pipe_wake_all_readers.simps, simp add: fr_wake_reader)

lemma fr_wake_all_writers: "fr (snd (pipe_wake_all_writers p s)) = fr s"
  by (induction p s rule: pipe_wake_all_writers.induct)
    (subst pipe_wake_all_writers.simps, simp add: fr_wake_writer)

lemma fr_ends:
  "fr (snd (pipe_open_read1 p s)) = fr s" "fr (snd (pipe_open_write1 p s)) = fr s"
  "fr (snd (pipe_close_read1 p s)) = fr s" "fr (snd (pipe_close_write1 p s)) = fr s"
  by (simp_all add: pipe_open_read1_def pipe_open_write1_def pipe_close_read1_def pipe_close_write1_def
      Let_def case_prod_beta fr_wake_all_readers fr_wake_all_writers)

lemma fr_pipe_block: "fr (snd (pipe_block_reader p s)) = fr s" "fr (snd (pipe_block_writer p s)) = fr s"
  by (simp_all add: pipe_block_reader_def pipe_block_writer_def fr_block split: option.split)

lemma fr_pipe_read1: "fr (snd (snd (snd (pipe_read1 n p s)))) = fr s"
  by (simp add: pipe_read1_def Let_def case_prod_beta fr_pipe_block fr_wake_writer)

lemma fr_pipe_write1: "fr (snd (snd (pipe_write1 b p s))) = fr s"
  by (simp add: pipe_write1_def Let_def case_prod_beta fr_pipe_block fr_wake_reader)

end

locale sem_frame = psys_frame fr for fr :: "'a semsys_scheme \<Rightarrow> 'b" +
  assumes fr_sem_table: "fr (s\<lparr>sem_table := t\<rparr>) = fr s"
begin

lemma fr_upd_sem: "fr (upd_sem i f s) = fr s"
  by (simp add: upd_sem_def fr_sem_table)

lemma fr_sem_lock: "sem_lock i s = Some t \<Longrightarrow> fr t = fr s"
  by (erule sem_lock.raw_induct [where P = "\<lambda>i s t. fr t = fr s", rotated])
    (auto simp: Let_def fr_upd_sem split: if_splits)

lemma fr_sem_wake: "fr (sem_wake i s) = fr s"
  by (simp add: sem_wake_def case_prod_beta Let_def fr_unblock sem_unlock_def fr_upd_sem fr_pcb split: option.split)

lemma fr_cleanup_step: "sem_cleanup_step p pid i s = Some t \<Longrightarrow> fr t = fr s"
  unfolding sem_cleanup_step_def
  by (auto simp: Option.bind_eq_Some_conv Let_def case_prod_beta sem_unlock_def fr_upd_sem fr_pcb fr_sem_wake
      dest!: fr_sem_lock split: if_splits)

lemma fr_cleanup_loop: "sem_cleanup_loop p pid is s = Some t \<Longrightarrow> fr t = fr s"
proof (induction "is" arbitrary: s)
  case (Cons i js)
  then obtain u where "sem_cleanup_step p pid i s = Some u" "sem_cleanup_loop p pid js u = Some t"
    by (auto split: option.splits)
  with Cons.IH fr_cleanup_step show ?case by metis
qed simp

lemma fr_sem_cleanup: "sem_cleanup_for_process pid s = Some t \<Longrightarrow> fr t = fr s"
  by (auto simp: sem_cleanup_for_process_def fr_pcb dest!: fr_cleanup_loop split: option.splits)

end

locale pipe_frame = psys_frame fr for fr :: "'a pipesys_scheme \<Rightarrow> 'b" +
  assumes fr_pipe_table: "fr (s\<lparr>pipe_table := t\<rparr>) = fr s"
begin

lemma fr_set_pipe: "fr (set_pipe i p s) = fr s"
  by (simp add: set_pipe_def fr_pipe_table)

lemma fr_pipe_ends:
  "fr (pipe_open_read p s) = fr s" "fr (pipe_open_write p s) = fr s"
  "fr (pipe_close_read p s) = fr s" "fr (pipe_close_write p s) = fr s"
  by (simp_all add: pipe_open_read_def pipe_open_write_def pipe_close_read_def pipe_close_write_def
      on_pipe_def case_prod_beta fr_set_pipe fr_ends split: option.split)

lemma fr_pipe_cleanup: "fr (pipe_cleanup_for_process k s) = fr s"
  by (simp add: pipe_cleanup_for_process_def fr_pipe_table)

lemma fr_pipe_read: "fr (snd (snd (pipe_read p b n s))) = fr s"
  by (simp add: pipe_read_def Let_def case_prod_beta fr_set_pipe fr_pipe_read1)

lemma fr_pipe_write: "fr (snd (pipe_write p b s)) = fr s"
  by (simp add: pipe_write_def Let_def case_prod_beta fr_set_pipe fr_pipe_write1)

end

locale fd_frame = pipe_frame fr for fr :: "'a fdsys_scheme \<Rightarrow> 'b" +
  assumes fr_fd_table: "fr (s\<lparr>fd_table := t\<rparr>) = fr s"
begin

lemma fr_upd_fd: "fr (upd_fd i f s) = fr s"
  by (simp add: upd_fd_def fr_fd_table)

lemma fr_incref: "fr (fd_incref fd s) = fr s"
  by (simp add: fd_incref_def Let_def fr_upd_fd fr_pipe_ends split: option.split)

lemma fr_decref: "fr (fd_decref fd s) = fr s"
  by (simp add: fd_decref_def Let_def fr_upd_fd fr_pipe_ends split: option.split)

lemma fr_create_pipe: "fr (snd (fd_create_pipe p w s)) = fr s"
  by (simp add: fd_create_pipe_def fd_alloc_def Let_def case_prod_beta fr_upd_fd fr_incref split: option.split)

lemma fr_release_fds: "fr (process_release_fds c s) = fr s"
  by (simp add: process_release_fds_def Let_def fr_pcb fr_decref)

end

subsection \<open>The parts\<close>

definition sched_part :: "'a ssys_scheme \<Rightarrow> nat list \<times> nat \<times> nat \<times> ptr \<times> u64 \<times> ff_heap" where
  "sched_part s = (run_queue s, queue_size s, queue_idx s, idle_pcb s, ticks s, heap s)"

definition tty_part :: "'a kbdsys_scheme \<Rightarrow> ptr \<times> u8 list \<times> nat \<times> nat \<times> nat \<times> int \<times> u8 list \<times> nat \<times> bool \<times> bool" where
  "tty_part s = (kbd_waiting_process s, kb_buff s, kb_size s, kb_start s, kb_end s, tty_mode s, tty_line s,
     tty_line_len s, tty_line_ready s, tty_eof s)"

lemma psys_part_updates:
  "next_pid (s\<lparr>force_switch := b\<rparr>) = next_pid s" "current_process (s\<lparr>force_switch := b\<rparr>) = current_process s"
  by simp_all

interpretation sched_sem: sem_frame "sched_part :: 'a semsys_scheme \<Rightarrow> _"
  by unfold_locales (simp_all add: sched_part_def upd_pcb_def)

interpretation sched_fd: fd_frame "sched_part :: 'a fdsys_scheme \<Rightarrow> _"
  by unfold_locales (simp_all add: sched_part_def upd_pcb_def)

interpretation tty_sem: sem_frame "tty_part :: 'a kbdsys_scheme \<Rightarrow> _"
  by unfold_locales (simp_all add: tty_part_def upd_pcb_def)

interpretation tty_fd: fd_frame "tty_part :: 'a fdsys_scheme \<Rightarrow> _"
  by unfold_locales (simp_all add: tty_part_def upd_pcb_def)

interpretation sem_pipe: pipe_frame "sem_table :: 'a pipesys_scheme \<Rightarrow> _"
  by unfold_locales (simp_all add: upd_pcb_def)

interpretation sem_fd: fd_frame "sem_table :: 'a fdsys_scheme \<Rightarrow> _"
  by unfold_locales (simp_all add: upd_pcb_def)

interpretation mem_fd: fd_frame "(\<lambda>s. (kwords s, kbytes s, trampoline s)) :: 'a ksys_scheme \<Rightarrow> _"
  by unfold_locales (simp_all add: upd_pcb_def)

interpretation mem_sem: sem_frame "(\<lambda>s. (kwords s, kbytes s, trampoline s)) :: 'a ksys_scheme \<Rightarrow> _"
  by unfold_locales (simp_all add: upd_pcb_def)

interpretation fds_sem: sem_frame "fd_table :: 'a fdsys_scheme \<Rightarrow> _"
  by unfold_locales (simp_all add: upd_pcb_def)

interpretation fds_pipe: pipe_frame "fd_table :: 'a fdsys_scheme \<Rightarrow> _"
  by unfold_locales (simp_all add: upd_pcb_def)

end
