(* ===== verification/Demo_Kernel.thy ===== *)
theory Demo_Kernel
  imports Frames Pipe_Props
begin

text \<open>
  A concrete kernel state for the witnesses: the three processes of \<open>demo_s\<close> (idle with PID 1,
  the running foreground process with PID 2, a ready process with PID 3), free semaphores and
  pipes, the descriptors after \<open>fd_init\<close>, an idle keyboard and the heap after \<open>mm_init\<close>.
\<close>

definition free_fd :: FD where
  "free_fd = \<lparr>fd_type = FD_NONE, fd_refcount = 0, fd_data = None\<rparr>"

definition demo_k :: ksys where
  "demo_k = \<lparr>process_table = demo_table, next_pid = 3, current_process = Some 1, force_switch = False,
     run_queue = run_queue demo_s, queue_size = queue_size demo_s, queue_idx = queue_idx demo_s,
     idle_pcb = Some 0, ticks = 0, heap = demo_heap, sem_table = sem_table demo_sem,
     pipe_table = replicate 32 zero_pipe,
     kbd_waiting_process = None, kb_shift = False, kb_caps = False, kb_ctrl = False,
     kb_buff = replicate 256 0, kb_size = 0, kb_start = 0, kb_end = 0, boolRegisters = False,
     registersBuff = replicate 1024 0, regsArray = replicate 20 0, tty_mode = 0,
     tty_line = replicate 256 0, tty_line_len = 0, tty_line_ready = False, tty_eof = False, screen = [],
     fd_table = [\<lparr>fd_type = FD_TERMINAL, fd_refcount = 0, fd_data = None\<rparr>,
       \<lparr>fd_type = FD_TERMINAL, fd_refcount = 0, fd_data = None\<rparr>] @ replicate 128 free_fd,
     kwords = (\<lambda>_. 0), kbytes = (\<lambda>_. CHR ''x''), trampoline = 0x1000\<rparr>"

lemma demo_k_process [simp]:
  "process_table demo_k = demo_table" "next_pid demo_k = 3" "current_process demo_k = Some 1"
  "force_switch demo_k = False" "idle_pcb demo_k = Some 0" "heap demo_k = demo_heap"
  by (simp_all add: demo_k_def)

lemma demo_k_sems [simp]: "sem_table demo_k = sem_table demo_sem"
  by (simp add: demo_k_def)

lemma demo_k_pcb: "pcb_at demo_k i = demo_table ! i"
  by (simp add: pcb_at_def)

lemma demo_k_inv: "sched_inv demo_k" "mem_inv {} demo_k" "table_inv demo_k" "sem_inv demo_k" "rq demo_k = [1, 2]"
proof -
  show r: "rq demo_k = [1, 2]" using demo_ok(6) by (simp add: demo_k_def rq_def)
  show "sched_inv demo_k"
    by (rule demo_sched_inv) (simp_all add: demo_k_def demo_s_def)
  show "mem_inv {} demo_k" by (rule demo_mem_inv) simp_all
  show "table_inv demo_k" by (rule demo_table_inv) simp_all
  have "slot_ok (live_pids demo_k) (sem_at demo_k i)" if "i < 32" for i
  proof -
    have "live_pids demo_k = live_pids demo_sem"
      by (simp add: live_pids_def live_def pcb_at_def demo_sem_fields)
    then show ?thesis using demo_sem_inv that by (simp add: sem_inv_def sem_at_def)
  qed
  then show "sem_inv demo_k" using demo_sem_inv by (simp add: sem_inv_def)
qed

end
