(* ===== verification/Keyboard_Lemmas.thy ===== *)
theory Keyboard_Lemmas
  imports Keyboard Ring
begin

text \<open>
  What the operations of the keyboard driver compute: the circular buffer as the list of the
  characters still to be read, through the contract of a queue that forgets its oldest element
  when it is full; the numbers as text; the snapshot as the concatenation of its lines.
\<close>

subsection \<open>A queue that forgets\<close>

locale lossy_queue =
  fixes items :: "'q \<Rightarrow> 'a list"
    and put :: "'a \<Rightarrow> 'q \<Rightarrow> 'q"
    and get :: "'q \<Rightarrow> 'a \<times> 'q"
    and inv :: "'q \<Rightarrow> bool"
    and cap :: nat
  assumes put_items: "inv q \<Longrightarrow> items (put x q) = (if length (items q) < cap then items q else tl (items q)) @ [x]"
    and put_inv: "inv q \<Longrightarrow> inv (put x q)"
    and get_items: "inv q \<Longrightarrow> items q \<noteq> [] \<Longrightarrow> fst (get q) = hd (items q) \<and> items (snd (get q)) = tl (items q)"
    and get_inv: "inv q \<Longrightarrow> inv (snd (get q))"
    and cap_bound: "inv q \<Longrightarrow> length (items q) \<le> cap"
    and cap_pos: "0 < cap"
begin

lemma put_last: "inv q \<Longrightarrow> items (put x q) = drop (length (items q) + 1 - cap) (items q @ [x])"
proof -
  assume i: "inv q"
  show ?thesis
  proof (cases "length (items q) < cap")
    case True
    then show ?thesis using put_items [OF i] by simp
  next
    case False
    then have "length (items q) = cap" using cap_bound [OF i] by simp
    then show ?thesis using put_items [OF i] cap_pos by (simp add: drop_Suc [of 0])
  qed
qed

lemma put_all: "inv q \<Longrightarrow> inv (fold put xs q) \<and>
    items (fold put xs q) = drop (length (items q) + length xs - cap) (items q @ xs)"
proof (induction xs arbitrary: q)
  case Nil
  then show ?case using cap_bound [OF Nil] by simp
next
  case (Cons x xs)
  let ?n = "length (items q) + 1 - cap"
  note p = put_last [OF Cons.prems, of x]
  have nle: "?n \<le> length (items q)" using cap_pos by simp
  have len: "length (items (put x q)) = length (items q) + 1 - ?n" unfolding p by simp
  have "items (put x q) @ xs = drop ?n (items q @ x # xs)"
    unfolding p using nle by simp
  moreover have "length (items (put x q)) + length xs - cap + ?n = length (items q) + length (x # xs) - cap"
    unfolding len using nle by simp
  ultimately have "drop (length (items (put x q)) + length xs - cap) (items (put x q) @ xs) =
      drop (length (items q) + length (x # xs) - cap) (items q @ x # xs)"
    by (simp only: drop_drop)
  with Cons.IH [OF put_inv [OF Cons.prems, of x]] show ?case by simp
qed

end

definition kbd_data :: "'a kbdsys_scheme \<Rightarrow> u8 list" where
  "kbd_data s = ring_list (kb_buff s) (kb_start s) (kb_size s)"

definition kbd_wf :: "'a kbdsys_scheme \<Rightarrow> bool" where
  "kbd_wf s \<longleftrightarrow> length (kb_buff s) = BUFF_LENGTH \<and> kb_start s < BUFF_LENGTH \<and> kb_size s \<le> BUFF_LENGTH \<and>
     kb_end s = (kb_start s + kb_size s) mod BUFF_LENGTH"

lemma length_kbd_data [simp]: "length (kbd_data s) = kb_size s"
  by (simp add: kbd_data_def)

lemma kbd_data_Nil [simp]: "kbd_data s = [] \<longleftrightarrow> kb_size s = 0"
  by (metis length_0_conv length_kbd_data)

lemma writeBuff:
  assumes w: "kbd_wf s"
  shows "kbd_wf (writeBuff c s)"
    and "kbd_data (writeBuff c s) = (if kb_size s < BUFF_LENGTH then kbd_data s else tl (kbd_data s)) @ [c]"
proof -
  have l: "length (kb_buff s) = BUFF_LENGTH" "kb_start s < BUFF_LENGTH" "kb_size s \<le> BUFF_LENGTH"
    "kb_end s = (kb_start s + kb_size s) mod BUFF_LENGTH" using w by (simp_all add: kbd_wf_def)
  have "kbd_wf (writeBuff c s) \<and>
    kbd_data (writeBuff c s) = (if kb_size s < BUFF_LENGTH then kbd_data s else tl (kbd_data s)) @ [c]"
  proof (cases "kb_size s < BUFF_LENGTH")
    case True
    then show ?thesis using l ring_list_append [of "kb_size s" "kb_buff s" "kb_start s" c]
      by (simp add: writeBuff_def Let_def kbd_wf_def kbd_data_def mod_Suc_eq)
  next
    case False
    then have n: "kb_size s = length (kb_buff s)" using l by simp
    have e: "kb_end s = kb_start s" using l n by simp
    have t: "ring_list ((kb_buff s)[kb_start s := c]) (Suc (kb_start s) mod BUFF_LENGTH) BUFF_LENGTH =
        tl (ring_list (kb_buff s) (kb_start s) BUFF_LENGTH) @ [c]"
      using ring_list_overwrite [of BUFF_LENGTH "kb_buff s" "kb_start s" c] l by simp
    have m: "Suc (kb_start s) mod BUFF_LENGTH = (Suc (kb_start s) mod BUFF_LENGTH + BUFF_LENGTH) mod BUFF_LENGTH" by simp
    have n': "kb_size s = BUFF_LENGTH" using n l by simp
    show ?thesis using l m False t e n' unfolding writeBuff_def Let_def kbd_wf_def kbd_data_def by simp
  qed
  then show "kbd_wf (writeBuff c s)"
    "kbd_data (writeBuff c s) = (if kb_size s < BUFF_LENGTH then kbd_data s else tl (kbd_data s)) @ [c]"
    by auto
qed

lemma getFromBuffer:
  assumes w: "kbd_wf s"
  shows "kbd_wf (snd (getFromBuffer s))"
    and "0 < kb_size s \<Longrightarrow> fst (getFromBuffer s) = hd (kbd_data s) \<and> kbd_data (snd (getFromBuffer s)) = tl (kbd_data s)"
proof -
  have l: "length (kb_buff s) = BUFF_LENGTH" "kb_start s < BUFF_LENGTH" "kb_size s \<le> BUFF_LENGTH"
    "kb_end s = (kb_start s + kb_size s) mod BUFF_LENGTH" using w by (simp_all add: kbd_wf_def)
  show "kbd_wf (snd (getFromBuffer s))"
  proof (cases "kb_size s")
    case (Suc n)
    have "(Suc (kb_start s) mod BUFF_LENGTH + n) mod BUFF_LENGTH = (Suc (kb_start s) + n) mod BUFF_LENGTH"
      by (rule mod_add_left_eq)
    with l Suc show ?thesis by (simp add: getFromBuffer_def Let_def kbd_wf_def)
  qed (use w in \<open>simp add: getFromBuffer_def\<close>)
  show "fst (getFromBuffer s) = hd (kbd_data s) \<and> kbd_data (snd (getFromBuffer s)) = tl (kbd_data s)"
    if "0 < kb_size s"
    using hd_ring_list [OF that, of "kb_buff s" "kb_start s"] tl_ring_list [OF that, of "kb_buff s" "kb_start s"] l that
    by (simp add: getFromBuffer_def Let_def kbd_data_def)
qed

interpretation kbd: lossy_queue kbd_data writeBuff getFromBuffer kbd_wf 256
  by unfold_locales (simp_all add: writeBuff getFromBuffer, simp add: kbd_wf_def)

lemma readKeyBuff_loop:
  assumes "kbd_wf s" "i \<le> count"
  shows "kbd_wf (snd (readKeyBuff_loop count i s)) \<and>
     fst (readKeyBuff_loop count i s) = take (min (count - i) ((kb_size s + 1 - i) div 2)) (kbd_data s) \<and>
     kbd_data (snd (readKeyBuff_loop count i s)) = drop (min (count - i) ((kb_size s + 1 - i) div 2)) (kbd_data s)"
  using assms
proof (induction count i s rule: readKeyBuff_loop.induct)
  case (1 count i s)
  show ?case
  proof (cases "i < count \<and> i < kb_size s")
    case False
    then have "min (count - i) ((kb_size s + 1 - i) div 2) = 0" using "1.prems" by auto
    moreover have "readKeyBuff_loop count i s = ([], s)" using False by (subst readKeyBuff_loop.simps) auto
    ultimately show ?thesis using "1.prems" by simp
  next
    case True
    obtain c s1 where g: "getFromBuffer s = (c, s1)" by force
    have pos: "0 < kb_size s" using True by simp
    have sz: "kb_size s1 = kb_size s - 1" using g pos by (auto simp: getFromBuffer_def Let_def)
    have w1: "kbd_wf s1" and c: "c = hd (kbd_data s)" and d: "kbd_data s1 = tl (kbd_data s)"
      using getFromBuffer [OF "1.prems"(1)] pos g by simp_all
    have ne: "kbd_data s \<noteq> []" using pos by simp
    have "Suc i \<le> count" using True by simp
    note ih = "1.IH" [OF True g [symmetric] refl w1 this]
    let ?m = "min (count - Suc i) ((kb_size s1 + 1 - Suc i) div 2)"
    have "kb_size s + 1 - i = kb_size s1 + 1 - Suc i + 2" using sz True by linarith
    then have "(kb_size s + 1 - i) div 2 = Suc ((kb_size s1 + 1 - Suc i) div 2)" by simp
    then have m: "min (count - i) ((kb_size s + 1 - i) div 2) = Suc ?m" using True by linarith
    obtain cs s2 where r: "readKeyBuff_loop count (Suc i) s1 = (cs, s2)" by force
    have e: "readKeyBuff_loop count i s = (c # cs, s2)"
      using True g r by (subst readKeyBuff_loop.simps) simp
    show ?thesis using ih ne unfolding m e r by (cases "kbd_data s") (simp_all add: c d)
  qed
qed

lemma readKeyBuff:
  assumes "kbd_wf s"
  shows "kbd_wf (snd (readKeyBuff n s))"
    and "fst (readKeyBuff n s) = take (min n ((kb_size s + 1) div 2)) (kbd_data s)"
    and "kbd_data (snd (readKeyBuff n s)) = drop (min n ((kb_size s + 1) div 2)) (kbd_data s)"
  using readKeyBuff_loop [OF assms, of 0 n] by (simp_all add: readKeyBuff_def)

subsection \<open>Numbers as text\<close>

definition digit_val :: "u8 \<Rightarrow> nat" where
  "digit_val c = (if unat c < 65 then unat c - 48 else unat c - 55)"

text \<open>The number a text stands for in a base.\<close>

definition text_val :: "nat \<Rightarrow> u8 list \<Rightarrow> nat" where
  "text_val b cs = foldl (\<lambda>a c. a * b + digit_val c) 0 cs"

lemma text_val_rev_Cons: "text_val b (rev (c # cs)) = text_val b (rev cs) * b + digit_val c"
  by (simp add: text_val_def)

lemma text_val_zeros: "text_val b (replicate k 48 @ cs) = text_val b cs"
proof -
  have "foldl (\<lambda>a c. a * b + digit_val c) 0 (replicate k 48) = 0"
    by (induction k) (simp_all add: digit_val_def)
  then show ?thesis by (simp add: text_val_def)
qed

lemma digit_val:
  assumes "r < 36"
  shows "digit_val (if r < 10 then of_nat (r + 48) else of_nat (r + 65 - 10)) = r"
proof -
  have "unat (of_nat (r + 48) :: u8) = r + 48" "unat (of_nat (r + 65 - 10) :: u8) = r + 65 - 10"
    using assms by (simp_all only: unat_of_nat) simp_all
  then show ?thesis using assms by (simp add: digit_val_def)
qed

lemma unat_div_of_nat: "unat (of_nat (unat (v :: u64) div b) :: u64) = unat v div b"
proof -
  have "unat v div b < 2 ^ 64" using div_le_dividend [of "unat v" b] unat_lt_64 [of v]
    by (rule order_le_less_trans)
  then show ?thesis by (simp add: unat_of_nat)
qed

lemma uint_digits_rec:
  assumes "2 \<le> unat base"
  shows "uint_digits v base =
    (if unat v mod unat base < 10 then of_nat (unat v mod unat base + 48) else of_nat (unat v mod unat base + 65 - 10)) #
    (if unat v div unat base \<noteq> 0 then uint_digits (of_nat (unat v div unat base)) base else [])"
proof -
  have "\<not> base < 2" using assms by (simp add: word_less_nat_alt)
  moreover have "(of_nat (unat v div unat base) :: u64) \<noteq> 0 \<longleftrightarrow> unat v div unat base \<noteq> 0"
    by (metis unat_div_of_nat unat_eq_zero unsigned_0)
  ultimately show ?thesis by (subst uint_digits.simps) (simp add: Let_def)
qed

lemma uint_digits:
  assumes b: "2 \<le> unat base" "unat base \<le> 36"
  shows "text_val (unat base) (rev (uint_digits v base)) = unat v \<and>
    (\<forall>n. unat v < unat base ^ Suc n \<longrightarrow> length (uint_digits v base) \<le> Suc n)"
proof (induction "unat v" arbitrary: v rule: less_induct)
  case less
  let ?b = "unat base" let ?v = "of_nat (unat v div ?b) :: u64"
  have d: "digit_val (if unat v mod ?b < 10 then of_nat (unat v mod ?b + 48) else of_nat (unat v mod ?b + 65 - 10)) = unat v mod ?b"
    by (rule digit_val) (use b in \<open>simp add: order_less_le_trans [OF mod_less_divisor]\<close>)
  show ?case
  proof (cases "unat v div ?b = 0")
    case True
    then show ?thesis using b d unfolding uint_digits_rec [OF b(1), of v]
      by (simp add: text_val_def div_eq_0_iff)
  next
    case False
    have lt: "unat ?v < unat v" unfolding unat_div_of_nat using False b by (intro div_less_dividend) (auto simp: div_eq_0_iff)
    note ih = less [OF lt]
    have "length (uint_digits v base) \<le> Suc n" if "unat v < ?b ^ Suc n" for n
    proof (cases n)
      case 0
      then show ?thesis using that False by (simp add: div_eq_0_iff)
    next
      case (Suc m)
      have "unat v div ?b < ?b ^ Suc m" using that b Suc by (intro less_mult_imp_div_less) (simp add: mult.commute)
      with ih have "length (uint_digits ?v base) \<le> Suc m" by (simp add: unat_div_of_nat)
      then show ?thesis using False Suc unfolding uint_digits_rec [OF b(1), of v] by simp
    qed
    moreover have "text_val ?b (rev (uint_digits v base)) = unat v"
      using False ih unfolding uint_digits_rec [OF b(1), of v] text_val_rev_Cons
      by (simp only: text_val_rev_Cons d if_True unat_div_of_nat) (simp add: text_val_rev_Cons d unat_div_of_nat)
    ultimately show ?thesis by blast
  qed
qed

lemma nth_reverse_loop:
  "p2 < length b \<Longrightarrow> length (reverse_loop p1 p2 b) = length b \<and>
   (\<forall>i. i < length b \<longrightarrow> reverse_loop p1 p2 b ! i = (if p1 \<le> i \<and> i \<le> p2 then b ! (p1 + p2 - i) else b ! i))"
proof (induction p1 p2 b rule: reverse_loop.induct)
  case (1 p1 p2 b)
  show ?case
  proof (cases "p1 < p2")
    case True
    let ?b = "b[p1 := b ! p2, p2 := b ! p1]"
    have e: "reverse_loop p1 p2 b = reverse_loop (Suc p1) (p2 - 1) ?b"
      using True by (simp add: reverse_loop.simps [of p1 p2 b])
    have lt: "p2 - 1 < length ?b" using "1.prems" by simp
    note ih = "1.IH" [OF True lt]
    have "reverse_loop p1 p2 b ! i = (if p1 \<le> i \<and> i \<le> p2 then b ! (p1 + p2 - i) else b ! i)" if i: "i < length b" for i
    proof -
      consider "i = p1" | "i = p2" | "i < p1" | "p2 < i" | "p1 < i" "i < p2" by linarith
      then show ?thesis
      proof cases
        case 5
        then have "Suc p1 + (p2 - 1) - i \<noteq> p1" "Suc p1 + (p2 - 1) - i \<noteq> p2" "Suc p1 \<le> i" "i \<le> p2 - 1"
          "Suc p1 + (p2 - 1) - i = p1 + p2 - i" by linarith+
        then show ?thesis using ih i True 5 unfolding e by (simp add: nth_list_update)
      qed (use ih i True "1.prems" in \<open>auto simp: e nth_list_update\<close>)
    qed
    with ih show ?thesis unfolding e by simp
  next
    case False
    then have "reverse_loop p1 p2 b = b" by (simp add: reverse_loop.simps [of p1 p2 b])
    moreover have "p1 + p2 - i = i" if "p1 \<le> i" "i \<le> p2" for i using that False by linarith
    ultimately show ?thesis by simp
  qed
qed

lemma reverse_loop: "reverse_loop 0 (length b - 1) b = rev b"
proof (cases b)
  case Nil
  then show ?thesis by (simp add: reverse_loop.simps)
next
  case (Cons x xs)
  then have lt: "length b - 1 < length b" by simp
  show ?thesis
  proof (rule nth_equalityI)
    show "length (reverse_loop 0 (length b - 1) b) = length (rev b)" using nth_reverse_loop [OF lt] by simp
  next
    fix i assume "i < length (reverse_loop 0 (length b - 1) b)"
    then have i: "i < length b" using nth_reverse_loop [OF lt] by simp
    then have "length b - Suc 0 - i = length b - Suc i" "i \<le> length b - 1" by linarith+
    then show "reverse_loop 0 (length b - 1) b ! i = rev b ! i"
      using nth_reverse_loop [OF lt, of 0] i by (simp add: rev_nth)
  qed
qed

lemma uintToBase: "uintToBase v base = rev (uint_digits v base)"
  using reverse_loop [of "uint_digits v base"] by (simp add: uintToBase_def Let_def)

lemma zeros_pad: "v \<noteq> 0 \<Longrightarrow> zeros_pad v z = z - length (uint_digits v 16)"
proof (induction "unat v" arbitrary: v z rule: less_induct)
  case less
  have q: "unat (drop_bit 4 v) = unat v div 16"
    by (simp only: unat_drop_bit_eq) (simp add: drop_bit_eq_div)
  have v': "(of_nat (unat v div 16) :: u64) = drop_bit 4 v" 
    using q by (simp add: word_unat_eq_iff unat_div_of_nat)
  have b: "2 \<le> unat (16 :: u32)" by simp
  have pos: "0 < unat v" using less.prems by (simp add: unat_gt_0)
  note rec = uint_digits_rec [OF b, of v]
  have step: "zeros_pad v z = zeros_pad (drop_bit 4 v) (z - 1)"
    using less.prems by (simp add: zeros_pad.simps [of v z])
  show ?case
  proof (cases "drop_bit 4 v = 0")
    case True
    then have "unat v div 16 = 0" using q by simp
    then show ?thesis using step True by (subst rec) (simp add: zeros_pad.simps)
  next
    case False
    have lt: "unat (drop_bit 4 v) < unat v" unfolding q using pos by simp
    have "unat v div 16 \<noteq> 0" using False q by (metis unat_eq_zero)
    then show ?thesis using step less.hyps [OF lt False] by (subst rec) (simp add: v')
  qed
qed

lemma intToHexa: "length (intToHexa v) = 16 \<and> text_val 16 (intToHexa v) = unat v"
proof (cases "v = 0")
  case True
  then show ?thesis using text_val_zeros [of 16 16 "[]"]
    by (simp add: intToHexa_def zeros_pad.simps text_val_def)
next
  case False
  have b: "2 \<le> unat (16 :: u32)" "unat (16 :: u32) \<le> 36" by simp_all
  have "unat v < unat (16 :: u32) ^ Suc 15" using unat_lt_64 [of v] by simp
  then have "length (uint_digits v 16) \<le> 16" using uint_digits [OF b, of v] by fastforce
  moreover have "text_val 16 (rev (uint_digits v 16)) = unat v" using uint_digits [OF b, of v] by simp
  ultimately show ?thesis using False
    by (simp add: intToHexa_def zeros_pad uintToBase text_val_zeros)
qed

end
