(* ===== verification/Key_Handler.thy ===== *)
theory Key_Handler
  imports Process
begin

text \<open>
  The keyboard interrupt handler \<open>handlePressedKey\<close> of \<open>Kernel/c/drivers/keyboardDriver.c\<close> with its
  two scancode tables. The scancode read from the controller is the argument. The result is
  \<open>None\<close> only when Ctrl-C kills a process and that call does not return.
\<close>

abbreviation (input) BREAK_CODE :: u8 where "BREAK_CODE \<equiv> 0x80"

text \<open>The 58 keys the tables name; the rest of the 128 entries is zero.\<close>

definition kbd_min :: "u8 list" where
  "kbd_min = [0, 27] @ map of_char ''1234567890-='' @ [8] @
     [9] @ map of_char ''qwertyuiop[]'' @ [10] @
     [0] @ map of_char ''asdfghjkl;'' @ [39, 96] @
     [0] @ [92] @ map of_char ''zxcvbnm,./'' @ [0] @ map of_char ''*'' @
     [0] @ map of_char '' '' @ replicate 70 0"

definition kbd_mayus :: "u8 list" where
  "kbd_mayus = [0, 27] @ map of_char ''!@#$%^&*()_+'' @ [8] @
     [9] @ map of_char ''QWERTYUIOP{}'' @ [10] @
     [0] @ map of_char ''ASDFGHJKL:'' @ [34, 126] @
     [0] @ [124] @ map of_char ''ZXCVBNM<>?'' @ [0] @ map of_char ''*'' @
     [0] @ map of_char '' '' @ replicate 70 0"

text \<open>\<open>kbd_manager[(shift + caps) % 2][scancode]\<close>\<close>

definition key_char :: "'a kbdsys_scheme \<Rightarrow> u8 \<Rightarrow> u8" where
  "key_char s sc = (if kb_shift s \<noteq> kb_caps s then kbd_mayus ! unat sc else kbd_min ! unat sc)"

text \<open>\<open>kbd_waiting_process->state = PROCESS_READY; kbd_waiting_process = NULL;\<close>, whatever state the
  process is in.\<close>

definition kbd_wake :: "'a kbdsys_scheme \<Rightarrow> 'a kbdsys_scheme" where
  "kbd_wake s =
     (case kbd_waiting_process s of
        None \<Rightarrow> s
      | Some w \<Rightarrow> (upd_pcb w (\<lambda>p. p\<lparr>p_state := PROCESS_READY\<rparr>) s)\<lparr>kbd_waiting_process := None\<rparr>)"

text \<open>Ctrl-D.\<close>

definition key_eof :: "'a kbdsys_scheme \<Rightarrow> 'a kbdsys_scheme" where
  "key_eof s =
     (if tty_mode s = TTY_COOKED \<and> kbd_waiting_process s \<noteq> None
      then kbd_wake (if tty_line_len s > 0 then s\<lparr>tty_line_ready := True\<rparr> else s\<lparr>tty_eof := True\<rparr>)
      else kbd_wake (writeBuff 4 s))"

text \<open>\<open>tty_line[tty_line_len++] = c;\<close>\<close>

definition tty_put :: "u8 \<Rightarrow> 'a kbdsys_scheme \<Rightarrow> 'a kbdsys_scheme" where
  "tty_put c s = s\<lparr>tty_line := (tty_line s)[tty_line_len s := c], tty_line_len := tty_line_len s + 1\<rparr>"

text \<open>A character in cooked mode, while a process waits.\<close>

definition key_cooked :: "u8 \<Rightarrow> 'a kbdsys_scheme \<Rightarrow> 'a kbdsys_scheme" where
  "key_cooked c s =
     (if c = 10 then kbd_wake ((tty_put c (videoPutChar c 0xFFFFFF s))\<lparr>tty_line_ready := True\<rparr>)
      else if c = 8
      then if tty_line_len s > 0 then videoPutChar 8 0xFFFFFF (s\<lparr>tty_line_len := tty_line_len s - 1\<rparr>) else s
      else if tty_line_len s < 255 then tty_put c (videoPutChar c 0xFFFFFF s)
      else s)"

definition key_typed :: "u8 \<Rightarrow> 'a kbdsys_scheme \<Rightarrow> 'a kbdsys_scheme" where
  "key_typed c s =
     (if tty_mode s = TTY_COOKED \<and> kbd_waiting_process s \<noteq> None then key_cooked c s
      else kbd_wake (writeBuff c s))"

definition handlePressedKey :: "u8 \<Rightarrow> 'a ksys_scheme \<Rightarrow> 'a ksys_scheme option" where
  "handlePressedKey scancode s =
     (if scancode = 0x2A \<or> scancode = 0x36 then Some (s\<lparr>kb_shift := True\<rparr>)
      else if scancode = (0x2A OR BREAK_CODE) \<or> scancode = (0x36 OR BREAK_CODE) then Some (s\<lparr>kb_shift := False\<rparr>)
      else if scancode = 0x1D then Some (s\<lparr>kb_ctrl := True\<rparr>)
      else if scancode = (0x1D OR BREAK_CODE) then Some (s\<lparr>kb_ctrl := False\<rparr>)
      else if scancode = 0x3B then Some ((storeSnapshot s)\<lparr>boolRegisters := True\<rparr>)
      else if scancode = 0x4B \<or> scancode = 0x4D \<or> scancode = 0x48 \<or> scancode = 0x50 \<or> scancode = 0 \<or>
              scancode > BREAK_CODE then Some s
      else if kb_ctrl s \<and> scancode = 0x2E then process_kill_foreground s
      else if kb_ctrl s \<and> scancode = 0x20 then Some (key_eof s)
      else if scancode = 0x3A then Some (s\<lparr>kb_caps := \<not> kb_caps s\<rparr>)
      else if scancode AND BREAK_CODE = 0 then Some (key_typed (key_char s scancode) s)
      else Some s)"

lemma kbd_tables: "length kbd_min = 128" "length kbd_mayus = 128"
  by (simp_all add: kbd_min_def kbd_mayus_def)

end
