(* ===== verification/Tty_Props.thy ===== *)
theory Tty_Props
  imports Demo_Kernel Keyboard_Lemmas Key_Handler
begin

text \<open>
  The properties of the keyboard and of the terminal: what a reader gets of the typed characters,
  the register snapshot, the bounds of the line buffer under any sequence of key presses, reads,
  mode changes and process deaths, the line editor of the cooked mode, and the delivery of a line.
\<close>

subsection \<open>Typing and reading in raw mode\<close>

text \<open>C18: Characters \<open>cs\<close> typed into a keyboard buffer and then read with room for \<open>n\<close> of them.
  The buffer keeps the last 256 characters in order. A read returns the oldest of them, but never
  more than half of what is buffered, rounded up, however large \<open>n\<close> is: the loop of \<open>readKeyBuff\<close>
  compares its index with \<open>buff_size\<close>, which \<open>getFromBuffer\<close> decrements. Nothing is lost or
  reordered: what was not returned is still in the buffer.\<close>

theorem kbd_typed_read:
  assumes "kbd_wf s"
  shows "let t = fold writeBuff cs s;
             kept = drop (kb_size s + length cs - 256) (kbd_data s @ cs);
             m = min n ((length kept + 1) div 2)
         in kbd_wf (snd (readKeyBuff n t)) \<and>
            fst (readKeyBuff n t) = take m kept \<and> kbd_data (snd (readKeyBuff n t)) = drop m kept"
proof -
  let ?t = "fold writeBuff cs s" and ?kept = "drop (kb_size s + length cs - 256) (kbd_data s @ cs)"
  have t: "kbd_wf ?t" "kbd_data ?t = ?kept" using kbd.put_all [OF assms, of cs] by simp_all
  have "kb_size ?t = length ?kept" unfolding t(2) [symmetric] by simp
  then show ?thesis using readKeyBuff [OF t(1), of n] t(2) by (simp only: Let_def)
qed

lemma demo_kbd: "kbd_wf demo_k" "kbd_data demo_k = []" "kb_size demo_k = 0"
  by (simp_all add: kbd_wf_def kbd_data_def demo_k_def)

theorem kbd_typed_read_witness:
  "fst (readKeyBuff 100 (fold writeBuff (map of_char ''hola'') demo_k)) = map of_char ''ho''"
  using kbd_typed_read [OF demo_kbd(1), of "map of_char ''hola''" 100] demo_kbd(2,3)
  by (simp add: Let_def)

subsection \<open>The snapshot\<close>

lemma put_bytes:
  "j + length xs \<le> length b \<Longrightarrow> put_bytes j xs b = take j b @ xs @ drop (j + length xs) b"
proof (induction xs arbitrary: j b)
  case (Cons x xs)
  then have l: "j < length b" by simp
  have "take (Suc j) (b[j := x]) = take j b @ [x]" using l by (simp add: take_Suc_conv_app_nth)
  moreover have "drop (Suc j + length xs) (b[j := x]) = drop (j + length (x # xs)) b" by simp
  ultimately show ?case using Cons.IH [of "Suc j" "b[j := x]"] Cons.prems by simp
qed simp

lemma length_reg_line: "length (reg_line nm v) = length nm + 17"
  using intToHexa [of v] by (simp add: reg_line_def)

lemma snapshot_loop:
  "length nms = length vs \<Longrightarrow> j + length (concat (map2 reg_line nms vs)) \<le> length b \<Longrightarrow>
   snapshot_loop nms vs j b =
     (j + length (concat (map2 reg_line nms vs)),
      take j b @ concat (map2 reg_line nms vs) @ drop (j + length (concat (map2 reg_line nms vs))) b)"
proof (induction nms vs arbitrary: j b rule: list_induct2)
  case (Cons nm nms v vs)
  let ?l = "reg_line nm v" let ?b = "put_bytes j ?l b"
  have b: "?b = take j b @ ?l @ drop (j + length ?l) b" using Cons.prems by (intro put_bytes) simp
  have len: "length ?b = length b" unfolding b using Cons.prems by simp
  have j: "j \<le> length b" using Cons.prems by simp
  have "take (j + length ?l) ?b = take j b @ ?l" unfolding b using j by simp
  moreover have "drop (j + length ?l + k) ?b = drop (j + length ?l + k) b" for k
    unfolding b using j by (simp add: ac_simps)
  ultimately show ?case using Cons.IH [of "j + length ?l" ?b] Cons.prems len
    by (simp add: add.assoc)
qed simp

lemma uint_digits_nonzero: "c \<in> set (uint_digits v 16) \<Longrightarrow> c \<noteq> 0"
proof (induction "unat v" arbitrary: v rule: less_induct)
  case less
  let ?v = "of_nat (unat v div 16) :: u64" and ?r = "unat v mod 16"
  have b: "2 \<le> unat (16 :: u32)" "unat (16 :: u32) = 16" by simp_all
  have r: "?r < 16" by simp
  have "unat (of_nat (?r + 48) :: u8) = ?r + 48" "unat (of_nat (?r + 65 - 10) :: u8) = ?r + 65 - 10"
    using r by (simp_all only: unat_of_nat) simp_all
  then have nz: "(of_nat (?r + 48) :: u8) \<noteq> 0" "(of_nat (?r + 65 - 10) :: u8) \<noteq> 0"
    by (auto simp flip: unat_gt_0)
  from less.prems consider "c = (if ?r < 10 then of_nat (?r + 48) else of_nat (?r + 65 - 10))"
    | "unat v div 16 \<noteq> 0" "c \<in> set (uint_digits ?v 16)"
    using uint_digits_rec [OF b(1), of v] by (auto split: if_splits)
  then show ?case
  proof cases
    case 1
    then show ?thesis using nz by auto
  next
    case 2
    have "unat ?v < unat v" unfolding unat_div_of_nat using 2(1) by simp
    then show ?thesis using less.hyps 2(2) by blast
  qed
qed

lemma reg_line_nonzero: "\<forall>x\<in>set nm. (of_char x :: u8) \<noteq> 0 \<Longrightarrow> c \<in> set (reg_line nm v) \<Longrightarrow> c \<noteq> 0"
  by (auto simp: reg_line_def intToHexa_def uintToBase dest: uint_digits_nonzero split: if_splits)

lemma reg_names_chars: "\<forall>nm\<in>set reg_names. \<forall>x\<in>set nm. (of_char x :: u8) \<noteq> 0" "length reg_names = 20"
  "length (concat reg_names) = 139"
  by (simp_all add: reg_names_def)

lemma length_reg_lines:
  "length nms = length vs \<Longrightarrow> length (concat (map2 reg_line nms vs)) = length (concat nms) + 17 * length nms"
  by (induction nms vs rule: list_induct2) (simp_all add: length_reg_line)

lemma reg_lines_nonzero:
  "length nms = length vs \<Longrightarrow> \<forall>nm\<in>set nms. \<forall>x\<in>set nm. (of_char x :: u8) \<noteq> 0 \<Longrightarrow>
   c \<in> set (concat (map2 reg_line nms vs)) \<Longrightarrow> c \<noteq> 0"
  by (induction nms vs rule: list_induct2) (auto dest: reg_line_nonzero)

text \<open>The register snapshot taken on F1. Its text has 479 bytes for any register contents, stays
  inside the buffer of 1024, ends with a \<open>'\\0'\<close>, and is what a program reads back: a line per
  register with its name and 16 hexadecimal digits that denote its value.\<close>

theorem snapshot_roundtrip:
  assumes "length (regsArray s) = 20" "length (registersBuff s) = 1024"
  shows "copyRegistersBuffer ((storeSnapshot s)\<lparr>boolRegisters := True\<rparr>) =
      Some (concat (map2 reg_line reg_names (regsArray s))) \<and>
    length (concat (map2 reg_line reg_names (regsArray s))) = 479 \<and>
    length (registersBuff (storeSnapshot s)) = 1024 \<and>
    (\<forall>v. length (intToHexa v) = 16 \<and> text_val 16 (intToHexa v) = unat v)"
proof -
  let ?t = "concat (map2 reg_line reg_names (regsArray s))"
  have l: "length reg_names = length (regsArray s)" using assms(1) reg_names_chars(2) by simp
  have n: "length ?t = 479" using length_reg_lines [OF l] reg_names_chars by simp
  have "snapshot_loop reg_names (regsArray s) 0 (registersBuff s) =
      (0 + length ?t, take 0 (registersBuff s) @ ?t @ drop (0 + length ?t) (registersBuff s))"
    by (rule snapshot_loop [OF l]) (use n assms(2) in simp)
  then have b: "registersBuff (storeSnapshot s) = ?t @ 0 # drop 480 (registersBuff s)"
    using n assms(2) Cons_nth_drop_Suc [of 479 "registersBuff s"]
    by (simp add: storeSnapshot_def list_update_append split: list.split) (metis list_update_code(2))
  have "takeWhile (\<lambda>c. c \<noteq> 0) (registersBuff (storeSnapshot s)) = ?t"
    unfolding b using reg_lines_nonzero [OF l reg_names_chars(1)] by (subst takeWhile_append2) auto
  then have "copyRegistersBuffer ((storeSnapshot s)\<lparr>boolRegisters := True\<rparr>) = Some ?t"
    by (simp add: copyRegistersBuffer_def)
  moreover have "length (registersBuff (storeSnapshot s)) = 1024" unfolding b using n assms(2) by simp
  ultimately show ?thesis using n intToHexa by blast
qed

theorem snapshot_roundtrip_witness:
  "length (concat (map2 reg_line reg_names (regsArray demo_k))) = 479"
  using snapshot_roundtrip [of demo_k] by (simp add: demo_k_def)

subsection \<open>The line buffer\<close>

definition tty_inv :: "'a kbdsys_scheme \<Rightarrow> bool" where
  "tty_inv s \<longleftrightarrow> kbd_wf s \<and> length (tty_line s) = 256 \<and> tty_line_len s \<le> 256 \<and>
     (\<not> tty_line_ready s \<longrightarrow> tty_line_len s < 256) \<and>
     (kbd_waiting_process s \<noteq> None \<or> tty_mode s \<noteq> TTY_COOKED \<longrightarrow> \<not> tty_line_ready s)"

lemma tty_inv_part: "tty_part t = tty_part s \<Longrightarrow> tty_inv t = tty_inv s"
  by (simp add: tty_inv_def tty_part_def kbd_wf_def)

lemma tty_inv_upd_pcb [simp]: "tty_inv (upd_pcb i f s) = tty_inv s"
  by (rule tty_inv_part) (rule tty_sem.fr_pcb)

lemma tty_inv_clear: "tty_inv s \<Longrightarrow> tty_inv (kbd_clear_waiting p s)"
  by (auto simp: tty_inv_def kbd_clear_waiting_def kbd_wf_def)

lemma tty_inv_wake: "tty_inv s \<Longrightarrow> tty_inv (kbd_wake s)"
  by (auto simp: kbd_wake_def tty_inv_def kbd_wf_def upd_pcb_def split: option.split)

lemma tty_inv_mode: "tty_inv s \<Longrightarrow> tty_inv (tty_set_mode m s)"
  by (auto simp: tty_set_mode_def tty_inv_def kbd_wf_def)

lemma writeBuff_tty [simp]:
  "tty_line (writeBuff c s) = tty_line s" "tty_line_len (writeBuff c s) = tty_line_len s"
  "tty_line_ready (writeBuff c s) = tty_line_ready s" "kbd_waiting_process (writeBuff c s) = kbd_waiting_process s"
  "tty_mode (writeBuff c s) = tty_mode s" "tty_eof (writeBuff c s) = tty_eof s"
  by (simp_all add: writeBuff_def Let_def)

lemma tty_inv_writeBuff: "tty_inv s \<Longrightarrow> tty_inv (writeBuff c s)"
  by (simp add: tty_inv_def writeBuff)

lemma tty_inv_cooked: "tty_inv s \<Longrightarrow> tty_mode s = TTY_COOKED \<Longrightarrow> kbd_waiting_process s \<noteq> None \<Longrightarrow> tty_inv (key_cooked c s)"
  by (auto simp: key_cooked_def tty_put_def videoPutChar_def kbd_wake_def tty_inv_def kbd_wf_def upd_pcb_def
      split: option.split)

lemma tty_inv_eof: "tty_inv s \<Longrightarrow> tty_inv (key_eof s)"
proof (cases "tty_mode s = TTY_COOKED \<and> kbd_waiting_process s \<noteq> None")
  case True
  moreover assume "tty_inv s"
  ultimately show ?thesis by (auto simp: key_eof_def kbd_wake_def tty_inv_def kbd_wf_def upd_pcb_def)
next
  case False
  moreover assume "tty_inv s"
  ultimately show ?thesis unfolding key_eof_def by (simp only: if_False tty_inv_wake tty_inv_writeBuff)
qed

lemma tty_part_notify: "tty_part (notify_parent pp k r s) = tty_part s"
  by (simp add: notify_parent_def tty_sem.fr_pcb split: option.split) (simp add: tty_part_def upd_pcb_def)

lemma tty_part_sched:
  "tty_part (scheduler_remove i s) = tty_part s"
  "free_stack_argv c s = Some t \<Longrightarrow> tty_part t = tty_part s"
  by (auto simp: tty_part_def scheduler_remove_def Let_def free_stack_argv_def kfree_def upd_pcb_def
      Option.bind_eq_Some_conv split: option.split if_splits)

lemma tty_inv_kill:
  assumes "process_kill pid s = Some t" "tty_inv s"
  shows "tty_inv t"
proof (cases "process_get s pid")
  case None
  with assms show ?thesis by (simp add: process_kill_def)
next
  case (Some i)
  show ?thesis
  proof (cases "p_state (pcb_at s i) = PROCESS_FREE \<or> p_state (pcb_at s i) = PROCESS_ZOMBIE")
    case True
    with assms Some show ?thesis by (simp add: process_kill_def)
  next
    case False
    let ?s1 = "upd_pcb i (\<lambda>p. p\<lparr>p_retval := -1\<rparr>) s"
    obtain s2 where s2: "sem_cleanup_for_process pid ?s1 = Some s2"
      using assms(1) Some False by (auto simp: process_kill_def Option.bind_eq_Some_conv)
    let ?s4 = "kbd_clear_waiting (Some i) (pipe_cleanup_for_process pid s2)"
    let ?s5 = "notify_parent (p_parent_pid (pcb_at ?s4 i)) pid (-1) ?s4"
    have "tty_part (pipe_cleanup_for_process pid s2) = tty_part s"
      using tty_sem.fr_sem_cleanup [OF s2] by (simp add: tty_fd.fr_pipe_cleanup tty_sem.fr_pcb)
    then have "tty_inv ?s4" using assms(2) tty_inv_clear tty_inv_part by blast
    then have i5: "tty_inv ?s5" using tty_inv_part [OF tty_part_notify] by blast
    have "tty_part t = tty_part ?s5"
      using assms(1) Some False s2 by (auto simp: process_kill_def Let_def Option.bind_eq_Some_conv tty_fd.fr_release_fds
        tty_sem.fr_force tty_sem.fr_pcb tty_part_sched(1) dest!: tty_part_sched(2) split: if_splits)
    with i5 show ?thesis using tty_inv_part by blast
  qed
qed

lemma tty_inv_exit:
  assumes "process_exit r s = Some t" "tty_inv s"
  shows "tty_inv t"
proof (cases "current_process s")
  case None
  with assms show ?thesis by (simp add: process_exit_def)
next
  case (Some c)
  let ?s1 = "upd_pcb c (\<lambda>p. p\<lparr>p_retval := r\<rparr>) s"
  obtain s2 where s2: "sem_cleanup_for_process (p_pid (pcb_at ?s1 c)) ?s1 = Some s2"
    using assms(1) Some by (auto simp: process_exit_def Let_def Option.bind_eq_Some_conv)
  let ?s4 = "kbd_clear_waiting (Some c) (pipe_cleanup_for_process (p_pid (pcb_at s2 c)) s2)"
  have "tty_part (pipe_cleanup_for_process (p_pid (pcb_at s2 c)) s2) = tty_part s"
    using tty_sem.fr_sem_cleanup [OF s2] by (simp add: tty_fd.fr_pipe_cleanup tty_sem.fr_pcb)
  then have "tty_inv ?s4" using assms(2) tty_inv_clear tty_inv_part by blast
  moreover have "tty_part t = tty_part ?s4"
    using assms(1) Some s2 by (auto simp: process_exit_def Let_def tty_fd.fr_release_fds tty_part_notify
        tty_sem.fr_force tty_sem.fr_pcb)
  ultimately show ?thesis using tty_inv_part by blast
qed

lemma tty_inv_key:
  assumes "handlePressedKey sc s = Some t" "tty_inv s"
  shows "tty_inv t"
proof -
  have typed: "tty_inv (key_typed c s)" for c
    using assms(2) by (auto simp: key_typed_def tty_inv_cooked tty_inv_wake tty_inv_writeBuff)
  have kf: "process_kill_foreground s = Some t \<Longrightarrow> tty_inv t"
    using assms(2) by (auto simp: process_kill_foreground_def case_prod_beta Let_def split: if_splits intro: tty_inv_kill)
  have same: "tty_part u = tty_part s \<Longrightarrow> tty_inv u" for u :: "'a ksys_scheme"
    using assms(2) tty_inv_part by blast
  have upd: "tty_inv ((storeSnapshot s)\<lparr>boolRegisters := True\<rparr>)" "tty_inv (s\<lparr>kb_shift := b\<rparr>)"
    "tty_inv (s\<lparr>kb_ctrl := b\<rparr>)" "tty_inv (s\<lparr>kb_caps := b\<rparr>)" for b
    by (rule same, simp add: storeSnapshot_def tty_part_def case_prod_beta)+
  show ?thesis
    using assms(1) kf typed tty_inv_eof [OF assms(2)] upd assms(2) unfolding handlePressedKey_def
    by (auto split: if_splits)
qed

lemma tty_inv_block: "tty_inv s \<Longrightarrow> \<not> tty_line_ready s \<Longrightarrow> tty_inv (tty_block c s)"
  by (auto simp: tty_block_def kbd_set_waiting_def tty_inv_def kbd_wf_def upd_pcb_def)

lemma length_tty_shift [simp]: "length (tty_shift k n l) = length l"
proof -
  have "length (fold (\<lambda>i l. l[i := l ! (i + k)]) is l) = length l" for "is"
    by (induction "is" arbitrary: l) simp_all
  then show ?thesis by (simp add: tty_shift_def)
qed

lemma tty_inv_read_cooked: "tty_inv s \<Longrightarrow> tty_inv (snd (snd (tty_read_cooked n c s)))"
proof -
  assume i: "tty_inv s"
  have "tty_inv (s\<lparr>tty_eof := False\<rparr>)" using i by (simp add: tty_inv_def kbd_wf_def)
  moreover have "tty_inv (s\<lparr>tty_line_len := 0, tty_line_ready := False, tty_eof := False\<rparr>)"
    using i by (simp add: tty_inv_def kbd_wf_def)
  moreover have "tty_inv (s\<lparr>tty_line := tty_shift n (tty_line_len s - n) (tty_line s), tty_line_len := tty_line_len s - n\<rparr>)"
    using i by (auto simp: tty_inv_def kbd_wf_def)
  ultimately show ?thesis using tty_inv_block [OF i] by (simp add: tty_read_cooked_def Let_def)
qed

lemma readKeyBuff_tty:
  "kbd_waiting_process (snd (readKeyBuff n s)) = kbd_waiting_process s \<and> tty_mode (snd (readKeyBuff n s)) = tty_mode s \<and>
   tty_line (snd (readKeyBuff n s)) = tty_line s \<and> tty_line_len (snd (readKeyBuff n s)) = tty_line_len s \<and>
   tty_line_ready (snd (readKeyBuff n s)) = tty_line_ready s"
proof -
  have "kbd_waiting_process (snd (readKeyBuff_loop n i s)) = kbd_waiting_process s \<and>
     tty_mode (snd (readKeyBuff_loop n i s)) = tty_mode s \<and> tty_line (snd (readKeyBuff_loop n i s)) = tty_line s \<and>
     tty_line_len (snd (readKeyBuff_loop n i s)) = tty_line_len s \<and>
     tty_line_ready (snd (readKeyBuff_loop n i s)) = tty_line_ready s" for i
  proof (induction n i s rule: readKeyBuff_loop.induct)
    case (1 n i s)
    obtain c s1 where g: "getFromBuffer s = (c, s1)" by force
    have "kbd_waiting_process s1 = kbd_waiting_process s \<and> tty_mode s1 = tty_mode s \<and> tty_line s1 = tty_line s \<and>
        tty_line_len s1 = tty_line_len s \<and> tty_line_ready s1 = tty_line_ready s"
      using g by (auto simp: getFromBuffer_def Let_def split: if_splits)
    with "1.IH" [OF _ g [symmetric] refl] show ?case
      by (subst (1 2 3 4 5) readKeyBuff_loop.simps) (simp add: g case_prod_beta)
  qed
  then show ?thesis by (simp add: readKeyBuff_def)
qed

lemma tty_inv_read_raw: "tty_inv s \<Longrightarrow> tty_mode s \<noteq> TTY_COOKED \<Longrightarrow> tty_inv (snd (snd (tty_read_raw n c s)))"
proof -
  assume i: "tty_inv s" and m: "tty_mode s \<noteq> TTY_COOKED"
  have "kbd_wf (snd (readKeyBuff n s))" using i readKeyBuff(1) [of s n] by (simp add: tty_inv_def)
  then have j: "tty_inv (snd (readKeyBuff n s))" using i readKeyBuff_tty [of n s] by (simp add: tty_inv_def)
  moreover have "\<not> tty_line_ready (snd (readKeyBuff n s))" using i m readKeyBuff_tty [of n s] by (simp add: tty_inv_def)
  ultimately show ?thesis by (simp add: tty_read_raw_def Let_def case_prod_beta tty_inv_block)
qed

lemma tty_inv_pipe_read [simp]: "tty_inv (snd (snd (pipe_read p b n s))) = tty_inv (s :: 'a fdsys_scheme)"
  by (rule tty_inv_part) (rule tty_fd.fr_pipe_read)

lemma tty_inv_fd_read: "tty_inv s \<Longrightarrow> tty_inv (snd (snd (fd_read d b n cur s)))"
  by (simp add: fd_read_def tty_get_mode_def tty_inv_read_cooked tty_inv_read_raw split: option.split FDType.split)

text \<open>The steps that touch the terminal, and any other step of the kernel, which leaves it alone.\<close>

inductive tty_step :: "ksys \<Rightarrow> ksys \<Rightarrow> bool" where
  key: "handlePressedKey sc s = Some t \<Longrightarrow> tty_step s t"
| read: "tty_step s (snd (snd (fd_read d b n cur s)))"
| mode: "tty_step s (tty_set_mode m s)"
| die: "process_exit r s = Some t \<Longrightarrow> tty_step s t"
| kill: "process_kill pid s = Some t \<Longrightarrow> tty_step s t"
| other: "tty_part t = tty_part s \<Longrightarrow> tty_step s t"

lemma tty_inv_step: "tty_step s t \<Longrightarrow> tty_inv s \<Longrightarrow> tty_inv t"
proof (induction rule: tty_step.induct)
  case (key sc s t)
  then show ?case by (rule tty_inv_key)
next
  case (die r s t)
  then show ?case by (rule tty_inv_exit)
next
  case (kill pid s t)
  then show ?case by (rule tty_inv_kill)
next
  case (other t s)
  then show ?case using tty_inv_part by blast
qed (rule tty_inv_fd_read, assumption, rule tty_inv_mode, assumption)

lemma tty_inv_steps: "tty_step\<^sup>*\<^sup>* s t \<Longrightarrow> tty_inv s \<Longrightarrow> tty_inv t"
  by (induction rule: rtranclp_induct) (auto intro: tty_inv_step)

text \<open>C19: The line buffer is never overrun. In whatever order keys are pressed, Ctrl-C and Ctrl-D
  included, processes read, change the mode of the terminal, exit or are killed: the line has at
  most its 256 bytes, whenever the handler may store a character (cooked mode, a process waits) the
  index it writes to is inside the buffer, and the 256 slots of the keyboard buffer are used as a
  ring.\<close>

theorem tty_line_bounds:
  assumes "tty_step\<^sup>*\<^sup>* s t" "tty_inv s"
  shows "tty_line_len t \<le> 256 \<and> length (tty_line t) = 256 \<and> kbd_wf t \<and>
    (tty_mode t = TTY_COOKED \<and> kbd_waiting_process t \<noteq> None \<longrightarrow> tty_line_len t < 256)"
  using tty_inv_steps [OF assms] by (auto simp: tty_inv_def)

lemma demo_tty: "tty_inv demo_k"
  by (simp add: tty_inv_def demo_kbd) (simp add: demo_k_def)

definition demo_wait :: ksys where
  "demo_wait = tty_block 1 (tty_set_mode 1 demo_k)"

lemma demo_wait: "tty_step\<^sup>*\<^sup>* demo_k demo_wait" "tty_mode demo_wait = 1" "kbd_waiting_process demo_wait = Some 1"
  "tty_inv demo_wait" "length (process_table demo_wait) = 64" "tty_line_len demo_wait = 0"
proof -
  have "snd (snd (fd_read (Some 0) True 5 (Some 1) (tty_set_mode 1 demo_k))) = demo_wait"
    by (simp add: fd_read_def fd_at_def tty_set_mode_def demo_k_def demo_wait_def tty_get_mode_def pcb_at_def
        demo_table_nth demo_pcb_def tty_read_cooked_def)
  then have "tty_step (tty_set_mode 1 demo_k) demo_wait" by (metis tty_step.read)
  moreover have "tty_step demo_k (tty_set_mode 1 demo_k)" by (rule tty_step.mode)
  ultimately show r: "tty_step\<^sup>*\<^sup>* demo_k demo_wait" by (meson converse_rtranclp_into_rtranclp r_into_rtranclp)
  show "tty_inv demo_wait" by (rule tty_inv_steps [OF r demo_tty])
  show "tty_mode demo_wait = 1" "kbd_waiting_process demo_wait = Some 1" "length (process_table demo_wait) = 64"
    "tty_line_len demo_wait = 0"
    by (simp_all add: demo_wait_def tty_block_def kbd_set_waiting_def tty_set_mode_def upd_pcb_def)
qed

theorem tty_line_bounds_witness: "tty_line_len demo_wait < 256"
  using tty_line_bounds [OF demo_wait(1) demo_tty] demo_wait by simp

subsection \<open>The line editor\<close>

definition tty_text :: "'a kbdsys_scheme \<Rightarrow> u8 list" where
  "tty_text s = take (tty_line_len s) (tty_line s)"

text \<open>The reference: backspace drops the last character, any other is appended while there is room.\<close>

fun edit :: "u8 list \<Rightarrow> u8 list \<Rightarrow> u8 list" where
  "edit line [] = line"
| "edit line (c # cs) =
     edit (if c = 8 then butlast line else if length line < 255 then line @ [c] else line) cs"

lemma tty_put_text: "tty_line_len s < length (tty_line s) \<Longrightarrow> tty_text (tty_put c s) = tty_text s @ [c]"
  by (simp add: tty_text_def tty_put_def take_Suc_conv_app_nth)

lemma key_cooked_edit:
  assumes "tty_inv s" "kbd_waiting_process s = Some w" "c \<noteq> 10"
  shows "tty_text (key_cooked c s) = edit (tty_text s) [c]" "kbd_waiting_process (key_cooked c s) = Some w"
    "tty_mode (key_cooked c s) = tty_mode s" "process_table (key_cooked c s) = process_table s"
proof -
  have l: "length (tty_line s) = 256" "tty_line_len s < 256" using assms by (auto simp: tty_inv_def)
  then have n: "length (tty_text s) = tty_line_len s" by (simp add: tty_text_def)
  have "tty_text (s\<lparr>tty_line_len := tty_line_len s - 1\<rparr>) = butlast (tty_text s)"
    using l by (simp add: tty_text_def butlast_take)
  then show "tty_text (key_cooked c s) = edit (tty_text s) [c]"
    using assms(3) l n by (auto simp: key_cooked_def videoPutChar_def tty_text_def tty_put_def take_Suc_conv_app_nth)
  show "kbd_waiting_process (key_cooked c s) = Some w" "tty_mode (key_cooked c s) = tty_mode s"
    "process_table (key_cooked c s) = process_table s"
    using assms by (simp_all add: key_cooked_def videoPutChar_def tty_put_def)
qed

lemma typed_edit:
  "tty_inv s \<Longrightarrow> tty_mode s = TTY_COOKED \<Longrightarrow> kbd_waiting_process s = Some w \<Longrightarrow> 10 \<notin> set cs \<Longrightarrow>
   tty_inv (fold key_typed cs s) \<and> tty_mode (fold key_typed cs s) = TTY_COOKED \<and>
   kbd_waiting_process (fold key_typed cs s) = Some w \<and> tty_text (fold key_typed cs s) = edit (tty_text s) cs \<and>
   process_table (fold key_typed cs s) = process_table s"
proof (induction cs arbitrary: s)
  case (Cons c cs)
  have k: "key_typed c s = key_cooked c s" using Cons.prems by (simp add: key_typed_def)
  have c: "c \<noteq> 10" using Cons.prems by auto
  note e = key_cooked_edit [OF Cons.prems(1,3) c]
  have "tty_inv (key_cooked c s)" by (rule tty_inv_cooked) (use Cons.prems in simp_all)
  from Cons.IH [OF this] Cons.prems e show ?case by (simp add: k)
qed simp

text \<open>C20: The line editor of the cooked mode. A process waits for a line; the characters \<open>cs\<close> are
  typed, backspaces among them, then Enter. The line buffer then holds what the reference editor
  makes of them, followed by the newline, the line is marked ready, nobody is waiting any more and
  the process that was waiting is READY.\<close>

theorem tty_edit_line:
  assumes "tty_inv s" "tty_mode s = TTY_COOKED" "kbd_waiting_process s = Some w"
    "w < length (process_table s)" "10 \<notin> set cs"
  shows "let t = key_typed 10 (fold key_typed cs s)
    in tty_text t = edit (tty_text s) cs @ [10] \<and> tty_line_ready t \<and> kbd_waiting_process t = None \<and>
       p_state (pcb_at t w) = PROCESS_READY \<and> tty_inv t"
proof -
  let ?u = "fold key_typed cs s" let ?t = "key_typed 10 ?u"
  note u = typed_edit [OF assms(1-3,5)]
  have k: "?t = key_cooked 10 ?u" using u by (simp add: key_typed_def)
  have l: "tty_line_len ?u < length (tty_line ?u)" using u by (auto simp: tty_inv_def)
  have "tty_inv ?t" unfolding k by (rule tty_inv_cooked) (use u in auto)
  moreover have "tty_text ?t = tty_text ?u @ [10]"
    using tty_put_text [OF l, of 10] u
    by (simp add: k key_cooked_def kbd_wake_def tty_text_def tty_put_def videoPutChar_def upd_pcb_def)
  moreover have "tty_line_ready ?t" "kbd_waiting_process ?t = None"
    using u by (simp_all add: k key_cooked_def kbd_wake_def tty_put_def videoPutChar_def upd_pcb_def)
  moreover have "p_state (pcb_at ?t w) = PROCESS_READY"
    using u assms(4) by (simp add: k key_cooked_def kbd_wake_def tty_put_def videoPutChar_def upd_pcb_def pcb_at_def)
  ultimately show ?thesis using u by simp
qed

theorem tty_edit_line_witness:
  "tty_text (key_typed 10 (fold key_typed (map of_char ''lx'' @ [8] @ map of_char ''s'') demo_wait)) =
   map of_char ''ls'' @ [10]"
  using tty_edit_line [OF demo_wait(4,2,3), of "map of_char ''lx'' @ [8] @ map of_char ''s''"] demo_wait(5,6)
  by (simp add: Let_def tty_text_def)

subsection \<open>The delivery of a line\<close>

lemma tty_shift_loop:
  "k + n \<le> length l \<Longrightarrow> take n (tty_shift k n l) = take n (drop k l) \<and> (\<forall>i<length l. n \<le> i \<longrightarrow> tty_shift k n l ! i = l ! i)"
proof (induction n)
  case (Suc n)
  let ?f = "tty_shift k n l"
  have e: "tty_shift k (Suc n) l = ?f[n := ?f ! (n + k)]" by (simp add: tty_shift_def)
  have ih: "take n ?f = take n (drop k l)" "\<forall>i<length l. n \<le> i \<longrightarrow> ?f ! i = l ! i" using Suc by simp_all
  have lt: "n + k < length l" using Suc.prems by simp
  have "take (Suc n) (tty_shift k (Suc n) l) = take n ?f @ [?f ! (n + k)]"
    unfolding e using lt by (simp add: take_Suc_conv_app_nth)
  also have "\<dots> = take (Suc n) (drop k l)"
    using ih lt by (simp add: take_Suc_conv_app_nth add.commute)
  finally show ?case using ih unfolding e by simp
qed (simp add: tty_shift_def)

text \<open>C21: Delivery in cooked mode. When a line is ready, a foreground process that reads with room
  for \<open>n\<close> bytes gets the first \<open>n\<close> bytes of it; the rest stays, and the line remains ready exactly
  as long as something is left of it, so any sequence of reads returns the line in order. Without
  a line and without end of file, the process goes to sleep and is the one the keyboard wakes.\<close>

theorem tty_read_line:
  assumes "tty_inv s" "tty_mode s = TTY_COOKED" "p_foreground (pcb_at s c) \<noteq> 0"
    "fd_type (fd_at s d) = FD_TERMINAL" "0 < n" "c < length (process_table s)"
  shows "let (r, bs, t) = fd_read (Some d) True n (Some c) s in tty_inv t \<and>
    (if tty_line_ready s \<and> 0 < tty_line_len s
     then bs = take n (tty_text s) \<and> r = of_nat (length bs) \<and> tty_text t = drop n (tty_text s) \<and>
       (tty_line_ready t \<longleftrightarrow> n < tty_line_len s)
     else \<not> tty_line_ready s \<and> \<not> tty_eof s \<longrightarrow>
       r = READ_BLOCKED \<and> p_state (pcb_at t c) = PROCESS_BLOCKED \<and> kbd_waiting_process t = Some c \<and> force_switch t)"
proof -
  have e: "fd_read (Some d) True n (Some c) s = tty_read_cooked n c s"
    using assms by (simp add: fd_read_def tty_get_mode_def)
  have i: "tty_inv (snd (snd (tty_read_cooked n c s)))" using assms(1) by (rule tty_inv_read_cooked)
  have l: "length (tty_line s) = 256" "tty_line_len s \<le> 256" using assms(1) by (auto simp: tty_inv_def)
  have bytes: "map (\<lambda>i. tty_line s ! i) [0..<m] = take m (tty_text s)" if "m \<le> tty_line_len s" for m
    using that l by (simp add: tty_text_def take_map [symmetric] map_nth min_def) (rule nth_equalityI, simp_all)
  show ?thesis
  proof (cases "tty_line_ready s \<and> 0 < tty_line_len s")
    case True
    show ?thesis
    proof (cases "n < tty_line_len s")
      case lt: True
      have "take (tty_line_len s - n) (tty_shift n (tty_line_len s - n) (tty_line s)) =
          take (tty_line_len s - n) (drop n (tty_line s))"
        using tty_shift_loop [of n "tty_line_len s - n" "tty_line s"] lt l by simp
      then have "tty_text (snd (snd (tty_read_cooked n c s))) = drop n (tty_text s)"
        using True lt by (simp add: tty_read_cooked_def tty_text_def drop_take)
      then show ?thesis unfolding e using True lt i l bytes [of n]
        by (simp add: tty_read_cooked_def Let_def tty_text_def)
    next
      case False
      then show ?thesis unfolding e using True i l bytes [of "tty_line_len s"]
        by (simp add: tty_read_cooked_def Let_def tty_text_def)
    qed
  next
    case False
    then show ?thesis unfolding e using i assms(6)
      by (auto simp: tty_read_cooked_def Let_def tty_block_def kbd_set_waiting_def pcb_at_upd pcb_at_def upd_pcb_def)
  qed
qed

theorem tty_read_line_witness:
  "p_state (pcb_at (snd (snd (fd_read (Some 0) True 5 (Some 1) (tty_set_mode 1 demo_k)))) 1) = PROCESS_BLOCKED"
proof -
  have "tty_inv (tty_set_mode 1 demo_k)" by (rule tty_inv_mode [OF demo_tty])
  from tty_read_line [OF this, of 1 0 5] show ?thesis
    by (simp add: case_prod_beta tty_set_mode_def demo_k_def pcb_at_def fd_at_def demo_table_nth demo_pcb_def)
qed

end
