(* ===== verification/Syscalls.thy ===== *)
theory Syscalls
  imports Key_Handler
begin

text \<open>
  The system calls of \<open>Kernel/c/syscall/syscallDispatcher.c\<close> on processes, semaphores, descriptors,
  pipes, memory and the terminal. Those that forward to the screen, the speaker and the clock chip are in
  the theory \<open>Devices\<close>. Pointers from the caller are what they point to: \<open>None\<close> is 0, a buffer to
  write is the list of its bytes, a buffer to read into a flag, the array \<open>fds\<close> the pair of its new
  contents.
\<close>

subsection \<open>Memory, reading and writing\<close>

definition sys_malloc :: "u64 \<Rightarrow> 'a ssys_scheme \<Rightarrow> (u64 \<times> 'a ssys_scheme) option" where
  "sys_malloc n s = map_option (\<lambda>(h, p). ((case p of None \<Rightarrow> 0 | Some a \<Rightarrow> of_nat a), s\<lparr>heap := h\<rparr>)) (mm_malloc n (heap s))"

definition sys_free :: "ptr \<Rightarrow> 'a ssys_scheme \<Rightarrow> 'a ssys_scheme option" where
  "sys_free p s = kfree p s"

definition sys_mem_status :: "mem_status option \<Rightarrow> 'a ssys_scheme \<Rightarrow> mem_status option option" where
  "sys_mem_status st s = mm_status st (heap s)"

text \<open>\<open>fd <= FD_STDOUT\<close> goes through the table of the process, any other number is global; the
  conversion to \<open>int\<close> truncates.\<close>

definition to_int32 :: "u64 \<Rightarrow> int" where
  "to_int32 w = sint (ucast w :: 32 word)"

definition real_fd :: "u64 \<Rightarrow> u64 \<Rightarrow> nat \<Rightarrow> 'a psys_scheme \<Rightarrow> int option" where
  "real_fd fd last_own c s =
     (if fd \<le> last_own
      then if p_fd (pcb_at s c) ! unat fd < 0 then None else Some (p_fd (pcb_at s c) ! unat fd)
      else Some (to_int32 fd))"

definition sys_write_color :: "u64 \<Rightarrow> u8 list option \<Rightarrow> u32 \<Rightarrow> 'a fdsys_scheme \<Rightarrow> u64 \<times> 'a fdsys_scheme" where
  "sys_write_color fd buff color s =
     (case process_current s of
        None \<Rightarrow> (0, s)
      | Some c \<Rightarrow>
          (if buff = None \<or> buff = Some [] then (0, s)
           else case real_fd fd 1 c s of
                  None \<Rightarrow> (0, s)
                | Some rfd \<Rightarrow> fd_write (fd_get (of_int rfd) s) buff (Some c) color s))"

definition sys_write :: "u64 \<Rightarrow> u8 list option \<Rightarrow> 'a fdsys_scheme \<Rightarrow> u64 \<times> 'a fdsys_scheme" where
  "sys_write fd buff s = sys_write_color fd buff 0xFFFFFF s"

definition sys_read :: "u64 \<Rightarrow> bool \<Rightarrow> nat \<Rightarrow> 'a fdsys_scheme \<Rightarrow> u64 \<times> u8 list \<times> 'a fdsys_scheme" where
  "sys_read fd buff count s =
     (case process_current s of
        None \<Rightarrow> (0, [], s)
      | Some c \<Rightarrow>
          (if \<not> buff \<or> count = 0 then (0, [], s)
           else case real_fd fd 0 c s of
                  None \<Rightarrow> (0, [], s)
                | Some rfd \<Rightarrow> fd_read (fd_get (of_int rfd) s) buff count (Some c) s))"

definition deltaTicks :: "'a ssys_scheme \<Rightarrow> u64" where
  "deltaTicks s = ticks s"

definition sys_ticks :: "'a ssys_scheme \<Rightarrow> u64" where
  "sys_ticks s = deltaTicks s"

definition sys_registers :: "'a kbdsys_scheme \<Rightarrow> u8 list option" where
  "sys_registers s = copyRegistersBuffer s"

subsection \<open>Processes\<close>

definition sys_create_process ::
  "string option \<Rightarrow> u64 \<Rightarrow> u64 \<Rightarrow> string option list option \<Rightarrow> u64 \<Rightarrow> 'a ksys_scheme \<Rightarrow> (int \<times> 'a ksys_scheme) option" where
  "sys_create_process name entry argc argv fg s = process_create name entry (to_int32 argc) argv (ucast fg) s"

definition sys_exit :: "u64 \<Rightarrow> 'a ksys_scheme \<Rightarrow> 'a ksys_scheme option" where
  "sys_exit retval s = process_exit (to_int32 retval) s"

definition sys_getpid :: "'a psys_scheme \<Rightarrow> u64" where
  "sys_getpid s = (case process_current s of None \<Rightarrow> 0 | Some c \<Rightarrow> p_pid (pcb_at s c))"

definition sys_ps :: "nat \<Rightarrow> 'a psys_scheme \<Rightarrow> ProcessInfo list" where
  "sys_ps max_count s = process_ps max_count s"

definition sys_kill :: "u64 \<Rightarrow> 'a ksys_scheme \<Rightarrow> 'a ksys_scheme option" where
  "sys_kill pid s = process_kill pid s"

definition sys_nice :: "u64 \<Rightarrow> u64 \<Rightarrow> 'a ssys_scheme \<Rightarrow> 'a ssys_scheme" where
  "sys_nice pid new_priority s = process_nice pid (ucast new_priority) s"

definition sys_block :: "u64 \<Rightarrow> 'a psys_scheme \<Rightarrow> int \<times> 'a psys_scheme" where
  "sys_block pid s =
     (case process_get s pid of
        None \<Rightarrow> (-1, s)
      | Some i \<Rightarrow>
          (if p_state (pcb_at s i) = PROCESS_FREE \<or> p_state (pcb_at s i) = PROCESS_ZOMBIE then (-1, s)
           else if p_state (pcb_at s i) = PROCESS_BLOCKED \<and> p_waiting_for (pcb_at s i) \<noteq> 0 then (-1, s)
           else if p_state (pcb_at s i) = PROCESS_BLOCKED then (0, process_unblock pid s)
           else (0, process_block pid s)))"

definition sys_unblock :: "u64 \<Rightarrow> 'a psys_scheme \<Rightarrow> 'a psys_scheme" where
  "sys_unblock pid s = process_unblock pid s"

definition sys_yield :: "'a psys_scheme \<Rightarrow> 'a psys_scheme" where
  "sys_yield s =
     (case process_current s of
        None \<Rightarrow> s
      | Some c \<Rightarrow> (upd_pcb c (\<lambda>p. p\<lparr>p_state := PROCESS_READY\<rparr>) s)\<lparr>force_switch := True\<rparr>)"

definition sys_waitpid :: "u64 \<Rightarrow> 'a ssys_scheme \<Rightarrow> (int \<times> 'a ssys_scheme) option" where
  "sys_waitpid pid s = process_waitpid pid s"

subsection \<open>Semaphores\<close>

definition sys_sem_open :: "string option \<Rightarrow> u64 \<Rightarrow> 'a semsys_scheme \<Rightarrow> int \<times> 'a semsys_scheme" where
  "sys_sem_open name initial_value s = sem_open name initial_value s"

definition sys_sem_wait :: "string option \<Rightarrow> 'a semsys_scheme \<Rightarrow> (int \<times> 'a semsys_scheme) option" where
  "sys_sem_wait name s = sem_wait name s"

definition sys_sem_post :: "string option \<Rightarrow> 'a semsys_scheme \<Rightarrow> (int \<times> 'a semsys_scheme) option" where
  "sys_sem_post name s = sem_post name s"

definition sys_sem_close :: "string option \<Rightarrow> 'a semsys_scheme \<Rightarrow> int \<times> 'a semsys_scheme" where
  "sys_sem_close name s = sem_close name s"

subsection \<open>Pipes and descriptors\<close>

definition pipe_create_fds :: "ptr \<Rightarrow> 'a fdsys_scheme \<Rightarrow> int \<times> (int \<times> int) option \<times> 'a fdsys_scheme" where
  "pipe_create_fds p s =
     (let (read_fd, s1) = fd_create_pipe p False s
      in if read_fd < 0 then (-1, None, s1)
         else
           let (write_fd, s2) = fd_create_pipe p True s1
           in if write_fd < 0 then (-1, None, fd_decref (of_int read_fd) s2)
              else (0, Some (read_fd, write_fd), s2))"

definition sys_pipe :: "bool \<Rightarrow> 'a fdsys_scheme \<Rightarrow> int \<times> (int \<times> int) option \<times> 'a fdsys_scheme" where
  "sys_pipe fd_array s =
     (if \<not> fd_array then (-1, None, s)
      else case pipe_open None s of
             (None, s1) \<Rightarrow> (-1, None, s1)
           | (Some p, s1) \<Rightarrow> pipe_create_fds (Some p) s1)"

definition sys_dup2 :: "u64 \<Rightarrow> u64 \<Rightarrow> 'a fdsys_scheme \<Rightarrow> int \<times> 'a fdsys_scheme" where
  "sys_dup2 old_fd new_fd s =
     (if new_fd > 1 then (-1, s)
      else if fd_get old_fd s = None then (-1, s)
      else case process_current s of
             None \<Rightarrow> (-1, s)
           | Some c \<Rightarrow>
               (let t = unat new_fd
                in if p_fd (pcb_at s c) ! t = to_int32 old_fd then (sint old_fd, s)
                   else
                     let s1 = (if p_fd (pcb_at s c) ! t \<ge> 0 then fd_decref (of_int (p_fd (pcb_at s c) ! t)) s else s);
                         s2 = upd_pcb c (\<lambda>p. p\<lparr>p_fd := (p_fd p)[t := to_int32 old_fd]\<rparr>) s1
                     in (sint old_fd, fd_incref old_fd s2)))"

definition sys_close :: "u64 \<Rightarrow> 'a fdsys_scheme \<Rightarrow> int \<times> 'a fdsys_scheme" where
  "sys_close fd s = (0, fd_decref fd s)"

definition sys_pipe_open :: "string option \<Rightarrow> bool \<Rightarrow> 'a fdsys_scheme \<Rightarrow> int \<times> (int \<times> int) option \<times> 'a fdsys_scheme" where
  "sys_pipe_open name fd_array s =
     (if name = None \<or> \<not> fd_array then (-1, None, s)
      else case pipe_open name s of
             (None, s1) \<Rightarrow> (-1, None, s1)
           | (Some p, s1) \<Rightarrow> pipe_create_fds (Some p) s1)"

definition sys_pipe_setup :: "u64 \<Rightarrow> u64 \<Rightarrow> u64 \<Rightarrow> 'a fdsys_scheme \<Rightarrow> (int \<times> 'a fdsys_scheme) option" where
  "sys_pipe_setup pid stdio_fd target s =
     map_option (\<lambda>t. (0, t)) (process_pipe_setup pid (to_int32 stdio_fd) (to_int32 target) s)"

definition sys_tty_mode :: "u64 \<Rightarrow> 'a kbdsys_scheme \<Rightarrow> int \<times> 'a kbdsys_scheme" where
  "sys_tty_mode mode s = (tty_get_mode s, tty_set_mode (to_int32 mode) s)"

end
