(* ===== verification/Fd_Lemmas.thy ===== *)
theory Fd_Lemmas
  imports Syscalls Demo_Kernel
begin

text \<open>
  The reference counts of the descriptors. \<open>fd_inv\<close> says that the numbers of open ends a pipe
  keeps are the sums of the counts of the descriptors that refer to it, that a descriptor of a pipe
  end has a positive count and refers to a pipe in use, and that descriptors 0 and 1 are the
  terminal. The lemmas show that opening and closing an end changes the numbers by one and frees
  the pipe exactly when both reach zero, and that every operation on descriptors keeps \<open>fd_inv\<close>.
\<close>

interpretation pipes_psys: psys_frame "pipe_table :: 'a pipesys_scheme \<Rightarrow> _"
  by unfold_locales (simp_all add: upd_pcb_def)

subsection \<open>Ends\<close>

definition ends :: "Pipe \<Rightarrow> nat \<times> nat \<times> bool \<times> bool" where
  "ends p = (pp_open_read p, pp_open_write p, pp_in_use p, pp_is_named p)"

lemma ends_wake_all_readers [simp]: "ends (fst (pipe_wake_all_readers p s)) = ends p"
  by (induction p s rule: pipe_wake_all_readers.induct)
    (subst pipe_wake_all_readers.simps, simp add: pipe_wake_reader_def ends_def split: prod.splits)

lemma ends_wake_all_writers [simp]: "ends (fst (pipe_wake_all_writers p s)) = ends p"
  by (induction p s rule: pipe_wake_all_writers.induct)
    (subst pipe_wake_all_writers.simps, simp add: pipe_wake_writer_def ends_def split: prod.splits)

lemma ends_wake_if:
  "ends (fst (if b then pipe_wake_all_writers p s else (p, s))) = ends p"
  "ends q = ends p \<Longrightarrow> ends (fst (if b then pipe_wake_all_readers q s else (p, s))) = ends p"
  by simp_all

lemma ends_maybe_free:
  "ends p = (r, w, u, n) \<Longrightarrow> ends (pipe_maybe_free p) = (if r = 0 \<and> w = 0 then (0, 0, False, False) else (r, w, u, n))"
  by (auto simp: ends_def pipe_maybe_free_def pipe_reset_def)

lemma ends_open:
  assumes "ends p = (r, w, u, n)"
  shows "ends (fst (pipe_open_read1 p s)) = (r + 1, w, u, n)" "ends (fst (pipe_open_write1 p s)) = (r, w + 1, u, n)"
proof -
  have "ends (p\<lparr>pp_open_read := pp_open_read p + 1\<rparr>) = (r + 1, w, u, n)"
    "ends (p\<lparr>pp_open_write := pp_open_write p + 1\<rparr>) = (r, w + 1, u, n)"
    "ends (p\<lparr>pp_open_write := pp_open_write p + 1, pp_eof := False\<rparr>) = (r, w + 1, u, n)"
    using assms by (simp_all add: ends_def)
  then show "ends (fst (pipe_open_read1 p s)) = (r + 1, w, u, n)" "ends (fst (pipe_open_write1 p s)) = (r, w + 1, u, n)"
    by (simp_all add: pipe_open_read1_def pipe_open_write1_def Let_def)
qed

lemma ends_close_read:
  assumes "ends p = (r, w, u, n)"
  shows "ends (fst (pipe_close_read1 p s)) = (if r - 1 = 0 \<and> w = 0 then (0, 0, False, False) else (r - 1, w, u, n))"
proof -
  let ?p1 = "if pp_open_read p > 0 then p\<lparr>pp_open_read := pp_open_read p - 1\<rparr> else p"
  let ?x = "if pp_open_read ?p1 = 0 then pipe_wake_all_writers ?p1 s else (?p1, s)"
  have e: "fst (pipe_close_read1 p s) = pipe_maybe_free (fst ?x)"
    by (simp only: pipe_close_read1_def Let_def case_prod_beta fst_conv)
  have "ends ?p1 = (r - 1, w, u, n)" using assms by (auto simp: ends_def)
  then have "ends (fst ?x) = (r - 1, w, u, n)"
    using ends_wake_if(1) by metis
  then show ?thesis unfolding e by (rule ends_maybe_free)
qed

lemma ends_close_write:
  assumes "ends p = (r, w, u, n)"
  shows "ends (fst (pipe_close_write1 p s)) = (if r = 0 \<and> w - 1 = 0 then (0, 0, False, False) else (r, w - 1, u, n))"
proof -
  let ?p1 = "if pp_open_write p > 0 then p\<lparr>pp_open_write := pp_open_write p - 1\<rparr> else p"
  let ?q = "if pp_is_named ?p1 \<and> pp_opens ?p1 \<ge> 2 then ?p1\<lparr>pp_eof := True\<rparr> else ?p1"
  let ?x = "if pp_open_write ?p1 = 0 then pipe_wake_all_readers ?q s else (?p1, s)"
  have e: "fst (pipe_close_write1 p s) = pipe_maybe_free (fst ?x)"
    by (simp only: pipe_close_write1_def Let_def case_prod_beta fst_conv)
  have "ends ?p1 = (r, w - 1, u, n)" using assms by (auto simp: ends_def)
  moreover have "ends ?q = ends ?p1" by (simp add: ends_def)
  ultimately have "ends (fst ?x) = (r, w - 1, u, n)"
    using ends_wake_if(2) by metis
  then show ?thesis unfolding e by (rule ends_maybe_free)
qed

lemma pipe_at_on_pipe:
  assumes "i < length (pipe_table s)" "\<And>p u. pipe_table (snd (f p u)) = pipe_table u"
  shows "pipe_at (on_pipe f (Some i) s) j = (if j = i then fst (f (pipe_at s i) s) else pipe_at s j)"
    "length (pipe_table (on_pipe f (Some i) s)) = length (pipe_table s)"
  using assms by (simp_all add: on_pipe_def case_prod_beta pipe_at_set_pipe) (simp add: pipe_at_def)

lemma pipe_at_ends:
  assumes "i < length (pipe_table s)"
  shows "pipe_at (pipe_open_read (Some i) s) j = (if j = i then fst (pipe_open_read1 (pipe_at s i) s) else pipe_at s j)"
    "pipe_at (pipe_open_write (Some i) s) j = (if j = i then fst (pipe_open_write1 (pipe_at s i) s) else pipe_at s j)"
    "pipe_at (pipe_close_read (Some i) s) j = (if j = i then fst (pipe_close_read1 (pipe_at s i) s) else pipe_at s j)"
    "pipe_at (pipe_close_write (Some i) s) j = (if j = i then fst (pipe_close_write1 (pipe_at s i) s) else pipe_at s j)"
  unfolding pipe_open_read_def pipe_open_write_def pipe_close_read_def pipe_close_write_def
  by (rule pipe_at_on_pipe [OF assms], rule pipes_psys.fr_ends)+

lemma length_pipe_ends [simp]:
  "length (pipe_table (pipe_open_read p s)) = length (pipe_table s)"
  "length (pipe_table (pipe_open_write p s)) = length (pipe_table s)"
  "length (pipe_table (pipe_close_read p s)) = length (pipe_table s)"
  "length (pipe_table (pipe_close_write p s)) = length (pipe_table s)"
  unfolding pipe_open_read_def pipe_open_write_def pipe_close_read_def pipe_close_write_def
  by (simp_all add: on_pipe_def case_prod_beta pipes_psys.fr_ends split: option.split)

subsection \<open>The invariant\<close>

definition refs_of :: "FDType \<Rightarrow> nat \<Rightarrow> FD \<Rightarrow> int" where
  "refs_of T i e = (if fd_type e = T \<and> fd_data e = Some i then int (fd_refcount e) else 0)"

definition refs :: "FDType \<Rightarrow> 'a fdsys_scheme \<Rightarrow> nat \<Rightarrow> int" where
  "refs T s i = (\<Sum>e\<leftarrow>fd_table s. refs_of T i e)"

definition is_end :: "FD \<Rightarrow> bool" where
  "is_end e \<longleftrightarrow> fd_type e = FD_PIPE_READ \<or> fd_type e = FD_PIPE_WRITE"

definition fd_inv :: "'a fdsys_scheme \<Rightarrow> bool" where
  "fd_inv s \<longleftrightarrow> length (fd_table s) = MAX_FDS \<and> length (pipe_table s) = MAX_PIPES \<and>
     (\<forall>e\<in>set (fd_table s). is_end e \<longrightarrow> 0 < fd_refcount e \<and>
        (\<exists>i<MAX_PIPES. fd_data e = Some i \<and> pp_in_use (pipe_at s i))) \<and>
     (\<forall>i<MAX_PIPES. int (pp_open_read (pipe_at s i)) = refs FD_PIPE_READ s i \<and>
        int (pp_open_write (pipe_at s i)) = refs FD_PIPE_WRITE s i) \<and>
     fd_type (fd_at s 0) = FD_TERMINAL \<and> fd_type (fd_at s 1) = FD_TERMINAL"

lemma refs_nonneg: "0 \<le> refs T s i"
  unfolding refs_def by (rule sum_list_nonneg) (auto simp: refs_of_def)

lemma refs_member: "e \<in> set (fd_table s) \<Longrightarrow> fd_type e = T \<Longrightarrow> fd_data e = Some i \<Longrightarrow> int (fd_refcount e) \<le> refs T s i"
proof -
  assume e: "e \<in> set (fd_table s)" "fd_type e = T" "fd_data e = Some i"
  then obtain xs ys where "fd_table s = xs @ e # ys" by (auto simp: in_set_conv_decomp)
  moreover have "0 \<le> (\<Sum>e\<leftarrow>zs. refs_of T i e)" for zs by (rule sum_list_nonneg) (auto simp: refs_of_def)
  ultimately show ?thesis using e by (simp add: refs_def refs_of_def [of T i e])
qed

lemma fd_inv_step:
  assumes s: "fd_inv s" and len: "length (fd_table t) = MAX_FDS" "length (pipe_table t) = MAX_PIPES"
    and e: "\<And>e. e \<in> set (fd_table t) \<Longrightarrow> is_end e \<Longrightarrow> 0 < fd_refcount e \<and>
        (\<exists>i<MAX_PIPES. fd_data e = Some i \<and> (pp_in_use (pipe_at t i) \<or> pp_in_use (pipe_at s i)))"
    and r: "\<And>i. i < MAX_PIPES \<Longrightarrow> int (pp_open_read (pipe_at t i)) = refs FD_PIPE_READ t i \<and>
        int (pp_open_write (pipe_at t i)) = refs FD_PIPE_WRITE t i"
    and f: "\<And>i. i < MAX_PIPES \<Longrightarrow> pp_in_use (pipe_at s i) \<Longrightarrow>
        pp_in_use (pipe_at t i) \<or> pp_open_read (pipe_at t i) = 0 \<and> pp_open_write (pipe_at t i) = 0"
    and tm: "fd_type (fd_at t 0) = FD_TERMINAL" "fd_type (fd_at t 1) = FD_TERMINAL"
  shows "fd_inv t"
  unfolding fd_inv_def
proof (intro conjI ballI impI len tm)
  fix x assume x: "x \<in> set (fd_table t)" "is_end x"
  from e [OF x] obtain i where i: "0 < fd_refcount x" "i < MAX_PIPES" "fd_data x = Some i"
    "pp_in_use (pipe_at t i) \<or> pp_in_use (pipe_at s i)" by blast
  show "0 < fd_refcount x" by (rule i(1))
  have "pp_in_use (pipe_at t i)"
  proof (rule ccontr)
    assume n: "\<not> pp_in_use (pipe_at t i)"
    with f [OF i(2)] i(4) have z: "pp_open_read (pipe_at t i) = 0" "pp_open_write (pipe_at t i) = 0" by auto
    have "int (fd_refcount x) \<le> refs (fd_type x) t i" by (rule refs_member [OF x(1) refl i(3)])
    then show False using x(2) i(1) z r [OF i(2)] by (auto simp: is_end_def)
  qed
  with i show "\<exists>i<MAX_PIPES. fd_data x = Some i \<and> pp_in_use (pipe_at t i)" by blast
next
  show "\<forall>i<MAX_PIPES. int (pp_open_read (pipe_at t i)) = refs FD_PIPE_READ t i \<and>
      int (pp_open_write (pipe_at t i)) = refs FD_PIPE_WRITE t i" using r by blast
qed

text \<open>A step that changes neither the descriptors nor the ends of the pipes.\<close>

definition same_ends :: "'a fdsys_scheme \<Rightarrow> 'a fdsys_scheme \<Rightarrow> bool" where
  "same_ends s t \<longleftrightarrow> fd_table t = fd_table s \<and> map ends (pipe_table t) = map ends (pipe_table s)"

lemma same_ends_at: "same_ends s t \<Longrightarrow> i < length (pipe_table s) \<Longrightarrow> ends (pipe_at t i) = ends (pipe_at s i)"
  unfolding same_ends_def pipe_at_def by (metis length_map nth_map)

lemma fd_inv_same: "same_ends s t \<Longrightarrow> fd_inv s \<Longrightarrow> fd_inv t"
proof -
  assume k: "same_ends s t" and i: "fd_inv s"
  have l: "length (pipe_table t) = length (pipe_table s)" using k unfolding same_ends_def by (metis length_map)
  have e: "j < MAX_PIPES \<Longrightarrow> ends (pipe_at t j) = ends (pipe_at s j)" for j
    using same_ends_at [OF k] i by (simp add: fd_inv_def)
  have ft: "fd_table t = fd_table s" using k by (simp add: same_ends_def)
  show ?thesis
    by (rule fd_inv_step [OF i])
      (use i l e ft in \<open>auto simp: fd_inv_def refs_def fd_at_def ends_def\<close>)
qed

text \<open>A step that changes one descriptor and the ends of the pipe it refers to.\<close>

lemma refs_modify:
  assumes "fd_table t = modify d g (fd_table s)" "d < length (fd_table s)"
  shows "refs T t i = refs T s i + refs_of T i (g (fd_at s d)) - refs_of T i (fd_at s d)"
  using sum_list_modify [OF assms(2), of "refs_of T i" g] assms(1) by (simp add: refs_def fd_at_def)

lemma fd_inv_modify:
  assumes s: "fd_inv s" and d: "d < MAX_FDS" and ft: "fd_table t = modify d g (fd_table s)"
    and pl: "length (pipe_table t) = MAX_PIPES"
    and g: "is_end (g (fd_at s d)) \<Longrightarrow> 0 < fd_refcount (g (fd_at s d)) \<and>
        (\<exists>i<MAX_PIPES. fd_data (g (fd_at s d)) = Some i \<and> pp_in_use (pipe_at s i))"
    and r: "\<And>i. i < MAX_PIPES \<Longrightarrow>
        int (pp_open_read (pipe_at t i)) = int (pp_open_read (pipe_at s i)) +
          refs_of FD_PIPE_READ i (g (fd_at s d)) - refs_of FD_PIPE_READ i (fd_at s d) \<and>
        int (pp_open_write (pipe_at t i)) = int (pp_open_write (pipe_at s i)) +
          refs_of FD_PIPE_WRITE i (g (fd_at s d)) - refs_of FD_PIPE_WRITE i (fd_at s d)"
    and f: "\<And>i. i < MAX_PIPES \<Longrightarrow> pp_in_use (pipe_at s i) \<Longrightarrow>
        pp_in_use (pipe_at t i) \<or> pp_open_read (pipe_at t i) = 0 \<and> pp_open_write (pipe_at t i) = 0"
    and tm: "fd_type (fd_at s d) = FD_TERMINAL \<Longrightarrow> fd_type (g (fd_at s d)) = FD_TERMINAL"
  shows "fd_inv t"
proof (rule fd_inv_step [OF s])
  have l: "length (fd_table s) = MAX_FDS" using s by (simp add: fd_inv_def)
  then have dl: "d < length (fd_table s)" using d by simp
  show "length (fd_table t) = MAX_FDS" using l ft by simp
  have at: "fd_at t k = (if k = d then g (fd_at s d) else fd_at s k)" for k
    using dl ft by (cases "k = d") (simp_all add: fd_at_def)
  show "fd_type (fd_at t 0) = FD_TERMINAL" "fd_type (fd_at t 1) = FD_TERMINAL"
    using s tm by (auto simp: fd_inv_def at)
  show "int (pp_open_read (pipe_at t i)) = refs FD_PIPE_READ t i \<and>
      int (pp_open_write (pipe_at t i)) = refs FD_PIPE_WRITE t i" if "i < MAX_PIPES" for i
    using r [OF that] s that refs_modify [OF ft dl] by (simp add: fd_inv_def)
  show "0 < fd_refcount e \<and> (\<exists>i<MAX_PIPES. fd_data e = Some i \<and> (pp_in_use (pipe_at t i) \<or> pp_in_use (pipe_at s i)))"
    if e: "e \<in> set (fd_table t)" "is_end e" for e
  proof -
    have "e \<in> insert (g (fd_at s d)) (set (fd_table s))"
      using e(1) set_modify_subset [of d g "fd_table s"] unfolding ft fd_at_def by blast
    then consider "e = g (fd_at s d)" | "e \<in> set (fd_table s)" by blast
    then show ?thesis
    proof cases
      case 1
      with g e(2) show ?thesis by blast
    next
      case 2
      with s e(2) show ?thesis unfolding fd_inv_def by blast
    qed
  qed
qed (rule pl, rule f)

lemma upd_fd_sels [simp]:
  "fd_table (upd_fd d f s) = modify d f (fd_table s)" "pipe_table (upd_fd d f s) = pipe_table s"
  "pipe_at (upd_fd d f s) i = pipe_at s i" "pcb_at (upd_fd d f s) k = pcb_at s k"
  "process_table (upd_fd d f s) = process_table s" "current_process (upd_fd d f s) = current_process s"
  by (simp_all add: upd_fd_def pipe_at_def pcb_at_def)

lemma fd_at_upd [simp]: "d < length (fd_table s) \<Longrightarrow> fd_at (upd_fd d f s) k = (if k = d then f (fd_at s k) else fd_at s k)"
  by (cases "k = d") (simp_all add: fd_at_def)

lemma fd_table_ends [simp]:
  "fd_table (pipe_open_read p s) = fd_table s" "fd_table (pipe_open_write p s) = fd_table s"
  "fd_table (pipe_close_read p s) = fd_table s" "fd_table (pipe_close_write p s) = fd_table s"
  by (rule fds_pipe.fr_pipe_ends)+

lemma fd_at_ends [simp]:
  "fd_at (pipe_open_read p s) d = fd_at s d" "fd_at (pipe_open_write p s) d = fd_at s d"
  "fd_at (pipe_close_read p s) d = fd_at s d" "fd_at (pipe_close_write p s) d = fd_at s d"
  by (simp_all add: fd_at_def)

lemma fd_get_Some: "fd_get fd s = Some d \<longleftrightarrow> d = unat fd \<and> d < MAX_FDS \<and> fd_type (fd_at s d) \<noteq> FD_NONE"
  unfolding fd_get_def by (cases "d = unat fd") (simp_all add: not_le)

text \<open>Numbers of ends after opening or closing one, as integers.\<close>

lemma open_ends_int:
  assumes "ends q = (r, w, u, n)"
  shows "pp_open_read q = r" "pp_open_write q = w" "pp_in_use q = u" "pp_is_named q = n"
  using assms by (simp_all add: ends_def)

lemma ends_fields: "ends p = (pp_open_read p, pp_open_write p, pp_in_use p, pp_is_named p)"
  by (simp add: ends_def)

lemmas open_read_ends = open_ends_int [OF ends_open(1) [OF ends_fields]]
  and open_write_ends = open_ends_int [OF ends_open(2) [OF ends_fields]]

lemma close_read_ends:
  "pp_open_read (fst (pipe_close_read1 p s)) = pp_open_read p - 1"
  "pp_open_write (fst (pipe_close_read1 p s)) = pp_open_write p"
  "pp_in_use p \<Longrightarrow> pp_in_use (fst (pipe_close_read1 p s)) \<or> pp_open_read p - 1 = 0 \<and> pp_open_write p = 0"
  using ends_close_read [OF ends_fields, of p s] by (auto simp: ends_def split: if_splits)

lemma close_write_ends:
  "pp_open_read (fst (pipe_close_write1 p s)) = pp_open_read p"
  "pp_open_write (fst (pipe_close_write1 p s)) = pp_open_write p - 1"
  "pp_in_use p \<Longrightarrow> pp_in_use (fst (pipe_close_write1 p s)) \<or> pp_open_read p = 0 \<and> pp_open_write p - 1 = 0"
  using ends_close_write [OF ends_fields, of p s] by (auto simp: ends_def split: if_splits)

lemma fd_inv_incref: "fd_inv s \<Longrightarrow> fd_inv (fd_incref fd s)"
proof (cases "fd_get fd s")
  case None
  then show "fd_inv s \<Longrightarrow> ?thesis" by (simp add: fd_incref_def)
next
  case (Some d)
  assume s: "fd_inv s"
  have l: "length (fd_table s) = MAX_FDS" "length (pipe_table s) = MAX_PIPES" using s by (simp_all add: fd_inv_def)
  from Some have d: "d < MAX_FDS" "fd_type (fd_at s d) \<noteq> FD_NONE" unfolding fd_get_Some by blast+
  have mem: "fd_at s d \<in> set (fd_table s)" using d l by (simp add: fd_at_def)
  let ?g = "\<lambda>e. e\<lparr>fd_refcount := fd_refcount e + 1\<rparr>"
  have at: "fd_at (upd_fd d ?g s) d = ?g (fd_at s d)" using d l by simp
  show ?thesis
  proof (cases "fd_type (fd_at s d) = FD_TERMINAL")
    case True
    have "fd_incref fd s = upd_fd d ?g s" using Some True at by (simp add: fd_incref_def Let_def)
    then show ?thesis
      by (simp, intro fd_inv_modify [OF s d(1), of _ ?g]) (use True l in \<open>simp_all add: is_end_def refs_of_def\<close>)
  next
    case False
    then have ie: "is_end (fd_at s d)" using d(2) by (cases "fd_type (fd_at s d)") (simp_all add: is_end_def)
    then obtain i where i: "i < MAX_PIPES" "fd_data (fd_at s d) = Some i" "pp_in_use (pipe_at s i)"
      using s mem by (auto simp: fd_inv_def)
    have il: "i < length (pipe_table (upd_fd d ?g s))" using i l by simp
    show ?thesis
    proof (cases "fd_type (fd_at s d) = FD_PIPE_READ")
      case True
      have "fd_incref fd s = pipe_open_read (Some i) (upd_fd d ?g s)"
        using Some True at i by (simp add: fd_incref_def Let_def)
      then show ?thesis
        by (simp, intro fd_inv_modify [OF s d(1), of _ ?g])
          (use True l i il in \<open>auto simp: refs_of_def pipe_at_ends open_read_ends\<close>)
    next
      case f: False
      then have w: "fd_type (fd_at s d) = FD_PIPE_WRITE" using ie by (simp add: is_end_def)
      have "fd_incref fd s = pipe_open_write (Some i) (upd_fd d ?g s)"
        using Some w at i by (simp add: fd_incref_def Let_def)
      then show ?thesis
        by (simp, intro fd_inv_modify [OF s d(1), of _ ?g])
          (use w l i il in \<open>auto simp: refs_of_def pipe_at_ends open_write_ends\<close>)
    qed
  qed
qed

text \<open>Releasing a descriptor; the count of a pipe end is positive.\<close>

definition dropped :: "FD \<Rightarrow> FD" where
  "dropped e = (if fd_refcount e - 1 = 0 \<and> fd_type e \<noteq> FD_TERMINAL
     then e\<lparr>fd_refcount := fd_refcount e - 1, fd_type := FD_NONE, fd_data := None\<rparr>
     else e\<lparr>fd_refcount := fd_refcount e - 1\<rparr>)"

lemma upd_fd_upd_fd [simp]: "upd_fd d f (upd_fd d g s) = upd_fd d (f \<circ> g) s"
  by (simp add: upd_fd_def)

lemma refs_of_dropped: "fd_type e = FD_PIPE_READ \<or> fd_type e = FD_PIPE_WRITE \<Longrightarrow> 0 < fd_refcount e \<Longrightarrow>
    refs_of T i (dropped e) = refs_of T i e - (if fd_type e = T \<and> fd_data e = Some i then 1 else 0)"
  by (auto simp: refs_of_def dropped_def)

lemma fd_decref_table:
  assumes "fd_get fd s = Some d" "length (fd_table s) = MAX_FDS" "0 < fd_refcount (fd_at s d)"
  shows "fd_table (fd_decref fd s) = modify d dropped (fd_table s)"
    and "\<exists>f. pipe_table (fd_decref fd s) = pipe_table
        (if fd_type (fd_at s d) = FD_PIPE_READ then pipe_close_read (fd_data (fd_at s d)) (upd_fd d f s)
         else if fd_type (fd_at s d) = FD_PIPE_WRITE then pipe_close_write (fd_data (fd_at s d)) (upd_fd d f s)
         else upd_fd d f s)"
proof -
  let ?f = "\<lambda>e. e\<lparr>fd_refcount := fd_refcount e - 1\<rparr>"
  let ?n = "\<lambda>e. e\<lparr>fd_type := FD_NONE, fd_data := None\<rparr>"
  let ?t = "upd_fd d ?f s"
  let ?u = "if fd_type (fd_at ?t d) = FD_PIPE_READ then pipe_close_read (fd_data (fd_at ?t d)) ?t
         else if fd_type (fd_at ?t d) = FD_PIPE_WRITE then pipe_close_write (fd_data (fd_at ?t d)) ?t else ?t"
  have d: "d < length (fd_table s)" using assms by (simp add: fd_get_Some)
  have at: "fd_at ?u d = ?f (fd_at s d)" using d by simp
  have e: "fd_decref fd s = (if fd_refcount (fd_at ?u d) = 0 \<and> fd_type (fd_at ?u d) \<noteq> FD_TERMINAL then upd_fd d ?n ?u else ?u)"
    using assms(1,3) by (simp add: fd_decref_def Let_def)
  have tu: "fd_table ?u = modify d ?f (fd_table s)" by simp
  show "fd_table (fd_decref fd s) = modify d dropped (fd_table s)"
  proof (cases "fd_refcount (fd_at ?u d) = 0 \<and> fd_type (fd_at ?u d) \<noteq> FD_TERMINAL")
    case True
    then have "dropped (fd_at s d) = (?n \<circ> ?f) (fd_at s d)" unfolding at by (simp add: dropped_def)
    then show ?thesis unfolding e if_P [OF True] upd_fd_sels tu using d by (simp add: modify_def fd_at_def)
  next
    case False
    then have "dropped (fd_at s d) = ?f (fd_at s d)" unfolding at by (auto simp: dropped_def)
    then show ?thesis unfolding e if_not_P [OF False] tu using d by (simp add: modify_def fd_at_def)
  qed
  have "pipe_table (fd_decref fd s) = pipe_table ?u"
    unfolding e by (simp only: upd_fd_sels split: if_split) blast
  moreover have "fd_type (fd_at ?t d) = fd_type (fd_at s d)" "fd_data (fd_at ?t d) = fd_data (fd_at s d)" using d by simp_all
  ultimately show "\<exists>f. pipe_table (fd_decref fd s) = pipe_table
        (if fd_type (fd_at s d) = FD_PIPE_READ then pipe_close_read (fd_data (fd_at s d)) (upd_fd d f s)
         else if fd_type (fd_at s d) = FD_PIPE_WRITE then pipe_close_write (fd_data (fd_at s d)) (upd_fd d f s)
         else upd_fd d f s)" by (intro exI [of _ ?f]) simp
qed

lemma pipe_at_cong: "pipe_table t = pipe_table s \<Longrightarrow> pipe_at t i = pipe_at s i"
  by (simp add: pipe_at_def)

lemma fd_inv_decref: "fd_inv s \<Longrightarrow> fd_inv (fd_decref fd s)"
proof (cases "fd_get fd s")
  case None
  then show "fd_inv s \<Longrightarrow> ?thesis" by (simp add: fd_decref_def)
next
  case (Some d)
  assume s: "fd_inv s"
  have l: "length (fd_table s) = MAX_FDS" "length (pipe_table s) = MAX_PIPES" using s by (simp_all add: fd_inv_def)
  from Some have d: "d < MAX_FDS" "fd_type (fd_at s d) \<noteq> FD_NONE" unfolding fd_get_Some by blast+
  have mem: "fd_at s d \<in> set (fd_table s)" using d l by (simp add: fd_at_def)
  let ?e = "fd_at s d"
  show ?thesis
  proof (cases "fd_refcount ?e = 0")
    case True
    then have "\<not> is_end ?e" using s mem unfolding fd_inv_def by fastforce
    then have "fd_type ?e = FD_TERMINAL" using d(2) by (cases "fd_type ?e") (simp_all add: is_end_def)
    then have "fd_decref fd s = s" using Some True by (simp add: fd_decref_def)
    then show ?thesis using s by simp
  next
    case False
    then have pos: "0 < fd_refcount ?e" by simp
    from fd_decref_table [OF Some l(1) pos] obtain f where ft: "fd_table (fd_decref fd s) = modify d dropped (fd_table s)"
      and pt: "pipe_table (fd_decref fd s) = pipe_table
        (if fd_type ?e = FD_PIPE_READ then pipe_close_read (fd_data ?e) (upd_fd d f s)
         else if fd_type ?e = FD_PIPE_WRITE then pipe_close_write (fd_data ?e) (upd_fd d f s) else upd_fd d f s)" by blast
    note pa = pipe_at_cong [OF pt]
    have keep: "is_end (dropped ?e) \<Longrightarrow> 0 < fd_refcount (dropped ?e) \<and>
        (\<exists>i<MAX_PIPES. fd_data (dropped ?e) = Some i \<and> pp_in_use (pipe_at s i))"
      using s mem by (auto simp: fd_inv_def dropped_def is_end_def split: if_splits)
    have tm: "fd_type ?e = FD_TERMINAL \<Longrightarrow> fd_type (dropped ?e) = FD_TERMINAL" by (simp add: dropped_def)
    consider (t) "fd_type ?e = FD_TERMINAL" | (r) "fd_type ?e = FD_PIPE_READ" | (w) "fd_type ?e = FD_PIPE_WRITE"
      using d(2) by (cases "fd_type ?e") simp_all
    then show ?thesis
    proof cases
      case t
      then have "pipe_at (fd_decref fd s) i = pipe_at s i" for i using pa by simp
      moreover have "length (pipe_table (fd_decref fd s)) = MAX_PIPES" using pt t l by simp
      moreover have "refs_of T i (dropped ?e) = refs_of T i ?e" if "T \<noteq> FD_TERMINAL" for T i
        using t that by (simp add: refs_of_def dropped_def)
      ultimately show ?thesis using keep tm
        by (intro fd_inv_modify [OF s d(1) ft]) simp_all
    next
      case r
      then obtain i where i: "i < MAX_PIPES" "fd_data ?e = Some i" "pp_in_use (pipe_at s i)"
        using s mem by (auto simp: fd_inv_def is_end_def)
      have il: "i < length (pipe_table (upd_fd d f s))" using i l by simp
      have pa': "pipe_at (fd_decref fd s) j = (if j = i then fst (pipe_close_read1 (pipe_at s i) (upd_fd d f s)) else pipe_at s j)" for j
        using pa [of j] pipe_at_ends(3) [OF il, of j] r i by simp
      have rp: "0 < pp_open_read (pipe_at s i)"
        using s i mem r pos refs_member [OF mem r i(2)] unfolding fd_inv_def by fastforce
      show ?thesis using keep tm pt r l rp i pos
        by (intro fd_inv_modify [OF s d(1) ft])
          (auto simp: pa' close_read_ends refs_of_dropped of_nat_diff dest: close_read_ends(3))
    next
      case w
      then obtain i where i: "i < MAX_PIPES" "fd_data ?e = Some i" "pp_in_use (pipe_at s i)"
        using s mem by (auto simp: fd_inv_def is_end_def)
      have il: "i < length (pipe_table (upd_fd d f s))" using i l by simp
      have pa': "pipe_at (fd_decref fd s) j = (if j = i then fst (pipe_close_write1 (pipe_at s i) (upd_fd d f s)) else pipe_at s j)" for j
        using pa [of j] pipe_at_ends(4) [OF il, of j] w i by simp
      have rp: "0 < pp_open_write (pipe_at s i)"
        using s i mem w pos refs_member [OF mem w i(2)] unfolding fd_inv_def by fastforce
      show ?thesis using keep tm pt w l rp i pos
        by (intro fd_inv_modify [OF s d(1) ft])
          (auto simp: pa' close_write_ends refs_of_dropped of_nat_diff dest: close_write_ends(3))
    qed
  qed
qed

end
