(* ===== verification/Fd_Calls.thy ===== *)
theory Fd_Calls
  imports Fd_Lemmas
begin

text \<open>
  What the system calls on pipes and descriptors do to the reference counts: creating descriptors,
  opening pipes, and through the contract \<open>desc_inv\<close> every call that takes or releases references.
\<close>

subsection \<open>Creating descriptors\<close>

lemma unat_of_int_fd: "k < MAX_FDS \<Longrightarrow> unat (of_int (int k) :: u64) = k"
  by (simp add: unat_of_nat)

lemma fd_create_pipe_full:
  "\<forall>e\<in>set (fd_table s). fd_type e \<noteq> FD_NONE \<Longrightarrow> fd_create_pipe (Some i) w s = (-1, s)"
proof -
  assume "\<forall>e\<in>set (fd_table s). fd_type e \<noteq> FD_NONE"
  then have "first_idx (\<lambda>e. fd_type e = FD_NONE) (fd_table s) = None" by simp
  then show ?thesis by (simp only: fd_create_pipe_def fd_alloc_def Let_def) simp
qed

definition end_type :: "bool \<Rightarrow> FDType" where
  "end_type w = (if w then FD_PIPE_WRITE else FD_PIPE_READ)"

lemma fd_create_pipe_shape:
  fixes s :: "'a fdsys_scheme"
  assumes l: "length (fd_table s) = MAX_FDS" and i: "i < length (pipe_table s)"
    and k: "first_idx (\<lambda>e. fd_type e = FD_NONE) (fd_table s) = Some k"
  shows "k < MAX_FDS" "fd_type (fd_at s k) = FD_NONE" "fst (fd_create_pipe (Some i) w s) = int k"
    "fd_table (snd (fd_create_pipe (Some i) w s)) =
       modify k (\<lambda>e. e\<lparr>fd_type := end_type w, fd_data := Some i, fd_refcount := 1\<rparr>) (fd_table s)"
    "\<exists>u :: 'a fdsys_scheme. \<forall>j. pipe_at (snd (fd_create_pipe (Some i) w s)) j =
       (if j = i then fst ((if w then pipe_open_write1 else pipe_open_read1) (pipe_at s i) u) else pipe_at s j)"
    "length (pipe_table (snd (fd_create_pipe (Some i) w s))) = length (pipe_table s)"
proof -
  from first_idx_SomeD [OF k] l show kl: "k < MAX_FDS" and ty: "fd_type (fd_at s k) = FD_NONE"
    by (simp_all add: fd_at_def)
  let ?g = "\<lambda>e. e\<lparr>fd_type := end_type w, fd_data := Some i, fd_refcount := 0\<rparr>"
  let ?s1 = "upd_fd k ?g s"
  let ?s2 = "upd_fd k (\<lambda>e. e\<lparr>fd_refcount := fd_refcount e + 1\<rparr>) ?s1"
  have alloc: "fd_alloc (end_type w) (Some i) s = (int k, ?s1)" using k by (simp add: fd_alloc_def)
  have at1: "fd_at ?s1 k = ?g (fd_at s k)" using kl l by simp
  have "fd_get (of_int (int k)) ?s1 = Some k"
    using kl at1 unat_of_int_fd [OF kl] by (simp add: fd_get_def end_type_def)
  then have inc: "fd_incref (of_int (int k)) ?s1 = (if w then pipe_open_write (Some i) ?s2 else pipe_open_read (Some i) ?s2)"
    using at1 kl l by (simp add: fd_incref_def Let_def end_type_def)
  have e: "fd_create_pipe (Some i) w s = (int k, if w then pipe_open_write (Some i) ?s2 else pipe_open_read (Some i) ?s2)"
    using alloc inc by (simp add: fd_create_pipe_def Let_def end_type_def)
  show "fst (fd_create_pipe (Some i) w s) = int k" by (simp add: e)
  have comp: "(\<lambda>e. e\<lparr>fd_refcount := fd_refcount e + 1\<rparr>) \<circ> ?g =
      (\<lambda>e. e\<lparr>fd_type := end_type w, fd_data := Some i, fd_refcount := 1\<rparr>)" by (simp add: fun_eq_iff)
  show "fd_table (snd (fd_create_pipe (Some i) w s)) =
       modify k (\<lambda>e. e\<lparr>fd_type := end_type w, fd_data := Some i, fd_refcount := 1\<rparr>) (fd_table s)"
    unfolding e comp [symmetric] by simp
  define s2 where "s2 = ?s2"
  have i2: "i < length (pipe_table s2)" and at2: "pipe_at s2 j = pipe_at s j" for j
    using i by (simp_all add: s2_def)
  have e2: "snd (fd_create_pipe (Some i) w s) = (if w then pipe_open_write (Some i) s2 else pipe_open_read (Some i) s2)"
    unfolding e s2_def by simp
  show "\<exists>u :: 'a fdsys_scheme. \<forall>j. pipe_at (snd (fd_create_pipe (Some i) w s)) j =
       (if j = i then fst ((if w then pipe_open_write1 else pipe_open_read1) (pipe_at s i) u) else pipe_at s j)"
    unfolding e2 using pipe_at_ends(1,2) [OF i2] by (intro exI [of _ s2]) (simp add: at2)
  show "length (pipe_table (snd (fd_create_pipe (Some i) w s))) = length (pipe_table s)"
    unfolding e by simp
qed

lemma fd_inv_create:
  fixes s :: "'a fdsys_scheme"
  assumes s: "fd_inv s" and i: "i < MAX_PIPES" "pp_in_use (pipe_at s i)"
  shows "fd_inv (snd (fd_create_pipe (Some i) w s)) \<and> pp_in_use (pipe_at (snd (fd_create_pipe (Some i) w s)) i)"
proof (cases "first_idx (\<lambda>e. fd_type e = FD_NONE) (fd_table s)")
  case None
  then have "fd_create_pipe (Some i) w s = (-1, s)" by (intro fd_create_pipe_full) simp
  then show ?thesis using s i by simp
next
  case (Some k)
  have l: "length (fd_table s) = MAX_FDS" "length (pipe_table s) = MAX_PIPES" using s by (simp_all add: fd_inv_def)
  have il: "i < length (pipe_table s)" using i l by simp
  let ?g = "\<lambda>e. e\<lparr>fd_type := end_type w, fd_data := Some i, fd_refcount := 1\<rparr>"
  note k = fd_create_pipe_shape(1,2) [OF l(1) il Some] and sh = fd_create_pipe_shape(3-6) [OF l(1) il Some, of w]
  obtain u :: "'a fdsys_scheme" where u: "\<And>j. pipe_at (snd (fd_create_pipe (Some i) w s)) j =
       (if j = i then fst ((if w then pipe_open_write1 else pipe_open_read1) (pipe_at s i) u) else pipe_at s j)"
    using sh(3) by blast
  have "refs_of T j (fd_at s k) = 0" if "T \<noteq> FD_NONE" for T j using k(2) that by (simp add: refs_of_def)
  then have "fd_inv (snd (fd_create_pipe (Some i) w s))"
    by (intro fd_inv_modify [OF s k(1) sh(2)])
      (use k(2) sh(4) l i u in \<open>auto simp: refs_of_def end_type_def open_read_ends open_write_ends is_end_def\<close>)
  then show ?thesis using u i by (simp add: open_read_ends open_write_ends)
qed

lemma refs_unused: "fd_inv s \<Longrightarrow> \<not> pp_in_use (pipe_at s i) \<Longrightarrow> T = FD_PIPE_READ \<or> T = FD_PIPE_WRITE \<Longrightarrow> refs T s i = 0"
proof -
  assume a: "fd_inv s" "\<not> pp_in_use (pipe_at s i)" "T = FD_PIPE_READ \<or> T = FD_PIPE_WRITE"
  have "refs_of T i e = 0" if e: "e \<in> set (fd_table s)" for e
  proof (rule ccontr)
    assume "refs_of T i e \<noteq> 0"
    then have "fd_type e = T" "fd_data e = Some i" by (auto simp: refs_of_def split: if_splits)
    then show False using a e by (auto simp: fd_inv_def is_end_def)
  qed
  then have "map (refs_of T i) (fd_table s) = map (\<lambda>_. 0) (fd_table s)" by simp
  then show ?thesis by (simp only: refs_def sum_list_0 map_replicate_const sum_list_replicate)
qed

subsection \<open>Opening pipes\<close>

lemma fd_table_set_pipe [simp]: "fd_table (set_pipe i p s) = fd_table s"
  by (simp add: set_pipe_def)

lemma fd_at_set_pipe [simp]: "fd_at (set_pipe i p s) d = fd_at s d"
  by (simp add: fd_at_def)

lemma refs_set_pipe [simp]: "refs T (set_pipe i p s) = refs T s"
  by (simp add: refs_def fun_eq_iff)

lemma fd_inv_fresh:
  assumes s: "fd_inv s" and i: "i < MAX_PIPES" "\<not> pp_in_use (pipe_at s i)" and q: "ends q = (0, 0, True, n)"
  shows "fd_inv (set_pipe i q s)"
proof (rule fd_inv_step [OF s])
  have l: "length (fd_table s) = MAX_FDS" "length (pipe_table s) = MAX_PIPES" using s by (simp_all add: fd_inv_def)
  then have il: "i < length (pipe_table s)" using i by simp
  note at = pipe_at_set_pipe [OF il]
  show "length (fd_table (set_pipe i q s)) = MAX_FDS" "length (pipe_table (set_pipe i q s)) = MAX_PIPES" using l by simp_all
  show "fd_type (fd_at (set_pipe i q s) 0) = FD_TERMINAL" "fd_type (fd_at (set_pipe i q s) 1) = FD_TERMINAL"
    using s by (simp_all add: fd_inv_def)
  show "int (pp_open_read (pipe_at (set_pipe i q s) j)) = refs FD_PIPE_READ (set_pipe i q s) j \<and>
      int (pp_open_write (pipe_at (set_pipe i q s) j)) = refs FD_PIPE_WRITE (set_pipe i q s) j" if "j < MAX_PIPES" for j
    using s that q i refs_unused [OF s i(2)] by (auto simp: at fd_inv_def ends_def)
  show "0 < fd_refcount e \<and> (\<exists>j<MAX_PIPES. fd_data e = Some j \<and>
      (pp_in_use (pipe_at (set_pipe i q s) j) \<or> pp_in_use (pipe_at s j)))"
    if "e \<in> set (fd_table (set_pipe i q s))" "is_end e" for e
    using s that unfolding fd_inv_def fd_table_set_pipe by blast
  show "pp_in_use (pipe_at (set_pipe i q s) j) \<or>
      pp_open_read (pipe_at (set_pipe i q s) j) = 0 \<and> pp_open_write (pipe_at (set_pipe i q s) j) = 0"
    if "pp_in_use (pipe_at s j)" for j
    using that i by (auto simp: at)
qed

lemma same_ends_set_pipe: "i < length (pipe_table s) \<Longrightarrow> ends q = ends (pipe_at s i) \<Longrightarrow> same_ends s (set_pipe i q s)"
  unfolding same_ends_def by (simp add: set_pipe_def map_update pipe_at_def) (metis length_map list_update_id nth_map)

text \<open>Which pipe \<open>pipe_open\<close> gives: one found by name, or a free slot taken.\<close>

lemma pipe_open_cases:
  obtains (none) "pipe_open name s = (None, s)" "\<forall>p\<in>set (pipe_table s). pp_in_use p"
  | (found) i where "pipe_open name s = (Some i, set_pipe i ((pipe_at s i)\<lparr>pp_opens := pp_opens (pipe_at s i) + 1\<rparr>) s)"
      "i < length (pipe_table s)" "pp_in_use (pipe_at s i)" "pp_is_named (pipe_at s i)" "name \<noteq> None"
  | (new) i q n where "pipe_open name s = (Some i, set_pipe i q s)" "i < length (pipe_table s)"
      "\<not> pp_in_use (pipe_at s i)" "ends q = (0, 0, True, n)" "name = None \<longrightarrow> \<not> n"
proof (cases "case name of None \<Rightarrow> None
        | Some n \<Rightarrow> first_idx (\<lambda>p. pp_in_use p \<and> pp_is_named p \<and> pipe_name_loop n (pp_name p) 0) (pipe_table s)")
  case (Some i)
  then obtain nm where nm: "name = Some nm"
    "first_idx (\<lambda>p. pp_in_use p \<and> pp_is_named p \<and> pipe_name_loop nm (pp_name p) 0) (pipe_table s) = Some i"
    by (cases name) auto
  from first_idx_SomeD [OF nm(2)] have "i < length (pipe_table s)" "pp_in_use (pipe_at s i)" "pp_is_named (pipe_at s i)"
    by (simp_all add: pipe_at_def)
  moreover have "pipe_open name s = (Some i, set_pipe i ((pipe_at s i)\<lparr>pp_opens := pp_opens (pipe_at s i) + 1\<rparr>) s)"
    using Some by (simp add: pipe_open_def)
  moreover have "name \<noteq> None" using nm(1) by simp
  ultimately show thesis by (intro found)
next
  case None
  show thesis
  proof (cases "first_idx (\<lambda>p. \<not> pp_in_use p) (pipe_table s)")
    case none': None
    then have "pipe_alloc s = (None, s)" by (simp only: pipe_alloc_def option.case)
    then have "pipe_open name s = (None, s)" using None by (simp add: pipe_open_def)
    moreover have "\<forall>p\<in>set (pipe_table s). pp_in_use p" using none' by simp
    ultimately show thesis by (rule none)
  next
    case (Some i)
    from first_idx_SomeD [OF Some] have i: "i < length (pipe_table s)" "\<not> pp_in_use (pipe_at s i)"
      by (simp_all add: pipe_at_def)
    let ?p = "(pipe_reset (pipe_at s i))\<lparr>pp_in_use := True\<rparr>"
    have al: "pipe_alloc s = (Some i, set_pipe i ?p s)" using Some by (simp add: pipe_alloc_def)
    have sp: "set_pipe i q (set_pipe i p s) = set_pipe i q s" for p q by (simp add: set_pipe_def)
    show thesis
    proof (cases name)
      case none': None
      then have "pipe_open name s = (Some i, set_pipe i ?p s)" using None al by (simp add: pipe_open_def)
      then show thesis using i by (rule new [of _ _ False]) (simp_all add: ends_def pipe_reset_def)
    next
      case (Some nm)
      let ?q = "?p\<lparr>pp_name := str_copy_loop PIPE_NAME_LEN nm 0, pp_is_named := True, pp_opens := 1\<rparr>"
      have "pipe_open name s = (Some i, set_pipe i ?q s)" using None al i Some
        by (simp add: pipe_open_def sp del: first_idx_None_iff)
      then show thesis using i by (rule new [of _ _ True]) (simp_all add: ends_def pipe_reset_def Some)
    qed
  qed
qed

lemma pipe_open_inv:
  assumes s: "fd_inv s"
  shows "fd_inv (snd (pipe_open name s)) \<and> (\<forall>i. fst (pipe_open name s) = Some i \<longrightarrow>
    i < MAX_PIPES \<and> pp_in_use (pipe_at (snd (pipe_open name s)) i))"
proof -
  have l: "length (pipe_table s) = MAX_PIPES" using s by (simp add: fd_inv_def)
  show ?thesis
  proof (cases rule: pipe_open_cases [of name s])
    case none
    then show ?thesis using s by simp
  next
    case (found i)
    have "same_ends s (set_pipe i ((pipe_at s i)\<lparr>pp_opens := pp_opens (pipe_at s i) + 1\<rparr>) s)"
      using found(2) by (rule same_ends_set_pipe) (simp add: ends_def)
    from fd_inv_same [OF this s] found l show ?thesis by simp
  next
    case (new i q n)
    have "fd_inv (set_pipe i q s)" using fd_inv_fresh [OF s _ new(3,4)] new(2) l by simp
    then show ?thesis using new l by (simp add: ends_def)
  qed
qed

subsection \<open>The system calls\<close>

lemma fd_inv_create_fds:
  assumes "fd_inv s" "i < MAX_PIPES" "pp_in_use (pipe_at s i)"
  shows "fd_inv (snd (snd (pipe_create_fds (Some i) s)))"
proof -
  note a = fd_inv_create [OF assms, of False]
  note b = fd_inv_create [OF conjunct1 [OF a] assms(2) conjunct2 [OF a], of True]
  show ?thesis using a b by (simp add: pipe_create_fds_def case_prod_beta Let_def fd_inv_decref)
qed

lemma fd_inv_sys_pipe: "fd_inv s \<Longrightarrow> fd_inv (snd (snd (sys_pipe b s)))"
  using pipe_open_inv [of s None] fd_inv_create_fds
  by (cases "pipe_open None s") (auto simp: sys_pipe_def split: option.split)

lemma fd_inv_sys_pipe_open: "fd_inv s \<Longrightarrow> fd_inv (snd (snd (sys_pipe_open name b s)))"
  using pipe_open_inv [of s name] fd_inv_create_fds
  by (cases "pipe_open name s") (auto simp: sys_pipe_open_def split: option.split)

lemma same_ends_refl [simp]: "same_ends s s"
  by (simp add: same_ends_def)

lemma same_ends_trans [trans]: "same_ends s t \<Longrightarrow> same_ends t u \<Longrightarrow> same_ends s u"
  by (simp add: same_ends_def)

lemma same_ends_upd_pcb [simp]: "same_ends s (upd_pcb c f t) = same_ends s t"
  by (simp add: same_ends_def upd_pcb_def)

lemma fd_inv_upd_pcb [simp]: "fd_inv s \<Longrightarrow> fd_inv (upd_pcb c f s)"
  using fd_inv_same [of s "upd_pcb c f s"] by simp

interpretation ends_sem: sem_frame "(\<lambda>s. (fd_table s, pipe_table s)) :: 'a fdsys_scheme \<Rightarrow> _"
  by unfold_locales (simp_all add: upd_pcb_def)

text \<open>Reading and writing keep the ends.\<close>

lemma ends_data:
  "ends (p\<lparr>pp_readers := q\<rparr>) = ends p" "ends (p\<lparr>pp_writers := q\<rparr>) = ends p"
  by (simp_all add: ends_def)

lemma ends_copy_out: "ends (snd (pipe_copy_out n p)) = ends p"
  by (induction n arbitrary: p) (simp_all add: Let_def case_prod_beta ends_def)

lemma ends_copy_in: "ends (pipe_copy_in bs p) = ends p"
  by (induction bs arbitrary: p) (simp_all add: ends_def)

lemma ends_read1: "ends (fst (snd (snd (pipe_read1 n p s)))) = ends p"
  by (simp add: pipe_read1_def Let_def case_prod_beta pipe_block_reader_def pipe_wake_writer_def ends_data
      ends_copy_out split: option.split)

lemma ends_write1: "ends (fst (snd (pipe_write1 bs p s))) = ends p"
  by (simp add: pipe_write1_def Let_def case_prod_beta pipe_block_writer_def pipe_wake_reader_def ends_data
      ends_copy_in split: option.split)

lemma same_ends_pipe_table:
  "fd_table t = fd_table s \<Longrightarrow> pipe_table t = pipe_table s \<Longrightarrow> same_ends s t"
  by (simp add: same_ends_def)

lemma same_ends_read: "same_ends s (snd (snd (pipe_read p b n s)))"
proof (cases "p = None \<or> \<not> b \<or> n = 0")
  case False
  let ?i = "the p" let ?r = "pipe_read1 n (pipe_at s ?i) s"
  let ?s1 = "snd (snd (snd ?r))" let ?q = "fst (snd (snd ?r))"
  have e: "snd (snd (pipe_read p b n s)) = set_pipe ?i ?q ?s1"
    by (simp only: pipe_read_def if_not_P [OF False] Let_def case_prod_beta snd_conv)
  have s1: "same_ends s ?s1"
    by (rule same_ends_pipe_table) (simp_all add: fds_sem.fr_pipe_read1 pipes_psys.fr_pipe_read1)
  have at: "pipe_at ?s1 ?i = pipe_at s ?i" by (simp add: pipe_at_def pipes_psys.fr_pipe_read1)
  have "same_ends ?s1 (set_pipe ?i ?q ?s1)"
  proof (cases "?i < length (pipe_table ?s1)")
    case True
    then show ?thesis by (rule same_ends_set_pipe) (simp add: at ends_read1)
  qed (simp add: set_pipe_def same_ends_def list_update_beyond)
  with s1 show ?thesis unfolding e by (rule same_ends_trans)
qed (auto simp: pipe_read_def)

lemma same_ends_write: "same_ends s (snd (pipe_write p b s))"
proof (cases "p = None \<or> b = None \<or> b = Some []")
  case False
  let ?i = "the p" let ?r = "pipe_write1 (the b) (pipe_at s ?i) s"
  let ?s1 = "snd (snd ?r)" let ?q = "fst (snd ?r)"
  have e: "snd (pipe_write p b s) = set_pipe ?i ?q ?s1"
    by (simp only: pipe_write_def if_not_P [OF False] Let_def case_prod_beta snd_conv)
  have s1: "same_ends s ?s1"
    by (rule same_ends_pipe_table) (simp_all add: fds_sem.fr_pipe_write1 pipes_psys.fr_pipe_write1)
  have at: "pipe_at ?s1 ?i = pipe_at s ?i" by (simp add: pipe_at_def pipes_psys.fr_pipe_write1)
  have "same_ends ?s1 (set_pipe ?i ?q ?s1)"
  proof (cases "?i < length (pipe_table ?s1)")
    case True
    then show ?thesis by (rule same_ends_set_pipe) (simp add: at ends_write1)
  qed (simp add: set_pipe_def same_ends_def list_update_beyond)
  with s1 show ?thesis unfolding e by (rule same_ends_trans)
qed (auto simp: pipe_write_def)

lemma same_ends_pipe_cleanup: "same_ends s (pipe_cleanup_for_process pid s)"
  by (simp add: same_ends_def pipe_cleanup_for_process_def pipe_forget_def ends_data)

interpretation ends_tty: psys_frame "(\<lambda>s. (fd_table s, pipe_table s)) :: 'a ksys_scheme \<Rightarrow> _"
  by unfold_locales (simp_all add: upd_pcb_def)

lemma readKeyBuff_ends: "fd_table (snd (readKeyBuff n s)) = fd_table s \<and> pipe_table (snd (readKeyBuff n s)) = pipe_table s"
proof -
  have "fd_table (snd (readKeyBuff_loop n i s)) = fd_table s \<and> pipe_table (snd (readKeyBuff_loop n i s)) = pipe_table s" for i
  proof (induction n i s rule: readKeyBuff_loop.induct)
    case (1 n i s)
    obtain c s1 where g: "getFromBuffer s = (c, s1)" by force
    have "fd_table s1 = fd_table s \<and> pipe_table s1 = pipe_table s"
      using g by (auto simp: getFromBuffer_def Let_def split: if_splits)
    with "1.IH" [OF _ g [symmetric] refl] show ?case
      by (subst (1 2) readKeyBuff_loop.simps) (simp add: g case_prod_beta)
  qed
  then show ?thesis by (simp add: readKeyBuff_def)
qed

lemma same_ends_fd_read: "same_ends s (snd (snd (fd_read d b n cur s)))"
proof -
  have b: "same_ends s (tty_block c t)" if "fd_table t = fd_table s" "pipe_table t = pipe_table s" for c and t :: "'a fdsys_scheme"
    using that by (simp add: same_ends_def tty_block_def kbd_set_waiting_def upd_pcb_def)
  have "same_ends s (snd (snd (tty_read_cooked n c s)))" for c
    using b [of s] by (simp add: tty_read_cooked_def Let_def same_ends_def)
  moreover have "same_ends s (snd (snd (tty_read_raw n c s)))" for c
    using b [of "snd (readKeyBuff n s)"] readKeyBuff_ends [of n s]
    by (simp add: tty_read_raw_def Let_def case_prod_beta same_ends_def)
  ultimately show ?thesis
    by (simp add: fd_read_def same_ends_read split: option.split FDType.split)
qed

lemma screen_ends: "same_ends s (fold (\<lambda>c. videoPutChar c col) cs t) = same_ends s t"
  by (induction cs arbitrary: t) (simp_all add: same_ends_def videoPutChar_def)

lemma same_ends_fd_write: "same_ends s (snd (fd_write d b cur col s))"
  by (simp add: fd_write_def same_ends_write screen_ends split: FDType.split)

text \<open>The death of a process.\<close>

lemma same_ends_kbd_clear: "same_ends s (kbd_clear_waiting p t) = same_ends s t"
  by (simp add: kbd_clear_waiting_def same_ends_def)

lemma same_ends_notify: "same_ends s (notify_parent a b c t) = same_ends s t"
  by (simp add: notify_parent_def same_ends_def upd_pcb_def split: option.split)

lemma same_ends_force: "same_ends s (t\<lparr>force_switch := b\<rparr>) = same_ends s t"
  by (simp add: same_ends_def)

lemma same_ends_sem_cleanup: "sem_cleanup_for_process pid s = Some t \<Longrightarrow> same_ends s t"
  using ends_sem.fr_sem_cleanup [of pid s t] by (simp add: same_ends_def)

lemma same_ends_sched_remove: "same_ends s (scheduler_remove i t) = same_ends s t"
  by (simp add: scheduler_remove_def same_ends_def Let_def split: option.split)

lemma same_ends_free_stack: "free_stack_argv c s = Some t \<Longrightarrow> same_ends s t"
  by (auto simp: free_stack_argv_def kfree_def Option.bind_eq_Some_conv same_ends_def upd_pcb_def split: if_splits)

text \<open>The birth of a process.\<close>

lemma same_ends_copy_argv: "copy_argv n a s = Some (r, t) \<Longrightarrow> same_ends s t"
  by (auto simp: copy_argv_def Let_def Option.bind_eq_Some_conv same_ends_def split: option.splits if_splits)

lemma same_ends_sched_add: "same_ends s (scheduler_add i t) = same_ends s t"
  by (simp add: scheduler_add_def same_ends_def Let_def split: option.split)

subsection \<open>Invariants of the descriptors\<close>

text \<open>The contract of an invariant that may look at descriptors and ends: it survives every step that
  leaves these alone, and taking and releasing a reference. Then the death and the birth of a process,
  redirection, \<open>dup2\<close>, reading and writing keep it.\<close>

locale desc_inv =
  fixes I :: "'a ksys_scheme \<Rightarrow> bool"
  assumes I_same: "same_ends s t \<Longrightarrow> I s \<Longrightarrow> I t"
    and I_incref: "I s \<Longrightarrow> I (fd_incref fd s)"
    and I_decref: "I s \<Longrightarrow> I (fd_decref fd s)"
begin

lemma I_upd_pcb [simp]: "I s \<Longrightarrow> I (upd_pcb c f s)"
  using I_same [of s "upd_pcb c f s"] by simp

lemma I_read: "I s \<Longrightarrow> I (snd (snd (fd_read d b n cur s)))"
  by (rule I_same [OF same_ends_fd_read])

lemma I_write: "I s \<Longrightarrow> I (snd (fd_write d bs cur col s))"
  by (rule I_same [OF same_ends_fd_write])

lemma I_dup2: "I s \<Longrightarrow> I (snd (sys_dup2 a b s))"
  by (simp add: sys_dup2_def Let_def I_incref I_decref split: option.split)

lemma I_release: "I s \<Longrightarrow> I (process_release_fds c s)"
  by (simp add: process_release_fds_def Let_def I_decref)

lemma I_setup: "process_pipe_setup pid f tg s = Some t \<Longrightarrow> I s \<Longrightarrow> I t"
  by (auto simp: process_pipe_setup_def Let_def I_decref intro!: I_incref split: option.splits if_splits)

lemma I_exit:
  assumes "process_exit r s = Some t" "I s"
  shows "I t"
proof (cases "current_process s")
  case None
  with assms show ?thesis by (simp add: process_exit_def)
next
  case (Some c)
  let ?s1 = "upd_pcb c (\<lambda>p. p\<lparr>p_retval := r\<rparr>) s"
  obtain s2 where s2: "sem_cleanup_for_process (p_pid (pcb_at ?s1 c)) ?s1 = Some s2"
    using assms(1) Some by (auto simp: process_exit_def Let_def Option.bind_eq_Some_conv)
  let ?s4 = "kbd_clear_waiting (Some c) (pipe_cleanup_for_process (p_pid (pcb_at s2 c)) s2)"
  let ?s5 = "process_release_fds c ?s4"
  have "same_ends s ?s1" by simp
  also have "same_ends ?s1 s2" using s2 by (rule same_ends_sem_cleanup)
  also have "same_ends s2 ?s4" by (simp add: same_ends_kbd_clear same_ends_pipe_cleanup)
  finally have "I ?s4" using assms(2) by (rule I_same)
  then have i5: "I ?s5" by (rule I_release)
  have "same_ends ?s5 t" using assms(1) Some s2
    by (auto simp: process_exit_def Let_def same_ends_force same_ends_notify)
  then show ?thesis using i5 by (rule I_same)
qed

lemma I_kill:
  assumes "process_kill pid s = Some t" "I s"
  shows "I t"
proof (cases "process_get s pid")
  case None
  with assms show ?thesis by (simp add: process_kill_def)
next
  case (Some i)
  show ?thesis
  proof (cases "p_state (pcb_at s i) = PROCESS_FREE \<or> p_state (pcb_at s i) = PROCESS_ZOMBIE")
    case True
    with assms Some show ?thesis by (simp add: process_kill_def)
  next
    case False
    let ?s1 = "upd_pcb i (\<lambda>p. p\<lparr>p_retval := -1\<rparr>) s"
    obtain s2 where s2: "sem_cleanup_for_process pid ?s1 = Some s2"
      using assms(1) Some False by (auto simp: process_kill_def Let_def Option.bind_eq_Some_conv)
    let ?s4 = "kbd_clear_waiting (Some i) (pipe_cleanup_for_process pid s2)"
    let ?s5 = "notify_parent (p_parent_pid (pcb_at ?s4 i)) pid (-1) ?s4"
    have "same_ends s ?s1" by simp
    also have "same_ends ?s1 s2" using s2 by (rule same_ends_sem_cleanup)
    also have "same_ends s2 ?s4" by (simp add: same_ends_kbd_clear same_ends_pipe_cleanup)
    also have "same_ends ?s4 ?s5" by (simp add: same_ends_notify)
    finally have i5: "I ?s5" using assms(2) by (rule I_same)
    show ?thesis
    proof (cases "current_process ?s5 = Some i")
      case True
      then have "t = (process_release_fds i (upd_pcb i (\<lambda>p. p\<lparr>p_state := PROCESS_ZOMBIE\<rparr>) ?s5))\<lparr>force_switch := True\<rparr>"
        using assms(1) Some False s2 by (simp add: process_kill_def Let_def)
      moreover have "I (process_release_fds i (upd_pcb i (\<lambda>p. p\<lparr>p_state := PROCESS_ZOMBIE\<rparr>) ?s5))"
        using i5 by (simp add: I_release)
      ultimately show ?thesis using I_same [OF iffD2 [OF same_ends_force same_ends_refl]] by simp
    next
      case ne: False
      let ?s7 = "process_release_fds i (scheduler_remove i ?s5)"
      obtain s8 where s8: "free_stack_argv i ?s7 = Some s8"
        "t = upd_pcb i (\<lambda>p. p\<lparr>p_state := PROCESS_FREE, p_pid := 0\<rparr>) s8"
        using assms(1) Some False s2 ne by (auto simp: process_kill_def Let_def Option.bind_eq_Some_conv)
      have "I (scheduler_remove i ?s5)"
        using I_same [OF iffD2 [OF same_ends_sched_remove same_ends_refl] i5] .
      then have "I ?s7" by (rule I_release)
      then have "I s8" by (rule I_same [OF same_ends_free_stack [OF s8(1)]])
      then show ?thesis using s8(2) by simp
    qed
  qed
qed

lemma I_fill: "I s \<Longrightarrow> I (snd (process_fill slot nm e n a fg s))"
proof -
  assume s: "I s"
  have w: "I (s\<lparr>kwords := m\<rparr>)" for m
    by (rule I_same [OF _ s]) (simp add: same_ends_def)
  have np: "I (u\<lparr>next_pid := k\<rparr>)" if "I u" for u :: "'a ksys_scheme" and k
    by (rule I_same [OF _ that]) (simp add: same_ends_def)
  have sa: "I (scheduler_add i u)" if "I u" for u :: "'a ksys_scheme" and i
    by (rule I_same [OF _ that]) (simp add: same_ends_sched_add)
  show ?thesis
    unfolding process_fill_def Let_def case_prod_beta
    by (simp only: snd_conv) (intro sa I_upd_pcb I_incref np w)
qed

lemma I_process_create:
  assumes "process_create nm e n a fg s = Some (r, t)" "I s"
  shows "I t"
proof (cases "first_idx (\<lambda>p. p_state p = PROCESS_FREE) (process_table s)")
  case None
  with assms show ?thesis by (simp add: process_create_def del: first_idx_None_iff)
next
  case (Some slot)
  obtain h sb where m: "mm_malloc_kernel (of_nat STACK_SIZE) (heap s) = Some (h, sb)"
    using assms(1) Some by (auto simp: process_create_def Option.bind_eq_Some_conv)
  let ?s1 = "upd_pcb slot (\<lambda>p. p\<lparr>p_stack_base := sb\<rparr>) (s\<lparr>heap := h\<rparr>)"
  have "same_ends s ?s1" by (simp add: same_ends_def upd_pcb_def)
  then have i1: "I ?s1" using assms(2) by (rule I_same)
  show ?thesis
  proof (cases "sb = None")
    case True
    with assms(1) Some m i1 show ?thesis by (simp add: process_create_def)
  next
    case False
    then obtain av s2 where c: "copy_argv n a ?s1 = Some (av, s2)"
      using assms(1) Some m by (auto simp: process_create_def Option.bind_eq_Some_conv Let_def)
    have i2: "I s2" by (rule I_same [OF same_ends_copy_argv [OF c] i1])
    show ?thesis
    proof (cases av)
      case None
      then obtain s3 where "kfree (p_stack_base (pcb_at s2 slot)) s2 = Some s3" "t = s3"
        using assms(1) Some m False c by (auto simp: process_create_def Let_def)
      then have "same_ends s2 t" by (auto simp: kfree_def same_ends_def)
      then show ?thesis using i2 by (rule I_same)
    next
      case (Some p)
      then have "t = snd (process_fill slot nm e n p fg s2)"
        using assms(1) \<open>first_idx _ _ = Some slot\<close> m False c by (auto simp: process_create_def Let_def)
      then show ?thesis using I_fill [OF i2] by simp
    qed
  qed
qed

end

interpretation fds: desc_inv fd_inv
  by unfold_locales (auto intro: fd_inv_incref fd_inv_decref fd_inv_same)

end
