(* ===== verification/Fd_Props.thy ===== *)
theory Fd_Props
  imports Fd_Calls
begin

text \<open>
  The properties of the descriptors: the reference counts agree with the ends of the pipes and no
  pipe with an open descriptor is freed, whatever system calls run; and the pipe that a failing
  \<open>sys_pipe\<close> loses for good.
\<close>

subsection \<open>Steps\<close>

text \<open>A system call that works on descriptors or pipes, the death or birth of a process, or any other
  step of the kernel, which leaves descriptors and ends alone.\<close>

inductive fd_step :: "ksys \<Rightarrow> ksys \<Rightarrow> bool" where
  pipe: "fd_step s (snd (snd (sys_pipe b s)))"
| pipe_open: "fd_step s (snd (snd (sys_pipe_open name b s)))"
| dup2: "fd_step s (snd (sys_dup2 f g s))"
| close: "fd_step s (snd (sys_close f s))"
| redirect: "process_pipe_setup pid f tg s = Some t \<Longrightarrow> fd_step s t"
| read: "fd_step s (snd (snd (fd_read d b n cur s)))"
| fd_put: "fd_step s (snd (fd_write d bs cur col s))"
| die: "process_exit r s = Some t \<Longrightarrow> fd_step s t"
| kill: "process_kill pid s = Some t \<Longrightarrow> fd_step s t"
| create: "process_create nm e n a fg s = Some (r, t) \<Longrightarrow> fd_step s t"
| other: "same_ends s t \<Longrightarrow> fd_step s t"

lemma fd_inv_fd_step: "fd_step s t \<Longrightarrow> fd_inv s \<Longrightarrow> fd_inv t"
proof (induction rule: fd_step.induct)
  case (close s f)
  then show ?case by (simp add: sys_close_def fd_inv_decref)
next
  case (redirect pid f tg s t)
  then show ?case by (rule fds.I_setup)
next
  case (read s d b n cur)
  show ?case using read by (rule fds.I_read)
next
  case (fd_put s d bs cur col)
  show ?case using fd_put by (rule fds.I_write)
next
  case (die r s t)
  then show ?case by (rule fds.I_exit)
next
  case (kill pid s t)
  then show ?case by (rule fds.I_kill)
next
  case (create nm e n a fg s r t)
  then show ?case by (rule fds.I_process_create)
next
  case (other s t)
  then show ?case by (rule fd_inv_same)
qed (simp_all add: fd_inv_sys_pipe fd_inv_sys_pipe_open fds.I_dup2)

lemma fd_inv_steps: "fd_step\<^sup>*\<^sup>* s t \<Longrightarrow> fd_inv s \<Longrightarrow> fd_inv t"
  by (induction rule: rtranclp_induct) (auto intro: fd_inv_fd_step)

text \<open>C22: Whatever system calls run, in whatever order, processes are created, exit and are killed: the
  number of open read ends and of open write ends that a pipe keeps is the sum of the reference
  counts of the descriptors that refer to it; a descriptor of a pipe end refers to a pipe that is in
  use, so no pipe is freed (and handed out again) while a descriptor can reach it; and descriptors 0
  and 1 remain the terminal.\<close>

theorem fd_refs_agree:
  assumes "fd_step\<^sup>*\<^sup>* s t" "fd_inv s"
  shows "(\<forall>i<MAX_PIPES. int (pp_open_read (pipe_at t i)) = refs FD_PIPE_READ t i \<and>
      int (pp_open_write (pipe_at t i)) = refs FD_PIPE_WRITE t i) \<and>
    (\<forall>e\<in>set (fd_table t). is_end e \<longrightarrow> (\<exists>i. fd_data e = Some i \<and> pp_in_use (pipe_at t i))) \<and>
    fd_type (fd_at t 0) = FD_TERMINAL \<and> fd_type (fd_at t 1) = FD_TERMINAL"
  using fd_inv_steps [OF assms] unfolding fd_inv_def by blast

lemma demo_fds: "fd_inv demo_k"
proof -
  have "fd_table demo_k = [\<lparr>fd_type = FD_TERMINAL, fd_refcount = 0, fd_data = None\<rparr>,
       \<lparr>fd_type = FD_TERMINAL, fd_refcount = 0, fd_data = None\<rparr>] @ replicate 128 free_fd"
    "pipe_table demo_k = replicate 32 zero_pipe" by (simp_all add: demo_k_def)
  then show ?thesis
    by (auto simp: fd_inv_def refs_def refs_of_def free_fd_def is_end_def fd_at_def pipe_at_def zero_pipe_def
        sum_list_replicate)
qed

theorem fd_refs_agree_witness:
  "int (pp_open_read (pipe_at (snd (snd (sys_pipe True demo_k))) 0)) =
   refs FD_PIPE_READ (snd (snd (sys_pipe True demo_k))) 0"
proof -
  have "fd_step\<^sup>*\<^sup>* demo_k (snd (snd (sys_pipe True demo_k)))" by (rule r_into_rtranclp) (rule fd_step.pipe)
  from fd_refs_agree [OF this demo_fds] show ?thesis by simp
qed

subsection \<open>The lost pipe\<close>

text \<open>In use, anonymous, and out of reach.\<close>

definition leaked :: "nat \<Rightarrow> 'a fdsys_scheme \<Rightarrow> bool" where
  "leaked i s \<longleftrightarrow> i < MAX_PIPES \<and> pp_in_use (pipe_at s i) \<and> \<not> pp_is_named (pipe_at s i) \<and>
     (\<forall>e\<in>set (fd_table s). is_end e \<longrightarrow> fd_data e \<noteq> Some i)"

lemma pipe_at_other:
  "p \<noteq> Some j \<Longrightarrow> pipe_at (pipe_open_read p s) j = pipe_at s j"
  "p \<noteq> Some j \<Longrightarrow> pipe_at (pipe_open_write p s) j = pipe_at s j"
  "p \<noteq> Some j \<Longrightarrow> pipe_at (pipe_close_read p s) j = pipe_at s j"
  "p \<noteq> Some j \<Longrightarrow> pipe_at (pipe_close_write p s) j = pipe_at s j"
  unfolding pipe_open_read_def pipe_open_write_def pipe_close_read_def pipe_close_write_def on_pipe_def pipe_at_def
    set_pipe_def case_prod_beta
  by (cases p; simp add: pipes_psys.fr_ends Let_def)+

lemma leaked_same: "same_ends s t \<Longrightarrow> fd_inv s \<Longrightarrow> leaked i s \<Longrightarrow> leaked i t"
  using same_ends_at [of s t i] by (auto simp: leaked_def fd_inv_def ends_def same_ends_def)

lemma leaked_modify:
  assumes l: "leaked i s" and t: "fd_table t = modify d g (fd_table s)" "pipe_at t i = pipe_at s i"
    and g: "is_end (g (fd_at s d)) \<Longrightarrow> fd_data (g (fd_at s d)) \<noteq> Some i"
  shows "leaked i t"
proof -
  have "fd_data e \<noteq> Some i" if e: "e \<in> set (fd_table t)" "is_end e" for e
  proof -
    have "e \<in> insert (g (fd_at s d)) (set (fd_table s))"
      using e(1) set_modify_subset [of d g "fd_table s"] unfolding t(1) fd_at_def by blast
    then show ?thesis using g e(2) l by (auto simp: leaked_def)
  qed
  then show ?thesis using l t(2) by (auto simp: leaked_def)
qed

lemma leaked_entry:
  assumes "fd_inv s" "leaked i s" "fd_get fd s = Some d"
  shows "is_end (fd_at s d) \<Longrightarrow> fd_data (fd_at s d) \<noteq> Some i"
proof -
  have "d < length (fd_table s)" using assms unfolding fd_get_Some fd_inv_def by simp
  then have "fd_at s d \<in> set (fd_table s)" by (simp add: fd_at_def)
  then show "is_end (fd_at s d) \<Longrightarrow> fd_data (fd_at s d) \<noteq> Some i" using assms(2) unfolding leaked_def by blast
qed

lemma leaked_incref: "fd_inv s \<Longrightarrow> leaked i s \<Longrightarrow> leaked i (fd_incref fd s)"
proof (cases "fd_get fd s")
  case (Some d)
  assume s: "fd_inv s" "leaked i s"
  note ne = leaked_entry [OF s Some]
  let ?g = "\<lambda>e. e\<lparr>fd_refcount := fd_refcount e + 1\<rparr>"
  have d: "d < length (fd_table s)" using s Some unfolding fd_get_Some fd_inv_def by simp
  then have at: "fd_at (upd_fd d ?g s) d = ?g (fd_at s d)" by simp
  have u: "fd_incref fd s = (if fd_type (fd_at s d) = FD_PIPE_READ then pipe_open_read (fd_data (fd_at s d)) (upd_fd d ?g s)
      else if fd_type (fd_at s d) = FD_PIPE_WRITE then pipe_open_write (fd_data (fd_at s d)) (upd_fd d ?g s)
      else upd_fd d ?g s)" unfolding fd_incref_def Some option.case Let_def at by simp
  show ?thesis
    by (rule leaked_modify [OF s(2), of _ d ?g]) (use ne u in \<open>auto simp: pipe_at_other is_end_def\<close>)
qed (simp add: fd_incref_def)

lemma leaked_decref: "fd_inv s \<Longrightarrow> leaked i s \<Longrightarrow> leaked i (fd_decref fd s)"
proof (cases "fd_get fd s")
  case (Some d)
  assume s: "fd_inv s" "leaked i s"
  note ne = leaked_entry [OF s Some]
  have l: "length (fd_table s) = MAX_FDS" using s by (simp add: fd_inv_def)
  have d: "d < length (fd_table s)" "fd_type (fd_at s d) \<noteq> FD_NONE"
    using l Some unfolding fd_get_Some by (simp, blast)
  show ?thesis
  proof (cases "fd_refcount (fd_at s d) = 0")
    case True
    have mem: "fd_at s d \<in> set (fd_table s)" using d by (simp add: fd_at_def)
    then have "\<not> is_end (fd_at s d)" using s True unfolding fd_inv_def by fastforce
    then have "fd_type (fd_at s d) = FD_TERMINAL" using d(2) by (cases "fd_type (fd_at s d)") (simp_all add: is_end_def)
    then show ?thesis using Some True s by (simp add: fd_decref_def)
  next
    case False
    then have pos: "0 < fd_refcount (fd_at s d)" by simp
    from fd_decref_table [OF Some l pos] obtain f where ft: "fd_table (fd_decref fd s) = modify d dropped (fd_table s)"
      and pt: "pipe_table (fd_decref fd s) = pipe_table
        (if fd_type (fd_at s d) = FD_PIPE_READ then pipe_close_read (fd_data (fd_at s d)) (upd_fd d f s)
         else if fd_type (fd_at s d) = FD_PIPE_WRITE then pipe_close_write (fd_data (fd_at s d)) (upd_fd d f s) else upd_fd d f s)" by blast
    have pa: "pipe_at (fd_decref fd s) i = pipe_at s i"
      unfolding pipe_at_cong [OF pt] using ne by (auto simp: pipe_at_other is_end_def)
    show ?thesis by (rule leaked_modify [OF s(2) ft pa]) (use ne in \<open>auto simp: dropped_def is_end_def split: if_splits\<close>)
  qed
qed (simp add: fd_decref_def)

lemma leaked_create:
  assumes s: "fd_inv s" "leaked i s" and j: "j < MAX_PIPES" "j \<noteq> i"
  shows "leaked i (snd (fd_create_pipe (Some j) w s))"
proof (cases "first_idx (\<lambda>e. fd_type e = FD_NONE) (fd_table s)")
  case None
  then have "fd_create_pipe (Some j) w s = (-1, s)" by (intro fd_create_pipe_full) simp
  then show ?thesis using s by simp
next
  case (Some k)
  have l: "length (fd_table s) = MAX_FDS" "j < length (pipe_table s)" using s j by (simp_all add: fd_inv_def)
  note sh = fd_create_pipe_shape(3-6) [OF l Some, of w]
  have "pipe_at (snd (fd_create_pipe (Some j) w s)) i = pipe_at s i" using sh(3) j(2) by auto
  then show ?thesis by (rule leaked_modify [OF s(2) sh(2)]) (use j(2) in simp)
qed

lemma leaked_create_fds:
  assumes s: "fd_inv s" "leaked i s" and j: "j < MAX_PIPES" "j \<noteq> i" "pp_in_use (pipe_at s j)"
  shows "leaked i (snd (snd (pipe_create_fds (Some j) s)))"
proof -
  note i1 = fd_inv_create [OF s(1) j(1,3), of False] and l1 = leaked_create [OF s j(1,2), of False]
  note i2 = fd_inv_create [OF conjunct1 [OF i1] j(1) conjunct2 [OF i1], of True]
    and l2 = leaked_create [OF conjunct1 [OF i1] l1 j(1,2), of True]
  show ?thesis using l1 l2 i2 by (simp add: pipe_create_fds_def case_prod_beta Let_def leaked_decref)
qed

lemma leaked_pipe_open:
  assumes s: "fd_inv s" "leaked i s"
  shows "leaked i (snd (pipe_open name s)) \<and> fst (pipe_open name s) \<noteq> Some i"
proof (cases rule: pipe_open_cases [of name s])
  case none
  then show ?thesis using s by simp
next
  case (found j)
  then have "j \<noteq> i" using s(2) by (auto simp: leaked_def)
  then show ?thesis using found s(2) by (simp add: leaked_def)
next
  case (new j q n)
  then have "j \<noteq> i" using s(2) by (auto simp: leaked_def)
  then show ?thesis using new s(2) by (simp add: leaked_def)
qed

lemma leaked_calls:
  assumes s: "fd_inv s" "leaked i s"
  shows "leaked i (snd (snd (sys_pipe b s)))" "leaked i (snd (snd (sys_pipe_open name b s)))"
proof -
  have o: "leaked i (snd (snd (pipe_create_fds (fst (pipe_open nm s)) (snd (pipe_open nm s)))))"
    if "fst (pipe_open nm s) \<noteq> None" for nm
    using that pipe_open_inv [OF s(1), of nm] leaked_pipe_open [OF s, of nm] leaked_create_fds
    by (cases "fst (pipe_open nm s)") auto
  show "leaked i (snd (snd (sys_pipe b s)))"
    using o [of None] leaked_pipe_open [OF s, of None] s
    by (cases "pipe_open None s") (auto simp: sys_pipe_def split: option.split)
  show "leaked i (snd (snd (sys_pipe_open name b s)))"
    using o [of name] leaked_pipe_open [OF s, of name] s
    by (cases "pipe_open name s") (auto simp: sys_pipe_open_def split: option.split)
qed

text \<open>A lost pipe is an invariant of the descriptors, too.\<close>

interpretation lost: desc_inv "\<lambda>s. fd_inv s \<and> leaked i s" for i
  by unfold_locales (auto intro: fd_inv_incref fd_inv_decref fd_inv_same leaked_same leaked_incref leaked_decref)

lemma leaked_step: "fd_step s t \<Longrightarrow> fd_inv s \<and> leaked i s \<Longrightarrow> fd_inv t \<and> leaked i t"
proof (induction rule: fd_step.induct)
  case (pipe s b)
  then show ?case using fd_inv_sys_pipe leaked_calls(1) by blast
next
  case (pipe_open s name b)
  then show ?case using fd_inv_sys_pipe_open leaked_calls(2) by blast
next
  case (dup2 s f g)
  then show ?case by (rule lost.I_dup2)
next
  case (close s f)
  then show ?case using lost.I_decref [of s i f] by (simp add: sys_close_def)
next
  case (redirect pid f tg s t)
  then show ?case by (rule lost.I_setup)
next
  case (read s d b n cur)
  then show ?case by (rule lost.I_read)
next
  case (fd_put s d bs cur col)
  then show ?case by (rule lost.I_write)
next
  case (die r s t)
  then show ?case by (rule lost.I_exit)
next
  case (kill pid s t)
  then show ?case by (rule lost.I_kill)
next
  case (create nm e n a fg s r t)
  then show ?case by (rule lost.I_process_create)
next
  case (other s t)
  then show ?case by (rule lost.I_same)
qed

lemma leaked_steps: "fd_step\<^sup>*\<^sup>* s t \<Longrightarrow> fd_inv s \<Longrightarrow> leaked i s \<Longrightarrow> leaked i t \<and> fd_inv t"
  by (induction rule: rtranclp_induct) (use leaked_step in blast)+

lemma leaked_refs: "leaked i s \<Longrightarrow> T = FD_PIPE_READ \<or> T = FD_PIPE_WRITE \<Longrightarrow> refs T s i = 0"
proof -
  assume a: "leaked i s" "T = FD_PIPE_READ \<or> T = FD_PIPE_WRITE"
  have "refs_of T i e = 0" if e: "e \<in> set (fd_table s)" for e
    using a e by (auto simp: refs_of_def leaked_def is_end_def)
  then have "map (refs_of T i) (fd_table s) = map (\<lambda>_. 0) (fd_table s)" by simp
  then show ?thesis by (simp only: refs_def map_replicate_const sum_list_replicate)
qed

text \<open>A \<open>sys_pipe\<close> that finds no free descriptor returns -1 and leaves the pipe it took in use, with
  no open end and no descriptor. That pipe is lost: whatever runs afterwards, even when every
  descriptor is closed and every process exits, it stays in use and out of reach, so that 32 such
  calls leave the system without pipes.\<close>

theorem sys_pipe_leak:
  assumes "fd_inv s" "\<forall>e\<in>set (fd_table s). fd_type e \<noteq> FD_NONE" "\<exists>p\<in>set (pipe_table s). \<not> pp_in_use p"
  shows "\<exists>i<MAX_PIPES. \<not> pp_in_use (pipe_at s i) \<and> fst (sys_pipe True s) = -1 \<and>
    (\<forall>t. fd_step\<^sup>*\<^sup>* (snd (snd (sys_pipe True s))) t \<longrightarrow>
       pp_in_use (pipe_at t i) \<and> refs FD_PIPE_READ t i = 0 \<and> refs FD_PIPE_WRITE t i = 0)"
proof (cases rule: pipe_open_cases [of None s])
  case none
  with assms(3) show ?thesis by blast
next
  case (found i)
  then show ?thesis by simp
next
  case (new i q n)
  have il: "i < MAX_PIPES" using new(2) assms(1) by (simp add: fd_inv_def)
  have "\<forall>e\<in>set (fd_table (set_pipe i q s)). fd_type e \<noteq> FD_NONE" using assms(2) by simp
  from fd_create_pipe_full [OF this, of i] have e: "sys_pipe True s = (-1, None, set_pipe i q s)"
    using new(1) by (simp add: sys_pipe_def pipe_create_fds_def)
  have iv: "fd_inv (set_pipe i q s)" by (rule fd_inv_fresh [OF assms(1) il new(3,4)])
  have "leaked i (set_pipe i q s)"
  proof -
    have "fd_data x \<noteq> Some i" if "x \<in> set (fd_table s)" "is_end x" for x
      using assms(1) that new(3) unfolding fd_inv_def by fastforce
    then show ?thesis using new il by (auto simp: leaked_def ends_def)
  qed
  then have "pp_in_use (pipe_at t i) \<and> refs FD_PIPE_READ t i = 0 \<and> refs FD_PIPE_WRITE t i = 0"
    if "fd_step\<^sup>*\<^sup>* (set_pipe i q s) t" for t
    using leaked_steps [OF that iv] leaked_refs [of i t] by (auto simp: leaked_def)
  then show ?thesis using il new(3) unfolding e by auto
qed

text \<open>One named pipe, opened 64 times: all descriptors taken, 31 pipes free.\<close>

definition demo_full :: ksys where
  "demo_full = demo_k\<lparr>
     fd_table := replicate 2 \<lparr>fd_type = FD_TERMINAL, fd_refcount = 0, fd_data = None\<rparr> @
       replicate 64 \<lparr>fd_type = FD_PIPE_READ, fd_refcount = 1, fd_data = Some 0\<rparr> @
       replicate 64 \<lparr>fd_type = FD_PIPE_WRITE, fd_refcount = 1, fd_data = Some 0\<rparr>,
     pipe_table := zero_pipe\<lparr>pp_in_use := True, pp_is_named := True, pp_name := ''a'', pp_opens := 64,
       pp_open_read := 64, pp_open_write := 64\<rparr> # replicate 31 zero_pipe\<rparr>"

lemma demo_full: "fd_inv demo_full" "\<forall>e\<in>set (fd_table demo_full). fd_type e \<noteq> FD_NONE"
    "\<exists>p\<in>set (pipe_table demo_full). \<not> pp_in_use p"
proof -
  have at: "pipe_at demo_full i = (if i = 0 then zero_pipe\<lparr>pp_in_use := True, pp_is_named := True,
      pp_name := ''a'', pp_opens := 64, pp_open_read := 64, pp_open_write := 64\<rparr> else zero_pipe)" if "i < 32" for i
    using that by (cases i) (simp_all add: pipe_at_def demo_full_def)
  have rf: "refs T demo_full i = (if (T = FD_PIPE_READ \<or> T = FD_PIPE_WRITE) \<and> i = 0 then 64 else 0)" for T i
    by (cases T) (auto simp: refs_def demo_full_def refs_of_def sum_list_replicate)
  have z: "\<not> pp_in_use zero_pipe" "pp_open_read zero_pipe = 0" "pp_open_write zero_pipe = 0"
    by (simp_all add: zero_pipe_def)
  show "\<forall>e\<in>set (fd_table demo_full). fd_type e \<noteq> FD_NONE" by (auto simp: demo_full_def)
  show "\<exists>p\<in>set (pipe_table demo_full). \<not> pp_in_use p" using z by (auto simp: demo_full_def)
  have ft: "length (fd_table demo_full) = 130" "length (pipe_table demo_full) = 32"
    "fd_at demo_full 0 = \<lparr>fd_type = FD_TERMINAL, fd_refcount = 0, fd_data = None\<rparr>"
    "fd_at demo_full 1 = \<lparr>fd_type = FD_TERMINAL, fd_refcount = 0, fd_data = None\<rparr>"
    by (simp_all add: demo_full_def fd_at_def nth_append)
  have ends: "\<forall>e\<in>set (fd_table demo_full). is_end e \<longrightarrow> fd_refcount e = 1 \<and> fd_data e = Some 0"
    by (auto simp: demo_full_def is_end_def)
  show "fd_inv demo_full"
    unfolding fd_inv_def rf ft using z ends by (auto simp: at)
qed

theorem sys_pipe_leak_witness: "fst (sys_pipe True demo_full) = -1"
  using sys_pipe_leak [OF demo_full] by blast

end
