(* ===== verification/Process_Lemmas.thy ===== *)
theory Process_Lemmas
  imports Fd_Calls
begin

text \<open>
  What the operations on processes compute. Creation: the heap gives two blocks, the stack frame
  and the copied arguments are written, one PCB is filled and enters the run queue. Exit and kill:
  the clean-ups leave the scheduler and the heap alone, so their effect is that of the last steps.
  Every operation keeps the invariants of the scheduler, \<open>sched_inv\<close> and \<open>mem_inv\<close>.
\<close>

subsection \<open>The terminal descriptors\<close>

definition std_fds :: "'a fdsys_scheme \<Rightarrow> bool" where
  "std_fds s \<longleftrightarrow> length (fd_table s) = MAX_FDS \<and> fd_type (fd_at s 0) = FD_TERMINAL \<and> fd_type (fd_at s 1) = FD_TERMINAL"

lemma fd_inv_std: "fd_inv s \<Longrightarrow> std_fds s"
  by (simp add: fd_inv_def std_fds_def)

lemma incref_terminal:
  assumes "std_fds s" "d = 0 \<or> d = 1"
  shows "fd_incref (of_nat d) s = upd_fd d (\<lambda>e. e\<lparr>fd_refcount := fd_refcount e + 1\<rparr>) s"
proof -
  have "fd_get (of_nat d) s = Some d" "fd_type (fd_at s d) = FD_TERMINAL"
    using assms by (auto simp: fd_get_def std_fds_def)
  then show ?thesis using assms by (auto simp: fd_incref_def Let_def std_fds_def)
qed

lemma std_fds_upd_fd: "std_fds s \<Longrightarrow> (\<And>e. fd_type (f e) = fd_type e) \<Longrightarrow> std_fds (upd_fd d f s)"
  by (cases "d < length (fd_table s)"; cases "d = 0"; cases "d = 1")
     (auto simp: std_fds_def fd_at_def modify_def upd_fd_def)

subsection \<open>Filling a PCB\<close>

definition new_pcb :: "string option \<Rightarrow> u64 \<Rightarrow> int \<Rightarrow> ptr \<Rightarrow> u8 \<Rightarrow> u64 \<Rightarrow> u64 \<Rightarrow> addr \<Rightarrow> pcb \<Rightarrow> pcb" where
  "new_pcb name entry argc av fg pid parent sp p =
     p\<lparr>p_pid := pid, p_name := (if str_len (Some (str_copy name MAX_NAME_LEN)) = 0 then ''?'' else str_copy name MAX_NAME_LEN),
       p_entry := entry, p_priority := DEFAULT_PRIORITY, p_remaining_quanta := DEFAULT_PRIORITY, p_wait_ticks := 0,
       p_state := (if fg AND 2 \<noteq> 0 then PROCESS_BLOCKED else PROCESS_READY), p_rsp := Some sp, p_foreground := fg,
       p_fd := [0, 1], p_parent_pid := parent, p_waiting_for := 0, p_argc := argc, p_argv := av, p_retval := 0,
       p_held_sems := 0, p_opened_sems := 0\<rparr>"

text \<open>The two references to the terminal a new process takes.\<close>

definition std_taken :: "FD list \<Rightarrow> FD list" where
  "std_taken ft = modify 1 (\<lambda>e. e\<lparr>fd_refcount := fd_refcount e + 1\<rparr>) (modify 0 (\<lambda>e. e\<lparr>fd_refcount := fd_refcount e + 1\<rparr>) ft)"

lemma process_fill_shape:
  assumes sl: "slot < length (process_table s)" and fd: "std_fds s" and cs: "current_process s \<noteq> Some slot"
    and bs: "build_initial_stack (ptr_addr (p_stack_base (pcb_at s slot)) + STACK_SIZE) (trampoline s) argc av (kwords s) = (sp, m)"
  shows "process_fill slot name entry argc av fg s =
    (int_of_pid (next_pid s + 1),
     scheduler_add slot (upd_pcb slot (new_pcb name entry argc av fg (next_pid s + 1) (parent_of_new s) sp)
       (s\<lparr>kwords := m, next_pid := next_pid s + 1, fd_table := std_taken (fd_table s)\<rparr>)))"
proof -
  let ?inc = "\<lambda>e. e\<lparr>fd_refcount := fd_refcount e + 1\<rparr>"
  let ?f1 = "\<lambda>p. p\<lparr>p_rsp := Some sp, p_pid := next_pid s + 1, p_priority := DEFAULT_PRIORITY,
                 p_remaining_quanta := DEFAULT_PRIORITY, p_wait_ticks := 0,
                 p_state := (if fg AND 2 \<noteq> 0 then PROCESS_BLOCKED else PROCESS_READY),
                 p_foreground := fg, p_fd := [int FD_STDIN, int FD_STDOUT]\<rparr>"
  define s3 where "s3 = upd_pcb slot ?f1 (s\<lparr>kwords := m, next_pid := next_pid s + 1\<rparr>)"
  have fd3: "std_fds s3" using fd by (simp add: s3_def std_fds_def fd_at_def upd_pcb_def)
  define s4 where "s4 = upd_fd 0 ?inc s3"
  define s5 where "s5 = upd_fd 1 ?inc s4"
  have i0: "fd_incref 0 s3 = s4" using incref_terminal [OF fd3, of 0] by (simp add: s4_def)
  have fd4: "std_fds s4" unfolding s4_def using fd3 by (rule std_fds_upd_fd) simp
  have i1: "fd_incref 1 s4 = s5" using incref_terminal [OF fd4, of 1] by (simp add: s5_def)
  have p3: "p_fd (pcb_at s3 slot) = [0, 1]" using sl by (simp add: s3_def pcb_at_upd)
  have p4: "p_fd (pcb_at s4 slot) = [0, 1]" using p3 by (simp add: s4_def)
  have par: "parent_of_new s5 = parent_of_new s"
    using cs sl by (auto simp: parent_of_new_def s5_def s4_def s3_def pcb_at_def upd_pcb_def split: option.split)
  let ?nm = "str_copy name MAX_NAME_LEN"
  let ?f2 = "\<lambda>p. p\<lparr>p_parent_pid := parent_of_new s5, p_waiting_for := 0, p_argc := argc,
                 p_argv := av, p_retval := 0, p_entry := entry, p_held_sems := 0, p_opened_sems := 0,
                 p_name := (if str_len (Some ?nm) = 0 then ''?'' else ?nm)\<rparr>"
  have u3: "upd_pcb slot (\<lambda>p. p\<lparr>p_pid := next_pid s + 1, p_priority := DEFAULT_PRIORITY,
                 p_remaining_quanta := DEFAULT_PRIORITY, p_wait_ticks := 0,
                 p_state := (if fg AND 2 \<noteq> 0 then PROCESS_BLOCKED else PROCESS_READY),
                 p_foreground := fg, p_fd := [int FD_STDIN, int FD_STDOUT]\<rparr>)
       (upd_pcb slot (\<lambda>p. p\<lparr>p_rsp := Some sp\<rparr>) (s\<lparr>kwords := m\<rparr>)\<lparr>next_pid := next_pid s + 1\<rparr>) = s3"
    by (simp add: s3_def upd_pcb_def comp_def)
  have fill: "process_fill slot name entry argc av fg s =
      (int_of_pid (p_pid (pcb_at (upd_pcb slot ?f2 s5) slot)), scheduler_add slot (upd_pcb slot ?f2 s5))"
    unfolding process_fill_def Let_def bs prod.case
    by (simp add: u3 [simplified] p3 i0 p4 i1)
  have f: "?f2 \<circ> ?f1 = new_pcb name entry argc av fg (next_pid s + 1) (parent_of_new s) sp"
    by (simp add: fun_eq_iff new_pcb_def par)
  have "upd_pcb slot ?f2 s5 = upd_pcb slot (new_pcb name entry argc av fg (next_pid s + 1) (parent_of_new s) sp)
      (s\<lparr>kwords := m, next_pid := next_pid s + 1, fd_table := std_taken (fd_table s)\<rparr>)"
    unfolding f [symmetric] by (simp add: s5_def s4_def s3_def upd_pcb_def upd_fd_def std_taken_def)
  then show ?thesis unfolding fill using sl by (simp add: pcb_at_upd new_pcb_def)
qed

subsection \<open>A new process enters the table\<close>

lemma queue_room:
  assumes "queue_inv s" "slot < MAX_PROCESSES" "slot \<notin> set (rq s)"
  shows "queue_size s < MAX_PROCESSES"
proof -
  have "set (rq s) \<subseteq> {..<MAX_PROCESSES} - {slot}" using assms(3) queue_inv_member [OF assms(1)] by auto
  then have "card (set (rq s)) \<le> card ({..<MAX_PROCESSES} - {slot})" by (rule card_mono [rotated]) simp
  moreover have "card (set (rq s)) = length (rq s)" using queue_inv_distinct [OF assms(1)] by (rule distinct_card)
  ultimately show ?thesis using assms(2) queue_inv_rq_length [OF assms(1)] by simp
qed

text \<open>\<open>t\<close> is \<open>s\<close> with a live process in a slot that was free and one PID handed out.\<close>

definition enters :: "nat \<Rightarrow> pcb \<Rightarrow> 'a ssys_scheme \<Rightarrow> 'b ssys_scheme \<Rightarrow> bool" where
  "enters slot q s t \<longleftrightarrow> slot < MAX_PROCESSES \<and> \<not> live s slot \<and> process_table t = (process_table s)[slot := q] \<and>
     p_pid q = next_pid s + 1 \<and> p_state q \<in> {PROCESS_READY, PROCESS_BLOCKED} \<and>
     next_pid t = next_pid s + 1 \<and> current_process t = current_process s \<and>
     run_queue t = run_queue s \<and> queue_size t = queue_size s \<and> queue_idx t = queue_idx s \<and> idle_pcb t = idle_pcb s"

lemma enters_pcb: "enters slot q s t \<Longrightarrow> length (process_table s) = MAX_PROCESSES \<Longrightarrow>
    pcb_at t i = (if i = slot then q else pcb_at s i)"
  by (auto simp: enters_def pcb_at_def)

lemma enters_live: "enters slot q s t \<Longrightarrow> length (process_table s) = MAX_PROCESSES \<Longrightarrow>
    live t i \<longleftrightarrow> i = slot \<or> live s i"
  by (cases "i = slot") (auto simp: enters_def live_def pcb_at_def)

lemma sched_inv_enters:
  assumes i: "sched_inv s" and e: "enters slot q s t" and nw: "next_pid s + 1 \<noteq> 0"
  shows "sched_inv (scheduler_add slot t)"
    and "rq (scheduler_add slot t) = insert_desc (prio t) slot (rq s)"
proof -
  note len = sched_inv_length [OF i]
  note at = enters_pcb [OF e len] and lv = enters_live [OF e len]
  have sl: "slot < MAX_PROCESSES" "\<not> live s slot" using e by (auto simp: enters_def)
  have q: "slot \<notin> set (rq s)" using sl sched_inv_live [OF i] by blast
  have pid: "p_pid (pcb_at s k) < next_pid s + 1" if "live s k" for k
    using table_inv_pid [OF sched_inv_table [OF i] that] nw
    unatSuc [of "next_pid s"] by (simp add: word_less_nat_alt word_le_nat_alt add.commute)
  have rqt: "rq t = rq s" using e by (simp add: rq_def enters_def)
  have tab: "table_inv t"
  proof (rule table_invI)
    show "length (process_table t) = MAX_PROCESSES" using e len by (simp add: enters_def)
    have pq: "p_pid q = next_pid s + 1" using e by (simp add: enters_def)
    show "pids_unique t"
      unfolding pids_unique_def
    proof (intro allI impI)
      fix k l assume k: "live t k" and l: "live t l" and e: "p_pid (pcb_at t k) = p_pid (pcb_at t l)"
      have old: "p_pid (pcb_at s j) \<noteq> next_pid s + 1" if "live s j" for j
        using pid [OF that] by (rule less_imp_neq)
      show "k = l"
        using k l e old [of k] old [of l] table_inv_unique [OF sched_inv_table [OF i]]
        by (cases "k = slot"; cases "l = slot") (simp_all add: lv at pq pids_unique_def)
    qed
    show "p_pid (pcb_at t k) \<noteq> 0 \<and> p_pid (pcb_at t k) \<le> next_pid t" if "live t k" for k
    proof -
      have n: "next_pid t = next_pid s + 1" using e by (simp add: enters_def)
      show ?thesis
      proof (cases "k = slot")
        case True
        then show ?thesis using nw by (simp add: at n pq)
      next
        case False
        then have "live s k" using that by (simp add: lv)
        then show ?thesis
          using table_inv_pid [OF sched_inv_table [OF i]] pid less_imp_le False by (simp only: at n if_False) blast
      qed
    qed
    show "k < MAX_PROCESSES" if "current_process t = Some k" for k
      using that table_inv_current [OF sched_inv_table [OF i]] e by (simp add: enters_def)
    show "current_process t = Some k"
      if "k < MAX_PROCESSES" "p_state (pcb_at t k) = PROCESS_RUNNING" for k
      using that table_inv_running [OF sched_inv_table [OF i], of k] e
      by (auto simp: at enters_def split: if_splits)
  qed
  have "queue_inv t"
    by (rule queue_inv_cong [OF sched_inv_queue [OF i]])
       (use e q queue_inv_idx [OF sched_inv_queue [OF i]] in \<open>auto simp: at enters_def\<close>)
  note qt = this
  have ni: "Some slot \<noteq> idle_pcb t" using sched_inv_idle [OF i, of slot] sl e by (auto simp: enters_def)
  have "queue_size t < MAX_PROCESSES"
    using queue_room [OF qt sl(1)] q by (simp add: rqt)
  note sh = scheduler_add_shape [OF qt this ni]
  show r: "rq (scheduler_add slot t) = insert_desc (prio t) slot (rq s)" using sh(1) by (simp add: rqt)
  have "queue_inv (scheduler_add slot t)" by (rule queue_inv_add [OF qt sl(1)]) (use q in \<open>simp add: rqt\<close>)
  moreover have "table_inv (scheduler_add slot t)" by (rule table_inv_cong [OF tab]) simp_all
  moreover have "live t k \<and> p_state (pcb_at t k) \<noteq> PROCESS_ZOMBIE" if "idle_pcb t = Some k" for k
    using sched_inv_idle [OF i, of k] that e sl by (auto simp: lv at enters_def)
  ultimately show "sched_inv (scheduler_add slot t)"
    using sched_inv_live [OF i] by (auto simp: sched_inv_def r lv)
qed

lemma mem_inv_enters:
  assumes m: "mem_inv L s" and e: "enters slot q s t" and len: "length (process_table s) = MAX_PROCESSES"
    and h: "ff_live a b (heap t) L'" "fst ` L \<subseteq> fst ` L'"
    and o: "distinct (own q)" "set (own q) \<subseteq> fst ` L'" "set (own q) \<inter> fst ` L = {}"
  shows "mem_inv L' t"
proof -
  note at = enters_pcb [OF e len] and lv = enters_live [OF e len]
  have sl: "\<not> live s slot" using e by (auto simp: enters_def)
  have sub: "set (own (pcb_at s i)) \<subseteq> fst ` L" if "live s i" for i by (rule mem_inv_owned [OF m that])
  show ?thesis unfolding mem_inv_def
  proof (intro conjI allI impI)
    show "\<exists>a e. ff_live a e (heap t) L'" using h(1) by blast
    show "distinct (own (pcb_at t i))" if "live t i" for i
      using that o(1) mem_inv_distinct [OF m, of i] by (auto simp: lv at)
    show "set (own (pcb_at t i)) \<subseteq> fst ` L'" if "live t i" for i
      using that o(2) subset_trans [OF sub h(2), of i] by (auto simp: lv at)
    have new: "set (own q) \<inter> set (own (pcb_at s i)) = {}" if "live s i" for i
      using o(3) sub [OF that] by blast
    show "set (own (pcb_at t i)) \<inter> set (own (pcb_at t j)) = {}" if "live t i" "live t j" "i \<noteq> j" for i j
      using that new [of i] new [of j] mem_inv_disjoint [OF m, of i j]
      by (cases "i = slot"; cases "j = slot") (auto simp: lv at)
  qed
qed

subsection \<open>The copied arguments\<close>

definition args_total :: "int \<Rightarrow> string option list \<Rightarrow> u64" where
  "args_total argc args = args_size (take (nat argc) args) (8 * of_nat (nat argc + 1))"

definition args_copied ::
  "addr \<Rightarrow> int \<Rightarrow> string option list \<Rightarrow> (addr \<Rightarrow> u64) \<times> (addr \<Rightarrow> char) \<Rightarrow> (addr \<Rightarrow> u64) \<times> (addr \<Rightarrow> char)" where
  "args_copied p argc args m =
     (let m' = copy_args p (take (nat argc) args) 0 (p + 8 * (nat argc + 1)) m
      in ((fst m')(p + 8 * nat argc := 0), snd m'))"

text \<open>The blocks and the contents of the memory after a call of \<open>copy_argv\<close>.\<close>

definition args_block ::
  "int \<Rightarrow> string option list option \<Rightarrow> ptr \<Rightarrow> (nat \<times> nat) set \<Rightarrow> (nat \<times> nat) set \<Rightarrow> bool" where
  "args_block argc argv av L L' \<longleftrightarrow>
     (case av of None \<Rightarrow> L' = L
      | Some p \<Rightarrow> argv \<noteq> None \<and> argc > 0 \<and> p \<notin> fst ` L \<and>
          (\<exists>sz. L' = insert (p, sz) L \<and>
             (ff_fits (args_total argc (the argv)) \<longrightarrow> unat (args_total argc (the argv)) \<le> sz)))"

definition args_memory ::
  "int \<Rightarrow> string option list option \<Rightarrow> ptr \<Rightarrow> (addr \<Rightarrow> u64) \<times> (addr \<Rightarrow> char) \<Rightarrow> (addr \<Rightarrow> u64) \<times> (addr \<Rightarrow> char)" where
  "args_memory argc argv av m = (case av of None \<Rightarrow> m | Some p \<Rightarrow> args_copied p argc (the argv) m)"

lemma copy_argv_ok:
  assumes "ff_live a e (heap s) L"
  shows "\<exists>r h w b. copy_argv argc argv s = Some (r, s\<lparr>heap := h, kwords := w, kbytes := b\<rparr>) \<and>
    (case r of None \<Rightarrow> ff_live a e h L
     | Some av \<Rightarrow> (\<exists>L'. ff_live a e h L' \<and> args_block argc argv av L L') \<and>
         (av = None \<longrightarrow> argv = None \<or> argc \<le> 0) \<and>
         (w, b) = args_memory argc argv av (kwords s, kbytes s))"
proof (cases "argv = None \<or> argc \<le> 0")
  case True
  then have "copy_argv argc argv s = Some (Some None, s\<lparr>heap := heap s, kwords := kwords s, kbytes := kbytes s\<rparr>)"
    by (auto simp: copy_argv_def split: option.split)
  then show ?thesis using assms True
    by (intro exI conjI) (assumption, simp add: args_block_def args_memory_def)
next
  case False
  then obtain args where a: "argv = Some args" "\<not> argc \<le> 0" by auto
  let ?t = "args_total argc args"
  from ff.alloc_ok [OF assms, of ?t True] obtain h r where
    h: "malloc_impl ?t True (heap s) = Some (h, r)" and
    r: "case r of None \<Rightarrow> ff_live a e h L
      | Some p \<Rightarrow> \<exists>sz. (ff_fits ?t \<longrightarrow> unat ?t \<le> sz) \<and> ff_live a e h (insert (p, sz) L) \<and> p \<notin> fst ` L" by blast
  have cv: "copy_argv argc argv s = (case r of None \<Rightarrow> Some (None, s\<lparr>heap := h\<rparr>)
      | Some p \<Rightarrow> (let m = args_copied p argc args (kwords s, kbytes s)
          in Some (Some (Some p), s\<lparr>heap := h, kwords := fst m, kbytes := snd m\<rparr>)))"
    using a h by (simp add: copy_argv_def args_copied_def Let_def mm_malloc_kernel_def args_total_def
      split: option.split)
  show ?thesis
  proof (cases r)
    case None
    then have "copy_argv argc argv s = Some (None, s\<lparr>heap := h, kwords := kwords s, kbytes := kbytes s\<rparr>)"
      by (simp add: cv)
    then show ?thesis using r None by (intro exI conjI) (assumption, simp)
  next
    case (Some p)
    then obtain sz where "ff_fits ?t \<longrightarrow> unat ?t \<le> sz" "ff_live a e h (insert (p, sz) L)" "p \<notin> fst ` L" using r by auto
    then have "\<exists>L'. ff_live a e h L' \<and> args_block argc argv (Some p) L L'"
      using a by (auto simp: args_block_def)
    then show ?thesis unfolding cv Some option.case Let_def
      by (intro exI conjI) (rule refl, simp add: args_memory_def a)
  qed
qed

text \<open>The bytes an argument takes in the pool.\<close>

definition asize :: "string option \<Rightarrow> nat" where
  "asize a = (case a of None \<Rightarrow> 0 | Some str \<Rightarrow> str_len (Some str) + 1)"

lemma args_size_eq: "args_size as tot = tot + of_nat (sum_list (map asize as))"
  by (induction as tot rule: args_size.induct) (auto simp: asize_def algebra_simps)

text \<open>Entry \<open>i\<close> of the pointer array at \<open>av\<close> denotes the argument \<open>a\<close>, stored in \<open>[lo, hi)\<close>.\<close>

definition arg_at :: "(addr \<Rightarrow> u64) \<Rightarrow> (addr \<Rightarrow> char) \<Rightarrow> addr \<Rightarrow> addr \<Rightarrow> addr \<Rightarrow> nat \<Rightarrow> string option \<Rightarrow> bool" where
  "arg_at w b av lo hi i a \<longleftrightarrow>
     (case a of
        None \<Rightarrow> w (av + 8 * i) = 0
      | Some str \<Rightarrow> \<exists>p. w (av + 8 * i) = of_nat p \<and> lo \<le> p \<and> p + length (cstr str) < hi \<and>
          (\<forall>j < length (cstr str). b (p + j) = cstr str ! j) \<and> b (p + length (cstr str)) = NUL)"

lemma copy_args_frame:
  "(\<forall>x. x < av + 8 * i \<or> av + 8 * (i + length as) \<le> x \<longrightarrow> fst (copy_args av as i pool m) x = fst m x) \<and>
   (\<forall>x. x < pool \<or> pool + sum_list (map asize as) \<le> x \<longrightarrow> snd (copy_args av as i pool m) x = snd m x)"
proof (induction av as i pool m rule: copy_args.induct)
  case (1 av i pool m)
  then show ?case by simp
next
  case (2 av a as i pool m)
  show ?case
  proof (cases a)
    case None
    with 2(1) [OF None] show ?thesis by (auto simp: asize_def)
  next
    case (Some str)
    with 2(2) [OF Some refl] show ?thesis by (auto simp: asize_def copy_bytes_def Let_def)
  qed
qed

lemma cget_cstr: "j < length (cstr str) \<Longrightarrow> cget str j = cstr str ! j"
  "cget str (length (cstr str)) = NUL"
  using nth_length_takeWhile [of "\<lambda>c. c \<noteq> NUL" str]
  by (auto simp: cget_def cstr_def takeWhile_nth dest: less_le_trans [OF _ length_takeWhile_le])

lemma arg_at_frame:
  "arg_at w b av lo hi i a \<Longrightarrow> w' (av + 8 * i) = w (av + 8 * i) \<Longrightarrow>
   (\<And>x. lo \<le> x \<Longrightarrow> x < hi \<Longrightarrow> b' x = b x) \<Longrightarrow> lo' \<le> lo \<Longrightarrow> hi \<le> hi' \<Longrightarrow> arg_at w' b' av lo' hi' i a"
  by (auto simp: arg_at_def split: option.splits)

lemma copy_args_at:
  "k < length as \<Longrightarrow>
   arg_at (fst (copy_args av as i pool m)) (snd (copy_args av as i pool m)) av pool
     (pool + sum_list (map asize as)) (i + k) (as ! k)"
proof (induction av as i pool m arbitrary: k rule: copy_args.induct)
  case (1 av i pool m)
  then show ?case by simp
next
  case (2 av a as i pool m)
  show ?case
  proof (cases k)
    case 0
    show ?thesis
    proof (cases a)
      case None
      then show ?thesis using copy_args_frame [of av "Suc i" as pool] by (simp add: arg_at_def 0)
    next
      case (Some str)
      let ?len = "str_len (Some str) + 1"
      let ?r = "copy_args av as (Suc i) (pool + ?len) ((fst m)(av + 8 * i := of_nat pool), copy_bytes pool str ?len (snd m))"
      have w: "fst ?r (av + 8 * i) = of_nat pool" using copy_args_frame [of av "Suc i" as "pool + ?len"] by simp
      have b: "snd ?r (pool + j) = cget str j" if "j < ?len" for j
        using copy_args_frame [of av "Suc i" as "pool + ?len"] that by (simp add: copy_bytes_def)
      have c: "copy_args av (a # as) i pool m = ?r" by (simp add: Some Let_def)
      show ?thesis unfolding c
        using w b by (auto simp: arg_at_def 0 Some asize_def cget_cstr str_len_Some intro!: exI [of _ pool])
    qed
  next
    case (Suc k')
    then have k': "k' < length as" using 2(3) by simp
    show ?thesis
    proof (cases a)
      case None
      from 2(1) [OF None k'] show ?thesis by (simp add: None Suc asize_def)
    next
      case (Some str)
      from 2(2) [OF Some refl k'] show ?thesis
        by (simp add: Some Suc Let_def asize_def) (erule arg_at_frame, simp_all)
    qed
  qed
qed

subsection \<open>Creation\<close>

text \<open>What a call of \<open>process_create\<close> may leave: semaphores, pipes, terminal and the current process are
  \<open>outside\<close>; a refusal changes no live process and no block,
  and of a slot that is not in use at most the field \<open>stack_base\<close>;
  otherwise a free slot holds the new process, on a stack block of its own and with its own
  argument block, and the slot stands in the run queue.\<close>

definition outside :: "'a kbdsys_scheme \<Rightarrow> 'a kbdsys_scheme \<Rightarrow> bool" where
  "outside s t \<longleftrightarrow> current_process t = current_process s \<and> idle_pcb t = idle_pcb s \<and> sem_table t = sem_table s \<and>
     pipe_table t = pipe_table s \<and> tty_part t = tty_part s"

lemma outside_same [simp]: "outside s s"
  by (simp add: outside_def)

lemma outside_sched [simp]:
  "outside s (scheduler_add i t) = outside s t" "outside s (scheduler_remove i t) = outside s t" "outside s (upd_pcb i f t) = outside s t"
  by (simp_all add: outside_def tty_part_def scheduler_add_def scheduler_remove_def upd_pcb_def Let_def split: option.split)

lemma outside_memory [simp]:
  fixes s t :: "'a ksys_scheme"
  shows "outside s (t\<lparr>heap := h\<rparr>) = outside s t" "outside s (t\<lparr>kwords := w\<rparr>) = outside s t"
    "outside s (t\<lparr>kbytes := b\<rparr>) = outside s t" "outside s (t\<lparr>next_pid := n\<rparr>) = outside s t"
    "outside s (t\<lparr>fd_table := ft\<rparr>) = outside s t"
  by (simp_all add: outside_def tty_part_def)

lemma fd_table_sched [simp]:
  "fd_table (upd_pcb i f s) = fd_table s" "fd_table (scheduler_add i s) = fd_table s" "fd_table (scheduler_remove i s) = fd_table s"
  by (simp_all add: upd_pcb_def scheduler_add_def scheduler_remove_def Let_def split: option.split)

definition refused :: "(nat \<times> nat) set \<Rightarrow> 'a ksys_scheme \<Rightarrow> 'a ksys_scheme \<Rightarrow> bool" where
  "refused L s t \<longleftrightarrow> next_pid t = next_pid s \<and> rq t = rq s \<and> (\<forall>i. live t i = live s i) \<and>
     (\<forall>i. live s i \<longrightarrow> pcb_at t i = pcb_at s i) \<and> (\<forall>i. \<exists>sb. pcb_at t i = (pcb_at s i)\<lparr>p_stack_base := sb\<rparr>) \<and>
     mem_inv L t \<and> outside s t \<and> fd_table t = fd_table s"

definition created :: "(nat \<times> nat) set \<Rightarrow> nat \<Rightarrow> pcb \<Rightarrow> 'a ksys_scheme \<Rightarrow> 'a ksys_scheme \<Rightarrow> bool" where
  "created L slot q s t \<longleftrightarrow> \<not> live s slot \<and> next_pid t = next_pid s + 1 \<and> pcb_at t slot = q \<and>
     process_get t (next_pid s + 1) = Some slot \<and> rq t = insert_desc (prio t) slot (rq s) \<and>
     (\<forall>i. live t i \<longleftrightarrow> i = slot \<or> live s i) \<and> (\<forall>i. i \<noteq> slot \<longrightarrow> pcb_at t i = pcb_at s i) \<and> mem_inv L t \<and>
     outside s t \<and> fd_table t = std_taken (fd_table s)"

definition stack_block :: "addr \<Rightarrow> (nat \<times> nat) set \<Rightarrow> (nat \<times> nat) set \<Rightarrow> bool" where
  "stack_block sb L L' \<longleftrightarrow> sb \<notin> fst ` L \<and> (\<exists>z\<ge>4096. L' = insert (sb, z) L)"

lemma refused_same: "mem_inv L s \<Longrightarrow> refused L s s"
proof -
  have "\<exists>sb. p = p\<lparr>p_stack_base := sb\<rparr>" for p :: pcb by (rule exI [of _ "p_stack_base p"]) simp
  then show "mem_inv L s \<Longrightarrow> refused L s s" by (simp add: refused_def)
qed

lemma refused_shape:
  assumes m: "mem_inv L s" and len: "slot < length (process_table s)" "\<not> live s slot" and h: "ff_live a e h L"
  shows "refused L s (upd_pcb slot (\<lambda>p. p\<lparr>p_stack_base := sb\<rparr>) s\<lparr>heap := h, kwords := w, kbytes := b\<rparr>)" (is "refused L s ?t")
proof -
  have at: "pcb_at ?t i = (if i = slot then (pcb_at s i)\<lparr>p_stack_base := sb\<rparr> else pcb_at s i)" for i
    using pcb_at_upd [OF len(1), of "\<lambda>p. p\<lparr>p_stack_base := sb\<rparr>" i] by (simp add: pcb_at_def)
  have lv: "live ?t i = live s i" for i
    using len by (cases "i = slot") (auto simp: live_def at)
  have eq: "pcb_at ?t i = pcb_at s i" if "live s i" for i using that len(2) by (auto simp: at)
  have "p = p\<lparr>p_stack_base := p_stack_base p\<rparr>" for p :: pcb by simp
  then have only: "\<exists>x. pcb_at ?t i = (pcb_at s i)\<lparr>p_stack_base := x\<rparr>" for i unfolding at by metis
  have "mem_inv L ?t"
    unfolding mem_inv_def
    using h mem_inv_distinct [OF m] mem_inv_owned [OF m] mem_inv_disjoint [OF m] by (auto simp: lv eq)
  then show ?thesis using only by (simp add: refused_def lv eq rq_def)
qed

lemma sched_inv_refused:
  assumes i: "sched_inv s" and len: "slot < length (process_table s)" "\<not> live s slot"
  shows "sched_inv (upd_pcb slot (\<lambda>p. p\<lparr>p_stack_base := sb\<rparr>) s\<lparr>heap := h, kwords := w, kbytes := b\<rparr>)"
    (is "sched_inv ?t")
proof -
  let ?u = "upd_pcb slot (\<lambda>p. p\<lparr>p_stack_base := sb\<rparr>) s"
  have "slot < MAX_PROCESSES" using len(1) sched_inv_length [OF i] by simp
  then have u: "sched_inv ?u"
    using i sched_inv_idle [OF i, of slot] table_inv_running [OF sched_inv_table [OF i], of slot] len
    by (intro sched_inv_upd_pcb) (auto simp: live_def)
  have "table_inv ?t" by (rule table_inv_cong [OF sched_inv_table [OF u]]) simp_all
  moreover have "queue_inv ?t"
    by (rule queue_inv_cong [OF sched_inv_queue [OF u]])
       (use queue_inv_idx [OF sched_inv_queue [OF u]] in \<open>auto simp: pcb_at_def\<close>)
  moreover have "live ?t = live ?u" "pcb_at ?t = pcb_at ?u" "rq ?t = rq ?u"
    by (simp_all add: live_def pcb_at_def rq_def fun_eq_iff)
  ultimately show ?thesis using u by (simp add: sched_inv_def)
qed

lemma fd_at_ksys [simp]:
  "fd_at (upd_pcb i f s) d = fd_at s d" "fd_at (s\<lparr>heap := h\<rparr>) d = fd_at s d"
  "fd_at (s'\<lparr>kwords := w\<rparr>) d = fd_at s' d" "fd_at (s'\<lparr>kbytes := b\<rparr>) d = fd_at s' d"
  for s :: "'a fdsys_scheme" and s' :: "'b ksys_scheme"
  by (simp_all add: fd_at_def upd_pcb_def)

lemma kmem_upd_pcb [simp]:
  "kwords (upd_pcb i f s) = kwords s" "kbytes (upd_pcb i f s) = kbytes s" "trampoline (upd_pcb i f s) = trampoline s"
  by (simp_all add: upd_pcb_def)

lemma kmem_scheduler [simp]:
  "kwords (scheduler_add p s) = kwords s" "kbytes (scheduler_add p s) = kbytes s"
  "kwords (scheduler_remove p s) = kwords s" "kbytes (scheduler_remove p s) = kbytes s"
  by (simp_all add: scheduler_add_def scheduler_remove_def Let_def split: option.splits)

lemma build_sp: "fst (build_initial_stack tp tr argc av m) = tp - 160"
  by (simp add: build_initial_stack_def push_word_def)

definition placed_pcb ::
  "string option \<Rightarrow> u64 \<Rightarrow> int \<Rightarrow> ptr \<Rightarrow> u8 \<Rightarrow> 'a psys_scheme \<Rightarrow> addr \<Rightarrow> pcb \<Rightarrow> pcb" where
  "placed_pcb name entry argc av fg s sb p =
     new_pcb name entry argc av fg (next_pid s + 1) (parent_of_new s) (sb + 3936) (p\<lparr>p_stack_base := Some sb\<rparr>)"

lemma process_fill_ok:
  fixes s :: "'a ksys_scheme" and w :: "addr \<Rightarrow> u64" and b :: "addr \<Rightarrow> char"
  assumes i: "sched_inv s" and m: "mem_inv L s" and fd: "std_fds s"
    and cur: "\<forall>c. current_process s = Some c \<longrightarrow> live s c" and nw: "next_pid s + 1 \<noteq> 0"
    and sl: "slot < length (process_table s)" "\<not> live s slot"
    and L2: "ff_live a e h2 L2" "args_block argc argv av (insert (sb, z) L) L2" and sb: "sb \<notin> fst ` L"
  defines "s2 \<equiv> upd_pcb slot (\<lambda>p. p\<lparr>p_stack_base := Some sb\<rparr>) s\<lparr>heap := h2, kwords := w, kbytes := b\<rparr>"
  shows "\<exists>t. process_fill slot name entry argc av fg s2 = (int_of_pid (next_pid s + 1), t) \<and> sched_inv t \<and>
    kwords t = snd (build_initial_stack (sb + STACK_SIZE) (trampoline s) argc av w) \<and> kbytes t = b \<and>
    created L2 slot (placed_pcb name entry argc av fg s sb (pcb_at s slot)) s t"
proof -
  note len = sched_inv_length [OF i]
  let ?q = "placed_pcb name entry argc av fg s sb (pcb_at s slot)"
  let ?new = "new_pcb name entry argc av fg (next_pid s + 1) (parent_of_new s) (sb + 3936)"
  let ?m = "snd (build_initial_stack (sb + STACK_SIZE) (trampoline s) argc av w)"
  have at2: "pcb_at s2 k = (if k = slot then (pcb_at s k)\<lparr>p_stack_base := Some sb\<rparr> else pcb_at s k)" for k
    using pcb_at_upd [OF sl(1), of "\<lambda>p. p\<lparr>p_stack_base := Some sb\<rparr>" k] by (simp add: s2_def pcb_at_def)
  have kw2: "kwords s2 = w" "trampoline s2 = trampoline s" by (simp_all add: s2_def)
  have bs: "build_initial_stack (ptr_addr (p_stack_base (pcb_at s2 slot)) + STACK_SIZE) (trampoline s2)
      argc av (kwords s2) = (sb + 3936, ?m)"
    using build_sp [of "sb + STACK_SIZE" "trampoline s" argc av w]
    by (simp add: at2 kw2 ptr_addr_def prod_eq_iff)
  have sel: "current_process s2 = current_process s" "next_pid s2 = next_pid s" "slot < length (process_table s2)"
    using sl(1) by (simp_all add: s2_def)
  have fd2: "std_fds s2" using fd by (simp add: s2_def std_fds_def upd_pcb_def fd_at_def)
  have cs2: "current_process s2 \<noteq> Some slot" using cur sl(2) sel(1) by auto
  have par: "parent_of_new s2 = parent_of_new s"
    using cur sl(2) by (auto simp: parent_of_new_def sel at2 split: option.split)
  have fill: "process_fill slot name entry argc av fg s2 =
      (int_of_pid (next_pid s + 1), scheduler_add slot (upd_pcb slot ?new
         (s2\<lparr>kwords := ?m, next_pid := next_pid s + 1, fd_table := std_taken (fd_table s2)\<rparr>)))"
    using process_fill_shape [OF sel(3) fd2 cs2 bs, of name entry fg] unfolding par sel(2) .
  define t0 where "t0 = upd_pcb slot ?new (s2\<lparr>kwords := ?m, next_pid := next_pid s + 1, fd_table := std_taken (fd_table s2)\<rparr>)"
  have out: "outside s t0" "fd_table t0 = std_taken (fd_table s)" by (simp_all add: t0_def s2_def)
  have q: "?new ((pcb_at s slot)\<lparr>p_stack_base := Some sb\<rparr>) = ?q" by (simp add: placed_pcb_def)
  have "process_table t0 = (process_table s)[slot := ?q]"
    using sl(1) unfolding q [symmetric] by (simp add: t0_def s2_def upd_pcb_def modify_def pcb_at_def)
  then have en: "enters slot ?q s t0"
    using sl len by (simp add: enters_def placed_pcb_def new_pcb_def t0_def s2_def)
  have t0: "heap t0 = h2" "kwords t0 = ?m" "kbytes t0 = b" "next_pid t0 = next_pid s + 1"
    by (simp_all add: t0_def s2_def)
  note se = sched_inv_enters [OF i en nw]
  have "fst ` L \<subseteq> fst ` L2" using L2(2) by (cases av) (auto simp: args_block_def)
  then have "mem_inv L2 t0"
    using mem_inv_enters [OF m en len, of a e L2] L2 sb
    by (cases av) (auto simp: t0 args_block_def own_def placed_pcb_def new_pcb_def)
  then have mt: "mem_inv L2 (scheduler_add slot t0)" by (rule mem_inv_cong) simp_all
  have "process_get (scheduler_add slot t0) (p_pid (pcb_at (scheduler_add slot t0) slot)) = Some slot"
    by (rule table_inv_get [OF sched_inv_table [OF se(1)]]) (simp add: enters_live [OF en len])
  moreover have "p_pid ?q = next_pid s + 1" by (simp add: placed_pcb_def new_pcb_def)
  ultimately have "created L2 slot ?q s (scheduler_add slot t0)"
    using sl(2) mt se(2) out by (simp add: created_def enters_live [OF en len] enters_pcb [OF en len] t0)
  then show ?thesis using fill se(1) by (simp add: t0_def [symmetric] t0)
qed

lemma process_create_ok:
  assumes i: "sched_inv s" and m: "mem_inv L s" and fd: "std_fds s"
    and cur: "\<forall>c. current_process s = Some c \<longrightarrow> live s c" and nw: "next_pid s + 1 \<noteq> 0"
  shows "\<exists>r t. process_create name entry argc argv fg s = Some (r, t) \<and> sched_inv t \<and>
    (r = -1 \<and> refused L s t \<or>
     (\<exists>slot sb av L1 L2 m. r = int_of_pid (next_pid s + 1) \<and> stack_block sb L L1 \<and> args_block argc argv av L1 L2 \<and>
        (av = None \<longrightarrow> argv = None \<or> argc \<le> 0) \<and>
        m = args_memory argc argv av (kwords s, kbytes s) \<and>
        kwords t = snd (build_initial_stack (sb + STACK_SIZE) (trampoline s) argc av (fst m)) \<and> kbytes t = snd m \<and>
        created L2 slot (placed_pcb name entry argc av fg s sb (pcb_at s slot)) s t))"
proof -
  note len = sched_inv_length [OF i]
  obtain a e where hl: "ff_live a e (heap s) L" using mem_inv_heap [OF m] by blast
  have kw: "s\<lparr>kwords := kwords s, kbytes := kbytes s\<rparr> = s" by simp
  show ?thesis
  proof (cases "first_idx (\<lambda>p. p_state p = PROCESS_FREE) (process_table s)")
    case None
    then have "process_create name entry argc argv fg s = Some (-1, s)" by (simp only: process_create_def option.case)
    moreover have "refused L s s" by (rule refused_same [OF m])
    ultimately show ?thesis using i by blast
  next
    case (Some slot)
    then have sl: "slot < length (process_table s)" "p_state (pcb_at s slot) = PROCESS_FREE"
      by (auto simp: pcb_at_def dest: first_idx_SomeD)
    then have nl: "\<not> live s slot" by (simp add: live_def)
    from ff.alloc_ok [OF hl, of "of_nat STACK_SIZE" True] obtain h1 sb0 where
      h1: "mm_malloc_kernel (of_nat STACK_SIZE) (heap s) = Some (h1, sb0)" and
      r1: "case sb0 of None \<Rightarrow> ff_live a e h1 L
        | Some p \<Rightarrow> \<exists>sz. (ff_fits (of_nat STACK_SIZE) \<longrightarrow> unat (of_nat STACK_SIZE :: u64) \<le> sz) \<and>
            ff_live a e h1 (insert (p, sz) L) \<and> p \<notin> fst ` L"
      by (auto simp: mm_malloc_kernel_def)
    let ?s1 = "upd_pcb slot (\<lambda>p. p\<lparr>p_stack_base := sb0\<rparr>) (s\<lparr>heap := h1\<rparr>)"
    show ?thesis
    proof (cases sb0)
      case None
      have "process_create name entry argc argv fg s = Some (-1, ?s1)"
        unfolding process_create_def Some option.case h1 by (simp add: None)
      moreover have "?s1 = upd_pcb slot (\<lambda>p. p\<lparr>p_stack_base := sb0\<rparr>) s
          \<lparr>heap := h1, kwords := kwords s, kbytes := kbytes s\<rparr>" by (simp add: upd_pcb_def)
      moreover have "refused L s (upd_pcb slot (\<lambda>p. p\<lparr>p_stack_base := sb0\<rparr>) s
          \<lparr>heap := h1, kwords := kwords s, kbytes := kbytes s\<rparr>)"
        by (rule refused_shape [OF m sl(1) nl]) (use r1 None in simp)
      ultimately show ?thesis using sched_inv_refused [OF i sl(1) nl] by metis
    next
      case (Some sb)
      have fits: "ff_fits (of_nat STACK_SIZE)" by (simp add: ff_fits_def)
      obtain z where z: "4096 \<le> z" "ff_live a e h1 (insert (sb, z) L)" "sb \<notin> fst ` L" using r1 fits Some by auto
      let ?L1 = "insert (sb, z) L"
      have hs1: "heap ?s1 = h1" by simp
      from copy_argv_ok [of a e ?s1 ?L1 argc argv] z(2) obtain r h2 w b where
        cv: "copy_argv argc argv ?s1 = Some (r, ?s1\<lparr>heap := h2, kwords := w, kbytes := b\<rparr>)" and
        cr: "case r of None \<Rightarrow> ff_live a e h2 ?L1
         | Some av \<Rightarrow> (\<exists>L'. ff_live a e h2 L' \<and> args_block argc argv av ?L1 L') \<and>
             (av = None \<longrightarrow> argv = None \<or> argc \<le> 0) \<and>
             (w, b) = args_memory argc argv av (kwords ?s1, kbytes ?s1)" by auto
      let ?s2 = "?s1\<lparr>heap := h2, kwords := w, kbytes := b\<rparr>"
      have s2eq: "?s2\<lparr>heap := h\<rparr> = upd_pcb slot (\<lambda>p. p\<lparr>p_stack_base := sb0\<rparr>) s\<lparr>heap := h, kwords := w, kbytes := b\<rparr>" for h
        by (simp add: upd_pcb_def)
      have at2: "p_stack_base (pcb_at ?s2 slot) = Some sb" using sl(1) Some by (simp add: pcb_at_def upd_pcb_def)
      have step: "process_create name entry argc argv fg s = (case r of
          None \<Rightarrow> map_option (\<lambda>s3. (-1, s3)) (kfree (Some sb) ?s2)
        | Some av \<Rightarrow> Some (process_fill slot name entry argc av fg ?s2))"
        unfolding process_create_def \<open>first_idx _ _ = _\<close> option.case h1
        using cv at2 by (cases r) (simp_all add: Some Let_def)
      show ?thesis
      proof (cases r)
        case None
        have "ff_live a e h2 ?L1" using cr None by simp
        from free_live_block [OF this, of sb] obtain h3 where
          h3: "mm_free (Some sb) h2 = Some h3" "ff_live a e h3 (drop_blocks {sb} ?L1)" by auto
        have "drop_blocks {sb} ?L1 = L" using z(3) by (force simp: drop_blocks_def)
        then have l3: "ff_live a e h3 L" using h3(2) by simp
        let ?t = "upd_pcb slot (\<lambda>p. p\<lparr>p_stack_base := sb0\<rparr>) s\<lparr>heap := h3, kwords := w, kbytes := b\<rparr>"
        have "process_create name entry argc argv fg s = Some (-1, ?t)"
          using step h3(1) by (simp add: None kfree_def s2eq [of h3, symmetric])
        moreover have "refused L s ?t" by (rule refused_shape [OF m sl(1) nl l3])
        ultimately show ?thesis using sched_inv_refused [OF i sl(1) nl] by blast
      next
        case (Some av)
        then obtain L2 where L2: "ff_live a e h2 L2" "args_block argc argv av ?L1 L2"
          and noargs: "av = None \<longrightarrow> argv = None \<or> argc \<le> 0"
          and wb: "(w, b) = args_memory argc argv av (kwords s, kbytes s)" using cr by auto
        have s2: "?s2 = upd_pcb slot (\<lambda>p. p\<lparr>p_stack_base := Some sb\<rparr>) s\<lparr>heap := h2, kwords := w, kbytes := b\<rparr>"
          by (simp add: \<open>sb0 = Some sb\<close>)
        have "stack_block sb L ?L1" using z by (auto simp: stack_block_def)
        moreover obtain t where "process_fill slot name entry argc av fg ?s2 = (int_of_pid (next_pid s + 1), t)"
            "sched_inv t" "kwords t = snd (build_initial_stack (sb + STACK_SIZE) (trampoline s) argc av w)"
            "kbytes t = b" "created L2 slot (placed_pcb name entry argc av fg s sb (pcb_at s slot)) s t"
          using process_fill_ok [OF i m fd cur nw sl(1) nl L2 z(3)] unfolding s2 by blast
        ultimately show ?thesis using step Some L2(2) noargs wb by (simp only: option.case) (metis fst_conv snd_conv)
      qed
    qed
  qed
qed

end
