(* ===== verification/Process_End.thy ===== *)
theory Process_End
  imports Process_Lemmas Pipe_Props
begin

text \<open>
  The end of a process: what the clean-ups of \<open>process_exit\<close> and \<open>process_kill\<close> leave alone. A
  process that waits for neither a semaphore nor a pipe is not touched by them (\<open>off_sems\<close>,
  \<open>off_pipes\<close>); nobody changes its PID, its priority or its blocks (\<open>tidied\<close>), so that the
  invariants of the scheduler and of the heap hold after them.
\<close>

subsection \<open>Processes that wait for neither a semaphore nor a pipe\<close>

definition unqueued :: "u64 \<Rightarrow> Pipe \<Rightarrow> bool" where
  "unqueued k p \<longleftrightarrow> pidq_wf (pp_readers p) \<and> pidq_wf (pp_writers p) \<and>
     k \<notin> set (items (pp_readers p)) \<and> k \<notin> set (items (pp_writers p))"

definition off_pipes :: "u64 \<Rightarrow> 'a pipesys_scheme \<Rightarrow> bool" where
  "off_pipes k s \<longleftrightarrow> (\<forall>p\<in>set (pipe_table s). unqueued k p)"

definition off_sems :: "u64 \<Rightarrow> 'a semsys_scheme \<Rightarrow> bool" where
  "off_sems k s \<longleftrightarrow> (\<forall>i<MAX_SEMS. 0 < sm_open (sem_at s i) \<longrightarrow> k \<notin> set (items (sm_wait (sem_at s i))))"

lemma pcb_at_upd_other: "q \<noteq> p \<Longrightarrow> pcb_at (upd_pcb p f s) q = pcb_at s q"
  by (simp add: pcb_at_def upd_pcb_def)

lemma unblock_other:
  "p_pid (pcb_at s q) \<noteq> j \<Longrightarrow> pcb_at (process_unblock j s) q = pcb_at s q"
  using process_get_Some [of s j] live_less [of s]
  by (auto simp: process_unblock_def Let_def pcb_at_upd split: option.split)

lemma fold_unblock_other:
  "p_pid (pcb_at s q) \<notin> set js \<Longrightarrow> pcb_at (fold process_unblock js s) q = pcb_at s q"
  by (induction js arbitrary: s) (auto simp: unblock_other)

lemma pidq_wf_emptied: "pidq_wf q \<Longrightarrow> pidq_wf (q\<lparr>q_head := 0, q_tail := 0, q_count := 0\<rparr>)"
  by (rule pidq_wf_reset) (simp add: pidq_wf_def)

lemma unqueued_close_read:
  "unqueued k p \<Longrightarrow> unqueued k (fst (pipe_close_read1 p s)) \<and>
   (\<exists>js. k \<notin> set js \<and> snd (pipe_close_read1 p s) = fold process_unblock js s)"
  using popped_all [of "pp_writers p"]
  by (auto simp: unqueued_def pipe_close_read1_def Let_def wake_all_writers pipe_maybe_free_def pipe_reset_def
      pidq_wf_emptied intro: exI [of _ "[]"])

lemma unqueued_close_write:
  "unqueued k p \<Longrightarrow> unqueued k (fst (pipe_close_write1 p s)) \<and>
   (\<exists>js. k \<notin> set js \<and> snd (pipe_close_write1 p s) = fold process_unblock js s)"
  using popped_all [of "pp_readers p"]
  by (auto simp: unqueued_def pipe_close_write1_def Let_def wake_all_readers pipe_maybe_free_def pipe_reset_def
      pidq_wf_emptied intro: exI [of _ "[]"])

lemma on_pipe_off:
  fixes s :: "'a pipesys_scheme"
  assumes f: "\<And>p (s :: 'a pipesys_scheme). unqueued k p \<Longrightarrow> unqueued k (fst (f p s)) \<and>
      (\<exists>js. k \<notin> set js \<and> snd (f p s) = fold process_unblock js s)"
    and s: "off_pipes k s" "i < length (pipe_table s)"
  shows "off_pipes k (on_pipe f (Some i) s) \<and> benign s (on_pipe f (Some i) s) \<and>
    (\<forall>q. p_pid (pcb_at s q) = k \<longrightarrow> pcb_at (on_pipe f (Some i) s) q = pcb_at s q)"
proof -
  have "unqueued k (pipe_at s i)" using s by (simp add: off_pipes_def pipe_at_def)
  from f [OF this] obtain js where js: "unqueued k (fst (f (pipe_at s i) s))" "k \<notin> set js"
    "snd (f (pipe_at s i) s) = fold process_unblock js s" by blast
  have eq: "on_pipe f (Some i) s = set_pipe i (fst (f (pipe_at s i) s)) (fold process_unblock js s)"
    using js(3) by (simp add: on_pipe_def case_prod_beta)
  have "pipe_table (fold process_unblock js s) = pipe_table s"
    by (induction js arbitrary: s) (simp_all add: pipes_psys.fr_unblock)
  then have "off_pipes k (set_pipe i (fst (f (pipe_at s i) s)) (fold process_unblock js s))"
    using s(1) js(1) unfolding off_pipes_def set_pipe_def
    by (auto dest!: set_update_subset_insert [THEN subsetD])
  moreover have "benign s (set_pipe i (fst (f (pipe_at s i) s)) (fold process_unblock js s))"
    using fold_benign [of s js] by (simp add: set_pipe_def benign_def)
  moreover have "pcb_at (set_pipe i (fst (f (pipe_at s i) s)) (fold process_unblock js s)) q = pcb_at s q"
    if "p_pid (pcb_at s q) = k" for q
    using fold_unblock_other [of s q js] that js(2) by (simp add: set_pipe_def pcb_at_def)
  ultimately show ?thesis unfolding eq by blast
qed

lemma fd_decref_off:
  assumes i: "fd_inv s" and o: "off_pipes k s"
  shows "off_pipes k (fd_decref fd s) \<and> benign s (fd_decref fd s) \<and>
    (\<forall>q. p_pid (pcb_at s q) = k \<longrightarrow> pcb_at (fd_decref fd s) q = pcb_at s q)"
proof (cases "fd_get fd s")
  case None
  then show ?thesis using o by (simp add: fd_decref_def)
next
  case (Some d)
  have upd: "off_pipes k (upd_fd e g t) = off_pipes k t" "benign s (upd_fd e g t) = benign s t"
    "pcb_at (upd_fd e g t) = pcb_at t" for e g and t :: "'a fdsys_scheme"
    by (simp_all add: off_pipes_def upd_fd_def benign_def pcb_at_def fun_eq_iff)
  let ?t = "upd_fd d (\<lambda>e. e\<lparr>fd_refcount := fd_refcount e - 1\<rparr>) s"
  let ?P = "\<lambda>t. off_pipes k t \<and> benign s t \<and> (\<forall>q. p_pid (pcb_at s q) = k \<longrightarrow> pcb_at t q = pcb_at s q)"
  have Pt: "?P ?t" "?P s" using o by (simp_all add: upd)
  have d: "d < length (fd_table s)" using Some i by (auto simp: fd_get_def fd_inv_def split: if_splits)
  have dat: "fd_type (fd_at ?t d) = fd_type (fd_at s d)" "fd_data (fd_at ?t d) = fd_data (fd_at s d)"
    using d by (simp_all add: fd_at_upd)
  have idx: "\<exists>j < length (pipe_table ?t). fd_data (fd_at ?t d) = Some j"
    if "fd_type (fd_at ?t d) = FD_PIPE_READ \<or> fd_type (fd_at ?t d) = FD_PIPE_WRITE"
    using that i d unfolding dat by (auto simp: fd_inv_def is_end_def fd_at_def upd_fd_def)
  have cr: "?P (pipe_close_read (fd_data (fd_at ?t d)) ?t)" if "fd_type (fd_at ?t d) = FD_PIPE_READ"
    using idx that on_pipe_off [of k pipe_close_read1 ?t, OF unqueued_close_read] Pt(1) unfolding pipe_close_read_def
    by (auto intro: benign_trans)
  have cw: "?P (pipe_close_write (fd_data (fd_at ?t d)) ?t)" if "fd_type (fd_at ?t d) = FD_PIPE_WRITE"
    using idx that on_pipe_off [of k pipe_close_write1 ?t, OF unqueued_close_write] Pt(1) unfolding pipe_close_write_def
    by (auto intro: benign_trans)
  show ?thesis unfolding fd_decref_def Some option.case Let_def
    using Pt cr cw by (auto simp: upd)
qed

lemma hand_over_apart:
  assumes "p_pid (pcb_at s q) \<noteq> j" shows "pcb_at (hand_over i j s) q = pcb_at s q"
proof (cases "process_get s j")
  case None
  then show ?thesis using assms by (simp add: hand_over_def unblock_other)
next
  case (Some c)
  then have "c < length (process_table s)" "c \<noteq> q" using process_get_Some [OF Some] live_less assms by auto
  then have "pcb_at (upd_pcb c (set_held i) s) q = pcb_at s q" by (simp add: pcb_at_upd)
  with Some assms show ?thesis by (simp add: hand_over_def unblock_other)
qed

lemma cleaned_apart:
  assumes w: "pidq_wf (sm_wait (sem_at s i))" and p: "p < length (process_table s)" "q \<noteq> p"
    and k: "p_pid (pcb_at s q) \<notin> set (items (sm_wait (sem_at s i)))"
  shows "pcb_at (cleaned p pid i s) q = pcb_at s q"
proof -
  have g: "pcb_at (upd_pcb p f (upd_sem i h s)) q = pcb_at s q" for f h
    using p pcb_at_upd [of p "upd_sem i h s" f q] by simp
  have hd: "p_pid (pcb_at s q) \<noteq> fst (queue_pop (sm_wait (sem_at s i)))" if "0 < q_count (sm_wait (sem_at s i))"
  proof -
    have "items (sm_wait (sem_at s i)) \<noteq> []" using that by (simp add: items_eq_Nil)
    then show ?thesis using queue_pop(2) [OF w that] k hd_in_set by metis
  qed
  show ?thesis using hd by (simp add: cleaned_def Let_def g hand_over_apart)
qed

lemma cleanup_loop_apart:
  "sem_inv s \<Longrightarrow> live s p \<Longrightarrow> live s q \<Longrightarrow> q \<noteq> p \<Longrightarrow> \<forall>i\<in>set is. i < MAX_SEMS \<Longrightarrow> distinct is \<Longrightarrow>
   \<forall>i\<in>set is. 0 < sm_open (sem_at s i) \<longrightarrow> p_pid (pcb_at s q) \<notin> set (items (sm_wait (sem_at s i))) \<Longrightarrow>
   sem_cleanup_loop p pid is s = Some t \<Longrightarrow> pcb_at t q = pcb_at s q"
proof (induction "is" arbitrary: s)
  case (Cons i js)
  have i: "i < MAX_SEMS" "i \<notin> set js" using Cons.prems by auto
  show ?case
  proof (cases "0 < sm_open (sem_at s i)")
    case True
    let ?c = "cleaned p pid i s"
    note ok = cleaned_ok [OF Cons.prems(1,2) i(1) True, where pid = pid]
    have il: "i < length (sem_table s)" using Cons.prems(1) i(1) by (simp add: sem_inv_def)
    have sl: "sm_lock (sem_at s i) = UNLOCKED" "pidq_wf (sm_wait (sem_at s i))"
      using sem_inv_slot [OF Cons.prems(1) il] by (simp_all add: slot_ok_def)
    have st: "sem_cleanup_step p pid i s = Some ?c"
      by (rule sem_cleanup_step_eq [OF live_less [OF Cons.prems(2)] il True sl])
    have same: "pcb_at ?c q = pcb_at s q"
      by (rule cleaned_apart [OF sl(2) live_less [OF Cons.prems(2)] Cons.prems(4)]) (use Cons.prems(7) True in auto)
    have "pcb_at t q = pcb_at ?c q"
    proof (rule Cons.IH [OF ok(1)])
      show "live ?c p" "live ?c q" using benign_live [OF ok(2)] Cons.prems(2,3) by auto
      show "\<forall>j\<in>set js. 0 < sm_open (sem_at ?c j) \<longrightarrow> p_pid (pcb_at ?c q) \<notin> set (items (sm_wait (sem_at ?c j)))"
        using Cons.prems(7) ok(3) i(2) unfolding same by (metis list.set_intros(2))
    qed (use Cons.prems st in auto)
    then show ?thesis using same by simp
  next
    case False
    then have "sem_cleanup_step p pid i s = Some s" by (simp add: sem_cleanup_step_def)
    with Cons show ?thesis by simp
  qed
qed simp

lemma sem_cleanup_apart:
  assumes s: "sem_inv s" and g: "process_get s pid = Some p" and q: "live s q" "q \<noteq> p"
    and o: "off_sems (p_pid (pcb_at s q)) s" and t: "sem_cleanup_for_process pid s = Some t"
  shows "pcb_at t q = pcb_at s q"
proof -
  have lp: "live s p" using process_get_Some [OF g] by simp
  from t g obtain u where u: "sem_cleanup_loop p pid [0..<MAX_SEMS] s = Some u"
    "t = upd_pcb p (\<lambda>x. x\<lparr>p_held_sems := 0, p_opened_sems := 0\<rparr>) u" by (auto simp: sem_cleanup_for_process_def)
  have "pcb_at u q = pcb_at s q"
    by (rule cleanup_loop_apart [OF s lp q _ _ _ u(1)]) (use o in \<open>simp_all add: off_sems_def\<close>)
  moreover have "pcb_at t q = pcb_at u q" using q(2) unfolding u(2) by (rule pcb_at_upd_other)
  ultimately show ?thesis by simp
qed
subsection \<open>Changes the scheduler does not notice\<close>

definition pcb_sim :: "pcb \<Rightarrow> pcb \<Rightarrow> bool" where
  "pcb_sim p q \<longleftrightarrow> p_pid q = p_pid p \<and> p_priority q = p_priority p \<and> own q = own p \<and> p_rsp q = p_rsp p \<and>
     p_parent_pid q = p_parent_pid p \<and> p_waiting_for q = p_waiting_for p \<and> p_retval q = p_retval p \<and> state_le (p_state p) (p_state q)"

definition tidied :: "'a ssys_scheme \<Rightarrow> 'b ssys_scheme \<Rightarrow> bool" where
  "tidied s t \<longleftrightarrow> sched_part t = sched_part s \<and> next_pid t = next_pid s \<and> current_process t = current_process s \<and>
     list_all2 pcb_sim (process_table s) (process_table t)"

lemma pcb_sim_le: "pcb_le p q \<Longrightarrow> pcb_sim p q"
  by (simp add: pcb_le_def pcb_key_def pcb_sim_def own_def)

lemma pcb_sim_trans: "pcb_sim p q \<Longrightarrow> pcb_sim q r \<Longrightarrow> pcb_sim p r"
  using state_le_trans [of "p_state p" "p_state q" "p_state r"] by (simp add: pcb_sim_def)

lemma tidied_benign: "benign s t \<Longrightarrow> sched_part t = sched_part s \<Longrightarrow> tidied s t"
  by (auto simp: tidied_def benign_def elim: list_all2_mono pcb_sim_le)

lemma tidied_trans [trans]: "tidied s t \<Longrightarrow> tidied t u \<Longrightarrow> tidied s u"
proof -
  assume st: "tidied s t" and tu: "tidied t u"
  have "list_all2 pcb_sim (process_table s) (process_table u)"
    by (rule list_all2_trans [OF pcb_sim_trans]) (use st tu in \<open>auto simp: tidied_def\<close>)
  with st tu show ?thesis by (simp add: tidied_def)
qed

lemma tidied_upd_pcb: "(\<And>p. pcb_sim p (f p)) \<Longrightarrow> tidied s (upd_pcb i f s)"
  by (auto simp: tidied_def sched_part_def upd_pcb_def list_all2_conv_all_nth nth_modify pcb_sim_def)

lemma tidied_pcb: "tidied s t \<Longrightarrow> i < length (process_table s) \<Longrightarrow> pcb_sim (pcb_at s i) (pcb_at t i)"
  by (auto simp: tidied_def pcb_at_def list_all2_conv_all_nth)

lemma tidied_length: "tidied s t \<Longrightarrow> length (process_table t) = length (process_table s)"
  by (auto simp: tidied_def dest: list_all2_lengthD)

lemma pcb_sim_free: "pcb_sim p q \<Longrightarrow> p_state q = PROCESS_FREE \<longleftrightarrow> p_state p = PROCESS_FREE"
  "pcb_sim p q \<Longrightarrow> p_state q = PROCESS_ZOMBIE \<longleftrightarrow> p_state p = PROCESS_ZOMBIE"
  "pcb_sim p q \<Longrightarrow> p_state q = PROCESS_RUNNING \<Longrightarrow> p_state p = PROCESS_RUNNING"
  by (auto simp: pcb_sim_def state_le_def)

lemma tidied_live: "tidied s t \<Longrightarrow> live t i \<longleftrightarrow> live s i"
  using tidied_pcb [of s t i] tidied_length [of s t] by (auto simp: live_def pcb_sim_free)

lemma tidied_get: "tidied s t \<Longrightarrow> process_get t k = process_get s k"
proof -
  assume b: "tidied s t"
  have "list_all2 (\<lambda>p q. (p_pid p = k \<and> p_state p \<noteq> PROCESS_FREE) = (p_pid q = k \<and> p_state q \<noteq> PROCESS_FREE))
      (process_table s) (process_table t)"
    using b unfolding tidied_def by (auto elim!: list_all2_mono simp: pcb_sim_free(1)) (simp_all add: pcb_sim_def)
  then show ?thesis by (simp add: process_get_def first_idx_cong2)
qed

lemma tidied_sched_inv:
  assumes i: "sched_inv s" and d: "tidied s t"
  shows "sched_inv t"
proof -
  have ti: "table_inv s" by (rule sched_inv_table [OF i])
  note len = table_inv_length [OF ti]
  have sim: "pcb_sim (pcb_at s k) (pcb_at t k)" if "k < MAX_PROCESSES" for k using tidied_pcb [OF d] that len by simp
  have lk: "k < MAX_PROCESSES" if "live s k" for k using that len by (simp add: live_def)
  have pid: "p_pid (pcb_at t k) = p_pid (pcb_at s k)" if "live s k" for k using sim [OF lk [OF that]] by (simp add: pcb_sim_def)
  have sp: "run_queue t = run_queue s" "queue_size t = queue_size s" "queue_idx t = queue_idx s" "idle_pcb t = idle_pcb s"
    "next_pid t = next_pid s" "current_process t = current_process s"
    using d by (simp_all add: tidied_def sched_part_def)
  have rqt: "rq t = rq s" by (simp add: rq_def sp)
  have "table_inv t"
  proof (rule table_invI)
    show "length (process_table t) = MAX_PROCESSES" using len tidied_length [OF d] by simp
    show "pids_unique t" using table_inv_unique [OF ti] pid by (simp add: pids_unique_def tidied_live [OF d])
    show "p_pid (pcb_at t k) \<noteq> 0 \<and> p_pid (pcb_at t k) \<le> next_pid t" if "live t k" for k
      using that table_inv_pid [OF ti, of k] pid [of k] by (simp add: tidied_live [OF d] sp)
    show "k < MAX_PROCESSES" if "current_process t = Some k" for k using that table_inv_current [OF ti] by (simp add: sp)
    show "current_process t = Some k" if "k < MAX_PROCESSES" "p_state (pcb_at t k) = PROCESS_RUNNING" for k
      using table_inv_running [OF ti that(1)] pcb_sim_free(3) [OF sim that(2)] that(1) by (simp add: sp)
  qed
  moreover have "queue_inv t"
  proof (rule queue_inv_cong [OF sched_inv_queue [OF i]])
    show "prio t r = prio s r" if "r \<in> set (rq s)" for r
      using sim [OF lk [OF sched_inv_live [OF i that]]] by (simp add: pcb_sim_def)
  qed (use queue_inv_idx [OF sched_inv_queue [OF i]] in \<open>auto simp: sp\<close>)
  moreover have "live t k \<and> p_state (pcb_at t k) \<noteq> PROCESS_ZOMBIE" if "idle_pcb t = Some k" for k
    using sched_inv_idle [OF i, of k] that pcb_sim_free(2) [OF sim [OF lk]] by (auto simp: sp tidied_live [OF d])
  ultimately show ?thesis using sched_inv_live [OF i] by (simp add: sched_inv_def rqt tidied_live [OF d])
qed

lemma tidied_mem_inv:
  assumes "mem_inv L s" "tidied s t"
  shows "mem_inv L t"
proof (rule mem_inv_cong [OF assms(1)])
  show "heap t = heap s" using assms(2) by (simp add: tidied_def sched_part_def)
  show "live s i \<and> own (pcb_at t i) = own (pcb_at s i)" if "live t i" for i
    using that tidied_pcb [OF assms(2), of i] live_less [of s i] by (simp add: tidied_live [OF assms(2)] pcb_sim_def)
qed

lemma inv_force [simp]: "sched_inv (s\<lparr>force_switch := b\<rparr>) \<longleftrightarrow> sched_inv s" "mem_inv L (s\<lparr>force_switch := b\<rparr>) \<longleftrightarrow> mem_inv L s"
proof -
  have l: "live (s\<lparr>force_switch := b\<rparr>) = live s" by (simp add: live_def fun_eq_iff)
  have "table_inv (s\<lparr>force_switch := b\<rparr>) \<longleftrightarrow> table_inv s" by (simp add: table_inv_def pids_unique_def l)
  moreover have "rq (s\<lparr>force_switch := b\<rparr>) = rq s" by (simp add: rq_def)
  moreover have "queue_inv (s\<lparr>force_switch := b\<rparr>) \<longleftrightarrow> queue_inv s" by (simp add: queue_inv_def rq_def desc_by_def)
  ultimately show "sched_inv (s\<lparr>force_switch := b\<rparr>) \<longleftrightarrow> sched_inv s" by (simp add: sched_inv_def l)
  show "mem_inv L (s\<lparr>force_switch := b\<rparr>) \<longleftrightarrow> mem_inv L s" by (simp add: mem_inv_def l)
qed
subsection \<open>The clean-ups\<close>

lemma benign_wakes:
  "benign s (snd (pipe_wake_reader p s))" "benign s (snd (pipe_wake_writer p s))"
  "benign s (snd (pipe_wake_all_readers p s))" "benign s (snd (pipe_wake_all_writers p s))"
proof -
  show r: "benign s (snd (pipe_wake_reader p s))" for p s
    by (simp add: pipe_wake_reader_def benign_process_unblock split: prod.split)
  show w: "benign s (snd (pipe_wake_writer p s))" for p s
    by (simp add: pipe_wake_writer_def benign_process_unblock split: prod.split)
  show "benign s (snd (pipe_wake_all_readers p s))"
    by (induction p s rule: pipe_wake_all_readers.induct)
      (subst pipe_wake_all_readers.simps, auto intro: benign_trans [OF r])
  show "benign s (snd (pipe_wake_all_writers p s))"
    by (induction p s rule: pipe_wake_all_writers.induct)
      (subst pipe_wake_all_writers.simps, auto intro: benign_trans [OF w])
qed

lemma benign_close:
  "benign s (pipe_close_read p s)" "benign s (pipe_close_write p s)"
proof -
  have set: "benign s (set_pipe i q t) \<longleftrightarrow> benign s t" for i q and s t :: "'a pipesys_scheme"
    by (simp add: set_pipe_def benign_def)
  show "benign s (pipe_close_read p s)" "benign s (pipe_close_write p s)"
    by (auto simp: pipe_close_read_def pipe_close_write_def on_pipe_def pipe_close_read1_def pipe_close_write1_def
        Let_def case_prod_beta set benign_wakes split: option.split)
qed

lemma benign_decref: "benign s (fd_decref fd s)"
proof -
  have upd: "benign s (upd_fd e g t) = benign s t" "benign (upd_fd e g s) t = benign s t"
    for e g and s t :: "'a fdsys_scheme"
    by (simp_all add: upd_fd_def benign_def)
  have "benign s (pipe_close_read p (upd_fd e g s))" "benign s (pipe_close_write p (upd_fd e g s))" for p e g
    using benign_close [of "upd_fd e g s" p] by (simp_all add: upd)
  then show ?thesis by (simp add: fd_decref_def Let_def upd split: option.split)
qed

lemma tidied_decref: "tidied s (fd_decref fd s)"
  by (rule tidied_benign [OF benign_decref]) (rule sched_fd.fr_decref)

lemma tidied_release_fds: "tidied s (process_release_fds c s)"
proof -
  have i: "tidied s (if b then fd_decref fd s else s)" for b fd and s :: "'a fdsys_scheme"
    using tidied_benign [of s s] by (simp add: tidied_decref)
  have u: "tidied s (upd_pcb c (\<lambda>p. p\<lparr>p_fd := f p\<rparr>) s)" for f and s :: "'a fdsys_scheme"
    by (rule tidied_upd_pcb) (simp add: pcb_sim_def own_def)
  show ?thesis unfolding process_release_fds_def Let_def
    by (rule tidied_trans [OF tidied_trans [OF i i] u])
qed

lemma release_fds_apart:
  assumes f: "fd_inv s" and o: "off_pipes (p_pid (pcb_at s q)) s" and q: "q \<noteq> c"
  shows "pcb_at (process_release_fds c s) q = pcb_at s q"
proof -
  let ?k = "p_pid (pcb_at s q)"
  let ?d = "\<lambda>b fd (s :: 'a fdsys_scheme). if b then fd_decref fd s else s"
  have i: "fd_inv (?d b fd t) \<and> off_pipes ?k (?d b fd t) \<and> pcb_at (?d b fd t) q = pcb_at s q"
    if "fd_inv t" "off_pipes ?k t" "pcb_at t q = pcb_at s q" for b fd and t :: "'a fdsys_scheme"
    using that fd_decref_off [OF that(1,2), of fd] fd_inv_decref [OF that(1), of fd] by simp
  note j = i [OF f o refl]
  show ?thesis unfolding process_release_fds_def Let_def pcb_at_upd_other [OF q]
    by (rule i [OF j [THEN conjunct1] j [THEN conjunct2, THEN conjunct1] j [THEN conjunct2, THEN conjunct2],
        THEN conjunct2, THEN conjunct2])
qed

lemma off_pipes_cong:
  "pipe_table t = pipe_table s \<Longrightarrow> off_pipes k t = off_pipes k s"
  by (simp add: off_pipes_def)

lemma unqueued_forget: "unqueued k p \<Longrightarrow> unqueued k (pipe_forget j p)"
  by (simp add: unqueued_def pipe_forget_def queue_remove_pid)

lemma off_pipes_cleanup: "off_pipes k s \<Longrightarrow> off_pipes k (pipe_cleanup_for_process j s)"
  by (auto simp: off_pipes_def pipe_cleanup_for_process_def intro: unqueued_forget)

text \<open>The clean-ups of a dying process \<open>c\<close>, before its descriptors are released.\<close>

definition cleanups :: "nat \<Rightarrow> u64 \<Rightarrow> 'a kbdsys_scheme \<Rightarrow> 'a kbdsys_scheme option" where
  "cleanups c pid s = map_option (\<lambda>s2. kbd_clear_waiting (Some c) (pipe_cleanup_for_process pid s2))
     (sem_cleanup_for_process pid s)"

lemma cleanups_ok:
  assumes s: "sem_inv s" "fd_inv s" and g: "process_get s pid = Some c"
  obtains t where "cleanups c pid s = Some t" "tidied s t" "benign s t" "fd_inv t"
    "p_held_sems (pcb_at t c) = 0" "kwords t = kwords s"
    "\<And>q. live s q \<Longrightarrow> q \<noteq> c \<Longrightarrow> off_sems (p_pid (pcb_at s q)) s \<Longrightarrow> pcb_at t q = pcb_at s q"
    "\<And>k. off_pipes k s \<Longrightarrow> off_pipes k t"
proof -
  obtain s2 where s2: "sem_cleanup_for_process pid s = Some s2" "benign s s2" "p_held_sems (pcb_at s2 c) = 0"
    using sem_cleanup_ok [OF s(1) g] by blast
  let ?t = "kbd_clear_waiting (Some c) (pipe_cleanup_for_process pid s2)"
  have pt: "process_table ?t = process_table s2" "next_pid ?t = next_pid s2" "current_process ?t = current_process s2"
    by (simp_all add: kbd_clear_waiting_def pipe_cleanup_for_process_def)
  have b: "benign s ?t" using s2(2) by (simp add: benign_def pt)
  have part: "sched_part ?t = sched_part s"
    using sched_sem.fr_sem_cleanup [OF s2(1)]
    by (simp add: kbd_clear_waiting_def pipe_cleanup_for_process_def sched_part_def)
  have "pipe_table s2 = pipe_table s" using ends_sem.fr_sem_cleanup [OF s2(1)] by simp
  then have off: "off_pipes k ?t" if "off_pipes k s" for k
  proof -
    have "off_pipes k s2" using that off_pipes_cong [of s2 s k] \<open>pipe_table s2 = pipe_table s\<close> by blast
    then have "off_pipes k (pipe_cleanup_for_process pid s2)" by (rule off_pipes_cleanup)
    moreover have "pipe_table ?t = pipe_table (pipe_cleanup_for_process pid s2)" by (simp add: kbd_clear_waiting_def)
    ultimately show ?thesis using off_pipes_cong by blast
  qed
  show thesis
  proof (rule that [of ?t])
    show "cleanups c pid s = Some ?t" by (simp add: cleanups_def s2(1))
    show "tidied s ?t" by (rule tidied_benign [OF b part])
    have "same_ends s ?t"
      using same_ends_trans [OF same_ends_sem_cleanup [OF s2(1)] same_ends_pipe_cleanup] by (simp add: same_ends_kbd_clear)
    then show "fd_inv ?t" using s(2) by (rule fd_inv_same)
    show "p_held_sems (pcb_at ?t c) = 0" using s2(3) by (simp add: pcb_at_def pt)
    show "kwords ?t = kwords s"
      using mem_sem.fr_sem_cleanup [OF s2(1)] by (simp add: kbd_clear_waiting_def pipe_cleanup_for_process_def)
    show "pcb_at ?t q = pcb_at s q" if "live s q" "q \<noteq> c" "off_sems (p_pid (pcb_at s q)) s" for q
      using sem_cleanup_apart [OF s(1) g that s2(1)] by (simp add: pcb_at_def pt)
  qed (use b off in simp_all)
qed

lemma sem_inv_upd_pcb:
  assumes "sem_inv s" "c < length (process_table s)" "p_pid (f (pcb_at s c)) = p_pid (pcb_at s c)"
    "p_state (f (pcb_at s c)) = PROCESS_FREE \<longleftrightarrow> p_state (pcb_at s c) = PROCESS_FREE"
  shows "sem_inv (upd_pcb c f s)"
proof -
  have "live (upd_pcb c f s) k = live s k \<and> p_pid (pcb_at (upd_pcb c f s) k) = p_pid (pcb_at s k)" for k
    using assms(2-4) by (simp add: live_upd_pcb pcb_at_upd) (simp add: live_def)
  then have "live_pids (upd_pcb c f s) = live_pids s" by (simp add: live_pids_def)
  moreover have "sem_table (upd_pcb c f s) = sem_table s" by simp
  ultimately show ?thesis using assms(1) unfolding sem_inv_def sem_at_def by simp
qed

lemma sem_inv_more: "sem_inv s \<Longrightarrow> sem_table t = sem_table s \<Longrightarrow> live_pids s \<subseteq> live_pids t \<Longrightarrow> sem_inv t"
  unfolding sem_inv_def slot_ok_def by (simp add: sem_at_def) blast

text \<open>The mark \<open>r\<close> in the PCB, the first step of exit and kill.\<close>

lemma retval_ok:
  fixes r :: int
  assumes i: "sched_inv s" and m: "mem_inv L s" and s: "sem_inv s" "fd_inv s" and c: "live s c"
  defines "s1 \<equiv> upd_pcb c (\<lambda>p. p\<lparr>p_retval := r\<rparr>) s"
  shows "sched_inv s1" "mem_inv L s1" "sem_inv s1" "fd_inv s1" "live s1 = live s"
    "pcb_at s1 c = (pcb_at s c)\<lparr>p_retval := r\<rparr>" "q \<noteq> c \<Longrightarrow> pcb_at s1 q = pcb_at s q"
    "process_get s1 (p_pid (pcb_at s c)) = Some c"
proof -
  have cl: "c < MAX_PROCESSES" "c < length (process_table s)"
    using live_less [OF c] sched_inv_length [OF i] by simp_all
  show at1: "pcb_at s1 c = (pcb_at s c)\<lparr>p_retval := r\<rparr>" "\<And>q. q \<noteq> c \<Longrightarrow> pcb_at s1 q = pcb_at s q"
    using cl(2) by (simp_all add: s1_def pcb_at_upd pcb_at_upd_other)
  show i1: "sched_inv s1"
    unfolding s1_def by (rule sched_inv_upd_pcb [OF i cl(1)]) (use sched_inv_idle [OF i]
      table_inv_running [OF sched_inv_table [OF i] cl(1)] in \<open>simp_all\<close>)
  show "mem_inv L s1" unfolding s1_def by (rule mem_inv_upd_pcb [OF m cl(2)]) (simp_all add: own_def)
  show "fd_inv s1" unfolding s1_def by (rule fd_inv_same [OF _ s(2)]) simp
  show "sem_inv s1" unfolding s1_def by (rule sem_inv_upd_pcb [OF s(1) cl(2)]) simp_all
  show lv: "live s1 = live s" using cl(2) by (simp add: s1_def live_upd_pcb fun_eq_iff) (simp add: live_def)
  show "process_get s1 (p_pid (pcb_at s c)) = Some c"
    using table_inv_get [OF sched_inv_table [OF i1], of c] c at1(1) lv by simp
qed

subsection \<open>Exit\<close>

text \<open>\<open>q\<close> waits in \<open>process_waitpid\<close> for the process \<open>pid\<close>.\<close>

definition awaits :: "'a psys_scheme \<Rightarrow> nat \<Rightarrow> u64 \<Rightarrow> bool" where
  "awaits s q pid \<longleftrightarrow> p_state (pcb_at s q) = PROCESS_BLOCKED \<and> p_waiting_for (pcb_at s q) = pid"

definition resumed :: "pcb \<Rightarrow> pcb" where
  "resumed p = p\<lparr>p_waiting_for := 0, p_state := PROCESS_READY, p_wait_ticks := 0\<rparr>"

lemma sched_inv_notify:
  assumes i: "sched_inv s"
  shows "sched_inv (notify_parent ppid pid r s)" "mem_inv L s \<Longrightarrow> mem_inv L (notify_parent ppid pid r s)"
proof -
  have kw: "sched_inv (s\<lparr>kwords := m\<rparr>) \<longleftrightarrow> sched_inv s" "mem_inv L (s\<lparr>kwords := m\<rparr>) \<longleftrightarrow> mem_inv L s"
    for m and s :: "'a ksys_scheme"
  proof -
    have b: "tidied (s\<lparr>kwords := m\<rparr>) s" "tidied s (s\<lparr>kwords := m\<rparr>)"
      by (simp_all add: tidied_def sched_part_def list_all2_refl pcb_sim_def)
    show "sched_inv (s\<lparr>kwords := m\<rparr>) \<longleftrightarrow> sched_inv s" "mem_inv L (s\<lparr>kwords := m\<rparr>) \<longleftrightarrow> mem_inv L s"
      using tidied_sched_inv [OF _ b(1)] tidied_sched_inv [OF _ b(2)] tidied_mem_inv [OF _ b(1)] tidied_mem_inv [OF _ b(2)]
      by blast+
  qed
  have u: "sched_inv (upd_pcb q resumed t) \<and> (mem_inv L t \<longrightarrow> mem_inv L (upd_pcb q resumed t))"
    if t: "sched_inv t" "q < MAX_PROCESSES" "p_state (pcb_at t q) = PROCESS_BLOCKED" for q and t :: "'a ksys_scheme"
  proof
    show "sched_inv (upd_pcb q resumed t)" by (rule sched_inv_upd_pcb [OF t(1,2)]) (simp_all add: resumed_def t(3))
    show "mem_inv L t \<longrightarrow> mem_inv L (upd_pcb q resumed t)"
      using mem_inv_upd_pcb [of L t q resumed] t sched_inv_length [OF t(1)] by (simp add: resumed_def own_def)
  qed
  have "sched_inv (notify_parent ppid pid r s) \<and> (mem_inv L s \<longrightarrow> mem_inv L (notify_parent ppid pid r s))"
  proof (cases "process_get s ppid")
    case None
    then show ?thesis using i by (simp add: notify_parent_def)
  next
    case (Some q)
    have "q < MAX_PROCESSES" using process_get_Some [OF Some] live_less sched_inv_length [OF i] by fastforce
    then show ?thesis
      using u [of "s\<lparr>kwords := m\<rparr>" q for m] i Some kw by (simp add: notify_parent_def resumed_def [abs_def] pcb_at_def)
  qed
  then show "sched_inv (notify_parent ppid pid r s)" "mem_inv L s \<Longrightarrow> mem_inv L (notify_parent ppid pid r s)" by blast+
qed
lemma process_exit_eq:
  assumes "current_process s = Some c" and s1: "s1 = upd_pcb c (\<lambda>p. p\<lparr>p_retval := r\<rparr>) s"
    and c: "cleanups c (p_pid (pcb_at s1 c)) s1 = Some s4" "p_pid (pcb_at s4 c) = p_pid (pcb_at s1 c)"
    and s5: "s5 = process_release_fds c s4"
  shows "process_exit r s = Some ((upd_pcb c (\<lambda>p. p\<lparr>p_state := PROCESS_ZOMBIE\<rparr>)
    (notify_parent (p_parent_pid (pcb_at s5 c)) (p_pid (pcb_at s5 c)) r s5))\<lparr>force_switch := True\<rparr>)"
proof -
  from c(1) obtain s2 where s2: "sem_cleanup_for_process (p_pid (pcb_at s1 c)) s1 = Some s2"
    "s4 = kbd_clear_waiting (Some c) (pipe_cleanup_for_process (p_pid (pcb_at s1 c)) s2)"
    by (auto simp: cleanups_def)
  have "p_pid (pcb_at s2 c) = p_pid (pcb_at s1 c)"
    using c(2) by (simp add: s2(2) kbd_clear_waiting_def pipe_cleanup_for_process_def pcb_at_def split: if_splits)
  then show ?thesis
    unfolding process_exit_def assms(1) option.case Let_def s1 [symmetric] s2(1) Option.bind.bind_lunit
    by (simp add: s5 s2(2))
qed

lemma notify_parent_awaits:
  assumes "process_get s ppid = Some q" "awaits s q pid"
  shows "notify_parent ppid pid r s =
    upd_pcb q resumed (s\<lparr>kwords := (kwords s)(ptr_addr (p_rsp (pcb_at s q)) + 8 * 14 := of_int r)\<rparr>)"
  using assms by (simp add: notify_parent_def awaits_def resumed_def [abs_def])

lemma notify_parent_other:
  "p_pid (pcb_at s c) \<noteq> ppid \<Longrightarrow> pcb_at (notify_parent ppid pid r s) c = pcb_at s c"
proof -
  assume n: "p_pid (pcb_at s c) \<noteq> ppid"
  have "pcb_at (upd_pcb q f (s\<lparr>kwords := m\<rparr>)) c = pcb_at s c" if "process_get s ppid = Some q" for q f m
  proof -
    have "c \<noteq> q" using process_get_Some [OF that] n by auto
    then show ?thesis by (simp add: pcb_at_def upd_pcb_def)
  qed
  then show ?thesis by (simp add: notify_parent_def split: option.split)
qed

text \<open>Exit, from a running process that is not the idle process.\<close>

lemma process_exit_ok:
  assumes i: "sched_inv s" and m: "mem_inv L s" and s: "sem_inv s" "fd_inv s"
    and c: "current_process s = Some c" "live s c" "p_state (pcb_at s c) \<noteq> PROCESS_ZOMBIE" "idle_pcb s \<noteq> Some c"
    and np: "p_parent_pid (pcb_at s c) \<noteq> p_pid (pcb_at s c)"
  obtains t where "process_exit r s = Some t" "sched_inv t" "mem_inv L t" "force_switch t"
    "current_process t = Some c" "idle_pcb t = idle_pcb s" "p_pid (pcb_at t c) = p_pid (pcb_at s c)"
    "p_state (pcb_at t c) = PROCESS_ZOMBIE" "p_retval (pcb_at t c) = r" "live t c"
    "\<And>q. process_get s (p_parent_pid (pcb_at s c)) = Some q \<Longrightarrow> q \<noteq> c \<Longrightarrow> awaits s q (p_pid (pcb_at s c)) \<Longrightarrow>
       off_sems (p_pid (pcb_at s q)) s \<Longrightarrow> off_pipes (p_pid (pcb_at s q)) s \<Longrightarrow>
       pcb_at t q = resumed (pcb_at s q) \<and> kwords t (ptr_addr (p_rsp (pcb_at s q)) + 8 * 14) = of_int r"
proof -
  let ?pid = "p_pid (pcb_at s c)" and ?pp = "p_parent_pid (pcb_at s c)"
  define s1 where "s1 = upd_pcb c (\<lambda>p. p\<lparr>p_retval := r\<rparr>) s"
  have cl: "c < MAX_PROCESSES" "c < length (process_table s)"
    using live_less [OF c(2)] sched_inv_length [OF i] by simp_all
  note r1 = retval_ok [OF i m s c(2), where r = r, folded s1_def]
  note at1 = r1(6,7) and i1 = r1(1) and m1 = r1(2) and sem1 = r1(3) and f1 = r1(4) and g1 = r1(8)
  have live1: "live s1 q \<longleftrightarrow> live s q" for q by (simp add: r1(5))
  have st1: "sem_table s1 = sem_table s" by (simp add: s1_def)
  obtain s4 where s4: "cleanups c ?pid s1 = Some s4" "tidied s1 s4" "benign s1 s4" "fd_inv s4" "kwords s4 = kwords s1"
    and a4: "\<And>q. live s1 q \<Longrightarrow> q \<noteq> c \<Longrightarrow> off_sems (p_pid (pcb_at s1 q)) s1 \<Longrightarrow> pcb_at s4 q = pcb_at s1 q"
    and o4: "\<And>k. off_pipes k s1 \<Longrightarrow> off_pipes k s4"
    using cleanups_ok [OF sem1 f1 g1] by metis
  define s5 where "s5 = process_release_fds c s4"
  have t5: "tidied s1 s5" unfolding s5_def by (rule tidied_trans [OF s4(2) tidied_release_fds])
  have sim: "pcb_sim (pcb_at s1 c) (pcb_at s5 c)" "pcb_sim (pcb_at s1 c) (pcb_at s4 c)"
    using tidied_pcb [OF t5, of c] tidied_pcb [OF s4(2), of c] cl(2) by (simp_all add: s1_def)
  have pid5: "p_pid (pcb_at s5 c) = ?pid" "p_parent_pid (pcb_at s5 c) = ?pp" "p_retval (pcb_at s5 c) = r"
    using sim(1) by (simp_all add: pcb_sim_def at1(1))
  let ?n = "notify_parent ?pp ?pid r s5"
  let ?t = "(upd_pcb c (\<lambda>p. p\<lparr>p_state := PROCESS_ZOMBIE\<rparr>) ?n)\<lparr>force_switch := True\<rparr>"
  have ex: "process_exit r s = Some ?t"
    using process_exit_eq [OF c(1) s1_def _ _ s5_def] s4(1) sim(2) pid5 by (simp add: at1(1) pcb_sim_def)
  note n = sched_inv_notify [OF tidied_sched_inv [OF i1 t5], where ppid = ?pp and pid = ?pid and r = r]
  have idn: "idle_pcb ?n = idle_pcb s" "current_process ?n = Some c"
    using t5 c(1) by (simp_all add: tidied_def sched_part_def notify_parent_def s1_def split: option.split)
  have nc: "pcb_at ?n c = pcb_at s5 c" by (rule notify_parent_other) (simp add: pid5 np[symmetric])
  have ln: "c < length (process_table ?n)" using cl(1) sched_inv_length [OF n(1)] by simp
  have "sched_inv ?t"
    unfolding inv_force
    by (rule sched_inv_upd_pcb [OF n(1) cl(1)])
      (use sim(1) c live1 in \<open>auto simp: nc idn pcb_sim_free(1) at1(1) live_def\<close>)
  moreover have "mem_inv L ?t"
    unfolding inv_force
    by (rule mem_inv_upd_pcb [OF n(2) [OF tidied_mem_inv [OF m1 t5]] ln])
      (use sim(1) c(2) in \<open>auto simp: own_def nc pcb_sim_free(1) at1(1) live_def\<close>)
  moreover have ct: "pcb_at ?t c = (pcb_at s5 c)\<lparr>p_state := PROCESS_ZOMBIE\<rparr>" using ln by (simp add: pcb_at_upd nc)
  moreover have "live ?t c" using ln ct by (simp add: live_def)
  moreover have "pcb_at ?t q = resumed (pcb_at s q) \<and> kwords ?t (ptr_addr (p_rsp (pcb_at s q)) + 8 * 14) = of_int r"
    if q: "process_get s ?pp = Some q" "q \<noteq> c" "awaits s q ?pid" "off_sems (p_pid (pcb_at s q)) s" "off_pipes (p_pid (pcb_at s q)) s" for q
  proof -
    have lq: "live s q" using process_get_Some [OF q(1)] by simp
    have os: "off_sems (p_pid (pcb_at s q)) s1" using q(4) by (simp add: off_sems_def sem_at_def st1)
    have op: "off_pipes (p_pid (pcb_at s q)) s1" using q(5) by (simp add: off_pipes_def s1_def upd_pcb_def)
    have q4: "pcb_at s4 q = pcb_at s q" using a4 [of q] lq q(2) os live1 by (simp add: at1(2))
    have q5: "pcb_at s5 q = pcb_at s q"
      using release_fds_apart [OF s4(4) _ q(2)] o4 [OF op] q4 by (simp add: s5_def)
    have "process_get s1 ?pp = process_get s ?pp"
      using table_inv_lookup [OF sched_inv_table [OF i1], of ?pp q] process_get_Some [OF q(1)] q(1,2) live1 at1(2) by simp
    then have "process_get s5 ?pp = Some q" using tidied_get [OF t5] q(1) by simp
    from notify_parent_awaits [OF this, of ?pid r] q(3) q5
    have nq: "?n = upd_pcb q resumed (s5\<lparr>kwords := (kwords s5)(ptr_addr (p_rsp (pcb_at s q)) + 8 * 14 := of_int r)\<rparr>)"
      by (simp add: awaits_def)
    have "q < length (process_table s5)" using live_less [OF lq] tidied_length [OF t5] by (simp add: s1_def)
    then have "pcb_at ?n q = resumed (pcb_at s q)" unfolding nq using q5 by (simp add: pcb_at_def upd_pcb_def)
    moreover have "kwords ?n (ptr_addr (p_rsp (pcb_at s q)) + 8 * 14) = of_int r" unfolding nq by simp
    ultimately show ?thesis using q(2) by (simp add: pcb_at_upd_other)
  qed
  ultimately show thesis using ex pid5(1,3) idn by (intro that [of ?t]) simp_all
qed
subsection \<open>Kill\<close>

lemma notify_frame:
  "rq (notify_parent ppid pid r s) = rq s" "current_process (notify_parent ppid pid r s) = current_process s"
  "idle_pcb (notify_parent ppid pid r s) = idle_pcb s"
  "live (notify_parent ppid pid r s) k = live s k"
  "p_pid (pcb_at (notify_parent ppid pid r s) k) = p_pid (pcb_at s k)"
proof -
  have k: "live (upd_pcb q resumed t) k = live s k \<and> p_pid (pcb_at (upd_pcb q resumed t) k) = p_pid (pcb_at s k)"
    if q: "process_get s ppid = Some q" and t: "process_table t = process_table s" for q and t :: "'a ksys_scheme"
  proof -
    have ql: "q < length (process_table t)" "q < length (process_table s)" "p_state (pcb_at s q) \<noteq> PROCESS_FREE"
      using process_get_Some [OF q] t by (simp_all add: live_def)
    have "pcb_at t = pcb_at s" "live t = live s" using t by (simp_all add: live_def pcb_at_def fun_eq_iff)
    then show ?thesis using ql live_upd_pcb [OF ql(1), of resumed k]
      by (simp add: pcb_at_upd resumed_def) (simp add: live_def)
  qed
  show "rq (notify_parent ppid pid r s) = rq s" "current_process (notify_parent ppid pid r s) = current_process s"
    "idle_pcb (notify_parent ppid pid r s) = idle_pcb s"
    by (simp_all add: notify_parent_def rq_def split: option.split)
  show "live (notify_parent ppid pid r s) k = live s k"
    "p_pid (pcb_at (notify_parent ppid pid r s) k) = p_pid (pcb_at s k)"
    using k by (simp_all add: notify_parent_def resumed_def [abs_def] split: option.split)
qed

lemma sched_inv_remove:
  assumes "sched_inv s" shows "sched_inv (scheduler_remove c s)"
proof -
  have "queue_inv (scheduler_remove c s)" by (rule queue_inv_remove [OF sched_inv_queue [OF assms]])
  moreover have "table_inv (scheduler_remove c s)" by (rule table_inv_cong [OF sched_inv_table [OF assms]]) simp_all
  ultimately show ?thesis
    using assms scheduler_remove_shape(1) [OF sched_inv_queue [OF assms]]
    by (auto simp: sched_inv_def dest: set_remove1_subset [THEN subsetD])
qed

definition unslotted :: "pcb \<Rightarrow> pcb" where
  "unslotted p = p\<lparr>p_stack_base := None, p_argv := None, p_state := PROCESS_FREE, p_pid := 0\<rparr>"

text \<open>A slot given back: a process out of the queue, neither idle nor current.\<close>

lemma give_back:
  assumes i: "sched_inv s" and m: "mem_inv L s" and c: "live s c" "c \<notin> set (rq s)" "idle_pcb s \<noteq> Some c"
  obtains t h where "map_option (upd_pcb c (\<lambda>p. p\<lparr>p_state := PROCESS_FREE, p_pid := 0\<rparr>)) (free_stack_argv c s) = Some t"
    "t = upd_pcb c unslotted s\<lparr>heap := h\<rparr>" "sched_inv t" "mem_inv (drop_blocks (set (own (pcb_at s c))) L) t"
    "\<And>k. live t k \<longleftrightarrow> live s k \<and> k \<noteq> c"
proof -
  have cl: "c < MAX_PROCESSES" "c < length (process_table s)"
    using live_less [OF c(1)] sched_inv_length [OF i] by simp_all
  obtain a e where l: "ff_live a e (heap s) L" using mem_inv_heap [OF m] by blast
  from free_stack_argv_live [OF l cl(2) mem_inv_distinct [OF m c(1)] mem_inv_owned [OF m c(1)]] obtain h where
    h: "free_stack_argv c s = Some (upd_pcb c (\<lambda>p. p\<lparr>p_stack_base := None, p_argv := None\<rparr>) s\<lparr>heap := h\<rparr>)"
    "ff_live a e h (drop_blocks (set (own (pcb_at s c))) L)" .
  let ?t = "upd_pcb c unslotted s\<lparr>heap := h\<rparr>"
  have eq: "map_option (upd_pcb c (\<lambda>p. p\<lparr>p_state := PROCESS_FREE, p_pid := 0\<rparr>)) (free_stack_argv c s) = Some ?t"
    by (simp add: h(1) comp_def unslotted_def [abs_def])
  have lv: "live ?t k \<longleftrightarrow> live s k \<and> k \<noteq> c" for k using cl(2) by (simp add: live_upd_pcb unslotted_def)
  have at: "pcb_at ?t k = pcb_at s k" if "k \<noteq> c" for k using that by (simp add: pcb_at_upd_other)
  have "table_inv ?t"
    by (rule table_inv_dead [OF sched_inv_table [OF i] cl(1), of _ unslotted]) (simp_all add: process_table_upd_pcb unslotted_def)
  moreover have "queue_inv (upd_pcb c unslotted s)"
    by (rule queue_inv_upd_pcb [OF sched_inv_queue [OF i]]) (simp add: unslotted_def)
  then have "queue_inv ?t" by (rule queue_inv_cong) (use queue_inv_idx [OF sched_inv_queue [OF i]] in auto)
  moreover have "live ?t k \<and> p_state (pcb_at ?t k) \<noteq> PROCESS_ZOMBIE" if "idle_pcb ?t = Some k" for k
    using that sched_inv_idle [OF i, of k] c(3) at [of k] lv by auto
  ultimately have "sched_inv ?t"
    using sched_inv_live [OF i] c(2) unfolding sched_inv_def lv by auto
  moreover have "mem_inv (drop_blocks (set (own (pcb_at s c))) L) ?t"
  proof (rule mem_inv_free_slot [OF m c(1) h(2)])
    show "k \<noteq> c \<and> live s k \<and> own (pcb_at ?t k) = own (pcb_at s k)" if "live ?t k" for k
      using that unfolding lv using at by simp
  qed simp
  ultimately show thesis using that [OF eq refl] lv by blast
qed

text \<open>Killing a process other than the current one and the idle one.\<close>

lemma process_kill_ok:
  assumes i: "sched_inv s" and m: "mem_inv L s" and s: "sem_inv s" "fd_inv s"
    and g: "process_get s pid = Some c" and c: "current_process s \<noteq> Some c" "p_state (pcb_at s c) \<noteq> PROCESS_ZOMBIE"
      "idle_pcb s \<noteq> Some c" and np: "p_parent_pid (pcb_at s c) \<noteq> pid"
  obtains t where "process_kill pid s = Some t" "sched_inv t" "mem_inv (drop_blocks (set (own (pcb_at s c))) L) t"
    "\<And>k. live t k \<longleftrightarrow> live s k \<and> k \<noteq> c" "rq t = remove1 c (rq s)" "current_process t = current_process s"
    "process_get t pid = None"
proof -
  have lc: "live s c" "p_pid (pcb_at s c) = pid" using process_get_Some [OF g] by simp_all
  define s1 where "s1 = upd_pcb c (\<lambda>p. p\<lparr>p_retval := -1\<rparr>) s"
  note r = retval_ok [OF i m s lc(1), where r = "-1", folded s1_def, unfolded lc(2)]
  obtain s4 where s4: "cleanups c pid s1 = Some s4" "tidied s1 s4"
    using cleanups_ok [OF r(3,4) r(8)] by metis
  let ?pp = "p_parent_pid (pcb_at s4 c)"
  have sim: "pcb_sim (pcb_at s1 c) (pcb_at s4 c)"
    using tidied_pcb [OF s4(2), of c] live_less [of s1 c] lc(1) r(5) by simp
  define s5 where "s5 = notify_parent ?pp pid (-1) s4"
  have n: "sched_inv s5" "mem_inv L s5" unfolding s5_def
    using sched_inv_notify [OF tidied_sched_inv [OF r(1) s4(2)]] tidied_mem_inv [OF r(2) s4(2)] by blast+
  have c5: "pcb_at s5 c = pcb_at s4 c" unfolding s5_def
    by (rule notify_parent_other) (use sim np in \<open>simp add: pcb_sim_def r(6) lc(2)\<close>)
  have f5: "rq s5 = rq s" "current_process s5 = current_process s" "idle_pcb s5 = idle_pcb s"
    "length (process_table s5) = length (process_table s)"
  proof -
    have "rq s4 = rq s" using s4(2) by (simp add: rq_def s1_def tidied_def sched_part_def)
    then show "rq s5 = rq s" by (simp add: s5_def notify_frame)
    show "current_process s5 = current_process s" "idle_pcb s5 = idle_pcb s"
      using s4(2) by (simp_all add: s5_def notify_frame s1_def tidied_def sched_part_def)
    show "length (process_table s5) = length (process_table s)"
      using sched_inv_length [OF n(1)] sched_inv_length [OF i] by simp
  qed
  have l5: "live s5 k = live s k" for k by (simp add: s5_def notify_frame tidied_live [OF s4(2)] r(5))
  have p5: "p_pid (pcb_at s5 k) = p_pid (pcb_at s k)" if "live s k" for k
  proof -
    have "k < length (process_table s1)" using live_less [of s1 k] that r(5) by simp
    from tidied_pcb [OF s4(2) this] show ?thesis
      using r(6,7) by (cases "k = c") (simp_all add: s5_def notify_frame pcb_sim_def)
  qed
  define s7 where "s7 = process_release_fds c (scheduler_remove c s5)"
  have t7: "tidied (scheduler_remove c s5) s7" unfolding s7_def by (rule tidied_release_fds)
  have m6: "mem_inv L (scheduler_remove c s5)" by (rule mem_inv_cong [OF n(2)]) simp_all
  note i7 = tidied_sched_inv [OF sched_inv_remove [OF n(1)] t7] and m7 = tidied_mem_inv [OF m6 t7]
  have f7: "rq s7 = remove1 c (rq s)" "current_process s7 = current_process s" "idle_pcb s7 = idle_pcb s"
    using t7 scheduler_remove_shape(1) [OF sched_inv_queue [OF n(1)], of c] f5
    by (simp_all add: tidied_def sched_part_def rq_def)
  have l7: "live s7 k = live s k" for k using tidied_live [OF t7] l5 by simp
  have o7: "own (pcb_at s7 c) = own (pcb_at s c)"
    using tidied_pcb [OF t7, of c] sim lc(1) live_less [OF lc(1)] by (simp add: pcb_sim_def c5 r(6) f5 own_def)
  have "c \<notin> set (rq s7)" using f7(1) queue_inv_distinct [OF sched_inv_queue [OF i]] by simp
  from give_back [OF i7 m7 _ this] l7 lc(1) f7(3) c(3) obtain t h where
    t: "map_option (upd_pcb c (\<lambda>p. p\<lparr>p_state := PROCESS_FREE, p_pid := 0\<rparr>)) (free_stack_argv c s7) = Some t"
    "t = upd_pcb c unslotted s7\<lparr>heap := h\<rparr>" "sched_inv t" "mem_inv (drop_blocks (set (own (pcb_at s c))) L) t"
    "\<And>k. live t k \<longleftrightarrow> live s k \<and> k \<noteq> c" unfolding o7 by metis
  have "process_kill pid s = Some t"
  proof -
    obtain s2 where s2: "sem_cleanup_for_process pid s1 = Some s2"
      "s4 = kbd_clear_waiting (Some c) (pipe_cleanup_for_process pid s2)" using s4(1) by (auto simp: cleanups_def)
    have free: "\<not> (p_state (pcb_at s c) = PROCESS_FREE \<or> p_state (pcb_at s c) = PROCESS_ZOMBIE)"
      using lc(1) c(2) by (simp add: live_def)
    have cur: "current_process s5 \<noteq> Some c" using c(1) f5(2) by simp
    obtain s8 where s8: "free_stack_argv c s7 = Some s8" "t = upd_pcb c (\<lambda>p. p\<lparr>p_state := PROCESS_FREE, p_pid := 0\<rparr>) s8"
      using t(1) by auto
    show ?thesis
      unfolding process_kill_def g option.case if_not_P [OF free] Let_def s1_def [symmetric] s2(1) Option.bind.bind_lunit
        s2(2) [symmetric] s5_def [symmetric] if_not_P [OF cur] s7_def [symmetric] s8 ..
  qed
  moreover have "process_get t pid = None"
  proof (rule ccontr)
    assume "process_get t pid \<noteq> None"
    then obtain k where k: "live t k" "p_pid (pcb_at t k) = pid" using process_get_Some by blast
    then have lk: "live s k" "k \<noteq> c" using t(5) by auto
    have "p_pid (pcb_at t k) = p_pid (pcb_at s7 k)" using lk(2) by (simp add: t(2) pcb_at_upd_other)
    also have "\<dots> = p_pid (pcb_at s k)"
      using tidied_pcb [OF t7, of k] live_less [OF lk(1)] f5(4) p5 [OF lk(1)] by (simp add: pcb_sim_def)
    finally have "p_pid (pcb_at s k) = p_pid (pcb_at s c)" using k(2) lc(2) by simp
    then show False using lk lc(1) table_inv_unique [OF sched_inv_table [OF i]] by (auto simp: pids_unique_def)
  qed
  ultimately show thesis using that t f7 by (simp add: rq_def)
qed
end
