(* ===== verification/Process_Props.thy ===== *)
theory Process_Props
  imports Process_End Fd_Props
begin

text \<open>
  The properties of \<open>Kernel/c/process/process.c\<close>: what a creation leaves in the table, in the run
  queue, in the heap and in the memory of the new process; how the value of a process that ends
  reaches a parent blocked in \<open>process_waitpid\<close>; that it is lost for a parent that waits later; that a
  kill of another process gives everything back.
\<close>

subsection \<open>Creation\<close>

lemma demo_mallocs: "\<exists>h h'. mm_malloc_kernel 4096 demo_heap = Some (h, Some 6291480) \<and> mm_malloc_kernel 30 h = Some (h', Some 6295600)"
  by (simp add: mm_malloc_kernel_def malloc_impl_def demo_heap_def mm_init_def malloc_loop_simps malloc_take_def align8_def)

lemma demo_free_slot: "first_idx (\<lambda>p. p_state p = PROCESS_FREE) demo_table = Some 3"
  using replicate_Suc [of 60 zero_pcb] by (simp add: demo_table_def demo_pcb_def zero_pcb_def)

lemma demo_create:
  "\<exists>t. process_create (Some ''ls'') 0x5000 2 (Some [Some ''ls'', Some ''-l'']) 1 demo_k = Some (4, t)"
proof -
  obtain h h' where h: "mm_malloc_kernel 4096 demo_heap = Some (h, Some 6291480)"
    "mm_malloc_kernel 30 h = Some (h', Some 6295600)" using demo_mallocs by blast
  let ?s1 = "upd_pcb 3 (\<lambda>p. p\<lparr>p_stack_base := Some 6291480\<rparr>) (demo_k\<lparr>heap := h\<rparr>)"
  have sz: "args_size [Some ''ls'', Some ''-l''] (8 * of_nat (nat 2 + 1)) = 30" by (simp add: str_len_Some cstr_def)
  obtain w b where c: "copy_argv 2 (Some [Some ''ls'', Some ''-l'']) ?s1 =
      Some (Some (Some 6295600), ?s1\<lparr>heap := h', kwords := w, kbytes := b\<rparr>)"
    using sz h(2) by (simp add: copy_argv_def Let_def)
  let ?s2 = "?s1\<lparr>heap := h', kwords := w, kbytes := b\<rparr>"
  have "process_create (Some ''ls'') 0x5000 2 (Some [Some ''ls'', Some ''-l'']) 1 demo_k =
      Some (process_fill 3 (Some ''ls'') 0x5000 2 (Some 6295600) 1 ?s2)"
    using h(1) c by (simp add: process_create_def demo_free_slot)
  moreover have "std_fds ?s2" by (simp add: std_fds_def demo_k_def fd_at_def upd_pcb_def)
  then obtain t where "process_fill 3 (Some ''ls'') 0x5000 2 (Some 6295600) 1 ?s2 = (int_of_pid (3 + 1), t)"
    using process_fill_shape [of 3 ?s2] by (cases "build_initial_stack (ptr_addr (p_stack_base (pcb_at ?s2 3)) + 4096) (trampoline ?s2) 2 (Some 6295600) (kwords ?s2)") force
  ultimately show ?thesis by (simp add: int_of_pid_def)
qed

text \<open>C23: \<open>process_create\<close> always returns and keeps the invariants of the scheduler. It either
  gives -1 with every live process, the run queue, the descriptors and the blocks of the heap as they were, where of the slots
  that are not in use at most the field \<open>stack_base\<close> has changed (the code leaves there the address of the block it has
  given back, or \<open>NULL\<close>); or it gives the
  PID handed out next: a slot that was free then holds a process with the default priority, READY
  unless flag 2 asks for BLOCKED, the child of the caller, on the two terminal descriptors, with
  blocks of its own; it stands in the run queue behind the processes of its priority. The semaphores,
  the pipes, the terminal and the current process are left alone, and of the descriptors only the two of
  the terminal gain a reference.\<close>

lemma process_create_spec:
  assumes "sched_inv s" "mem_inv L s" "std_fds s"
    and "\<forall>c. current_process s = Some c \<longrightarrow> live s c" and "next_pid s + 1 \<noteq> 0"
  shows "\<exists>r t. process_create name entry argc argv fg s = Some (r, t) \<and> sched_inv t \<and>
    (r = -1 \<and> refused L s t \<or>
     (\<exists>slot L'. r = int_of_pid (next_pid s + 1) \<and> created L' slot (pcb_at t slot) s t \<and> L \<subseteq> L' \<and>
        set (own (pcb_at t slot)) \<inter> fst ` L = {} \<and> fst ` L' = fst ` L \<union> set (own (pcb_at t slot)) \<and>
        p_state (pcb_at t slot) = (if fg AND 2 \<noteq> 0 then PROCESS_BLOCKED else PROCESS_READY) \<and>
        p_priority (pcb_at t slot) = DEFAULT_PRIORITY \<and> p_fd (pcb_at t slot) = [0, 1] \<and>
        p_parent_pid (pcb_at t slot) = parent_of_new s \<and> p_held_sems (pcb_at t slot) = 0))"
proof -
  from process_create_ok [OF assms, of name entry argc argv fg] obtain r t where
    c: "process_create name entry argc argv fg s = Some (r, t)" "sched_inv t" and
    d: "r = -1 \<and> refused L s t \<or> (\<exists>slot sb av L1 L2 m. r = int_of_pid (next_pid s + 1) \<and>
      stack_block sb L L1 \<and> args_block argc argv av L1 L2 \<and>
      created L2 slot (placed_pcb name entry argc av fg s sb (pcb_at s slot)) s t)" by blast
  from d show ?thesis
  proof (elim disjE exE conjE)
    fix slot sb av L1 L2 m
    let ?q = "placed_pcb name entry argc av fg s sb (pcb_at s slot)"
    assume r: "r = int_of_pid (next_pid s + 1)" and sb: "stack_block sb L L1" and ab: "args_block argc argv av L1 L2"
      and cr: "created L2 slot ?q s t"
    have q: "pcb_at t slot = ?q" using cr by (simp add: created_def)
    have "set (own ?q) = insert sb (case av of None \<Rightarrow> {} | Some p \<Rightarrow> {p})"
      by (simp add: own_def placed_pcb_def new_pcb_def split: option.split)
    then have "L \<subseteq> L2 \<and> set (own ?q) \<inter> fst ` L = {} \<and> fst ` L2 = fst ` L \<union> set (own ?q)"
      using sb ab by (cases av) (auto simp: stack_block_def args_block_def)
    then show ?thesis using c cr r
      by (intro exI [of _ r] exI [of _ t] conjI disjI2 exI [of _ slot] exI [of _ L2])
         (auto simp: q placed_pcb_def new_pcb_def)
  qed (use c in blast)
qed

lemma demo_k_fds: "std_fds demo_k"
  by (simp add: std_fds_def demo_k_def fd_at_def)

lemma demo_k_current: "\<forall>c. current_process demo_k = Some c \<longrightarrow> live demo_k c"
  by (simp add: demo_live)

lemma process_create_spec_witness:
  "\<exists>t slot. process_create (Some ''ls'') 0x5000 2 (Some [Some ''ls'', Some ''-l'']) 1 demo_k = Some (4, t) \<and>
     sched_inv t \<and> process_get t 4 = Some slot \<and> p_state (pcb_at t slot) = PROCESS_READY \<and>
     rq t = insert_desc (prio t) slot [1, 2]"
proof -
  obtain t where t: "process_create (Some ''ls'') 0x5000 2 (Some [Some ''ls'', Some ''-l'']) 1 demo_k = Some (4, t)"
    using demo_create by blast
  have "(1 :: u8) AND 2 = 0" by simp
  then show ?thesis
    using process_create_spec [OF demo_k_inv(1,2) demo_k_fds demo_k_current,
      of "Some ''ls''" "0x5000" 2 "Some [Some ''ls'', Some ''-l'']" 1] t
    by (auto simp: created_def demo_k_inv)
qed

text \<open>The words of the first stack frame, and the words it leaves alone.\<close>

lemma build_frame:
  fixes sb :: addr
  defines "m' \<equiv> \<lambda>tr argc av m. snd (build_initial_stack (sb + STACK_SIZE) tr argc av m)"
  shows "m' tr argc av m (sb + 3936 + 8 * 15) = tr" "m' tr argc av m (sb + 3936 + 8 * 9) = of_int argc"
    "m' tr argc av m (sb + 3936 + 8 * 8) = ptr_word av"
    "x < sb + 3936 \<or> sb + STACK_SIZE \<le> x \<Longrightarrow> m' tr argc av m x = m x"
  by (auto simp: m'_def build_initial_stack_def push_word_def)

definition args_bytes :: "string option list \<Rightarrow> nat" where
  "args_bytes args = 8 * (length args + 1) + sum_list (map asize args)"

lemma args_total_fits:
  assumes "args_bytes args + 7 < 2 ^ 64" "argc = int (length args)"
  shows "unat (args_total argc args) = args_bytes args" "ff_fits (args_total argc args)"
proof -
  have "args_total argc args = of_nat (args_bytes args)"
    using assms(2) by (simp add: args_total_def args_size_eq args_bytes_def algebra_simps)
  moreover have "args_bytes args < 2 ^ 64" using assms(1) by simp
  ultimately show "unat (args_total argc args) = args_bytes args" by (simp add: unat_of_nat)
  then show "ff_fits (args_total argc args)" using assms(1) by (simp add: ff_fits_def)
qed

text \<open>Building the frame in the stack block leaves the argument block alone.\<close>

lemma frame_keeps_args:
  assumes "sb + z \<le> a \<or> a + sz \<le> sb" "4096 \<le> z" "8 * (n + 1) \<le> sz" "i \<le> n"
  shows "snd (build_initial_stack (sb + STACK_SIZE) tr argc av w) (a + 8 * i) = w (a + 8 * i)"
proof (rule build_frame(4))
  show "a + 8 * i < sb + 3936 \<or> sb + STACK_SIZE \<le> a + 8 * i"
    using assms(1)
  proof
    assume "sb + z \<le> a"
    then have "sb + STACK_SIZE \<le> a + 8 * i" using assms(2) by linarith
    then show ?thesis ..
  next
    assume "a + sz \<le> sb"
    moreover have "8 * i + 8 \<le> 8 * (n + 1)" using assms(4) by simp
    ultimately have "a + 8 * i < sb + 3936" using assms(3) by linarith
    then show ?thesis ..
  qed
qed

text \<open>C24: the memory of a new process. Its saved stack pointer leaves room for the 15 registers and
  the frame of \<open>iretq\<close>: the return goes to \<open>process_trampoline\<close>, with \<open>argc\<close> in RDI and the pointer
  of the argument block in RSI; there, entry \<open>i\<close> points to a NUL-terminated copy of argument \<open>i\<close>
  (or is NULL as in the caller's array), the array ends with NULL, and the copies lie
  inside the block the process owns.\<close>

lemma process_create_image:
  assumes "sched_inv s" "mem_inv L s" "std_fds s"
    and "\<forall>c. current_process s = Some c \<longrightarrow> live s c" and "next_pid s + 1 \<noteq> 0"
    and args: "argc = int (length args)" "args \<noteq> []" "args_bytes args + 7 < 2 ^ 64"
    and call: "process_create name entry argc (Some args) fg s = Some (r, t)" "r \<noteq> -1"
  shows "\<exists>slot sp av sz. process_get t (next_pid s + 1) = Some slot \<and>
    p_rsp (pcb_at t slot) = Some sp \<and> p_argv (pcb_at t slot) = Some av \<and>
    kwords t (sp + 8 * 15) = trampoline s \<and> kwords t (sp + 8 * 9) = of_int argc \<and> kwords t (sp + 8 * 8) = of_nat av \<and>
    (\<forall>i<length args. arg_at (kwords t) (kbytes t) av (av + 8 * (length args + 1)) (av + sz) i (args ! i)) \<and>
    kwords t (av + 8 * length args) = 0 \<and> (\<exists>L'. mem_inv L' t \<and> (av, sz) \<in> L')"
proof -
  obtain slot sb av L1 L2 m where
    sb: "stack_block sb L L1" and ab: "args_block argc (Some args) av L1 L2" and av: "av = None \<longrightarrow> argc \<le> 0"
    and m: "m = args_memory argc (Some args) av (kwords s, kbytes s)"
    and k: "kwords t = snd (build_initial_stack (sb + STACK_SIZE) (trampoline s) argc av (fst m))" "kbytes t = snd m"
    and cr: "created L2 slot (placed_pcb name entry argc av fg s sb (pcb_at s slot)) s t"
    using process_create_ok [OF assms(1-5), of name entry argc "Some args" fg] call(2)
    unfolding call(1) option.inject prod.inject by blast
  obtain a where a: "av = Some a" using av args(1,2) by (cases av) auto
  note tot = args_total_fits [OF args(3,1)]
  obtain z where z: "4096 \<le> z" "L1 = insert (sb, z) L" using sb by (auto simp: stack_block_def)
  obtain sz where sz: "L2 = insert (a, sz) L1" "a \<notin> fst ` L1" "args_bytes args \<le> sz"
    using ab tot by (auto simp: args_block_def a)
  have mi: "mem_inv L2 t" using cr by (simp add: created_def)
  obtain x y where "ff_live x y (heap t) L2" using mem_inv_heap [OF mi] by blast
  from ff.rep_disjoint [OF this, of sb z a sz] have dis: "sb + z \<le> a \<or> a + sz \<le> sb"
    using z sz by auto
  have low: "8 * (length args + 1) \<le> sz" using sz(3) by (simp add: args_bytes_def)
  let ?c = "copy_args a args 0 (a + 8 * (length args + 1)) (kwords s, kbytes s)"
  have mm: "fst m = (fst ?c)(a + 8 * length args := 0)" "snd m = snd ?c"
    using args(1) by (simp_all add: m a args_memory_def args_copied_def Let_def)
  have kept: "kwords t (a + 8 * i) = fst m (a + 8 * i)" if "i \<le> length args" for i
    unfolding k(1) by (rule frame_keeps_args [OF dis z(1) low that])
  have "arg_at (kwords t) (kbytes t) a (a + 8 * (length args + 1)) (a + sz) i (args ! i)" if i: "i < length args" for i
  proof -
    from copy_args_at [OF i, of a 0 "a + 8 * (length args + 1)" "(kwords s, kbytes s)"]
    have "arg_at (fst ?c) (snd ?c) a (a + 8 * (length args + 1)) (a + args_bytes args) i (args ! i)"
      by (simp add: args_bytes_def algebra_simps)
    then show ?thesis
    proof (rule arg_at_frame)
      show "kwords t (a + 8 * i) = fst ?c (a + 8 * i)" unfolding kept [OF less_imp_le [OF i]] mm(1) using i by simp
      show "kbytes t x = snd ?c x" for x by (simp only: k(2) mm(2))
    qed (use sz(3) in simp_all)
  qed
  moreover have "kwords t (a + 8 * length args) = 0" using kept [of "length args"] by (simp add: mm)
  moreover have "process_get t (next_pid s + 1) = Some slot" using cr by (simp add: created_def)
  moreover have "p_rsp (pcb_at t slot) = Some (sb + 3936)" "p_argv (pcb_at t slot) = Some a"
    using cr by (simp_all add: created_def placed_pcb_def new_pcb_def a)
  ultimately show ?thesis
    using mi sz(1) build_frame(1-3) [of sb "trampoline s" argc av "fst m"] unfolding k(1) [symmetric]
    by (intro exI [of _ slot] exI [of _ "sb + 3936"] exI [of _ a] exI [of _ sz] conjI exI [of _ L2])
       (simp_all add: ptr_word_def a del: One_nat_def)
qed

lemma process_create_image_witness:
  "\<exists>t slot av p. process_create (Some ''ls'') 0x5000 2 (Some [Some ''ls'', Some ''-l'']) 1 demo_k = Some (4, t) \<and>
     process_get t 4 = Some slot \<and> p_argv (pcb_at t slot) = Some av \<and>
     kwords t (av + 8) = of_nat p \<and> kbytes t p = CHR ''-'' \<and> kbytes t (p + 1) = CHR ''l'' \<and> kbytes t (p + 2) = NUL"
proof -
  obtain t where t: "process_create (Some ''ls'') 0x5000 2 (Some [Some ''ls'', Some ''-l'']) 1 demo_k = Some (4, t)"
    using demo_create by blast
  from process_create_image [OF demo_k_inv(1,2) demo_k_fds demo_k_current _ _ _ _ t]
  obtain slot av sz where "process_get t 4 = Some slot" "p_argv (pcb_at t slot) = Some av"
    "\<forall>i<Suc (Suc 0). arg_at (kwords t) (kbytes t) av (av + 24) (av + sz) i ([Some ''ls'', Some ''-l''] ! i)"
    by (auto simp: args_bytes_def asize_def str_len_Some cstr_def)
  moreover from this(3) have "arg_at (kwords t) (kbytes t) av (av + 24) (av + sz) 1 (Some ''-l'')" by force
  then obtain p where "kwords t (av + 8) = of_nat p" "\<forall>j<2. kbytes t (p + j) = ''-l'' ! j" "kbytes t (p + 2) = NUL"
    by (auto simp: arg_at_def cstr_def)
  moreover from spec [OF this(2), of 0] spec [OF this(2), of 1]
  have "kbytes t p = CHR ''-''" "kbytes t (p + 1) = CHR ''l''" by simp_all
  ultimately show ?thesis using t by blast
qed
subsection \<open>Exit\<close>

text \<open>C25: The value of a process that ends reaches its parent. If the parent is blocked in
  \<open>process_waitpid\<close> on the process that calls \<open>process_exit\<close> (and waits for no semaphore and no pipe),
  then \<open>process_exit\<close> makes it READY and stores the value where the saved RAX of its stack frame is,
  so that the parent's call returns it; the process itself is left as a ZOMBIE with the value, a
  switch is forced, and the invariants of the scheduler and of the heap hold.\<close>

theorem exit_wakes_parent:
  assumes "sched_inv s" "mem_inv L s" "sem_inv s" "fd_inv s"
    and "current_process s = Some c" "live s c" "p_state (pcb_at s c) \<noteq> PROCESS_ZOMBIE" "idle_pcb s \<noteq> Some c"
    and q: "process_get s (p_parent_pid (pcb_at s c)) = Some q" "q \<noteq> c" "awaits s q (p_pid (pcb_at s c))"
    and off: "off_sems (p_pid (pcb_at s q)) s" "off_pipes (p_pid (pcb_at s q)) s"
  shows "\<exists>t. process_exit r s = Some t \<and> sched_inv t \<and> mem_inv L t \<and> force_switch t \<and>
    p_state (pcb_at t c) = PROCESS_ZOMBIE \<and> p_retval (pcb_at t c) = r \<and>
    p_state (pcb_at t q) = PROCESS_READY \<and> p_waiting_for (pcb_at t q) = 0 \<and>
    p_rsp (pcb_at t q) = p_rsp (pcb_at s q) \<and> kwords t (ptr_addr (p_rsp (pcb_at s q)) + 8 * 14) = of_int r"
proof -
  have "p_parent_pid (pcb_at s c) \<noteq> p_pid (pcb_at s c)"
    using q(1,2) table_inv_get [OF sched_inv_table [OF assms(1)] assms(6)] by auto
  then obtain t where "process_exit r s = Some t" "sched_inv t" "mem_inv L t" "force_switch t"
    "p_state (pcb_at t c) = PROCESS_ZOMBIE" "p_retval (pcb_at t c) = r"
    "pcb_at t q = resumed (pcb_at s q) \<and> kwords t (ptr_addr (p_rsp (pcb_at s q)) + 8 * 14) = of_int r"
    using process_exit_ok [OF assms(1-8), of r] q off by metis
  then show ?thesis by (simp add: resumed_def)
qed

text \<open>A parent (slot 2) that waits for the running process.\<close>

definition demo_parent :: ksys where
  "demo_parent = upd_pcb 2 (\<lambda>p. p\<lparr>p_state := PROCESS_BLOCKED, p_waiting_for := 2, p_rsp := Some 4096\<rparr>)
     (upd_pcb 1 (\<lambda>p. p\<lparr>p_parent_pid := 3\<rparr>) demo_k)"

lemma demo_parent_ok:
  "sched_inv demo_parent" "mem_inv {} demo_parent" "sem_inv demo_parent" "fd_inv demo_parent"
  "current_process demo_parent = Some 1" "live demo_parent 1" "idle_pcb demo_parent = Some 0"
  "pcb_at demo_parent 1 = (demo_table ! 1)\<lparr>p_parent_pid := 3\<rparr>"
  "pcb_at demo_parent 2 = (demo_table ! 2)\<lparr>p_state := PROCESS_BLOCKED, p_waiting_for := 2, p_rsp := Some 4096\<rparr>"
proof -
  let ?s = "upd_pcb 1 (\<lambda>p. p\<lparr>p_parent_pid := 3\<rparr>) demo_k"
  have at: "pcb_at ?s k = (if k = 1 then (demo_table ! 1)\<lparr>p_parent_pid := 3\<rparr> else demo_table ! k)" for k
    using pcb_at_upd [of 1 demo_k "\<lambda>p. p\<lparr>p_parent_pid := 3\<rparr>" k] by (simp add: demo_k_pcb)
  have i: "sched_inv ?s" by (rule sched_inv_upd_pcb [OF demo_k_inv(1)]) (simp_all add: demo_k_pcb demo_table_nth demo_pcb_def)
  show "sched_inv demo_parent" unfolding demo_parent_def
    by (rule sched_inv_upd_pcb [OF i]) (simp_all add: at demo_table_nth demo_pcb_def del: One_nat_def)
  have m: "mem_inv {} ?s" by (rule mem_inv_upd_pcb [OF demo_k_inv(2)]) (simp_all add: own_def)
  show "mem_inv {} demo_parent" unfolding demo_parent_def
    by (rule mem_inv_upd_pcb [OF m]) (simp_all add: own_def at demo_table_nth demo_pcb_def del: One_nat_def)
  show p1: "pcb_at demo_parent 1 = (demo_table ! 1)\<lparr>p_parent_pid := 3\<rparr>"
    "pcb_at demo_parent 2 = (demo_table ! 2)\<lparr>p_state := PROCESS_BLOCKED, p_waiting_for := 2, p_rsp := Some 4096\<rparr>"
    by (simp_all add: demo_parent_def pcb_at_upd at del: One_nat_def)
  have s: "sem_inv ?s" by (rule sem_inv_upd_pcb [OF demo_k_inv(4)]) (simp_all add: demo_k_pcb)
  show "sem_inv demo_parent" unfolding demo_parent_def
    by (rule sem_inv_upd_pcb [OF s]) (simp_all add: at demo_table_nth demo_pcb_def del: One_nat_def)
  show "fd_inv demo_parent" unfolding demo_parent_def by (rule fd_inv_same [OF _ demo_fds]) simp
  show "live demo_parent 1" using p1 by (simp add: live_def demo_parent_def demo_table_nth demo_pcb_def)
qed (simp_all add: demo_parent_def)

theorem exit_wakes_parent_witness:
  "\<exists>t. process_exit 7 demo_parent = Some t \<and> p_state (pcb_at t 2) = PROCESS_READY \<and> kwords t (4096 + 8 * 14) = 7"
proof -
  have "process_get demo_parent 3 = Some 2"
    using table_inv_lookup [OF sched_inv_table [OF demo_parent_ok(1)], of 3 2]
    by (simp add: live_def demo_parent_ok demo_table_nth demo_pcb_def) (simp add: demo_parent_def)
  moreover have "off_sems 3 demo_parent" "off_pipes 3 demo_parent"
  proof -
    have "sem_table demo_parent = sem_table demo_sem" "pipe_table demo_parent = replicate 32 zero_pipe"
      by (simp_all add: demo_parent_def upd_pcb_def demo_k_def)
    then show "off_sems 3 demo_parent" "off_pipes 3 demo_parent"
      using demo_sem_at
      by (simp_all add: off_sems_def off_pipes_def sem_at_def unqueued_def zero_pipe_def pidq_wf_empty)
  qed
  ultimately show ?thesis
    using exit_wakes_parent [OF demo_parent_ok(1-6), of 2 7]
    by (auto simp: demo_parent_ok demo_table_nth demo_pcb_def awaits_def ptr_addr_def simp del: One_nat_def)
qed
text \<open>C26: The value is lost for a parent that asks late. The switch that \<open>process_exit\<close> forces reaps
  the ZOMBIE at once, whether or not anyone waits for it: its slot is free, and a later
  \<open>process_waitpid\<close> for its PID answers -1, as for a process that never was, whatever value
  the process ended with. The ZOMBIE branch of \<open>process_waitpid\<close>, which would return it, is not reached.\<close>

theorem exit_value_lost:
  assumes "sched_inv s" "mem_inv L s" "sem_inv s" "fd_inv s"
    and "current_process s = Some c" "live s c" "p_state (pcb_at s c) \<noteq> PROCESS_ZOMBIE" "idle_pcb s \<noteq> Some c"
    and "p_parent_pid (pcb_at s c) \<noteq> p_pid (pcb_at s c)" and idle: "idle_pcb s \<noteq> None"
  shows "\<exists>t n u. process_exit r s = Some t \<and> scheduler_yield_impl rsp t = Some (p_rsp (pcb_at u n), u) \<and>
    runs n u \<and> sched_inv u \<and> \<not> live u c \<and> process_waitpid (p_pid (pcb_at s c)) u = Some (-1, u)"
proof -
  obtain t where t: "process_exit r s = Some t" "sched_inv t" "mem_inv L t" "current_process t = Some c"
    "idle_pcb t = idle_pcb s" "p_pid (pcb_at t c) = p_pid (pcb_at s c)" "p_state (pcb_at t c) = PROCESS_ZOMBIE" "live t c"
    using process_exit_ok [OF assms(1-9), of r] by metis
  have idt: "idle_pcb t \<noteq> None" using idle t(5) by simp
  from yield_run [OF t(2,3) idt t(4), of rsp] obtain n u where
    u: "scheduler_yield_impl rsp t = Some (p_rsp (pcb_at u n), u)" "runs n u" "sched_inv u"
    "\<not> live u c" "\<And>k. k \<noteq> n \<Longrightarrow> k \<noteq> c \<Longrightarrow> pcb_at u k = pcb_at t k" "p_pid (pcb_at u n) = p_pid (pcb_at t n)"
    "live t n"
    using t(7) by auto
  have "process_get u (p_pid (pcb_at s c)) = None"
  proof (rule ccontr)
    assume "process_get u (p_pid (pcb_at s c)) \<noteq> None"
    then obtain i where i: "live u i" "p_pid (pcb_at u i) = p_pid (pcb_at t c)"
      using process_get_Some t(6) by fastforce
    have ic: "i \<noteq> c" using i(1) u(4) by blast
    have pid: "p_pid (pcb_at t i) = p_pid (pcb_at t c)" using i(2) u(5) [of i] u(6) ic by (cases "i = n") auto
    have li: "live t i" if "i \<noteq> n"
      using i(1) u(5) [OF that ic] sched_inv_length [OF u(3)] sched_inv_length [OF t(2)] by (simp add: live_def)
    have "live t i" using li u(7) by blast
    then show False
      using pid t(8) ic table_inv_unique [OF sched_inv_table [OF t(2)]] by (auto simp: pids_unique_def)
  qed
  then show ?thesis using t(1) u(1-4) by (auto simp: process_waitpid_def)
qed

theorem exit_value_lost_witness:
  "\<exists>t n u. process_exit 7 demo_k = Some t \<and> scheduler_yield_impl (Some 8192) t = Some (p_rsp (pcb_at u n), u) \<and>
     runs n u \<and> process_waitpid 2 u = Some (-1, u)"
proof -
  have p: "pcb_at demo_k 1 = demo_pcb 2 5 1 PROCESS_RUNNING" by (simp add: demo_k_pcb demo_table_nth)
  from exit_value_lost [OF demo_k_inv(1,2,4) demo_fds, of 1 7 "Some 8192"] show ?thesis
    by (auto simp: p demo_live demo_pcb_def zero_pcb_def simp del: One_nat_def)
qed
text \<open>C27: Killing a process other than the running one and the idle one returns and gives everything it
  had back: its slot is free and its PID unknown, it is out of the run queue, exactly its stack
  and its argument block leave the live blocks of the heap, no other process dies, and the
  invariants of the scheduler and of the heap hold.\<close>

theorem process_kill_other:
  assumes "sched_inv s" "mem_inv L s" "sem_inv s" "fd_inv s"
    and "process_get s pid = Some c" "current_process s \<noteq> Some c" "p_state (pcb_at s c) \<noteq> PROCESS_ZOMBIE"
    and "idle_pcb s \<noteq> Some c" "p_parent_pid (pcb_at s c) \<noteq> pid"
  shows "\<exists>t. process_kill pid s = Some t \<and> sched_inv t \<and>
    mem_inv (drop_blocks (set (own (pcb_at s c))) L) t \<and> process_get t pid = None \<and>
    (\<forall>k. live t k \<longleftrightarrow> live s k \<and> k \<noteq> c) \<and> rq t = remove1 c (rq s) \<and> current_process t = current_process s"
  by (rule process_kill_ok [OF assms]) blast

theorem process_kill_other_witness:
  "\<exists>t. process_kill 3 demo_k = Some t \<and> process_get t 3 = None \<and> \<not> live t 2 \<and> rq t = [1]"
proof -
  have p: "pcb_at demo_k 2 = demo_pcb 3 1 0 PROCESS_READY" by (simp add: demo_k_pcb demo_table_nth)
  have g: "process_get demo_k 3 = Some 2"
    using table_inv_lookup [OF demo_k_inv(3), of 3 2] p by (simp add: demo_live demo_pcb_def)
  from process_kill_other [OF demo_k_inv(1,2,4) demo_fds g] show ?thesis
    by (auto simp: p demo_pcb_def zero_pcb_def demo_k_inv(5))
qed

end
