(* ===== verification/MM_Buddy.thy ===== *)
theory MM_Buddy
  imports MM_FirstFit
begin

text \<open>
  The buddy allocator, \<open>Kernel/c/memoryManager/memoryManagerBuddy.c\<close>, the implementation of
  \<open>memoryManager.h\<close> the kernel is built with under \<open>MM=BUDDY\<close>. A block is a header of 8 bytes
  and a payload, together a power of two; the free blocks of each order form a list linked through
  their payloads. The record \<open>buddy_heap\<close> holds the static variables of the file; \<open>nodes\<close> is the
  memory read through a \<open>FreeNode *\<close>, by address. Addresses and sizes in the heap are natural
  numbers (the heap ends below \<open>2 ^ 64\<close>); the size of a request is a 64 bit word, whose sum with
  the header wraps.
\<close>

unbundle bit_operations_syntax

abbreviation (input) MIN_ORDER :: nat where "MIN_ORDER \<equiv> 4"
abbreviation (input) MAX_ORDER :: nat where "MAX_ORDER \<equiv> 23"
abbreviation (input) ORDERS :: nat where "ORDERS \<equiv> 20"
abbreviation (input) BHDR :: nat where "BHDR \<equiv> 8"

record FreeNode =
  fn_order :: nat
  fn_free :: bool
  fn_kernel :: bool
  fn_next :: ptr

record buddy_heap =
  heap_base :: ptr
  heap_total :: nat
  alloc_count :: u64
  free_lists :: "ptr list"
  nodes :: "addr \<Rightarrow> FreeNode"

definition order_idx :: "nat \<Rightarrow> nat" where
  "order_idx order = order - MIN_ORDER"

text \<open>The head of a list, and its update.\<close>

definition list_at :: "ptr list \<Rightarrow> nat \<Rightarrow> ptr" where
  "list_at ls order = ls ! order_idx order"

definition set_list :: "nat \<Rightarrow> ptr \<Rightarrow> ptr list \<Rightarrow> ptr list" where
  "set_list order p ls = ls[order_idx order := p]"

subsection \<open>Orders and buddies\<close>

function size_order_loop :: "nat \<Rightarrow> u64 \<Rightarrow> nat option" where
  "size_order_loop order sz =
     (if order \<le> MAX_ORDER \<and> push_bit order 1 < sz
      then (if order + 1 > MAX_ORDER then None else size_order_loop (order + 1) sz)
      else Some order)"
  by pat_completeness auto
termination
  by (relation "measure (\<lambda>(order, sz). 24 - order)") auto

declare size_order_loop.simps [simp del]

definition size_to_order :: "u64 \<Rightarrow> nat option" where
  "size_to_order sz = size_order_loop MIN_ORDER sz"

definition get_buddy :: "addr \<Rightarrow> nat \<Rightarrow> buddy_heap \<Rightarrow> ptr" where
  "get_buddy block order h =
     (let offset = block - the (heap_base h);
          buddy_off = offset XOR push_bit order 1
      in if buddy_off + push_bit order 1 > heap_total h then None
         else Some (the (heap_base h) + buddy_off))"

text \<open>The walk of \<open>list_remove\<close>: \<open>cur\<close> is the pointer under the cursor, \<open>prev\<close> the node whose
  \<open>next\<close> field holds it (\<open>None\<close> for the head of the list).\<close>

partial_function (option) find_link :: "(addr \<Rightarrow> FreeNode) \<Rightarrow> addr \<Rightarrow> ptr \<Rightarrow> ptr \<Rightarrow> (ptr \<times> ptr) option" where
  "find_link m target prev cur =
     (if cur \<noteq> None \<and> cur \<noteq> Some target then find_link m target cur (fn_next (m (the cur)))
      else Some (prev, cur))"

definition list_remove :: "nat \<Rightarrow> addr \<Rightarrow> (addr \<Rightarrow> FreeNode) \<times> ptr list \<Rightarrow> ((addr \<Rightarrow> FreeNode) \<times> ptr list) option" where
  "list_remove order target ml =
     (case ml of (m, ls) \<Rightarrow>
        do {
          (prev, cur) \<leftarrow> find_link m target None (list_at ls order);
          (if cur = Some target
           then (case prev of
                   None \<Rightarrow> Some (m, set_list order (fn_next (m target)) ls)
                 | Some p \<Rightarrow> Some (m(p := (m p)\<lparr>fn_next := fn_next (m target)\<rparr>), ls))
           else Some (m, ls))
        })"

subsection \<open>The interface\<close>

function init_loop :: "addr \<Rightarrow> nat \<Rightarrow> nat \<Rightarrow> nat \<Rightarrow> (addr \<Rightarrow> FreeNode) \<times> ptr list \<Rightarrow> (addr \<Rightarrow> FreeNode) \<times> ptr list" where
  "init_loop start sz order offset ml =
     (if order \<ge> MIN_ORDER \<and> offset < sz
      then
        let block_size = push_bit order 1
        in if offset + block_size \<le> sz
           then let block = start + offset;
                    m = (fst ml)(block := \<lparr>fn_order = order, fn_free = True, fn_kernel = False,
                                           fn_next = list_at (snd ml) order\<rparr>)
                in init_loop start sz (order - 1) (offset + block_size) (m, set_list order (Some block) (snd ml))
           else init_loop start sz (order - 1) offset ml
      else ml)"
  by pat_completeness auto
termination
  by (relation "measure (\<lambda>(start, sz, order, offset, ml). order)") auto

declare init_loop.simps [simp del]

definition buddy_init :: "addr \<Rightarrow> nat \<Rightarrow> buddy_heap \<Rightarrow> buddy_heap" where
  "buddy_init start sz h =
     (let (m, ls) = init_loop start sz MAX_ORDER 0 (nodes h, replicate ORDERS None)
      in h\<lparr>heap_base := Some start, heap_total := sz, alloc_count := 0, free_lists := ls, nodes := m\<rparr>)"

text \<open>The first non-empty list from \<open>order\<close> upwards.\<close>

definition find_order :: "nat \<Rightarrow> ptr list \<Rightarrow> nat option" where
  "find_order order ls = find (\<lambda>i. list_at ls i \<noteq> None) [order..<MAX_ORDER + 1]"

text \<open>\<open>while(found > order)\<close>: the upper half goes to the free list of the next lower order.\<close>

function split_loop :: "nat \<Rightarrow> nat \<Rightarrow> addr \<Rightarrow> (addr \<Rightarrow> FreeNode) \<times> ptr list \<Rightarrow> (addr \<Rightarrow> FreeNode) \<times> ptr list" where
  "split_loop found order block ml =
     (if found > order
      then
        let f = found - 1;
            buddy = block + push_bit f 1;
            m1 = (fst ml)(buddy := \<lparr>fn_order = f, fn_free = True, fn_kernel = False, fn_next = list_at (snd ml) f\<rparr>);
            ls1 = set_list f (Some buddy) (snd ml);
            m2 = m1(block := (m1 block)\<lparr>fn_order := f\<rparr>)
        in split_loop f order block (m2, ls1)
      else ml)"
  by pat_completeness auto
termination
  by (relation "measure (\<lambda>(found, order, block, ml). found)") auto

declare split_loop.simps [simp del]

definition buddy_malloc_impl :: "u64 \<Rightarrow> bool \<Rightarrow> buddy_heap \<Rightarrow> buddy_heap \<times> ptr" where
  "buddy_malloc_impl sz is_kernel h =
     (if sz = 0 \<or> heap_base h = None then (h, None)
      else case size_to_order (sz + of_nat BHDR) of
        None \<Rightarrow> (h, None)
      | Some order \<Rightarrow>
          (case find_order order (free_lists h) of
             None \<Rightarrow> (h, None)
           | Some found \<Rightarrow>
               let block = the (list_at (free_lists h) found);
                   ls = set_list found (fn_next (nodes h block)) (free_lists h);
                   (m, ls') = split_loop found order block (nodes h, ls);
                   m' = m(block := (m block)\<lparr>fn_free := False, fn_kernel := is_kernel\<rparr>)
               in (h\<lparr>nodes := m', free_lists := ls',
                     alloc_count := (if is_kernel then alloc_count h else alloc_count h + 1)\<rparr>,
                   Some (block + BHDR))))"

definition buddy_malloc :: "u64 \<Rightarrow> buddy_heap \<Rightarrow> buddy_heap \<times> ptr" where
  "buddy_malloc sz h = buddy_malloc_impl sz False h"

definition buddy_malloc_kernel :: "u64 \<Rightarrow> buddy_heap \<Rightarrow> buddy_heap \<times> ptr" where
  "buddy_malloc_kernel sz h = buddy_malloc_impl sz True h"

text \<open>Coalescence: while the buddy is a free block of the same order, take it from its list and
  continue with the merged block. \<open>None\<close> if the walk of a list does not end.\<close>

function merge_loop :: "buddy_heap \<Rightarrow> addr \<Rightarrow> nat \<Rightarrow> (addr \<Rightarrow> FreeNode) \<times> ptr list \<Rightarrow>
    (addr \<times> nat \<times> (addr \<Rightarrow> FreeNode) \<times> ptr list) option" where
  "merge_loop h block order ml =
     (if order < MAX_ORDER
      then
        case get_buddy block order h of
          None \<Rightarrow> Some (block, order, ml)
        | Some buddy \<Rightarrow>
            (if \<not> fn_free (fst ml buddy) \<or> fn_order (fst ml buddy) \<noteq> order then Some (block, order, ml)
             else
               case list_remove order buddy ml of
                 None \<Rightarrow> None
               | Some ml1 \<Rightarrow>
                   let b = (if buddy < block then buddy else block)
                   in merge_loop h b (order + 1)
                        ((fst ml1)(b := (fst ml1 b)\<lparr>fn_order := order + 1\<rparr>), snd ml1))
      else Some (block, order, ml))"
  by pat_completeness auto
termination
  by (relation "measure (\<lambda>(h, block, order, ml). 23 - order)") auto

declare merge_loop.simps [simp del]

definition buddy_free :: "ptr \<Rightarrow> buddy_heap \<Rightarrow> buddy_heap option" where
  "buddy_free ptr h =
     (case ptr of
        None \<Rightarrow> Some h
      | Some q \<Rightarrow>
          (let block = q - BHDR;
               order = fn_order (nodes h block);
               c = (if fn_kernel (nodes h block) then alloc_count h else alloc_count h - 1);
               m = (nodes h)(block := (nodes h block)\<lparr>fn_free := True\<rparr>)
           in do {
             (b, o', m1, ls1) \<leftarrow> merge_loop h block order (m, free_lists h);
             Some (h\<lparr>alloc_count := c, nodes := m1(b := (m1 b)\<lparr>fn_next := list_at ls1 o'\<rparr>),
                     free_lists := set_list o' (Some b) ls1\<rparr>)
           }))"

text \<open>The walk of \<open>mm_status\<close>, from block to block by the orders in the headers.\<close>

function buddy_status_loop :: "addr \<Rightarrow> nat \<Rightarrow> (addr \<Rightarrow> FreeNode) \<Rightarrow> nat \<Rightarrow> nat \<times> nat \<times> nat \<Rightarrow> nat \<times> nat \<times> nat" where
  "buddy_status_loop base tot m off acc =
     (if off < tot
      then
        let b = m (base + off);
            bsz = 2 ^ fn_order b;
            (fr, us, ke) = acc
        in buddy_status_loop base tot m (off + bsz)
             (if fn_free b then (fr + bsz, us, ke)
              else if fn_kernel b then (fr, us, ke + bsz) else (fr, us + bsz, ke))
      else acc)"
  by pat_completeness auto
termination
  by (relation "measure (\<lambda>(base, tot, m, off, acc). tot - off)") (auto intro: diff_less_mono2)

declare buddy_status_loop.simps [simp del]

definition buddy_status :: "mem_status option \<Rightarrow> buddy_heap \<Rightarrow> mem_status option" where
  "buddy_status status h =
     (case status of
        None \<Rightarrow> None
      | Some st \<Rightarrow>
          (if heap_base h = None then Some st
           else
             let (fr, us, ke) = buddy_status_loop (the (heap_base h)) (heap_total h) (nodes h) 0 (0, 0, 0)
             in Some \<lparr>ms_total = heap_total h, ms_free = fr, ms_used = us, ms_used_kernel = ke,
                      ms_alloc_count = unat (alloc_count h)\<rparr>))"

end
