(* ===== verification/Buddy_Tiles.thy ===== *)
theory Buddy_Tiles
  imports MM_Buddy
begin

text \<open>
  The geometry of the buddy system. A set \<open>S\<close> of offsets and their orders tile the heap when the
  blocks are aligned to their size, disjoint and cover it. Splitting a block and merging two buddies
  keep the tiling; the buddy of a block, found by XOR, is the start of a block whenever it lies in
  the heap, so that \<open>mm_free\<close> only reads true headers.
\<close>

definition tiles :: "nat \<Rightarrow> nat set \<Rightarrow> (nat \<Rightarrow> nat) \<Rightarrow> bool" where
  "tiles tot S od \<longleftrightarrow> finite S \<and>
     (\<forall>q\<in>S. MIN_ORDER \<le> od q \<and> od q \<le> MAX_ORDER \<and> 2 ^ od q dvd q \<and> q + 2 ^ od q \<le> tot) \<and>
     (\<forall>q\<in>S. \<forall>r\<in>S. q < r \<longrightarrow> q + 2 ^ od q \<le> r) \<and>
     (\<forall>x<tot. \<exists>q\<in>S. q \<le> x \<and> x < q + 2 ^ od q)"

lemma tilesD:
  assumes "tiles tot S od"
  shows tiles_order: "q \<in> S \<Longrightarrow> MIN_ORDER \<le> od q \<and> od q \<le> MAX_ORDER"
    and tiles_dvd: "q \<in> S \<Longrightarrow> 2 ^ od q dvd q"
    and tiles_end: "q \<in> S \<Longrightarrow> q + 2 ^ od q \<le> tot"
    and tiles_disjoint: "q \<in> S \<Longrightarrow> r \<in> S \<Longrightarrow> q < r \<Longrightarrow> q + 2 ^ od q \<le> r"
    and tiles_cover: "x < tot \<Longrightarrow> \<exists>q\<in>S. q \<le> x \<and> x < q + 2 ^ od q"
  using assms unfolding tiles_def by blast+

lemma tiles_cong: "(\<And>q. q \<in> S \<Longrightarrow> od' q = od q) \<Longrightarrow> tiles tot S od' = tiles tot S od"
  unfolding tiles_def by (simp cong: conj_cong ball_cong)

subsection \<open>Multiples of a power\<close>

lemma aligned_eq:
  fixes s x :: nat
  assumes "d dvd s" "d dvd x" "s \<le> x" "x < s + d"
  shows "s = x"
proof -
  from assms(1,2) obtain i j where "s = d * i" "x = d * j" by (auto simp: dvd_def)
  with assms(3,4) have "d * i \<le> d * j" "d * j < d * (i + 1)" by simp_all
  then have "j < i + 1" "d \<noteq> 0" by (auto simp only: mult_less_cancel1)
  with \<open>d * i \<le> d * j\<close> have "i = j" by simp
  with \<open>s = d * i\<close> \<open>x = d * j\<close> show ?thesis by simp
qed

text \<open>The buddy of a block of order \<open>k\<close>.\<close>

definition buddy_of :: "nat \<Rightarrow> nat \<Rightarrow> nat" where
  "buddy_of q k = q XOR push_bit k 1"

lemma buddy_of_eq:
  "buddy_of (2 ^ k * j) k = (if even j then 2 ^ k * j + 2 ^ k else 2 ^ k * j - 2 ^ k)"
proof -
  have "2 ^ k * j = push_bit k j" by (simp add: push_bit_eq_mult mult.commute)
  then have "buddy_of (2 ^ k * j) k = push_bit k (j XOR 1)" by (simp add: buddy_of_def push_bit_xor)
  also have "j XOR 1 = (if even j then j + 1 else j - 1)" by (simp add: xor_Suc_0_eq)
  finally show ?thesis by (simp add: push_bit_eq_mult algebra_simps diff_mult_distrib)
qed

text \<open>Both halves of the block of the next order.\<close>

lemma buddy_halves:
  assumes "2 ^ k dvd q"
  shows "\<exists>u. 2 ^ Suc k dvd u \<and> {q, buddy_of q k} = {u, u + 2 ^ k} \<and> q \<noteq> buddy_of q k"
proof -
  from assms obtain j where q: "q = 2 ^ k * j" by (auto simp: dvd_def)
  show ?thesis
  proof (cases "even j")
    case True
    then have "2 ^ Suc k dvd q" by (auto simp: q dvd_def)
    with True show ?thesis by (intro exI [of _ q]) (simp add: q buddy_of_eq)
  next
    case False
    then obtain i where j: "j = 2 * i + 1" by (auto elim: oddE)
    then have "2 ^ Suc k dvd q - 2 ^ k" "q = (q - 2 ^ k) + 2 ^ k" by (auto simp: q dvd_def algebra_simps)
    moreover have "buddy_of q k = q - 2 ^ k" using False by (simp add: q buddy_of_eq)
    ultimately show ?thesis by (intro exI [of _ "q - 2 ^ k"]) auto
  qed
qed

subsection \<open>The buddy is a block\<close>

lemma tiles_buddy:
  assumes t: "tiles tot S od" and q: "q \<in> S" "od q = k" and e: "buddy_of q k + 2 ^ k \<le> tot"
  shows "buddy_of q k \<in> S"
proof -
  let ?b = "buddy_of q k"
  obtain u where u: "2 ^ Suc k dvd u" "{q, ?b} = {u, u + 2 ^ k}" "q \<noteq> ?b"
    using buddy_halves [of k q] tiles_dvd [OF t q(1)] q(2) by auto
  have in2: "u \<le> q" "q < u + 2 ^ Suc k" "u \<le> ?b" "?b < u + 2 ^ Suc k"
    using u(2) by (auto simp: doubleton_eq_iff)
  have "?b < tot" using e by (rule less_le_trans [rotated]) simp
  from tiles_cover [OF t this] obtain s where s: "s \<in> S" "s \<le> ?b" "?b < s + 2 ^ od s" by blast
  have bd: "2 ^ k dvd ?b"
  proof -
    have "2 ^ k dvd u" using u(1) by (meson dvd_trans le_imp_power_dvd le_SucI le_refl)
    then show ?thesis using u(2) by (auto simp: doubleton_eq_iff)
  qed
  show ?thesis
  proof (cases "od s \<le> k")
    case True
    then have "2 ^ od s dvd ?b" using bd by (meson dvd_trans le_imp_power_dvd)
    from aligned_eq [OF tiles_dvd [OF t s(1)] this s(2,3)] show ?thesis using s(1) by simp
  next
    case False
    then have "2 ^ Suc k dvd s"
      using tiles_dvd [OF t s(1)] by (meson dvd_trans le_imp_power_dvd not_less_eq_eq)
    have su: "s \<le> u"
    proof (rule ccontr)
      assume "\<not> s \<le> u"
      then have "u < s" by simp
      with aligned_eq [OF u(1) \<open>2 ^ Suc k dvd s\<close>] s(2) in2(4) show False by simp
    qed
    have "u + 2 ^ Suc k \<le> s + 2 ^ od s"
    proof -
      have "2 ^ Suc k dvd s + 2 ^ od s"
        using \<open>2 ^ Suc k dvd s\<close> False by (intro dvd_add le_imp_power_dvd) simp_all
      then show ?thesis
        using aligned_eq [OF u(1) _, of "s + 2 ^ od s"] s(3) in2(3) by (metis le_trans less_imp_le not_less order.strict_trans2)
    qed
    then have "s \<le> q" "q < s + 2 ^ od s" using su in2 by simp_all
    moreover have "s \<noteq> q" using False q(2) by auto
    ultimately show ?thesis using tiles_disjoint [OF t s(1) q(1)] by simp
  qed
qed

subsection \<open>Splitting\<close>

lemma tiles_split:
  assumes t: "tiles tot S od" and q: "q \<in> S" "od q = Suc f" "MIN_ORDER \<le> f"
  shows "tiles tot (insert (q + 2 ^ f) S) (od(q := f, q + 2 ^ f := f))" "q + 2 ^ f \<notin> S"
proof -
  let ?r = "q + 2 ^ f" and ?od = "od(q := f, q + 2 ^ f := f)"
  show nr: "?r \<notin> S"
  proof
    assume "?r \<in> S"
    from tiles_disjoint [OF t q(1) this] have "q + 2 ^ od q \<le> ?r" by simp
    then show False by (simp add: q(2))
  qed
  have dq: "2 ^ f dvd q" using tiles_dvd [OF t q(1)] q(2) by (simp add: dvd_def) (metis mult.assoc mult.commute)
  show "tiles tot (insert ?r S) ?od" unfolding tiles_def
  proof (intro conjI ballI allI impI)
    show "finite (insert ?r S)" using t by (simp add: tiles_def)
  next
    fix x assume "x \<in> insert ?r S"
    then show "MIN_ORDER \<le> ?od x" "?od x \<le> MAX_ORDER" "2 ^ ?od x dvd x" "x + 2 ^ ?od x \<le> tot"
      using tiles_order [OF t, of x] tiles_order [OF t q(1)] tiles_dvd [OF t, of x] tiles_end [OF t, of x] tiles_end [OF t q(1)] q dq
      by (auto)
  next
    fix x y assume "x \<in> insert ?r S" "y \<in> insert ?r S" "x < y"
    then show "x + 2 ^ ?od x \<le> y"
      using tiles_disjoint [OF t, of x y] tiles_disjoint [OF t q(1), of y] tiles_disjoint [OF t q(1), of x]
        tiles_disjoint [OF t, of x q] q nr
      by (cases "q < x") (auto split: if_splits)
  next
    fix x assume "x < tot"
    from tiles_cover [OF t this] obtain s where s: "s \<in> S" "s \<le> x" "x < s + 2 ^ od s" by blast
    show "\<exists>p\<in>insert ?r S. p \<le> x \<and> x < p + 2 ^ ?od p"
    proof (cases "s = q")
      case True
      then show ?thesis using s q(2) by (cases "x < ?r") auto
    next
      case False
      then show ?thesis using s nr by (intro bexI [of _ s]) auto
    qed
  qed
qed

subsection \<open>Merging\<close>

lemma tiles_merge:
  assumes t: "tiles tot S od" and q: "q \<in> S" "od q = k" "k < MAX_ORDER"
    and b: "buddy_of q k \<in> S" "od (buddy_of q k) = k"
  defines "u \<equiv> min q (buddy_of q k)" and "v \<equiv> max q (buddy_of q k)"
  shows "tiles tot (S - {v}) (od(u := Suc k))" "u \<in> S" "v \<in> S" "u \<noteq> v"
proof -
  obtain w where w: "2 ^ Suc k dvd w" "{q, buddy_of q k} = {w, w + 2 ^ k}" "q \<noteq> buddy_of q k"
    using buddy_halves [of k q] tiles_dvd [OF t q(1)] q(2) by auto
  have uv: "u = w" "v = w + 2 ^ k" using w(2) by (auto simp: u_def v_def doubleton_eq_iff)
  show us: "u \<in> S" "v \<in> S" "u \<noteq> v" using q(1) b(1) uv by (auto simp: u_def v_def min_def max_def)
  have o2: "od u = k" "od v = k" using q(2) b(2) by (auto simp: u_def v_def min_def max_def)
  let ?od = "od(u := Suc k)"
  show "tiles tot (S - {v}) ?od" unfolding tiles_def
  proof (intro conjI ballI allI impI)
    show "finite (S - {v})" using t by (simp add: tiles_def)
  next
    fix x assume x: "x \<in> S - {v}"
    then show "MIN_ORDER \<le> ?od x" "?od x \<le> MAX_ORDER" "2 ^ ?od x dvd x" "x + 2 ^ ?od x \<le> tot"
      using tiles_order [OF t, of x] tiles_order [OF t q(1)] tiles_dvd [OF t, of x] tiles_end [OF t, of x]
        tiles_end [OF t us(2)] q w(1) uv o2 by auto
  next
    fix x y assume x: "x \<in> S - {v}" and y: "y \<in> S - {v}" and l: "x < y"
    show "x + 2 ^ ?od x \<le> y"
    proof (cases "x = u")
      case True
      have "u + 2 ^ k \<le> y" using tiles_disjoint [OF t us(1), of y] y l True o2 by simp
      then have "v < y" using uv y by auto
      then show ?thesis using tiles_disjoint [OF t us(2), of y] y o2 True uv by simp
    next
      case False
      then show ?thesis using tiles_disjoint [OF t, of x y] x y l by simp
    qed
  next
    fix x assume "x < tot"
    from tiles_cover [OF t this] obtain s where s: "s \<in> S" "s \<le> x" "x < s + 2 ^ od s" by blast
    show "\<exists>p\<in>S - {v}. p \<le> x \<and> x < p + 2 ^ ?od p"
    proof (cases "s = u \<or> s = v")
      case True
      then show ?thesis using s us uv o2 by (intro bexI [of _ u]) auto
    next
      case False
      then show ?thesis using s by (intro bexI [of _ s]) auto
    qed
  qed
qed

end
