(* ===== verification/Buddy_Lists.thy ===== *)
theory Buddy_Lists
  imports Buddy_Tiles
begin

text \<open>
  The free lists. \<open>chain m p bs\<close> says that the list from \<open>p\<close> visits the nodes \<open>bs\<close>; \<open>chains\<close> that
  the list of each order visits exactly the free blocks of this order, except a block \<open>x\<close> the
  code has in hand. The lemmas say what pushing, popping and \<open>list_remove\<close> do to them.
\<close>

fun chain :: "(addr \<Rightarrow> FreeNode) \<Rightarrow> ptr \<Rightarrow> addr list \<Rightarrow> bool" where
  "chain m p [] \<longleftrightarrow> p = None"
| "chain m p (b # bs) \<longleftrightarrow> p = Some b \<and> chain m (fn_next (m b)) bs"

lemma chain_cong: "(\<And>b. b \<in> set bs \<Longrightarrow> fn_next (m' b) = fn_next (m b)) \<Longrightarrow> chain m' p bs = chain m p bs"
  by (induction bs arbitrary: p) auto

lemma chain_append: "chain m p (as @ b # bs) \<Longrightarrow> chain m (Some b) (b # bs)"
  by (induction as arbitrary: p) auto

lemma find_link_simps [simp]:
  "find_link m t prev None = Some (prev, None)"
  "find_link m t prev (Some c) = (if c = t then Some (prev, Some c) else find_link m t (Some c) (fn_next (m c)))"
  by (subst find_link.simps, simp)+

lemma find_link_found:
  "chain m p (as @ t # bs) \<Longrightarrow> t \<notin> set as \<Longrightarrow>
   find_link m t prev p = Some (if as = [] then prev else Some (last as), Some t)"
  by (induction as arbitrary: p prev) auto

text \<open>Unlinking a node that is in the list.\<close>

lemma unlink_chain:
  "chain m p (as @ t # bs) \<Longrightarrow> distinct (as @ t # bs) \<Longrightarrow> as \<noteq> [] \<Longrightarrow>
   chain (m(last as := (m (last as))\<lparr>fn_next := fn_next (m t)\<rparr>)) p (as @ bs)"
proof (induction as arbitrary: p)
  case (Cons a as)
  show ?case
  proof (cases "as = []")
    case True
    have "chain (m(a := (m a)\<lparr>fn_next := fn_next (m t)\<rparr>)) (fn_next (m t)) bs = chain m (fn_next (m t)) bs"
      using Cons.prems(2) by (intro chain_cong) auto
    then show ?thesis using Cons.prems(1) True by (simp del: fun_upd_apply) simp
  next
    case False
    have "a \<noteq> last as" using Cons.prems(2) False last_in_set by fastforce
    then show ?thesis using Cons.IH [of "fn_next (m a)"] Cons.prems False by simp
  qed
qed simp

lemma list_at_set_list:
  "length ls = ORDERS \<Longrightarrow> MIN_ORDER \<le> i \<Longrightarrow> i \<le> MAX_ORDER \<Longrightarrow> MIN_ORDER \<le> k \<Longrightarrow> k \<le> MAX_ORDER \<Longrightarrow>
   list_at (set_list i p ls) k = (if k = i then p else list_at ls k)"
  by (auto simp: list_at_def set_list_def order_idx_def nth_list_update)

lemma length_set_list [simp]: "length (set_list i p ls) = length ls"
  by (simp add: set_list_def)

definition in_list :: "addr \<Rightarrow> (addr \<Rightarrow> FreeNode) \<Rightarrow> nat set \<Rightarrow> nat set \<Rightarrow> nat \<Rightarrow> addr set" where
  "in_list base m S x i = (\<lambda>q. base + q) ` {q \<in> S. fn_free (m (base + q)) \<and> fn_order (m (base + q)) = i \<and> q \<notin> x}"

definition chains :: "addr \<Rightarrow> nat set \<Rightarrow> (addr \<Rightarrow> FreeNode) \<Rightarrow> ptr list \<Rightarrow> nat set \<Rightarrow> bool" where
  "chains base x m ls S \<longleftrightarrow> length ls = ORDERS \<and>
     (\<forall>i. MIN_ORDER \<le> i \<longrightarrow> i \<le> MAX_ORDER \<longrightarrow>
       (\<exists>bs. chain m (list_at ls i) bs \<and> distinct bs \<and> set bs = in_list base m S x i))"

lemma chainsE:
  assumes "chains base x m ls S" "MIN_ORDER \<le> i" "i \<le> MAX_ORDER"
  obtains bs where "chain m (list_at ls i) bs" "distinct bs" "set bs = in_list base m S x i"
  using assms unfolding chains_def by blast

lemma chains_length: "chains base x m ls S \<Longrightarrow> length ls = ORDERS"
  by (simp add: chains_def)

lemma chainsI:
  assumes "length ls = ORDERS"
    and "\<And>i. MIN_ORDER \<le> i \<Longrightarrow> i \<le> MAX_ORDER \<Longrightarrow> \<exists>bs. chain m (list_at ls i) bs \<and> distinct bs \<and> set bs = in_list base m S x i"
  shows "chains base x m ls S"
  using assms unfolding chains_def by blast

lemma in_list_iff: "base + q \<in> in_list base m S x i \<longleftrightarrow>
    q \<in> S \<and> fn_free (m (base + q)) \<and> fn_order (m (base + q)) = i \<and> q \<notin> x"
  by (auto simp: in_list_def)

lemma in_list_cong:
  assumes "\<And>q. q \<in> S \<Longrightarrow> q \<notin> x \<Longrightarrow> fn_free (m' (base + q)) = fn_free (m (base + q)) \<and> fn_order (m' (base + q)) = fn_order (m (base + q))"
    and "S - x = S' - x'" "\<And>q. q \<in> S' \<Longrightarrow> q \<notin> x' \<Longrightarrow> q \<in> S \<and> q \<notin> x"
  shows "in_list base m' S' x' i = in_list base m S x i"
proof -
  have "{q \<in> S'. fn_free (m' (base + q)) \<and> fn_order (m' (base + q)) = i \<and> q \<notin> x'} =
      {q \<in> S. fn_free (m (base + q)) \<and> fn_order (m (base + q)) = i \<and> q \<notin> x}"
    using assms by auto
  then show ?thesis by (simp add: in_list_def)
qed

subsection \<open>Taking a block in hand\<close>

text \<open>Popping the head of a list.\<close>

lemma chains_pop:
  assumes c: "chains base {} m ls S" and i: "MIN_ORDER \<le> i" "i \<le> MAX_ORDER" and b: "list_at ls i = Some (base + q)"
  shows "chains base {q} m (set_list i (fn_next (m (base + q))) ls) S"
    and "q \<in> S" "fn_free (m (base + q))" "fn_order (m (base + q)) = i"
proof -
  note len = chains_length [OF c]
  obtain bs where bs: "chain m (list_at ls i) bs" "distinct bs" "set bs = in_list base m S {} i"
    using chainsE [OF c i] by blast
  then obtain cs where cs: "bs = (base + q) # cs" using b by (cases bs) auto
  show q: "q \<in> S" "fn_free (m (base + q))" "fn_order (m (base + q)) = i"
    using bs(3) cs in_list_iff [of base q m S "{}" i] by auto
  have other: "in_list base m S {q} k = in_list base m S {} k - {base + q}" for k by (auto simp: in_list_def)
  show "chains base {q} m (set_list i (fn_next (m (base + q))) ls) S"
  proof (rule chainsI)
    fix k assume k: "MIN_ORDER \<le> k" "k \<le> MAX_ORDER"
    show "\<exists>bs. chain m (list_at (set_list i (fn_next (m (base + q))) ls) k) bs \<and> distinct bs \<and> set bs = in_list base m S {q} k"
    proof (cases "k = i")
      case True
      have "chain m (fn_next (m (base + q))) cs \<and> distinct cs \<and> set cs = in_list base m S {q} k"
        using bs cs True by (auto simp: other)
      then show ?thesis using True len i by (auto simp: list_at_set_list)
    next
      case False
      have "base + q \<notin> in_list base m S {} k" using q(3) False by (simp add: in_list_iff)
      then show ?thesis using chainsE [OF c k] len i k False by (simp add: list_at_set_list other) metis
    qed
  qed (simp add: len)
qed

text \<open>A list with one node removed by \<open>list_remove\<close>.\<close>

lemma chains_remove:
  assumes c: "chains base x m ls S" and r: "r \<in> S" "fn_free (m (base + r))" "fn_order (m (base + r)) = i" "r \<notin> x"
    and i: "MIN_ORDER \<le> i" "i \<le> MAX_ORDER"
  obtains m' ls' where "list_remove i (base + r) (m, ls) = Some (m', ls')" "chains base (insert r x) m' ls' S"
    "\<And>a. fn_free (m' a) = fn_free (m a) \<and> fn_order (m' a) = fn_order (m a) \<and> fn_kernel (m' a) = fn_kernel (m a)"
proof -
  note len = chains_length [OF c]
  let ?t = "base + r"
  obtain bs where bs: "chain m (list_at ls i) bs" "distinct bs" "set bs = in_list base m S x i"
    using chainsE [OF c i] by blast
  have "?t \<in> set bs" using r bs(3) by (simp add: in_list_iff)
  then obtain as cs where ac: "bs = as @ ?t # cs" by (meson split_list)
  let ?m = "if as = [] then m else m(last as := (m (last as))\<lparr>fn_next := fn_next (m ?t)\<rparr>)"
  let ?ls = "if as = [] then set_list i (fn_next (m ?t)) ls else ls"
  have run: "list_remove i ?t (m, ls) = Some (?m, ?ls)"
    using find_link_found [of m "list_at ls i" as ?t cs None] bs(1,2) by (simp add: list_remove_def ac)
  have new: "chain ?m (list_at ?ls i) (as @ cs)"
    using bs(1,2) unlink_chain [of m "list_at ls i" as ?t cs] len i by (auto simp: ac list_at_set_list)
  have same: "fn_free (?m a) = fn_free (m a)" "fn_order (?m a) = fn_order (m a)" "fn_kernel (?m a) = fn_kernel (m a)" for a
    by auto
  have il: "in_list base ?m S (insert r x) k = in_list base m S x k - {?t}" for k
    unfolding in_list_def same by auto
  have "chains base (insert r x) ?m ?ls S"
  proof (rule chainsI)
    fix k assume k: "MIN_ORDER \<le> k" "k \<le> MAX_ORDER"
    show "\<exists>bs. chain ?m (list_at ?ls k) bs \<and> distinct bs \<and> set bs = in_list base ?m S (insert r x) k"
    proof (cases "k = i")
      case True
      have "distinct (as @ cs) \<and> set (as @ cs) = in_list base ?m S (insert r x) i"
        unfolding il using bs(2) bs(3) [symmetric] by (auto simp: ac)
      then show ?thesis using new True by blast
    next
      case False
      obtain ds where ds: "chain m (list_at ls k) ds" "distinct ds" "set ds = in_list base m S x k"
        using chainsE [OF c k] by blast
      have dis: "set bs \<inter> set ds = {}" using False by (auto simp: bs(3) ds(3) in_list_def)
      have "chain ?m (list_at ?ls k) ds"
      proof -
        have "list_at ?ls k = list_at ls k" using len i k False by (simp add: list_at_set_list)
        moreover have "fn_next (?m b) = fn_next (m b)" if "b \<in> set ds" for b
        proof -
          have "b \<notin> set as" using dis that by (auto simp: ac)
          then show ?thesis using last_in_set by fastforce
        qed
        ultimately show ?thesis using ds(1) chain_cong [of ds ?m m] by simp
      qed
      moreover have "?t \<notin> set ds" using dis by (auto simp: ac)
      then have "set ds = in_list base ?m S (insert r x) k" unfolding il ds(3) by simp
      ultimately show ?thesis using ds(2) by blast
    qed
  qed (simp add: len)
  with run same that show thesis by blast
qed

text \<open>Putting the block in hand at the head of its list.\<close>

lemma chains_push:
  assumes c: "chains base {q} m ls S" and q: "q \<in> S" "fn_free (m (base + q))" "fn_order (m (base + q)) = i"
    and i: "MIN_ORDER \<le> i" "i \<le> MAX_ORDER"
  shows "chains base {} (m(base + q := (m (base + q))\<lparr>fn_next := list_at ls i\<rparr>)) (set_list i (Some (base + q)) ls) S"
    (is "chains base {} ?m ?ls S")
proof (rule chainsI)
  note len = chains_length [OF c]
  show "length ?ls = ORDERS" by (simp add: len)
  fix k assume k: "MIN_ORDER \<le> k" "k \<le> MAX_ORDER"
  obtain ds where ds: "chain m (list_at ls k) ds" "distinct ds" "set ds = in_list base m S {q} k"
    using chainsE [OF c k] by blast
  have nq: "base + q \<notin> set ds" by (simp add: ds(3) in_list_iff)
  have "chain ?m (list_at ls k) ds = chain m (list_at ls k) ds"
  proof (rule chain_cong)
    fix b assume "b \<in> set ds"
    then have "b \<noteq> base + q" using nq by blast
    then show "fn_next (?m b) = fn_next (m b)" by simp
  qed
  then have cd: "chain ?m (list_at ls k) ds" using ds(1) by simp
  have il: "in_list base ?m S {} k = in_list base m S {q} k \<union> (if k = i then {base + q} else {})"
    using q by (auto simp: in_list_def)
  show "\<exists>bs. chain ?m (list_at ?ls k) bs \<and> distinct bs \<and> set bs = in_list base ?m S {} k"
  proof (cases "k = i")
    case True
    then have "chain ?m (list_at ?ls k) ((base + q) # ds)" using cd len i by (simp add: list_at_set_list)
    moreover have "distinct ((base + q) # ds)" using nq ds(2) by simp
    moreover have "set ((base + q) # ds) = in_list base ?m S {} k" unfolding il using ds(3) True by simp
    ultimately show ?thesis by blast
  next
    case False
    then have "list_at ?ls k = list_at ls k" using len i k by (simp add: list_at_set_list)
    moreover have "set ds = in_list base ?m S {} k" unfolding il using ds(3) False by simp
    ultimately show ?thesis using cd ds(2) by metis
  qed
qed

end
