(* ===== verification/Buddy_Props.thy ===== *)
theory Buddy_Props
  imports Buddy_Lists Allocator
begin

text \<open>
  The buddy allocator meets the contract of \<open>memoryManager.h\<close>. \<open>buddy_rep\<close> joins the tiling of the
  heap with the free lists; allocation and release keep it, always return, and the region handed
  out is the payload of a tile. The locale \<open>allocator\<close> is interpreted on the code's operations, so
  that the client lemma proved for it holds for this build of the kernel too.
\<close>

subsection \<open>The invariant\<close>

definition orders :: "addr \<Rightarrow> (addr \<Rightarrow> FreeNode) \<Rightarrow> nat \<Rightarrow> nat" where
  "orders base m q = fn_order (m (base + q))"

text \<open>\<open>x\<close> holds the block in hand, if any.\<close>

definition holds_blocks :: "addr \<Rightarrow> nat \<Rightarrow> nat set \<Rightarrow> (addr \<Rightarrow> FreeNode) \<Rightarrow> ptr list \<Rightarrow> nat set \<Rightarrow> bool" where
  "holds_blocks base tot x m ls S \<longleftrightarrow> tiles tot S (orders base m) \<and> chains base x m ls S"

definition used_regions :: "addr \<Rightarrow> (addr \<Rightarrow> FreeNode) \<Rightarrow> nat set \<Rightarrow> (nat \<times> nat) set" where
  "used_regions base m S =
     (\<lambda>q. (base + q + BHDR, 2 ^ fn_order (m (base + q)) - BHDR)) ` {q \<in> S. \<not> fn_free (m (base + q))}"

text \<open>The heap of \<open>tot\<close> bytes at \<open>base\<close>; \<open>L\<close> are the live payloads with their sizes.\<close>

definition buddy_rep :: "addr \<Rightarrow> nat \<Rightarrow> buddy_heap \<Rightarrow> (nat \<times> nat) set \<Rightarrow> bool" where
  "buddy_rep base tot h L \<longleftrightarrow> heap_base h = Some base \<and> heap_total h = tot \<and>
     (\<exists>S. holds_blocks base tot {} (nodes h) (free_lists h) S \<and> L = used_regions base (nodes h) S)"

subsection \<open>Splitting\<close>

lemma in_list_subset: "a \<in> in_list base m S x i \<Longrightarrow> \<exists>q\<in>S. a = base + q \<and> q \<notin> x"
  by (auto simp: in_list_def)

lemma split_step:
  assumes h: "holds_blocks base tot {q} m ls S" and q: "q \<in> S" "fn_free (m (base + q))" "orders base m q = Suc f"
    and f: "MIN_ORDER \<le> f"
  defines "r \<equiv> q + 2 ^ f"
  defines "m1 \<equiv> m(base + r := \<lparr>fn_order = f, fn_free = True, fn_kernel = False, fn_next = list_at ls f\<rparr>)"
  defines "m2 \<equiv> m1(base + q := (m1 (base + q))\<lparr>fn_order := f\<rparr>)"
  shows "holds_blocks base tot {q} m2 (set_list f (Some (base + r)) ls) (insert r S)"
    and "fn_free (m2 (base + q))" "orders base m2 q = f" "r \<notin> S"
    and "used_regions base m2 (insert r S) = used_regions base m S"
proof -
  have t: "tiles tot S (orders base m)" and c: "chains base {q} m ls S" using h by (simp_all add: holds_blocks_def)
  have fM: "f \<le> MAX_ORDER" using tiles_order [OF t q(1)] q(3) by simp
  note ts = tiles_split [OF t q(1,3) f, folded r_def]
  show nr: "r \<notin> S" by (rule ts(2))
  have rq: "r \<noteq> q" by (simp add: r_def)
  have od: "orders base m2 = (orders base m)(q := f, r := f)"
    using rq by (auto simp: orders_def m2_def m1_def)
  show "fn_free (m2 (base + q))" "orders base m2 q = f" using q(2) rq by (simp_all add: m2_def m1_def orders_def)
  have m2: "m2 (base + p) = m (base + p)" if "p \<noteq> q" "p \<noteq> r" for p using that by (simp add: m2_def m1_def)
  have m2S: "m2 (base + p) = m (base + p)" if "p \<in> S" "p \<noteq> q" for p using that m2 [of p] nr by auto
  have m2r: "m2 (base + r) = \<lparr>fn_order = f, fn_free = True, fn_kernel = False, fn_next = list_at ls f\<rparr>"
    using rq by (simp add: m2_def m1_def)
  have il: "in_list base m2 (insert r S) {q} k = in_list base m S {q} k \<union> (if k = f then {base + r} else {})" for k
  proof -
    have "{p \<in> insert r S. fn_free (m2 (base + p)) \<and> fn_order (m2 (base + p)) = k \<and> p \<notin> {q}} =
        {p \<in> S. fn_free (m (base + p)) \<and> fn_order (m (base + p)) = k \<and> p \<notin> {q}} \<union> (if k = f then {r} else {})"
      (is "?A = ?B")
    proof (rule set_eqI)
      fix p show "p \<in> ?A \<longleftrightarrow> p \<in> ?B"
        using m2r nr rq m2S [of p] by (cases "p = r") auto
    qed
    then show ?thesis by (simp add: in_list_def image_Un)
  qed
  have "chains base {q} m2 (set_list f (Some (base + r)) ls) (insert r S)"
  proof (rule chainsI)
    fix k assume k: "MIN_ORDER \<le> k" "k \<le> MAX_ORDER"
    obtain ds where ds: "chain m (list_at ls k) ds" "distinct ds" "set ds = in_list base m S {q} k"
      using chainsE [OF c k] by blast
    have nd: "base + r \<notin> set ds" "base + q \<notin> set ds" using nr by (auto simp: ds(3) in_list_iff)
    have "chain m2 (list_at ls k) ds = chain m (list_at ls k) ds"
    proof (rule chain_cong)
      fix b assume "b \<in> set ds"
      then have "b \<noteq> base + r" "b \<noteq> base + q" using nd by blast+
      then show "fn_next (m2 b) = fn_next (m b)" by (simp add: m2_def m1_def)
    qed
    then have cd: "chain m2 (list_at ls k) ds" using ds(1) by simp
    show "\<exists>bs. chain m2 (list_at (set_list f (Some (base + r)) ls) k) bs \<and> distinct bs \<and>
        set bs = in_list base m2 (insert r S) {q} k"
    proof (cases "k = f")
      case True
      have "chain m2 (Some (base + r)) ((base + r) # ds)" using cd True by (simp add: m2r)
      moreover have "list_at (set_list f (Some (base + r)) ls) k = Some (base + r)"
        using chains_length [OF c] k True by (simp add: list_at_set_list)
      moreover have "set ((base + r) # ds) = in_list base m2 (insert r S) {q} k" unfolding il using ds(3) True by simp
      ultimately show ?thesis using ds(2) nd(1) by (metis distinct.simps(2))
    next
      case False
      then have "list_at (set_list f (Some (base + r)) ls) k = list_at ls k"
        using chains_length [OF c] k f fM by (simp add: list_at_set_list)
      moreover have "set ds = in_list base m2 (insert r S) {q} k" unfolding il using ds(3) False by simp
      ultimately show ?thesis using cd ds(2) by metis
    qed
  qed (simp add: chains_length [OF c])
  then show "holds_blocks base tot {q} m2 (set_list f (Some (base + r)) ls) (insert r S)"
    using ts(1) by (simp add: holds_blocks_def od)
  have "fn_free (m2 (base + q))" using q(2) rq by (simp add: m2_def m1_def)
  then have "p \<in> insert r S \<and> \<not> fn_free (m2 (base + p)) \<longleftrightarrow> p \<in> S \<and> \<not> fn_free (m (base + p))" for p
    using m2r m2S [of p] q(2) nr by (cases "p = q"; cases "p = r") auto
  then have "{p \<in> insert r S. \<not> fn_free (m2 (base + p))} = {p \<in> S. \<not> fn_free (m (base + p))}" by blast
  moreover have "fn_order (m2 (base + p)) = fn_order (m (base + p))" if "p \<in> S" "\<not> fn_free (m (base + p))" for p
    using that m2S [of p] q(2) by (cases "p = q") auto
  ultimately show "used_regions base m2 (insert r S) = used_regions base m S"
    unfolding used_regions_def by (auto intro!: image_cong)
qed

lemma split_loop_ok:
  "holds_blocks base tot {q} m ls S \<Longrightarrow> q \<in> S \<Longrightarrow> fn_free (m (base + q)) \<Longrightarrow> orders base m q = found \<Longrightarrow>
   order \<le> found \<Longrightarrow> MIN_ORDER \<le> order \<Longrightarrow>
   \<exists>m' ls' S'. split_loop found order (base + q) (m, ls) = (m', ls') \<and> holds_blocks base tot {q} m' ls' S' \<and>
     q \<in> S' \<and> fn_free (m' (base + q)) \<and> orders base m' q = order \<and> used_regions base m' S' = used_regions base m S"
proof (induction "found - order" arbitrary: found m ls S)
  case 0
  then show ?case by (subst split_loop.simps) auto
next
  case (Suc n)
  define f where "f = found - 1"
  have f: "found = Suc f" "order \<le> f" using Suc.hyps(2) by (auto simp: f_def)
  let ?r = "q + 2 ^ f"
  let ?m1 = "m(base + ?r := \<lparr>fn_order = f, fn_free = True, fn_kernel = False, fn_next = list_at ls f\<rparr>)"
  let ?m2 = "?m1(base + q := (?m1 (base + q))\<lparr>fn_order := f\<rparr>)"
  have of: "orders base m q = Suc f" using Suc.prems(4) f(1) by simp
  have mf: "MIN_ORDER \<le> f" using Suc.prems(6) f(2) by simp
  note st = split_step [OF Suc.prems(1-3) of mf]
  have "split_loop found order (base + q) (m, ls) =
      split_loop f order (base + q) (?m2, set_list f (Some (base + ?r)) ls)"
    using f by (subst split_loop.simps) (simp add: Let_def push_bit_eq_mult add.assoc)
  moreover have "\<exists>m' ls' S'. split_loop f order (base + q) (?m2, set_list f (Some (base + ?r)) ls) = (m', ls') \<and>
      holds_blocks base tot {q} m' ls' S' \<and> q \<in> S' \<and> fn_free (m' (base + q)) \<and> orders base m' q = order \<and>
      used_regions base m' S' = used_regions base ?m2 (insert ?r S)"
    by (rule Suc.hyps(1)) (use Suc.hyps(2) Suc.prems(2,6) f st(1-3) in auto)
  ultimately show ?case unfolding st(5) by simp
qed

subsection \<open>Allocation\<close>

lemma holds_mark:
  assumes m: "\<And>a. fn_next (m' a) = fn_next (m a) \<and> fn_order (m' a) = fn_order (m a)"
    and f: "\<And>p. p \<in> S \<Longrightarrow> (fn_free (m' (base + p)) \<and> p \<notin> x') = (fn_free (m (base + p)) \<and> p \<notin> x)"
  shows "holds_blocks base tot x' m' ls S = holds_blocks base tot x m ls S"
proof -
  have "orders base m' = orders base m" using m by (simp add: orders_def fun_eq_iff)
  moreover have "chain m' p bs = chain m p bs" for p bs by (rule chain_cong) (use m in simp)
  moreover have "in_list base m' S x' i = in_list base m S x i" for i
  proof -
    have "{q \<in> S. fn_free (m' (base + q)) \<and> fn_order (m' (base + q)) = i \<and> q \<notin> x'} =
        {q \<in> S. fn_free (m (base + q)) \<and> fn_order (m (base + q)) = i \<and> q \<notin> x}"
      by (rule Collect_cong) (use m f in metis)
    then show ?thesis by (simp add: in_list_def)
  qed
  ultimately show ?thesis by (simp add: holds_blocks_def chains_def)
qed

lemma mark_used:
  fixes b :: bool
  assumes h: "holds_blocks base tot {q} m ls S" and q: "q \<in> S" "fn_free (m (base + q))" "orders base m q = k"
  defines "m' \<equiv> m(base + q := (m (base + q))\<lparr>fn_free := False, fn_kernel := b\<rparr>)"
  shows "holds_blocks base tot {} m' ls S"
    and "used_regions base m' S = insert (base + q + BHDR, 2 ^ k - BHDR) (used_regions base m S)"
    and "base + q + BHDR \<notin> fst ` used_regions base m S"
proof -
  have "holds_blocks base tot {} m' ls S = holds_blocks base tot {q} m ls S"
    by (rule holds_mark) (auto simp: m'_def)
  then show "holds_blocks base tot {} m' ls S" using h by simp
  have "{p \<in> S. \<not> fn_free (m' (base + p))} = insert q {p \<in> S. \<not> fn_free (m (base + p))}"
    using q(1) by (auto simp: m'_def)
  moreover have "fn_order (m' (base + p)) = fn_order (m (base + p))" for p by (simp add: m'_def)
  ultimately show "used_regions base m' S = insert (base + q + BHDR, 2 ^ k - BHDR) (used_regions base m S)"
    using q(3) by (simp add: used_regions_def orders_def)
  show "base + q + BHDR \<notin> fst ` used_regions base m S" using q(2) by (auto simp: used_regions_def)
qed

lemma size_order_loop_ok:
  "size_order_loop order sz = Some k \<Longrightarrow> order \<le> MAX_ORDER \<Longrightarrow> order \<le> k \<and> k \<le> MAX_ORDER \<and> unat sz \<le> 2 ^ k"
proof (induction order sz rule: size_order_loop.induct)
  case (1 order sz)
  show ?case
  proof (cases "push_bit order 1 < sz")
    case True
    have "size_order_loop order sz = (if order + 1 > MAX_ORDER then None else size_order_loop (order + 1) sz)"
      using True 1(3) by (subst size_order_loop.simps) simp
    then show ?thesis using 1 True by (auto split: if_splits)
  next
    case False
    then have "size_order_loop order sz = Some order" by (subst size_order_loop.simps) simp
    moreover have "unat sz \<le> unat (push_bit order 1 :: u64)" using False by (simp add: word_le_nat_alt not_less)
    moreover have "unat (push_bit order 1 :: u64) = 2 ^ order"
    proof -
      have "(2 :: nat) ^ order \<le> 2 ^ 23" using 1(3) by (intro power_increasing) simp_all
      then have "(2 :: nat) ^ order < 2 ^ 64" by simp
      moreover have "(push_bit order 1 :: u64) = of_nat (2 ^ order)" by (simp add: push_bit_eq_mult)
      ultimately show ?thesis by (simp add: unat_of_nat del: of_nat_power)
    qed
    ultimately show ?thesis using 1(2,3) by simp
  qed
qed

definition buddy_fits :: "u64 \<Rightarrow> bool" where
  "buddy_fits n \<longleftrightarrow> unat n + BHDR < 2 ^ 64"

lemma buddy_malloc_ok:
  assumes "buddy_rep base tot h L"
  shows "\<exists>h' r. buddy_malloc_impl n k h = (h', r) \<and>
    (case r of
       None \<Rightarrow> buddy_rep base tot h' L
     | Some p \<Rightarrow> \<exists>sz. (buddy_fits n \<longrightarrow> unat n \<le> sz) \<and> buddy_rep base tot h' (insert (p, sz) L) \<and> p \<notin> fst ` L)"
proof (cases "n = 0")
  case True
  then show ?thesis using assms by (simp add: buddy_malloc_impl_def)
next
  case n0: False
  from assms obtain S where b: "heap_base h = Some base"
    "holds_blocks base (heap_total h) {} (nodes h) (free_lists h) S" "L = used_regions base (nodes h) S" "heap_total h = tot"
    by (auto simp: buddy_rep_def)
  show ?thesis
  proof (cases "size_to_order (n + of_nat BHDR)")
    case None
    then show ?thesis using assms n0 b(1) by (simp add: buddy_malloc_impl_def)
  next
    case (Some order)
    then have o: "MIN_ORDER \<le> order" "order \<le> MAX_ORDER" "unat (n + of_nat BHDR) \<le> 2 ^ order"
      using size_order_loop_ok [of MIN_ORDER "n + of_nat BHDR" order] by (simp_all add: size_to_order_def)
    show ?thesis
    proof (cases "find_order order (free_lists h)")
      case None
      then show ?thesis using assms n0 b(1) Some by (simp add: buddy_malloc_impl_def)
    next
      case (Some found)
      then have fo: "order \<le> found" "found \<le> MAX_ORDER" "list_at (free_lists h) found \<noteq> None"
        by (auto simp: find_order_def find_Some_iff nth_append)
      have c: "chains base {} (nodes h) (free_lists h) S" using b(2) by (simp add: holds_blocks_def)
      have mf: "MIN_ORDER \<le> found" using o(1) fo(1) by simp
      obtain bs where bs: "chain (nodes h) (list_at (free_lists h) found) bs" "set bs = in_list base (nodes h) S {} found"
        by (rule chainsE [OF c mf fo(2)])
      obtain a cs where "bs = a # cs" "list_at (free_lists h) found = Some a" using bs(1) fo(3) by (cases bs) auto
      moreover from this(1) have "a \<in> in_list base (nodes h) S {} found" using bs(2) by auto
      ultimately obtain q where q: "list_at (free_lists h) found = Some (base + q)" using in_list_subset by blast
      note pop = chains_pop [OF c mf fo(2) q]
      let ?ls = "set_list found (fn_next (nodes h (base + q))) (free_lists h)"
      have hp: "holds_blocks base (heap_total h) {q} (nodes h) ?ls S"
        using pop(1) b(2) by (simp add: holds_blocks_def)
      have of: "orders base (nodes h) q = found" using pop(4) by (simp add: orders_def)
      obtain m' ls' S' where s: "split_loop found order (base + q) (nodes h, ?ls) = (m', ls')"
        "holds_blocks base (heap_total h) {q} m' ls' S'" "q \<in> S'" "fn_free (m' (base + q))" "orders base m' q = order"
        "used_regions base m' S' = L"
        using split_loop_ok [OF hp pop(2,3) of fo(1) o(1)] unfolding b(3) [symmetric] by blast
      note mk = mark_used(1,2) [OF s(2-5), where b = k] and nw = mark_used(3) [OF s(2-5)]
      let ?h = "h\<lparr>nodes := m'(base + q := (m' (base + q))\<lparr>fn_free := False, fn_kernel := k\<rparr>), free_lists := ls',
          alloc_count := (if k then alloc_count h else alloc_count h + 1)\<rparr>"
      have run: "buddy_malloc_impl n k h = (?h, Some (base + q + BHDR))"
        using n0 b(1) \<open>size_to_order _ = _\<close> Some q s(1) by (simp add: buddy_malloc_impl_def Let_def)
      moreover have "buddy_rep base tot ?h (insert (base + q + BHDR, 2 ^ order - BHDR) L)"
        using mk(1,2) b(1,4) s(6) by (auto simp: buddy_rep_def)
      moreover have "base + q + BHDR \<notin> fst ` L" using nw s(6) by simp
      moreover have "unat n \<le> 2 ^ order - BHDR" if "buddy_fits n"
      proof -
        have "unat (n + of_nat BHDR) = unat n + BHDR" using that by (simp add: buddy_fits_def unat_word_ariths)
        then show ?thesis using o(3) by simp
      qed
      ultimately show ?thesis by (intro exI [of _ ?h] exI [of _ "Some (base + q + BHDR)"]) auto
    qed
  qed
qed

subsection \<open>Release\<close>

lemma mark_free:
  assumes h: "holds_blocks base tot {} m ls S" and q: "q \<in> S" "\<not> fn_free (m (base + q))"
  defines "m' \<equiv> m(base + q := (m (base + q))\<lparr>fn_free := True\<rparr>)"
  shows "holds_blocks base tot {q} m' ls S"
    and "used_regions base m' S = used_regions base m S - {(base + q + BHDR, 2 ^ fn_order (m (base + q)) - BHDR)}"
proof -
  have "holds_blocks base tot {q} m' ls S = holds_blocks base tot {} m ls S"
    by (rule holds_mark) (use q in \<open>auto simp: m'_def\<close>)
  then show "holds_blocks base tot {q} m' ls S" using h by simp
  have "{p \<in> S. \<not> fn_free (m' (base + p))} = {p \<in> S. \<not> fn_free (m (base + p))} - {q}"
    by (auto simp: m'_def)
  moreover have "fn_order (m' (base + p)) = fn_order (m (base + p))" for p by (simp add: m'_def)
  ultimately show "used_regions base m' S = used_regions base m S - {(base + q + BHDR, 2 ^ fn_order (m (base + q)) - BHDR)}"
    by (auto simp: used_regions_def)
qed

text \<open>The header of the merged block.\<close>

definition step_up :: "addr \<Rightarrow> nat \<Rightarrow> (addr \<Rightarrow> FreeNode) \<Rightarrow> addr \<Rightarrow> FreeNode" where
  "step_up a k m = m(a := (m a)\<lparr>fn_order := Suc k\<rparr>)"

lemma used_regions_cong:
  "(\<And>a. fn_order (m' a) = fn_order (m a)) \<Longrightarrow> (\<And>a. fn_free (m' a) = fn_free (m a)) \<Longrightarrow>
   used_regions base m' S = used_regions base m S"
  by (simp add: used_regions_def)

lemma merge_step:
  assumes h: "holds_blocks base tot {q} m ls S" and q: "q \<in> S" "fn_free (m (base + q))" "orders base m q = k" "k < MAX_ORDER"
    and b: "buddy_of q k \<in> S" "fn_free (m (base + buddy_of q k))" "orders base m (buddy_of q k) = k"
  obtains m1 ls1 S' where "list_remove k (base + buddy_of q k) (m, ls) = Some (m1, ls1)"
    "holds_blocks base tot {min q (buddy_of q k)} (step_up (base + min q (buddy_of q k)) k m1) ls1 S'"
    "min q (buddy_of q k) \<in> S'" "fn_free (step_up (base + min q (buddy_of q k)) k m1 (base + min q (buddy_of q k)))"
    "orders base (step_up (base + min q (buddy_of q k)) k m1) (min q (buddy_of q k)) = Suc k"
    "used_regions base (step_up (base + min q (buddy_of q k)) k m1) S' = used_regions base m S"
proof -
  let ?b = "buddy_of q k"
  have t: "tiles tot S (orders base m)" and c: "chains base {q} m ls S" using h by (simp_all add: holds_blocks_def)
  have k4: "MIN_ORDER \<le> k" "k \<le> MAX_ORDER" using tiles_order [OF t q(1)] q(3) by simp_all
  note mg = tiles_merge [OF t q(1,3,4) b(1,3)]
  have nb: "?b \<notin> {q}" using buddy_halves [of k q] tiles_dvd [OF t q(1)] q(3) by auto
  obtain m1 ls1 where r: "list_remove k (base + ?b) (m, ls) = Some (m1, ls1)" "chains base (insert ?b {q}) m1 ls1 S"
    and s: "\<And>a. fn_free (m1 a) = fn_free (m a) \<and> fn_order (m1 a) = fn_order (m a) \<and> fn_kernel (m1 a) = fn_kernel (m a)"
    using chains_remove [OF c b(1,2) _ nb k4] b(3) by (auto simp: orders_def)
  have "\<exists>S'. holds_blocks base tot {u} m2 ls1 S' \<and> u \<in> S' \<and> fn_free (m2 (base + u)) \<and> orders base m2 u = Suc k \<and>
         used_regions base m2 S' = used_regions base m S"
    if u: "u = min q ?b" and m2: "m2 = m1(base + u := (m1 (base + u))\<lparr>fn_order := Suc k\<rparr>)" for u m2
  proof -
    let ?v = "max q ?b"
    have uv: "{q, ?b} = {u, ?v}" "u \<in> S" "u \<noteq> ?v" using mg(2,4) u by (auto simp: min_def max_def)
    have fr: "fn_free (m2 a) = fn_free (m a)" for a using s by (simp add: m2)
    have o2: "orders base m2 = (orders base m)(u := Suc k)" using s by (auto simp: orders_def m2)
    have od: "fn_order (m2 (base + p)) = fn_order (m (base + p))" if "p \<noteq> u" for p using s that by (simp add: m2)
    have "chain m2 p bs = chain m1 p bs" for p bs by (rule chain_cong) (simp add: m2)
    moreover have "in_list base m2 (S - {?v}) {u} i = in_list base m1 S (insert ?b {q}) i" for i
    proof (rule in_list_cong)
      show "fn_free (m2 (base + p)) = fn_free (m1 (base + p)) \<and> fn_order (m2 (base + p)) = fn_order (m1 (base + p))"
        if "p \<in> S" "p \<notin> insert ?b {q}" for p
      proof -
        have "p \<noteq> u" using that(2) uv(1) by auto
        then show ?thesis by (simp add: m2)
      qed
      show "S - insert ?b {q} = S - {?v} - {u}" using uv(1) by auto
      show "p \<in> S \<and> p \<notin> insert ?b {q}" if "p \<in> S - {?v}" "p \<notin> {u}" for p using that uv(1) by auto
    qed
    ultimately have "chains base {u} m2 ls1 (S - {?v})" using r(2) by (simp add: chains_def)
    moreover have "tiles tot (S - {?v}) (orders base m2)" using mg(1) by (simp add: o2 u)
    moreover have "fn_free (m (base + u))" using q(2) b(2) u by (auto simp: min_def)
    moreover have "used_regions base m2 (S - {?v}) = used_regions base m S"
    proof -
      have "fn_free (m (base + ?v))" using q(2) b(2) by (auto simp: max_def)
      then have "{p \<in> S - {?v}. \<not> fn_free (m2 (base + p))} = {p \<in> S. \<not> fn_free (m (base + p))}"
        using fr by auto
      moreover have "fn_order (m2 (base + p)) = fn_order (m (base + p))" if "\<not> fn_free (m (base + p))" for p
        using that \<open>fn_free (m (base + u))\<close> od [of p] by (cases "p = u") simp_all
      ultimately show ?thesis unfolding used_regions_def by (auto intro!: image_cong)
    qed
    ultimately show ?thesis using uv fr o2 by (intro exI [of _ "S - {?v}"]) (simp add: holds_blocks_def)
  qed
  from this [OF refl refl] r(1) show thesis unfolding step_up_def [symmetric] by (elim exE conjE) (rule that)
qed

lemma merge_loop_ok:
  "heap_base h = Some base \<Longrightarrow> holds_blocks base (heap_total h) {q} m ls S \<Longrightarrow> q \<in> S \<Longrightarrow> fn_free (m (base + q)) \<Longrightarrow>
   orders base m q = k \<Longrightarrow>
   \<exists>q' k' m' ls' S'. merge_loop h (base + q) k (m, ls) = Some (base + q', k', m', ls') \<and>
     holds_blocks base (heap_total h) {q'} m' ls' S' \<and> q' \<in> S' \<and> fn_free (m' (base + q')) \<and> orders base m' q' = k' \<and>
     used_regions base m' S' = used_regions base m S"
proof (induction "MAX_ORDER - k" arbitrary: k q m ls S)
  case 0
  then have "merge_loop h (base + q) k (m, ls) = Some (base + q, k, m, ls)" by (subst merge_loop.simps) simp
  then show ?case using 0 by blast
next
  case (Suc n)
  have k: "k < MAX_ORDER" using Suc.hyps(2) by simp
  have t: "tiles (heap_total h) S (orders base m)" using Suc.prems(2) by (simp add: holds_blocks_def)
  have gb: "get_buddy (base + q) k h =
      (if buddy_of q k + 2 ^ k > heap_total h then None else Some (base + buddy_of q k))"
    using Suc.prems(1) by (simp add: get_buddy_def buddy_of_def push_bit_eq_mult)
  show ?case
  proof (cases "buddy_of q k + 2 ^ k > heap_total h \<or> \<not> fn_free (m (base + buddy_of q k)) \<or>
      fn_order (m (base + buddy_of q k)) \<noteq> k")
    case True
    then have "merge_loop h (base + q) k (m, ls) = Some (base + q, k, m, ls)"
      using k by (subst merge_loop.simps) (auto simp: gb)
    then show ?thesis using Suc.prems by blast
  next
    case False
    then have b: "buddy_of q k + 2 ^ k \<le> heap_total h" "fn_free (m (base + buddy_of q k))"
      "orders base m (buddy_of q k) = k" by (simp_all add: orders_def)
    have bS: "buddy_of q k \<in> S" by (rule tiles_buddy [OF t Suc.prems(3,5) b(1)])
    define u where "u = min q (buddy_of q k)"
    obtain m1 ls1 S' where lr: "list_remove k (base + buddy_of q k) (m, ls) = Some (m1, ls1)"
      and S': "holds_blocks base (heap_total h) {u} (step_up (base + u) k m1) ls1 S'" "u \<in> S'"
        "fn_free (step_up (base + u) k m1 (base + u))" "orders base (step_up (base + u) k m1) u = Suc k"
        "used_regions base (step_up (base + u) k m1) S' = used_regions base m S"
      using merge_step [OF Suc.prems(2,3,4,5) k bS b(2,3)] unfolding u_def by metis
    define m2 where "m2 = step_up (base + u) k m1"
    note S' = S' [folded m2_def]
    have "merge_loop h (base + q) k (m, ls) = merge_loop h (base + u) (Suc k) (m2, ls1)"
    proof -
      have "(if base + buddy_of q k < base + q then base + buddy_of q k else base + q) = base + u"
        by (simp add: u_def min_def)
      then show ?thesis using False k lr by (subst merge_loop.simps) (simp add: gb m2_def step_up_def Let_def)
    qed
    moreover have "\<exists>q' k' m' ls' S''. merge_loop h (base + u) (Suc k) (m2, ls1) = Some (base + q', k', m', ls') \<and>
        holds_blocks base (heap_total h) {q'} m' ls' S'' \<and> q' \<in> S'' \<and> fn_free (m' (base + q')) \<and>
        orders base m' q' = k' \<and> used_regions base m' S'' = used_regions base m2 S'"
      by (rule Suc.hyps(1)) (use Suc.hyps(2) Suc.prems(1) S'(1-4) in simp_all)
    ultimately show ?thesis unfolding S'(5) by simp
  qed
qed

lemma buddy_free_ok:
  assumes "buddy_rep base tot h L" "(p, sz) \<in> L"
  shows "\<exists>h'. buddy_free (Some p) h = Some h' \<and> buddy_rep base tot h' (L - {(p, sz)})"
proof -
  from assms(1) obtain S where b: "heap_base h = Some base"
    "holds_blocks base (heap_total h) {} (nodes h) (free_lists h) S" "L = used_regions base (nodes h) S" "heap_total h = tot"
    by (auto simp: buddy_rep_def)
  from assms(2) b(3) obtain q where q: "q \<in> S" "\<not> fn_free (nodes h (base + q))" "p = base + q + BHDR"
    "sz = 2 ^ fn_order (nodes h (base + q)) - BHDR" by (auto simp: used_regions_def)
  let ?m = "(nodes h)(base + q := (nodes h (base + q))\<lparr>fn_free := True\<rparr>)"
  note mf = mark_free [OF b(2) q(1,2)]
  have oq: "orders base ?m q = fn_order (nodes h (base + q))" by (simp add: orders_def)
  have fq: "fn_free (?m (base + q))" by simp
  obtain q' k' m' ls' S' where r: "merge_loop h (base + q) (fn_order (nodes h (base + q))) (?m, free_lists h) = Some (base + q', k', m', ls')"
    and s: "holds_blocks base (heap_total h) {q'} m' ls' S'" "q' \<in> S'" "fn_free (m' (base + q'))" "orders base m' q' = k'"
      "used_regions base m' S' = used_regions base ?m S"
    using merge_loop_ok [OF b(1) mf(1) q(1) fq oq] by blast
  have t: "tiles (heap_total h) S' (orders base m')" and c: "chains base {q'} m' ls' S'"
    using s(1) by (simp_all add: holds_blocks_def)
  have k: "MIN_ORDER \<le> k'" "k' \<le> MAX_ORDER" using tiles_order [OF t s(2)] s(4) by simp_all
  let ?m2 = "m'(base + q' := (m' (base + q'))\<lparr>fn_next := list_at ls' k'\<rparr>)"
  let ?h = "h\<lparr>alloc_count := (if fn_kernel (nodes h (base + q)) then alloc_count h else alloc_count h - 1),
      nodes := ?m2, free_lists := set_list k' (Some (base + q')) ls'\<rparr>"
  have run: "buddy_free (Some p) h = Some ?h" using r by (simp add: buddy_free_def q(3) Let_def)
  have o2: "orders base ?m2 = orders base m'" by (auto simp: orders_def)
  have "chains base {} ?m2 (set_list k' (Some (base + q')) ls') S'"
    by (rule chains_push [OF c s(2,3) _ k]) (use s(4) in \<open>simp add: orders_def\<close>)
  then have "holds_blocks base (heap_total h) {} ?m2 (set_list k' (Some (base + q')) ls') S'"
    using t by (simp add: holds_blocks_def o2)
  moreover have "used_regions base ?m2 S' = L - {(p, sz)}"
  proof -
    have "used_regions base ?m2 S' = used_regions base m' S'" by (rule used_regions_cong) simp_all
    then show ?thesis using s(5) mf(2) b(3) q(3,4) by simp
  qed
  ultimately have "buddy_rep base tot ?h (L - {(p, sz)})" using b(1,4) by (auto simp: buddy_rep_def)
  with run show ?thesis by blast
qed

lemma buddy_disjoint:
  assumes "buddy_rep base tot h L" "(p, m) \<in> L" "(r, l) \<in> L" "(p, m) \<noteq> (r, l)"
  shows "p + m \<le> r \<or> r + l \<le> p"
proof -
  from assms(1) obtain S where b: "holds_blocks base (heap_total h) {} (nodes h) (free_lists h) S"
    "L = used_regions base (nodes h) S" by (auto simp: buddy_rep_def)
  have t: "tiles (heap_total h) S (orders base (nodes h))" using b(1) by (simp add: holds_blocks_def)
  from assms(2,3) b(2) obtain x y where x: "x \<in> S" "p = base + x + BHDR" "m = 2 ^ orders base (nodes h) x - BHDR"
    and y: "y \<in> S" "r = base + y + BHDR" "l = 2 ^ orders base (nodes h) y - BHDR"
    by (auto simp: used_regions_def orders_def)
  have "x \<noteq> y" using assms(4) x y by auto
  moreover have "(2 :: nat) ^ 4 \<le> 2 ^ orders base (nodes h) z" if "z \<in> S" for z
    using tiles_order [OF t that] by (intro power_increasing) simp_all
  ultimately show ?thesis
    using tiles_disjoint [OF t x(1) y(1)] tiles_disjoint [OF t y(1) x(1)] x y by (cases "x < y") force+
qed

interpretation buddy: allocator "\<lambda>n k h. Some (buddy_malloc_impl n k h)" buddy_free "buddy_rep base tot" buddy_fits for base tot
proof unfold_locales
  show "\<exists>h' r. Some (buddy_malloc_impl n k h) = Some (h', r) \<and> (case r of None \<Rightarrow> buddy_rep base tot h' L
      | Some p \<Rightarrow> \<exists>sz. (buddy_fits n \<longrightarrow> unat n \<le> sz) \<and> buddy_rep base tot h' (insert (p, sz) L) \<and> p \<notin> fst ` L)"
    if "buddy_rep base tot h L" for h L n k
    using buddy_malloc_ok [OF that, of n k] by simp
  show "buddy_free None h = Some h" for h by (simp add: buddy_free_def)
qed (fact buddy_free_ok buddy_disjoint)+

subsection \<open>Initialisation\<close>

lemma tiles_extend:
  assumes t: "tiles n S od" and k: "MIN_ORDER \<le> k" "k \<le> MAX_ORDER" "2 ^ k dvd n"
  shows "tiles (n + 2 ^ k) (insert n S) (od(n := k))" "n \<notin> S"
proof -
  have below: "q + 2 ^ od q \<le> n" if "q \<in> S" for q by (rule tiles_end [OF t that])
  show ns: "n \<notin> S" using below [of n] by auto
  show "tiles (n + 2 ^ k) (insert n S) (od(n := k))" unfolding tiles_def
  proof (intro conjI ballI allI impI)
    show "finite (insert n S)" using t by (simp add: tiles_def)
  next
    fix q assume "q \<in> insert n S"
    then show "MIN_ORDER \<le> (od(n := k)) q" "(od(n := k)) q \<le> MAX_ORDER" "2 ^ (od(n := k)) q dvd q"
      "q + 2 ^ (od(n := k)) q \<le> n + 2 ^ k"
      using k tiles_order [OF t, of q] tiles_dvd [OF t, of q] below [of q] ns by (auto intro: trans_le_add1)
  next
    fix q r assume q: "q \<in> insert n S" and r: "r \<in> insert n S" and l: "q < r"
    have "q \<noteq> n" using l r below [of r] by auto
    then show "q + 2 ^ (od(n := k)) q \<le> r"
      using q r l below [of q] tiles_disjoint [OF t, of q r] by auto
  next
    fix x assume "x < n + 2 ^ k"
    then show "\<exists>q\<in>insert n S. q \<le> x \<and> x < q + 2 ^ (od(n := k)) q"
      using tiles_cover [OF t, of x] ns by (cases "x < n") (auto split: if_splits)
  qed
qed

lemma init_step:
  assumes h: "holds_blocks base n {} m ls S" and k: "MIN_ORDER \<le> k" "k \<le> MAX_ORDER" "2 ^ k dvd n"
  defines "m' \<equiv> m(base + n := \<lparr>fn_order = k, fn_free = True, fn_kernel = False, fn_next = list_at ls k\<rparr>)"
  shows "holds_blocks base (n + 2 ^ k) {} m' (set_list k (Some (base + n)) ls) (insert n S)"
    and "\<forall>q\<in>S. fn_free (m (base + q)) \<Longrightarrow> \<forall>q\<in>insert n S. fn_free (m' (base + q))"
proof -
  have t: "tiles n S (orders base m)" and c: "chains base {} m ls S" using h by (simp_all add: holds_blocks_def)
  note te = tiles_extend [OF t k]
  have at: "m' (base + q) = m (base + q)" if "q \<in> S" for q using that te(2) by (auto simp: m'_def)
  have od: "orders base m' = (orders base m)(n := k)" by (auto simp: orders_def m'_def)
  have "chains base {n} m' ls (insert n S)"
  proof (rule chainsI)
    fix i assume i: "MIN_ORDER \<le> i" "i \<le> MAX_ORDER"
    obtain ds where ds: "chain m (list_at ls i) ds" "distinct ds" "set ds = in_list base m S {} i"
      using chainsE [OF c i] by blast
    have "chain m' (list_at ls i) ds = chain m (list_at ls i) ds"
    proof (rule chain_cong)
      fix b assume "b \<in> set ds"
      then have "b \<noteq> base + n" using te(2) ds(3) by (auto simp: in_list_iff)
      then show "fn_next (m' b) = fn_next (m b)" by (simp add: m'_def)
    qed
    moreover have "in_list base m' (insert n S) {n} i = in_list base m S {} i"
      by (rule in_list_cong) (use at te(2) in auto)
    ultimately show "\<exists>bs. chain m' (list_at ls i) bs \<and> distinct bs \<and> set bs = in_list base m' (insert n S) {n} i"
      using ds by auto
  qed (simp add: chains_length [OF c])
  from chains_push [OF this _ _ _ k(1,2)]
  have "chains base {} (m'(base + n := (m' (base + n))\<lparr>fn_next := list_at ls k\<rparr>)) (set_list k (Some (base + n)) ls) (insert n S)"
    by (simp add: m'_def)
  moreover have "m'(base + n := (m' (base + n))\<lparr>fn_next := list_at ls k\<rparr>) = m'" by (simp add: m'_def)
  ultimately show "holds_blocks base (n + 2 ^ k) {} m' (set_list k (Some (base + n)) ls) (insert n S)"
    using te(1) by (simp add: holds_blocks_def od)
  show "\<forall>q\<in>S. fn_free (m (base + q)) \<Longrightarrow> \<forall>q\<in>insert n S. fn_free (m' (base + q))"
    using at by (auto simp: m'_def)
qed

text \<open>After the orders above \<open>order\<close> the blocks cover the multiple of \<open>2 ^ (order + 1)\<close> below the size.\<close>

lemma floor_step:
  fixes sz d :: nat
  assumes "0 < d"
  shows "sz div d * d = (if sz div (2 * d) * (2 * d) + d \<le> sz then sz div (2 * d) * (2 * d) + d else sz div (2 * d) * (2 * d))"
proof -
  let ?j = "sz div d"
  have "sz div (2 * d) = ?j div 2" by (simp add: div_mult2_eq mult.commute)
  then have eq: "sz div (2 * d) * (2 * d) = (?j - ?j mod 2) * d"
    by (simp add: minus_mod_eq_mult_div [symmetric] mult.assoc [symmetric] mult.commute)
  have up: "?j * d \<le> sz" "sz < ?j * d + d"
    using dividend_less_div_times [OF assms, of sz] by (simp_all add: div_times_less_eq_dividend add.commute)
  show ?thesis
  proof (cases "even ?j")
    case True
    then have e: "sz div (2 * d) * (2 * d) = ?j * d" unfolding eq by simp
    have "\<not> sz div (2 * d) * (2 * d) + d \<le> sz" using up(2) unfolding e by simp
    then show ?thesis using e by argo
  next
    case False
    then have "?j mod 2 = 1" by presburger
    moreover have "0 < ?j" using False by (cases ?j) auto
    ultimately have "sz div (2 * d) * (2 * d) + d = ?j * d" by (simp add: eq diff_mult_distrib)
    then show ?thesis using up by simp
  qed
qed

lemma init_loop_ok:
  "order \<le> MAX_ORDER \<Longrightarrow> MIN_ORDER \<le> Suc order \<Longrightarrow> off = sz div 2 ^ Suc order * 2 ^ Suc order \<Longrightarrow> 2 ^ MIN_ORDER dvd sz \<Longrightarrow>
   holds_blocks base off {} m ls S \<Longrightarrow> \<forall>q\<in>S. fn_free (m (base + q)) \<Longrightarrow>
   \<exists>m' ls' S'. init_loop base sz order off (m, ls) = (m', ls') \<and> holds_blocks base sz {} m' ls' S' \<and>
     (\<forall>q\<in>S'. fn_free (m' (base + q)))"
proof (induction order arbitrary: off m ls S)
  case 0
  then show ?case by simp
next
  case (Suc k)
  let ?o = "Suc k"
  show ?case
  proof (cases "MIN_ORDER \<le> ?o \<and> off < sz")
    case False
    have "off = sz"
    proof (cases "MIN_ORDER \<le> ?o")
      case True
      then have "sz \<le> off" using False by simp
      moreover have "off \<le> sz" using Suc.prems(3) by (simp add: div_times_less_eq_dividend)
      ultimately show ?thesis by simp
    next
      case F: False
      then have "Suc ?o = MIN_ORDER" using Suc.prems(2) by simp
      then show ?thesis using Suc.prems(3,4) by simp
    qed
    moreover have "init_loop base sz ?o off (m, ls) = (m, ls)" using False by (subst init_loop.simps) auto
    ultimately show ?thesis using Suc.prems(5,6) by blast
  next
    case True
    have fl: "sz div 2 ^ ?o * 2 ^ ?o = (if off + 2 ^ ?o \<le> sz then off + 2 ^ ?o else off)"
      using floor_step [of "2 ^ ?o" sz] Suc.prems(3) by (simp add: mult.assoc)
    show ?thesis
    proof (cases "off + 2 ^ ?o \<le> sz")
      case fits: True
      have d: "2 ^ ?o dvd off" using Suc.prems(3) by simp
      define m1 where "m1 = m(base + off := \<lparr>fn_order = ?o, fn_free = True, fn_kernel = False, fn_next = list_at ls ?o\<rparr>)"
      note st = init_step [OF Suc.prems(5) True [THEN conjunct1] Suc.prems(1) d, folded m1_def]
      have "init_loop base sz ?o off (m, ls) = init_loop base sz k (off + 2 ^ ?o) (m1, set_list ?o (Some (base + off)) ls)"
        using True fits by (subst init_loop.simps) (simp add: Let_def push_bit_eq_mult m1_def)
      moreover have "off + 2 ^ ?o = sz div 2 ^ Suc k * 2 ^ Suc k" using fl fits by simp
      ultimately show ?thesis
        using Suc.IH [OF _ True [THEN conjunct1] _ Suc.prems(4) st(1) st(2) [OF Suc.prems(6)]] Suc.prems(1) by simp
    next
      case False
      have "init_loop base sz ?o off (m, ls) = init_loop base sz k off (m, ls)"
        using True False by (subst init_loop.simps) (simp add: Let_def push_bit_eq_mult)
      moreover have "off = sz div 2 ^ Suc k * 2 ^ Suc k" using fl False by simp
      ultimately show ?thesis
        using Suc.IH [OF _ True [THEN conjunct1] _ Suc.prems(4-6)] Suc.prems(1) by simp
    qed
  qed
qed

lemma buddy_rep_init:
  assumes "2 ^ MIN_ORDER dvd sz" "sz < 2 ^ Suc MAX_ORDER"
  shows "buddy_rep a sz (buddy_init a sz h) {}"
proof -
  have "tiles 0 {} (orders a (nodes h))" by (simp add: tiles_def)
  moreover have "chains a {} (nodes h) (replicate ORDERS None) {}"
    by (rule chainsI) (auto simp: list_at_def order_idx_def in_list_def intro!: exI [of _ "[]"])
  ultimately have h0: "holds_blocks a 0 {} (nodes h) (replicate ORDERS None) {}" by (simp add: holds_blocks_def)
  obtain m ls S where r: "init_loop a sz MAX_ORDER 0 (nodes h, replicate ORDERS None) = (m, ls)"
    "holds_blocks a sz {} m ls S" "\<forall>q\<in>S. fn_free (m (a + q))"
    using init_loop_ok [of MAX_ORDER 0 sz a "nodes h" "replicate ORDERS None" "{}"] h0 assms by auto
  have "used_regions a m S = {}" using r(3) by (auto simp: used_regions_def)
  then show ?thesis using r(1,2) unfolding buddy_rep_def
    by (auto simp: buddy_init_def intro!: exI [of _ S])
qed

lemma buddy_inside:
  assumes "buddy_rep base tot h L" "(p, m) \<in> L"
  shows "base + BHDR \<le> p \<and> p + m \<le> base + tot"
proof -
  from assms obtain S x where x: "tiles tot S (orders base (nodes h))" "x \<in> S" "p = base + x + BHDR"
    "m = 2 ^ orders base (nodes h) x - BHDR" by (auto simp: buddy_rep_def holds_blocks_def used_regions_def orders_def)
  have "(2 :: nat) ^ 4 \<le> 2 ^ orders base (nodes h) x" using tiles_order [OF x(1,2)] by (intro power_increasing) simp_all
  moreover have "x + 2 ^ orders base (nodes h) x \<le> tot" using x(1,2) by (simp add: tiles_def)
  ultimately show ?thesis using x(3,4) by simp
qed

text \<open>C28: The buddy allocator is safe on the heaps it can tile, those whose size is a multiple of 16
  below 16 MB, as the 8 MB the kernel gives it. From \<open>mm_init\<close> on \<open>sz\<close> bytes at \<open>a\<close>, any sequence of allocations and
  releases of held pointers returns (the walk of a free list always ends, also while buddies merge),
  the pointers held are exactly the starts of the live payloads, and these lie between \<open>a\<close> and \<open>a + sz\<close> behind their
  headers and never overlap.\<close>

theorem buddy_workload_safe:
  assumes "2 ^ MIN_ORDER dvd sz" "sz < 2 ^ Suc MAX_ORDER"
  shows "\<exists>h' held L. mem_run (\<lambda>n k h. Some (buddy_malloc_impl n k h)) buddy_free ops (buddy_init a sz h, []) = Some (h', held) \<and>
    buddy_rep a sz h' L \<and> set held = fst ` L \<and> distinct held \<and>
    (\<forall>p m. (p, m) \<in> L \<longrightarrow> a + BHDR \<le> p \<and> p + m \<le> a + sz) \<and>
    (\<forall>p m q n. (p, m) \<in> L \<longrightarrow> (q, n) \<in> L \<longrightarrow> (p, m) \<noteq> (q, n) \<longrightarrow> p + m \<le> q \<or> q + n \<le> p)"
proof -
  have "\<exists>h' held L. mem_run (\<lambda>n k h. Some (buddy_malloc_impl n k h)) buddy_free ops (buddy_init a sz h, []) = Some (h', held) \<and>
    buddy_rep a sz h' L \<and> set held = fst ` L \<and> distinct held"
    using buddy.mem_run_ok [OF buddy_rep_init [OF assms, of a h], of "[]" ops] by fastforce
  then obtain h' held L where
    r: "mem_run (\<lambda>n k h. Some (buddy_malloc_impl n k h)) buddy_free ops (buddy_init a sz h, []) = Some (h', held)"
    "buddy_rep a sz h' L" "set held = fst ` L" "distinct held" by blast
  with buddy.rep_disjoint [OF r(2)] buddy_inside [OF r(2)] show ?thesis by blast
qed

theorem buddy_workload_safe_witness:
  "\<exists>h' held L. mem_run (\<lambda>n k h. Some (buddy_malloc_impl n k h)) buddy_free
      [Alloc 4096 True, Alloc 10 False, Free 1, Alloc 5000 False]
      (buddy_init 6291456 8388608 \<lparr>heap_base = None, heap_total = 0, alloc_count = 0, free_lists = [],
         nodes = \<lambda>_. \<lparr>fn_order = 0, fn_free = False, fn_kernel = False, fn_next = None\<rparr>\<rparr>, []) = Some (h', held) \<and>
    set held = fst ` L \<and> (\<forall>p m. (p, m) \<in> L \<longrightarrow> 6291456 < p \<and> p + m \<le> 14680064)"
proof -
  let ?h = "\<lparr>heap_base = None, heap_total = 0, alloc_count = 0, free_lists = [],
    nodes = \<lambda>_. \<lparr>fn_order = 0, fn_free = False, fn_kernel = False, fn_next = None\<rparr>\<rparr>"
  have d: "(2 :: nat) ^ MIN_ORDER dvd 8388608" "(8388608 :: nat) < 2 ^ Suc MAX_ORDER" by simp_all
  have e: "(6291456 :: nat) + 8388608 = 14680064" by simp
  from buddy_workload_safe [OF d, of "[Alloc 4096 True, Alloc 10 False, Free 1, Alloc 5000 False]" 6291456 ?h, unfolded e]
  obtain h' held L where r: "mem_run (\<lambda>n k h. Some (buddy_malloc_impl n k h)) buddy_free
      [Alloc 4096 True, Alloc 10 False, Free 1, Alloc 5000 False] (buddy_init 6291456 8388608 ?h, []) = Some (h', held)"
    "set held = fst ` L" "\<forall>p m. (p, m) \<in> L \<longrightarrow> 6291456 + BHDR \<le> p \<and> p + m \<le> 14680064"
    by (elim exE conjE)
  have "6291456 + BHDR \<le> p \<Longrightarrow> 6291456 < p" for p :: nat by simp
  with r(3) have i: "\<forall>p m. (p, m) \<in> L \<longrightarrow> 6291456 < p \<and> p + m \<le> 14680064" by blast
  show ?thesis by (intro exI conjI) (rule r(1), rule r(2), rule i)
qed

end
