(* ===== verification/Lib.thy ===== *)
theory Lib
  imports CStr
begin

text \<open>
  The memory functions of the kernel, \<open>Kernel/c/lib/lib.c\<close>, and the loader of the user modules,
  \<open>Kernel/c/lib/moduleLoader.c\<close>, on a memory of bytes by address. \<open>memcpy\<close> copies words of four
  bytes when both pointers and the length are multiples of four; on areas that do not overlap the
  two loops do the same. The payload the image carries behind the kernel is a count and, for each
  module, its size and its bytes; the counts are little-endian words of 32 bits.
\<close>

type_synonym bytes_mem = "addr \<Rightarrow> char"

subsection \<open>The code\<close>

text \<open>\<open>while(length--) dst[length] = chr;\<close>\<close>

fun memset :: "addr \<Rightarrow> char \<Rightarrow> nat \<Rightarrow> bytes_mem \<Rightarrow> bytes_mem" where
  "memset dst chr 0 m = m"
| "memset dst chr (Suc n) m = memset dst chr n (m(dst + n := chr))"

text \<open>\<open>d[i] = s[i]\<close> for an element of \<open>w\<close> bytes, read before it is written.\<close>

definition copy_unit :: "nat \<Rightarrow> addr \<Rightarrow> addr \<Rightarrow> bytes_mem \<Rightarrow> bytes_mem" where
  "copy_unit w d s m = (\<lambda>a. if d \<le> a \<and> a < d + w then m (s + (a - d)) else m a)"

function copy_loop :: "nat \<Rightarrow> addr \<Rightarrow> addr \<Rightarrow> nat \<Rightarrow> nat \<Rightarrow> bytes_mem \<Rightarrow> bytes_mem" where
  "copy_loop w d s i n m =
     (if i < n then copy_loop w d s (i + 1) n (copy_unit w (d + w * i) (s + w * i) m) else m)"
  by pat_completeness auto
termination
  by (relation "measure (\<lambda>(w, d, s, i, n, m). n - i)") auto

declare copy_loop.simps [simp del]

definition memcpy :: "addr \<Rightarrow> addr \<Rightarrow> nat \<Rightarrow> bytes_mem \<Rightarrow> bytes_mem" where
  "memcpy destination source len m =
     (if destination mod 4 = 0 \<and> source mod 4 = 0 \<and> len mod 4 = 0
      then copy_loop 4 destination source 0 (len div 4) m
      else copy_loop 1 destination source 0 len m)"

definition readUint32 :: "addr \<Rightarrow> bytes_mem \<Rightarrow> nat \<times> addr" where
  "readUint32 address m =
     (of_char (m address) + 256 * of_char (m (address + 1)) + 65536 * of_char (m (address + 2))
        + 16777216 * of_char (m (address + 3)), address + 4)"

definition loadModule :: "addr \<Rightarrow> addr \<Rightarrow> bytes_mem \<Rightarrow> addr \<times> bytes_mem" where
  "loadModule module target m =
     (let (moduleSize, module1) = readUint32 module m
      in (module1 + moduleSize, memcpy target module1 moduleSize m))"

text \<open>The loop over the modules; \<open>None\<close> if there are more modules than target addresses, when
  the C code reads behind the end of its array.\<close>

fun load_loop :: "nat \<Rightarrow> addr \<Rightarrow> addr list \<Rightarrow> bytes_mem \<Rightarrow> bytes_mem option" where
  "load_loop 0 cur targets m = Some m"
| "load_loop (Suc n) cur [] m = None"
| "load_loop (Suc n) cur (t # ts) m = (case loadModule cur t m of (cur1, m1) \<Rightarrow> load_loop n cur1 ts m1)"

definition loadModules :: "addr \<Rightarrow> addr list \<Rightarrow> bytes_mem \<Rightarrow> bytes_mem option" where
  "loadModules payloadStart targets m =
     (let (moduleCount, currentModule) = readUint32 payloadStart m
      in load_loop moduleCount currentModule targets m)"

subsection \<open>Copying\<close>

lemma memset_eq: "memset dst chr n m a = (if dst \<le> a \<and> a < dst + n then chr else m a)"
  by (induction n arbitrary: m) auto

text \<open>The areas do not overlap.\<close>

definition apart :: "addr \<Rightarrow> addr \<Rightarrow> nat \<Rightarrow> bool" where
  "apart d s n \<longleftrightarrow> d + n \<le> s \<or> s + n \<le> d"

lemma copy_loop_eq:
  "i \<le> n \<Longrightarrow> apart d s (w * n) \<Longrightarrow>
   (\<And>a. m a = (if d \<le> a \<and> a < d + w * i then m0 (s + (a - d)) else m0 a)) \<Longrightarrow>
   copy_loop w d s i n m = copy_unit (w * n) d s m0"
proof (induction w d s i n m rule: copy_loop.induct)
  case (1 w d s i n m)
  show ?case
  proof (cases "i < n")
    case False
    then have "i = n" using "1.prems"(1) by simp
    then have "m = copy_unit (w * n) d s m0" using "1.prems"(3) by (auto simp: copy_unit_def fun_eq_iff)
    then show ?thesis using False by (subst copy_loop.simps) simp
  next
    case True
    have le: "w * i + w \<le> w * n" using True by (metis Suc_leI add.commute mult_Suc_right mult_le_mono2)
    have "copy_unit w (d + w * i) (s + w * i) m a = (if d \<le> a \<and> a < d + w * (i + 1) then m0 (s + (a - d)) else m0 a)" for a
    proof (cases "d + w * i \<le> a \<and> a < d + w * i + w")
      case in_unit: True
      define b where "b = s + w * i + (a - (d + w * i))"
      have b: "b = s + (a - d)" using in_unit by (simp add: b_def)
      then have "\<not> (d \<le> b \<and> b < d + w * i)" using "1.prems"(2) in_unit le unfolding apart_def by linarith
      then have "m b = m0 b" using "1.prems"(3) [of b] by (simp only: if_False)
      then have "copy_unit w (d + w * i) (s + w * i) m a = m0 b" using in_unit by (simp add: copy_unit_def b_def)
      then show ?thesis using in_unit by (simp add: b add_mult_distrib2)
    next
      case False
      then have "copy_unit w (d + w * i) (s + w * i) m a = m a" by (auto simp: copy_unit_def)
      then show ?thesis using False "1.prems"(3) by (auto simp: add_mult_distrib2)
    qed
    then have "copy_loop w d s (i + 1) n (copy_unit w (d + w * i) (s + w * i) m) = copy_unit (w * n) d s m0"
      by (intro "1.IH" [OF True _ "1.prems"(2)]) (use True in simp)
    then show ?thesis using True by (subst copy_loop.simps) simp
  qed
qed

lemma copy_loop_all: "apart d s (w * n) \<Longrightarrow> copy_loop w d s 0 n m = copy_unit (w * n) d s m"
  by (rule copy_loop_eq) auto

lemma memcpy_eq: "apart d s n \<Longrightarrow> memcpy d s n m = copy_unit n d s m"
  using copy_loop_all [of d s 1 n m] copy_loop_all [of d s 4 "n div 4" m]
  by (cases "n mod 4 = 0") (auto simp: memcpy_def)

subsection \<open>Loading\<close>

text \<open>The bytes at an address.\<close>

definition bytes_at :: "bytes_mem \<Rightarrow> addr \<Rightarrow> string \<Rightarrow> bool" where
  "bytes_at m a xs \<longleftrightarrow> (\<forall>j<length xs. m (a + j) = xs ! j)"

text \<open>The modules \<open>ms\<close> stand one behind the other from \<open>a\<close> to \<open>e\<close>, each after its size.\<close>

fun modules_at :: "bytes_mem \<Rightarrow> addr \<Rightarrow> string list \<Rightarrow> addr \<Rightarrow> bool" where
  "modules_at m a [] e \<longleftrightarrow> a = e"
| "modules_at m a (x # xs) e \<longleftrightarrow>
     fst (readUint32 a m) = length x \<and> bytes_at m (a + 4) x \<and> modules_at m (a + 4 + length x) xs e"

definition payload_at :: "bytes_mem \<Rightarrow> addr \<Rightarrow> string list \<Rightarrow> addr \<Rightarrow> bool" where
  "payload_at m a ms e \<longleftrightarrow> fst (readUint32 a m) = length ms \<and> modules_at m (a + 4) ms e"

lemma bytes_at_cong: "(\<And>b. a \<le> b \<Longrightarrow> b < a + length xs \<Longrightarrow> m' b = m b) \<Longrightarrow> bytes_at m' a xs = bytes_at m a xs"
  by (simp add: bytes_at_def)

lemma readUint32_cong: "(\<And>b. a \<le> b \<Longrightarrow> b < a + 4 \<Longrightarrow> m' b = m b) \<Longrightarrow> readUint32 a m' = readUint32 a m"
  by (simp add: readUint32_def)

lemma modules_at_le: "modules_at m a xs e \<Longrightarrow> a \<le> e"
  by (induction xs arbitrary: a) (simp, fastforce)

lemma modules_at_cong:
  "(\<And>b. a \<le> b \<Longrightarrow> b < e \<Longrightarrow> m' b = m b) \<Longrightarrow> modules_at m a xs e \<Longrightarrow> modules_at m' a xs e"
proof (induction xs arbitrary: a)
  case Nil
  then show ?case by simp
next
  case (Cons x xs)
  have e: "a + 4 + length x \<le> e" using Cons.prems(2) modules_at_le by fastforce
  have "readUint32 a m' = readUint32 a m" by (rule readUint32_cong, rule Cons.prems(1)) (use e in auto)
  moreover have "bytes_at m' (a + 4) x = bytes_at m (a + 4) x"
    by (rule bytes_at_cong, rule Cons.prems(1)) (use e in auto)
  moreover have "modules_at m' (a + 4 + length x) xs e"
    by (rule Cons.IH, rule Cons.prems(1)) (use Cons.prems(2) e in auto)
  ultimately show ?case using Cons.prems(2) by simp
qed

text \<open>The target areas: apart from the payload, and each in front of the next.\<close>

fun targets_ok :: "addr \<Rightarrow> addr \<Rightarrow> addr list \<Rightarrow> string list \<Rightarrow> bool" where
  "targets_ok p e (t # ts) (x # xs) \<longleftrightarrow>
     (t + length x \<le> p \<or> e \<le> t) \<and> (\<forall>u\<in>set ts. t + length x \<le> u) \<and> targets_ok p e ts xs"
| "targets_ok p e ts [] \<longleftrightarrow> True"
| "targets_ok p e [] (x # xs) \<longleftrightarrow> False"

lemma targets_ok_length: "targets_ok p e ts ms \<Longrightarrow> length ms \<le> length ts"
  by (induction p e ts ms rule: targets_ok.induct) auto

lemma load_loop_ok:
  "modules_at m a ms e \<Longrightarrow> p \<le> a \<Longrightarrow> targets_ok p e ts ms \<Longrightarrow>
   \<exists>m'. load_loop (length ms) a ts m = Some m' \<and>
     (\<forall>i<length ms. bytes_at m' (ts ! i) (ms ! i)) \<and>
     (\<forall>b. (\<forall>i<length ms. \<not> (ts ! i \<le> b \<and> b < ts ! i + length (ms ! i))) \<longrightarrow> m' b = m b)"
proof (induction ms arbitrary: a ts m)
  case Nil
  then show ?case by simp
next
  case (Cons x xs)
  then obtain t us where ts: "ts = t # us" by (cases ts) auto
  have size: "fst (readUint32 a m) = length x" and x: "bytes_at m (a + 4) x"
    and rest: "modules_at m (a + 4 + length x) xs e" using Cons.prems(1) by simp_all
  have e: "a + 4 + length x \<le> e" using modules_at_le [OF rest] .
  have ok: "t + length x \<le> p \<or> e \<le> t" "\<And>u. u \<in> set us \<Longrightarrow> t + length x \<le> u" "targets_ok p e us xs"
    using Cons.prems(3) by (auto simp: ts)
  define m1 where "m1 = copy_unit (length x) t (a + 4) m"
  have "apart t (a + 4) (length x)" using ok(1) e Cons.prems(2) by (auto simp: apart_def)
  then have step: "loadModule a t m = (a + 4 + length x, m1)"
    using size by (auto simp: loadModule_def m1_def memcpy_eq readUint32_def)
  have out: "m1 b = m b" if "\<not> (t \<le> b \<and> b < t + length x)" for b using that by (auto simp: m1_def copy_unit_def)
  have in1: "bytes_at m1 t x" using x by (simp add: bytes_at_def m1_def copy_unit_def)
  have "modules_at m1 (a + 4 + length x) xs e"
    by (rule modules_at_cong [OF _ rest], rule out) (use ok(1) Cons.prems(2) in auto)
  from Cons.IH [OF this _ ok(3)] Cons.prems(2) obtain m' where
    m': "load_loop (length xs) (a + 4 + length x) us m1 = Some m'"
    "\<And>i. i < length xs \<Longrightarrow> bytes_at m' (us ! i) (xs ! i)"
    "\<And>b. (\<forall>i<length xs. \<not> (us ! i \<le> b \<and> b < us ! i + length (xs ! i))) \<Longrightarrow> m' b = m1 b"
    by auto
  have us: "length xs \<le> length us" by (rule targets_ok_length [OF ok(3)])
  have "bytes_at m' t x = bytes_at m1 t x"
  proof (rule bytes_at_cong)
    fix b assume b: "t \<le> b" "b < t + length x"
    have "t + length x \<le> us ! i" if "i < length xs" for i using ok(2) that us by simp
    then show "m' b = m1 b" using b by (intro m'(3)) fastforce
  qed
  with in1 have first: "bytes_at m' t x" by simp
  show ?case
  proof (intro exI [of _ m'] conjI allI impI)
    show "load_loop (length (x # xs)) a ts m = Some m'" using m'(1) by (simp add: ts step)
    fix i assume "i < length (x # xs)"
    then show "bytes_at m' (ts ! i) ((x # xs) ! i)" using first m'(2) by (cases i) (simp_all add: ts)
  next
    fix b assume n: "\<forall>i<length (x # xs). \<not> (ts ! i \<le> b \<and> b < ts ! i + length ((x # xs) ! i))"
    then have "\<not> (t \<le> b \<and> b < t + length x)" by (auto simp: ts dest: spec [of _ 0])
    moreover have "\<forall>i<length xs. \<not> (us ! i \<le> b \<and> b < us ! i + length (xs ! i))"
      using n by (auto simp: ts dest: spec [of _ "Suc _"])
    ultimately show "m' b = m b" using m'(3) out by simp
  qed
qed

lemma loadModules_ok:
  assumes "payload_at m p ms e" "targets_ok p e ts ms"
  shows "\<exists>m'. loadModules p ts m = Some m' \<and> (\<forall>i<length ms. bytes_at m' (ts ! i) (ms ! i)) \<and>
     (\<forall>b. (\<forall>i<length ms. \<not> (ts ! i \<le> b \<and> b < ts ! i + length (ms ! i))) \<longrightarrow> m' b = m b)"
proof -
  have r: "readUint32 p m = (length ms, p + 4)" "modules_at m (p + 4) ms e"
    using assms(1) by (auto simp: payload_at_def readUint32_def)
  from load_loop_ok [OF r(2) _ assms(2)] show ?thesis by (simp add: loadModules_def r(1))
qed

end
