(* ===== verification/Boot.thy ===== *)
theory Boot
  imports Process_Props Tty_Props Lib
begin

text \<open>
  The start of the kernel, \<open>Kernel/c/kernel/kernel.c\<close>: copy the user modules, clear the static
  variables, initialise the subsystems, create the idle process and the shell, and dispatch the first
  process. The theorem says that the state the system starts to run in satisfies every invariant
  the properties of the components assume. Loading the interrupt table is in the theory
  \<open>Interrupts\<close>.
\<close>

abbreviation (input) HEAP_START :: nat where "HEAP_START \<equiv> 0x600000"
abbreviation (input) HEAP_SIZE :: nat where "HEAP_SIZE \<equiv> 8 * 1024 * 1024"
abbreviation (input) sampleCodeModuleAddress :: nat where "sampleCodeModuleAddress \<equiv> 0x400000"
abbreviation (input) sampleDataModuleAddress :: nat where "sampleDataModuleAddress \<equiv> 0x500000"

text \<open>\<open>clearBSS(&bss, &endOfKernel - &bss)\<close>: every static variable is zero. The memory behind
  the heap and the memory stores are outside.\<close>

definition zero_sem :: Semaphore where
  "zero_sem = \<lparr>sm_name = [], sm_value = 0, sm_wait = empty_pidq, sm_open = 0, sm_lock = UNLOCKED\<rparr>"

definition clearBSS :: "'a ksys_scheme \<Rightarrow> 'a ksys_scheme" where
  "clearBSS s = s\<lparr>process_table := replicate MAX_PROCESSES zero_pcb, next_pid := 0, current_process := None,
     force_switch := False, run_queue := replicate MAX_PROCESSES 0, queue_size := 0, queue_idx := 0,
     idle_pcb := None, ticks := 0, heap := (heap s)\<lparr>heap_start := None\<rparr>,
     sem_table := replicate MAX_SEMS zero_sem, pipe_table := replicate MAX_PIPES zero_pipe,
     kbd_waiting_process := None, kb_shift := False, kb_caps := False, kb_ctrl := False,
     kb_buff := replicate 256 0, kb_size := 0, kb_start := 0, kb_end := 0, boolRegisters := False,
     registersBuff := replicate 1024 0, regsArray := replicate 20 0, tty_mode := 0,
     tty_line := replicate 256 0, tty_line_len := 0, tty_line_ready := False, tty_eof := False,
     screen := [], fd_table := replicate MAX_FDS \<lparr>fd_type = FD_NONE, fd_refcount = 0, fd_data = None\<rparr>\<rparr>"

text \<open>Registering the idle process.\<close>

definition set_idle :: "int \<Rightarrow> 'a ksys_scheme \<Rightarrow> 'a ksys_scheme" where
  "set_idle idle_pid s =
     (case process_get s (of_int idle_pid) of
        None \<Rightarrow> s
      | Some idle \<Rightarrow>
          let s1 = upd_pcb idle (\<lambda>p. p\<lparr>p_priority := MIN_PRIORITY, p_remaining_quanta := 1\<rparr>) s
          in scheduler_remove idle (scheduler_set_idle (Some idle) s1))"

definition initializeKernelBinary :: "addr \<Rightarrow> u64 \<Rightarrow> 'a ksys_scheme \<Rightarrow> 'a ksys_scheme option" where
  "initializeKernelBinary endOfKernelBinary idle_entry s =
     do {
       m \<leftarrow> loadModules endOfKernelBinary [sampleCodeModuleAddress, sampleDataModuleAddress] (kbytes s);
       let s1 = clearBSS (s\<lparr>kbytes := m\<rparr>);
       let s2 = s1\<lparr>heap := mm_init HEAP_START HEAP_SIZE (heap s1)\<rparr>;
       let s3 = sem_init (scheduler_init (pipe_init (fd_init (process_init s2))));
       (idle_pid, s4) \<leftarrow> process_create (Some ''idle'') idle_entry 0 None 0 s3;
       (shell_pid, s5) \<leftarrow> process_create (Some ''shell'') (of_nat sampleCodeModuleAddress) 0 None 1 (set_idle idle_pid s4);
       Some s5
     }"

subsection \<open>A process without arguments\<close>

text \<open>What neither the creation of a process nor its registration as idle process touches.\<close>

definition kept :: "'a ksys_scheme \<Rightarrow> 'a ksys_scheme \<Rightarrow> bool" where
  "kept s t \<longleftrightarrow> sem_table t = sem_table s \<and> pipe_table t = pipe_table s \<and> tty_part t = tty_part s \<and>
     current_process t = current_process s \<and> kbytes t = kbytes s"

lemma kept_sched [simp]:
  "kept s (scheduler_add i t) = kept s t" "kept s (scheduler_remove i t) = kept s t" "kept s (upd_pcb i f t) = kept s t"
  by (simp_all add: kept_def tty_part_def scheduler_add_def scheduler_remove_def upd_pcb_def Let_def split: option.split)

lemma kept_memory [simp]: "kept s s" "kept s (t\<lparr>heap := h, kwords := w, next_pid := n, fd_table := ft\<rparr>) = kept s t"
  by (simp_all add: kept_def tty_part_def)

lemma kept_inv: "kept s t \<Longrightarrow> tty_inv s \<Longrightarrow> tty_inv t"
  using tty_inv_part by (auto simp: kept_def)

lemma create_noargs:
  fixes s :: "'a ksys_scheme"
  assumes i: "sched_inv s" and m: "mem_inv L s" and fd: "std_fds s"
    and cur: "current_process s = None" and nw: "next_pid s + 1 \<noteq> 0"
    and slot: "first_idx (\<lambda>p. p_state p = PROCESS_FREE) (process_table s) = Some slot"
    and h: "mm_malloc_kernel 4096 (heap s) = Some (h', Some sb)"
  shows "\<exists>L2 t. process_create name entry 0 None fg s = Some (int_of_pid (next_pid s + 1), t) \<and> sched_inv t \<and>
    created L2 slot (placed_pcb name entry 0 None fg s sb (pcb_at s slot)) s t \<and>
    heap t = h' \<and> idle_pcb t = idle_pcb s \<and> kept s t"
proof -
  have sl: "slot < length (process_table s)" "p_state (pcb_at s slot) = PROCESS_FREE"
    using slot by (auto simp: pcb_at_def dest: first_idx_SomeD)
  let ?s1 = "upd_pcb slot (\<lambda>p. p\<lparr>p_stack_base := Some sb\<rparr>) (s\<lparr>heap := h'\<rparr>)"
  have step: "process_create name entry 0 None fg s = Some (process_fill slot name entry 0 None fg ?s1)"
    using h slot by (simp add: process_create_def copy_argv_def)
  have at1: "p_stack_base (pcb_at ?s1 slot) = Some sb" using sl(1) by (simp add: pcb_at_def upd_pcb_def)
  obtain w where bs: "build_initial_stack (ptr_addr (p_stack_base (pcb_at ?s1 slot)) + STACK_SIZE) (trampoline ?s1)
      0 None (kwords ?s1) = (sb + 3936, w)"
    using build_sp [of "sb + STACK_SIZE" "trampoline s" 0 None "kwords s"] at1
    by (cases "build_initial_stack (sb + STACK_SIZE) (trampoline s) 0 None (kwords s)") (simp add: ptr_addr_def)
  have "std_fds ?s1" using fd by (simp add: std_fds_def upd_pcb_def fd_at_def)
  from process_fill_shape [OF _ this _ bs, of name entry fg] sl(1) cur obtain ft where
    f: "process_fill slot name entry 0 None fg ?s1 = (int_of_pid (next_pid s + 1),
      scheduler_add slot (upd_pcb slot (new_pcb name entry 0 None fg (next_pid s + 1) 0 (sb + 3936))
       (?s1\<lparr>kwords := w, next_pid := next_pid s + 1, fd_table := ft\<rparr>)))"
    by (auto simp: parent_of_new_def)
  have heap_upd: "?s1\<lparr>kwords := w, next_pid := next_pid s + 1, fd_table := ft\<rparr> =
     upd_pcb slot (\<lambda>p. p\<lparr>p_stack_base := Some sb\<rparr>) (s\<lparr>heap := h', kwords := w, next_pid := next_pid s + 1, fd_table := ft\<rparr>)"
    by (simp add: upd_pcb_def)
  obtain a e where hl: "ff_live a e (heap s) L" using mem_inv_heap [OF m] by blast
  from ff.alloc_ok [OF hl, of "of_nat STACK_SIZE" True] h obtain z where
    z: "ff_live a e h' (insert (sb, z) L)" "sb \<notin> fst ` L"
    by (auto simp: mm_malloc_kernel_def)
  have nl: "\<not> live s slot" using sl by (simp add: live_def)
  have blk: "args_block 0 None None (insert (sb, z) L) (insert (sb, z) L)" by (simp add: args_block_def)
  have eq2: "upd_pcb slot (\<lambda>p. p\<lparr>p_stack_base := Some sb\<rparr>) s\<lparr>heap := h', kwords := kwords s, kbytes := kbytes s\<rparr> = ?s1"
    by (simp add: upd_pcb_def)
  from process_fill_ok [OF i m fd _ nw sl(1) nl z(1) blk z(2), where w = "kwords s" and b = "kbytes s"
      and name = name and entry = entry and fg = fg] cur
  obtain t where t: "process_fill slot name entry 0 None fg ?s1 = (int_of_pid (next_pid s + 1), t)" "sched_inv t"
    "created (insert (sb, z) L) slot (placed_pcb name entry 0 None fg s sb (pcb_at s slot)) s t"
    unfolding eq2 by auto
  have "heap t = h' \<and> idle_pcb t = idle_pcb s \<and> kept s t"
    using t(1) unfolding f by (auto simp: heap_upd)
  then show ?thesis using step t by auto
qed

subsection \<open>The start state\<close>

text \<open>The tables after the initialisation functions.\<close>

definition booted :: "bytes_mem \<Rightarrow> 'a ksys_scheme \<Rightarrow> 'a ksys_scheme" where
  "booted m s = sem_init (scheduler_init (pipe_init (fd_init (process_init
     (clearBSS (s\<lparr>kbytes := m\<rparr>)\<lparr>heap := mm_init HEAP_START HEAP_SIZE (heap (clearBSS (s\<lparr>kbytes := m\<rparr>)))\<rparr>)))))"

lemma booted_fields:
  "process_table (booted m s) = replicate 64 zero_pcb" "next_pid (booted m s) = 0"
  "current_process (booted m s) = None" "run_queue (booted m s) = replicate 64 0" "queue_size (booted m s) = 0"
  "queue_idx (booted m s) = 0" "idle_pcb (booted m s) = None"
  "heap (booted m s) = mm_init HEAP_START HEAP_SIZE ((heap s)\<lparr>heap_start := None\<rparr>)"
  "sem_table (booted m s) = replicate 32 zero_sem" "pipe_table (booted m s) = replicate 32 zero_pipe"
  "fd_table (booted m s) = [\<lparr>fd_type = FD_TERMINAL, fd_refcount = 0, fd_data = None\<rparr>,
       \<lparr>fd_type = FD_TERMINAL, fd_refcount = 0, fd_data = None\<rparr>] @
     replicate 128 \<lparr>fd_type = FD_NONE, fd_refcount = 0, fd_data = None\<rparr>"
  "kbytes (booted m s) = m" "tty_part (booted m s) = (None, replicate 256 0, 0, 0, 0, 0, replicate 256 0, 0, False, False)"
  using replicate_Suc [of 129 "\<lparr>fd_type = FD_NONE, fd_refcount = 0, fd_data = None\<rparr>"]
    replicate_Suc [of 128 "\<lparr>fd_type = FD_NONE, fd_refcount = 0, fd_data = None\<rparr>"]
  by (simp_all add: booted_def clearBSS_def sem_init_def scheduler_init_def pipe_init_def fd_init_def process_init_def
      upd_fd_def modify_def zero_sem_def empty_pidq_def tty_part_def)

lemma booted_pcb: "i < 64 \<Longrightarrow> pcb_at (booted m s) i = zero_pcb" and booted_live: "\<not> live (booted m s) i"
  by (simp_all add: pcb_at_def live_def booted_fields zero_pcb_def)

lemma booted_inv:
  "sched_inv (booted m s)" "mem_inv {} (booted m s)" "sem_inv (booted m s)" "fd_inv (booted m s)" "tty_inv (booted m s)"
proof -
  let ?b = "booted m s"
  have rq: "rq ?b = []" by (simp add: rq_def booted_fields)
  have "table_inv ?b"
    by (rule table_invI) (auto simp: booted_fields pids_unique_def booted_live booted_pcb zero_pcb_def)
  moreover have "queue_inv ?b" by (simp add: queue_inv_def rq booted_fields desc_by_def)
  ultimately show "sched_inv ?b" by (simp add: sched_inv_def rq booted_fields)
  have "ff_rep HEAP_START (HEAP_START + HEAP_SIZE) (heap ?b) [\<lparr>b_addr = HEAP_START, b_size = HEAP_SIZE - HDR, b_free = True, b_kern = False\<rparr>]"
    using ff_rep_init [of HEAP_SIZE HEAP_START] by (simp add: booted_fields)
  then have "ff_live HEAP_START (HEAP_START + HEAP_SIZE) (heap ?b) {}" by (auto simp: ff_live_def)
  then show "mem_inv {} ?b" unfolding mem_inv_def using booted_live by blast
  show "sem_inv ?b" by (auto simp: sem_inv_def sem_at_def booted_fields slot_ok_def zero_sem_def)
  show "fd_inv ?b"
    by (auto simp: fd_inv_def refs_def refs_of_def is_end_def fd_at_def pipe_at_def zero_pipe_def booted_fields
        sum_list_replicate)
  have "tty_part ?b = tty_part demo_k" by (simp add: booted_fields) (simp add: tty_part_def demo_k_def)
  then show "tty_inv ?b" using demo_tty tty_inv_part by blast
qed

subsection \<open>Registering the idle process\<close>

lemma set_idle_eq:
  "process_get s (of_int k) = Some i \<Longrightarrow> set_idle k s =
     upd_pcb i (\<lambda>p. p\<lparr>p_priority := MIN_PRIORITY, p_remaining_quanta := 1\<rparr>) (scheduler_remove i s)\<lparr>idle_pcb := Some i\<rparr>"
  by (cases "first_idx (\<lambda>r. i = r) (rq s)")
     (simp_all add: set_idle_def scheduler_set_idle_def scheduler_remove_def rq_def upd_pcb_def Let_def
       del: first_idx_None_iff)

lemma set_idle_ok:
  fixes s :: ksys
  assumes i: "sched_inv s" and m: "mem_inv L s" and inv: "sem_inv s" "fd_inv s" "tty_inv s"
    and g: "process_get s (of_int k) = Some i" and st: "p_state (pcb_at s i) = PROCESS_READY" and il: "idle_pcb s = None"
  shows "\<exists>t. set_idle k s = t \<and> sched_inv t \<and> mem_inv L t \<and> sem_inv t \<and> fd_inv t \<and> tty_inv t \<and> idle_pcb t = Some i \<and>
    rq t = remove1 i (rq s) \<and> live t = live s \<and> next_pid t = next_pid s \<and> heap t = heap s \<and> kept s t \<and>
    current_process t = current_process s \<and>
    (\<forall>j. pcb_at t j = (if j = i then (pcb_at s i)\<lparr>p_priority := MIN_PRIORITY, p_remaining_quanta := 1\<rparr> else pcb_at s j))"
proof -
  let ?f = "\<lambda>p. p\<lparr>p_priority := MIN_PRIORITY, p_remaining_quanta := 1\<rparr>"
  let ?r = "scheduler_remove i s"
  let ?u = "upd_pcb i ?f ?r"
  let ?t = "?u\<lparr>idle_pcb := Some i\<rparr>"
  note q = sched_inv_queue [OF i] and len = sched_inv_length [OF i]
  have il': "i < length (process_table s)" "live s i" using process_get_Some [OF g] by (auto simp: live_def)
  have at: "pcb_at ?t j = (if j = i then ?f (pcb_at s j) else pcb_at s j)" for j
    using il'(1) pcb_at_upd [of i ?r ?f j] by (simp add: pcb_at_def)
  have lv: "live ?t j = live s j" for j
    using live_upd_pcb [of i ?r ?f j] il' by (simp add: live_def at)
  have rq: "rq ?t = remove1 i (rq s)" using scheduler_remove_shape(1) [OF q, of i] by (simp add: rq_def upd_pcb_def)
  have nin: "i \<notin> set (rq ?t)" using queue_inv_distinct [OF q] unfolding rq by simp
  have pid: "p_pid (pcb_at ?t j) = p_pid (pcb_at s j)" for j by (simp add: at)
  have tab: "table_inv ?t"
  proof (rule table_invI)
    show "length (process_table ?t) = MAX_PROCESSES" using len by simp
    show "pids_unique ?t" using table_inv_unique [OF sched_inv_table [OF i]] by (simp add: pids_unique_def lv pid)
    show "p_pid (pcb_at ?t j) \<noteq> 0 \<and> p_pid (pcb_at ?t j) \<le> next_pid ?t" if "live ?t j" for j
      using that table_inv_pid [OF sched_inv_table [OF i], of j] by (simp add: lv pid)
    show "j < MAX_PROCESSES" if "current_process ?t = Some j" for j
      using that table_inv_current [OF sched_inv_table [OF i]] by simp
    show "current_process ?t = Some j" if "j < MAX_PROCESSES" "p_state (pcb_at ?t j) = PROCESS_RUNNING" for j
      using that table_inv_running [OF sched_inv_table [OF i], of j] by (auto simp: at split: if_splits)
  qed
  have qr: "queue_inv ?r" by (rule queue_inv_remove [OF q])
  have "desc_by (prio ?t) (rq ?t)"
  proof -
    have "desc_by (prio s) (rq ?t)" using queue_inv_desc [OF qr] scheduler_remove_shape(1) [OF q, of i] by (simp add: rq)
    then show ?thesis using nin unfolding desc_by_def
      by (auto simp: at sorted_wrt_iff_nth_less in_set_conv_nth)
  qed
  then have "queue_inv ?t"
    using queue_invD [OF qr] nin il unfolding queue_inv_def
    by (auto simp: rq scheduler_remove_shape(1) [OF q])
  then have "sched_inv ?t"
    using tab sched_inv_live [OF i] st il' unfolding sched_inv_def
    by (auto simp: lv at rq dest: set_remove1_subset [THEN subsetD])
  moreover have "mem_inv L ?t" by (rule mem_inv_cong [OF m]) (auto simp: lv at own_def)
  moreover have k: "kept s ?t" by (simp add: kept_def) (simp add: tty_part_def scheduler_remove_def upd_pcb_def Let_def split: option.split)
  moreover have "sem_inv ?t"
    by (rule sem_inv_more [OF inv(1)]) (use k in \<open>auto simp: kept_def live_pids_def lv at\<close>)
  moreover have "fd_inv ?t"
    by (rule fd_inv_same [OF _ inv(2)])
       (simp add: same_ends_def scheduler_remove_def upd_pcb_def Let_def split: option.split)
  moreover have "live ?t = live s" by (simp add: fun_eq_iff lv)
  ultimately show ?thesis using set_idle_eq [OF g] rq at kept_inv [OF k inv(3)] by auto
qed

subsection \<open>The first dispatch\<close>

lemma upd_pcb_fix: "f (pcb_at s n) = g (pcb_at s n) \<Longrightarrow> upd_pcb n f s = upd_pcb n g s"
  by (cases "n < length (process_table s)") (simp_all add: upd_pcb_def modify_def pcb_at_def)

lemma start_ok:
  fixes s :: ksys
  assumes i: "sched_inv s" and m: "mem_inv L s" and inv: "sem_inv s" "fd_inv s" "tty_inv s"
    and rq: "rq s = [n]" and st: "p_state (pcb_at s n) = PROCESS_READY" "p_wait_ticks (pcb_at s n) = 0"
    and none: "\<forall>k<MAX_PROCESSES. p_state (pcb_at s k) \<noteq> PROCESS_RUNNING"
  shows "\<exists>u. scheduler_start s = (Some (p_rsp (pcb_at s n)), u) \<and> runs n u \<and> sched_inv u \<and> mem_inv L u \<and>
    sem_inv u \<and> fd_inv u \<and> tty_inv u"
proof -
  from next_ready_select [OF sched_inv_queue [OF i]] obtain j where
    j: "scheduler_next_ready s = (select (idle_pcb s) (pcb_at s) (rotate (Suc (queue_idx s)) (rq s)), s\<lparr>queue_idx := j\<rparr>)"
    "j < queue_size s \<or> j = 0" by blast
  have "rotate k [n] = [n]" for k by (induction k) simp_all
  moreover have "select (idle_pcb s) (pcb_at s) [n] = Some n" using st by (simp add: select_def best_def)
  ultimately have nx: "scheduler_next_ready s = (Some n, s\<lparr>queue_idx := j\<rparr>)" using j(1) by (simp add: rq del: rotate_Suc)
  let ?s1 = "s\<lparr>queue_idx := j\<rparr>"
  let ?u = "snd (dispatch n ?s1)"
  have lv: "live s n" using sched_inv_live [OF i] rq by simp
  then have nl: "n < length (process_table s)" by (rule live_less)
  have at1: "pcb_at ?s1 k = pcb_at s k" "live ?s1 k = live s k" for k by (simp_all add: pcb_at_def live_def)
  have "upd_pcb n (\<lambda>p. p\<lparr>p_state := PROCESS_RUNNING\<rparr>) ?s1 = upd_pcb n (\<lambda>p. p\<lparr>p_wait_ticks := 0, p_state := PROCESS_RUNNING\<rparr>) ?s1"
    by (rule upd_pcb_fix) (use st(2) in \<open>cases "pcb_at s n", simp add: at1\<close>)
  then have step: "scheduler_start s = (Some (fst (dispatch n ?s1)), ?u)"
    by (simp add: scheduler_start_def nx dispatch_def Let_def)
  have i1: "sched_inv ?s1" by (rule sched_inv_queue_idx [OF i j(2)])
  note d = sched_inv_dispatch [OF i1, of n, unfolded at1, OF lv _ none]
  have at: "pcb_at ?u k = (if k = n then (pcb_at s n)\<lparr>p_wait_ticks := 0, p_state := PROCESS_RUNNING\<rparr> else pcb_at s k)" for k
    using d st(1) by simp
  have len: "length (process_table ?u) = length (process_table s)"
    by (simp add: dispatch_def process_set_current_def Let_def)
  have lu: "live ?u k = live s k" for k using lv by (simp add: live_def at len)
  have hp: "heap ?u = heap s" "sem_table ?u = sem_table s" "tty_part ?u = tty_part s" "same_ends s ?u"
    by (simp_all add: dispatch_def process_set_current_def Let_def upd_pcb_def tty_part_def same_ends_def)
  have "mem_inv L ?u" by (rule mem_inv_cong [OF m hp(1)]) (auto simp: lu at own_def)
  moreover have "sem_inv ?u" by (rule sem_inv_more [OF inv(1) hp(2)]) (auto simp: live_pids_def lu at)
  moreover have "fd_inv ?u" by (rule fd_inv_same [OF hp(4) inv(2)])
  moreover have "tty_inv ?u" using tty_inv_part [OF hp(3)] inv(3) by simp
  moreover have "fst (dispatch n ?s1) = p_rsp (pcb_at s n)" using d st(1) by (metis fst_conv pstate.distinct(13))
  ultimately show ?thesis using step d st(1) by simp
qed

subsection \<open>The start of the system\<close>

lemma boot_mallocs: "\<exists>h1 h2. mm_malloc_kernel 4096 (mm_init HEAP_START HEAP_SIZE h) = Some (h1, Some 6291480) \<and>
    mm_malloc_kernel 4096 h1 = Some (h2, Some 6295600)"
  by (simp add: mm_malloc_kernel_def malloc_impl_def mm_init_def malloc_loop_simps malloc_take_def align8_def)

lemma boot_idle:
  fixes s :: ksys
  shows "\<exists>L t. process_create (Some ''idle'') idle_entry 0 None 0 (booted m s) = Some (1, t) \<and>
    sched_inv t \<and> mem_inv L t \<and> sem_inv t \<and> fd_inv t \<and> tty_inv t \<and> process_get t 1 = Some 0 \<and> rq t = [0] \<and>
    pcb_at t 0 = placed_pcb (Some ''idle'') idle_entry 0 None 0 (booted m s) 6291480 zero_pcb \<and>
    (\<forall>i. live t i \<longleftrightarrow> i = 0) \<and> (\<forall>i. 0 < i \<longrightarrow> pcb_at t i = pcb_at (booted m s) i) \<and> idle_pcb t = None \<and> next_pid t = 1 \<and>
    kept (booted m s) t \<and> (\<exists>h. mm_malloc_kernel 4096 (heap t) = Some (h, Some 6295600))"
proof -
  note b = booted_inv [of m s] booted_fields [of m s]
  obtain h1 h2 where h: "mm_malloc_kernel 4096 (heap (booted m s)) = Some (h1, Some 6291480)"
    "mm_malloc_kernel 4096 h1 = Some (h2, Some 6295600)" using boot_mallocs b(13) by metis
  have sl: "first_idx (\<lambda>p. p_state p = PROCESS_FREE) (process_table (booted m s)) = Some 0"
    using replicate_Suc [of 63 zero_pcb] by (simp add: b zero_pcb_def)
  from create_noargs [OF b(1,2) fd_inv_std [OF b(4)] b(8) _ sl h(1), of "Some ''idle''" idle_entry 0] obtain L t where
    t: "process_create (Some ''idle'') idle_entry 0 None 0 (booted m s) = Some (1, t)" "sched_inv t"
    "created L 0 (placed_pcb (Some ''idle'') idle_entry 0 None 0 (booted m s) 6291480 (pcb_at (booted m s) 0)) (booted m s) t"
    "heap t = h1" "idle_pcb t = None" "kept (booted m s) t"
    by (auto simp: b int_of_pid_def)
  have lv: "live t i \<longleftrightarrow> i = 0" for i using t(3) booted_live by (auto simp: created_def)
  have "rq (booted m s) = []" by (simp add: rq_def b)
  then have "rq t = [0]" using t(3) by (simp add: created_def insert_desc_def)
  moreover have "sem_inv t"
    by (rule sem_inv_more [OF b(3)]) (use t(6) booted_live in \<open>auto simp: kept_def live_pids_def\<close>)
  moreover have "fd_inv t" by (rule fds.I_process_create [OF t(1) b(4)])
  moreover have "tty_inv t" by (rule kept_inv [OF t(6) b(5)])
  ultimately show ?thesis
    using t lv h(2) booted_pcb [of 0 m s] b(7) by (intro exI [of _ L] exI [of _ t]) (auto simp: created_def)
qed

lemma boot_names: "str_copy (Some ''idle'') MAX_NAME_LEN = ''idle''" "str_copy (Some ''shell'') MAX_NAME_LEN = ''shell''"
  by (simp_all add: str_copy_def str_copy_loop.simps cget_def)

lemma boot_ok:
  fixes s :: ksys
  assumes ld: "loadModules p [sampleCodeModuleAddress, sampleDataModuleAddress] (kbytes s) = Some m"
  shows "\<exists>L t u. initializeKernelBinary p idle_entry s = Some t \<and> kbytes t = m \<and>
    sched_inv t \<and> mem_inv L t \<and> sem_inv t \<and> fd_inv t \<and> tty_inv t \<and>
    (\<forall>i. live t i \<longleftrightarrow> i < 2) \<and> idle_pcb t = Some 0 \<and> rq t = [1] \<and> current_process t = None \<and>
    p_name (pcb_at t 0) = ''idle'' \<and> p_entry (pcb_at t 0) = idle_entry \<and>
    p_name (pcb_at t 1) = ''shell'' \<and> p_entry (pcb_at t 1) = of_nat sampleCodeModuleAddress \<and> p_foreground (pcb_at t 1) = 1 \<and>
    scheduler_start t = (Some (p_rsp (pcb_at t 1)), u) \<and> runs 1 u \<and>
    sched_inv u \<and> mem_inv L u \<and> sem_inv u \<and> fd_inv u \<and> tty_inv u"
proof -
  obtain L t where t: "process_create (Some ''idle'') idle_entry 0 None 0 (booted m s) = Some (1, t)"
    "sched_inv t" "mem_inv L t" "sem_inv t" "fd_inv t" "tty_inv t" "process_get t 1 = Some 0" "rq t = [0]"
    "pcb_at t 0 = placed_pcb (Some ''idle'') idle_entry 0 None 0 (booted m s) 6291480 zero_pcb"
    "\<And>i. live t i \<longleftrightarrow> i = 0" "\<And>i. 0 < i \<Longrightarrow> pcb_at t i = pcb_at (booted m s) i" "idle_pcb t = None" "next_pid t = 1"
    "kept (booted m s) t" and hp: "\<exists>h. mm_malloc_kernel 4096 (heap t) = Some (h, Some 6295600)"
    using boot_idle [of idle_entry m s] by blast
  have p0: "p_state (pcb_at t 0) = PROCESS_READY" "p_name (pcb_at t 0) = ''idle''" "p_entry (pcb_at t 0) = idle_entry"
    by (simp_all add: t(9) placed_pcb_def new_pcb_def boot_names str_len_Some cstr_def)
  obtain v where v: "set_idle 1 t = v" "sched_inv v" "mem_inv L v" "sem_inv v" "fd_inv v" "tty_inv v" "idle_pcb v = Some 0"
    "rq v = []" "live v = live t" "next_pid v = 1" "heap v = heap t" "kept t v" "current_process v = current_process t" and
    at: "\<And>j. pcb_at v j = (if j = 0 then (pcb_at t 0)\<lparr>p_priority := MIN_PRIORITY, p_remaining_quanta := 1\<rparr> else pcb_at t j)"
    using set_idle_ok [OF t(2-6), of 1 0] t(7,8,12,13) p0(1) by auto
  have cur: "current_process v = None" using v(12) t(14) booted_fields(3) [of m s] by (simp add: kept_def)
  have z: "pcb_at v i = zero_pcb" if "0 < i" "i < 64" for i using that t(11) booted_pcb [of i m s] by (simp add: at)
  have len: "length (process_table v) = 64" by (rule sched_inv_length [OF v(2)])
  have sl: "first_idx (\<lambda>p. p_state p = PROCESS_FREE) (process_table v) = Some 1"
  proof (rule first_idx_SomeI)
    show "p_state (process_table v ! 1) = PROCESS_FREE" using z [of 1] by (simp add: pcb_at_def zero_pcb_def)
    show "p_state (process_table v ! j) \<noteq> PROCESS_FREE" if "j < 1" for j
      using that at [of 0] p0(1) by (simp add: pcb_at_def)
  qed (simp add: len)
  obtain h where h: "mm_malloc_kernel 4096 (heap v) = Some (h, Some 6295600)" using hp v(11) by auto
  from create_noargs [OF v(2,3) fd_inv_std [OF v(5)] cur _ sl h, of "Some ''shell''" "of_nat sampleCodeModuleAddress" 1]
  obtain L2 w where w: "process_create (Some ''shell'') (of_nat sampleCodeModuleAddress) 0 None 1 v = Some (2, w)" "sched_inv w"
    "created L2 1 (placed_pcb (Some ''shell'') (of_nat sampleCodeModuleAddress) 0 None 1 v 6295600 (pcb_at v 1)) v w"
    "idle_pcb w = Some 0" "kept v w"
    by (auto simp: v int_of_pid_def)
  have at': "pcb_at w j = (if j = 1 then placed_pcb (Some ''shell'') (of_nat sampleCodeModuleAddress) 0 None 1 v 6295600 zero_pcb
      else pcb_at v j)" for j using w(3) z [of 1] by (auto simp: created_def)
  have lv: "live w i \<longleftrightarrow> i < 2" for i using w(3) v(9) t(10) by (auto simp: created_def)
  have rq: "rq w = [1]" using w(3) v(8) by (simp add: created_def insert_desc_def)
  have mw: "mem_inv L2 w" using w(3) by (simp add: created_def)
  have fw: "fd_inv w" by (rule fds.I_process_create [OF w(1) v(5)])
  have sw: "sem_inv w"
  proof (rule sem_inv_more [OF v(4)])
    show "sem_table w = sem_table v" using w(5) by (simp add: kept_def)
    show "live_pids v \<subseteq> live_pids w" using v(9) t(10) by (auto simp: live_pids_def lv at')
  qed
  have tw: "tty_inv w" by (rule kept_inv [OF w(5) v(6)])
  have p1: "p_state (pcb_at w 1) = PROCESS_READY" "p_name (pcb_at w 1) = ''shell''" "p_wait_ticks (pcb_at w 1) = 0"
    "p_entry (pcb_at w 1) = of_nat sampleCodeModuleAddress" "p_foreground (pcb_at w 1) = 1"
    by (simp_all add: at' placed_pcb_def new_pcb_def boot_names str_len_Some cstr_def)
  have "p_state (pcb_at w k) \<noteq> PROCESS_RUNNING" if "k < MAX_PROCESSES" for k
    using that p1(1) p0(1) z [of k] by (cases "k = 0"; cases "k = 1") (simp_all add: at' at zero_pcb_def)
  then have "\<forall>k<MAX_PROCESSES. p_state (pcb_at w k) \<noteq> PROCESS_RUNNING" by simp
  from start_ok [OF w(2) mw sw fw tw rq p1(1,3) this] obtain u where
    u: "scheduler_start w = (Some (p_rsp (pcb_at w 1)), u)" "runs 1 u" "sched_inv u" "mem_inv L2 u" "sem_inv u" "fd_inv u" "tty_inv u"
    by blast
  have "initializeKernelBinary p idle_entry s = Some w"
    using t(1) w(1) unfolding initializeKernelBinary_def ld booted_def by (simp add: v(1) Let_def)
  moreover have "kbytes w = m" "current_process w = None"
    using w(5) v(12) t(14) booted_fields(12) [of m s] cur by (simp_all add: kept_def)
  ultimately show ?thesis using w(2,4) mw sw fw tw lv rq p0(2,3) p1(2,4,5) u at' at by (intro exI [of _ L2] exI [of _ w] exI [of _ u]) auto
qed

text \<open>The invariants the properties of the components assume.\<close>

definition kernel_inv :: "(nat \<times> nat) set \<Rightarrow> 'a ksys_scheme \<Rightarrow> bool" where
  "kernel_inv L s \<longleftrightarrow> sched_inv s \<and> mem_inv L s \<and> sem_inv s \<and> fd_inv s \<and> tty_inv s"

text \<open>C29: The kernel boots into a good state. If the image carries a payload of modules that fit
  their places, start-up returns with every byte of every module where it belongs, whatever the memory held
  before. Exactly two processes live: the idle process, registered with the scheduler and out of
  the run queue, and the foreground process shell, alone in the queue with the address of the first module as
  its entry point. The first dispatch runs the shell, and before and after it all the invariants
  of scheduler, heap, semaphores, descriptors and terminal hold.\<close>

theorem kernel_boots:
  fixes s :: ksys
  assumes "payload_at (kbytes s) p ms e" "targets_ok p e [sampleCodeModuleAddress, sampleDataModuleAddress] ms"
  shows "\<exists>L t u. initializeKernelBinary p idle_entry s = Some t \<and> kernel_inv L t \<and>
    (\<forall>i<length ms. bytes_at (kbytes t) ([sampleCodeModuleAddress, sampleDataModuleAddress] ! i) (ms ! i)) \<and>
    (\<forall>i. live t i \<longleftrightarrow> i < 2) \<and> idle_pcb t = Some 0 \<and> rq t = [1] \<and>
    p_name (pcb_at t 0) = ''idle'' \<and> p_entry (pcb_at t 0) = idle_entry \<and>
    p_name (pcb_at t 1) = ''shell'' \<and> p_entry (pcb_at t 1) = of_nat sampleCodeModuleAddress \<and> p_foreground (pcb_at t 1) = 1 \<and>
    scheduler_start t = (Some (p_rsp (pcb_at t 1)), u) \<and> runs 1 u \<and> kernel_inv L u"
proof -
  from loadModules_ok [OF assms] obtain m where
    ld: "loadModules p [sampleCodeModuleAddress, sampleDataModuleAddress] (kbytes s) = Some m" and
    at: "\<forall>i<length ms. bytes_at m ([sampleCodeModuleAddress, sampleDataModuleAddress] ! i) (ms ! i)" by blast
  from boot_ok [OF ld, of idle_entry] at show ?thesis by (auto simp: kernel_inv_def)
qed

definition demo_image :: ksys where
  "demo_image = demo_k\<lparr>kbytes := (\<lambda>_. CHR 0x00)(1048576 := CHR 0x01, 1048580 := CHR 0x02,
     1048584 := CHR ''a'', 1048585 := CHR ''b'')\<rparr>"

theorem kernel_boots_witness:
  "\<exists>t. initializeKernelBinary 1048576 0x1000 demo_image = Some t \<and> kbytes t 4194305 = CHR ''b'' \<and> rq t = [1]"
proof -
  have p: "payload_at (kbytes demo_image) 1048576 [''ab''] 1048586"
    by (simp add: payload_at_def demo_image_def readUint32_def bytes_at_def All_less_Suc numeral_2_eq_2)
  have "targets_ok 1048576 1048586 [sampleCodeModuleAddress, sampleDataModuleAddress] [''ab'']" by simp
  from kernel_boots [OF p this, where idle_entry = "0x1000"] show ?thesis by (auto simp: bytes_at_def dest: spec [of _ "Suc 0"])
qed

end
