(* ===== verification/Shell.thy ===== *)
theory Shell
  imports CStr
begin

text \<open>
  The command line of the shell, \<open>Userland/c/shell/userlib.c\<close>. The code cuts the line in place: the
  buffer is a list of characters, a pointer into it an index, and each cut writes a \<open>'\0'\<close>. A
  string at a pointer is \<open>cstr (drop p bs)\<close>. \<open>parse_line\<close> joins the cuts of \<open>processLine\<close> and
  \<open>handle_pipe\<close>; the theorem of \<open>Shell_Props\<close> compares it with a parser on whole strings.
\<close>

abbreviation SPACE :: char where "SPACE \<equiv> CHR '' ''"

subsection \<open>Scanning\<close>

text \<open>\<open>while(*p == ' ') p++;\<close>\<close>

function skip_spaces :: "string \<Rightarrow> nat \<Rightarrow> nat" where
  "skip_spaces bs i = (if cget bs i = SPACE then skip_spaces bs (Suc i) else i)"
  by pat_completeness auto
termination
  by (relation "measure (\<lambda>(bs, i). length bs - i)") (auto simp: cget_def split: if_splits)

text \<open>\<open>while(*p && *p != ' ') p++;\<close>\<close>

function word_end :: "string \<Rightarrow> nat \<Rightarrow> nat" where
  "word_end bs i = (if cget bs i \<noteq> NUL \<and> cget bs i \<noteq> SPACE then word_end bs (Suc i) else i)"
  by pat_completeness auto
termination
  by (relation "measure (\<lambda>(bs, i). length bs - i)") (auto dest: cget_in_range)

declare skip_spaces.simps [simp del] word_end.simps [simp del]

lemma skip_spaces_ge: "i \<le> skip_spaces bs i"
proof (induction bs i rule: skip_spaces.induct)
  case (1 bs i)
  then show ?case by (subst skip_spaces.simps) (auto intro: Suc_leD)
qed

lemma word_end_ge: "i \<le> word_end bs i"
proof (induction bs i rule: word_end.induct)
  case (1 bs i)
  then show ?case by (subst word_end.simps) (auto intro: Suc_leD)
qed

lemma skip_spaces_stop: "cget bs (skip_spaces bs i) \<noteq> SPACE"
proof (induction bs i rule: skip_spaces.induct)
  case (1 bs i)
  then show ?case by (subst skip_spaces.simps) (auto simp: skip_spaces.simps [of bs i])
qed

lemma word_end_gt: "cget bs i \<noteq> NUL \<Longrightarrow> cget bs i \<noteq> SPACE \<Longrightarrow> i < word_end bs i"
  using word_end_ge [of "Suc i" bs] by (subst word_end.simps) simp

subsection \<open>The code\<close>

function parse_args :: "nat \<Rightarrow> string \<Rightarrow> nat \<Rightarrow> nat list \<Rightarrow> string \<times> nat list" where
  "parse_args max_argv bs src argv =
     (if cget bs src \<noteq> NUL \<and> length argv < max_argv
      then
        let s1 = skip_spaces bs src
        in if cget bs s1 = NUL then (bs, argv)
           else
             let s2 = word_end bs s1
             in if cget bs s2 = SPACE then parse_args max_argv (bs[s2 := NUL]) (Suc s2) (argv @ [s1])
                else parse_args max_argv bs s2 (argv @ [s1])
      else (bs, argv))"
  by pat_completeness auto
termination
proof (relation "measure (\<lambda>(max_argv, bs, src, argv). length bs - src)", goal_cases)
  case 1
  then show ?case by simp
next
  case (2 max_argv bs src argv s1 s2)
  have "src < Suc s2" using skip_spaces_ge [of src bs] word_end_ge [of s1 bs] 2 by simp
  then show ?case using 2 cget_in_range [of bs src] by simp
next
  case (3 max_argv bs src argv s1 s2)
  have "src < s2"
    using skip_spaces_ge [of src bs] word_end_gt [of bs s1] skip_spaces_stop [of bs src] 3 by simp
  then show ?case using 3 cget_in_range [of bs src] by simp
qed

declare parse_args.simps [simp del]

function find_bar :: "string \<Rightarrow> nat \<Rightarrow> nat option" where
  "find_bar bs i = (if cget bs i = NUL then None else if cget bs i = CHR ''|'' then Some i else find_bar bs (Suc i))"
  by pat_completeness auto
termination
  by (relation "measure (\<lambda>(bs, i). length bs - i)") (auto dest: cget_in_range)

declare find_bar.simps [simp del]

text \<open>\<open>while(len > 0 && buff[len - 1] == ' ') buff[--len] = '\0';\<close>\<close>

fun trim_end :: "string \<Rightarrow> nat \<Rightarrow> string" where
  "trim_end bs 0 = bs"
| "trim_end bs (Suc l) = (if cget bs l = SPACE then trim_end (bs[l := NUL]) l else bs)"

text \<open>The buffer and the pointers to the two commands.\<close>

definition parse_pipe :: "string \<Rightarrow> (string \<times> nat \<times> nat) option" where
  "parse_pipe bs =
     (case find_bar bs 0 of
        None \<Rightarrow> None
      | Some i \<Rightarrow>
          (let b1 = bs[i := NUL];
               b2 = trim_end b1 (str_len (Some b1));
               right = skip_spaces b2 (Suc i)
           in Some (b2, 0, right)))"

text \<open>Cut the name off at the first space; the pointer to the arguments if there are any.\<close>

function split_name :: "string \<Rightarrow> nat \<Rightarrow> string \<times> nat option" where
  "split_name bs i =
     (if cget bs i = NUL then (bs, None)
      else if cget bs i = SPACE
      then
        let b1 = bs[i := NUL]; j = skip_spaces b1 (Suc i)
        in (b1, if cget b1 j \<noteq> NUL then Some j else None)
      else split_name bs (Suc i))"
  by pat_completeness auto
termination
  by (relation "measure (\<lambda>(bs, i). length bs - i)") (auto dest: cget_in_range)

declare split_name.simps [simp del]

text \<open>The name and the arguments of a command, as the strings the calls that follow read.\<close>

type_synonym command = "string \<times> string list"

definition parse_opt :: "string \<Rightarrow> nat option \<Rightarrow> string \<times> nat list" where
  "parse_opt bs a = (case a of None \<Rightarrow> (bs, []) | Some p \<Rightarrow> parse_args 15 bs p [])"

definition str_at :: "string \<Rightarrow> nat \<Rightarrow> string" where
  "str_at bs p = cstr (drop p bs)"

datatype shell_line =
    EmptyLine
  | Pipeline command command bool
  | Command command bool

definition split_pipe :: "string \<Rightarrow> nat \<Rightarrow> nat \<Rightarrow> bool \<Rightarrow> shell_line" where
  "split_pipe bs left right bg =
     (let (b1, left_args) = split_name bs left;
          (b2, right_args) = split_name b1 right;
          (b3, argv1) = parse_opt b2 left_args;
          (b4, argv2) = parse_opt b3 right_args
      in Pipeline (str_at b4 left, map (str_at b4) argv1) (str_at b4 right, map (str_at b4) argv2) bg)"

text \<open>The background mark, the bar, the name.\<close>

definition parse_line :: "string \<Rightarrow> shell_line" where
  "parse_line buff =
     (if str_len (Some buff) = 0 then EmptyLine
      else
        let len = str_len (Some buff);
            bg = (cget buff (len - 1) = CHR ''&'');
            b1 = (if bg then trim_end (buff[len - 1 := NUL]) (len - 1) else buff)
        in case parse_pipe b1 of
             Some (b2, left, right) \<Rightarrow> split_pipe b2 left right bg
           | None \<Rightarrow>
               let (b2, args) = split_name b1 0;
                   (b3, argv) = parse_opt b2 args
               in Command (str_at b3 0, map (str_at b3) argv) bg)"

subsection \<open>The table of external commands\<close>

function strcmp_loop :: "string \<Rightarrow> string \<Rightarrow> nat \<Rightarrow> int" where
  "strcmp_loop a b i =
     (if cget a i \<noteq> NUL \<and> cget a i = cget b i then strcmp_loop a b (Suc i)
      else of_char (cget a i) - of_char (cget b i))"
  by pat_completeness auto
termination
  by (relation "measure (\<lambda>(a, b, i). length a - i)") (auto dest: cget_in_range)

declare strcmp_loop.simps [simp del]

definition strcmp :: "string option \<Rightarrow> string option \<Rightarrow> int" where
  "strcmp a b =
     (case (a, b) of
        (None, None) \<Rightarrow> 0 | (None, Some _) \<Rightarrow> -1 | (Some _, None) \<Rightarrow> 1
      | (Some x, Some y) \<Rightarrow> strcmp_loop x y 0)"

definition child_cmds :: "string list" where
  "child_cmds = [''test_mm'', ''test_processes'', ''test_prio'', ''test_sync'', ''mem'', ''kill'', ''nice'',
     ''block'', ''loop'', ''sh'', ''cat'', ''wc'', ''mvar'', ''filter'', ''help'']"

definition is_child_command :: "string \<Rightarrow> bool" where
  "is_child_command name = list_ex (\<lambda>c. strcmp (Some name) (Some c) = 0) child_cmds"

text \<open>The commands the shell runs itself.\<close>

definition builtins :: "string list" where
  "builtins = [''clear'', ''printTime'', ''printDate'', ''registers'', ''testDiv0'', ''invOp'', ''playBeep'',
     ''test_mm'', ''test_processes'', ''test_prio'', ''test_sync'', ''ps'']"

definition builtin_of :: "string \<Rightarrow> nat option" where
  "builtin_of name = first_idx (\<lambda>c. strcmp (Some name) (Some c) = 0) builtins"

end
