(* ===== verification/Shell_Parse.thy ===== *)
theory Shell_Parse
  imports Shell
begin

text \<open>
  What the cuts of the shell compute: the reference parser works on whole strings, with the words
  between the spaces. The lemmas follow the pointers through the buffer: a cut at \<open>q\<close> shortens the
  strings that reach \<open>q\<close> and leaves those behind \<open>q\<close> and those that ended before alone.
\<close>

subsection \<open>The reference parser\<close>

abbreviation is_space :: "char \<Rightarrow> bool" where "is_space c \<equiv> c = SPACE"

abbreviation not_space :: "char \<Rightarrow> bool" where "not_space c \<equiv> c \<noteq> SPACE"

definition ltrim :: "string \<Rightarrow> string" where
  "ltrim s = dropWhile is_space s"

definition rtrim :: "string \<Rightarrow> string" where
  "rtrim s = rev (dropWhile is_space (rev s))"

function words :: "string \<Rightarrow> string list" where
  "words s = (if ltrim s = [] then [] else takeWhile not_space (ltrim s) # words (dropWhile not_space (ltrim s)))"
  by pat_completeness auto
termination
proof (relation "measure length", goal_cases)
  case (2 s)
  have "length (dropWhile not_space (ltrim s)) < length (ltrim s)"
  proof (cases "ltrim s")
    case (Cons a t)
    then have "a \<noteq> SPACE" using hd_dropWhile [of is_space s] by (auto simp: ltrim_def)
    then show ?thesis using Cons length_dropWhile_le [of not_space t] by simp
  qed (use 2 in simp)
  also have "\<dots> \<le> length s" by (simp add: ltrim_def length_dropWhile_le)
  finally show ?case by simp
qed simp

declare words.simps [simp del]

definition spec_cmd :: "string \<Rightarrow> command" where
  "spec_cmd s = (takeWhile not_space s, take 15 (words (dropWhile not_space s)))"

definition spec_line :: "string \<Rightarrow> shell_line" where
  "spec_line s =
     (if s = [] then EmptyLine
      else
        let bg = (last s = CHR ''&'');
            t = (if bg then rtrim (butlast s) else s)
        in if CHR ''|'' \<in> set t
           then Pipeline (spec_cmd (rtrim (takeWhile (\<lambda>c. c \<noteq> CHR ''|'') t)))
                  (spec_cmd (ltrim (tl (dropWhile (\<lambda>c. c \<noteq> CHR ''|'') t)))) bg
           else Command (spec_cmd t) bg)"

subsection \<open>Strings at pointers\<close>

lemma str_at_step: "cget bs i \<noteq> NUL \<Longrightarrow> str_at bs i = cget bs i # str_at bs (Suc i)"
  and str_at_stop: "cget bs i = NUL \<Longrightarrow> str_at bs i = []"
  by (simp_all add: str_at_def cstr_drop_step cstr_drop_stop)

lemma str_at_0: "str_at bs 0 = cstr bs"
  by (simp add: str_at_def)

lemma cget_upd: "cget (bs[q := NUL]) i = (if i = q then NUL else cget bs i)"
  by (simp add: cget_def nth_list_update)

lemma length_str_at: "cget bs (p + length (str_at bs p)) = NUL"
proof (induction "length bs - p" arbitrary: p rule: less_induct)
  case less
  show ?case
  proof (cases "cget bs p = NUL")
    case True
    then show ?thesis by (simp add: str_at_stop)
  next
    case False
    then have "length bs - Suc p < length bs - p" using cget_in_range [OF False] by simp
    from less [OF this] False show ?thesis by (simp add: str_at_step)
  qed
qed

lemma str_at_nth: "i < length (str_at bs p) \<Longrightarrow> str_at bs p ! i = cget bs (p + i) \<and> cget bs (p + i) \<noteq> NUL"
proof (induction i arbitrary: p)
  case 0
  then have "cget bs p \<noteq> NUL" by (auto simp: str_at_stop)
  then show ?case by (simp add: str_at_step)
next
  case (Suc i)
  then have n: "cget bs p \<noteq> NUL" by (auto simp: str_at_stop)
  with Suc.prems have "i < length (str_at bs (Suc p))" by (simp add: str_at_step)
  from Suc.IH [OF this] show ?case using n by (simp add: str_at_step)
qed

text \<open>A string is determined by the characters up to its end.\<close>

lemma str_atI:
  assumes "\<And>i. i < length xs \<Longrightarrow> cget bs (p + i) = xs ! i" "NUL \<notin> set xs" "cget bs (p + length xs) = NUL"
  shows "str_at bs p = xs"
  using assms
proof (induction xs arbitrary: p)
  case Nil
  then show ?case by (simp add: str_at_stop)
next
  case (Cons x xs)
  have c: "cget bs p = x" using Cons.prems(1) [of 0] by simp
  have "str_at bs (Suc p) = xs"
  proof (rule Cons.IH)
    show "cget bs (Suc p + i) = xs ! i" if "i < length xs" for i using Cons.prems(1) [of "Suc i"] that by simp
  qed (use Cons.prems in simp_all)
  then show ?case using c Cons.prems(2) str_at_step [of bs p] by auto
qed

lemma str_at_no_NUL: "NUL \<notin> set (str_at bs p)"
  by (simp add: str_at_def cstr_no_NUL)

lemma str_at_agree:
  assumes "\<And>i. p \<le> i \<Longrightarrow> i \<le> p + length (str_at bs p) \<Longrightarrow> cget b' i = cget bs i"
  shows "str_at b' p = str_at bs p"
proof (rule str_atI)
  show "cget b' (p + i) = str_at bs p ! i" if "i < length (str_at bs p)" for i
    using assms [of "p + i"] str_at_nth [OF that] that by simp
qed (use assms length_str_at [of bs p] in \<open>simp_all add: str_at_no_NUL\<close>)

text \<open>A cut.\<close>

lemma str_at_cut: "q \<le> length (str_at bs p) \<Longrightarrow> str_at (bs[p + q := NUL]) p = take q (str_at bs p)"
proof (rule str_atI)
  assume q: "q \<le> length (str_at bs p)"
  show "cget (bs[p + q := NUL]) (p + i) = take q (str_at bs p) ! i" if "i < length (take q (str_at bs p))" for i
    using that str_at_nth [of i bs p] by (simp add: cget_upd)
  show "NUL \<notin> set (take q (str_at bs p))" using str_at_no_NUL [of bs p] by (meson in_set_takeD)
  show "cget (bs[p + q := NUL]) (p + length (take q (str_at bs p))) = NUL" using q by (simp add: cget_upd)
qed

lemma str_at_behind: "q < p \<Longrightarrow> str_at (bs[q := NUL]) p = str_at bs p"
  by (simp add: str_at_def)

subsection \<open>The scans\<close>

lemma str_at_skip_spaces: "str_at bs (skip_spaces bs i) = ltrim (str_at bs i)"
proof (induction bs i rule: skip_spaces.induct)
  case (1 bs i)
  show ?case
  proof (cases "cget bs i = SPACE")
    case True
    then show ?thesis using 1 by (simp add: skip_spaces.simps [of bs i] str_at_step ltrim_def)
  next
    case False
    then show ?thesis
      by (cases "cget bs i = NUL") (simp_all add: skip_spaces.simps [of bs i] str_at_step str_at_stop ltrim_def)
  qed
qed

lemma skip_spaces_between: "i \<le> k \<Longrightarrow> k < skip_spaces bs i \<Longrightarrow> cget bs k = SPACE"
proof (induction bs i rule: skip_spaces.induct)
  case (1 bs i)
  then have "cget bs i = SPACE" by (auto simp: skip_spaces.simps [of bs i] split: if_splits)
  then show ?case using 1 by (cases "k = i") (auto simp: skip_spaces.simps [of bs i])
qed

lemma word_end_eq: "word_end bs i = i + length (takeWhile not_space (str_at bs i))"
  and str_at_word_end: "str_at bs (word_end bs i) = dropWhile not_space (str_at bs i)"
proof (induction bs i rule: word_end.induct)
  case (1 bs i)
  {
    case 1
    show ?case
    proof (cases "cget bs i \<noteq> NUL \<and> cget bs i \<noteq> SPACE")
      case True
      then show ?thesis using "1.IH"(1) by (simp add: word_end.simps [of bs i] str_at_step)
    next
      case False
      then show ?thesis
        by (cases "cget bs i = NUL") (auto simp: word_end.simps [of bs i] str_at_step str_at_stop)
    qed
  next
    case 2
    show ?case
    proof (cases "cget bs i \<noteq> NUL \<and> cget bs i \<noteq> SPACE")
      case True
      then show ?thesis using "1.IH"(2) by (simp add: word_end.simps [of bs i] str_at_step)
    next
      case False
      then show ?thesis
        by (cases "cget bs i = NUL") (auto simp: word_end.simps [of bs i] str_at_step str_at_stop)
    qed
  }
qed

lemma find_bar_eq: "find_bar bs i =
    (if CHR ''|'' \<in> set (str_at bs i) then Some (i + length (takeWhile (\<lambda>c. c \<noteq> CHR ''|'') (str_at bs i))) else None)"
proof (induction bs i rule: find_bar.induct)
  case (1 bs i)
  show ?case
  proof (cases "cget bs i = NUL \<or> cget bs i = CHR ''|''")
    case True
    then show ?thesis by (auto simp: find_bar.simps [of bs i] str_at_step str_at_stop)
  next
    case False
    then show ?thesis using 1 by (auto simp: find_bar.simps [of bs i] str_at_step)
  qed
qed

lemma rtrim_snoc: "rtrim (s @ [c]) = (if c = SPACE then rtrim s else s @ [c])"
  by (simp add: rtrim_def)

lemma rtrim_Nil [simp]: "rtrim [] = []"
  by (simp add: rtrim_def)

text \<open>Each operation writes only inside the string it is given.\<close>

definition only_within :: "nat \<Rightarrow> nat \<Rightarrow> string \<Rightarrow> string \<Rightarrow> bool" where
  "only_within p e b b' \<longleftrightarrow> (\<forall>i. i < p \<or> e \<le> i \<longrightarrow> cget b' i = cget b i)"

definition str_end :: "string \<Rightarrow> nat \<Rightarrow> nat" where
  "str_end b p = p + length (str_at b p)"

lemma str_end_NUL [simp]: "cget b (str_end b p) = NUL"
  by (simp add: str_end_def length_str_at)

lemma str_end_le: "cget b e = NUL \<Longrightarrow> p \<le> e \<Longrightarrow> str_end b p \<le> e"
  using str_at_nth [of "e - p" b p] by (cases "e - p < length (str_at b p)") (auto simp: str_end_def)

lemma str_end_ge: "p \<le> str_end b p"
  by (simp add: str_end_def)

lemma str_end_same: "p \<le> q \<Longrightarrow> q \<le> str_end b p \<Longrightarrow> str_end b q = str_end b p"
  using str_end_le [OF str_end_NUL, of q b p] str_end_le [OF str_end_NUL, of p b q] str_end_ge [of q b] by simp

lemma str_at_outside:
  "only_within p e b b' \<Longrightarrow> str_end b q < p \<or> e \<le> q \<Longrightarrow> str_at b' q = str_at b q"
  by (rule str_at_agree) (auto simp: only_within_def str_end_def)

lemma str_end_outside: "only_within p e b b' \<Longrightarrow> str_end b q < p \<or> e \<le> q \<Longrightarrow> str_end b' q = str_end b q"
  by (simp add: str_end_def str_at_outside)

lemma only_within_refl [simp]: "only_within p e b b"
  by (simp add: only_within_def)

lemma only_within_trans:
  "only_within p e b b' \<Longrightarrow> only_within p' e' b' b'' \<Longrightarrow> p \<le> p' \<Longrightarrow> e' \<le> e \<Longrightarrow> only_within p e b b''"
  by (simp add: only_within_def)

lemma only_within_cut: "p \<le> q \<Longrightarrow> q < e \<Longrightarrow> only_within p e b (b[q := NUL])"
  by (auto simp: only_within_def cget_upd)

lemma trim_end_ok:
  "l = str_end bs 0 \<Longrightarrow> str_at (trim_end bs l) 0 = rtrim (str_at bs 0) \<and> only_within 0 l bs (trim_end bs l)"
proof (induction bs l rule: trim_end.induct)
  case (1 bs)
  then show ?case by (simp add: str_end_def)
next
  case (2 bs l)
  have len: "Suc l = length (str_at bs 0)" using 2(2) by (simp add: str_end_def)
  have nl: "cget bs l \<noteq> NUL" "str_at bs 0 ! l = cget bs l" using str_at_nth [of l bs 0] len by simp_all
  have sn: "str_at bs 0 = take l (str_at bs 0) @ [cget bs l]"
    using take_Suc_conv_app_nth [of l "str_at bs 0"] len nl by simp
  show ?case
  proof (cases "cget bs l = SPACE")
    case False
    then have "rtrim (str_at bs 0) = str_at bs 0" by (subst (1 2) sn) (simp add: rtrim_snoc)
    then show ?thesis using False by simp
  next
    case True
    have cut: "str_at (bs[l := NUL]) 0 = take l (str_at bs 0)" using str_at_cut [of l bs 0] len by simp
    then have "l = str_end (bs[l := NUL]) 0" using len by (simp add: str_end_def)
    note ih = 2(1) [OF True this]
    have "rtrim (str_at bs 0) = rtrim (take l (str_at bs 0))" using True by (subst sn) (simp add: rtrim_snoc)
    moreover have "only_within 0 (Suc l) bs (trim_end (bs[l := NUL]) l)"
      by (rule only_within_trans [OF only_within_cut [of 0 l "Suc l"] ih [THEN conjunct2]]) simp_all
    ultimately show ?thesis using ih cut True by simp
  qed
qed

subsection \<open>Words\<close>

lemma words_Nil [simp]: "words [] = []"
  by (simp add: words.simps [of "[]"] ltrim_def)

lemma ltrim_ltrim [simp]: "ltrim (ltrim s) = ltrim s"
  by (simp add: ltrim_def)

lemma words_ltrim [simp]: "words (ltrim s) = words s"
  by (subst (1 2) words.simps) simp

lemma words_step: "ltrim s \<noteq> [] \<Longrightarrow> words s = takeWhile not_space (ltrim s) # words (dropWhile not_space (ltrim s))"
  by (subst words.simps) simp

lemma words_end: "ltrim s = [] \<Longrightarrow> words s = []"
  by (subst words.simps) simp

lemma parse_args_ok:
  "parse_args mx bs src argv = (b', argv') \<Longrightarrow>
   \<exists>new. argv' = argv @ new \<and> map (str_at b') new = take (mx - length argv) (words (str_at bs src)) \<and>
     only_within src (str_end bs src) bs b' \<and> (\<forall>q\<in>set new. q < str_end bs src)"
proof (induction mx bs src argv rule: parse_args.induct)
  case (1 mx bs src argv)
  show ?case
  proof (cases "cget bs src \<noteq> NUL \<and> length argv < mx")
    case False
    then have "b' = bs" "argv' = argv" using 1(3) by (auto simp: parse_args.simps [of mx bs src])
    moreover have "take (mx - length argv) (words (str_at bs src)) = []" using False by (auto simp: str_at_stop)
    ultimately show ?thesis by simp
  next
    case go: True
    define s1 where "s1 = skip_spaces bs src"
    have at1: "str_at bs s1 = ltrim (str_at bs src)" by (simp add: s1_def str_at_skip_spaces)
    have ge1: "src \<le> s1" by (simp add: s1_def skip_spaces_ge)
    show ?thesis
    proof (cases "cget bs s1 = NUL")
      case True
      then have "b' = bs" "argv' = argv" using 1(3) go by (auto simp: parse_args.simps [of mx bs src] s1_def Let_def)
      moreover have "words (str_at bs src) = []" using at1 True by (simp add: words_end str_at_stop)
      ultimately show ?thesis by simp
    next
      case False
      have ns: "cget bs s1 \<noteq> SPACE" by (simp add: s1_def skip_spaces_stop)
      have "s1 \<le> str_end bs src"
      proof -
        have "length (str_at bs s1) \<noteq> 0" using False by (simp add: str_at_step)
        show ?thesis
        proof (rule ccontr)
          assume a: "\<not> s1 \<le> str_end bs src"
          have "cget bs i = SPACE" if "src \<le> i" "i < s1" for i
            using that unfolding s1_def by (rule skip_spaces_between)
          then have "cget bs (str_end bs src) = SPACE" using a by (simp add: str_end_def)
          then show False by simp
        qed
      qed
      then have end1: "str_end bs s1 = str_end bs src" "s1 < str_end bs src"
      proof -
        show "str_end bs s1 = str_end bs src" by (rule str_end_same [OF ge1 \<open>s1 \<le> _\<close>])
        then show "s1 < str_end bs src" using False by (simp add: str_end_def str_at_step)
      qed
      define s2 where "s2 = word_end bs s1"
      have at2: "str_at bs s2 = dropWhile not_space (ltrim (str_at bs src))"
        unfolding s2_def str_at_word_end at1 ..
      have s2: "s2 = s1 + length (takeWhile not_space (str_at bs s1))" unfolding s2_def by (rule word_end_eq)
      have gt2: "s1 < s2" using word_end_gt [OF False ns] by (simp add: s2_def)
      have ne: "ltrim (str_at bs src) \<noteq> []" using at1 False by (auto simp: str_at_step)
      note ws = words_step [OF ne, folded at2 at1]
      have le2: "s2 \<le> str_end bs s1" unfolding s2 str_end_def using length_takeWhile_le [of not_space "str_at bs s1"] by simp
      show ?thesis
      proof (cases "cget bs s2 = SPACE")
        case sp: True
        let ?b = "bs[s2 := NUL]"
        have "parse_args mx ?b (Suc s2) (argv @ [s1]) = (b', argv')"
          using 1(3) go False sp by (simp add: parse_args.simps [of mx bs src] s1_def [symmetric] s2_def [symmetric] Let_def)
        from 1(1) [OF go s1_def False s2_def sp this] obtain new where
          n: "argv' = argv @ s1 # new" "map (str_at b') new = take (mx - Suc (length argv)) (words (str_at ?b (Suc s2)))"
          "only_within (Suc s2) (str_end ?b (Suc s2)) ?b b'" "\<forall>q\<in>set new. q < str_end ?b (Suc s2)" by auto
        have room: "mx - length argv = Suc (mx - Suc (length argv))" using go by (simp add: Suc_diff_Suc)
        have lt2: "s2 < str_end bs s1" using le2 sp str_end_NUL [of bs s1] by (cases "s2 = str_end bs s1") auto
        have b2: "str_at ?b (Suc s2) = str_at bs (Suc s2)" by (rule str_at_behind) simp
        then have e2: "str_end ?b (Suc s2) = str_end bs s1"
        proof -
          have "str_end bs (Suc s2) = str_end bs s2" using sp by (simp add: str_end_def str_at_step)
          also have "\<dots> = str_end bs s1" by (rule str_end_same) (use le2 gt2 in simp_all)
          finally show ?thesis using b2 by (simp add: str_end_def)
        qed
        have "str_at ?b s1 = takeWhile not_space (str_at bs s1)"
          using str_at_cut [of "s2 - s1" bs s1] gt2 s2 by (simp add: takeWhile_eq_take [symmetric] length_takeWhile_le)
        moreover have "str_at b' s1 = str_at ?b s1"
          by (rule str_at_outside [OF n(3)], rule disjI1)
             (use calculation gt2 s2 in \<open>simp add: str_end_def\<close>)
        moreover have "words (str_at bs s2) = words (str_at bs (Suc s2))"
        proof -
          have "str_at bs s2 = SPACE # str_at bs (Suc s2)" using sp str_at_step [of bs s2] by simp
          then show ?thesis using words_ltrim [of "str_at bs s2"] words_ltrim [of "str_at bs (Suc s2)"] by (simp add: ltrim_def)
        qed
        ultimately have "map (str_at b') (s1 # new) = take (mx - length argv) (words (str_at bs src))"
          using n(2) ws b2 room by simp
        moreover have "only_within src (str_end bs src) bs b'"
          using only_within_trans [OF only_within_cut [of src s2 "str_end bs src" bs] n(3)] lt2 gt2 ge1 e2 end1 by simp
        ultimately show ?thesis using n(1,4) e2 end1 by (intro exI [of _ "s1 # new"]) simp
      next
        case nsp: False
        have nul: "cget bs s2 = NUL"
        proof (rule ccontr)
          assume "cget bs s2 \<noteq> NUL"
          then have "dropWhile not_space (ltrim (str_at bs src)) = cget bs s2 # str_at bs (Suc s2)"
            using at2 by (simp add: str_at_step)
          then show False using hd_dropWhile [of not_space "ltrim (str_at bs src)"] nsp by simp
        qed
        have "parse_args mx bs s2 (argv @ [s1]) = (b', argv')"
          using 1(3) go False nsp by (simp add: parse_args.simps [of mx bs src] s1_def [symmetric] s2_def [symmetric] Let_def)
        then have r: "b' = bs" "argv' = argv @ [s1]" using nul by (auto simp: parse_args.simps [of mx bs s2])
        have w2: "words (str_at bs s2) = []" using nul by (simp add: str_at_stop)
        have tw: "takeWhile not_space (str_at bs s1) = str_at bs s1"
          using at2 nul at1 by (metis append.right_neutral str_at_stop takeWhile_dropWhile_id)
        have "words (str_at bs src) = [str_at bs s1]" using ws by (simp only: w2 tw)
        then show ?thesis using r go end1(2) by (intro exI [of _ "[s1]"]) (simp add: take_Cons')
      qed
    qed
  qed
qed

subsection \<open>A command\<close>

lemma parse_opt_ok:
  assumes "parse_opt b a = (b', argv)"
  shows "map (str_at b') argv = take 15 (case a of None \<Rightarrow> [] | Some p \<Rightarrow> words (str_at b p)) \<and>
    (case a of None \<Rightarrow> b' = b \<and> argv = []
     | Some p \<Rightarrow> only_within p (str_end b p) b b' \<and> (\<forall>q\<in>set argv. q < str_end b p))"
  using assms parse_args_ok [of 15 b _ "[]" b' argv] by (cases a) (auto simp: parse_opt_def)

text \<open>The name is cut off; what is left for the arguments stands behind the cut.\<close>

lemma split_name_ok:
  "split_name bs i = (b', a) \<Longrightarrow>
   str_at b' i = takeWhile not_space (str_at bs i) \<and> only_within i (str_end bs i) bs b' \<and>
   (case a of None \<Rightarrow> words (dropWhile not_space (str_at bs i)) = []
    | Some p \<Rightarrow> words (str_at b' p) = words (dropWhile not_space (str_at bs i)) \<and>
        str_end b' i < p \<and> str_end b' p = str_end bs i)"
proof (induction bs i rule: split_name.induct)
  case (1 bs i)
  consider (stop) "cget bs i = NUL" | (cut) "cget bs i = SPACE" | (go) "cget bs i \<noteq> NUL" "cget bs i \<noteq> SPACE" by blast
  then show ?case
  proof cases
    case stop
    then have "b' = bs" "a = None" using 1(2) by (auto simp: split_name.simps [of bs i])
    then show ?thesis using stop by (simp add: str_at_stop)
  next
    case cut
    let ?b = "bs[i := NUL]"
    have b': "b' = ?b" and a: "a = (if cget ?b (skip_spaces ?b (Suc i)) \<noteq> NUL then Some (skip_spaces ?b (Suc i)) else None)"
      using 1(2) cut by (auto simp: split_name.simps [of bs i] Let_def)
    have at: "str_at bs i = SPACE # str_at bs (Suc i)" using cut str_at_step [of bs i] by simp
    have nm: "str_at ?b i = []" by (simp add: str_at_stop cget_upd)
    have rest: "str_at ?b (skip_spaces ?b (Suc i)) = ltrim (str_at bs (Suc i))"
      by (simp add: str_at_skip_spaces str_at_behind)
    have ow: "only_within i (str_end bs i) bs ?b" by (rule only_within_cut) (simp_all add: str_end_def at)
    have w: "words (dropWhile not_space (str_at bs i)) = words (ltrim (str_at bs (Suc i)))"
      using words_ltrim [of "SPACE # str_at bs (Suc i)"] by (simp add: at ltrim_def)
    show ?thesis
    proof (cases a)
      case None
      then have "cget ?b (skip_spaces ?b (Suc i)) = NUL" using a by (simp split: if_splits)
      then have "ltrim (str_at bs (Suc i)) = []" using rest by (simp add: str_at_stop)
      then show ?thesis using None b' nm at ow w by simp
    next
      case (Some p)
      then have p: "p = skip_spaces ?b (Suc i)" "cget ?b p \<noteq> NUL" using a by (auto split: if_splits)
      have lt: "i < p" using skip_spaces_ge [of "Suc i" ?b] p(1) by simp
      have "p \<le> str_end ?b (Suc i)"
      proof (rule ccontr)
        assume "\<not> p \<le> str_end ?b (Suc i)"
        then have "cget ?b (str_end ?b (Suc i)) = SPACE"
          using skip_spaces_between [of "Suc i" "str_end ?b (Suc i)" ?b] str_end_ge [of "Suc i" ?b] p(1) by simp
        then show False by simp
      qed
      then have "str_end ?b p = str_end ?b (Suc i)" using lt by (intro str_end_same) simp_all
      also have "\<dots> = str_end bs i" by (simp add: str_end_def str_at_behind at)
      finally show ?thesis using Some b' nm at ow w rest p(1) lt by (simp add: str_end_def)
    qed
  next
    case go
    then have "split_name bs (Suc i) = (b', a)" using 1(2) by (simp add: split_name.simps [of bs i])
    from 1(1) [OF go this] have ih: "str_at b' (Suc i) = takeWhile not_space (str_at bs (Suc i))"
      "only_within (Suc i) (str_end bs (Suc i)) bs b'"
      "case a of None \<Rightarrow> words (dropWhile not_space (str_at bs (Suc i))) = []
       | Some p \<Rightarrow> words (str_at b' p) = words (dropWhile not_space (str_at bs (Suc i))) \<and>
           str_end b' (Suc i) < p \<and> str_end b' p = str_end bs (Suc i)" by auto
    have e: "str_end bs (Suc i) = str_end bs i" using go by (simp add: str_end_def str_at_step)
    have c: "cget b' i = cget bs i" using ih(2) by (simp add: only_within_def)
    then have at': "str_at b' i = cget bs i # str_at b' (Suc i)" using go str_at_step [of b' i] by simp
    have "str_end b' i = str_end b' (Suc i)" by (simp add: str_end_def at')
    moreover have "only_within i (str_end bs i) bs b'" using ih(2) e by (auto simp: only_within_def)
    ultimately show ?thesis using ih go e at' by (cases a) (simp_all add: str_at_step)
  qed
qed

lemma command_ok:
  assumes s: "split_name b p = (b1, a)" and o: "parse_opt b1 a = (b2, argv)"
  shows "(str_at b2 p, map (str_at b2) argv) = spec_cmd (str_at b p)"
proof -
  note sn = split_name_ok [OF s] and po = parse_opt_ok [OF o]
  have "str_at b2 p = str_at b1 p"
  proof (cases a)
    case (Some q)
    then show ?thesis using sn po str_at_outside [of q "str_end b1 q" b1 b2 p] by simp
  qed (use po in simp)
  then show ?thesis using sn po by (cases a) (simp_all add: spec_cmd_def)
qed

subsection \<open>A pipeline\<close>

lemma str_at_drop: "k \<le> length (str_at bs p) \<Longrightarrow> str_at bs (p + k) = drop k (str_at bs p)"
proof (induction k arbitrary: p)
  case 0
  then show ?case by simp
next
  case (Suc k)
  then have n: "cget bs p \<noteq> NUL" by (auto simp: str_at_stop)
  with Suc.prems have "k \<le> length (str_at bs (Suc p))" by (simp add: str_at_step)
  from Suc.IH [OF this] show ?case using n by (simp add: str_at_step)
qed

text \<open>Two commands in the two parts of a buffer that a \<open>'\\0'\<close> at \<open>k\<close> separates.\<close>

lemma split_pipe_ok:
  assumes k: "cget b k = NUL" "l \<le> k" "k < r"
  shows "split_pipe b l r bg = Pipeline (spec_cmd (str_at b l)) (spec_cmd (str_at b r)) bg"
proof -
  obtain b1 la b2 ra b3 a1 b4 a2 where st: "split_name b l = (b1, la)" "split_name b1 r = (b2, ra)"
    "parse_opt b2 la = (b3, a1)" "parse_opt b3 ra = (b4, a2)" by (metis surj_pair)
  note s1 = split_name_ok [OF st(1)] and s2 = split_name_ok [OF st(2)]
  note o1 = parse_opt_ok [OF st(3)] and o2 = parse_opt_ok [OF st(4)]
  have el: "str_end b l \<le> k" using str_end_le [OF k(1,2)] .
  have ow1: "only_within l k b b1" using s1 el by (auto simp: only_within_def)
  have k1: "cget b1 k = NUL" using ow1 k(1) by (simp add: only_within_def)
  have r1: "str_at b1 r = str_at b r" by (rule str_at_outside [OF ow1]) (use k in simp)
  have ow2: "only_within (Suc k) (str_end b1 r) b1 b2" using s2 k(3) by (auto simp: only_within_def)
  have k2: "cget b2 k = NUL" using ow2 k1 by (simp add: only_within_def)
  have low2: "str_at b2 q = str_at b1 q" "str_end b2 q = str_end b1 q" if "q \<le> k" for q
    using str_at_outside [OF ow2, of q] str_end_outside [OF ow2, of q] str_end_le [OF k1 that] by auto
  define b2' where "b2' = b2"
  have la: "p \<le> k \<and> str_end b2 p \<le> k \<and> str_end b2 l < p" if "la = Some p" for p
  proof -
    have "str_end b1 l < p" "str_end b1 p = str_end b l" using s1 that by simp_all
    moreover have "p \<le> k" using calculation el str_end_ge [of p b1] by simp
    ultimately show ?thesis using low2 k(2) el by simp
  qed
  have ow3: "only_within 0 k b2 b3"
    using o1 la by (cases la) (auto simp: only_within_def)
  have k3: "cget b3 k = NUL" using ow3 k2 by (simp add: only_within_def)
  have high3: "str_at b3 q = str_at b2 q" "str_end b3 q = str_end b2 q" if "k < q" for q
    using str_at_outside [OF ow3, of q] str_end_outside [OF ow3, of q] that by auto
  have l3: "str_at b3 l = str_at b2 l"
  proof (cases la)
    case (Some p)
    then show ?thesis using o1 la [OF Some] str_at_outside [of p "str_end b2 p" b2 b3 l] by simp
  qed (use o1 in simp)
  have ra: "k < p \<and> str_end b2 r < p" if "ra = Some p" for p
    using s2 that k(3) str_end_ge [of r b2] by simp
  have ow4: "\<exists>e. only_within (Suc k) e b3 b4"
    using o2 ra by (cases ra) (auto simp: only_within_def intro!: exI [of _ "str_end b3 (the ra)"])
  then obtain e where ow4: "only_within (Suc k) e b3 b4" by blast
  have low4: "str_at b4 q = str_at b3 q" if "q \<le> k" for q
    using str_at_outside [OF ow4, of q] str_end_le [OF k3 that] by auto
  have r4: "str_at b4 r = str_at b2 r"
  proof (cases ra)
    case (Some p)
    then show ?thesis
      using o2 ra [OF Some] str_at_outside [of p "str_end b3 p" b3 b4 r] high3 [of r] k(3) by simp
  qed (use o2 high3 [of r] k(3) in simp)
  have left: "(str_at b4 l, map (str_at b4) a1) = spec_cmd (str_at b l)"
  proof -
    have "map (str_at b4) a1 = map (str_at b3) a1"
    proof (rule map_cong [OF refl])
      fix q assume "q \<in> set a1"
      then have "q \<le> k" using o1 la by (cases la) fastforce+
      then show "str_at b4 q = str_at b3 q" by (rule low4)
    qed
    moreover have "str_at b4 l = str_at b1 l" using low4 [OF k(2)] l3 low2(1) [OF k(2)] by simp
    ultimately show ?thesis using s1 o1 la low2 by (cases la) (auto simp: spec_cmd_def)
  qed
  have right: "(str_at b4 r, map (str_at b4) a2) = spec_cmd (str_at b r)"
    using s2 o2 r1 r4 ra high3 by (cases ra) (auto simp: spec_cmd_def)
  show ?thesis using st left right by (simp add: split_pipe_def)
qed

lemma parse_pipe_ok:
  defines "bar \<equiv> \<lambda>c. c \<noteq> CHR ''|''"
  shows "case parse_pipe bs of
      None \<Rightarrow> CHR ''|'' \<notin> set (str_at bs 0)
    | Some (b, l, r) \<Rightarrow> CHR ''|'' \<in> set (str_at bs 0) \<and> l = 0 \<and> str_at b 0 = rtrim (takeWhile bar (str_at bs 0)) \<and>
        str_at b r = ltrim (tl (dropWhile bar (str_at bs 0))) \<and> (\<exists>k<r. cget b k = NUL)"
proof (cases "CHR ''|'' \<in> set (str_at bs 0)")
  case False
  then show ?thesis by (simp add: parse_pipe_def find_bar_eq)
next
  case True
  define k where "k = length (takeWhile bar (str_at bs 0))"
  have kl: "k < length (str_at bs 0)"
  proof (rule ccontr)
    assume "\<not> k < length (str_at bs 0)"
    then have "takeWhile bar (str_at bs 0) = str_at bs 0"
      using takeWhile_eq_take [of bar "str_at bs 0"] by (simp add: k_def)
    then show False using True by (auto simp: bar_def)
  qed
  have tk: "take k (str_at bs 0) = takeWhile bar (str_at bs 0)" "dropWhile bar (str_at bs 0) = drop k (str_at bs 0)"
    unfolding k_def by (rule takeWhile_eq_take [symmetric], rule dropWhile_eq_drop)
  have f: "find_bar bs 0 = Some k" using True by (simp add: find_bar_eq k_def bar_def)
  let ?b1 = "bs[k := NUL]"
  let ?b2 = "trim_end ?b1 k"
  have b1: "str_at ?b1 0 = takeWhile bar (str_at bs 0)"
    using str_at_cut [of k bs 0] kl tk by simp
  have len: "length (cstr ?b1) = k" using b1 by (simp add: str_at_0 k_def)
  have "k = str_end ?b1 0" using b1 by (simp add: str_end_def k_def)
  note tr = trim_end_ok [OF this]
  have "cget ?b2 k = NUL" using tr by (simp add: only_within_def cget_upd)
  moreover have "str_at ?b2 (Suc k) = str_at ?b1 (Suc k)" using str_at_outside [of 0 k ?b1 ?b2 "Suc k"] tr by simp
  moreover have "str_at ?b1 (Suc k) = str_at bs (Suc k)" by (rule str_at_behind) simp
  moreover have "str_at bs (Suc k) = tl (dropWhile bar (str_at bs 0))"
    using str_at_drop [of "Suc k" bs 0] kl by (simp add: tk(2) drop_Suc tl_drop)
  ultimately show ?thesis
    using True f tr b1 skip_spaces_ge [of "Suc k" ?b2]
    by (auto simp: parse_pipe_def len Let_def str_at_skip_spaces intro!: exI [of _ k])
qed

subsection \<open>The line\<close>

lemma parse_line_ok: "parse_line buff = spec_line (cstr buff)"
proof (cases "cstr buff = []")
  case True
  then show ?thesis by (simp add: parse_line_def spec_line_def)
next
  case False
  define n where "n = length (cstr buff) - 1"
  have n: "length (str_at buff 0) = Suc n" using False by (cases "cstr buff") (simp_all add: n_def str_at_0)
  define bg where "bg = (cget buff n = CHR ''&'')"
  have bg: "bg = (last (cstr buff) = CHR ''&'')"
    using False n str_at_nth [of n buff 0] by (simp add: bg_def last_conv_nth str_at_0 n_def)
  define b1 where "b1 = (if bg then trim_end (buff[n := NUL]) n else buff)"
  have b1: "str_at b1 0 = (if bg then rtrim (butlast (cstr buff)) else cstr buff)"
  proof (cases bg)
    case True
    have c: "str_at (buff[n := NUL]) 0 = butlast (cstr buff)"
      using str_at_cut [of n buff 0] n by (simp add: str_at_0 butlast_conv_take)
    then have "n = str_end (buff[n := NUL]) 0" using n by (simp add: str_end_def str_at_0)
    from trim_end_ok [OF this] c True show ?thesis by (simp add: b1_def)
  qed (simp add: b1_def str_at_0)
  have pl: "parse_line buff = (case parse_pipe b1 of
      Some (b2, left, right) \<Rightarrow> split_pipe b2 left right bg
    | None \<Rightarrow> let (b2, args) = split_name b1 0; (b3, argv) = parse_opt b2 args
        in Command (str_at b3 0, map (str_at b3) argv) bg)"
  proof -
    have len: "(str_len (Some buff) = 0) = False" "str_len (Some buff) - 1 = n" using False by (simp_all add: n_def)
    show ?thesis by (simp only: parse_line_def len if_False Let_def bg_def [symmetric] b1_def [symmetric])
  qed
  show ?thesis
  proof (cases "parse_pipe b1")
    case None
    obtain b2 a b3 argv where c: "split_name b1 0 = (b2, a)" "parse_opt b2 a = (b3, argv)" by (metis surj_pair)
    from command_ok [OF this] parse_pipe_ok [of b1] None False b1 show ?thesis
      by (simp add: pl c spec_line_def bg [symmetric] Let_def)
  next
    case (Some x)
    then obtain b2 l r where x: "parse_pipe b1 = Some (b2, l, r)" by (cases x) auto
    with parse_pipe_ok [of b1] obtain k where k: "l = 0" "k < r" "cget b2 k = NUL" by auto
    from split_pipe_ok [OF k(3) _ k(2), of 0 bg] parse_pipe_ok [of b1] x k(1) False b1 show ?thesis
      by (simp add: pl spec_line_def bg [symmetric] Let_def)
  qed
qed

end
