(* ===== verification/Shell_Exec.thy ===== *)
theory Shell_Exec
  imports Shell Syscalls
begin

text \<open>
  What the shell does with a parsed line, \<open>processLine\<close> and \<open>handle_pipe\<close> of
  \<open>Userland/c/shell/userlib.c\<close>, with \<open>my_create_process_fg\<close> and the registry of
  \<open>Userland/c/shell/syscall.c\<close>, over the system calls of the kernel. The shell is the current
  process. A call that blocks the shell (\<open>my_wait\<close>) ends the definition: what is left to do is in
  the result. The entry addresses of the registry are its argument \<open>fn\<close>; the copy of the output
  the shell keeps for redrawing is in \<open>Line_Reader\<close>, the built-in commands in \<open>Line_Reader\<close> and \<open>Builtins\<close>.
\<close>

subsection \<open>Output\<close>

definition shellPutchar :: "u8 \<Rightarrow> 'a fdsys_scheme \<Rightarrow> 'a fdsys_scheme" where
  "shellPutchar c s = snd (sys_write 1 (Some [c]) s)"

definition shellPrintString :: "string \<Rightarrow> 'a fdsys_scheme \<Rightarrow> 'a fdsys_scheme" where
  "shellPrintString str s = fold (\<lambda>c. shellPutchar (of_char c)) (cstr str) s"

text \<open>The digits of \<open>num_to_str\<close>, least significant first, and their reversal.\<close>

function num_digits :: "nat \<Rightarrow> nat \<Rightarrow> string" where
  "num_digits base value =
     (if base < 2 \<or> value = 0 then []
      else let d = value mod base
           in char_of (if d < 10 then 48 + d else 65 + (d - 10)) # num_digits base (value div base))"
  by pat_completeness auto
termination
  by (relation "measure (\<lambda>(base, value). value)") auto

declare num_digits.simps [simp del]

definition num_to_str :: "u64 \<Rightarrow> int \<Rightarrow> string" where
  "num_to_str value base =
     (let b = (if base < 2 \<or> base > 16 then 10 else base);
          tmp = (if value = 0 then ''0'' else num_digits (nat b) (unat value))
      in rev tmp)"

subsection \<open>Starting processes\<close>

definition registry :: "string list" where
  "registry = [''endless_loop'', ''endless_loop_print'', ''loop'', ''zero_to_max'', ''my_process_inc'', ''test_mm'',
     ''test_processes'', ''test_prio'', ''test_sync'', ''mem'', ''kill'', ''nice'', ''block'', ''sh'', ''cat'', ''wc'',
     ''mvar'', ''mvar_writer'', ''mvar_reader'', ''filter'', ''help'']"

definition my_create_process_fg ::
  "(nat \<Rightarrow> u64) \<Rightarrow> string \<Rightarrow> string list \<Rightarrow> u64 \<Rightarrow> 'a ksys_scheme \<Rightarrow> (int \<times> 'a ksys_scheme) option" where
  "my_create_process_fg fn name argv fg s =
     (case first_idx (\<lambda>r. sem_str_eq (Some r) (Some name)) registry of
        None \<Rightarrow> Some (-1, s)
      | Some i \<Rightarrow> sys_create_process (Some name) (fn i) (of_nat (length argv)) (Some (map Some argv)) fg s)"

subsection \<open>Pipelines\<close>

datatype shell_result =
    Done
  | Failed
  | Builtin nat
  | Waiting "int list"
  | Background "int list"

definition close_both :: "int \<Rightarrow> int \<Rightarrow> 'a fdsys_scheme \<Rightarrow> 'a fdsys_scheme" where
  "close_both fd0 fd1 s = snd (sys_close (of_int fd1) (snd (sys_close (of_int fd0) s)))"

text \<open>Redirect the two processes, give the ends up, set the terminal, start both.\<close>

definition pipe_start :: "int \<Rightarrow> int \<Rightarrow> int \<Rightarrow> int \<Rightarrow> bool \<Rightarrow> 'a ksys_scheme \<Rightarrow> 'a ksys_scheme option" where
  "pipe_start pid1 pid2 fd0 fd1 bg s =
     do {
       (_, s1) \<leftarrow> sys_pipe_setup (of_int pid1) (of_int fd1) 1 s;
       (_, s2) \<leftarrow> sys_pipe_setup (of_int pid2) (of_int fd0) 0 s1;
       let s3 = close_both fd0 fd1 s2;
       let s4 = (if bg then s3 else snd (sys_tty_mode 1 s3));
       Some (sys_unblock (of_int pid2) (sys_unblock (of_int pid1) s4))
     }"

definition print_pids :: "int list \<Rightarrow> 'a fdsys_scheme \<Rightarrow> 'a fdsys_scheme" where
  "print_pids pids s =
     shellPrintString ('']'' @ [CHR 0x0A])
       (snd (fold (\<lambda>pid (first, s). (False, shellPrintString (num_to_str (of_int pid) 10)
          (if first then s else shellPrintString '', '' s))) pids (True, shellPrintString ''['' s)))"

definition handle_pipe ::
  "(nat \<Rightarrow> u64) \<Rightarrow> command \<Rightarrow> command \<Rightarrow> bool \<Rightarrow> 'a ksys_scheme \<Rightarrow> (shell_result \<times> 'a ksys_scheme) option" where
  "handle_pipe fn l r bg s =
     (case sys_pipe True s of (rc, fds, s1) \<Rightarrow>
        (if rc < 0 then Some (Failed, shellPrintString (''Error creando pipe'' @ [CHR 0x0A]) s1)
         else
           let (fd0, fd1) = the fds
           in if \<not> is_child_command (fst l) \<or> \<not> is_child_command (fst r)
              then Some (Failed, close_both fd0 fd1
                     (shellPrintString (''Pipe solo soporta comandos externos'' @ [CHR 0x0A]) s1))
              else do {
                (pid1, s2) \<leftarrow> my_create_process_fg fn (fst l) (snd l) 3 s1;
                (if pid1 < 0
                 then Some (Failed, close_both fd0 fd1
                        (shellPrintString (''Error creando proceso izquierdo'' @ [CHR 0x0A]) s2))
                 else do {
                   (pid2, s3) \<leftarrow> my_create_process_fg fn (fst r) (snd r) 3 s2;
                   (if pid2 < 0
                    then do {
                      s4 \<leftarrow> sys_kill (of_int pid1)
                             (shellPrintString (''Error creando proceso derecho'' @ [CHR 0x0A]) s3);
                      Some (Failed, close_both fd0 fd1 s4)
                    }
                    else do {
                      s4 \<leftarrow> pipe_start pid1 pid2 fd0 fd1 bg s3;
                      (if bg then Some (Background [pid1, pid2], print_pids [pid1, pid2] s4)
                       else map_option (\<lambda>(_, s5). (Waiting [pid1, pid2], s5)) (sys_waitpid (of_int pid1) s4))
                    })
                 })
              }))"

subsection \<open>The line\<close>

definition run_command ::
  "(nat \<Rightarrow> u64) \<Rightarrow> command \<Rightarrow> bool \<Rightarrow> 'a ksys_scheme \<Rightarrow> (shell_result \<times> 'a ksys_scheme) option" where
  "run_command fn c bg s =
     (if is_child_command (fst c)
      then
        let s1 = (if bg then s else snd (sys_tty_mode 1 (shellPrintString [CHR 0x08] s)))
        in do {
          (pid, s2) \<leftarrow> my_create_process_fg fn (fst c) (snd c) (if bg then 0 else 1) s1;
          (if pid < 0 then Some (Failed, shellPrintString (''Error creando proceso'' @ [CHR 0x0A]) s2)
           else if \<not> bg then map_option (\<lambda>(_, s3). (Waiting [pid], s3)) (sys_waitpid (of_int pid) s2)
           else Some (Background [pid], print_pids [pid] s2))
        }
      else
        case builtin_of (fst c) of
          Some i \<Rightarrow> Some (Builtin i, s)
        | None \<Rightarrow> Some (Failed, shellPrintString
            (''Comando no reconocido! Escriba 'help' para ver los comandos disponibles.'' @ [CHR 0x0A]) s))"

definition processLine :: "(nat \<Rightarrow> u64) \<Rightarrow> string \<Rightarrow> 'a ksys_scheme \<Rightarrow> (shell_result \<times> 'a ksys_scheme) option" where
  "processLine fn buff s =
     (case parse_line buff of
        EmptyLine \<Rightarrow> Some (Done, s)
      | Pipeline l r bg \<Rightarrow> handle_pipe fn l r bg s
      | Command c bg \<Rightarrow> run_command fn c bg s)"

end
