(* ===== verification/Pipeline.thy ===== *)
theory Pipeline
  imports Process_End Shell_Exec
begin

text \<open>
  What the start of a pipeline does to descriptors, pipes and processes. \<open>ends_at\<close> follows the two
  new descriptors through the calls: everything else that refers to a pipe stays as it was in a
  base state. The calls of the shell in between change the process table only benignly, apart from
  the two new processes.
\<close>

subsection \<open>Taking references is benign\<close>

lemma benign_set_pipe [simp]: "benign s (set_pipe i q t) \<longleftrightarrow> benign s t"
  by (simp add: set_pipe_def benign_def)

lemma benign_upd_fd [simp]: "benign s (upd_fd d f t) \<longleftrightarrow> benign s t" "benign (upd_fd d f s) t \<longleftrightarrow> benign s t"
  by (simp_all add: upd_fd_def benign_def)

lemma benign_open: "benign s (pipe_open_read p s)" "benign s (pipe_open_write p s)"
  by (auto simp: pipe_open_read_def pipe_open_write_def on_pipe_def pipe_open_read1_def pipe_open_write1_def
      Let_def case_prod_beta benign_wakes split: option.split)

lemma benign_incref: "benign s (fd_incref fd s)"
proof -
  have "benign s (pipe_open_read p (upd_fd e g s))" "benign s (pipe_open_write p (upd_fd e g s))" for p e g
    using benign_open [of "upd_fd e g s" p] by simp_all
  then show ?thesis by (simp add: fd_incref_def Let_def split: option.split)
qed

lemma tidied_incref: "tidied s (fd_incref fd s)"
  by (rule tidied_benign [OF benign_incref]) (rule sched_fd.fr_incref)

lemma benign_create_pipe: "benign s (snd (fd_create_pipe p b s))"
proof -
  have "benign s (snd (fd_alloc ty p s))" for ty
    by (simp add: fd_alloc_def split: option.split)
  then show ?thesis
    by (auto simp: fd_create_pipe_def Let_def case_prod_beta intro: benign_trans [OF _ benign_incref])
qed

lemma benign_sys_pipe: "benign s (snd (snd (sys_pipe b s)))"
proof -
  have o: "benign s (snd (pipe_open None s))"
    by (cases rule: pipe_open_cases [of None s]) simp_all
  have "benign s (snd (snd (pipe_create_fds p s)))" for p and s :: "'a fdsys_scheme"
    by (auto simp: pipe_create_fds_def Let_def case_prod_beta intro: benign_create_pipe benign_trans [OF _ benign_decref]
        benign_trans [OF benign_create_pipe benign_create_pipe])
  from benign_trans [OF o this] o show ?thesis by (auto simp: sys_pipe_def split: prod.split option.split)
qed

context fd_frame
begin

lemma fr_sys_pipe: "fr (snd (snd (sys_pipe b s))) = fr s"
proof -
  have "fr (snd (pipe_open nm s)) = fr s" for nm
    by (cases rule: pipe_open_cases [of nm s]) (simp_all add: fr_set_pipe)
  moreover have "fr (snd (snd (pipe_create_fds p s))) = fr s" for p s
    by (simp add: pipe_create_fds_def Let_def case_prod_beta fr_create_pipe fr_decref)
  ultimately show ?thesis by (simp add: sys_pipe_def case_prod_beta split: option.split)
qed

end

lemma tidied_sys_pipe: "tidied s (snd (snd (sys_pipe b s)))"
  by (rule tidied_benign [OF benign_sys_pipe sched_fd.fr_sys_pipe])

subsection \<open>Two new ends\<close>

definition same_end :: "FD \<Rightarrow> FD \<Rightarrow> bool" where
  "same_end e f \<longleftrightarrow> (is_end f \<longleftrightarrow> is_end e) \<and> (is_end e \<longrightarrow> f = e)"

lemma same_end_refl [simp]: "same_end e e"
  by (simp add: same_end_def)

lemma same_end_trans: "same_end e f \<Longrightarrow> same_end f g \<Longrightarrow> same_end e g"
  by (auto simp: same_end_def)

text \<open>The descriptor is an end of pipe \<open>i\<close>.\<close>

definition end_of :: "nat \<Rightarrow> FD \<Rightarrow> bool" where
  "end_of i e \<longleftrightarrow> is_end e \<and> fd_data e = Some i"

text \<open>Compared with the state \<open>b\<close>, the free descriptors \<open>r\<close> and \<open>w\<close> have become \<open>er\<close> and \<open>ew\<close>, and the pipe they are ends
  of, as long as one of them is, is in use; there is no other difference in ends and in pipes in use.\<close>

definition ends_at :: "'a fdsys_scheme \<Rightarrow> nat \<Rightarrow> nat \<Rightarrow> FD \<Rightarrow> FD \<Rightarrow> 'a fdsys_scheme \<Rightarrow> bool" where
  "ends_at b r w er ew t \<longleftrightarrow> fd_inv b \<and> fd_inv t \<and> r \<noteq> w \<and> r < MAX_FDS \<and> w < MAX_FDS \<and>
     fd_type (fd_at b r) = FD_NONE \<and> fd_type (fd_at b w) = FD_NONE \<and> fd_at t r = er \<and> fd_at t w = ew \<and>
     (\<forall>d<MAX_FDS. d \<noteq> r \<longrightarrow> d \<noteq> w \<longrightarrow> same_end (fd_at b d) (fd_at t d)) \<and>
     (\<forall>j<MAX_PIPES. pp_in_use (pipe_at t j) \<longleftrightarrow> pp_in_use (pipe_at b j) \<or> end_of j er \<or> end_of j ew) \<and>
     (\<forall>j. end_of j er \<or> end_of j ew \<longrightarrow> \<not> pp_in_use (pipe_at b j))"

definition rd_end :: "nat \<Rightarrow> nat \<Rightarrow> FD" where
  "rd_end i n = \<lparr>fd_type = FD_PIPE_READ, fd_refcount = n, fd_data = Some i\<rparr>"

definition wr_end :: "nat \<Rightarrow> nat \<Rightarrow> FD" where
  "wr_end i n = \<lparr>fd_type = FD_PIPE_WRITE, fd_refcount = n, fd_data = Some i\<rparr>"

lemma end_sels [simp]:
  "fd_type (rd_end i n) = FD_PIPE_READ" "fd_type (wr_end i n) = FD_PIPE_WRITE" "fd_refcount (rd_end i n) = n"
  "fd_refcount (wr_end i n) = n" "fd_data (rd_end i n) = Some i" "fd_data (wr_end i n) = Some i"
  "is_end (rd_end i n)" "is_end (wr_end i n)" "end_of j (rd_end i n) \<longleftrightarrow> j = i" "end_of j (wr_end i n) \<longleftrightarrow> j = i"
  by (auto simp: rd_end_def wr_end_def is_end_def end_of_def)

lemma end_of_count [simp]: "end_of j (e\<lparr>fd_refcount := n\<rparr>) = end_of j e"
  by (simp add: end_of_def is_end_def)

lemma end_of_dropped: "end_of j (dropped e) \<Longrightarrow> end_of j e"
  by (auto simp: end_of_def is_end_def dropped_def split: if_splits)

lemma ends_at_low: "ends_at b r w er ew t \<Longrightarrow> fd_inv b \<Longrightarrow> d = 0 \<or> d = 1 \<Longrightarrow> d \<noteq> r \<and> d \<noteq> w"
  by (auto simp: ends_at_def fd_inv_def)

lemma same_ends_used: "same_ends s t \<Longrightarrow> j < length (pipe_table s) \<Longrightarrow> pp_in_use (pipe_at t j) = pp_in_use (pipe_at s j)"
  using same_ends_at [of s t j] by (simp add: ends_def)

lemma ends_at_same: "same_ends s t \<Longrightarrow> ends_at b r w er ew s \<Longrightarrow> ends_at b r w er ew t"
proof -
  assume a: "same_ends s t" "ends_at b r w er ew s"
  have "length (pipe_table s) = MAX_PIPES" using a(2) by (simp add: ends_at_def fd_inv_def)
  then show ?thesis using a fd_inv_same [OF a(1)] same_ends_used [OF a(1)] by (auto simp: ends_at_def same_ends_def fd_at_def)
qed

lemma ends_at_modify:
  assumes "ends_at b r w er ew s" "fd_inv t" "fd_table t = modify d g (fd_table s)" "d < MAX_FDS"
    and "d \<noteq> r \<Longrightarrow> d \<noteq> w \<Longrightarrow> same_end (fd_at s d) (g (fd_at s d))"
    and "\<And>j. j < MAX_PIPES \<Longrightarrow> pp_in_use (pipe_at t j) \<longleftrightarrow> pp_in_use (pipe_at b j) \<or>
      end_of j (if d = r then g er else er) \<or> end_of j (if d = w then g ew else ew)"
    and "\<And>j. end_of j (g (fd_at s d)) \<Longrightarrow> end_of j (fd_at s d)"
  shows "ends_at b r w (if d = r then g er else er) (if d = w then g ew else ew) t"
proof -
  have "length (fd_table s) = MAX_FDS" using assms(1) by (simp add: ends_at_def fd_inv_def)
  then have at: "fd_at t k = (if k = d then g (fd_at s d) else fd_at s k)" for k
    using assms(3,4) by (cases "k = d") (simp_all add: fd_at_def)
  have fresh: "\<not> pp_in_use (pipe_at b j)" if "end_of j (if d = r then g er else er) \<or> end_of j (if d = w then g ew else ew)" for j
    using assms(1,7) that by (auto simp: ends_at_def split: if_splits)
  show ?thesis using assms(1,2,5) same_end_trans fresh assms(6) by (auto simp: ends_at_def at)
qed

text \<open>Under the invariant a pipe has no open end if and only if no descriptor is an end of it.\<close>

lemma no_ends:
  assumes t: "fd_inv t" and j: "j < MAX_PIPES"
  shows "pp_open_read (pipe_at t j) = 0 \<and> pp_open_write (pipe_at t j) = 0 \<longleftrightarrow> (\<forall>d<MAX_FDS. \<not> end_of j (fd_at t d))"
proof -
  have l: "length (fd_table t) = MAX_FDS" using t by (simp add: fd_inv_def)
  have zero: "refs T t j = 0 \<longleftrightarrow> (\<forall>d<MAX_FDS. refs_of T j (fd_at t d) = 0)" for T
  proof -
    have "refs T t j = (\<Sum>d<MAX_FDS. refs_of T j (fd_at t d))"
      by (simp add: refs_def fd_at_def sum_list_sum_nth atLeast0LessThan l)
    moreover have "0 \<le> refs_of T j e" for e by (simp add: refs_of_def)
    ultimately show ?thesis by (simp add: sum_nonneg_eq_0_iff Ball_def)
  qed
  have "refs_of FD_PIPE_READ j (fd_at t d) = 0 \<and> refs_of FD_PIPE_WRITE j (fd_at t d) = 0 \<longleftrightarrow> \<not> end_of j (fd_at t d)" if "d < MAX_FDS" for d
  proof -
    have "fd_at t d \<in> set (fd_table t)" using that l by (simp add: fd_at_def)
    then have "is_end (fd_at t d) \<Longrightarrow> 0 < fd_refcount (fd_at t d)" using t unfolding fd_inv_def by blast
    then show ?thesis by (auto simp: refs_of_def end_of_def is_end_def)
  qed
  moreover have "int (pp_open_read (pipe_at t j)) = refs FD_PIPE_READ t j" "int (pp_open_write (pipe_at t j)) = refs FD_PIPE_WRITE t j"
    using t j by (simp_all add: fd_inv_def)
  ultimately show ?thesis using zero by (metis of_nat_0_eq_iff)
qed

text \<open>Which pipes are in use after one end more or less.\<close>

lemma used_incref:
  assumes "fd_inv s" "j < MAX_PIPES"
  shows "pp_in_use (pipe_at (fd_incref fd s) j) = pp_in_use (pipe_at s j)"
proof (cases "fd_get fd s")
  case None
  then show ?thesis by (simp add: fd_incref_def)
next
  case (Some d)
  let ?t = "upd_fd d (\<lambda>e. e\<lparr>fd_refcount := fd_refcount e + 1\<rparr>) s"
  have l: "j < length (pipe_table ?t)" using assms by (simp add: fd_inv_def)
  have d: "d < MAX_FDS" "fd_type (fd_at s d) \<noteq> FD_NONE" using Some unfolding fd_get_Some by blast+
  have "pp_in_use (pipe_at (pipe_open_read p ?t) j) = pp_in_use (pipe_at s j) \<and>
      pp_in_use (pipe_at (pipe_open_write p ?t) j) = pp_in_use (pipe_at s j)"
    if "p = None \<or> (\<exists>i<MAX_PIPES. p = Some i)" for p
  proof (cases p)
    case None
    then show ?thesis by (simp add: pipe_open_read_def pipe_open_write_def on_pipe_def)
  next
    case (Some i)
    then have "i < length (pipe_table ?t)" using that assms(1) by (simp add: fd_inv_def)
    then show ?thesis using Some by (simp add: pipe_at_ends open_read_ends open_write_ends)
  qed
  moreover have "is_end (fd_at s d) \<Longrightarrow> \<exists>i<MAX_PIPES. fd_data (fd_at s d) = Some i"
    using assms(1) d(1) unfolding fd_inv_def by (metis fd_at_def nth_mem)
  moreover have "fd_type (fd_at ?t d) = fd_type (fd_at s d)" "fd_data (fd_at ?t d) = fd_data (fd_at s d)"
    using d assms(1) by (simp_all add: fd_inv_def)
  ultimately show ?thesis using Some by (simp add: fd_incref_def Let_def is_end_def)
qed

lemma used_decref:
  assumes s: "fd_inv s" and g: "fd_get fd s = Some d" and j: "j < MAX_PIPES"
  shows "pp_in_use (pipe_at (fd_decref fd s) j) =
    (pp_in_use (pipe_at s j) \<and> (end_of j (fd_at s d) \<longrightarrow> (\<exists>k<MAX_FDS. end_of j (fd_at (fd_decref fd s) k))))"
proof -
  let ?e = "fd_at s d" and ?t = "fd_decref fd s"
  have l: "length (fd_table s) = MAX_FDS" "length (pipe_table s) = MAX_PIPES" using s by (simp_all add: fd_inv_def)
  have d: "d < MAX_FDS" "fd_type ?e \<noteq> FD_NONE" using g unfolding fd_get_Some by blast+
  have mem: "?e \<in> set (fd_table s)" using d l by (simp add: fd_at_def)
  note n = no_ends [OF fd_inv_decref [OF s, of fd] j]
  show ?thesis
  proof (cases "is_end ?e")
    case False
    then have "fd_type ?e = FD_TERMINAL" using d(2) by (cases "fd_type ?e") (simp_all add: is_end_def)
    then have "pipe_table ?t = pipe_table s"
      using g l d(1) by (simp add: fd_decref_def Let_def)
    then show ?thesis using False by (simp add: pipe_at_def end_of_def)
  next
    case True
    then have pos: "0 < fd_refcount ?e" and "\<exists>i<MAX_PIPES. fd_data ?e = Some i \<and> pp_in_use (pipe_at s i)"
      using s mem unfolding fd_inv_def by blast+
    then obtain i where i: "i < MAX_PIPES" "fd_data ?e = Some i" "pp_in_use (pipe_at s i)" by blast
    from fd_decref_table(2) [OF g l(1) pos] obtain f where pt: "pipe_table ?t = pipe_table
        (if fd_type ?e = FD_PIPE_READ then pipe_close_read (fd_data ?e) (upd_fd d f s)
         else if fd_type ?e = FD_PIPE_WRITE then pipe_close_write (fd_data ?e) (upd_fd d f s) else upd_fd d f s)" by blast
    note pa = pipe_at_cong [OF pt]
    have il: "i < length (pipe_table (upd_fd d f s))" using i l by simp
    have same: "pipe_at ?t j = pipe_at s j" if "j \<noteq> i"
      using pa [of j] pipe_at_ends(3,4) [OF il, of j] True i that by (auto simp: is_end_def)
    have close: "pp_in_use (pipe_at ?t i) \<longleftrightarrow> \<not> (pp_open_read (pipe_at ?t i) = 0 \<and> pp_open_write (pipe_at ?t i) = 0)"
      using pa [of i] pipe_at_ends(3,4) [OF il, of i] True i
        ends_close_read [OF ends_fields, of "pipe_at s i" "upd_fd d f s"]
        ends_close_write [OF ends_fields, of "pipe_at s i" "upd_fd d f s"]
      by (auto simp: is_end_def ends_def split: if_splits)
    show ?thesis
    proof (cases "j = i")
      case True
      then show ?thesis using close n i \<open>is_end ?e\<close> by (auto simp: end_of_def)
    next
      case False
      then show ?thesis using same i by (simp add: end_of_def)
    qed
  qed
qed

lemma fd_incref_table:
  assumes "fd_get fd s = Some d" "d < length (fd_table s)"
  shows "fd_table (fd_incref fd s) = modify d (\<lambda>e. e\<lparr>fd_refcount := fd_refcount e + 1\<rparr>) (fd_table s)"
  using assms by (simp add: fd_incref_def Let_def)

lemma fd_get_end:
  assumes "d < MAX_FDS" "is_end (fd_at s d)"
  shows "fd_get (of_nat d) s = Some d"
proof -
  have "unat (of_nat d :: u64) = d" using assms(1) by (simp add: unat_of_nat)
  then show ?thesis using assms unfolding fd_get_Some by (auto simp: is_end_def)
qed

lemma ends_at_incref:
  assumes e: "ends_at b r w er ew s" and d: "d = r \<or> d = w" and k: "is_end (fd_at s d)"
  shows "ends_at b r w (if d = r then er\<lparr>fd_refcount := fd_refcount er + 1\<rparr> else er)
    (if d = w then ew\<lparr>fd_refcount := fd_refcount ew + 1\<rparr> else ew) (fd_incref (of_nat d) s)"
proof (rule ends_at_modify [OF e])
  have l: "d < MAX_FDS" "length (fd_table s) = MAX_FDS" "fd_inv s" using e d by (auto simp: ends_at_def fd_inv_def)
  show "fd_table (fd_incref (of_nat d) s) = modify d (\<lambda>e. e\<lparr>fd_refcount := fd_refcount e + 1\<rparr>) (fd_table s)"
    by (rule fd_incref_table [OF fd_get_end [OF l(1) k]]) (use l in simp)
  show "fd_inv (fd_incref (of_nat d) s)" by (rule fd_inv_incref [OF l(3)])
  show "pp_in_use (pipe_at (fd_incref (of_nat d) s) j) \<longleftrightarrow> pp_in_use (pipe_at b j) \<or>
      end_of j (if d = r then er\<lparr>fd_refcount := fd_refcount er + 1\<rparr> else er) \<or>
      end_of j (if d = w then ew\<lparr>fd_refcount := fd_refcount ew + 1\<rparr> else ew)" if "j < MAX_PIPES" for j
    using used_incref [OF l(3) that, of "of_nat d"] e that by (simp add: ends_at_def)
qed (use e d in \<open>auto simp: ends_at_def\<close>)

text \<open>A pipe that was not in use before has no other ends than these two.\<close>

lemma ends_at_only:
  assumes e: "ends_at b r w er ew s" and b: "fd_inv b" "\<not> pp_in_use (pipe_at b j)" and k: "k < MAX_FDS" "end_of j (fd_at s k)"
  shows "k = r \<or> k = w"
proof (rule ccontr)
  assume "\<not> ?thesis"
  then have "same_end (fd_at b k) (fd_at s k)" using e k(1) by (auto simp: ends_at_def)
  then have "end_of j (fd_at b k)" using k(2) by (auto simp: same_end_def end_of_def)
  moreover have "fd_at b k \<in> set (fd_table b)" using b(1) k(1) by (simp add: fd_inv_def fd_at_def)
  ultimately show False using b unfolding fd_inv_def end_of_def by fastforce
qed

lemma ends_at_decref:
  assumes e: "ends_at b r w er ew s" and d: "d = r \<or> d = w" and k: "is_end (fd_at s d)"
  shows "ends_at b r w (if d = r then dropped er else er) (if d = w then dropped ew else ew) (fd_decref (of_nat d) s)"
proof (rule ends_at_modify [OF e])
  have b: "fd_inv b" using e by (simp add: ends_at_def)
  have l: "d < MAX_FDS" "length (fd_table s) = MAX_FDS" "fd_inv s" using e d by (auto simp: ends_at_def fd_inv_def)
  have "fd_at s d \<in> set (fd_table s)" using l by (simp add: fd_at_def)
  then have "0 < fd_refcount (fd_at s d)" using k l(3) unfolding fd_inv_def by blast
  then show ft: "fd_table (fd_decref (of_nat d) s) = modify d dropped (fd_table s)"
    by (rule fd_decref_table(1) [OF fd_get_end [OF l(1) k] l(2)])
  show "fd_inv (fd_decref (of_nat d) s)" by (rule fd_inv_decref [OF l(3)])
  show "pp_in_use (pipe_at (fd_decref (of_nat d) s) j) \<longleftrightarrow> pp_in_use (pipe_at b j) \<or>
      end_of j (if d = r then dropped er else er) \<or> end_of j (if d = w then dropped ew else ew)" if j: "j < MAX_PIPES" for j
  proof -
    note u = used_decref [OF l(3) fd_get_end [OF l(1) k] j]
    have at: "fd_at (fd_decref (of_nat d) s) k = (if k = d then dropped (fd_at s d) else fd_at s k)" for k
      using l ft by (cases "k = d") (simp_all add: fd_at_def)
    have rw: "fd_at s r = er" "fd_at s w = ew" "r < MAX_FDS" "w < MAX_FDS" "r \<noteq> w" using e by (simp_all add: ends_at_def)
    have us: "pp_in_use (pipe_at s j) \<longleftrightarrow> pp_in_use (pipe_at b j) \<or> end_of j er \<or> end_of j ew" using e j by (simp add: ends_at_def)
    show ?thesis
    proof (cases "end_of j (fd_at s d)")
      case True
      then have nb: "\<not> pp_in_use (pipe_at b j)" using e d by (auto simp: ends_at_def)
      have "(\<exists>k<MAX_FDS. end_of j (fd_at (fd_decref (of_nat d) s) k)) \<longleftrightarrow>
          end_of j (fd_at (fd_decref (of_nat d) s) r) \<or> end_of j (fd_at (fd_decref (of_nat d) s) w)"
        using ends_at_only [OF e b nb] rw(3,4) by (auto simp: at dest: end_of_dropped split: if_splits)
      then show ?thesis using u us nb True rw d by (auto simp: at)
    next
      case False
      then show ?thesis using u us rw d by (auto dest: end_of_dropped)
    qed
  qed
qed (use e d in \<open>auto simp: ends_at_def dest: end_of_dropped\<close>)

text \<open>The terminal descriptors do not matter.\<close>

lemma terminal_decref:
  assumes "fd_inv s" "d = 0 \<or> d = 1"
  shows "\<exists>g. fd_table (fd_decref (of_nat d) s) = modify d g (fd_table s) \<and>
    fd_type (g (fd_at s d)) = FD_TERMINAL \<and> pipe_table (fd_decref (of_nat d) s) = pipe_table s"
proof -
  have l: "length (fd_table s) = MAX_FDS" "fd_type (fd_at s d) = FD_TERMINAL" using assms by (auto simp: fd_inv_def)
  have g: "fd_get (of_nat d) s = Some d" using l assms(2) by (auto simp: fd_get_def)
  show ?thesis
  proof (cases "0 < fd_refcount (fd_at s d)")
    case True
    from fd_decref_table [OF g l(1) True] show ?thesis
      using l(2) by (intro exI [of _ dropped]) (auto simp: dropped_def)
  next
    case False
    then have "fd_decref (of_nat d) s = s" using g l(2) by (simp add: fd_decref_def)
    moreover have "modify d (\<lambda>e. e) (fd_table s) = fd_table s" by (simp add: modify_def)
    ultimately show ?thesis using l(2) by (intro exI [of _ "\<lambda>e. e"]) simp
  qed
qed

lemma ends_at_terminal:
  assumes e: "ends_at b r w er ew s" and b: "fd_inv b" and d: "d = 0 \<or> d = 1"
  shows "ends_at b r w er ew (fd_decref (of_nat d) s)"
proof -
  have i: "fd_inv s" using e by (simp add: ends_at_def)
  from terminal_decref [OF i d] obtain g where
    g: "fd_table (fd_decref (of_nat d) s) = modify d g (fd_table s)" "fd_type (g (fd_at s d)) = FD_TERMINAL"
    "pipe_table (fd_decref (of_nat d) s) = pipe_table s" by blast
  note n = ends_at_low [OF e b d]
  have "fd_type (fd_at s d) = FD_TERMINAL" using i d by (auto simp: fd_inv_def)
  then have "same_end (fd_at s d) (g (fd_at s d))" using g(2) by (simp add: same_end_def is_end_def)
  moreover have "\<not> end_of j (g (fd_at s d))" for j using g(2) by (simp add: end_of_def is_end_def)
  moreover have "pp_in_use (pipe_at (fd_decref (of_nat d) s) j) \<longleftrightarrow> pp_in_use (pipe_at b j) \<or> end_of j er \<or> end_of j ew"
    if "j < MAX_PIPES" for j using e that pipe_at_cong [OF g(3)] by (simp add: ends_at_def)
  ultimately have "ends_at b r w (if d = r then g er else er) (if d = w then g ew else ew) (fd_decref (of_nat d) s)"
    using n d by (intro ends_at_modify [OF e fd_inv_decref [OF i] g(1)]) auto
  then show ?thesis using n by simp
qed

text \<open>The ends the pipe counts.\<close>

lemma refs_sum: "refs T s i = (\<Sum>d<length (fd_table s). refs_of T i (fd_at s d))"
  by (simp add: refs_def fd_at_def sum_list_sum_nth atLeast0LessThan)

lemma ends_at_counts:
  assumes e: "ends_at b r w (rd_end i m) (wr_end i n) t" and b: "fd_inv b" "\<not> pp_in_use (pipe_at b i)"
  shows "i < MAX_PIPES \<and> pp_in_use (pipe_at t i) \<and> pp_open_read (pipe_at t i) = m \<and> pp_open_write (pipe_at t i) = n"
proof -
  have t: "fd_inv t" and l: "length (fd_table t) = MAX_FDS" "r \<noteq> w" "r < MAX_FDS" "w < MAX_FDS"
    and at: "fd_at t r = rd_end i m" "fd_at t w = wr_end i n"
    using e by (simp_all add: ends_at_def fd_inv_def)
  have "fd_at t r \<in> set (fd_table t)" using l by (simp add: fd_at_def)
  then have i: "i < MAX_PIPES" "pp_in_use (pipe_at t i)" using t at unfolding fd_inv_def by force+
  have lb: "length (fd_table b) = MAX_FDS" using b by (simp add: fd_inv_def)
  have other: "refs_of T i (fd_at t d) = 0" if "d < MAX_FDS" "d \<noteq> r" "d \<noteq> w" "T = FD_PIPE_READ \<or> T = FD_PIPE_WRITE" for d T
  proof (rule ccontr)
    assume "refs_of T i (fd_at t d) \<noteq> 0"
    then have k: "is_end (fd_at t d)" "fd_data (fd_at t d) = Some i"
      using that by (auto simp: refs_of_def is_end_def split: if_splits)
    then have "is_end (fd_at b d)" "fd_data (fd_at b d) = Some i"
      using e that by (auto simp: ends_at_def same_end_def)
    moreover have "fd_at b d \<in> set (fd_table b)" using that lb by (simp add: fd_at_def)
    ultimately show False using b unfolding fd_inv_def by fastforce
  qed
  have "refs T t i = refs_of T i (fd_at t r) + refs_of T i (fd_at t w)" if T: "T = FD_PIPE_READ \<or> T = FD_PIPE_WRITE" for T
  proof -
    have "refs T t i = (\<Sum>d\<in>{r, w}. refs_of T i (fd_at t d))"
      unfolding refs_sum l(1) by (rule sum.mono_neutral_right) (use l other T in auto)
    then show ?thesis using l(2) by simp
  qed
  then have "refs FD_PIPE_READ t i = int m" "refs FD_PIPE_WRITE t i = int n"
    by (simp_all add: at refs_of_def)
  then show ?thesis using t i unfolding fd_inv_def by auto
qed

lemma dropped_ends [simp]:
  "dropped (rd_end i (Suc (Suc n))) = rd_end i (Suc n)" "dropped (wr_end i (Suc (Suc n))) = wr_end i (Suc n)"
  "is_end (dropped (rd_end i (Suc 0))) = False" "is_end (dropped (wr_end i (Suc 0))) = False"
  by (simp_all add: dropped_def is_end_def rd_end_def wr_end_def)

text \<open>What \<open>sys_pipe\<close> gives: the two ends of a pipe that was free, or nothing. In the second case nothing has changed, except
  that without a free descriptor a free pipe is taken and stays in use without ends.\<close>

definition untouched :: "'a fdsys_scheme \<Rightarrow> 'a fdsys_scheme \<Rightarrow> bool" where
  "untouched b t \<longleftrightarrow> fd_inv t \<and> (\<forall>d<MAX_FDS. same_end (fd_at b d) (fd_at t d)) \<and>
     (\<forall>j<MAX_PIPES. pp_in_use (pipe_at t j) = pp_in_use (pipe_at b j))"

definition pipe_lost :: "'a fdsys_scheme \<Rightarrow> 'a fdsys_scheme \<Rightarrow> bool" where
  "pipe_lost b t \<longleftrightarrow> fd_inv t \<and> (\<forall>e\<in>set (fd_table b). fd_type e \<noteq> FD_NONE) \<and> (\<forall>d<MAX_FDS. fd_at t d = fd_at b d) \<and>
     (\<exists>i<MAX_PIPES. \<not> pp_in_use (pipe_at b i) \<and> pp_open_read (pipe_at t i) = 0 \<and> pp_open_write (pipe_at t i) = 0 \<and>
        (\<forall>j<MAX_PIPES. pp_in_use (pipe_at t j) \<longleftrightarrow> pp_in_use (pipe_at b j) \<or> j = i))"

lemma ends_at_closed:
  assumes "ends_at b r w er ew t" "\<not> is_end er" "\<not> is_end ew"
  shows "untouched b t"
proof -
  have "same_end (fd_at b d) (fd_at t d)" if "d < MAX_FDS" for d
    using assms that by (cases "d = r \<or> d = w") (auto simp: ends_at_def same_end_def is_end_def)
  then show ?thesis using assms by (simp add: untouched_def ends_at_def end_of_def)
qed

lemma create_at:
  fixes s :: "'a fdsys_scheme"
  assumes s: "fd_inv s" and i: "i < MAX_PIPES" "pp_in_use (pipe_at s i)"
  obtains (full) "fd_create_pipe (Some i) wr s = (-1, s)" "\<forall>e\<in>set (fd_table s). fd_type e \<noteq> FD_NONE"
  | (made) k where "k < MAX_FDS" "fd_type (fd_at s k) = FD_NONE"
      "fst (fd_create_pipe (Some i) wr s) = int k" "fd_inv (snd (fd_create_pipe (Some i) wr s))"
      "\<And>j. pp_in_use (pipe_at (snd (fd_create_pipe (Some i) wr s)) j) = pp_in_use (pipe_at s j)"
      "\<And>d. fd_at (snd (fd_create_pipe (Some i) wr s)) d = (if d = k then (if wr then wr_end i 1 else rd_end i 1) else fd_at s d)"
proof (cases "first_idx (\<lambda>e. fd_type e = FD_NONE) (fd_table s)")
  case None
  then have none: "\<forall>e\<in>set (fd_table s). fd_type e \<noteq> FD_NONE" by simp
  show thesis by (rule full [OF fd_create_pipe_full [OF none] none])
next
  case (Some k)
  have l: "length (fd_table s) = MAX_FDS" "length (pipe_table s) = MAX_PIPES" using s by (simp_all add: fd_inv_def)
  then have il: "i < length (pipe_table s)" using i by simp
  note sh = fd_create_pipe_shape [OF l(1) il Some]
  have "k < length (fd_table s)" using sh(1) l by simp
  then have "fd_at (snd (fd_create_pipe (Some i) wr s)) d = (if d = k then (if wr then wr_end i 1 else rd_end i 1) else fd_at s d)" for d
    using sh(4) [of wr] by (cases "d = k") (simp_all add: fd_at_def wr_end_def rd_end_def end_type_def)
  moreover have "pp_in_use (pipe_at (snd (fd_create_pipe (Some i) wr s)) j) = pp_in_use (pipe_at s j)" for j
  proof -
    obtain u :: "'a fdsys_scheme" where u: "pipe_at (snd (fd_create_pipe (Some i) wr s)) j =
        (if j = i then fst ((if wr then pipe_open_write1 else pipe_open_read1) (pipe_at s i) u) else pipe_at s j)"
      using sh(5) [of wr] by blast
    show ?thesis unfolding u by (simp add: open_read_ends open_write_ends)
  qed
  ultimately show thesis using made [OF sh(1,2,3)] fd_inv_create [OF s i] by blast
qed

text \<open>The pipe that \<open>sys_pipe\<close> takes for itself, before its descriptors.\<close>

lemma fresh_pipe:
  assumes s: "fd_inv s" and i: "i < length (pipe_table s)" "\<not> pp_in_use (pipe_at s i)" and q: "ends q = (0, 0, True, n)"
  shows "fd_inv (set_pipe i q s)" "pp_in_use (pipe_at (set_pipe i q s) j) \<longleftrightarrow> pp_in_use (pipe_at s j) \<or> j = i"
    "pp_open_read (pipe_at (set_pipe i q s) i) = 0" "pp_open_write (pipe_at (set_pipe i q s) i) = 0"
proof -
  have "i < MAX_PIPES" using s i(1) by (simp add: fd_inv_def)
  then show "fd_inv (set_pipe i q s)" by (rule fd_inv_fresh [OF s _ i(2) q])
qed (use i q in \<open>auto simp: ends_def\<close>)

lemma pipe_gone:
  assumes s: "fd_inv s" and i: "i < MAX_PIPES" "\<not> pp_in_use (pipe_at s i)" and r: "r < MAX_FDS" "fd_type (fd_at s r) = FD_NONE"
    and v: "fd_inv v" "\<And>j. pp_in_use (pipe_at v j) \<longleftrightarrow> pp_in_use (pipe_at s j) \<or> j = i"
    and at: "\<And>d. fd_at v d = (if d = r then rd_end i 1 else fd_at s d)"
  shows "untouched s (fd_decref (of_nat r) v)"
proof -
  let ?t = "fd_decref (of_nat r) v"
  have g: "fd_get (of_nat r) v = Some r" by (rule fd_get_end [OF r(1)]) (simp add: at)
  have lv: "length (fd_table v) = MAX_FDS" using v by (simp add: fd_inv_def)
  have ft: "fd_table ?t = modify r dropped (fd_table v)" by (rule fd_decref_table(1) [OF g lv]) (simp add: at)
  have att: "fd_at ?t d = (if d = r then dropped (rd_end i 1) else fd_at s d)" for d
  proof (cases "d = r")
    case True
    then have "fd_at ?t d = dropped (fd_at v r)" using r(1) lv by (simp add: fd_at_def ft)
    then show ?thesis using True by (simp add: at)
  next
    case False
    then have "fd_at ?t d = fd_at v d" by (simp add: fd_at_def ft)
    then show ?thesis using False by (simp add: at)
  qed
  have "\<not> end_of i (fd_at s k)" if "k < MAX_FDS" for k
  proof
    assume "end_of i (fd_at s k)"
    moreover have "fd_at s k \<in> set (fd_table s)" using that s by (simp add: fd_inv_def fd_at_def)
    ultimately show False using s i(2) unfolding fd_inv_def end_of_def by fastforce
  qed
  then have none: "\<not> (\<exists>k<MAX_FDS. end_of i (fd_at ?t k))" by (auto simp: att end_of_def)
  have "pp_in_use (pipe_at ?t j) = pp_in_use (pipe_at s j)" if "j < MAX_PIPES" for j
    using used_decref [OF v(1) g that] none i(2) by (auto simp: v(2) at)
  moreover have "\<not> is_end (fd_at s r)" using r(2) by (simp add: is_end_def)
  ultimately show ?thesis using fd_inv_decref [OF v(1)] by (simp add: untouched_def att same_end_def)
qed

lemma sys_pipe_ends:
  fixes s :: "'a fdsys_scheme"
  assumes s: "fd_inv s"
  obtains (no_pipe) t where "sys_pipe True s = (-1, None, t)" "untouched s t \<or> pipe_lost s t"
  | (piped) r w i t where "sys_pipe True s = (0, Some (int r, int w), t)" "ends_at s r w (rd_end i 1) (wr_end i 1) t"
      "\<not> pp_in_use (pipe_at s i)"
proof (cases rule: pipe_open_cases [of None s])
  case none
  then show thesis using no_pipe s by (simp add: sys_pipe_def untouched_def)
next
  case (found i)
  then show thesis by simp
next
  case (new i q n)
  let ?u = "set_pipe i q s"
  have i: "i < MAX_PIPES" using new(2) s by (simp add: fd_inv_def)
  note u = fresh_pipe [OF s new(2,3,4)]
  have ui: "pp_in_use (pipe_at ?u i)" unfolding u(2) by simp
  have p: "sys_pipe True s = pipe_create_fds (Some i) ?u" using new(1) by (simp add: sys_pipe_def)
  show thesis
  proof (cases rule: create_at [OF u(1) i ui, of False])
    case full: 1
    then have "sys_pipe True s = (-1, None, ?u)" by (simp add: p pipe_create_fds_def)
    moreover have "pipe_lost s ?u" using full(2) u i new(3) by (auto simp: pipe_lost_def simp del: pipe_at_set_pipe)
    ultimately show thesis using no_pipe by blast
  next
    case made: (2 r)
    define v0 where "v0 = snd (fd_create_pipe (Some i) False ?u)"
    note made = made [folded v0_def]
    have v: "fd_create_pipe (Some i) False ?u = (int r, v0)" using made(3) by (simp add: prod_eq_iff v0_def)
    have r: "fd_type (fd_at s r) = FD_NONE" using made(2) by simp
    have vi: "pp_in_use (pipe_at v0 j) \<longleftrightarrow> pp_in_use (pipe_at s j) \<or> j = i" for j by (simp only: made(5) u(2))
    have vii: "pp_in_use (pipe_at v0 i)" unfolding vi by simp
    have v_at: "fd_at v0 d = (if d = r then rd_end i 1 else fd_at s d)" for d by (simp add: made(6))
    show thesis
    proof (cases rule: create_at [OF made(4) i vii, of True])
      case full: 1
      have "untouched s (fd_decref (of_nat r) v0)" by (rule pipe_gone [OF s i new(3) made(1) r made(4) vi v_at])
      moreover have "sys_pipe True s = (-1, None, fd_decref (of_nat r) v0)"
        using full by (simp add: p pipe_create_fds_def v)
      ultimately show thesis using no_pipe by blast
    next
      case w: (2 w)
      let ?t = "snd (fd_create_pipe (Some i) True v0)"
      have e: "sys_pipe True s = (0, Some (int r, int w), ?t)"
        using w(3) by (simp add: p pipe_create_fds_def v case_prod_beta Let_def)
      have "r \<noteq> w" using w(2) by (auto simp: v_at)
      then have "ends_at s r w (rd_end i 1) (wr_end i 1) ?t"
        using w(1,2,4) made(1) r s new(3) by (auto simp: ends_at_def w(5,6) vi v_at)
      then show thesis using piped [OF e] new(3) by blast
    qed
  qed
qed

end
