(* ===== verification/Pipeline_Start.thy ===== *)
theory Pipeline_Start
  imports Pipeline
begin

text \<open>
  The two processes of a pipeline: what redirecting, closing, waking and printing leave of the kernel,
  and the kill of a process that has only the terminal. \<open>quiet\<close> changes touch only the terminal and
  the screen.
\<close>

subsection \<open>Changes of terminal and screen\<close>

definition quiet :: "'a fdsys_scheme \<Rightarrow> 'a fdsys_scheme \<Rightarrow> bool" where
  "quiet s t \<longleftrightarrow> process_table t = process_table s \<and> next_pid t = next_pid s \<and> current_process t = current_process s \<and>
     sched_part t = sched_part s \<and> sem_table t = sem_table s \<and> pipe_table t = pipe_table s \<and> fd_table t = fd_table s"

lemma tidied_sem_inv: "tidied s t \<Longrightarrow> sem_table t = sem_table s \<Longrightarrow> sem_inv s \<Longrightarrow> sem_inv t"
proof -
  assume t: "tidied s t" "sem_table t = sem_table s" "sem_inv s"
  have "p_pid (pcb_at t k) = p_pid (pcb_at s k)" if "live s k" for k
    using tidied_pcb [OF t(1), of k] live_less [OF that] by (simp add: pcb_sim_def)
  then have "live_pids s \<subseteq> live_pids t" by (force simp: live_pids_def tidied_live [OF t(1)])
  then show ?thesis by (rule sem_inv_more [OF t(3,2)])
qed

lemma quietD:
  assumes "quiet s t"
  shows "tidied s t" "pcb_at t k = pcb_at s k" "process_get t pid = process_get s pid" "same_ends s t" "live t k = live s k" "rq t = rq s"
    "fd_at t d = fd_at s d" "current_process t = current_process s"
  using assms by (simp_all add: quiet_def tidied_def pcb_at_def process_get_def same_ends_def live_def fd_at_def rq_def
      sched_part_def list_all2_refl pcb_sim_def state_le_def)

lemma quiet_inv:
  assumes "quiet s t"
  shows "sched_inv s \<Longrightarrow> sched_inv t" "mem_inv L s \<Longrightarrow> mem_inv L t" "sem_inv s \<Longrightarrow> sem_inv t" "fd_inv s \<Longrightarrow> fd_inv t"
  using tidied_sched_inv [OF _ quietD(1) [OF assms]] tidied_mem_inv [OF _ quietD(1) [OF assms]]
    tidied_sem_inv [OF quietD(1) [OF assms]] fd_inv_same [OF quietD(4) [OF assms]] assms
  by (simp_all add: quiet_def)

lemma quiet_refl [simp]: "quiet s s"
  by (simp add: quiet_def)

lemma quiet_trans [trans]: "quiet s t \<Longrightarrow> quiet t u \<Longrightarrow> quiet s u"
  by (simp add: quiet_def)

lemma quiet_tty: "quiet s (snd (sys_tty_mode m s))"
  by (simp add: sys_tty_mode_def tty_set_mode_def quiet_def sched_part_def)

text \<open>The current process prints on the terminal.\<close>

definition prints :: "'a fdsys_scheme \<Rightarrow> bool" where
  "prints s \<longleftrightarrow> std_fds s \<and> (\<exists>c. current_process s = Some c \<and> p_fd (pcb_at s c) ! 1 = 1)"

lemma quiet_putchar: "prints s \<Longrightarrow> quiet s (shellPutchar c s)"
proof -
  assume "prints s"
  then obtain p where p: "current_process s = Some p" "p_fd (pcb_at s p) ! 1 = 1" "fd_type (fd_at s 1) = FD_TERMINAL"
    by (auto simp: prints_def std_fds_def)
  then have "fd_get 1 s = Some 1" by (simp add: fd_get_def)
  then show ?thesis
    using p by (simp add: shellPutchar_def sys_write_def sys_write_color_def process_current_def real_fd_def fd_write_def
        videoPutChar_def quiet_def sched_part_def)
qed

lemma quiet_prints: "quiet s t \<Longrightarrow> prints s \<Longrightarrow> prints t"
  by (simp add: prints_def std_fds_def quietD) (simp add: quiet_def)

lemma quiet_print: "prints s \<Longrightarrow> quiet s (shellPrintString str s)"
proof -
  have "prints s \<Longrightarrow> quiet s (fold (\<lambda>c. shellPutchar (of_char c)) cs s)" for cs and s :: "'a fdsys_scheme"
  proof (induction cs arbitrary: s)
    case (Cons c cs)
    have "quiet s (shellPutchar (of_char c) s)" by (rule quiet_putchar [OF Cons.prems])
    also have "quiet \<dots> (fold (\<lambda>c. shellPutchar (of_char c)) cs \<dots>)"
      by (rule Cons.IH) (rule quiet_prints [OF quiet_putchar [OF Cons.prems] Cons.prems])
    finally show ?case by simp
  qed simp
  then show "prints s \<Longrightarrow> quiet s (shellPrintString str s)" by (simp add: shellPrintString_def)
qed

lemma quiet_pids: "prints s \<Longrightarrow> quiet s (print_pids pids s)"
proof -
  let ?f = "\<lambda>pid (first, s). (False, shellPrintString (num_to_str (of_int pid) 10)
      (if first then s else shellPrintString '', '' s))"
  have 1: "quiet t (snd (?f pid (b, t)))" if "prints t" for pid b and t :: "'a fdsys_scheme"
    using quiet_trans [OF quiet_print [OF that] quiet_print [OF quiet_prints [OF quiet_print [OF that] that]]] quiet_print [OF that]
    by simp
  have f: "quiet t (snd (fold ?f ps (b, t)))" if "prints t" for ps b and t :: "'a fdsys_scheme"
    using that
  proof (induction ps arbitrary: b t)
    case (Cons p ps)
    have e: "?f p (b, t) = (False, snd (?f p (b, t)))" by simp
    have "quiet (snd (?f p (b, t))) (snd (fold ?f ps (False, snd (?f p (b, t)))))"
      by (rule Cons.IH) (rule quiet_prints [OF 1 [OF Cons.prems] Cons.prems])
    with 1 [OF Cons.prems] have "quiet t (snd (fold ?f ps (False, snd (?f p (b, t)))))" by (rule quiet_trans)
    then show ?case using e by simp
  qed simp
  assume p: "prints s"
  let ?s1 = "shellPrintString ''['' s"
  have 1: "quiet s ?s1" by (rule quiet_print [OF p])
  have 2: "quiet s (snd (fold ?f pids (True, ?s1)))" by (rule quiet_trans [OF 1 f [OF quiet_prints [OF 1 p]]])
  have "quiet s (shellPrintString ('']'' @ [CHR 0x0A]) (snd (fold ?f pids (True, ?s1))))"
    by (rule quiet_trans [OF 2 quiet_print [OF quiet_prints [OF 2 p]]])
  then show ?thesis unfolding print_pids_def .
qed

subsection \<open>Redirection, closing, waking\<close>

lemma benign_fd: "benign s t \<Longrightarrow> k < length (process_table s) \<Longrightarrow> p_fd (pcb_at t k) = p_fd (pcb_at s k)"
  using benign_pcb [of s t k] by (simp add: pcb_le_def pcb_key_def)

lemma to_int32_fd: "d < MAX_FDS \<Longrightarrow> to_int32 (of_int (int d)) = int d"
proof -
  assume "d < MAX_FDS"
  then have "sint (of_nat d :: 32 word) = int d" by (simp add: signed_of_nat signed_take_bit_int_eq_self)
  moreover have "ucast (of_nat d :: u64) = (of_nat d :: 32 word)"
    using \<open>d < MAX_FDS\<close> by (simp add: unsigned_of_nat take_bit_nat_eq_self)
  ultimately show ?thesis by (simp add: to_int32_def)
qed

lemma setup_step:
  fixes s :: "'a ksys_scheme"
  assumes g: "process_get s pid = Some j" and p: "p_fd (pcb_at s j) = [0, 1]" and tg: "tg = 0 \<or> tg = 1"
    and e: "ends_at b r w er ew s" "fd_inv b" and d: "d = r \<or> d = w" "is_end (fd_at s d)"
  obtains t where "sys_pipe_setup pid (of_int (int d)) (of_nat tg) s = Some (0, t)" "tidied s t" "sem_table t = sem_table s"
    "tty_part t = tty_part s" "p_fd (pcb_at t j) = [0, 1][tg := int d]"
    "\<And>k. k < length (process_table s) \<Longrightarrow> k \<noteq> j \<Longrightarrow> p_fd (pcb_at t k) = p_fd (pcb_at s k)"
    "ends_at b r w (if d = r then er\<lparr>fd_refcount := fd_refcount er + 1\<rparr> else er)
       (if d = w then ew\<lparr>fd_refcount := fd_refcount ew + 1\<rparr> else ew) t"
proof -
  have jl: "j < length (process_table s)" using process_get_Some [OF g] by (simp add: live_def)
  have dl: "d < MAX_FDS" using e d by (auto simp: ends_at_def)
  define s1 where "s1 = fd_decref (of_nat tg) s"
  define s2 where "s2 = upd_pcb j (\<lambda>q. q\<lparr>p_fd := (p_fd q)[tg := int d]\<rparr>) s1"
  define t where "t = fd_incref (of_nat d) s2"
  have e1: "ends_at b r w er ew s1" unfolding s1_def by (rule ends_at_terminal [OF e tg])
  have e2: "ends_at b r w er ew s2" unfolding s2_def by (rule ends_at_same [OF _ e1]) simp
  have k2: "is_end (fd_at s2 d)" using e(1) e2 d by (auto simp: ends_at_def)
  have l1: "length (process_table s1) = length (process_table s)" unfolding s1_def by (rule benign_length [OF benign_decref])
  have f1: "p_fd (pcb_at s1 k) = p_fd (pcb_at s k)" if "k < length (process_table s)" for k
    unfolding s1_def by (rule benign_fd [OF benign_decref that])
  have f2: "p_fd (pcb_at s2 k) = (if k = j then (p_fd (pcb_at s k))[tg := int d] else p_fd (pcb_at s k))"
    if "k < length (process_table s)" for k
    using f1 [OF that] jl by (cases "k = j") (simp_all add: s2_def pcb_at_upd l1)
  have ft: "p_fd (pcb_at t k) = p_fd (pcb_at s2 k)" if "k < length (process_table s)" for k
    unfolding t_def by (rule benign_fd [OF benign_incref]) (simp add: s2_def l1 that)
  have "to_int32 (of_nat tg) = int tg" using tg by (auto simp: to_int32_def)
  moreover have "to_int32 (of_int (int d)) = int d" by (rule to_int32_fd [OF dl])
  moreover have "p_fd (pcb_at s j) ! tg = int tg" using p tg by auto
  ultimately have "sys_pipe_setup pid (of_int (int d)) (of_nat tg) s = Some (0, t)"
    using tg unfolding sys_pipe_setup_def process_pipe_setup_def g
    by (auto simp: t_def s2_def s1_def Let_def)
  moreover have "tidied s t"
  proof -
    have "tidied s1 s2" unfolding s2_def by (rule tidied_upd_pcb) (simp add: pcb_sim_def own_def)
    from tidied_trans [OF tidied_trans [OF tidied_decref this [unfolded s1_def]] tidied_incref] show ?thesis
      unfolding t_def s1_def .
  qed
  moreover have "sem_table t = sem_table s" "tty_part t = tty_part s"
    by (simp_all add: t_def s2_def s1_def sem_fd.fr_incref sem_fd.fr_decref tty_fd.fr_incref tty_fd.fr_decref tty_sem.fr_pcb)
  moreover have "ends_at b r w (if d = r then er\<lparr>fd_refcount := fd_refcount er + 1\<rparr> else er)
       (if d = w then ew\<lparr>fd_refcount := fd_refcount ew + 1\<rparr> else ew) t"
    unfolding t_def by (rule ends_at_incref [OF e2 d(1) k2])
  moreover have "p_fd (pcb_at t j) = [0, 1][tg := int d]" using ft [OF jl] f2 [OF jl] p by simp
  moreover have "p_fd (pcb_at t k) = p_fd (pcb_at s k)" if "k < length (process_table s)" "k \<noteq> j" for k
    using ft [OF that(1)] f2 [OF that(1)] that(2) by simp
  ultimately show thesis using that by blast
qed

lemma close_both_ok:
  fixes s :: "'a fdsys_scheme"
  assumes e: "ends_at b r w er ew s" and k: "is_end er" "is_end ew"
  shows "ends_at b r w (dropped er) (dropped ew) (close_both (int r) (int w) s)" "tidied s (close_both (int r) (int w) s)"
    "sem_table (close_both (int r) (int w) s) = sem_table s" "tty_part (close_both (int r) (int w) s) = tty_part s"
    "j < length (process_table s) \<Longrightarrow> p_fd (pcb_at (close_both (int r) (int w) s) j) = p_fd (pcb_at s j)"
proof -
  let ?u = "fd_decref (of_nat r) s"
  have c: "close_both (int r) (int w) s = fd_decref (of_nat w) ?u" by (simp add: close_both_def sys_close_def)
  have ne: "r \<noteq> w" using e by (simp add: ends_at_def)
  have "is_end (fd_at s r)" using e k by (simp add: ends_at_def)
  from ends_at_decref [OF e _ this] have u: "ends_at b r w (dropped er) ew ?u" using ne by simp
  then have "is_end (fd_at ?u w)" using k by (simp add: ends_at_def)
  from ends_at_decref [OF u _ this] show "ends_at b r w (dropped er) (dropped ew) (close_both (int r) (int w) s)"
    using ne by (simp add: c)
  have b: "benign s (fd_decref (of_nat w) ?u)" by (rule benign_trans [OF benign_decref benign_decref])
  show "tidied s (close_both (int r) (int w) s)" unfolding c by (rule tidied_trans [OF tidied_decref tidied_decref])
  show "sem_table (close_both (int r) (int w) s) = sem_table s" "tty_part (close_both (int r) (int w) s) = tty_part s"
    by (simp_all add: c sem_fd.fr_decref tty_fd.fr_decref)
  show "j < length (process_table s) \<Longrightarrow> p_fd (pcb_at (close_both (int r) (int w) s) j) = p_fd (pcb_at s j)"
    unfolding c by (rule benign_fd [OF b])
qed

lemma unblock_step:
  fixes s :: "'a ksys_scheme"
  assumes g: "process_get s pid = Some j" and st: "p_state (pcb_at s j) \<in> {PROCESS_READY, PROCESS_BLOCKED}"
  defines "t \<equiv> process_unblock pid s"
  shows "tidied s t" "sem_table t = sem_table s" "tty_part t = tty_part s" "same_ends s t" "p_state (pcb_at t j) = PROCESS_READY"
    "k < length (process_table s) \<Longrightarrow> p_fd (pcb_at t k) = p_fd (pcb_at s k)"
    "p_pid (pcb_at s k) \<noteq> pid \<Longrightarrow> pcb_at t k = pcb_at s k"
proof -
  have b: "benign s t" unfolding t_def by (rule benign_process_unblock)
  show "tidied s t" by (rule tidied_benign [OF b]) (simp add: t_def sched_sem.fr_unblock)
  show "sem_table t = sem_table s" "tty_part t = tty_part s" by (simp_all add: t_def sem_pipe.fr_unblock tty_sem.fr_unblock)
  show "same_ends s t" by (rule same_ends_pipe_table) (simp_all add: t_def fds_sem.fr_unblock pipes_psys.fr_unblock)
  show "p_state (pcb_at t j) = PROCESS_READY"
    using g st process_get_Some [OF g] by (auto simp: t_def process_unblock_def Let_def live_def pcb_at_upd split: option.split)
  show "k < length (process_table s) \<Longrightarrow> p_fd (pcb_at t k) = p_fd (pcb_at s k)" by (rule benign_fd [OF b])
  show "p_pid (pcb_at s k) \<noteq> pid \<Longrightarrow> pcb_at t k = pcb_at s k" unfolding t_def by (rule unblock_other)
qed

lemma tidied_waits:
  "tidied s t \<Longrightarrow> j < length (process_table s) \<Longrightarrow> p_state (pcb_at s j) \<in> {PROCESS_READY, PROCESS_BLOCKED} \<Longrightarrow>
   p_state (pcb_at t j) \<in> {PROCESS_READY, PROCESS_BLOCKED}"
  using tidied_pcb [of s t j] by (auto simp: pcb_sim_def state_le_def)

lemma ends_taken [simp]:
  "(rd_end i n)\<lparr>fd_refcount := m\<rparr> = rd_end i m" "(wr_end i n)\<lparr>fd_refcount := m\<rparr> = wr_end i m"
  by (simp_all add: rd_end_def wr_end_def)

text \<open>Two processes that are on the terminal are put on the two ends of the pipe and made READY.\<close>

lemma pipe_start_ok:
  fixes s :: "'a ksys_scheme"
  assumes e: "ends_at b r w (rd_end i 1) (wr_end i 1) s" "fd_inv b"
    and 1: "process_get s (of_int pid1) = Some j1" "p_fd (pcb_at s j1) = [0, 1]" "p_state (pcb_at s j1) \<in> {PROCESS_READY, PROCESS_BLOCKED}"
    and 2: "process_get s (of_int pid2) = Some j2" "p_fd (pcb_at s j2) = [0, 1]" "p_state (pcb_at s j2) \<in> {PROCESS_READY, PROCESS_BLOCKED}"
    and ne: "j1 \<noteq> j2"
  obtains t where "pipe_start pid1 pid2 (int r) (int w) bg s = Some t" "tidied s t" "sem_table t = sem_table s"
    "ends_at b r w (rd_end i 1) (wr_end i 1) t" "p_fd (pcb_at t j1) = [0, int w]" "p_fd (pcb_at t j2) = [int r, 1]"
    "p_state (pcb_at t j1) = PROCESS_READY" "p_state (pcb_at t j2) = PROCESS_READY"
    "\<And>k. k < length (process_table s) \<Longrightarrow> k \<noteq> j1 \<Longrightarrow> k \<noteq> j2 \<Longrightarrow> p_fd (pcb_at t k) = p_fd (pcb_at s k)"
    "tty_get_mode t = (if bg then tty_get_mode s else 1)"
proof -
  have rw: "r \<noteq> w" using e by (simp add: ends_at_def)
  have l: "j1 < length (process_table s)" "j2 < length (process_table s)"
    using process_get_Some [OF 1(1)] process_get_Some [OF 2(1)] by (simp_all add: live_def)
  have pid2: "p_pid (pcb_at s j2) = of_int pid2" "p_pid (pcb_at s j1) = of_int pid1"
    using process_get_Some [OF 1(1)] process_get_Some [OF 2(1)] by simp_all
  have kne: "(of_int pid1 :: u64) \<noteq> of_int pid2" using 1(1) 2(1) ne by auto
  obtain s1 where s1: "sys_pipe_setup (of_int pid1) (of_int (int w)) 1 s = Some (0, s1)" "tidied s s1" "sem_table s1 = sem_table s"
    "tty_part s1 = tty_part s" "p_fd (pcb_at s1 j1) = [0, int w]"
    "\<And>k. k < length (process_table s) \<Longrightarrow> k \<noteq> j1 \<Longrightarrow> p_fd (pcb_at s1 k) = p_fd (pcb_at s k)"
    "ends_at b r w (rd_end i 1) (wr_end i 2) s1"
    by (rule setup_step [OF 1(1,2) _ e, of 1 w]) (use rw e(1) in \<open>simp_all add: ends_at_def numeral_2_eq_2\<close>)
  have l1: "length (process_table s1) = length (process_table s)" by (rule tidied_length [OF s1(2)])
  have g2: "process_get s1 (of_int pid2) = Some j2" using tidied_get [OF s1(2)] 2(1) by simp
  have p2: "p_fd (pcb_at s1 j2) = [0, 1]" using s1(6) [OF l(2)] ne 2(2) by simp
  obtain s2 where s2: "sys_pipe_setup (of_int pid2) (of_int (int r)) 0 s1 = Some (0, s2)" "tidied s1 s2" "sem_table s2 = sem_table s1"
    "tty_part s2 = tty_part s1" "p_fd (pcb_at s2 j2) = [int r, 1]"
    "\<And>k. k < length (process_table s1) \<Longrightarrow> k \<noteq> j2 \<Longrightarrow> p_fd (pcb_at s2 k) = p_fd (pcb_at s1 k)"
    "ends_at b r w (rd_end i 2) (wr_end i 2) s2"
    by (rule setup_step [OF g2 p2 _ s1(7) e(2), of 0 r]) (use rw s1(7) in \<open>simp_all add: ends_at_def numeral_2_eq_2\<close>)
  define s3 where "s3 = close_both (int r) (int w) s2"
  note c = close_both_ok [OF s2(7), folded s3_def]
  have e3: "ends_at b r w (rd_end i 1) (wr_end i 1) s3" using c(1) by (simp add: numeral_2_eq_2)
  define s4 where "s4 = (if bg then s3 else snd (sys_tty_mode 1 s3))"
  have q: "quiet s3 s4" by (simp add: s4_def quiet_tty)
  have t4: "tidied s s4"
    using tidied_trans [OF tidied_trans [OF tidied_trans [OF s1(2) s2(2)] c(2)] quietD(1) [OF q]] by simp
  have e4: "ends_at b r w (rd_end i 1) (wr_end i 1) s4" by (rule ends_at_same [OF quietD(4) [OF q] e3])
  have l4: "length (process_table s4) = length (process_table s)" by (rule tidied_length [OF t4])
  have f4: "p_fd (pcb_at s4 k) = (if k = j1 then [0, int w] else if k = j2 then [int r, 1] else p_fd (pcb_at s k))"
    if "k < length (process_table s)" for k
    using that c(5) [of k] s2(5,6) s1(5,6) ne l1 tidied_length [OF s2(2)] by (simp add: quietD(2) [OF q])
  have st4: "p_state (pcb_at s4 j1) \<in> {PROCESS_READY, PROCESS_BLOCKED}" "p_state (pcb_at s4 j2) \<in> {PROCESS_READY, PROCESS_BLOCKED}"
    using tidied_waits [OF t4 l(1) 1(3)] tidied_waits [OF t4 l(2) 2(3)] by simp_all
  have g4: "process_get s4 (of_int pid1) = Some j1" "process_get s4 (of_int pid2) = Some j2"
    using tidied_get [OF t4] 1(1) 2(1) by simp_all
  define s5 where "s5 = process_unblock (of_int pid1) s4"
  note u1 = unblock_step [OF g4(1) st4(1), folded s5_def]
  have t5: "tidied s s5" by (rule tidied_trans [OF t4 u1(1)])
  have g5: "process_get s5 (of_int pid2) = Some j2" using tidied_get [OF t5] 2(1) by simp
  have st5: "p_state (pcb_at s5 j2) \<in> {PROCESS_READY, PROCESS_BLOCKED}" by (rule tidied_waits [OF t5 l(2) 2(3)])
  define t where "t = process_unblock (of_int pid2) s5"
  note u2 = unblock_step [OF g5 st5, folded t_def]
  have "pipe_start pid1 pid2 (int r) (int w) bg s = Some t"
    using s1(1) s2(1) by (simp add: pipe_start_def s3_def s4_def s5_def t_def sys_unblock_def Let_def)
  moreover have "tidied s t" by (rule tidied_trans [OF t5 u2(1)])
  moreover have "sem_table t = sem_table s"
    using u2(2) u1(2) q c(3) s2(3) s1(3) by (simp add: quiet_def)
  moreover have "ends_at b r w (rd_end i 1) (wr_end i 1) t"
    by (rule ends_at_same [OF u2(4) ends_at_same [OF u1(4) e4]])
  moreover have fd: "p_fd (pcb_at t k) = p_fd (pcb_at s4 k)" if "k < length (process_table s)" for k
    using u1(6) [of k] u2(6) [of k] that l4 tidied_length [OF t5] by simp
  moreover have "p_state (pcb_at t j1) = PROCESS_READY"
  proof -
    have "p_pid (pcb_at s5 j1) = of_int pid1" using tidied_pcb [OF t5 l(1)] pid2 by (simp add: pcb_sim_def)
    then show ?thesis using u2(7) [of j1] u1(5) kne by simp
  qed
  moreover have "tty_get_mode t = (if bg then tty_get_mode s else 1)"
  proof -
    have "tty_part t = tty_part s4" using u1(3) u2(3) by simp
    moreover have "tty_part s3 = tty_part s" using c(4) s2(4) s1(4) by simp
    ultimately show ?thesis
      by (simp add: s4_def sys_tty_mode_def tty_set_mode_def tty_get_mode_def tty_part_def to_int32_def)
  qed
  ultimately show thesis using that [of t] u2(5) f4 l ne by simp
qed

end
