(* ===== verification/Pipeline_Run.thy ===== *)
theory Pipeline_Run
  imports Pipeline_Start
begin

text \<open>
  The cases of \<open>handle_pipe\<close>: creating one process of the pipeline, killing it again, waiting.
\<close>

subsection \<open>PIDs as integers\<close>

lemma int_of_pid_small:
  assumes "unat k < 2 ^ 31"
  shows "int_of_pid k = int (unat k)" "of_int (int_of_pid k) = k"
proof -
  have "sint (of_nat (unat k) :: 32 word) = int (unat k)"
    using assms by (simp add: signed_of_nat signed_take_bit_int_eq_self del: of_nat_unat)
  then show "int_of_pid k = int (unat k)" by (simp add: int_of_pid_def)
  then show "of_int (int_of_pid k) = k" by simp
qed

lemma unat_next: "unat k + 1 < 2 ^ 31 \<Longrightarrow> unat (k + 1 :: u64) = unat k + 1"
  by (simp add: unat_word_ariths(1))

subsection \<open>Creating\<close>

lemma ends_at_std:
  assumes e: "ends_at b r w er ew s" "fd_inv b" and t: "fd_inv t" "fd_table t = std_taken (fd_table s)" "pipe_table t = pipe_table s"
  shows "ends_at b r w er ew t"
proof -
  have s: "fd_inv s" "length (fd_table s) = MAX_FDS" using e by (simp_all add: ends_at_def fd_inv_def)
  have far: "fd_at t d = fd_at s d" if "d \<noteq> 0" "d \<noteq> 1" for d
    using that by (simp add: fd_at_def t(2) std_taken_def)
  have "same_end (fd_at s d) (fd_at t d)" if "d = 0 \<or> d = 1" for d
    using that s(1) t(1) by (auto simp: same_end_def is_end_def fd_inv_def)
  then have same: "same_end (fd_at s d) (fd_at t d)" for d using far by (cases "d = 0 \<or> d = 1") auto
  have "fd_at t r = er" "fd_at t w = ew"
    using far [of r] far [of w] ends_at_low [OF e] e(1) by (auto simp: ends_at_def)
  then show ?thesis using e(1) t(1) same same_end_trans unfolding ends_at_def pipe_at_cong [OF t(3)] by blast
qed

lemma drop_created:
  assumes "stack_block sb L L1" "args_block argc argv av L1 L2" "set (own q) = insert sb (set_option av)"
  shows "drop_blocks (set (own q)) L2 = L" "L \<subseteq> L2"
  using assms by (cases av; force simp: stack_block_def args_block_def drop_blocks_def)+

lemma create_step:
  fixes s :: "'a ksys_scheme"
  assumes inv: "sched_inv s" "mem_inv L s" "sem_inv s" and e: "ends_at b r w er ew s" "fd_inv b"
    and cur: "current_process s = Some c" "live s c" and nw: "unat (next_pid s) + 1 < 2 ^ 31"
  obtains (rejected) t where "my_create_process_fg fn nm av 3 s = Some (-1, t)" "sched_inv t" "refused L s t" "sem_inv t"
      "ends_at b r w er ew t"
  | (fresh) t L' j where "my_create_process_fg fn nm av 3 s = Some (int_of_pid (next_pid s + 1), t)" "sched_inv t" "sem_inv t"
      "created L' j (pcb_at t j) s t" "drop_blocks (set (own (pcb_at t j))) L' = L" "L \<subseteq> L'" "ends_at b r w er ew t"
      "p_fd (pcb_at t j) = [0, 1]" "p_state (pcb_at t j) = PROCESS_BLOCKED" "p_parent_pid (pcb_at t j) = p_pid (pcb_at s c)"
proof (cases "first_idx (\<lambda>r. sem_str_eq (Some r) (Some nm)) registry")
  case None
  have "my_create_process_fg fn nm av 3 s = Some (-1, s)"
    by (simp only: my_create_process_fg_def None option.case)
  moreover have "refused L s s" by (rule refused_same [OF inv(2)])
  ultimately show thesis using rejected inv e by blast
next
  case (Some i)
  let ?n = "to_int32 (of_nat (length av))" and ?a = "Some (map Some av)"
  have fi: "fd_inv s" using e by (simp add: ends_at_def)
  have nz: "next_pid s + 1 \<noteq> 0" using unat_next [OF nw] by auto
  have my: "my_create_process_fg fn nm av 3 s = process_create (Some nm) (fn i) ?n ?a 3 s"
    by (simp only: my_create_process_fg_def Some option.case sys_create_process_def) simp
  have cl: "\<forall>c. current_process s = Some c \<longrightarrow> live s c" using cur by simp
  from process_create_ok [OF inv(1,2) fd_inv_std [OF fi] cl nz, of "Some nm" "fn i" ?n ?a 3] obtain res t where
    t: "process_create (Some nm) (fn i) ?n ?a 3 s = Some (res, t)" "sched_inv t" and
    c: "res = -1 \<and> refused L s t \<or> (\<exists>slot sb av L1 L2 m. res = int_of_pid (next_pid s + 1) \<and>
      stack_block sb L L1 \<and> args_block ?n ?a av L1 L2 \<and>
      created L2 slot (placed_pcb (Some nm) (fn i) ?n av 3 s sb (pcb_at s slot)) s t)" by blast
  have ft: "fd_inv t" by (rule fds.I_process_create [OF t(1) fi])
  have st: "sem_inv t" if o: "outside s t" and l: "\<And>k. live s k \<Longrightarrow> live t k \<and> pcb_at t k = pcb_at s k"
    by (rule sem_inv_more [OF inv(3)]) (use o l in \<open>force simp: outside_def live_pids_def\<close>)+
  from c show thesis
  proof (elim disjE exE conjE)
    assume r: "res = -1" "refused L s t"
    moreover have "same_ends s t" using r(2) by (simp add: refused_def outside_def same_ends_def)
    ultimately show thesis
      using rejected [of t] t st my ends_at_same [OF _ e(1)] by (auto simp: refused_def)
  next
    fix slot sb av' L1 L2 m
    let ?q = "placed_pcb (Some nm) (fn i) ?n av' 3 s sb (pcb_at s slot)"
    assume r: "res = int_of_pid (next_pid s + 1)" and b: "stack_block sb L L1" "args_block ?n ?a av' L1 L2"
      and cr: "created L2 slot ?q s t"
    have q: "pcb_at t slot = ?q" using cr by (simp add: created_def)
    have "set (own ?q) = insert sb (set_option av')"
      by (cases av') (simp_all add: own_def placed_pcb_def new_pcb_def)
    note d = drop_created [OF b this]
    have k: "live t k \<and> pcb_at t k = pcb_at s k" if "live s k" for k
      using cr that by (metis created_def)
    have o: "outside s t" using cr by (simp add: created_def)
    have "ends_at b r w er ew t" by (rule ends_at_std [OF e ft]) (use cr in \<open>simp_all add: created_def outside_def\<close>)
    moreover have "p_fd ?q = [0, 1]" "p_state ?q = PROCESS_BLOCKED" "p_parent_pid ?q = p_pid (pcb_at s c)"
      using cur by (simp_all add: placed_pcb_def new_pcb_def parent_of_new_def)
    ultimately show thesis
      using fresh [of t L2 slot] t(2) st [OF o k] cr d my t(1) r unfolding q by simp
  qed
qed

subsection \<open>Killing\<close>

lemma fd_upd_pcb: "(\<And>q. p_fd (f q) = p_fd q) \<Longrightarrow> p_fd (pcb_at (upd_pcb i f s) k) = p_fd (pcb_at s k)"
  by (cases "k = i"; cases "i < length (process_table s)")
     (simp_all add: pcb_at_def upd_pcb_def modify_def list_update_beyond)

lemma ends_at_release:
  assumes e: "ends_at b r w er ew s" "fd_inv b" and p: "p_fd (pcb_at s c) = [0, 1]" "c < length (process_table s)"
  shows "ends_at b r w er ew (process_release_fds c s)"
proof -
  let ?s1 = "fd_decref 0 s" let ?s2 = "fd_decref 1 ?s1"
  have e1: "ends_at b r w er ew ?s1" using ends_at_terminal [OF e, of 0] by simp
  have e2: "ends_at b r w er ew ?s2" using ends_at_terminal [OF e1 e(2), of 1] by simp
  have "p_fd (pcb_at ?s1 c) = [0, 1]" using benign_fd [OF benign_decref p(2)] p(1) by simp
  then have "process_release_fds c s = upd_pcb c (\<lambda>p. p\<lparr>p_fd := (p_fd p)[0 := -1, 1 := -1]\<rparr>) ?s2"
    using p(1) by (simp add: process_release_fds_def)
  moreover have "ends_at b r w er ew (upd_pcb c (\<lambda>p. p\<lparr>p_fd := (p_fd p)[0 := -1, 1 := -1]\<rparr>) ?s2)"
    by (rule ends_at_same [OF _ e2]) simp
  ultimately show ?thesis by simp
qed

lemma kill_ends:
  fixes s :: "'a ksys_scheme"
  assumes k: "process_kill pid s = Some t" and g: "process_get s pid = Some j" and p: "p_fd (pcb_at s j) = [0, 1]"
    and n: "current_process s \<noteq> Some j" "p_state (pcb_at s j) \<noteq> PROCESS_ZOMBIE"
    and i: "sched_inv s" "mem_inv L s" "sem_inv s" and e: "ends_at b r w er ew s" "fd_inv b"
  shows "ends_at b r w er ew t"
proof -
  have lj: "live s j" "p_pid (pcb_at s j) = pid" using process_get_Some [OF g] by simp_all
  have fi: "fd_inv s" using e by (simp add: ends_at_def)
  define s1 where "s1 = upd_pcb j (\<lambda>p. p\<lparr>p_retval := -1\<rparr>) s"
  note r1 = retval_ok [OF i(1,2,3) fi lj(1), where r = "-1", folded s1_def, unfolded lj(2)]
  obtain s2 where s2: "sem_cleanup_for_process pid s1 = Some s2" "benign s1 s2" using sem_cleanup_ok [OF r1(3) r1(8)] by blast
  define s4 where "s4 = kbd_clear_waiting (Some j) (pipe_cleanup_for_process pid s2)"
  define s5 where "s5 = notify_parent (p_parent_pid (pcb_at s4 j)) pid (-1) s4"
  have jl: "j < length (process_table s1)" using lj by (simp add: live_def s1_def)
  have pt: "process_table s4 = process_table s2" "current_process s4 = current_process s2"
    by (simp_all add: s4_def kbd_clear_waiting_def pipe_cleanup_for_process_def)
  have "p_fd (pcb_at s2 j) = [0, 1]" using benign_fd [OF s2(2) jl] p by (simp add: r1(6))
  then have p4: "p_fd (pcb_at s4 j) = [0, 1]" by (simp add: pcb_at_def pt)
  have kw: "pcb_at (u\<lparr>kwords := m\<rparr>) q = pcb_at u q" for u :: "'a ksys_scheme" and m q by (simp add: pcb_at_def)
  have p5: "p_fd (pcb_at s5 j) = [0, 1]"
    unfolding s5_def notify_parent_def using p4
    by (auto simp: fd_upd_pcb kw split: option.split)
  have c5: "current_process s5 \<noteq> Some j"
    using n(1) benign_current [OF s2(2)] by (simp add: s5_def notify_frame pt s1_def)
  have l5: "j < length (process_table s5)"
    using jl benign_length [OF s2(2)] by (simp add: s5_def notify_parent_def pt split: option.split)
  have "same_ends s s1" by (simp add: s1_def)
  also have "same_ends s1 s2" using s2(1) by (rule same_ends_sem_cleanup)
  also have "same_ends s2 s4" by (simp add: s4_def same_ends_kbd_clear same_ends_pipe_cleanup)
  also have "same_ends s4 s5" by (simp add: s5_def same_ends_notify)
  also have "same_ends s5 (scheduler_remove j s5)" by (simp add: same_ends_sched_remove)
  finally have e6: "ends_at b r w er ew (scheduler_remove j s5)" using e(1) by (rule ends_at_same)
  have e7: "ends_at b r w er ew (process_release_fds j (scheduler_remove j s5))"
    by (rule ends_at_release [OF e6 e(2)]) (simp_all add: p5 l5)
  have ns: "\<not> (p_state (pcb_at s j) = PROCESS_FREE \<or> p_state (pcb_at s j) = PROCESS_ZOMBIE)" using lj n(2) by (simp add: live_def)
  obtain s8 where s8: "free_stack_argv j (process_release_fds j (scheduler_remove j s5)) = Some s8"
    "t = upd_pcb j (\<lambda>p. p\<lparr>p_state := PROCESS_FREE, p_pid := 0\<rparr>) s8"
    using k unfolding process_kill_def g option.case if_not_P [OF ns] Let_def s1_def [symmetric] s2(1) Option.bind.bind_lunit
      s4_def [symmetric] s5_def [symmetric] if_not_P [OF c5] by (auto simp: Option.bind_eq_Some_conv)
  have "same_ends (process_release_fds j (scheduler_remove j s5)) t"
    using same_ends_free_stack [OF s8(1)] by (simp add: s8(2))
  then show ?thesis using e7 by (rule ends_at_same)
qed

subsection \<open>A pipeline that fails\<close>

text \<open>The same processes, blocks, ends of pipes and pipes in use, except that without a free descriptor the pipe
  \<open>sys_pipe\<close> took stays in use without ends.\<close>

definition no_trace :: "(nat \<times> nat) set \<Rightarrow> 'a ksys_scheme \<Rightarrow> 'a ksys_scheme \<Rightarrow> bool" where
  "no_trace L s t \<longleftrightarrow> sched_inv t \<and> mem_inv L t \<and> (untouched s t \<or> pipe_lost s t) \<and> (\<forall>k. live t k = live s k)"

lemma no_trace_quiet: "no_trace L s t \<Longrightarrow> quiet t u \<Longrightarrow> no_trace L s u"
proof -
  assume n: "no_trace L s t" and q: "quiet t u"
  have p: "pipe_at u j = pipe_at t j" for j using q by (intro pipe_at_cong) (simp add: quiet_def)
  have f: "fd_inv t \<Longrightarrow> fd_inv u" by (rule fd_inv_same [OF quietD(4) [OF q]])
  have "untouched s t \<Longrightarrow> untouched s u" using f by (simp add: untouched_def p quietD(7) [OF q])
  moreover have "pipe_lost s t \<Longrightarrow> pipe_lost s u" using f by (simp add: pipe_lost_def p quietD(7) [OF q])
  ultimately show ?thesis using n quiet_inv [OF q] by (auto simp: no_trace_def quietD(5) [OF q])
qed

lemma no_trace_close:
  fixes u :: "'a ksys_scheme"
  assumes "ends_at s r w (rd_end i 1) (wr_end i 1) u" "sched_inv u" "mem_inv L u" "\<forall>k. live u k = live s k"
  shows "no_trace L s (close_both (int r) (int w) u)"
proof -
  note c = close_both_ok [OF assms(1)]
  have "untouched s (close_both (int r) (int w) u)" by (rule ends_at_closed [OF c(1)]) simp_all
  then show ?thesis
    using tidied_sched_inv [OF assms(2) c(2)] tidied_mem_inv [OF assms(3) c(2)] assms(4) tidied_live [OF c(2)]
    by (simp add: no_trace_def)
qed

lemma printsI: "fd_inv t \<Longrightarrow> current_process t = Some c \<Longrightarrow> p_fd (pcb_at t c) ! 1 = 1 \<Longrightarrow> prints t"
  by (simp add: prints_def fd_inv_std)

lemma ends_at_quiet: "quiet s t \<Longrightarrow> ends_at b r w er ew s \<Longrightarrow> ends_at b r w er ew t"
  using ends_at_same quietD(4) by blast

text \<open>The second process cannot be created: the first one is killed.\<close>

lemma kill_first:
  fixes s2 :: "'a ksys_scheme"
  assumes e: "ends_at s r w (rd_end i 1) (wr_end i 1) s2" "fd_inv s" and iv: "sched_inv s2" "mem_inv L1 s2" "sem_inv s2"
    and g: "process_get s2 pid = Some j" "drop_blocks (set (own (pcb_at s2 j))) L1 = L"
    and p: "p_fd (pcb_at s2 j) = [0, 1]" "p_state (pcb_at s2 j) = PROCESS_BLOCKED" "p_parent_pid (pcb_at s2 j) \<noteq> pid"
    and n: "current_process s2 \<noteq> Some j" "idle_pcb s2 \<noteq> Some j" and lv: "\<forall>k. live s2 k \<longleftrightarrow> k = j \<or> live s k" "\<not> live s j"
  obtains t where "sys_kill pid s2 = Some t" "no_trace L s (close_both (int r) (int w) t)"
proof -
  have f: "fd_inv s2" using e by (simp add: ends_at_def)
  have nz: "p_state (pcb_at s2 j) \<noteq> PROCESS_ZOMBIE" using p(2) by simp
  obtain t where t: "process_kill pid s2 = Some t" "sched_inv t" "mem_inv L t" "\<And>k. live t k \<longleftrightarrow> live s2 k \<and> k \<noteq> j"
    using process_kill_ok [OF iv(1-3) f g(1) n(1) nz n(2) p(3)] unfolding g(2) by metis
  have "ends_at s r w (rd_end i 1) (wr_end i 1) t"
    by (rule kill_ends [OF t(1) g(1) p(1) n(1) nz iv e])
  from no_trace_close [OF this t(2,3)] show thesis
    using that t(1,4) lv by (auto simp: sys_kill_def)
qed

subsection \<open>A pipeline that runs\<close>

text \<open>Two new processes, READY, joined by a pipe that was free: one writes into it, the other reads from it,
  and theirs are its only ends. Everything else that refers to a pipe is as before.\<close>

definition pipeline_up :: "'a ksys_scheme \<Rightarrow> 'a ksys_scheme \<Rightarrow> bool" where
  "pipeline_up s t \<longleftrightarrow> (\<exists>j1 j2 r w i. process_get t (next_pid s + 1) = Some j1 \<and> process_get t (next_pid s + 2) = Some j2 \<and>
     p_state (pcb_at t j1) = PROCESS_READY \<and> p_fd (pcb_at t j1) = [0, int w] \<and>
     p_state (pcb_at t j2) = PROCESS_READY \<and> p_fd (pcb_at t j2) = [int r, 1] \<and>
     fd_at t r = rd_end i 1 \<and> fd_at t w = wr_end i 1 \<and> i < MAX_PIPES \<and> \<not> pp_in_use (pipe_at s i) \<and>
     pp_open_read (pipe_at t i) = 1 \<and> pp_open_write (pipe_at t i) = 1 \<and>
     (\<forall>d<MAX_FDS. d \<noteq> r \<longrightarrow> d \<noteq> w \<longrightarrow> same_end (fd_at s d) (fd_at t d)) \<and>
     (\<forall>k. live t k \<longleftrightarrow> k = j1 \<or> k = j2 \<or> live s k) \<and> \<not> live s j1 \<and> \<not> live s j2)"

text \<open>The caller blocked on the first process, the terminal in cooked mode.\<close>

definition awaits_first :: "nat \<Rightarrow> 'a ksys_scheme \<Rightarrow> 'a ksys_scheme \<Rightarrow> bool" where
  "awaits_first c s t \<longleftrightarrow> tty_get_mode t = 1 \<and> force_switch t \<and> p_state (pcb_at t c) = PROCESS_BLOCKED \<and>
     p_waiting_for (pcb_at t c) = next_pid s + 1"

lemma pipeline_upI:
  fixes s t :: "'a ksys_scheme"
  assumes "ends_at s r w (rd_end i 1) (wr_end i 1) t" "fd_inv s" "\<not> pp_in_use (pipe_at s i)"
    and "process_get t (next_pid s + 1) = Some j1" "process_get t (next_pid s + 2) = Some j2"
    and "p_state (pcb_at t j1) = PROCESS_READY" "p_fd (pcb_at t j1) = [0, int w]"
    and "p_state (pcb_at t j2) = PROCESS_READY" "p_fd (pcb_at t j2) = [int r, 1]"
    and "\<forall>k. live t k \<longleftrightarrow> k = j1 \<or> k = j2 \<or> live s k" "\<not> live s j1" "\<not> live s j2"
  shows "pipeline_up s t"
  using assms ends_at_counts [OF assms(1-3)] unfolding pipeline_up_def ends_at_def
  by (intro exI [of _ j1] exI [of _ j2] exI [of _ r] exI [of _ w] exI [of _ i]) simp

lemma wait_step:
  fixes s :: "'a ksys_scheme"
  assumes g: "process_get s pid = Some j" "p_state (pcb_at s j) = PROCESS_READY" and c: "current_process s = Some c" "live s c" "c \<noteq> j"
    and i: "sched_inv s" "mem_inv L s"
  obtains t where "sys_waitpid pid s = Some (0, t)" "sched_inv t" "mem_inv L t" "same_ends s t" "force_switch t"
    "\<And>k. process_get t k = process_get s k" "\<And>k. live t k = live s k" "\<And>k. k \<noteq> c \<Longrightarrow> pcb_at t k = pcb_at s k"
    "pcb_at t c = (pcb_at s c)\<lparr>p_state := PROCESS_BLOCKED, p_waiting_for := pid\<rparr>" "tty_get_mode t = tty_get_mode s"
proof -
  let ?f = "\<lambda>p. p\<lparr>p_state := PROCESS_BLOCKED, p_waiting_for := pid\<rparr>"
  let ?u = "upd_pcb c ?f s"
  have cl: "c < MAX_PROCESSES" "c < length (process_table s)"
    using live_less [OF c(2)] sched_inv_length [OF i(1)] by simp_all
  have nf: "p_state (pcb_at s c) \<noteq> PROCESS_FREE" using c(2) by (simp add: live_def)
  have w: "sys_waitpid pid s = Some (0, ?u\<lparr>force_switch := True\<rparr>)"
    using g c(1) by (simp add: sys_waitpid_def process_waitpid_def)
  have su: "sched_inv ?u" by (rule sched_inv_upd_pcb [OF i(1) cl(1)]) (use nf in simp_all)
  have lv: "live ?u k = live s k" for k using cl(2) nf c(2) by (simp add: live_upd_pcb)
  have pid: "p_pid (pcb_at ?u k) = p_pid (pcb_at s k)" for k using cl(2) by (simp add: pcb_at_upd)
  have get: "process_get ?u k = process_get s k" for k
  proof -
    have "process_get ?u k = Some a \<longleftrightarrow> process_get s k = Some a" for a
      using table_inv_lookup [OF sched_inv_table [OF su]] table_inv_lookup [OF sched_inv_table [OF i(1)]]
      by (simp add: lv pid)
    then show ?thesis by (metis not_Some_eq)
  qed
  have mode: "tty_get_mode (?u\<lparr>force_switch := True\<rparr>) = tty_get_mode s" by (simp add: tty_get_mode_def upd_pcb_def)
  have fs: "pcb_at (?u\<lparr>force_switch := True\<rparr>) = pcb_at ?u" "live (?u\<lparr>force_switch := True\<rparr>) = live ?u"
    "process_get (?u\<lparr>force_switch := True\<rparr>) = process_get ?u"
    by (simp_all add: fun_eq_iff live_def process_get_def)
  have "mem_inv L ?u" by (rule mem_inv_upd_pcb [OF i(2) cl(2)]) (use nf in \<open>simp_all add: own_def\<close>)
  then show thesis
    by (intro that [OF w]) (use su lv get mode cl(2) in \<open>simp_all add: fs pcb_at_upd same_ends_force\<close>)
qed

text \<open>Both processes are there: the last steps of \<open>handle_pipe\<close>.\<close>

lemma pipeline_go:
  fixes s s3 :: "'a ksys_scheme"
  assumes e: "ends_at s r w (rd_end i 1) (wr_end i 1) s3" "fd_inv s" "\<not> pp_in_use (pipe_at s i)"
    and iv: "sched_inv s3" "mem_inv L s3" "sem_inv s3"
    and 1: "process_get s3 (next_pid s + 1) = Some j1" "p_fd (pcb_at s3 j1) = [0, 1]" "p_state (pcb_at s3 j1) = PROCESS_BLOCKED"
    and 2: "process_get s3 (next_pid s + 2) = Some j2" "p_fd (pcb_at s3 j2) = [0, 1]" "p_state (pcb_at s3 j2) = PROCESS_BLOCKED"
    and lv: "\<forall>k. live s3 k \<longleftrightarrow> k = j1 \<or> k = j2 \<or> live s k" "\<not> live s j1" "\<not> live s j2" "j1 \<noteq> j2"
    and c: "current_process s3 = Some c" "live s c" "p_fd (pcb_at s3 c) ! 1 = 1"
    and pid: "of_int pid1 = next_pid s + 1" "of_int pid2 = next_pid s + 2"
  obtains t where "do {
        s4 \<leftarrow> pipe_start pid1 pid2 (int r) (int w) bg s3;
        (if bg then Some (Background [pid1, pid2], print_pids [pid1, pid2] s4)
         else map_option (\<lambda>(_, s5). (Waiting [pid1, pid2], s5)) (sys_waitpid (of_int pid1) s4))
      } = Some ((if bg then Background else Waiting) [pid1, pid2], t)"
    "sched_inv t" "fd_inv t" "mem_inv L t" "pipeline_up s t" "bg \<or> awaits_first c s t"
proof -
  obtain s4 where s4: "pipe_start pid1 pid2 (int r) (int w) bg s3 = Some s4" "tidied s3 s4" "sem_table s4 = sem_table s3"
    "ends_at s r w (rd_end i 1) (wr_end i 1) s4" "p_fd (pcb_at s4 j1) = [0, int w]" "p_fd (pcb_at s4 j2) = [int r, 1]"
    "p_state (pcb_at s4 j1) = PROCESS_READY" "p_state (pcb_at s4 j2) = PROCESS_READY"
    "\<And>k. k < length (process_table s3) \<Longrightarrow> k \<noteq> j1 \<Longrightarrow> k \<noteq> j2 \<Longrightarrow> p_fd (pcb_at s4 k) = p_fd (pcb_at s3 k)"
    "tty_get_mode s4 = (if bg then tty_get_mode s3 else 1)"
    by (rule pipe_start_ok [OF e(1,2), of pid1 j1 pid2 j2 bg]) (use 1 2 lv(4) pid in simp_all)
  have i4: "sched_inv s4" "mem_inv L s4" by (rule tidied_sched_inv [OF iv(1) s4(2)], rule tidied_mem_inv [OF iv(2) s4(2)])
  have g4: "process_get s4 (next_pid s + 1) = Some j1" "process_get s4 (next_pid s + 2) = Some j2"
    using tidied_get [OF s4(2)] 1(1) 2(1) by simp_all
  have l4: "\<forall>k. live s4 k \<longleftrightarrow> k = j1 \<or> k = j2 \<or> live s k" using lv(1) tidied_live [OF s4(2)] by simp
  have cur: "current_process s4 = Some c" "live s4 c" "c \<noteq> j1" "c \<noteq> j2"
    using s4(2) c lv l4 by (auto simp: tidied_def)
  have up4: "pipeline_up s s4" by (rule pipeline_upI [OF s4(4) e(2,3) g4 s4(7,5,8,6) l4 lv(2,3)])
  have f4: "fd_inv s4" using s4(4) by (simp add: ends_at_def)
  show thesis
  proof (cases bg)
    case True
    have "c < length (process_table s3)" using lv(1) c(2) live_less [of s3 c] by blast
    then have "prints s4" using printsI [OF f4 cur(1)] s4(9) cur(3,4) c(3) by simp
    then have q: "quiet s4 (print_pids [pid1, pid2] s4)" by (rule quiet_pids)
    have "pipeline_up s (print_pids [pid1, pid2] s4)"
      by (rule pipeline_upI [OF ends_at_quiet [OF q s4(4)] e(2,3), where ?j1.0 = j1 and ?j2.0 = j2]) (use g4 s4(5-8) l4 lv(2,3) in \<open>simp_all add: quietD [OF q]\<close>)
    then show thesis
      using that [of "print_pids [pid1, pid2] s4"] quiet_inv [OF q] i4 f4 s4(1) True by simp
  next
    case False
    obtain t where t: "sys_waitpid (next_pid s + 1) s4 = Some (0, t)" "sched_inv t" "mem_inv L t" "same_ends s4 t" "force_switch t"
      "\<And>k. process_get t k = process_get s4 k" "\<And>k. live t k = live s4 k" "\<And>k. k \<noteq> c \<Longrightarrow> pcb_at t k = pcb_at s4 k"
      "pcb_at t c = (pcb_at s4 c)\<lparr>p_state := PROCESS_BLOCKED, p_waiting_for := next_pid s + 1\<rparr>" "tty_get_mode t = tty_get_mode s4"
      using wait_step [OF g4(1) s4(7) cur(1-3) i4] by metis
    have "pipeline_up s t"
      by (rule pipeline_upI [OF ends_at_same [OF t(4) s4(4)] e(2,3), where ?j1.0 = j1 and ?j2.0 = j2]) (use g4 s4(5-8) l4 lv(2,3) cur t(6,7,8) in simp_all)
    moreover have "awaits_first c s t" using t(5,9,10) s4(10) False by (simp add: awaits_first_def)
    moreover have "fd_inv t" by (rule fd_inv_same [OF t(4) f4])
    ultimately show thesis using that [of t] t(1-3) s4(1) False pid(1) by simp
  qed
qed

end
