(* ===== verification/Shell_Props.thy ===== *)
theory Shell_Props
  imports Shell_Parse Pipeline_Run Process_Props
begin

text \<open>
  The properties of the shell: what a line means, and what a pipeline starts.
\<close>

text \<open>C40: What the shell makes of a line. The code works by cutting: it overwrites the mark \<open>&\<close>, the bar, the
  spaces behind names and arguments with \<open>'\0'\<close> and keeps pointers into the buffer. Read back
  through the final buffer, name and arguments of both commands are what a parser on whole
  strings gives: without the \<open>&\<close>, split at the first bar, the name up to the first
  space, then the words between spaces, at most fifteen of them. In particular, no cut damages a
  string found before. (The theorem is about the strings found; a write outside the buffer would not show in it.)\<close>

theorem shell_parse: "parse_line buff = spec_line (cstr buff)"
  by (rule parse_line_ok)

subsection \<open>Pipelines\<close>

lemma handle_pipe_case:
  fixes s :: "'a ksys_scheme"
  assumes iv: "sched_inv s" "mem_inv L s" "sem_inv s" "fd_inv s"
    and c: "current_process s = Some c" "live s c" "p_fd (pcb_at s c) ! 1 = 1"
    and nw: "unat (next_pid s) + 2 < 2 ^ 31"
    and p: "sys_pipe True s = (0, Some (int r, int w), s1)" "ends_at s r w (rd_end i 1) (wr_end i 1) s1" "\<not> pp_in_use (pipe_at s i)"
    and ch: "is_child_command (fst l)" "is_child_command (fst rc)"
  shows "\<exists>res t. handle_pipe fn l rc bg s = Some (res, t) \<and> (res = Failed \<and> no_trace L s t \<or>
    res = (if bg then Background else Waiting) [int_of_pid (next_pid s + 1), int_of_pid (next_pid s + 2)] \<and>
    sched_inv t \<and> fd_inv t \<and> (\<exists>L'. mem_inv L' t \<and> L \<subseteq> L') \<and> pipeline_up s t \<and> (bg \<or> awaits_first c s t))"
proof -
  have t1: "tidied s s1" using tidied_sys_pipe [of s True] p(1) by simp
  have sem1: "sem_table s1 = sem_table s" using sem_fd.fr_sys_pipe [of True s] p(1) by simp
  have b1: "benign s s1" using benign_sys_pipe [of s True] p(1) by simp
  note i1 = tidied_sched_inv [OF iv(1) t1] tidied_mem_inv [OF iv(2) t1] tidied_sem_inv [OF t1 sem1 iv(3)]
  have cl: "c < length (process_table s)" using c(2) by (simp add: live_def)
  have c1: "current_process s1 = Some c" "live s1 c" "p_fd (pcb_at s1 c) ! 1 = 1" "p_pid (pcb_at s1 c) = p_pid (pcb_at s c)"
    "next_pid s1 = next_pid s" "idle_pcb s1 = idle_pcb s"
    using c benign_fd [OF b1 cl] tidied_live [OF t1] t1 tidied_pcb [OF t1 cl] by (simp_all add: tidied_def sched_part_def pcb_sim_def)
  have pids: "unat (next_pid s + 1) = unat (next_pid s) + 1" using unat_next [of "next_pid s"] nw by simp
  have k1: "of_int (int_of_pid (next_pid s + 1)) = next_pid s + 1" "0 \<le> int_of_pid (next_pid s + 1)"
    using int_of_pid_small [of "next_pid s + 1"] pids nw by simp_all
  have eq2: "next_pid s + 1 + 1 = next_pid s + 2" by (simp add: add.assoc)
  have "unat (next_pid s + 2) = unat (next_pid s) + 2" using unat_next [of "next_pid s + 1"] pids nw by (simp add: eq2)
  then have k2: "of_int (int_of_pid (next_pid s + 2)) = next_pid s + 2" "0 \<le> int_of_pid (next_pid s + 2)"
    using int_of_pid_small [of "next_pid s + 2"] nw by simp_all
  have nw1: "unat (next_pid s1) + 1 < 2 ^ 31" using nw c1(5) by simp
  note start = handle_pipe_def p(1) ch
  show ?thesis
  proof (cases rule: create_step [OF i1 p(2) iv(4) c1(1,2) nw1, of fn "fst l" "snd l"])
    case f: (1 s2)
    have o: "current_process s2 = Some c" "pcb_at s2 c = pcb_at s1 c" "\<forall>k. live s2 k = live s k" "mem_inv L s2"
      using f(3) c1 tidied_live [OF t1] by (simp_all add: refused_def outside_def)
    have "prints s2" using printsI [OF _ o(1)] f(5) c1(3) o(2) by (simp add: ends_at_def)
    define u where "u = shellPrintString (''Error creando proceso izquierdo'' @ [CHR 0x0A]) s2"
    have q: "quiet s2 u" unfolding u_def by (rule quiet_print [OF \<open>prints s2\<close>])
    have "no_trace L s (close_both (int r) (int w) u)"
      by (rule no_trace_close [OF ends_at_quiet [OF q f(5)] quiet_inv(1) [OF q f(2)] quiet_inv(2) [OF q o(4)]])
         (simp add: quietD [OF q] o(3))
    then show ?thesis using f(1) by (simp add: start u_def)
  next
    case f: (2 s2 L1 j1)
    have "\<not> live s j1" using f(4) tidied_live [OF t1] by (simp add: created_def)
    then have ne: "c \<noteq> j1" using c(2) by blast
    have o: "current_process s2 = Some c" "live s2 c" "c \<noteq> j1" "pcb_at s2 c = pcb_at s1 c" "next_pid s2 = next_pid s + 1"
      "idle_pcb s2 = idle_pcb s" "\<not> live s j1" "\<forall>k. live s2 k \<longleftrightarrow> k = j1 \<or> live s k" "mem_inv L1 s2"
      "process_get s2 (next_pid s + 1) = Some j1"
      using f(4) c1 c(2) ne tidied_live [OF t1] by (auto simp: created_def outside_def)
    have nw2: "unat (next_pid s2) + 1 < 2 ^ 31" using nw pids o(5) by simp
    show ?thesis
    proof (cases rule: create_step [OF f(2) o(9) f(3) f(7) iv(4) o(1,2) nw2, of fn "fst rc" "snd rc"])
      case h: (1 s3)
      have o3: "current_process s3 = Some c" "\<And>k. live s2 k \<Longrightarrow> pcb_at s3 k = pcb_at s2 k" "\<forall>k. live s3 k \<longleftrightarrow> k = j1 \<or> live s k"
        "mem_inv L1 s3" "idle_pcb s3 = idle_pcb s"
        using h(3) o by (auto simp: refused_def outside_def)
      have at: "pcb_at s3 c = pcb_at s1 c" "pcb_at s3 j1 = pcb_at s2 j1" using o3(2) o by simp_all
      have "prints s3" using printsI [OF _ o3(1)] h(5) c1(3) at by (simp add: ends_at_def)
      define u where "u = shellPrintString (''Error creando proceso derecho'' @ [CHR 0x0A]) s3"
      have q: "quiet s3 u" unfolding u_def by (rule quiet_print [OF \<open>prints s3\<close>])
      have "process_get s3 (next_pid s + 1) = Some j1"
        using table_inv_lookup [OF sched_inv_table [OF h(2)]] o3(3) at(2) process_get_Some [OF o(10)] by simp
      then have g: "process_get u (next_pid s + 1) = Some j1" by (simp add: quietD [OF q])
      have pp: "p_parent_pid (pcb_at u j1) \<noteq> next_pid s + 1"
        using f(10) at c1(4) table_inv_pid [OF sched_inv_table [OF iv(1)] c(2)] pids by (auto simp: quietD [OF q] word_le_nat_alt)
      have ni: "idle_pcb u \<noteq> Some j1"
        using sched_inv_idle [OF iv(1), of j1] o(7) o3(5) q by (auto simp: quiet_def sched_part_def)
      obtain t where "sys_kill (next_pid s + 1) u = Some t" "no_trace L s (close_both (int r) (int w) t)"
        by (rule kill_first [OF ends_at_quiet [OF q h(5)] iv(4) quiet_inv(1) [OF q h(2)] quiet_inv(2) [OF q o3(4)] quiet_inv(3) [OF q h(4)] g])
          (use f(5,8,9) pp ni o3(1,3) o(3,7) at in \<open>simp_all add: quietD [OF q]\<close>)
      then show ?thesis using f(1) h(1) k1 c1(5) by (simp add: start u_def)
    next
      case h: (2 s3 L3 j2)
      have "\<not> live s2 j2" using h(4) by (simp add: created_def)
      then have ne2: "j1 \<noteq> j2" "c \<noteq> j2" using o(2,8) by blast+
      have o3: "current_process s3 = Some c" "j1 \<noteq> j2" "pcb_at s3 j1 = pcb_at s2 j1" "pcb_at s3 c = pcb_at s1 c"
        "\<forall>k. live s3 k \<longleftrightarrow> k = j1 \<or> k = j2 \<or> live s k" "\<not> live s j2" "mem_inv L3 s3" "process_get s3 (next_pid s + 2) = Some j2"
        using h(4) o ne2 by (auto simp: created_def outside_def eq2)
      have g: "process_get s3 (next_pid s + 1) = Some j1"
        using table_inv_lookup [OF sched_inv_table [OF h(2)]] o3(3,5) process_get_Some [OF o(10)] by simp
      have e: "handle_pipe fn l rc bg s = do {
        s4 \<leftarrow> pipe_start (int_of_pid (next_pid s + 1)) (int_of_pid (next_pid s + 2)) (int r) (int w) bg s3;
        (if bg then Some (Background [int_of_pid (next_pid s + 1), int_of_pid (next_pid s + 2)],
             print_pids [int_of_pid (next_pid s + 1), int_of_pid (next_pid s + 2)] s4)
         else map_option (\<lambda>(_, s5). (Waiting [int_of_pid (next_pid s + 1), int_of_pid (next_pid s + 2)], s5))
             (sys_waitpid (of_int (int_of_pid (next_pid s + 1))) s4))
        }"
        using f(1) h(1) k1(2) k2(2) c1(5) o(5) by (simp add: start eq2)
      show ?thesis unfolding e
        by (rule pipeline_go [OF h(7) iv(4) p(3) h(2) o3(7) h(3) g _ _ o3(8) h(8,9) o3(5) o(7) o3(6,2,1) c(2) _ k1(1) k2(1), of bg])
          (use f(8,9) o3(3,4) c1(3) f(6) h(6) in \<open>auto\<close>)
    qed
  qed
qed

text \<open>C30: What a pipeline \<open>a | b\<close> of the shell starts. \<open>handle_pipe\<close> always returns to the shell or blocks it, and
  keeps the invariants of scheduler, heap and descriptors. If it fails, for lack of a pipe, a
  descriptor, a slot or memory, or because a command is not external, the processes, the blocks, the ends of pipes and the
  pipes in use are those of before, with one exception: when there was no free descriptor at all, the
  pipe that \<open>sys_pipe\<close> had taken stays in use with no end (\<open>pipe_lost\<close>; nothing in the code frees it). Otherwise
  there are two new processes, READY: the standard output of the first and the standard input of the
  second are the two ends of a pipe that was free, the other one is the terminal, and the
  counts say that nobody else, the shell included, holds an end. In the foreground the shell is blocked on the first
  process and the terminal is in cooked mode. (The shell is a live process that writes to the terminal, and
  the PIDs stay below \<open>2 ^ 31\<close>.)\<close>

theorem pipeline_wired:
  fixes s :: "'a ksys_scheme"
  assumes "sched_inv s" "mem_inv L s" "sem_inv s" "fd_inv s"
    and "current_process s = Some c" "live s c" "p_fd (pcb_at s c) ! 1 = 1" "unat (next_pid s) + 2 < 2 ^ 31"
  shows "\<exists>res t. handle_pipe fn l r bg s = Some (res, t) \<and> (res = Failed \<and> no_trace L s t \<or>
    res = (if bg then Background else Waiting) [int_of_pid (next_pid s + 1), int_of_pid (next_pid s + 2)] \<and>
    sched_inv t \<and> fd_inv t \<and> (\<exists>L'. mem_inv L' t \<and> L \<subseteq> L') \<and> pipeline_up s t \<and> (bg \<or> awaits_first c s t))"
proof -
  note tidy = tidied_sys_pipe [of s True]
  note i = tidied_sched_inv [OF assms(1) tidy] tidied_mem_inv [OF assms(2) tidy] fd_inv_sys_pipe [OF assms(4), of True]
  have cl: "c < length (process_table s)" using assms(6) by (simp add: live_def)
  have "prints (snd (snd (sys_pipe True s)))"
    by (rule printsI [OF i(3), of c]) (use tidy benign_fd [OF benign_sys_pipe cl] assms(5,7) in \<open>simp_all add: tidied_def\<close>)
  note q = quiet_print [OF this]
  show ?thesis
  proof (cases rule: sys_pipe_ends [OF assms(4)])
    case (1 t)
    then have "no_trace L s t" using i tidied_live [OF tidy] by (simp add: no_trace_def)
    from no_trace_quiet [OF this] q 1(1) show ?thesis by (simp add: handle_pipe_def)
  next
    case (2 rd wr p t)
    show ?thesis
    proof (cases "is_child_command (fst l) \<and> is_child_command (fst r)")
      case True
      then show ?thesis using handle_pipe_case [OF assms 2] by blast
    next
      case False
      define u where "u = shellPrintString (''Pipe solo soporta comandos externos'' @ [CHR 0x0A]) t"
      have q: "quiet t u" using q [of "''Pipe solo soporta comandos externos'' @ [CHR 0x0A]"] 2(1) unfolding u_def by simp
      have "no_trace L s (close_both (int rd) (int wr) u)"
        by (rule no_trace_close [OF ends_at_quiet [OF q 2(2)]])
           (use quiet_inv [OF q] i tidied_live [OF tidy] 2(1) in \<open>simp_all add: quietD(5) [OF q]\<close>)
      then show ?thesis using False 2(1) by (auto simp: handle_pipe_def u_def)
    qed
  qed
qed

lemma demo_sys_pipe: "0 \<le> fst (sys_pipe True demo_k)"
proof -
  have z: "\<not> pp_in_use zero_pipe" "\<not> pp_is_named zero_pipe" by (simp_all add: zero_pipe_def)
  show ?thesis
    using replicate_Suc [of 127 free_fd] replicate_Suc [of 126 free_fd] replicate_Suc [of 31 zero_pipe] z
    by (simp add: sys_pipe_def pipe_open_def pipe_alloc_def demo_k_def pipe_create_fds_def fd_create_pipe_def fd_alloc_def
      fd_incref_def upd_fd_def fd_get_def fd_at_def set_pipe_def pipe_at_def pipe_open_read_def pipe_open_write_def on_pipe_def
      pipe_open_read1_def pipe_open_write1_def pipe_reset_def free_fd_def modify_def Let_def)
qed

text \<open>A creation that finds a slot and a stack.\<close>

lemma create_noargs_fg:
  fixes s :: "'a ksys_scheme"
  assumes fd: "std_fds s" and cs: "current_process s \<noteq> Some slot"
    and sl: "first_idx (\<lambda>p. p_state p = PROCESS_FREE) (process_table s) = Some slot"
    and h: "mm_malloc_kernel 4096 (heap s) = Some (h, Some sb)"
    and nm: "first_idx (\<lambda>r. sem_str_eq (Some r) (Some nm)) registry = Some i"
  shows "\<exists>t q. my_create_process_fg fn nm [] 3 s = Some (int_of_pid (next_pid s + 1), t) \<and> heap t = h \<and>
    process_table t = (process_table s)[slot := q] \<and> p_state q = PROCESS_BLOCKED \<and> next_pid t = next_pid s + 1 \<and>
    current_process t = current_process s \<and> std_fds t"
proof -
  have l: "slot < length (process_table s)" using first_idx_SomeD [OF sl] by simp
  let ?s1 = "upd_pcb slot (\<lambda>p. p\<lparr>p_stack_base := Some sb\<rparr>) (s\<lparr>heap := h\<rparr>)"
  have fd1: "std_fds ?s1" using fd by (simp add: std_fds_def)
  obtain sp m where bs: "build_initial_stack (ptr_addr (p_stack_base (pcb_at ?s1 slot)) + STACK_SIZE) (trampoline ?s1)
      0 None (kwords ?s1) = (sp, m)" by force
  have "my_create_process_fg fn nm [] 3 s = process_create (Some nm) (fn i) 0 (Some []) 3 s"
    using nm by (simp add: my_create_process_fg_def sys_create_process_def to_int32_def)
  also have "\<dots> = Some (process_fill slot (Some nm) (fn i) 0 None 3 ?s1)"
    using sl h by (simp add: process_create_def copy_argv_def)
  finally have c: "my_create_process_fg fn nm [] 3 s = Some (process_fill slot (Some nm) (fn i) 0 None 3 ?s1)" .
  note f = process_fill_shape [OF _ fd1 _ bs, of "Some nm" "fn i" 3]
  have std: "std_fds (t\<lparr>fd_table := std_taken (fd_table s)\<rparr>)" for t :: "'a ksys_scheme"
    using fd by (simp add: std_fds_def std_taken_def fd_at_def)
  let ?n = "new_pcb (Some nm) (fn i) 0 None 3 (next_pid ?s1 + 1) (parent_of_new ?s1) sp"
  let ?t = "scheduler_add slot (upd_pcb slot ?n (?s1\<lparr>kwords := m, next_pid := next_pid ?s1 + 1, fd_table := std_taken (fd_table ?s1)\<rparr>))"
  have e: "process_fill slot (Some nm) (fn i) 0 None 3 ?s1 = (int_of_pid (next_pid ?s1 + 1), ?t)" by (rule f) (use l cs in simp_all)
  have "process_table ?t = (process_table s)[slot := ?n ((pcb_at s slot)\<lparr>p_stack_base := Some sb\<rparr>)]"
    using l by (simp add: process_table_upd_pcb modify_def pcb_at_def)
  moreover have "p_state (?n ((pcb_at s slot)\<lparr>p_stack_base := Some sb\<rparr>)) = PROCESS_BLOCKED" by (simp add: new_pcb_def)
  moreover have "std_fds ?t" using std [of s] by (simp add: std_fds_def fd_at_def)
  ultimately show ?thesis unfolding c e by (intro exI [of _ ?t] exI conjI) (assumption | simp)+
qed

theorem pipeline_wired_witness:
  "\<exists>t. handle_pipe (\<lambda>i. 0x1000) (''cat'', []) (''wc'', []) True demo_k = Some (Background [4, 5], t) \<and> pipeline_up demo_k t"
proof -
  have p1: "pcb_at demo_k 1 = demo_pcb 2 5 1 PROCESS_RUNNING" by (simp add: demo_k_pcb demo_table_nth)
  obtain r w i s1 where s1: "sys_pipe True demo_k = (0, Some (int r, int w), s1)" and e1: "ends_at demo_k r w (rd_end i 1) (wr_end i 1) s1"
  proof (rule sys_pipe_ends [OF demo_fds])
    show thesis if "sys_pipe True demo_k = (-1, None, t)" for t using that demo_sys_pipe by simp
  qed (rule that)
  have b: "benign demo_k s1" using benign_sys_pipe [of demo_k True] s1 by simp
  have h1: "heap s1 = demo_heap" "next_pid s1 = 3" "current_process s1 = Some 1"
    using sched_fd.fr_sys_pipe [of True demo_k] b s1 by (simp_all add: sched_part_def benign_def)
  have fr: "first_idx (\<lambda>p. p_state p = PROCESS_FREE) (process_table s1) = first_idx (\<lambda>p. p_state p = PROCESS_FREE) demo_table"
    by (rule sym, rule first_idx_cong2) (use b in \<open>auto simp: benign_def pcb_le_free elim!: list_all2_mono\<close>)
  obtain h h2 where h: "mm_malloc_kernel 4096 demo_heap = Some (h, Some 6291480)" "mm_malloc_kernel 4096 h = Some (h2, Some 6295600)"
    by (simp add: mm_malloc_kernel_def malloc_impl_def demo_heap_def mm_init_def malloc_loop_simps malloc_take_def align8_def)
  have nm: "first_idx (\<lambda>r. sem_str_eq (Some r) (Some ''cat'')) registry = Some 14" "first_idx (\<lambda>r. sem_str_eq (Some r) (Some ''wc'')) registry = Some 15"
    by (simp_all add: registry_def sem_str_eq_def sem_str_eq_loop.simps cget_def)
  have f1: "first_idx (\<lambda>p. p_state p = PROCESS_FREE) (process_table s1) = Some 3" unfolding fr by (rule demo_free_slot)
  have fd1: "std_fds s1" by (rule fd_inv_std) (use e1 in \<open>simp add: ends_at_def\<close>)
  obtain s2 q where s2: "my_create_process_fg (\<lambda>i. 0x1000) ''cat'' [] 3 s1 = Some (4, s2)" "heap s2 = h"
    "process_table s2 = (process_table s1)[3 := q]" "p_state q = PROCESS_BLOCKED" "next_pid s2 = 4" "current_process s2 = Some 1" "std_fds s2"
    using create_noargs_fg [OF fd1 _ f1 _ nm(1), of h 6291480 "\<lambda>i. 0x1000"] h h1 by (auto simp: int_of_pid_def)
  have f2: "first_idx (\<lambda>p. p_state p = PROCESS_FREE) (process_table s2) = Some 4"
  proof (rule first_idx_SomeI)
    have l: "length (process_table s1) = 64" using benign_length [OF b] by (simp add: demo_table_def)
    then show "4 < length (process_table s2)" by (simp add: s2(3))
    have st: "p_state (process_table s1 ! k) = PROCESS_FREE \<longleftrightarrow> p_state (demo_table ! k) = PROCESS_FREE" if "k < 64" for k
      using benign_pcb [OF b, of k] that l benign_length [OF b] by (simp add: pcb_le_free pcb_at_def)
    show "p_state (process_table s2 ! 4) = PROCESS_FREE" using st [of 4] by (simp add: s2(3) demo_table_nth zero_pcb_def)
    show "p_state (process_table s2 ! k) \<noteq> PROCESS_FREE" if "k < 4" for k
      using that st [of k] l by (cases "k = 3") (auto simp: s2(3,4) demo_table_nth demo_pcb_def)
  qed
  obtain s3 where s3: "my_create_process_fg (\<lambda>i. 0x1000) ''wc'' [] 3 s2 = Some (5, s3)"
    using create_noargs_fg [OF s2(7) _ f2 _ nm(2), of h2 6295600 "\<lambda>i. 0x1000"] h(2) s2(2,5,6) by (auto simp: int_of_pid_def)
  have ch: "is_child_command ''cat''" "is_child_command ''wc''"
    by (simp_all add: is_child_command_def child_cmds_def strcmp_def strcmp_loop.simps cget_def)
  have "handle_pipe (\<lambda>i. 0x1000) (''cat'', []) (''wc'', []) True demo_k = do {
      s4 \<leftarrow> pipe_start 4 5 (int r) (int w) True s3; Some (Background [4, 5], print_pids [4, 5] s4) }"
    using s1 ch s2(1) s3 by (simp add: handle_pipe_def)
  moreover obtain res t where "handle_pipe (\<lambda>i. 0x1000) (''cat'', []) (''wc'', []) True demo_k = Some (res, t)"
    "res = Failed \<or> pipeline_up demo_k t"
    using pipeline_wired [OF demo_k_inv(1,2,4) demo_fds, of 1 "\<lambda>i. 0x1000" "(''cat'', [])" "(''wc'', [])" True] p1
    by (auto simp: demo_live demo_pcb_def)
  ultimately show ?thesis by (cases "pipe_start 4 5 (int r) (int w) True s3") auto
qed

end
