(* ===== verification/Video.thy ===== *)
theory Video
  imports Lib Font
begin

unbundle bit_operations_syntax

text \<open>
  The screen, \<open>Kernel/c/drivers/videoDriver.c\<close>: text on a linear frame buffer with a cursor in pixels
  and a font that is scaled by an integer. Of the mode information only the fields the driver reads
  are kept. The memory is that of \<open>Lib\<close>; offsets into the buffer are natural numbers, since all
  factors have at most 16 bits. The sources of characters are elsewhere: the terminal model of
  \<open>Keyboard\<close> keeps the sequence of characters that are sent here.
\<close>

type_synonym u16 = "16 word"

abbreviation (input) FONT_WIDTH :: u64 where "FONT_WIDTH \<equiv> 8"
abbreviation (input) FONT_HEIGHT :: u64 where "FONT_HEIGHT \<equiv> 16"
abbreviation (input) MAX_FONT_SIZE :: u64 where "MAX_FONT_SIZE \<equiv> 5"
abbreviation (input) bgColor :: u32 where "bgColor \<equiv> 0"

record vbe_mode_info =
  vm_pitch :: u16
  vm_width :: u16
  vm_height :: u16
  vm_bpp :: u8
  vm_framebuffer :: u32

record video =
  vbe_mode :: vbe_mode_info
  currentX :: u64
  currentY :: u64
  defaultTextSize :: u64
  vmem :: bytes_mem

definition getScreenWidth :: "video \<Rightarrow> u16" where
  "getScreenWidth v = vm_width (vbe_mode v)"

definition getScreenHeight :: "video \<Rightarrow> u16" where
  "getScreenHeight v = vm_height (vbe_mode v)"

definition setDefaultTextSize :: "u64 \<Rightarrow> video \<Rightarrow> video" where
  "setDefaultTextSize sz v = v\<lparr>defaultTextSize := (if sz = 0 then 1 else sz)\<rparr>"

definition getDefaultTextSize :: "video \<Rightarrow> u64" where
  "getDefaultTextSize v = defaultTextSize v"

definition setTextSize :: "u8 \<Rightarrow> video \<Rightarrow> video" where
  "setTextSize sz v = v\<lparr>defaultTextSize := ucast (if sz = 0 then 1 else sz)\<rparr>"

definition validPosition :: "u64 \<Rightarrow> u64 \<Rightarrow> video \<Rightarrow> bool" where
  "validPosition x y v \<longleftrightarrow> x < ucast (vm_width (vbe_mode v)) \<and> y < ucast (vm_height (vbe_mode v))"

subsection \<open>Pixels and rectangles\<close>

definition bytesPerPixel :: "video \<Rightarrow> nat" where
  "bytesPerPixel v = (unat (vm_bpp (vbe_mode v)) + 7) div 8"

definition pitch :: "video \<Rightarrow> nat" where
  "pitch v = unat (vm_pitch (vbe_mode v))"

definition framebuffer :: "video \<Rightarrow> addr" where
  "framebuffer v = unat (vm_framebuffer (vbe_mode v))"

text \<open>\<open>framebuffer[offset + i] = (hexColor >> (8 * i)) & 0xFF\<close> for the bytes of a pixel.\<close>

definition put_color :: "u32 \<Rightarrow> nat \<Rightarrow> addr \<Rightarrow> bytes_mem \<Rightarrow> bytes_mem" where
  "put_color color n a m = fold (\<lambda>i m. m(a + i := char_of (unat (drop_bit (8 * i) color AND 0xFF)))) [0..<n] m"

definition putPixel :: "u32 \<Rightarrow> u64 \<Rightarrow> u64 \<Rightarrow> video \<Rightarrow> video" where
  "putPixel hexColor x y v =
     (if \<not> validPosition x y v then v
      else
        let offset = unat y * pitch v + unat x * bytesPerPixel v
        in v\<lparr>vmem := put_color hexColor (bytesPerPixel v) (framebuffer v + offset) (vmem v)\<rparr>)"

definition v_fillRectangle :: "u64 \<Rightarrow> u64 \<Rightarrow> u64 \<Rightarrow> u64 \<Rightarrow> u32 \<Rightarrow> video \<Rightarrow> video" where
  "v_fillRectangle x0 y0 x1 y1 color v =
     (if x1 \<le> x0 \<or> y1 \<le> y0 then v
      else if \<not> validPosition x0 y0 v then v
      else
        let x1 = (if x1 > ucast (vm_width (vbe_mode v)) then ucast (vm_width (vbe_mode v)) else x1);
            y1 = (if y1 > ucast (vm_height (vbe_mode v)) then ucast (vm_height (vbe_mode v)) else y1)
        in v\<lparr>vmem := fold (\<lambda>y.
             let row_offset = y * pitch v + unat x0 * bytesPerPixel v
             in fold (\<lambda>x. put_color color (bytesPerPixel v)
                  (framebuffer v + (row_offset + (x - unat x0) * bytesPerPixel v))) [unat x0..<unat x1])
             [unat y0..<unat y1] (vmem v)\<rparr>)"

definition drawFilledRect :: "u32 \<Rightarrow> u32 \<Rightarrow> u32 \<Rightarrow> u32 \<Rightarrow> u32 \<Rightarrow> video \<Rightarrow> video" where
  "drawFilledRect x y width height color v =
     v_fillRectangle (ucast x) (ucast y) (ucast x + ucast width) (ucast y + ucast height) color v"

definition fillRect :: "u64 \<Rightarrow> u64 \<Rightarrow> u64 \<Rightarrow> u64 \<Rightarrow> u32 \<Rightarrow> video \<Rightarrow> video" where
  "fillRect x y w h color v =
     (if w = 0 \<or> h = 0 then v else v_fillRectangle x y (x + w) (y + h) color v)"

definition clearScreen :: "u32 \<Rightarrow> video \<Rightarrow> video" where
  "clearScreen color v =
     (drawFilledRect 0 0 (ucast (vm_width (vbe_mode v))) (ucast (vm_height (vbe_mode v))) color v)
       \<lparr>currentX := 0, currentY := 0\<rparr>"

subsection \<open>Lines\<close>

definition scroll :: "video \<Rightarrow> video" where
  "scroll v =
     (let lineHeight = defaultTextSize v * FONT_HEIGHT;
          height = unat (vm_height (vbe_mode v));
          m = fold (\<lambda>srcY. memcpy (framebuffer v + (srcY - unat lineHeight) * pitch v) (framebuffer v + srcY * pitch v) (pitch v))
                [unat lineHeight..<height] (vmem v);
          lastLineStart = ucast (vm_height (vbe_mode v)) - lineHeight
      in v_fillRectangle 0 lastLineStart (ucast (vm_width (vbe_mode v))) (ucast (vm_height (vbe_mode v))) bgColor
           (v\<lparr>vmem := m\<rparr>))"

definition newLine :: "video \<Rightarrow> video" where
  "newLine v =
     (let v1 = v\<lparr>currentX := 0\<rparr>;
          stepY = defaultTextSize v1 * FONT_HEIGHT
      in if currentY v1 + stepY < ucast (vm_height (vbe_mode v1))
         then
           let v2 = v1\<lparr>currentY := currentY v1 + stepY\<rparr>
           in v_fillRectangle 0 (currentY v2) (ucast (vm_width (vbe_mode v2))) (currentY v2 + stepY) bgColor v2
         else (scroll v1)\<lparr>currentY := ucast (vm_height (vbe_mode v1)) - stepY\<rparr>)"

definition moveRight :: "video \<Rightarrow> video" where
  "moveRight v =
     (let stepX = FONT_WIDTH * defaultTextSize v
      in if currentX v + stepX < ucast (vm_width (vbe_mode v)) then v\<lparr>currentX := currentX v + stepX\<rparr> else newLine v)"

definition updateCursor :: "video \<Rightarrow> video" where
  "updateCursor v =
     (if \<not> validPosition (currentX v + FONT_WIDTH * defaultTextSize v - 1) (currentY v + FONT_HEIGHT * defaultTextSize v - 1) v
      then newLine v else v)"

definition increaseFontSize :: "video \<Rightarrow> video" where
  "increaseFontSize v =
     updateCursor (if defaultTextSize v < MAX_FONT_SIZE then v\<lparr>defaultTextSize := defaultTextSize v + 1\<rparr> else v)"

definition decreaseFontSize :: "video \<Rightarrow> video" where
  "decreaseFontSize v =
     updateCursor (if defaultTextSize v > 1 then v\<lparr>defaultTextSize := defaultTextSize v - 1\<rparr> else v)"

subsection \<open>Characters\<close>

definition drawChar :: "u32 \<Rightarrow> u32 \<Rightarrow> u8 \<Rightarrow> u32 \<Rightarrow> u64 \<Rightarrow> video \<Rightarrow> video" where
  "drawChar x y c color sz v =
     (if c \<ge> 128 then v
      else fold (\<lambda>i.
        let line = font ! unat c ! i
        in fold (\<lambda>j.
             if push_bit j (ucast line :: u32) AND 0x80 \<noteq> 0
             then fold (\<lambda>dy. fold (\<lambda>dx.
                    putPixel color (ucast x + of_nat j * sz + of_nat dx) (ucast y + of_nat i * sz + of_nat dy))
                    [0..<unat sz]) [0..<unat sz]
             else id) [0..<8]) [0..<16] v)"

definition videoPutChar_fb :: "u8 \<Rightarrow> u32 \<Rightarrow> video \<Rightarrow> video" where
  "videoPutChar_fb c color v =
     (if c = 10 \<or> c = 13 then newLine v
      else if c = 8
      then
        let stepX = FONT_WIDTH * defaultTextSize v; stepY = FONT_HEIGHT * defaultTextSize v
        in if currentX v \<ge> stepX
           then
             let v1 = v\<lparr>currentX := currentX v - stepX\<rparr>
             in updateCursor (v_fillRectangle (currentX v1) (currentY v1) (currentX v1 + stepX) (currentY v1 + stepY) bgColor v1)
           else v
      else updateCursor (moveRight (drawChar (ucast (currentX v)) (ucast (currentY v)) c color (defaultTextSize v) v)))"

definition videoPrint :: "string \<Rightarrow> u32 \<Rightarrow> video \<Rightarrow> video" where
  "videoPrint str color v = fold (\<lambda>c. videoPutChar_fb (of_char c) color) (cstr str) v"

end
