(* ===== verification/Video_Lemmas.thy ===== *)
theory Video_Lemmas
  imports Video
begin

text \<open>
  The frame buffer as a screen of pixels. \<open>pix\<close> reads the bytes of a pixel, \<open>drawn\<close> says that nothing outside
  the buffer changed. Every operation that draws is a sequence of paints of single pixels
  inside the screen, or copies of whole rows.
\<close>

abbreviation scr_w :: "video \<Rightarrow> nat" where "scr_w v \<equiv> unat (vm_width (vbe_mode v))"
abbreviation scr_h :: "video \<Rightarrow> nat" where "scr_h v \<equiv> unat (vm_height (vbe_mode v))"

text \<open>What the boot loader's mode has to satisfy: a row fits the pitch.\<close>

definition mode_ok :: "video \<Rightarrow> bool" where
  "mode_ok v \<longleftrightarrow> scr_w v * bytesPerPixel v \<le> pitch v"

definition pixel_addr :: "video \<Rightarrow> nat \<Rightarrow> nat \<Rightarrow> addr" where
  "pixel_addr v x y = framebuffer v + (y * pitch v + x * bytesPerPixel v)"

definition drawn :: "video \<Rightarrow> video \<Rightarrow> bool" where
  "drawn v w \<longleftrightarrow> vbe_mode w = vbe_mode v \<and>
     (\<forall>a. a < framebuffer v \<or> framebuffer v + pitch v * scr_h v \<le> a \<longrightarrow> vmem w a = vmem v a)"

lemma drawn_refl [simp]: "drawn v v"
  by (simp add: drawn_def)

lemma drawn_trans [trans]: "drawn u v \<Longrightarrow> drawn v w \<Longrightarrow> drawn u w"
  by (simp add: drawn_def framebuffer_def pitch_def)

lemma drawn_cursor [simp]:
  "drawn v (w\<lparr>currentX := x\<rparr>) = drawn v w" "drawn v (w\<lparr>currentY := x\<rparr>) = drawn v w" "drawn v (w\<lparr>defaultTextSize := x\<rparr>) = drawn v w"
  by (simp_all add: drawn_def)

lemma drawn_mode: "drawn v w \<Longrightarrow> vbe_mode w = vbe_mode v"
  by (simp add: drawn_def)

lemma mode_cong:
  "vbe_mode w = vbe_mode v \<Longrightarrow> mode_ok w = mode_ok v \<and> pitch w = pitch v \<and> framebuffer w = framebuffer v \<and>
     bytesPerPixel w = bytesPerPixel v \<and> pixel_addr w = pixel_addr v \<and> validPosition x y w = validPosition x y v"
  by (simp add: mode_ok_def pitch_def framebuffer_def bytesPerPixel_def pixel_addr_def validPosition_def fun_eq_iff)

subsection \<open>One pixel\<close>

definition color_byte :: "u32 \<Rightarrow> nat \<Rightarrow> char" where
  "color_byte color i = char_of (unat (drop_bit (8 * i) color AND 0xFF))"

lemma put_color_eq: "put_color color n a m b = (if a \<le> b \<and> b < a + n then color_byte color (b - a) else m b)"
proof -
  have "fold (\<lambda>i m. m(a + i := color_byte color i)) [0..<n] m b =
      (if a \<le> b \<and> b < a + n then color_byte color (b - a) else m b)"
    by (induction n arbitrary: m) auto
  then show ?thesis unfolding put_color_def color_byte_def [symmetric] .
qed

lemma pixel_inside:
  assumes "mode_ok v" "x < scr_w v" "y < scr_h v"
  shows "framebuffer v \<le> pixel_addr v x y" "pixel_addr v x y + bytesPerPixel v \<le> framebuffer v + pitch v * scr_h v"
proof -
  have "(x + 1) * bytesPerPixel v \<le> scr_w v * bytesPerPixel v" using assms(2) by (intro mult_le_mono1) simp
  then have "x * bytesPerPixel v + bytesPerPixel v \<le> pitch v" using assms(1) by (simp add: mode_ok_def)
  moreover have "(y + 1) * pitch v \<le> scr_h v * pitch v" using assms(3) by (intro mult_le_mono1) simp
  ultimately show "pixel_addr v x y + bytesPerPixel v \<le> framebuffer v + pitch v * scr_h v"
    by (simp add: pixel_addr_def mult.commute)
qed (simp add: pixel_addr_def)

definition pix :: "video \<Rightarrow> nat \<Rightarrow> nat \<Rightarrow> char list" where
  "pix v x y = map (\<lambda>i. vmem v (pixel_addr v x y + i)) [0..<bytesPerPixel v]"

definition color_bytes :: "video \<Rightarrow> u32 \<Rightarrow> char list" where
  "color_bytes v color = map (color_byte color) [0..<bytesPerPixel v]"

text \<open>Paint the pixel.\<close>

definition paint :: "u32 \<Rightarrow> nat \<Rightarrow> nat \<Rightarrow> video \<Rightarrow> video" where
  "paint color x y v = v\<lparr>vmem := put_color color (bytesPerPixel v) (pixel_addr v x y) (vmem v)\<rparr>"

lemma paint_sels [simp]:
  "vbe_mode (paint c x y v) = vbe_mode v" "currentX (paint c x y v) = currentX v" "currentY (paint c x y v) = currentY v"
  "defaultTextSize (paint c x y v) = defaultTextSize v"
  by (simp_all add: paint_def)

lemma putPixel_paint:
  "putPixel c x y v = (if validPosition x y v then paint c (unat x) (unat y) v else v)"
  by (simp add: putPixel_def paint_def pixel_addr_def Let_def)

lemma unat_u16 [simp]: "unat (ucast (k :: u16) :: u64) = unat k"
proof -
  have "unat k < 2 ^ 16" using unsigned_less [of k] by simp
  then have "unat k < 2 ^ 64" by (rule less_trans) simp
  then show ?thesis by (simp add: unsigned_ucast_eq take_bit_nat_eq_self)
qed

lemma valid_less: "validPosition x y v \<longleftrightarrow> unat x < scr_w v \<and> unat y < scr_h v"
  by (simp add: validPosition_def word_less_nat_alt)

lemma drawn_paint: "mode_ok v \<Longrightarrow> x < scr_w v \<Longrightarrow> y < scr_h v \<Longrightarrow> drawn v (paint c x y v)"
  using pixel_inside [of v x y] by (auto simp: drawn_def paint_def put_color_eq)

text \<open>Two pixels do not share bytes.\<close>

lemma pixel_apart:
  assumes "mode_ok v" "x < scr_w v" "x' < scr_w v" "(x, y) \<noteq> (x', y')"
  shows "apart (pixel_addr v x y) (pixel_addr v x' y') (bytesPerPixel v)"
proof -
  let ?b = "bytesPerPixel v" let ?p = "pitch v"
  have row: "z * ?b + ?b \<le> ?p" if "z < scr_w v" for z
  proof -
    have "(z + 1) * ?b \<le> scr_w v * ?b" using that by (intro mult_le_mono1) simp
    then show ?thesis using assms(1) by (simp add: mode_ok_def)
  qed
  have less: "p * n + n \<le> q * n" if "p < q" for p q n :: nat
    using mult_le_mono1 [of "p + 1" q n] that by simp
  consider "y < y'" | "y' < y" | "y = y'" "x < x'" | "y = y'" "x' < x" using assms(4) by fastforce
  then show ?thesis
    using row [OF assms(2)] row [OF assms(3)] less [of y y' ?p] less [of y' y ?p] less [of x x' ?b] less [of x' x ?b]
    by cases (auto simp: apart_def pixel_addr_def)
qed

lemma pix_paint:
  assumes "mode_ok v" "x < scr_w v" "x' < scr_w v"
  shows "pix (paint c x y v) x' y' = (if x' = x \<and> y' = y then color_bytes v c else pix v x' y')"
proof -
  have "apart (pixel_addr v x y) (pixel_addr v x' y') (bytesPerPixel v)" if "\<not> (x' = x \<and> y' = y)"
    using pixel_apart [OF assms] that by auto
  moreover have "pixel_addr (paint c x y v) = pixel_addr v" "bytesPerPixel (paint c x y v) = bytesPerPixel v"
    using mode_cong [of "paint c x y v" v] by simp_all
  ultimately show ?thesis
    by (cases "x' = x \<and> y' = y") (auto simp: pix_def color_bytes_def paint_def put_color_eq apart_def)
qed

subsection \<open>Sequences of paints\<close>

text \<open>\<open>w\<close> is \<open>v\<close> with the pixels of the set \<open>P\<close> in colour \<open>c\<close>.\<close>

definition painted :: "u32 \<Rightarrow> (nat \<times> nat) set \<Rightarrow> video \<Rightarrow> video \<Rightarrow> bool" where
  "painted c P v w \<longleftrightarrow> drawn v w \<and> currentX w = currentX v \<and> currentY w = currentY v \<and>
     defaultTextSize w = defaultTextSize v \<and>
     (\<forall>x < scr_w v. \<forall>y < scr_h v. pix w x y = (if (x, y) \<in> P then color_bytes v c else pix v x y))"

lemma painted_empty [simp]: "painted c {} v v"
  by (simp add: painted_def)

lemma painted_pixel: "mode_ok v \<Longrightarrow> x < scr_w v \<Longrightarrow> y < scr_h v \<Longrightarrow> painted c {(x, y)} v (paint c x y v)"
  by (simp add: painted_def drawn_paint pix_paint)

lemma painted_trans: "painted c P u v \<Longrightarrow> painted c Q v w \<Longrightarrow> painted c (P \<union> Q) u w"
  using drawn_trans [of u v w] drawn_mode [of u v]
  by (auto simp: painted_def color_bytes_def bytesPerPixel_def)

lemma painted_mode: "painted c P v w \<Longrightarrow> vbe_mode w = vbe_mode v"
  by (simp add: painted_def drawn_def)

lemma painted_putPixel:
  "mode_ok v \<Longrightarrow> painted c ({(unat x, unat y)} \<inter> {..<scr_w v} \<times> {..<scr_h v}) v (putPixel c x y v)"
  using painted_pixel [of v "unat x" "unat y" c] by (auto simp: putPixel_paint valid_less)

lemma painted_fold:
  assumes "mode_ok v" "\<And>k u. k \<in> set ks \<Longrightarrow> vbe_mode u = vbe_mode v \<Longrightarrow> painted c (P k) u (f k u)"
  shows "painted c (\<Union>k\<in>set ks. P k) v (fold f ks v)"
proof -
  have "vbe_mode u = vbe_mode v \<Longrightarrow> painted c (\<Union>k\<in>set ks. P k) u (fold f ks u)" for u
    using assms(2)
  proof (induction ks arbitrary: u)
    case (Cons k ks)
    have 1: "painted c (P k) u (f k u)" using Cons.prems by simp
    then have "painted c (\<Union>k\<in>set ks. P k) (f k u) (fold f ks (f k u))"
      using Cons painted_mode [OF 1] by simp
    from painted_trans [OF 1 this] show ?case by simp
  qed simp
  then show ?thesis by simp
qed

subsection \<open>Rectangles\<close>

lemma fold_vmem:
  assumes "\<And>k u. k \<in> set ks \<Longrightarrow> vbe_mode u = vbe_mode v \<Longrightarrow> g k u = u\<lparr>vmem := f k (vmem u)\<rparr>"
  shows "v\<lparr>vmem := fold f ks (vmem v)\<rparr> = fold g ks v"
proof -
  have "vbe_mode u = vbe_mode v \<Longrightarrow> u\<lparr>vmem := fold f ks (vmem u)\<rparr> = fold g ks u" for u
    using assms
  proof (induction ks arbitrary: u)
    case (Cons k ks)
    have "g k u = u\<lparr>vmem := f k (vmem u)\<rparr>" using Cons.prems by simp
    moreover have "(u\<lparr>vmem := f k (vmem u)\<rparr>)\<lparr>vmem := fold f ks (vmem (u\<lparr>vmem := f k (vmem u)\<rparr>))\<rparr> = fold g ks (u\<lparr>vmem := f k (vmem u)\<rparr>)"
      by (rule Cons.IH) (use Cons.prems in simp_all)
    ultimately show ?case by simp
  qed simp
  then show ?thesis by simp
qed

lemma fill_painted:
  assumes ok: "mode_ok v"
  shows "painted c ({unat x0..<min (unat x1) (scr_w v)} \<times> {unat y0..<min (unat y1) (scr_h v)}) v (v_fillRectangle x0 y0 x1 y1 c v)"
proof (cases "x1 \<le> x0 \<or> y1 \<le> y0 \<or> \<not> validPosition x0 y0 v")
  case True
  then have "{unat x0..<min (unat x1) (scr_w v)} \<times> {unat y0..<min (unat y1) (scr_h v)} = {}"
    by (auto simp: valid_less word_le_nat_alt)
  moreover have "v_fillRectangle x0 y0 x1 y1 c v = v" using True by (auto simp: v_fillRectangle_def)
  ultimately show ?thesis by (simp only: painted_empty)
next
  case False
  let ?x1 = "min (unat x1) (scr_w v)" and ?y1 = "min (unat y1) (scr_h v)"
  have m: "unat (if a > ucast (k :: u16) then ucast k else a) = min (unat a) (unat k)" for a :: u64 and k
    by (auto simp: word_less_nat_alt)
  let ?fx = "\<lambda>y x. put_color c (bytesPerPixel v) (framebuffer v + (y * pitch v + unat x0 * bytesPerPixel v + (x - unat x0) * bytesPerPixel v))"
  have row: "u\<lparr>vmem := fold (?fx y) [unat x0..<?x1] (vmem u)\<rparr> = fold (\<lambda>x. paint c x y) [unat x0..<?x1] u"
    if u: "vbe_mode u = vbe_mode v" for y and u :: video
  proof (rule fold_vmem)
    fix x and u' :: video assume x: "x \<in> set [unat x0..<?x1]" "vbe_mode u' = vbe_mode u"
    then have "vbe_mode u' = vbe_mode v" using u by simp
    note mc = mode_cong [OF this]
    have "unat x0 * bytesPerPixel v + (x - unat x0) * bytesPerPixel v = x * bytesPerPixel v"
      using x(1) by (simp flip: add_mult_distrib)
    then show "paint c x y u' = u'\<lparr>vmem := ?fx y x (vmem u')\<rparr>"
      using mc by (simp add: paint_def pixel_addr_def add.assoc)
  qed
  have "v_fillRectangle x0 y0 x1 y1 c v = v\<lparr>vmem := fold (\<lambda>y. fold (?fx y) [unat x0..<?x1]) [unat y0..<?y1] (vmem v)\<rparr>"
    using False unfolding v_fillRectangle_def Let_def m by simp
  also have "\<dots> = fold (\<lambda>y. fold (\<lambda>x. paint c x y) [unat x0..<?x1]) [unat y0..<?y1] v"
    by (rule fold_vmem) (simp add: row)
  finally have e: "v_fillRectangle x0 y0 x1 y1 c v = fold (\<lambda>y. fold (\<lambda>x. paint c x y) [unat x0..<?x1]) [unat y0..<?y1] v" .
  have "painted c (\<Union>y\<in>set [unat y0..<?y1]. \<Union>x\<in>set [unat x0..<?x1]. {(x, y)}) v
      (fold (\<lambda>y. fold (\<lambda>x. paint c x y) [unat x0..<?x1]) [unat y0..<?y1] v)"
  proof (rule painted_fold [OF ok])
    fix y and u :: video assume y: "y \<in> set [unat y0..<?y1]" "vbe_mode u = vbe_mode v"
    show "painted c (\<Union>x\<in>set [unat x0..<?x1]. {(x, y)}) u (fold (\<lambda>x. paint c x y) [unat x0..<?x1] u)"
    proof (rule painted_fold)
      show "mode_ok u" using mode_cong [OF y(2)] ok by simp
      show "painted c {(x, y)} u' (paint c x y u')" if "x \<in> set [unat x0..<?x1]" "vbe_mode u' = vbe_mode u" for x and u' :: video
        using painted_pixel [of u' x y c] mode_cong [of u' v] that y ok by simp
    qed
  qed
  moreover have "(\<Union>y\<in>set [unat y0..<?y1]. \<Union>x\<in>set [unat x0..<?x1]. {(x, y)}) = {unat x0..<?x1} \<times> {unat y0..<?y1}" by auto
  ultimately show ?thesis unfolding e by simp
qed

subsection \<open>Scrolling\<close>

text \<open>Copying the rows from \<open>l\<close> up, one after the other, is a shift of the buffer.\<close>

lemma copy_rows:
  assumes "0 < l" "l \<le> k"
  shows "fold (\<lambda>y. memcpy (b + (y - l) * p) (b + y * p) p) [l..<k] m a = (if b \<le> a \<and> a < b + (k - l) * p then m (a + l * p) else m a)"
  using assms(2)
proof (induction k arbitrary: a rule: dec_induct)
  case base
  then show ?case by auto
next
  case (step k)
  let ?m = "fold (\<lambda>y. memcpy (b + (y - l) * p) (b + y * p) p) [l..<k] m"
  have kl: "k * p = (k - l) * p + l * p" using step(1) by (simp flip: add_mult_distrib)
  have lp: "p \<le> l * p" using assms(1) by (cases l) simp_all
  have "apart (b + (k - l) * p) (b + k * p) p" using kl lp by (simp add: apart_def)
  then have e: "memcpy (b + (k - l) * p) (b + k * p) p ?m = copy_unit p (b + (k - l) * p) (b + k * p) ?m" by (rule memcpy_eq)
  have "(Suc k - l) * p = (k - l) * p + p" using step(1) by (simp add: Suc_diff_le)
  then show ?case using step e kl lp
    by (auto simp: copy_unit_def add.commute)
qed

text \<open>The size of the font, and the height of a line.\<close>

definition size_ok :: "video \<Rightarrow> bool" where
  "size_ok v \<longleftrightarrow> 1 \<le> unat (defaultTextSize v) \<and> unat (defaultTextSize v) \<le> 5"

abbreviation fsize :: "video \<Rightarrow> nat" where "fsize v \<equiv> unat (defaultTextSize v)"

lemma size_steps:
  assumes "size_ok v"
  shows "unat (defaultTextSize v * FONT_HEIGHT) = 16 * fsize v" "unat (FONT_HEIGHT * defaultTextSize v) = 16 * fsize v"
    "unat (FONT_WIDTH * defaultTextSize v) = 8 * fsize v"
  using assms by (simp_all add: size_ok_def unat_word_ariths)

lemma unat_add_small: "unat a + unat b < 2 ^ 64 \<Longrightarrow> unat (a + b :: u64) = unat a + unat b"
  by (simp add: unat_word_ariths)

lemma unat_u16_less: "unat (k :: u16) < 65536"
  using unsigned_less [of k] by simp

lemma scroll_rows:
  assumes ok: "mode_ok v" "size_ok v" and h: "16 * fsize v \<le> scr_h v"
  shows "drawn v (scroll v)" "currentX (scroll v) = currentX v" "currentY (scroll v) = currentY v"
    "defaultTextSize (scroll v) = defaultTextSize v"
    "\<And>x y. x < scr_w v \<Longrightarrow> y < scr_h v \<Longrightarrow>
       pix (scroll v) x y = (if y + 16 * fsize v < scr_h v then pix v x (y + 16 * fsize v) else color_bytes v bgColor)"
proof -
  let ?l = "16 * fsize v" and ?h = "scr_h v" and ?p = "pitch v" and ?b = "framebuffer v"
  let ?m = "fold (\<lambda>y. memcpy (?b + (y - ?l) * ?p) (?b + y * ?p) ?p) [?l..<?h] (vmem v)"
  let ?u = "v\<lparr>vmem := ?m\<rparr>"
  have l0: "0 < ?l" using ok(2) by (simp add: size_ok_def)
  note m = copy_rows [OF l0 h, where b = ?b and p = ?p and m = "vmem v"]
  have hp: "?h * ?p = (?h - ?l) * ?p + ?l * ?p" using h by (simp flip: add_mult_distrib)
  have d: "drawn v ?u" using hp by (auto simp: drawn_def m mult.commute [of ?p])
  have um: "vbe_mode ?u = vbe_mode v" by simp
  note uc = mode_cong [OF um]
  let ?last = "ucast (vm_height (vbe_mode v)) - defaultTextSize v * FONT_HEIGHT :: u64"
  have "defaultTextSize v * FONT_HEIGHT \<le> ucast (vm_height (vbe_mode v))"
    using h size_steps(1) [OF ok(2)] by (simp add: word_le_nat_alt)
  then have last: "unat ?last = ?h - ?l" by (simp add: unat_sub size_steps [OF ok(2)])
  have e: "scroll v = v_fillRectangle 0 ?last (ucast (vm_width (vbe_mode v))) (ucast (vm_height (vbe_mode v))) bgColor ?u"
    by (simp add: scroll_def Let_def size_steps [OF ok(2)])
  have "mode_ok ?u" using ok(1) uc by simp
  from fill_painted [OF this, of bgColor 0 "ucast (vm_width (vbe_mode v))" ?last "ucast (vm_height (vbe_mode v))"]
  have f: "painted bgColor ({0..<scr_w v} \<times> {?h - ?l..<?h}) ?u (scroll v)" unfolding e by (simp add: last)
  show "drawn v (scroll v)" using drawn_trans [OF d] f by (simp add: painted_def)
  show "currentX (scroll v) = currentX v" "currentY (scroll v) = currentY v" "defaultTextSize (scroll v) = defaultTextSize v"
    using f by (simp_all add: painted_def)
  show "pix (scroll v) x y = (if y + ?l < ?h then pix v x (y + ?l) else color_bytes v bgColor)" if x: "x < scr_w v" and y: "y < ?h" for x y
  proof (cases "y + ?l < ?h")
    case False
    then have "(x, y) \<in> {0..<scr_w v} \<times> {?h - ?l..<?h}" using x y by auto
    then have "pix (scroll v) x y = color_bytes ?u bgColor" using f x y by (simp add: painted_def)
    then show ?thesis using False uc by (simp add: color_bytes_def)
  next
    case True
    then have "pix (scroll v) x y = pix ?u x y" using f x y by (auto simp: painted_def)
    also have "\<dots> = pix v x (y + ?l)"
    proof -
      have "vmem ?u (pixel_addr v x y + i) = vmem v (pixel_addr v x (y + ?l) + i)" if "i < bytesPerPixel v" for i
      proof -
        have "x * bytesPerPixel v + bytesPerPixel v \<le> ?p"
        proof -
          have "(x + 1) * bytesPerPixel v \<le> scr_w v * bytesPerPixel v" using x by (intro mult_le_mono1) simp
          then show ?thesis using ok(1) by (simp add: mode_ok_def)
        qed
        moreover have "(y + 1) * ?p \<le> (?h - ?l) * ?p" using True by (intro mult_le_mono1) simp
        ultimately have "pixel_addr v x y + i < ?b + (?h - ?l) * ?p" using that by (simp add: pixel_addr_def)
        then show ?thesis by (simp add: m) (simp add: pixel_addr_def algebra_simps)
      qed
      then show ?thesis using uc by (simp add: pix_def)
    qed
    finally show ?thesis using True by simp
  qed
qed

subsection \<open>The cursor\<close>

text \<open>The cursor is on the screen, with room for the width of a character.\<close>

definition cursor_ok :: "video \<Rightarrow> bool" where
  "cursor_ok v \<longleftrightarrow> size_ok v \<and> unat (currentX v) + 8 * fsize v \<le> scr_w v \<and> unat (currentY v) < scr_h v"

text \<open>The screen has room for the largest font.\<close>

definition room_ok :: "video \<Rightarrow> bool" where
  "room_ok v \<longleftrightarrow> mode_ok v \<and> 40 \<le> scr_w v \<and> 80 \<le> scr_h v"

lemma room_cong: "vbe_mode w = vbe_mode v \<Longrightarrow> room_ok w = room_ok v"
  using mode_cong [of w v] by (simp add: room_ok_def)

lemma newLine_ok:
  assumes "room_ok v" "size_ok v" "unat (currentY v) < scr_h v"
  shows "drawn v (newLine v)" "cursor_ok (newLine v)" "defaultTextSize (newLine v) = defaultTextSize v" "currentX (newLine v) = 0"
    "unat (currentY (newLine v)) = (if unat (currentY v) + 16 * fsize v < scr_h v then unat (currentY v) + 16 * fsize v else scr_h v - 16 * fsize v)"
proof -
  let ?l = "16 * fsize v"
  let ?v1 = "v\<lparr>currentX := 0\<rparr>"
  have r: "mode_ok v" "?l \<le> scr_h v" "8 * fsize v \<le> scr_w v" using assms by (simp_all add: room_ok_def size_ok_def)
  note st = size_steps [OF assms(2)]
  have sum: "unat (currentY v + defaultTextSize v * FONT_HEIGHT) = unat (currentY v) + ?l"
    using assms(2,3) unat_u16_less [of "vm_height (vbe_mode v)"]
    by (subst unat_add_small) (auto simp: st size_ok_def)
  have c: "currentY v + defaultTextSize v * FONT_HEIGHT < ucast (vm_height (vbe_mode v)) \<longleftrightarrow> unat (currentY v) + ?l < scr_h v"
    by (simp add: word_less_nat_alt sum)
  have g: "drawn v (newLine v) \<and> defaultTextSize (newLine v) = defaultTextSize v \<and> currentX (newLine v) = 0 \<and>
      unat (currentY (newLine v)) = (if unat (currentY v) + ?l < scr_h v then unat (currentY v) + ?l else scr_h v - ?l)"
  proof (cases "unat (currentY v) + ?l < scr_h v")
    case True
    let ?v2 = "?v1\<lparr>currentY := currentY v + defaultTextSize v * FONT_HEIGHT\<rparr>"
    have m2: "mode_ok ?v2" using mode_cong [of ?v2 v] r(1) by simp
    have e: "newLine v = v_fillRectangle 0 (currentY ?v2) (ucast (vm_width (vbe_mode v))) (currentY ?v2 + defaultTextSize v * FONT_HEIGHT) bgColor ?v2"
      using True c by (simp add: newLine_def Let_def)
    note f = fill_painted [OF m2, of bgColor 0 "ucast (vm_width (vbe_mode v))" "currentY ?v2" "currentY ?v2 + defaultTextSize v * FONT_HEIGHT"]
    have n: "painted bgColor ({unat (0 :: u64)..<min (scr_w v) (scr_w ?v2)} \<times> {unat (currentY ?v2)..<min (unat (currentY ?v2 + defaultTextSize v * FONT_HEIGHT)) (scr_h ?v2)}) ?v2 (newLine v)"
      unfolding e using f by simp
    have "drawn v ?v2" by simp
    moreover have "drawn ?v2 (newLine v)" using n unfolding painted_def by blast
    ultimately have d: "drawn v (newLine v)" by (rule drawn_trans)
    have "currentX (newLine v) = currentX ?v2" "currentY (newLine v) = currentY ?v2" "defaultTextSize (newLine v) = defaultTextSize ?v2"
      using n unfolding painted_def by blast+
    then show ?thesis using d sum True by simp
  next
    case False
    have m1: "mode_ok ?v1" using mode_cong [of ?v1 v] r(1) by simp
    have s1: "size_ok ?v1" using assms(2) by (simp add: size_ok_def)
    note sc = scroll_rows(1-4) [OF m1 s1]
    have e: "newLine v = (scroll ?v1)\<lparr>currentY := ucast (vm_height (vbe_mode v)) - defaultTextSize v * FONT_HEIGHT\<rparr>"
      using False c by (simp add: newLine_def Let_def)
    have "defaultTextSize v * FONT_HEIGHT \<le> ucast (vm_height (vbe_mode v))" using r(2) st by (simp add: word_le_nat_alt)
    then have y: "unat (ucast (vm_height (vbe_mode v)) - defaultTextSize v * FONT_HEIGHT) = scr_h v - ?l" by (simp add: unat_sub st)
    have "drawn v (scroll ?v1)" by (rule drawn_trans [of v ?v1]) (use sc(1) r(2) in simp_all)
    then have "drawn v (newLine v)" unfolding e by simp
    then show ?thesis using sc r(2) False y unfolding e by simp
  qed
  then show "drawn v (newLine v)" "defaultTextSize (newLine v) = defaultTextSize v" "currentX (newLine v) = 0"
    "unat (currentY (newLine v)) = (if unat (currentY v) + ?l < scr_h v then unat (currentY v) + ?l else scr_h v - ?l)" by blast+
  have "vbe_mode (newLine v) = vbe_mode v" using g drawn_mode by blast
  then show "cursor_ok (newLine v)" using g r assms(2) by (auto simp: cursor_ok_def size_ok_def)
qed

end
