(* ===== verification/Video_Props.thy ===== *)
theory Video_Props
  imports Video_Lemmas
begin

text \<open>
  The properties of the screen: no operation writes outside the frame buffer and the cursor stays on
  the screen; what a printed character draws and where the cursor goes.
\<close>

subsection \<open>A character\<close>

text \<open>The pixels of a character of font size \<open>n\<close> at \<open>(x0, y0)\<close>: every bit of its bitmap is a square.\<close>

definition glyph :: "u8 \<Rightarrow> nat \<Rightarrow> nat \<Rightarrow> nat \<Rightarrow> (nat \<times> nat) set" where
  "glyph c n x0 y0 = {(x, y). x0 \<le> x \<and> x < x0 + 8 * n \<and> y0 \<le> y \<and> y < y0 + 16 * n \<and>
     bit (font ! unat c ! ((y - y0) div n)) (7 - (x - x0) div n)}"

lemma bit_test: "j < 8 \<Longrightarrow> push_bit j (ucast (line :: u8) :: u32) AND 0x80 \<noteq> 0 \<longleftrightarrow> bit line (7 - j)"
proof -
  assume "j < 8"
  have "push_bit j (ucast line :: u32) AND 2 ^ 7 = 0 \<longleftrightarrow> \<not> bit (push_bit j (ucast line :: u32)) 7"
    by (rule and_exp_eq_0_iff_not_bit)
  moreover have "7 - j < 32" by arith
  ultimately show ?thesis using \<open>j < 8\<close> by (simp add: bit_simps)
qed

lemma glyph_iff:
  assumes "0 < n"
  shows "(x, y) \<in> glyph c n x0 y0 \<longleftrightarrow> (\<exists>i<16. \<exists>j<8. \<exists>dy<n. \<exists>dx<n.
    x = x0 + j * n + dx \<and> y = y0 + i * n + dy \<and> bit (font ! unat c ! i) (7 - j))"
proof
  assume "\<exists>i<16. \<exists>j<8. \<exists>dy<n. \<exists>dx<n. x = x0 + j * n + dx \<and> y = y0 + i * n + dy \<and> bit (font ! unat c ! i) (7 - j)"
  then obtain i j dy dx where p: "i < 16" "j < 8" "bit (font ! unat c ! i) (7 - j)" "dy < n" "dx < n"
    "x = x0 + j * n + dx" "y = y0 + i * n + dy" by blast
  have "j * n + n \<le> 8 * n" "i * n + n \<le> 16 * n"
    using mult_le_mono1 [of "j + 1" 8 n] mult_le_mono1 [of "i + 1" 16 n] p(1,2) by simp_all
  then have "j * n + dx < 8 * n" "i * n + dy < 16 * n" using p(4,5) by linarith+
  then show "(x, y) \<in> glyph c n x0 y0" using p by (simp add: glyph_def)
next
  assume "(x, y) \<in> glyph c n x0 y0"
  then have p: "x0 \<le> x" "x < x0 + 8 * n" "y0 \<le> y" "y < y0 + 16 * n"
    "bit (font ! unat c ! ((y - y0) div n)) (7 - (x - x0) div n)" by (auto simp: glyph_def)
  have "(y - y0) div n < 16" "(x - x0) div n < 8" using p assms by (auto simp: less_mult_imp_div_less)
  moreover have "x = x0 + (x - x0) div n * n + (x - x0) mod n" "y = y0 + (y - y0) div n * n + (y - y0) mod n"
    using p(1,3) by (simp_all add: add.assoc)
  moreover have "(x - x0) mod n < n" "(y - y0) mod n < n" using assms by simp_all
  ultimately show "\<exists>i<16. \<exists>j<8. \<exists>dy<n. \<exists>dx<n. x = x0 + j * n + dx \<and> y = y0 + i * n + dy \<and> bit (font ! unat c ! i) (7 - j)"
    using p(5) by blast
qed

lemma draw_painted:
  assumes ok: "mode_ok v" and c: "c < 128" and n: "1 \<le> unat sz" "unat sz \<le> 5"
  shows "painted color (glyph c (unat sz) (unat x) (unat y) \<inter> {..<scr_w v} \<times> {..<scr_h v}) v (drawChar x y c color sz v)"
proof -
  let ?S = "{..<scr_w v} \<times> {..<scr_h v}" and ?n = "unat sz"
  let ?P = "\<lambda>i j dy dx. {(unat x + j * ?n + dx, unat y + i * ?n + dy)} \<inter> ?S"
  have pos: "unat (ucast (a :: u32) + of_nat k * sz + of_nat d :: u64) = unat a + k * ?n + d" if "k < 16" "d < ?n" for a k d
  proof -
    have a: "unat (ucast a :: u64) = unat a" "unat a < 2 ^ 32"
    proof -
      show l: "unat a < 2 ^ 32" using unsigned_less [of a] by simp
      then have "unat a < 2 ^ 64" by (rule less_trans) simp
      then show "unat (ucast a :: u64) = unat a" by (simp add: unsigned_ucast_eq take_bit_nat_eq_self)
    qed
    have "k * ?n \<le> 16 * 5" using that n(2) by (intro mult_le_mono) simp_all
    moreover have "unat (of_nat k :: u64) = k" "unat (of_nat d :: u64) = d" using that n(2) by (simp_all add: unat_of_nat)
    moreover from calculation have "unat (of_nat k * sz) = k * ?n" by (simp add: unat_word_ariths)
    ultimately show ?thesis using that n(2) a by (simp add: unat_add_small)
  qed
  have test: "push_bit j (ucast (font ! unat c ! i) :: u32) AND 0x80 \<noteq> 0 \<longleftrightarrow> bit (font ! unat c ! i) (7 - j)" if "j < 8" for i j
    using that by (rule bit_test)
  have mk: "mode_ok u" if "vbe_mode u = vbe_mode v" for u using mode_cong [OF that] ok by simp
  have px: "painted color (?P i j dy dx) u (putPixel color (ucast x + of_nat j * sz + of_nat dx) (ucast y + of_nat i * sz + of_nat dy) u)"
    if "vbe_mode u = vbe_mode v" "i < 16" "j < 8" "dy < ?n" "dx < ?n" for i j dy dx u
    using painted_putPixel [OF mk [OF that(1)], where x = "ucast x + of_nat j * sz + of_nat dx" and y = "ucast y + of_nat i * sz + of_nat dy" and c = color]
      pos [of j dx x] pos [of i dy y] that by simp
  have sq: "painted color (\<Union>dy\<in>set [0..<?n]. \<Union>dx\<in>set [0..<?n]. ?P i j dy dx) u
      (fold (\<lambda>dy. fold (\<lambda>dx. putPixel color (ucast x + of_nat j * sz + of_nat dx) (ucast y + of_nat i * sz + of_nat dy)) [0..<?n]) [0..<?n] u)"
    if u: "vbe_mode u = vbe_mode v" "i < 16" "j < 8" for i j u
    by (rule painted_fold [OF mk [OF u(1)]], rule painted_fold) (use u px mk in auto)
  let ?Q = "\<lambda>i j. if bit (font ! unat c ! i) (7 - j) then \<Union>dy\<in>set [0..<?n]. \<Union>dx\<in>set [0..<?n]. ?P i j dy dx else {}"
  let ?bits = "\<lambda>i j. if push_bit j (ucast (font ! unat c ! i) :: u32) AND 0x80 \<noteq> 0
      then fold (\<lambda>dy. fold (\<lambda>dx. putPixel color (ucast x + of_nat j * sz + of_nat dx) (ucast y + of_nat i * sz + of_nat dy)) [0..<?n]) [0..<?n]
      else id"
  have line: "painted color (\<Union>j\<in>set [0..<8]. ?Q i j) u (fold (?bits i) [0..<8] u)" if u: "vbe_mode u = vbe_mode v" "i < 16" for i u
  proof (rule painted_fold [OF mk [OF u(1)]])
    fix j and u' :: video assume j: "j \<in> set [0..<8]" "vbe_mode u' = vbe_mode u"
    have "vbe_mode u' = vbe_mode v" using j(2) u(1) by simp
    from sq [OF this u(2), of j] test [of j i] j(1) show "painted color (?Q i j) u' (?bits i j u')" by simp
  qed
  have "painted color (\<Union>i\<in>set [0..<16]. \<Union>j\<in>set [0..<8]. ?Q i j) v (fold (\<lambda>i. fold (?bits i) [0..<8]) [0..<16] v)"
    by (rule painted_fold [OF ok]) (use line in auto)
  moreover have "drawChar x y c color sz v = fold (\<lambda>i. fold (?bits i) [0..<8]) [0..<16] v"
    using c by (simp add: drawChar_def Let_def)
  moreover have "(\<Union>i\<in>set [0..<16]. \<Union>j\<in>set [0..<8]. ?Q i j) = glyph c ?n (unat x) (unat y) \<inter> ?S"
  proof (intro set_eqI)
    fix p :: "nat \<times> nat"
    obtain px py where p: "p = (px, py)" by force
    have "p \<in> (\<Union>i\<in>set [0..<16]. \<Union>j\<in>set [0..<8]. ?Q i j) \<longleftrightarrow> (\<exists>i<16. \<exists>j<8. bit (font ! unat c ! i) (7 - j) \<and>
        (\<exists>dy<?n. \<exists>dx<?n. p = (unat x + j * ?n + dx, unat y + i * ?n + dy) \<and> p \<in> ?S))"
      by (simp only: UN_iff set_upt atLeastLessThan_iff Bex_def if_split [of "\<lambda>A. p \<in> A"] Int_iff singleton_iff empty_iff)
         (simp, blast)
    also have "\<dots> \<longleftrightarrow> p \<in> glyph c ?n (unat x) (unat y) \<inter> ?S"
      using glyph_iff [of ?n px py c "unat x" "unat y"] n(1) by (auto simp: p)
    finally show "p \<in> (\<Union>i\<in>set [0..<16]. \<Union>j\<in>set [0..<8]. ?Q i j) \<longleftrightarrow> p \<in> glyph c ?n (unat x) (unat y) \<inter> ?S" .
  qed
  ultimately show ?thesis by simp
qed

subsection \<open>The cursor after each operation\<close>

lemma unat_cast32: "unat (a :: u64) < 2 ^ 32 \<Longrightarrow> unat (ucast a :: u32) = unat a"
  by (simp add: unsigned_ucast_eq take_bit_nat_eq_self)

lemma cursor_fits:
  assumes "size_ok v" "unat (currentX v) < 2 ^ 32" "unat (currentY v) < 2 ^ 32"
  shows "validPosition (currentX v + FONT_WIDTH * defaultTextSize v - 1) (currentY v + FONT_HEIGHT * defaultTextSize v - 1) v \<longleftrightarrow>
    unat (currentX v) + 8 * fsize v \<le> scr_w v \<and> unat (currentY v) + 16 * fsize v \<le> scr_h v"
proof -
  note st = size_steps [OF assms(1)]
  have n: "1 \<le> fsize v" "fsize v \<le> 5" using assms(1) by (simp_all add: size_ok_def)
  have x: "unat (currentX v + FONT_WIDTH * defaultTextSize v) = unat (currentX v) + 8 * fsize v"
    using n assms(2) by (simp add: unat_add_small st)
  have y: "unat (currentY v + FONT_HEIGHT * defaultTextSize v) = unat (currentY v) + 16 * fsize v"
    using n assms(3) by (simp add: unat_add_small st)
  have m: "unat (a - 1) = unat a - 1" if "0 < unat a" for a :: u64
  proof -
    have "1 \<le> a" using that by (simp add: word_le_nat_alt)
    then show ?thesis by (simp add: unat_sub)
  qed
  have "unat (currentX v + FONT_WIDTH * defaultTextSize v - 1) = unat (currentX v) + 8 * fsize v - 1"
    "unat (currentY v + FONT_HEIGHT * defaultTextSize v - 1) = unat (currentY v) + 16 * fsize v - 1"
    using n by (simp_all add: m x y)
  then show ?thesis unfolding valid_less using n by auto
qed

lemma cursor_small:
  assumes "cursor_ok v"
  shows "unat (currentX v) < 65536" "unat (currentY v) < 65536" "size_ok v" "1 \<le> fsize v" "fsize v \<le> 5"
  using assms unat_u16_less [of "vm_width (vbe_mode v)"] unat_u16_less [of "vm_height (vbe_mode v)"]
  by (auto simp: cursor_ok_def size_ok_def)

lemma update_ok:
  assumes "room_ok v" "size_ok v" "unat (currentX v) < 2 ^ 32" "unat (currentY v) < scr_h v"
  shows "drawn v (updateCursor v)" "cursor_ok (updateCursor v)" "defaultTextSize (updateCursor v) = defaultTextSize v"
proof -
  have "unat (currentY v) < 2 ^ 32" using assms(4) unat_u16_less [of "vm_height (vbe_mode v)"] by simp
  note f = cursor_fits [OF assms(2,3) this]
  note n = newLine_ok [OF assms(1,2,4)]
  show "drawn v (updateCursor v)" "cursor_ok (updateCursor v)" "defaultTextSize (updateCursor v) = defaultTextSize v"
    using n f assms(2,4) by (auto simp: updateCursor_def cursor_ok_def)
qed

lemma right_ok:
  assumes "room_ok v" "cursor_ok v"
  shows "drawn v (moveRight v)" "size_ok (moveRight v)" "unat (currentX (moveRight v)) < 2 ^ 32" "unat (currentY (moveRight v)) < scr_h v"
    "unat (currentX v) + 8 * fsize v < scr_w v \<longleftrightarrow> moveRight v = v\<lparr>currentX := currentX v + FONT_WIDTH * defaultTextSize v\<rparr>"
    "\<not> unat (currentX v) + 8 * fsize v < scr_w v \<Longrightarrow> moveRight v = newLine v"
    "unat (currentX v + FONT_WIDTH * defaultTextSize v) = unat (currentX v) + 8 * fsize v"
proof -
  note s = cursor_small [OF assms(2)] and st = size_steps [OF cursor_small(3) [OF assms(2)]]
  show x: "unat (currentX v + FONT_WIDTH * defaultTextSize v) = unat (currentX v) + 8 * fsize v"
    using s by (simp add: unat_add_small st)
  have c: "currentX v + FONT_WIDTH * defaultTextSize v < ucast (vm_width (vbe_mode v)) \<longleftrightarrow> unat (currentX v) + 8 * fsize v < scr_w v"
    by (simp add: word_less_nat_alt x)
  have y: "unat (currentY v) < scr_h v" using assms(2) by (simp add: cursor_ok_def)
  note n = newLine_ok [OF assms(1) s(3) y]
  have m: "scr_h (newLine v) = scr_h v" using drawn_mode [OF n(1)] by simp
  show "drawn v (moveRight v)" "size_ok (moveRight v)" "unat (currentX (moveRight v)) < 2 ^ 32" "unat (currentY (moveRight v)) < scr_h v"
    using c n s y x m by (auto simp: moveRight_def Let_def cursor_ok_def size_ok_def)
  show "\<not> unat (currentX v) + 8 * fsize v < scr_w v \<Longrightarrow> moveRight v = newLine v"
    using c by (simp add: moveRight_def Let_def)
  have "newLine v \<noteq> v\<lparr>currentX := currentX v + FONT_WIDTH * defaultTextSize v\<rparr>"
  proof
    assume e: "newLine v = v\<lparr>currentX := currentX v + FONT_WIDTH * defaultTextSize v\<rparr>"
    have "currentX (newLine v) = currentX v + FONT_WIDTH * defaultTextSize v" unfolding e by simp
    then have "unat (currentX v + FONT_WIDTH * defaultTextSize v) = 0" using n(4) by simp
    then show False using x s(4) by simp
  qed
  then show "unat (currentX v) + 8 * fsize v < scr_w v \<longleftrightarrow> moveRight v = v\<lparr>currentX := currentX v + FONT_WIDTH * defaultTextSize v\<rparr>"
    using c by (auto simp: moveRight_def Let_def)
qed

lemma draw_cursor:
  assumes "room_ok v" "cursor_ok v"
  shows "painted color (if c < 128 then glyph c (fsize v) (unat (currentX v)) (unat (currentY v)) \<inter> {..<scr_w v} \<times> {..<scr_h v} else {}) v
    (drawChar (ucast (currentX v)) (ucast (currentY v)) c color (defaultTextSize v) v)"
proof -
  note s = cursor_small [OF assms(2)]
  show ?thesis
  proof (cases "c < 128")
    case True
    have "mode_ok v" using assms(1) by (simp add: room_ok_def)
    from draw_painted [OF this True s(4,5), of color "ucast (currentX v)" "ucast (currentY v)"] s(1,2) True
    show ?thesis by (simp add: unat_cast32)
  next
    case False
    then have "drawChar (ucast (currentX v)) (ucast (currentY v)) c color (defaultTextSize v) v = v" by (simp add: drawChar_def)
    then show ?thesis unfolding if_not_P [OF False] by simp
  qed
qed

lemma painted_cursor:
  assumes "painted c P v w" "room_ok v" "cursor_ok v"
  shows "drawn v w" "room_ok w" "cursor_ok w" "currentX w = currentX v" "currentY w = currentY v" "defaultTextSize w = defaultTextSize v"
  using assms room_cong [OF painted_mode [OF assms(1)]] painted_mode [OF assms(1)]
  by (auto simp: painted_def cursor_ok_def size_ok_def)

lemma put_char_ok:
  assumes "room_ok v" "cursor_ok v"
  shows "drawn v (videoPutChar_fb c color v) \<and> cursor_ok (videoPutChar_fb c color v)"
proof -
  note s = cursor_small [OF assms(2)] and st = size_steps [OF cursor_small(3) [OF assms(2)]]
  have y: "unat (currentY v) < scr_h v" using assms(2) by (simp add: cursor_ok_def)
  consider (line) "c = 10 \<or> c = 13" | (erase) "c = 8" "FONT_WIDTH * defaultTextSize v \<le> currentX v"
    | (home) "c = 8" "\<not> FONT_WIDTH * defaultTextSize v \<le> currentX v" | (other) "c \<noteq> 10" "c \<noteq> 13" "c \<noteq> 8" by blast
  then show ?thesis
  proof cases
    case line
    then show ?thesis using newLine_ok [OF assms(1) s(3) y] by (auto simp: videoPutChar_fb_def)
  next
    case home
    then show ?thesis using assms by (simp add: videoPutChar_fb_def Let_def)
  next
    case erase
    let ?v1 = "v\<lparr>currentX := currentX v - FONT_WIDTH * defaultTextSize v\<rparr>"
    let ?f = "v_fillRectangle (currentX ?v1) (currentY ?v1) (currentX ?v1 + FONT_WIDTH * defaultTextSize v) (currentY ?v1 + FONT_HEIGHT * defaultTextSize v) bgColor ?v1"
    have e: "videoPutChar_fb c color v = updateCursor ?f" using erase by (simp add: videoPutChar_fb_def Let_def)
    have x: "unat (currentX ?v1) = unat (currentX v) - 8 * fsize v" using erase(2) by (simp add: unat_sub st)
    have r1: "room_ok ?v1" using room_cong [of ?v1 v] assms(1) by simp
    have "8 * fsize v \<le> unat (currentX v)" using erase(2) by (simp add: word_le_nat_alt st)
    then have c1: "cursor_ok ?v1" using assms(2) x unfolding cursor_ok_def size_ok_def by simp
    have "mode_ok ?v1" using r1 by (simp add: room_ok_def)
    note p = painted_cursor [OF fill_painted [OF this, of bgColor "currentX ?v1" "currentX ?v1 + FONT_WIDTH * defaultTextSize v"
          "currentY ?v1" "currentY ?v1 + FONT_HEIGHT * defaultTextSize v"] r1 c1]
    have "drawn v ?f" by (rule drawn_trans [of v ?v1]) (use p(1) in simp_all)
    moreover have "unat (currentX ?f) < 2 ^ 32" by (rule less_trans [OF cursor_small(1) [OF p(3)]]) simp
    then have "drawn ?f (updateCursor ?f) \<and> cursor_ok (updateCursor ?f)"
      using update_ok [OF p(2)] p(3) cursor_small(3) [OF p(3)] by (auto simp: cursor_ok_def)
    ultimately show ?thesis unfolding e using drawn_trans by blast
  next
    case other
    let ?d = "drawChar (ucast (currentX v)) (ucast (currentY v)) c color (defaultTextSize v) v"
    have e: "videoPutChar_fb c color v = updateCursor (moveRight ?d)" using other by (simp add: videoPutChar_fb_def)
    note p = painted_cursor [OF draw_cursor [OF assms, of color c] assms]
    note r = right_ok(1-4) [OF p(2,3)]
    have rm: "room_ok (moveRight ?d)" using room_cong [OF drawn_mode [OF r(1)]] p(2) by simp
    have "scr_h (moveRight ?d) = scr_h ?d" using drawn_mode [OF r(1)] by simp
    then have "unat (currentY (moveRight ?d)) < scr_h (moveRight ?d)" using r(4) by simp
    note u = update_ok [OF rm r(2,3) this]
    show ?thesis unfolding e using drawn_trans [OF drawn_trans [OF p(1) r(1)] u(1)] u(2) by blast
  qed
qed

subsection \<open>Sequences of operations\<close>

text \<open>What the system calls and the keyboard driver ask of the screen.\<close>

datatype screen_op = Put u8 u32 | Str string u32 | Pixel u32 u64 u64 | Rect u64 u64 u64 u64 u32 | Clear u32 | Bigger | Smaller

fun screen_do :: "screen_op \<Rightarrow> video \<Rightarrow> video" where
  "screen_do (Put c color) = videoPutChar_fb c color"
| "screen_do (Str s color) = videoPrint s color"
| "screen_do (Pixel color x y) = putPixel color x y"
| "screen_do (Rect x y w h color) = fillRect x y w h color"
| "screen_do (Clear color) = clearScreen color"
| "screen_do Bigger = increaseFontSize"
| "screen_do Smaller = decreaseFontSize"

definition screen_step_ok :: "video \<Rightarrow> video \<Rightarrow> bool" where
  "screen_step_ok v w \<longleftrightarrow> drawn v w \<and> cursor_ok w"

lemma step_fold:
  assumes "\<And>k u. k \<in> set ks \<Longrightarrow> room_ok u \<Longrightarrow> cursor_ok u \<Longrightarrow> screen_step_ok u (f k u)" "room_ok v" "cursor_ok v"
  shows "screen_step_ok v (fold f ks v)"
  using assms
proof (induction ks arbitrary: v)
  case Nil
  then show ?case by (simp add: screen_step_ok_def)
next
  case (Cons k ks)
  have 1: "screen_step_ok v (f k v)" using Cons.prems by simp
  then have "room_ok (f k v)" using Cons.prems(2) room_cong [OF drawn_mode, of v "f k v"] by (simp add: screen_step_ok_def)
  then have "screen_step_ok (f k v) (fold f ks (f k v))" using Cons 1 by (simp add: screen_step_ok_def)
  then show ?case using 1 drawn_trans [of v "f k v"] by (simp add: screen_step_ok_def)
qed

lemma painted_step: "painted c P v w \<Longrightarrow> room_ok v \<Longrightarrow> cursor_ok v \<Longrightarrow> screen_step_ok v w"
  using painted_cursor [of c P v w] by (simp add: screen_step_ok_def)

lemma rect_step: "room_ok v \<Longrightarrow> cursor_ok v \<Longrightarrow> screen_step_ok v (v_fillRectangle x0 y0 x1 y1 c v)"
  using painted_step [OF fill_painted] by (simp add: room_ok_def)

lemma size_step:
  assumes "room_ok v" "cursor_ok v" "1 \<le> unat n" "unat n \<le> 5"
  shows "screen_step_ok v (updateCursor (v\<lparr>defaultTextSize := n\<rparr>))"
proof -
  let ?w = "v\<lparr>defaultTextSize := n\<rparr>"
  have x: "unat (currentX ?w) < 2 ^ 32" using cursor_small(1) [OF assms(2)] by simp
  have "room_ok ?w" "size_ok ?w" "unat (currentY ?w) < scr_h ?w"
    using assms room_cong [of ?w v] by (simp_all add: size_ok_def cursor_ok_def)
  note u = update_ok [OF this(1,2) x this(3)]
  show ?thesis using u(2) drawn_trans [of v ?w, OF _ u(1)] by (simp add: screen_step_ok_def)
qed

lemma screen_step:
  assumes "room_ok v" "cursor_ok v"
  shows "screen_step_ok v (screen_do a v)"
proof (cases a)
  case (Put c color)
  then show ?thesis using put_char_ok [OF assms] by (simp add: screen_step_ok_def)
next
  case (Str s color)
  have "screen_step_ok v (fold (\<lambda>c. videoPutChar_fb (of_char c) color) (cstr s) v)"
    by (rule step_fold [OF _ assms]) (use put_char_ok in \<open>simp add: screen_step_ok_def\<close>)
  then show ?thesis using Str by (simp add: videoPrint_def)
next
  case (Pixel color x y)
  have "mode_ok v" using assms(1) by (simp add: room_ok_def)
  from painted_step [OF painted_putPixel [OF this] assms] show ?thesis using Pixel by simp
next
  case (Rect x y w h color)
  have "screen_step_ok v v" using assms(2) by (simp add: screen_step_ok_def)
  then show ?thesis using Rect rect_step [OF assms] by (simp add: fillRect_def)
next
  case (Clear color)
  let ?u = "drawFilledRect 0 0 (ucast (vm_width (vbe_mode v))) (ucast (vm_height (vbe_mode v))) color v"
  have "screen_step_ok v ?u" unfolding drawFilledRect_def by (rule rect_step [OF assms])
  then have d: "drawn v ?u" and c: "size_ok ?u" "1 \<le> fsize ?u" "fsize ?u \<le> 5"
    using cursor_small(3-5) [of ?u] by (simp_all add: screen_step_ok_def)
  have "drawn v (?u\<lparr>currentX := 0, currentY := 0\<rparr>)" using d by simp
  moreover have "cursor_ok (?u\<lparr>currentX := 0, currentY := 0\<rparr>)"
    using c assms(1) drawn_mode [OF d] by (simp add: cursor_ok_def size_ok_def room_ok_def)
  ultimately show ?thesis unfolding Clear by (simp add: clearScreen_def screen_step_ok_def)
next
  case Bigger
  note s = cursor_small [OF assms(2)]
  show ?thesis
  proof (cases "defaultTextSize v < MAX_FONT_SIZE")
    case True
    then have "unat (defaultTextSize v + 1) = fsize v + 1" "fsize v < 5" by (simp_all add: word_less_nat_alt unat_add_small)
    then show ?thesis using size_step [OF assms, of "defaultTextSize v + 1"] True Bigger by (simp add: increaseFontSize_def)
  next
    case False
    then show ?thesis using size_step [OF assms s(4,5)] Bigger by (simp add: increaseFontSize_def)
  qed
next
  case Smaller
  note s = cursor_small [OF assms(2)]
  show ?thesis
  proof (cases "defaultTextSize v > 1")
    case True
    then have "unat (defaultTextSize v - 1) = fsize v - 1" "1 < fsize v" by (simp_all add: word_less_nat_alt unat_sub word_le_nat_alt)
    then show ?thesis using size_step [OF assms, of "defaultTextSize v - 1"] s(5) True Smaller by (simp add: decreaseFontSize_def)
  next
    case False
    then show ?thesis using size_step [OF assms s(4,5)] Smaller by (simp add: decreaseFontSize_def)
  qed
qed

subsection \<open>What a new line does to the pixels\<close>

lemma pix_cursor [simp]:
  "pix (v\<lparr>currentX := a\<rparr>) = pix v" "pix (v\<lparr>currentY := a\<rparr>) = pix v"
  "color_bytes (v\<lparr>currentX := a\<rparr>) = color_bytes v" "color_bytes (v\<lparr>currentY := a\<rparr>) = color_bytes v"
  by (simp_all add: pix_def color_bytes_def pixel_addr_def bytesPerPixel_def pitch_def framebuffer_def fun_eq_iff)

lemma color_cong: "vbe_mode w = vbe_mode v \<Longrightarrow> color_bytes w = color_bytes v"
  by (simp add: color_bytes_def bytesPerPixel_def fun_eq_iff)

lemma newLine_pix:
  assumes "room_ok v" "size_ok v" "unat (currentY v) < scr_h v" "x < scr_w v" "y < scr_h v"
  shows "pix (newLine v) x y =
    (if unat (currentY v) + 16 * fsize v < scr_h v
     then if unat (currentY v) + 16 * fsize v \<le> y \<and> y < unat (currentY v) + 32 * fsize v then color_bytes v bgColor else pix v x y
     else if y + 16 * fsize v < scr_h v then pix v x (y + 16 * fsize v) else color_bytes v bgColor)"
proof -
  let ?l = "16 * fsize v"
  let ?v1 = "v\<lparr>currentX := 0\<rparr>"
  let ?s = "defaultTextSize v * FONT_HEIGHT"
  have r: "mode_ok v" "?l \<le> scr_h v" "fsize v \<le> 5" using assms(1,2) by (simp_all add: room_ok_def size_ok_def)
  have h: "scr_h v < 65536" by (rule unat_u16_less)
  note st = size_steps(1) [OF assms(2)]
  have sum: "unat (currentY v + ?s) = unat (currentY v) + ?l"
    using assms(3) h r(3) by (subst unat_add_small) (auto simp: st)
  have c: "currentY v + ?s < ucast (vm_height (vbe_mode v)) \<longleftrightarrow> unat (currentY v) + ?l < scr_h v"
    by (simp add: word_less_nat_alt sum)
  show ?thesis
  proof (cases "unat (currentY v) + ?l < scr_h v")
    case True
    let ?v2 = "?v1\<lparr>currentY := currentY v + ?s\<rparr>"
    have m2: "mode_ok ?v2" using mode_cong [of ?v2 v] r(1) by simp
    have e: "newLine v = v_fillRectangle 0 (currentY v + ?s) (ucast (vm_width (vbe_mode v))) (currentY v + ?s + ?s) bgColor ?v2"
      using True c by (simp add: newLine_def Let_def)
    have s2: "unat (currentY v + ?s + ?s) = unat (currentY v) + ?l + ?l"
      using sum True h r(3) by (subst unat_add_small) (simp_all add: st)
    have "painted bgColor ({unat (0 :: u64)..<min (scr_w v) (scr_w ?v2)} \<times> {unat (currentY v + ?s)..<min (unat (currentY v + ?s + ?s)) (scr_h ?v2)}) ?v2 (newLine v)"
      unfolding e using fill_painted [OF m2, of bgColor 0 "ucast (vm_width (vbe_mode v))" "currentY v + ?s" "currentY v + ?s + ?s"] by simp
    then show ?thesis using assms(4,5) True unfolding painted_def sum s2 by simp
  next
    case False
    have m1: "mode_ok ?v1" using mode_cong [of ?v1 v] r(1) by simp
    have s1: "size_ok ?v1" using assms(2) by (simp add: size_ok_def)
    have e: "newLine v = (scroll ?v1)\<lparr>currentY := ucast (vm_height (vbe_mode v)) - ?s\<rparr>"
      using False c by (simp add: newLine_def Let_def)
    show ?thesis unfolding e using scroll_rows(5) [OF m1 s1, of x y] r(2) assms(4,5) False by simp
  qed
qed

text \<open>A printable character, by the place of the cursor.\<close>

lemma put_printable:
  assumes "room_ok v" "cursor_ok v" "c < 128" "c \<noteq> 8" "c \<noteq> 10" "c \<noteq> 13"
  obtains d where
    "painted color (glyph c (fsize v) (unat (currentX v)) (unat (currentY v)) \<inter> {..<scr_w v} \<times> {..<scr_h v}) v d"
    "unat (currentX v) + 16 * fsize v \<le> scr_w v \<Longrightarrow> unat (currentY v) + 16 * fsize v \<le> scr_h v \<Longrightarrow>
       videoPutChar_fb c color v = d\<lparr>currentX := currentX v + FONT_WIDTH * defaultTextSize v\<rparr>"
    "\<not> (unat (currentX v) + 16 * fsize v \<le> scr_w v \<and> unat (currentY v) + 16 * fsize v \<le> scr_h v) \<Longrightarrow>
       unat (currentX v) + 8 * fsize v < scr_w v \<or> scr_h v \<le> unat (currentY v) + 16 * fsize v \<or> unat (currentY v) + 32 * fsize v \<le> scr_h v \<Longrightarrow>
       \<exists>d'. (d' = d \<or> d' = d\<lparr>currentX := currentX v + FONT_WIDTH * defaultTextSize v\<rparr>) \<and> videoPutChar_fb c color v = newLine d'"
    "scr_w v \<le> unat (currentX v) + 8 * fsize v \<Longrightarrow> unat (currentY v) + 16 * fsize v < scr_h v \<Longrightarrow> scr_h v < unat (currentY v) + 32 * fsize v \<Longrightarrow>
       videoPutChar_fb c color v = newLine (newLine d)"
proof
  let ?d = "drawChar (ucast (currentX v)) (ucast (currentY v)) c color (defaultTextSize v) v"
  let ?r = "?d\<lparr>currentX := currentX v + FONT_WIDTH * defaultTextSize v\<rparr>"
  show pd: "painted color (glyph c (fsize v) (unat (currentX v)) (unat (currentY v)) \<inter> {..<scr_w v} \<times> {..<scr_h v}) v ?d"
    using draw_cursor [OF assms(1,2), of color c] assms(3) by simp
  note p = painted_cursor [OF pd assms(1,2)] and m = painted_mode [OF pd]
  note R = right_ok(5-7) [OF p(2,3)] and s = cursor_small [OF p(3)]
  have e: "videoPutChar_fb c color v = updateCursor (moveRight ?d)" using assms(4-6) by (simp add: videoPutChar_fb_def)
  have sr: "size_ok ?r" "unat (currentX ?r) = unat (currentX v) + 8 * fsize v" "currentY ?r = currentY v"
    using s(3) R(3) p by (simp_all add: size_ok_def)
  have sm: "unat (currentX v) < 65536" "unat (currentY v) < 65536" "fsize v \<le> 5" "1 \<le> fsize v" using cursor_small [OF assms(2)] by simp_all
  have "validPosition (currentX ?r + FONT_WIDTH * defaultTextSize ?r - 1) (currentY ?r + FONT_HEIGHT * defaultTextSize ?r - 1) ?r \<longleftrightarrow>
    unat (currentX ?r) + 8 * fsize ?r \<le> scr_w ?r \<and> unat (currentY ?r) + 16 * fsize ?r \<le> scr_h ?r"
    using cursor_fits [OF sr(1)] sr(2,3) sm by simp
  then have f: "updateCursor ?r = (if unat (currentX v) + 16 * fsize v \<le> scr_w v \<and> unat (currentY v) + 16 * fsize v \<le> scr_h v then ?r else newLine ?r)"
    using sr(2,3) p m by (simp add: updateCursor_def)
  have right: "moveRight ?d = ?r" if "unat (currentX v) + 8 * fsize v < scr_w v" using R(1) p(4-6) m that by simp
  have wrap: "moveRight ?d = newLine ?d" if "scr_w v \<le> unat (currentX v) + 8 * fsize v" using R(2) p(4-6) m that by simp
  have y: "unat (currentY ?d) < scr_h ?d" using p(3) by (simp add: cursor_ok_def)
  note n = newLine_ok [OF p(2) s(3) y]
  have mm: "vbe_mode (newLine ?d) = vbe_mode v" using drawn_mode [OF n(1)] m by simp
  have u: "updateCursor (newLine ?d) = (if unat (currentY (newLine ?d)) + 16 * fsize v \<le> scr_h v then newLine ?d else newLine (newLine ?d))"
    using cursor_fits [of "newLine ?d"] n(2) cursor_small [OF n(2)] mm n(3) p(6) by (simp add: updateCursor_def cursor_ok_def)
  have ny: "unat (currentY (newLine ?d)) =
      (if unat (currentY v) + 16 * fsize v < scr_h v then unat (currentY v) + 16 * fsize v else scr_h v - 16 * fsize v)"
    using n(5) p m by simp
  have room: "16 * fsize v \<le> scr_h v" using assms(1) sm(3) by (simp add: room_ok_def)
  show "videoPutChar_fb c color v = ?r" if "unat (currentX v) + 16 * fsize v \<le> scr_w v" "unat (currentY v) + 16 * fsize v \<le> scr_h v"
    using e f right that sm(4) by simp
  show "\<exists>d'. (d' = ?d \<or> d' = ?r) \<and> videoPutChar_fb c color v = newLine d'"
    if l: "\<not> (unat (currentX v) + 16 * fsize v \<le> scr_w v \<and> unat (currentY v) + 16 * fsize v \<le> scr_h v)"
      "unat (currentX v) + 8 * fsize v < scr_w v \<or> scr_h v \<le> unat (currentY v) + 16 * fsize v \<or> unat (currentY v) + 32 * fsize v \<le> scr_h v"
  proof (cases "unat (currentX v) + 8 * fsize v < scr_w v")
    case True
    then show ?thesis using e f l(1) right by auto
  next
    case False
    then have "unat (currentY (newLine ?d)) + 16 * fsize v \<le> scr_h v" using l(2) ny room by auto
    then show ?thesis using e u wrap False by auto
  qed
  show "videoPutChar_fb c color v = newLine (newLine ?d)"
    if "scr_w v \<le> unat (currentX v) + 8 * fsize v" "unat (currentY v) + 16 * fsize v < scr_h v" "scr_h v < unat (currentY v) + 32 * fsize v"
    using e u wrap that ny by simp
qed

subsection \<open>The screen is safe\<close>

lemma screen_run: "room_ok v \<Longrightarrow> cursor_ok v \<Longrightarrow> screen_step_ok v (fold screen_do ops v)"
  by (rule step_fold [OF screen_step])

text \<open>C31: In a mode whose rows fit the pitch and that has room for the largest font, any sequence of operations on the screen
  (characters, strings, pixels, rectangles of any size and place, clearing, larger and smaller fonts) changes no byte outside
  the frame buffer, and leaves a font size between 1 and 5 and the cursor on the screen, with
  room for a character up to the right edge.\<close>

theorem screen_safe:
  assumes "scr_w v * bytesPerPixel v \<le> pitch v" "40 \<le> scr_w v" "80 \<le> scr_h v"
    and "1 \<le> fsize v" "fsize v \<le> 5" "unat (currentX v) + 8 * fsize v \<le> scr_w v" "unat (currentY v) < scr_h v"
  shows "(\<forall>a. \<not> (framebuffer v \<le> a \<and> a < framebuffer v + pitch v * scr_h v) \<longrightarrow> vmem (fold screen_do ops v) a = vmem v a) \<and>
    vbe_mode (fold screen_do ops v) = vbe_mode v \<and> fsize (fold screen_do ops v) \<in> {1..5} \<and>
    unat (currentX (fold screen_do ops v)) + 8 * fsize (fold screen_do ops v) \<le> scr_w v \<and> unat (currentY (fold screen_do ops v)) < scr_h v"
proof -
  have "room_ok v" "cursor_ok v" using assms by (simp_all add: room_ok_def mode_ok_def cursor_ok_def size_ok_def)
  then have "drawn v (fold screen_do ops v)" "cursor_ok (fold screen_do ops v)"
    using screen_run [of v ops] unfolding screen_step_ok_def by blast+
  then show ?thesis unfolding drawn_def cursor_ok_def size_ok_def
    by (metis atLeastAtMost_iff linorder_not_le)
qed

text \<open>The mode that the boot loader sets, 1024 by 768 pixels of 24 bits, at the start.\<close>

definition boot_video :: video where
  "boot_video = \<lparr>vbe_mode = \<lparr>vm_pitch = 3072, vm_width = 1024, vm_height = 768, vm_bpp = 24, vm_framebuffer = 0xFD000000\<rparr>,
     currentX = 0, currentY = 0, defaultTextSize = 1, vmem = (\<lambda>_. CHR 0x00)\<rparr>"

lemma screen_safe_witness:
  "vmem (fold screen_do [Put 65 0xFFFFFF, Rect 1000 700 500 500 0xFF, Bigger, Str ''text'' 1, Pixel 3 5000 2] boot_video) 0xFCFFFFFF = CHR 0x00"
proof -
  define ops where "ops = [Put 65 0xFFFFFF, Rect 1000 700 500 500 0xFF, Bigger, Str ''text'' 1, Pixel 3 5000 2]"
  have "vmem (fold screen_do ops boot_video) 0xFCFFFFFF = vmem boot_video 0xFCFFFFFF"
    using screen_safe [of boot_video ops] by (simp add: boot_video_def bytesPerPixel_def pitch_def framebuffer_def)
  then show ?thesis unfolding ops_def by (simp add: boot_video_def)
qed

text \<open>C32: An ASCII character other than backspace, newline and carriage return, at every place where the operations of the screen leave the
  cursor (\<open>cursor_ok\<close>), in a mode with room for the largest font (\<open>room_ok\<close>); \<open>n\<close> is the font size, a cell \<open>8 n\<close> by \<open>16 n\<close> pixels. Its bitmap
  is drawn scaled by \<open>n\<close>: exactly the pixels of the glyph that are on the screen take the colour. Then, in four cases that
  exclude each other and leave none out: where this cell and the next one are on the screen the cursor
  moves one cell to the right and no other pixel changes; at the end of a line the cursor goes to the start of the
  next one, which is cleared; at the end of the last line, and anywhere on a line that the bottom of the screen cuts, everything moves up by
  one line and the last line is cleared; at the end of the last whole line above a cut one, when the cell ends at the right edge, both
  happen: everything moves up by one line, and the rows from the one where the character was drawn on are clear.\<close>

theorem screen_put_char:
  fixes color :: u32 and v :: video and c :: u8
  assumes v: "room_ok v" "cursor_ok v" and c: "c < 128" "c \<noteq> 8" "c \<noteq> 10" "c \<noteq> 13"
  defines "n \<equiv> fsize v" and "w \<equiv> videoPutChar_fb c color v"
    and "old \<equiv> \<lambda>x y. if (x, y) \<in> glyph c (fsize v) (unat (currentX v)) (unat (currentY v)) then color_bytes v color else pix v x y"
  shows "(unat (currentX v) + 16 * n \<le> scr_w v \<longrightarrow> unat (currentY v) + 16 * n \<le> scr_h v \<longrightarrow>
        unat (currentX w) = unat (currentX v) + 8 * n \<and> currentY w = currentY v \<and>
        (\<forall>x < scr_w v. \<forall>y < scr_h v. pix w x y = old x y)) \<and>
    (scr_w v < unat (currentX v) + 16 * n \<longrightarrow>
        unat (currentY v) + 32 * n \<le> scr_h v \<or> unat (currentY v) + 16 * n < scr_h v \<and> unat (currentX v) + 8 * n < scr_w v \<longrightarrow>
        currentX w = 0 \<and> unat (currentY w) = unat (currentY v) + 16 * n \<and>
        (\<forall>x < scr_w v. \<forall>y < scr_h v. pix w x y =
          (if unat (currentY v) + 16 * n \<le> y \<and> y < unat (currentY v) + 32 * n then color_bytes v 0 else old x y))) \<and>
    (scr_w v < unat (currentX v) + 16 * n \<and> unat (currentY v) + 16 * n = scr_h v \<or> scr_h v < unat (currentY v) + 16 * n \<longrightarrow>
        currentX w = 0 \<and> unat (currentY w) = scr_h v - 16 * n \<and>
        (\<forall>x < scr_w v. \<forall>y < scr_h v. pix w x y = (if y + 16 * n < scr_h v then old x (y + 16 * n) else color_bytes v 0))) \<and>
    (scr_w v \<le> unat (currentX v) + 8 * n \<longrightarrow> unat (currentY v) + 16 * n < scr_h v \<longrightarrow> scr_h v < unat (currentY v) + 32 * n \<longrightarrow>
        currentX w = 0 \<and> unat (currentY w) = scr_h v - 16 * n \<and>
        (\<forall>x < scr_w v. \<forall>y < scr_h v. pix w x y = (if y < unat (currentY v) then old x (y + 16 * n) else color_bytes v 0)))"
proof -
  obtain d where pd: "painted color (glyph c n (unat (currentX v)) (unat (currentY v)) \<inter> {..<scr_w v} \<times> {..<scr_h v}) v d"
    and in_line: "unat (currentX v) + 16 * n \<le> scr_w v \<Longrightarrow> unat (currentY v) + 16 * n \<le> scr_h v \<Longrightarrow>
       w = d\<lparr>currentX := currentX v + FONT_WIDTH * defaultTextSize v\<rparr>"
    and at_end: "\<not> (unat (currentX v) + 16 * n \<le> scr_w v \<and> unat (currentY v) + 16 * n \<le> scr_h v) \<Longrightarrow>
       unat (currentX v) + 8 * n < scr_w v \<or> scr_h v \<le> unat (currentY v) + 16 * n \<or> unat (currentY v) + 32 * n \<le> scr_h v \<Longrightarrow>
       \<exists>d'. (d' = d \<or> d' = d\<lparr>currentX := currentX v + FONT_WIDTH * defaultTextSize v\<rparr>) \<and> w = newLine d'"
    and twice: "scr_w v \<le> unat (currentX v) + 8 * n \<Longrightarrow> unat (currentY v) + 16 * n < scr_h v \<Longrightarrow> scr_h v < unat (currentY v) + 32 * n \<Longrightarrow>
       w = newLine (newLine d)"
    using put_printable [OF v c, of color] unfolding n_def w_def by blast
  note p = painted_cursor [OF pd v] and m = painted_mode [OF pd]
  have old: "pix d x y = old x y" if "x < scr_w v" "y < scr_h v" for x y
    using pd that unfolding painted_def old_def n_def by simp
  have n0: "0 < n" using cursor_small(4) [OF v(2)] by (simp add: n_def)
  have new: "room_ok d'" "size_ok d'" "unat (currentY d') < scr_h d'" "scr_w d' = scr_w v" "scr_h d' = scr_h v"
      "fsize d' = n" "currentY d' = currentY v" "pix d' = pix d" "color_bytes d' = color_bytes v"
    if "d' = d \<or> d' = d\<lparr>currentX := currentX v + FONT_WIDTH * defaultTextSize v\<rparr>" for d'
    using that p m room_cong [of d' d] color_cong [of d v] cursor_small(3) [OF p(3)]
    by (auto simp: n_def size_ok_def cursor_ok_def)
  have ending: "currentX w = 0 \<and>
      unat (currentY w) = (if unat (currentY v) + 16 * n < scr_h v then unat (currentY v) + 16 * n else scr_h v - 16 * n) \<and>
      (\<forall>x < scr_w v. \<forall>y < scr_h v. pix w x y =
        (if unat (currentY v) + 16 * n < scr_h v
         then if unat (currentY v) + 16 * n \<le> y \<and> y < unat (currentY v) + 32 * n then color_bytes v 0 else old x y
         else if y + 16 * n < scr_h v then old x (y + 16 * n) else color_bytes v 0))"
    if l: "\<not> (unat (currentX v) + 16 * n \<le> scr_w v \<and> unat (currentY v) + 16 * n \<le> scr_h v)"
      "unat (currentX v) + 8 * n < scr_w v \<or> scr_h v \<le> unat (currentY v) + 16 * n \<or> unat (currentY v) + 32 * n \<le> scr_h v"
  proof -
    obtain d' where d': "d' = d \<or> d' = d\<lparr>currentX := currentX v + FONT_WIDTH * defaultTextSize v\<rparr>" and w: "w = newLine d'"
      using at_end [OF l] by blast
    note k = new [OF d']
    show ?thesis unfolding w using newLine_ok(4,5) [OF k(1-3)] newLine_pix [OF k(1-3)] old k by simp
  qed
  have both: "currentX w = 0 \<and> unat (currentY w) = scr_h v - 16 * n \<and>
      (\<forall>x < scr_w v. \<forall>y < scr_h v. pix w x y = (if y < unat (currentY v) then old x (y + 16 * n) else color_bytes v 0))"
    if l: "scr_w v \<le> unat (currentX v) + 8 * n" "unat (currentY v) + 16 * n < scr_h v" "scr_h v < unat (currentY v) + 32 * n"
  proof -
    note k = new [of d, simplified]
    note q = newLine_ok [OF k(1-3)]
    have m1: "vbe_mode (newLine d) = vbe_mode d" using drawn_mode [OF q(1)] .
    have k1: "room_ok (newLine d)" "size_ok (newLine d)" "unat (currentY (newLine d)) < scr_h (newLine d)"
      "scr_w (newLine d) = scr_w v" "scr_h (newLine d) = scr_h v" "fsize (newLine d) = n" "unat (currentY (newLine d)) = unat (currentY v) + 16 * n"
      "color_bytes (newLine d) = color_bytes v"
      using q room_cong [OF m1] color_cong [OF m1] m1 k l(2) cursor_small(3) [OF q(2)] by simp_all
    show ?thesis unfolding twice [OF l]
      using newLine_ok(4,5) [OF k1(1-3)] newLine_pix [OF k1(1-3)] newLine_pix [OF k(1-3)] old k k1(4-8) l by auto
  qed
  have "pix w x y = old x y" if "unat (currentX v) + 16 * n \<le> scr_w v" "unat (currentY v) + 16 * n \<le> scr_h v" "x < scr_w v" "y < scr_h v" for x y
    using in_line [OF that(1,2)] old that by simp
  moreover have "unat (currentX w) = unat (currentX v) + 8 * n \<and> currentY w = currentY v"
    if "unat (currentX v) + 16 * n \<le> scr_w v" "unat (currentY v) + 16 * n \<le> scr_h v"
    using in_line [OF that] right_ok(7) [OF v] p by (simp add: n_def)
  ultimately show ?thesis using ending both n0 by simp
qed

lemma screen_put_char_witness:
  "unat (currentX (videoPutChar_fb 65 0xFFFFFF boot_video)) = 8 \<and>
   pix (videoPutChar_fb 65 0xFFFFFF boot_video) 3 2 = color_bytes boot_video 0xFFFFFF \<and>
   pix (videoPutChar_fb 65 0xFFFFFF boot_video) 3 1 = pix boot_video 3 1"
proof -
  have v: "room_ok boot_video" "cursor_ok boot_video" "scr_w boot_video = 1024" "scr_h boot_video = 768"
      "fsize boot_video = 1" "unat (currentX boot_video) = 0" "unat (currentY boot_video) = 0"
    by (simp_all add: boot_video_def room_ok_def mode_ok_def cursor_ok_def size_ok_def bytesPerPixel_def pitch_def)
  have g: "(3, 2) \<in> glyph 65 1 0 0" "(3, 1) \<notin> glyph 65 1 0 0" by (simp_all add: glyph_def font_def bit_simps)
  show ?thesis using screen_put_char [of boot_video 65 "0xFFFFFF"] g by (simp add: v)
qed

subsection \<open>Erasing\<close>

text \<open>A character printed inside a line, and erased: the cell is background.\<close>

theorem screen_erase:
  fixes color color' :: u32 and v :: video and c :: u8
  assumes v: "room_ok v" "cursor_ok v" and c: "c < 128" "c \<noteq> 8" "c \<noteq> 10" "c \<noteq> 13"
    and room: "unat (currentX v) + 16 * fsize v \<le> scr_w v" "unat (currentY v) + 16 * fsize v \<le> scr_h v"
  defines "w \<equiv> videoPutChar_fb 8 color' (videoPutChar_fb c color v)"
  shows "currentX w = currentX v \<and> currentY w = currentY v \<and>
    (\<forall>x < scr_w v. \<forall>y < scr_h v. pix w x y =
      (if unat (currentX v) \<le> x \<and> x < unat (currentX v) + 8 * fsize v \<and> unat (currentY v) \<le> y \<and> y < unat (currentY v) + 16 * fsize v
       then color_bytes v 0 else pix v x y))"
proof -
  obtain d where pd: "painted color (glyph c (fsize v) (unat (currentX v)) (unat (currentY v)) \<inter> {..<scr_w v} \<times> {..<scr_h v}) v d"
    and u: "videoPutChar_fb c color v = d\<lparr>currentX := currentX v + FONT_WIDTH * defaultTextSize v\<rparr>"
    using put_printable [OF v c, of color] room by blast
  note p = painted_cursor [OF pd v] and m = painted_mode [OF pd]
  let ?d1 = "d\<lparr>currentX := currentX v\<rparr>"
  let ?f = "v_fillRectangle (currentX v) (currentY v) (currentX v + FONT_WIDTH * defaultTextSize v) (currentY v + FONT_HEIGHT * defaultTextSize v) bgColor ?d1"
  note s = cursor_small [OF v(2)] and st = size_steps [OF cursor_small(3) [OF v(2)]]
  have sums: "unat (currentX v + FONT_WIDTH * defaultTextSize v) = unat (currentX v) + 8 * fsize v"
    "unat (currentY v + FONT_HEIGHT * defaultTextSize v) = unat (currentY v) + 16 * fsize v"
    using s by (simp_all add: unat_add_small st)
  have "FONT_WIDTH * defaultTextSize v \<le> currentX v + FONT_WIDTH * defaultTextSize v"
    using sums(1) by (simp add: word_le_nat_alt st)
  then have w: "w = updateCursor ?f" unfolding w_def u by (simp add: videoPutChar_fb_def Let_def p)
  have d1: "mode_ok ?d1" "vbe_mode ?d1 = vbe_mode v" using p(2) m mode_cong [of ?d1 d] by (simp_all add: room_ok_def)
  define f where "f = ?f"
  have pf: "painted bgColor ({unat (currentX v)..<min (unat (currentX v) + 8 * fsize v) (scr_w v)} \<times>
      {unat (currentY v)..<min (unat (currentY v) + 16 * fsize v) (scr_h v)}) ?d1 f"
    using fill_painted [OF d1(1), of bgColor "currentX v" "currentX v + FONT_WIDTH * defaultTextSize v" "currentY v" "currentY v + FONT_HEIGHT * defaultTextSize v"]
    unfolding f_def sums d1(2) .
  have cf: "currentX f = currentX v" "currentY f = currentY v" "defaultTextSize f = defaultTextSize v" "vbe_mode f = vbe_mode v"
    using pf p painted_mode [OF pf] d1(2) by (simp_all add: painted_def)
  have "updateCursor f = f"
    using cursor_fits [of f] cf s(1-3) room by (simp add: updateCursor_def size_ok_def)
  then have wf: "w = f" using w f_def by simp
  have "pix f x y =
      (if unat (currentX v) \<le> x \<and> x < unat (currentX v) + 8 * fsize v \<and> unat (currentY v) \<le> y \<and> y < unat (currentY v) + 16 * fsize v
       then color_bytes v 0 else pix v x y)" if "x < scr_w v" "y < scr_h v" for x y
  proof -
    have "pix d x y = pix v x y" if "(x, y) \<notin> glyph c (fsize v) (unat (currentX v)) (unat (currentY v))"
      using pd that \<open>x < scr_w v\<close> \<open>y < scr_h v\<close> by (simp add: painted_def)
    then show ?thesis using pf that m color_cong [of d v] by (auto simp: painted_def glyph_def)
  qed
  then show ?thesis unfolding wf using cf by simp
qed

text \<open>At font size 5 the line below the ninth is cut off by the bottom of the screen: 768 rows are not a multiple of 80,
  and \<open>newLine\<close> scrolls only when the next line starts below the screen.\<close>

lemma newline_cut_line:
  assumes "v = boot_video\<lparr>currentY := 640, defaultTextSize := 5\<rparr>"
  shows "unat (currentY (newLine v)) = 720 \<and> scr_h v = 768 \<and> fsize (newLine v) = 5 \<and>
    \<not> unat (currentY (newLine v)) + 16 * fsize (newLine v) \<le> scr_h v"
proof -
  have "room_ok v" "size_ok v" "unat (currentY v) = 640" "scr_h v = 768" "fsize v = 5"
    by (simp_all add: assms boot_video_def room_ok_def mode_ok_def size_ok_def bytesPerPixel_def pitch_def)
  then show ?thesis using newLine_ok(3,5) [of v] by simp
qed

lemma screen_erase_witness:
  "currentX (videoPutChar_fb 8 0 (videoPutChar_fb 65 0xFFFFFF boot_video)) = 0 \<and>
   pix (videoPutChar_fb 8 0 (videoPutChar_fb 65 0xFFFFFF boot_video)) 3 2 = pix boot_video 3 2"
proof -
  have v: "room_ok boot_video" "cursor_ok boot_video" "scr_w boot_video = 1024" "scr_h boot_video = 768"
      "fsize boot_video = 1" "currentX boot_video = 0" "currentY boot_video = 0"
    by (simp_all add: boot_video_def room_ok_def mode_ok_def cursor_ok_def size_ok_def bytesPerPixel_def pitch_def)
  have "pix boot_video 3 2 = color_bytes boot_video 0"
    by (simp add: pix_def color_bytes_def color_byte_def boot_video_def bytesPerPixel_def char_of_def)
  then show ?thesis using screen_erase [of boot_video 65 0 "0xFFFFFF"] by (simp add: v)
qed

end
