(* ===== verification/Mvar.thy ===== *)
theory Mvar
  imports Shell_Exec
begin

text \<open>
  The MVars of the user space, \<open>Userland/c/commands/mvar.c\<close>: a table of one-place buffers that all
  processes share, each guarded by two semaphores of the kernel, and the commands that start writers
  and readers. A call of \<open>sem_wait\<close> may block the process, which goes on after it when it is woken;
  so \<open>user_mvar_put\<close> and \<open>user_mvar_take\<close> are two functions each, up to and including the wait and from
  there on. \<open>satoi\<close> is that of \<open>tests/test_util.c\<close>; the random waiting of the loops has no
  effect on the state and is left out.
\<close>

abbreviation (input) MAX_USER_MVARS :: nat where "MAX_USER_MVARS \<equiv> 16"
abbreviation (input) UMVAR_NAME_LEN :: nat where "UMVAR_NAME_LEN \<equiv> 28"

record user_mvar =
  um_name :: string
  um_value :: char
  um_in_use :: bool

record msys = ksys +
  umvar_table :: "user_mvar list"
  umvar_reclaim :: nat

definition um_at :: "'a msys_scheme \<Rightarrow> nat \<Rightarrow> user_mvar" where
  "um_at s m = umvar_table s ! m"

definition upd_um :: "nat \<Rightarrow> (user_mvar \<Rightarrow> user_mvar) \<Rightarrow> 'a msys_scheme \<Rightarrow> 'a msys_scheme" where
  "upd_um m f s = s\<lparr>umvar_table := modify m f (umvar_table s)\<rparr>"

subsection \<open>The calls of the library\<close>

definition my_sem_open :: "string \<Rightarrow> u64 \<Rightarrow> 'a semsys_scheme \<Rightarrow> int \<times> 'a semsys_scheme" where
  "my_sem_open name v s = sys_sem_open (Some name) v s"

definition my_sem_wait :: "string \<Rightarrow> 'a semsys_scheme \<Rightarrow> (int \<times> 'a semsys_scheme) option" where
  "my_sem_wait name s = sys_sem_wait (Some name) s"

definition my_sem_post :: "string \<Rightarrow> 'a semsys_scheme \<Rightarrow> (int \<times> 'a semsys_scheme) option" where
  "my_sem_post name s = sys_sem_post (Some name) s"

definition my_sem_close :: "string \<Rightarrow> 'a semsys_scheme \<Rightarrow> int \<times> 'a semsys_scheme" where
  "my_sem_close name s = sys_sem_close (Some name) s"

definition my_create_process ::
  "(nat \<Rightarrow> u64) \<Rightarrow> string \<Rightarrow> string list \<Rightarrow> 'a ksys_scheme \<Rightarrow> (int \<times> 'a ksys_scheme) option" where
  "my_create_process fn name argv s = my_create_process_fg fn name argv 0 s"

text \<open>The sum of \<open>satoi\<close>; a \<open>char\<close> that is no digit ends it with 0.\<close>

function satoi_loop :: "string \<Rightarrow> nat \<Rightarrow> u64 \<Rightarrow> u64 option" where
  "satoi_loop str i res =
     (if cget str i = NUL then Some res
      else if of_char (cget str i) < (48 :: nat) \<or> of_char (cget str i) > (57 :: nat) then None
      else satoi_loop str (Suc i) (res * 10 + of_char (cget str i) - 48))"
  by pat_completeness auto
termination
  by (relation "measure (\<lambda>(str, i, res). length str - i)") (auto dest: cget_in_range)

declare satoi_loop.simps [simp del]

definition satoi :: "string option \<Rightarrow> u64" where
  "satoi str =
     (case str of
        None \<Rightarrow> 0
      | Some s \<Rightarrow>
          let neg = (cget s 0 = CHR ''-'')
          in case satoi_loop s (if neg then 1 else 0) 0 of
               None \<Rightarrow> 0
             | Some res \<Rightarrow> if neg then - res else res)"

subsection \<open>Strings\<close>

definition umvar_str_eq :: "string option \<Rightarrow> string option \<Rightarrow> bool" where
  "umvar_str_eq a b = sem_str_eq a b"

definition umvar_str_copy :: "string option \<Rightarrow> nat \<Rightarrow> string" where
  "umvar_str_copy src mx = (case src of None \<Rightarrow> [] | Some s \<Rightarrow> str_copy_loop mx s 0)"

text \<open>The loop copies like \<open>str_copy\<close>, up to 27 characters.\<close>

definition build_sem_names :: "string \<Rightarrow> string \<times> string" where
  "build_sem_names mvar_name =
     (let p = str_copy_loop UMVAR_NAME_LEN mvar_name 0 in (p @ ''e'', p @ ''f''))"

definition find_umvar :: "'a msys_scheme \<Rightarrow> string option \<Rightarrow> ptr" where
  "find_umvar s name = first_idx (\<lambda>u. um_in_use u \<and> umvar_str_eq (Some (um_name u)) name) (umvar_table s)"

subsection \<open>The operations\<close>

definition user_mvar_open_sems :: "string \<Rightarrow> 'a semsys_scheme \<Rightarrow> int \<times> 'a semsys_scheme" where
  "user_mvar_open_sems name s =
     (let (sem_empty, sem_full) = build_sem_names name;
          (r1, s1) = my_sem_open sem_empty 1 s
      in if r1 = 0 then (0, s1)
         else
           let (r2, s2) = my_sem_open sem_full 0 s1
           in if r2 = 0 then (0, snd (my_sem_close sem_empty s2)) else (1, s2))"

definition user_mvar_close_sems :: "string \<Rightarrow> 'a semsys_scheme \<Rightarrow> 'a semsys_scheme" where
  "user_mvar_close_sems name s =
     (let (sem_empty, sem_full) = build_sem_names name
      in snd (my_sem_close sem_full (snd (my_sem_close sem_empty s))))"

definition user_mvar_create :: "string option \<Rightarrow> 'a msys_scheme \<Rightarrow> int \<times> 'a msys_scheme" where
  "user_mvar_create name s =
     (if name = None then (0, s)
      else if find_umvar s name \<noteq> None then (0, s)
      else
        let (slot, s1) =
          (case first_idx (\<lambda>u. \<not> um_in_use u) (umvar_table s) of
             Some i \<Rightarrow> (i, s)
           | None \<Rightarrow>
               let r = umvar_reclaim s; s0 = s\<lparr>umvar_reclaim := (r + 1) mod MAX_USER_MVARS\<rparr>
               in (r, user_mvar_close_sems (um_name (um_at s0 r)) s0))
        in (1, upd_um slot (\<lambda>u. \<lparr>um_name = umvar_str_copy name UMVAR_NAME_LEN, um_value = CHR 0x00, um_in_use = True\<rparr>) s1))"

text \<open>\<open>user_mvar_put\<close>: up to the wait, with the slot that was found (none: the call returns -1), and the rest.\<close>

definition user_mvar_put_wait :: "string \<Rightarrow> 'a msys_scheme \<Rightarrow> (ptr \<times> 'a msys_scheme) option" where
  "user_mvar_put_wait name s =
     (case find_umvar s (Some name) of
        None \<Rightarrow> Some (None, s)
      | Some m \<Rightarrow> map_option (\<lambda>(r, t). (Some m, t)) (my_sem_wait (fst (build_sem_names name)) s))"

definition user_mvar_put_done :: "nat \<Rightarrow> string \<Rightarrow> char \<Rightarrow> 'a msys_scheme \<Rightarrow> (int \<times> 'a msys_scheme) option" where
  "user_mvar_put_done m name v s =
     map_option (\<lambda>(r, t). (0, t)) (my_sem_post (snd (build_sem_names name)) (upd_um m (\<lambda>u. u\<lparr>um_value := v\<rparr>) s))"

definition user_mvar_take_wait :: "string \<Rightarrow> 'a msys_scheme \<Rightarrow> (ptr \<times> 'a msys_scheme) option" where
  "user_mvar_take_wait name s =
     (case find_umvar s (Some name) of
        None \<Rightarrow> Some (None, s)
      | Some m \<Rightarrow> map_option (\<lambda>(r, t). (Some m, t)) (my_sem_wait (snd (build_sem_names name)) s))"

definition user_mvar_take_done :: "nat \<Rightarrow> string \<Rightarrow> 'a msys_scheme \<Rightarrow> (int \<times> 'a msys_scheme) option" where
  "user_mvar_take_done m name s =
     (let val = um_value (um_at s m)
      in map_option (\<lambda>(r, t). (of_char val, t)) (my_sem_post (fst (build_sem_names name)) s))"

definition user_mvar_destroy :: "string \<Rightarrow> 'a msys_scheme \<Rightarrow> 'a msys_scheme" where
  "user_mvar_destroy name s =
     (case find_umvar s (Some name) of
        None \<Rightarrow> s
      | Some m \<Rightarrow> upd_um m (\<lambda>u. u\<lparr>um_in_use := False, um_name := []\<rparr>) (user_mvar_close_sems name s))"

subsection \<open>The commands\<close>

definition reader_colors :: "u32 list" where
  "reader_colors = [0xCCCCCC, 0xFF0000, 0x00FF00, 0x0000FF, 0xFFFF00, 0x00FFFF, 0xFF00FF, 0xFFA500, 0xFFC0CB, 0x8B4513]"

definition build_mvar_name :: "u64 \<Rightarrow> string" where
  "build_mvar_name pid = ''mvar_'' @ rev (if pid = 0 then ''0'' else num_digits 10 (unat pid))"

text \<open>A participant opens the semaphores or exits; then it has the name and its letter or colour and loops.\<close>

definition mvar_start :: "string \<Rightarrow> 'b \<Rightarrow> 'a ksys_scheme \<Rightarrow> ((string \<times> 'b) option \<times> 'a ksys_scheme) option" where
  "mvar_start name x s =
     (let (r, s1) = user_mvar_open_sems name s
      in if r = 0 then map_option (Pair None) (sys_exit 1 s1) else Some (Some (name, x), s1))"

definition mvar_writer :: "string list \<Rightarrow> 'a ksys_scheme \<Rightarrow> ((string \<times> char) option \<times> 'a ksys_scheme) option" where
  "mvar_writer argv s =
     (if length argv < 2 then map_option (Pair None) (sys_exit 1 s)
      else
        let idx = to_int32 (satoi (Some (argv ! 0)));
            letter = char_of (65 + idx)
        in mvar_start (argv ! 1) letter s)"

definition mvar_reader :: "string list \<Rightarrow> 'a ksys_scheme \<Rightarrow> ((string \<times> u32) option \<times> 'a ksys_scheme) option" where
  "mvar_reader argv s =
     (if length argv < 2 then map_option (Pair None) (sys_exit 1 s)
      else
        let idx = to_int32 (satoi (Some (argv ! 0)));
            color = reader_colors ! (unat (of_int idx :: u64) mod length reader_colors)
        in mvar_start (argv ! 1) color s)"

text \<open>What a reader does with a letter, and the end of both loops, when the MVar is gone.\<close>

definition mvar_show :: "int \<Rightarrow> u32 \<Rightarrow> 'a fdsys_scheme \<Rightarrow> 'a fdsys_scheme" where
  "mvar_show r color s = snd (sys_write_color 1 (Some [of_int r]) color s)"

definition mvar_stop :: "string \<Rightarrow> 'a ksys_scheme \<Rightarrow> 'a ksys_scheme option" where
  "mvar_stop name s = sys_exit 0 (user_mvar_close_sems name s)"

definition idx_str :: "nat \<Rightarrow> string" where
  "idx_str i = (if i \<ge> 10 then [char_of (48 + (i div 10) mod 10), char_of (48 + i mod 10)] else [char_of (48 + i)])"

fun mvar_spawn :: "(nat \<Rightarrow> u64) \<Rightarrow> string \<Rightarrow> string \<Rightarrow> nat list \<Rightarrow> 'a ksys_scheme \<Rightarrow> 'a ksys_scheme option" where
  "mvar_spawn fn prog name [] s = Some s"
| "mvar_spawn fn prog name (i # is) s =
     (case my_create_process fn prog [idx_str i, name] s of
        None \<Rightarrow> None
      | Some (_, s') \<Rightarrow> mvar_spawn fn prog name is s')"

definition mvar :: "(nat \<Rightarrow> u64) \<Rightarrow> string list \<Rightarrow> 'a msys_scheme \<Rightarrow> (int \<times> 'a msys_scheme) option" where
  "mvar fn argv s =
     (if length argv < 2 then Some (-1, s)
      else
        let writers = to_int32 (satoi (Some (argv ! 0)));
            readers = to_int32 (satoi (Some (argv ! 1)))
        in if writers \<le> 0 \<or> readers \<le> 0 then Some (-1, s)
           else
             let name = build_mvar_name (sys_getpid s);
                 (r, s1) = user_mvar_create (Some name) s
             in if r \<noteq> 1 then Some (-1, s1)
                else do {
                  s2 \<leftarrow> mvar_spawn fn ''mvar_writer'' name [0..<nat writers] s1;
                  s3 \<leftarrow> mvar_spawn fn ''mvar_reader'' name [0..<nat readers] s2;
                  Some (0, s3)
                })"

end
