(* ===== verification/Mvar_Lemmas.thy ===== *)
theory Mvar_Lemmas
  imports Mvar Sem_Mutex
begin

text \<open>
  A semaphore seen from a set of processes: who of them is in its queue and who has got a unit. A wait adds
  a process to the set, a post lets the oldest of the queue go on.
\<close>

subsection \<open>Frames\<close>

lemma um_frame [simp]:
  "umvar_table (upd_sem i f s) = umvar_table s" "umvar_table (upd_pcb k g s) = umvar_table s"
  "umvar_table (process_block pid s) = umvar_table s" "umvar_table (process_unblock pid s) = umvar_table s"
  by (simp_all add: upd_sem_def upd_pcb_def process_block_def process_unblock_def Let_def split: option.split)

lemma um_frame_hand_over [simp]: "umvar_table (hand_over i pid s) = umvar_table s"
  by (simp add: hand_over_def split: option.split)

lemma upd_um_sels [simp]:
  "process_table (upd_um m f s) = process_table s" "current_process (upd_um m f s) = current_process s"
  "sem_table (upd_um m f s) = sem_table s" "pcb_at (upd_um m f s) k = pcb_at s k" "live (upd_um m f s) = live s"
  "sem_at (upd_um m f s) i = sem_at s i" "next_pid (upd_um m f s) = next_pid s" "find_sem (upd_um m f s) n = find_sem s n"
  by (simp_all add: upd_um_def pcb_at_def live_def sem_at_def find_sem_def fun_eq_iff)

lemma upd_um_inv [simp]:
  "table_inv (upd_um m f s) = table_inv s" "sem_inv (upd_um m f s) = sem_inv s" "benign s (upd_um m f s)"
proof -
  show b: "benign s (upd_um m f s)" by (simp add: benign_def list_all2_refl)
  show "sem_inv (upd_um m f s) = sem_inv s" by (simp add: sem_inv_def live_pids_def)
  show "table_inv (upd_um m f s) = table_inv s" by (simp add: table_inv_def pids_unique_def)
qed

lemma find_umvar_frame: "umvar_table t = umvar_table s \<Longrightarrow> find_umvar t nm = find_umvar s nm"
  by (simp add: find_umvar_def)

lemma find_umvar_value: "find_umvar (upd_um m (\<lambda>u. u\<lparr>um_value := v\<rparr>) s) nm = find_umvar s nm"
proof -
  have "first_idx (\<lambda>u. um_in_use u \<and> umvar_str_eq (Some (um_name u)) nm) (modify m (\<lambda>u. u\<lparr>um_value := v\<rparr>) (umvar_table s)) =
      first_idx (\<lambda>u. um_in_use u \<and> umvar_str_eq (Some (um_name u)) nm) (umvar_table s)"
    by (rule first_idx_cong2) (auto simp: list_all2_conv_all_nth modify_def nth_list_update)
  then show ?thesis by (simp add: find_umvar_def upd_um_def)
qed

lemma find_umvar_less: "find_umvar s nm = Some m \<Longrightarrow> m < length (umvar_table s)"
  unfolding find_umvar_def by (drule first_idx_SomeD) simp

lemma um_at_value: "m < length (umvar_table s) \<Longrightarrow> um_value (um_at (upd_um m (\<lambda>u. u\<lparr>um_value := v\<rparr>) s) m) = v"
  by (simp add: um_at_def upd_um_def modify_def)

lemma find_sem_slots:
  assumes "length (sem_table t) = length (sem_table s)"
    "\<And>j. sm_open (sem_at t j) = sm_open (sem_at s j)" "\<And>j. sm_name (sem_at t j) = sm_name (sem_at s j)"
  shows "find_sem t n = find_sem s n"
proof -
  have "sm_open (sem_table t ! j) = sm_open (sem_table s ! j) \<and> sm_name (sem_table t ! j) = sm_name (sem_table s ! j)" for j
    using assms(2,3) [of j] by (simp add: sem_at_def)
  then show ?thesis unfolding find_sem_def
    by (intro first_idx_cong2) (use assms(1) in \<open>auto simp: list_all2_conv_all_nth\<close>)
qed

subsection \<open>Wait and post as steps on the table of semaphores\<close>

text \<open>The semaphores before and after: one has changed, names and counts of users are the same.\<close>

definition sem_step :: "nat \<Rightarrow> Semaphore \<Rightarrow> 'a msys_scheme \<Rightarrow> 'a msys_scheme \<Rightarrow> bool" where
  "sem_step i q s t \<longleftrightarrow> umvar_table t = umvar_table s \<and> table_inv t \<and> sem_inv t \<and> benign s t \<and> (\<forall>j. sem_at t j = (if j = i then q else sem_at s j)) \<and>
     (\<forall>n. find_sem t n = find_sem s n)"

lemma sem_stepI:
  assumes "umvar_table t = umvar_table s" "table_inv s" "sem_inv t" "benign s t" "\<And>j. sem_at t j = (if j = i then q else sem_at s j)"
    "length (sem_table t) = length (sem_table s)" "sm_open q = sm_open (sem_at s i)" "sm_name q = sm_name (sem_at s i)"
  shows "sem_step i q s t"
proof -
  have "find_sem t n = find_sem s n" for n by (rule find_sem_slots) (use assms in auto)
  then show ?thesis using assms table_inv_benign [OF assms(4,2)] by (simp add: sem_step_def)
qed

lemma mvar_wait_step:
  assumes i: "sem_inv s" and t: "table_inv s" and c: "current_process s = Some c" "live s c"
    and f: "find_sem s (Some nm) = Some i" and nq: "p_pid (pcb_at s c) \<notin> set (items (sm_wait (sem_at s i)))"
  shows "\<exists>t. sem_wait (Some nm) s = Some (0, t) \<and>
    sem_step i (if 0 < sm_value (sem_at s i) then taken (sem_at s i) else blocked (p_pid (pcb_at s c)) (sem_at s i)) s t \<and>
    (0 < sm_value (sem_at s i) \<longrightarrow> has_bit (p_held_sems (pcb_at t c)) i)"
proof -
  have il: "i < length (sem_table s)" using find_sem_SomeD [OF f] by auto
  have i32: "i < MAX_SEMS" using il i by (simp add: sem_inv_def)
  have cl: "c < length (process_table s)" by (rule live_less [OF c(2)])
  obtain u where u: "sem_wait (Some nm) s = Some (0, u)" "sem_inv u" "benign s u"
    using sem_inv_wait [OF i table_inv_length [OF t] c f nq] by blast
  note eq = sem_wait_eq [OF f sem_inv_lock [OF i il] c(1)]
  have um: "umvar_table u = umvar_table s" using u(1) eq by (auto split: if_splits)
  have st: "sem_step i (if 0 < sm_value (sem_at s i) then taken (sem_at s i) else blocked (p_pid (pcb_at s c)) (sem_at s i)) s u"
    by (rule sem_stepI [OF um t u(2,3)])
      (use u(1) eq il in \<open>auto simp: sem_at_upd_sem taken_def blocked_def split: if_splits\<close>)
  have "has_bit (p_held_sems (pcb_at u c)) i" if "0 < sm_value (sem_at s i)"
    using u(1) eq that cl i32 by (auto simp: pcb_at_upd set_held_def)
  then show ?thesis using u(1) st by blast
qed

lemma post_step:
  assumes i: "sem_inv s" and t: "table_inv s" and c: "current_process s = Some c"
    and f: "find_sem s (Some nm) = Some i"
  shows "\<exists>t. sem_post (Some nm) s = Some (0, t) \<and>
    sem_step i (if sm_value (sem_at s i) < 0 then passed_on (sem_at s i) else released (sem_at s i)) s t"
proof -
  have il: "i < length (sem_table s)" "0 < sm_open (sem_at s i)" using find_sem_SomeD [OF f] by auto
  obtain u where u: "sem_post (Some nm) s = Some (0, u)" "sem_inv u" "benign s u"
    using sem_inv_post [OF i c f] by blast
  note eq = sem_post_eq [OF f sem_inv_lock [OF i il(1)] c]
  have q: "sm_value (sem_at s i) < 0 \<and> 0 < q_count (sm_wait (sem_at s i)) \<longleftrightarrow> sm_value (sem_at s i) < 0"
    using sem_inv_slot [OF i il(1)] il(2) by (auto simp: slot_ok_def)
  have um: "umvar_table u = umvar_table s" using u(1) eq by (auto split: if_splits)
  show ?thesis
  proof (intro exI conjI)
    show "sem_post (Some nm) s = Some (0, u)" by (rule u(1))
    show "sem_step i (if sm_value (sem_at s i) < 0 then passed_on (sem_at s i) else released (sem_at s i)) s u"
      by (rule sem_stepI [OF um t u(2,3)])
        (use u(1) eq il q in \<open>auto simp: sem_at_upd_sem passed_on_def released_def split: if_splits\<close>)
  qed
qed

subsection \<open>The processes at a semaphore\<close>

text \<open>Those of the set \<open>A\<close> that are not in the queue; all that are queued are of the set.\<close>

definition granted :: "nat set \<Rightarrow> 'a semsys_scheme \<Rightarrow> nat \<Rightarrow> nat set" where
  "granted A s i = {k\<in>A. p_pid (pcb_at s k) \<notin> set (items (sm_wait (sem_at s i)))}"

definition queue_of :: "nat set \<Rightarrow> 'a semsys_scheme \<Rightarrow> nat \<Rightarrow> bool" where
  "queue_of A s i \<longleftrightarrow> set (items (sm_wait (sem_at s i))) \<subseteq> (\<lambda>k. p_pid (pcb_at s k)) ` A \<and>
     int (length (items (sm_wait (sem_at s i)))) = max 0 (- sm_value (sem_at s i))"

lemma step_pid: "sem_step i q s t \<Longrightarrow> live s k \<Longrightarrow> p_pid (pcb_at t k) = p_pid (pcb_at s k)"
  using pid_benign [of s t k] by (simp add: sem_step_def)

lemma step_live: "sem_step i q s t \<Longrightarrow> live t = live s"
  using benign_live [of s t] by (simp add: sem_step_def fun_eq_iff)

lemma granted_queue_cong:
  assumes "\<And>k. k \<in> A \<Longrightarrow> p_pid (pcb_at t k) = p_pid (pcb_at s k)" "sm_wait (sem_at t i) = sm_wait (sem_at s i)"
    "sm_value (sem_at t i) = sm_value (sem_at s i)"
  shows "granted A t i = granted A s i" "queue_of A t i = queue_of A s i"
proof -
  have "(\<lambda>k. p_pid (pcb_at t k)) ` A = (\<lambda>k. p_pid (pcb_at s k)) ` A" by (rule image_cong) (use assms in auto)
  then show "granted A t i = granted A s i" "queue_of A t i = queue_of A s i"
    using assms by (auto simp: granted_def queue_of_def)
qed

lemma granted_cong:
  assumes "\<And>k. k \<in> A \<Longrightarrow> p_pid (pcb_at t k) = p_pid (pcb_at s k)" "sem_at t i = sem_at s i"
  shows "granted A t i = granted A s i" "queue_of A t i = queue_of A s i"
  by (rule granted_queue_cong; use assms in simp)+

lemma other_side:
  assumes "sem_step i q s t" "j \<noteq> i" "\<And>k. k \<in> A \<Longrightarrow> live s k"
  shows "granted A t j = granted A s j" "queue_of A t j = queue_of A s j"
proof -
  have "p_pid (pcb_at t k) = p_pid (pcb_at s k)" if "k \<in> A" for k by (rule step_pid [OF assms(1) assms(3) [OF that]])
  moreover have "sem_at t j = sem_at s j" using assms(1,2) by (simp add: sem_step_def)
  ultimately show "granted A t j = granted A s j" "queue_of A t j = queue_of A s j" by (rule granted_cong; blast)+
qed

lemma not_queued:
  assumes "table_inv s" "live s c" "c \<notin> A" "\<And>k. k \<in> A \<Longrightarrow> live s k" "queue_of A s i"
  shows "p_pid (pcb_at s c) \<notin> set (items (sm_wait (sem_at s i)))"
proof
  assume "p_pid (pcb_at s c) \<in> set (items (sm_wait (sem_at s i)))"
  then obtain k where "k \<in> A" "p_pid (pcb_at s c) = p_pid (pcb_at s k)" using assms(5) by (auto simp: queue_of_def)
  moreover from this have "c = k" using assms(1,2,4) by (auto simp: table_inv_def pids_unique_def)
  ultimately show False using assms(3) by simp
qed

text \<open>A process of the table that is not in the set waits.\<close>

lemma wait_side:
  assumes i: "sem_inv s" and t: "table_inv s" and c: "current_process s = Some c" "live s c" "c \<notin> A"
    and f: "find_sem s (Some nm) = Some i" and A: "\<And>k. k \<in> A \<Longrightarrow> live s k" "queue_of A s i"
  obtains q t where "sem_wait (Some nm) s = Some (0, t)" "sem_step i q s t" "queue_of (insert c A) t i"
    "sm_value (sem_at t i) = sm_value (sem_at s i) - 1"
    "granted (insert c A) t i = (if 0 < sm_value (sem_at s i) then insert c (granted A s i) else granted A s i)"
    "c \<notin> granted A s i" "0 < sm_value (sem_at s i) \<longrightarrow> has_bit (p_held_sems (pcb_at t c)) i"
proof -
  let ?pid = "p_pid (pcb_at s c)" and ?q = "sem_at s i"
  let ?q' = "if 0 < sm_value ?q then taken ?q else blocked ?pid ?q"
  have nq: "?pid \<notin> set (items (sm_wait ?q))" by (rule not_queued [OF t c(2,3) A])
  obtain u where u: "sem_wait (Some nm) s = Some (0, u)" "sem_step i ?q' s u" "0 < sm_value ?q \<longrightarrow> has_bit (p_held_sems (pcb_at u c)) i"
    using mvar_wait_step [OF i t c(1,2) f nq] by blast
  have il: "i < length (sem_table s)" "0 < sm_open ?q" using find_sem_SomeD [OF f] by auto
  have it: "items (sm_wait ?q') = (if 0 < sm_value ?q then items (sm_wait ?q) else items (sm_wait ?q) @ [?pid])"
    using slot_ok_blocked(2) [OF sem_inv_slot [OF i il(1)] il(2) live_pids_finite live_pids_card [OF table_inv_length [OF t]]
        live_pid [OF c(2)] nq] by (simp add: taken_def)
  have at: "sem_at u i = ?q'" using u(2) by (simp add: sem_step_def)
  have v: "sm_value ?q' = sm_value ?q - 1" by (simp add: taken_def blocked_def)
  have pid: "p_pid (pcb_at u k) = p_pid (pcb_at s k)" if "k \<in> insert c A" for k
    by (rule step_pid [OF u(2)]) (use c(2) A(1) that in auto)
  have ne: "p_pid (pcb_at s k) \<noteq> ?pid" if "k \<in> A" for k
    using that A(1) c(2,3) t by (auto simp: table_inv_def pids_unique_def)
  have img: "(\<lambda>k. p_pid (pcb_at u k)) ` insert c A = insert ?pid ((\<lambda>k. p_pid (pcb_at s k)) ` A)"
    using pid by (auto simp: image_iff)
  have "queue_of (insert c A) u i" using A(2) unfolding queue_of_def at it img v by auto
  moreover have "granted (insert c A) u i = (if 0 < sm_value ?q then insert c (granted A s i) else granted A s i)"
    using pid ne nq unfolding granted_def at it by auto
  moreover have "c \<notin> granted A s i" using c(3) by (simp add: granted_def)
  ultimately show thesis using that [OF u(1,2)] at v u(3) by simp
qed

text \<open>A process posts: if somebody is queued, the first has got the unit.\<close>

lemma post_side:
  assumes i: "sem_inv s" and t: "table_inv s" and c: "current_process s = Some c"
    and f: "find_sem s (Some nm) = Some i" and A: "\<And>k. k \<in> A \<Longrightarrow> live s k" "queue_of A s i"
  obtains q t where "sem_post (Some nm) s = Some (0, t)" "sem_step i q s t" "queue_of A t i"
    "sm_value (sem_at t i) = sm_value (sem_at s i) + 1"
    "if sm_value (sem_at s i) < 0 then \<exists>k\<in>A. k \<notin> granted A s i \<and> granted A t i = insert k (granted A s i)
     else granted A t i = granted A s i"
proof -
  let ?q = "sem_at s i"
  let ?q' = "if sm_value ?q < 0 then passed_on ?q else released ?q"
  obtain u where u: "sem_post (Some nm) s = Some (0, u)" "sem_step i ?q' s u" using post_step [OF i t c f] by blast
  have il: "i < length (sem_table s)" "0 < sm_open ?q" using find_sem_SomeD [OF f] by auto
  note sl = sem_inv_slot [OF i il(1)]
  have at: "sem_at u i = ?q'" using u(2) by (simp add: sem_step_def)
  have v: "sm_value ?q' = sm_value ?q + 1" by (simp add: passed_on_def released_def)
  have pid: "p_pid (pcb_at u k) = p_pid (pcb_at s k)" if "k \<in> A" for k by (rule step_pid [OF u(2) A(1) [OF that]])
  have img: "(\<lambda>k. p_pid (pcb_at u k)) ` A = (\<lambda>k. p_pid (pcb_at s k)) ` A" by (rule image_cong) (use pid in auto)
  show thesis
  proof (cases "sm_value ?q < 0")
    case True
    have "0 < q_count (sm_wait ?q)" using sl il(2) True by (auto simp: slot_ok_def)
    from slot_ok_passed_on(2) [OF sl il(2) True this] obtain p where
      it: "items (sm_wait ?q) = p # items (sm_wait ?q')" using True by auto
    have d: "distinct (items (sm_wait ?q))" using sl il(2) by (simp add: slot_ok_def)
    obtain k where k: "k \<in> A" "p_pid (pcb_at s k) = p" using A(2) it by (auto simp: queue_of_def)
    have uniq: "k' = k" if "k' \<in> A" "p_pid (pcb_at s k') = p" for k'
      using that k A(1) t by (auto simp: table_inv_def pids_unique_def)
    have "k' \<in> granted A u i \<longleftrightarrow> k' \<in> insert k (granted A s i)" for k'
    proof (cases "k' \<in> A \<and> k' \<noteq> k")
      case True
      then have "p_pid (pcb_at s k') \<noteq> p" using uniq by blast
      then show ?thesis using True pid [of k'] by (simp add: granted_def at it)
    next
      case False
      have "p \<notin> set (items (sm_wait ?q'))" using d unfolding it by simp
      then show ?thesis using False pid [of k] k by (auto simp: granted_def at)
    qed
    then have "granted A u i = insert k (granted A s i)" by blast
    moreover have "k \<notin> granted A s i" using k it by (simp add: granted_def)
    moreover have "queue_of A u i" using A(2) True it unfolding queue_of_def at img v by auto
    ultimately show thesis using that [OF u(1,2)] at v True k(1) by auto
  next
    case False
    then have w: "sm_wait ?q' = sm_wait ?q" by (simp add: released_def)
    have "granted A u i = granted A s i" using pid unfolding granted_def at w by auto
    moreover have "queue_of A u i" using A(2) False unfolding queue_of_def at img v w by auto
    ultimately show thesis using that [OF u(1,2)] at v False by simp
  qed
qed

subsection \<open>Opening and closing\<close>

text \<open>A participant that opens or closes semaphores leaves the values and the queues of those that stay open.\<close>

definition units_kept :: "'a msys_scheme \<Rightarrow> 'a msys_scheme \<Rightarrow> bool" where
  "units_kept s t \<longleftrightarrow> umvar_table t = umvar_table s \<and> table_inv t \<and> sem_inv t \<and> benign s t \<and>
     (\<forall>i. 0 < sm_open (sem_at t i) \<longrightarrow> 0 < sm_open (sem_at s i) \<and> sm_value (sem_at t i) = sm_value (sem_at s i) \<and>
        sm_wait (sem_at t i) = sm_wait (sem_at s i))"

lemma units_kept_trans: "units_kept s t \<Longrightarrow> units_kept t u \<Longrightarrow> units_kept s u"
  unfolding units_kept_def by (metis benign_trans)

lemma um_frame_current [simp]: "umvar_table (upd_current g s) = umvar_table s"
  by (simp add: upd_current_def split: option.split)

lemma open_kept:
  assumes "sem_inv s" "table_inv s" "find_sem s (Some n) = Some j" "0 \<le> sint w"
  obtains t where "my_sem_open n w s = (1, t)" "units_kept s t" "find_sem t = find_sem s"
proof -
  have j: "j < length (sem_table s)" "0 < sm_open (sem_at s j)" using find_sem_SomeD [OF assms(3)] by auto
  let ?u = "upd_sem j (\<lambda>q. q\<lparr>sm_open := sm_open q + 1\<rparr>) s"
  let ?t = "upd_current (\<lambda>p. p\<lparr>p_opened_sems := p_opened_sems p OR sem_bit j\<rparr>) ?u"
  have r: "my_sem_open n w s = (1, ?t)"
    by (simp add: my_sem_open_def sys_sem_open_def sem_open_def assms(3) sem_opened_def)
  have i: "sem_inv ?t" "benign s ?t"
    using sem_inv_open [OF assms(1,4), of n] r by (simp_all add: my_sem_open_def sys_sem_open_def)
  have "units_kept s ?t"
    unfolding units_kept_def using i table_inv_benign [OF i(2) assms(2)] j by (simp add: sem_at_upd_sem)
  moreover have "find_sem ?t x = find_sem s x" for x
  proof -
    have "find_sem ?u x = find_sem s x"
      unfolding find_sem_def
      by (rule first_idx_cong2) (use j in \<open>auto simp: list_all2_conv_all_nth upd_sem_def modify_def nth_list_update sem_at_def\<close>)
    then show ?thesis by (simp add: find_sem_table [of ?t ?u])
  qed
  ultimately show thesis using that r by (simp add: fun_eq_iff)
qed

lemma close_kept:
  assumes "sem_inv s" "table_inv s"
  shows "units_kept s (snd (my_sem_close n s))"
proof -
  let ?t = "snd (sem_close (Some n) s)"
  have i: "sem_inv ?t" "benign s ?t" by (rule sem_inv_close [OF assms(1)])+
  have "umvar_table ?t = umvar_table s \<and> (\<forall>i. 0 < sm_open (sem_at ?t i) \<longrightarrow> 0 < sm_open (sem_at s i) \<and>
      sm_value (sem_at ?t i) = sm_value (sem_at s i) \<and> sm_wait (sem_at ?t i) = sm_wait (sem_at s i))"
  proof (cases "find_sem s (Some n)")
    case (Some j)
    then have "j < length (sem_table s)" using find_sem_SomeD by blast
    then show ?thesis by (auto simp: sem_close_def Some Let_def sem_at_upd_sem)
  qed (simp add: sem_close_def)
  with i table_inv_benign [OF i(2) assms(2)] show ?thesis
    by (simp add: units_kept_def my_sem_close_def sys_sem_close_def)
qed

end
