(* ===== verification/Mvar_Props.thy ===== *)
theory Mvar_Props
  imports Mvar_Lemmas Demo_Kernel
begin

text \<open>
  MVars are one-place buffers: \<open>mvar_run\<close> is the step relation of any number of writers and readers on one MVar, over
  the semaphores of the kernel. The last section shows what a death does to this.
\<close>

subsection \<open>Writers and readers\<close>

text \<open>Where a process is: outside, between the wait and the post of a put with its value, or of a take.\<close>

datatype mvar_pc = Out | Putting char | Taking

definition putters :: "(nat \<Rightarrow> mvar_pc) \<Rightarrow> nat set" where
  "putters pc = {k. \<exists>v. pc k = Putting v}"

definition takers :: "(nat \<Rightarrow> mvar_pc) \<Rightarrow> nat set" where
  "takers pc = {k. pc k = Taking}"

abbreviation sem_empty :: "string \<Rightarrow> string" where "sem_empty nm \<equiv> fst (build_sem_names nm)"
abbreviation sem_full :: "string \<Rightarrow> string" where "sem_full nm \<equiv> snd (build_sem_names nm)"

text \<open>The MVar \<open>nm\<close> is slot \<open>m\<close> of the table, its semaphores are \<open>e\<close> and \<open>f\<close>.\<close>

definition mvar_at :: "string \<Rightarrow> nat \<Rightarrow> nat \<Rightarrow> nat \<Rightarrow> 'a msys_scheme \<Rightarrow> bool" where
  "mvar_at nm m e f s \<longleftrightarrow> table_inv s \<and> sem_inv s \<and> find_umvar s (Some nm) = Some m \<and>
     find_sem s (Some (sem_empty nm)) = Some e \<and> find_sem s (Some (sem_full nm)) = Some f"

text \<open>The rest of the kernel: whatever leaves the MVar, the values and the queues of its semaphores, and the processes that are
  inside an operation.\<close>

definition mvar_env :: "string \<Rightarrow> nat \<Rightarrow> nat \<Rightarrow> nat \<Rightarrow> (nat \<Rightarrow> mvar_pc) \<Rightarrow> 'a msys_scheme \<Rightarrow> 'a msys_scheme \<Rightarrow> bool" where
  "mvar_env nm m e f pc s t \<longleftrightarrow> mvar_at nm m e f t \<and> um_at t m = um_at s m \<and>
     sm_value (sem_at t e) = sm_value (sem_at s e) \<and> sm_wait (sem_at t e) = sm_wait (sem_at s e) \<and>
     sm_value (sem_at t f) = sm_value (sem_at s f) \<and> sm_wait (sem_at t f) = sm_wait (sem_at s f) \<and>
     (\<forall>k. pc k \<noteq> Out \<longrightarrow> live t k \<and> p_pid (pcb_at t k) = p_pid (pcb_at s k))"

text \<open>The values put and the values taken so far are the last two arguments. A process goes on after its wait only when it
  is not in the queue.\<close>

inductive mvar_run ::
  "string \<Rightarrow> nat \<Rightarrow> nat \<Rightarrow> nat \<Rightarrow> 'a msys_scheme \<Rightarrow> (nat \<Rightarrow> mvar_pc) \<Rightarrow> char list \<Rightarrow> char list \<Rightarrow> bool"
  for nm :: string and m :: nat and e :: nat and f :: nat where
  start: "\<lbrakk>mvar_at nm m e f s; sm_value (sem_at s e) = 1; sm_value (sem_at s f) = 0\<rbrakk> \<Longrightarrow>
    mvar_run nm m e f s (\<lambda>_. Out) [] []"
| env: "\<lbrakk>mvar_run nm m e f s pc P T; mvar_env nm m e f pc s t\<rbrakk> \<Longrightarrow> mvar_run nm m e f t pc P T"
| put_wait: "\<lbrakk>mvar_run nm m e f s pc P T; current_process s = Some c; live s c; pc c = Out;
    user_mvar_put_wait nm s = Some (Some m', t)\<rbrakk> \<Longrightarrow> mvar_run nm m e f t (pc(c := Putting v)) P T"
| put_done: "\<lbrakk>mvar_run nm m e f s pc P T; current_process s = Some c; pc c = Putting v;
    p_pid (pcb_at s c) \<notin> set (items (sm_wait (sem_at s e))); user_mvar_put_done m nm v s = Some (r, t)\<rbrakk> \<Longrightarrow>
    mvar_run nm m e f t (pc(c := Out)) (P @ [v]) T"
| take_wait: "\<lbrakk>mvar_run nm m e f s pc P T; current_process s = Some c; live s c; pc c = Out;
    user_mvar_take_wait nm s = Some (Some m', t)\<rbrakk> \<Longrightarrow> mvar_run nm m e f t (pc(c := Taking)) P T"
| take_done: "\<lbrakk>mvar_run nm m e f s pc P T; current_process s = Some c; pc c = Taking;
    p_pid (pcb_at s c) \<notin> set (items (sm_wait (sem_at s f))); user_mvar_take_done m nm s = Some (r, t)\<rbrakk> \<Longrightarrow>
    mvar_run nm m e f t (pc(c := Out)) P (T @ [char_of r])"
| joins: "\<lbrakk>mvar_run nm m e f s pc P T; user_mvar_open_sems nm s = (r, t)\<rbrakk> \<Longrightarrow> mvar_run nm m e f t pc P T"
| leaves: "\<lbrakk>mvar_run nm m e f s pc P T; user_mvar_close_sems nm s = t; mvar_at nm m e f t\<rbrakk> \<Longrightarrow> mvar_run nm m e f t pc P T"

subsection \<open>The invariant\<close>

text \<open>One token: a free unit of one of the semaphores, or a process that has got one and has not posted yet.\<close>

definition mvar_inv :: "string \<Rightarrow> nat \<Rightarrow> nat \<Rightarrow> nat \<Rightarrow> 'a msys_scheme \<Rightarrow> (nat \<Rightarrow> mvar_pc) \<Rightarrow> char list \<Rightarrow> char list \<Rightarrow> bool" where
  "mvar_inv nm m e f s pc P T \<longleftrightarrow> mvar_at nm m e f s \<and> e \<noteq> f \<and> (\<forall>k. pc k \<noteq> Out \<longrightarrow> live s k) \<and>
     queue_of (putters pc) s e \<and> queue_of (takers pc) s f \<and>
     int (card (granted (putters pc) s e)) + int (card (granted (takers pc) s f)) +
       max 0 (sm_value (sem_at s e)) + max 0 (sm_value (sem_at s f)) = 1 \<and>
     P = T @ (if granted (takers pc) s f \<noteq> {} \<or> 0 < sm_value (sem_at s f) then [um_value (um_at s m)] else [])"

lemma mvar_atD:
  assumes "mvar_at nm m e f s"
  shows "table_inv s" "sem_inv s" "find_umvar s (Some nm) = Some m" "find_sem s (Some (sem_empty nm)) = Some e"
    "find_sem s (Some (sem_full nm)) = Some f"
  using assms by (simp_all add: mvar_at_def)

lemma names_apart:
  assumes "mvar_at nm m e f s"
  shows "e \<noteq> f"
proof
  assume "e = f"
  let ?n = "str_copy_loop UMVAR_NAME_LEN nm 0"
  have "cstr (?n @ ''e'') = cstr (?n @ ''f'')"
    using find_sem_SomeD [OF mvar_atD(4) [OF assms]] find_sem_SomeD [OF mvar_atD(5) [OF assms]] \<open>e = f\<close>
    by (simp add: build_sem_names_def Let_def)
  moreover have "NUL \<notin> set ?n" using cstr_no_NUL [of nm] by (auto simp: str_copy_loop_eq dest: in_set_takeD)
  then have "cstr (?n @ ''e'') = ?n @ ''e''" "cstr (?n @ ''f'') = ?n @ ''f''" by (auto intro!: cstr_id)
  ultimately show False by simp
qed

lemma pc_sets:
  assumes "pc c = Out"
  shows "putters (pc(c := Putting v)) = insert c (putters pc)" "takers (pc(c := Putting v)) = takers pc"
    "takers (pc(c := Taking)) = insert c (takers pc)" "putters (pc(c := Taking)) = putters pc" "c \<notin> putters pc" "c \<notin> takers pc"
  using assms by (auto simp: putters_def takers_def)

lemma pc_out: "putters (pc(c := Out)) = putters pc - {c}" "takers (pc(c := Out)) = takers pc - {c}"
  by (auto simp: putters_def takers_def)

lemma mvar_invD:
  assumes "mvar_inv nm m e f s pc P T"
  shows "mvar_at nm m e f s" "e \<noteq> f" "k \<in> putters pc \<Longrightarrow> live s k" "k \<in> takers pc \<Longrightarrow> live s k"
    "queue_of (putters pc) s e" "queue_of (takers pc) s f" "finite (granted (putters pc) s e)" "finite (granted (takers pc) s f)"
    "int (card (granted (putters pc) s e)) + int (card (granted (takers pc) s f)) +
       max 0 (sm_value (sem_at s e)) + max 0 (sm_value (sem_at s f)) = 1"
    "P = T @ (if granted (takers pc) s f \<noteq> {} \<or> 0 < sm_value (sem_at s f) then [um_value (um_at s m)] else [])"
proof -
  have l: "live s k" if "k \<in> putters pc \<union> takers pc" for k
  proof -
    have "pc k \<noteq> Out" using that by (auto simp: putters_def takers_def)
    then show ?thesis using assms unfolding mvar_inv_def by blast
  qed
  have fin: "finite {k. live s k}" by (rule finite_subset [of _ "{..<length (process_table s)}"]) (auto simp: live_def)
  show "finite (granted (putters pc) s e)" "finite (granted (takers pc) s f)"
    by (rule finite_subset [OF _ fin], use l in \<open>auto simp: granted_def\<close>)+
  show "k \<in> putters pc \<Longrightarrow> live s k" "k \<in> takers pc \<Longrightarrow> live s k" using l by blast+
qed (use assms in \<open>simp_all add: mvar_inv_def\<close>)

lemma mvar_at_step:
  assumes "mvar_at nm m e f s" "sem_step i q s t"
  shows "mvar_at nm m e f t" "um_at t m = um_at s m"
  using assms find_umvar_frame [of t s] by (simp_all add: mvar_at_def sem_step_def um_at_def)

text \<open>What the four halves of the operations do, in terms of the semaphores.\<close>

lemma put_wait_run:
  assumes "mvar_inv nm m e f s pc P T" "current_process s = Some c" "live s c" "pc c = Out"
  obtains t where "user_mvar_put_wait nm s = Some (Some m, t)" "mvar_inv nm m e f t (pc(c := Putting v)) P T"
    "0 < sm_value (sem_at s e) \<Longrightarrow> c \<in> granted (putters (pc(c := Putting v))) t e \<and> has_bit (p_held_sems (pcb_at t c)) e"
    "benign s t" "sm_value (sem_at t e) = sm_value (sem_at s e) - 1" "sem_at t f = sem_at s f"
proof -
  note I = mvar_invD [OF assms(1)] and a = mvar_atD [OF mvar_invD(1) [OF assms(1)]]
  note S = pc_sets [of pc c, OF assms(4)]
  obtain q t where t: "sem_wait (Some (sem_empty nm)) s = Some (0, t)" "sem_step e q s t" "queue_of (insert c (putters pc)) t e"
    "sm_value (sem_at t e) = sm_value (sem_at s e) - 1"
    "granted (insert c (putters pc)) t e = (if 0 < sm_value (sem_at s e) then insert c (granted (putters pc) s e) else granted (putters pc) s e)"
    "c \<notin> granted (putters pc) s e" "0 < sm_value (sem_at s e) \<longrightarrow> has_bit (p_held_sems (pcb_at t c)) e"
    by (rule wait_side [OF a(2,1) assms(2,3) S(5) a(4) I(3,5)])
  have o: "granted (takers pc) t f = granted (takers pc) s f" "queue_of (takers pc) t f = queue_of (takers pc) s f"
    by (rule other_side [OF t(2) I(2) [symmetric] I(4)], assumption)+
  have at: "mvar_at nm m e f t" "um_at t m = um_at s m" using mvar_at_step [OF I(1) t(2)] by simp_all
  have fv: "sem_at t f = sem_at s f" using t(2) I(2) by (simp add: sem_step_def)
  have run: "user_mvar_put_wait nm s = Some (Some m, t)"
    using a(3) t(1) by (simp add: user_mvar_put_wait_def my_sem_wait_def sys_sem_wait_def)
  have "live t k" if "(pc(c := Putting v)) k \<noteq> Out" for k
    using that assms(1,3) step_live [OF t(2)] by (auto simp: mvar_inv_def split: if_splits)
  moreover have "int (card (granted (insert c (putters pc)) t e)) + int (card (granted (takers pc) t f)) +
      max 0 (sm_value (sem_at t e)) + max 0 (sm_value (sem_at t f)) = 1"
    using I(9) t(4,6) I(7) unfolding t(5) o(1) fv by (auto split: if_splits)
  ultimately have "mvar_inv nm m e f t (pc(c := Putting v)) P T"
    using I(2,6,10) at t(3) o fv unfolding mvar_inv_def S by simp
  moreover have "c \<in> granted (putters (pc(c := Putting v))) t e \<and> has_bit (p_held_sems (pcb_at t c)) e" if "0 < sm_value (sem_at s e)"
    using that t(5,7) S(1) by simp
  ultimately show thesis using that [OF run] t(2,4) fv by (simp add: sem_step_def)
qed

lemma take_wait_run:
  assumes "mvar_inv nm m e f s pc P T" "current_process s = Some c" "live s c" "pc c = Out"
  obtains t where "user_mvar_take_wait nm s = Some (Some m, t)" "mvar_inv nm m e f t (pc(c := Taking)) P T"
proof -
  note I = mvar_invD [OF assms(1)] and a = mvar_atD [OF mvar_invD(1) [OF assms(1)]]
  note S = pc_sets [of pc c, OF assms(4)]
  obtain q t where t: "sem_wait (Some (sem_full nm)) s = Some (0, t)" "sem_step f q s t" "queue_of (insert c (takers pc)) t f"
    "sm_value (sem_at t f) = sm_value (sem_at s f) - 1"
    "granted (insert c (takers pc)) t f = (if 0 < sm_value (sem_at s f) then insert c (granted (takers pc) s f) else granted (takers pc) s f)"
    "c \<notin> granted (takers pc) s f" "0 < sm_value (sem_at s f) \<longrightarrow> has_bit (p_held_sems (pcb_at t c)) f"
    by (rule wait_side [OF a(2,1) assms(2,3) S(6) a(5) I(4,6)])
  have o: "granted (putters pc) t e = granted (putters pc) s e" "queue_of (putters pc) t e = queue_of (putters pc) s e"
    by (rule other_side [OF t(2) I(2) I(3)], assumption)+
  have at: "mvar_at nm m e f t" "um_at t m = um_at s m" using mvar_at_step [OF I(1) t(2)] by simp_all
  have ev: "sem_at t e = sem_at s e" using t(2) I(2) by (simp add: sem_step_def)
  have run: "user_mvar_take_wait nm s = Some (Some m, t)"
    using a(3) t(1) by (simp add: user_mvar_take_wait_def my_sem_wait_def sys_sem_wait_def)
  have "live t k" if "(pc(c := Taking)) k \<noteq> Out" for k
    using that assms(1,3) step_live [OF t(2)] by (auto simp: mvar_inv_def split: if_splits)
  moreover have "int (card (granted (putters pc) t e)) + int (card (granted (insert c (takers pc)) t f)) +
      max 0 (sm_value (sem_at t e)) + max 0 (sm_value (sem_at t f)) = 1"
    using I(9) t(4,6) I(8) unfolding t(5) o(1) ev by (auto split: if_splits)
  moreover have "(granted (insert c (takers pc)) t f \<noteq> {} \<or> 0 < sm_value (sem_at t f)) =
      (granted (takers pc) s f \<noteq> {} \<or> 0 < sm_value (sem_at s f))"
    using t(4) unfolding t(5) by auto
  ultimately have "mvar_inv nm m e f t (pc(c := Taking)) P T"
    using I(2,5,10) at t(3) o ev unfolding mvar_inv_def S by simp
  then show thesis using that [OF run] by simp
qed

lemma queue_drop:
  assumes "queue_of A s i" "p_pid (pcb_at s c) \<notin> set (items (sm_wait (sem_at s i)))"
  shows "queue_of (A - {c}) s i" "granted (A - {c}) s i = granted A s i - {c}"
  using assms by (auto simp: queue_of_def granted_def)

text \<open>Who holds the token is alone.\<close>

lemma token:
  assumes "mvar_inv nm m e f s pc P T"
  shows "c \<in> granted (putters pc) s e \<Longrightarrow> granted (putters pc) s e = {c} \<and> granted (takers pc) s f = {} \<and>
      sm_value (sem_at s e) \<le> 0 \<and> sm_value (sem_at s f) \<le> 0"
    "c \<in> granted (takers pc) s f \<Longrightarrow> granted (takers pc) s f = {c} \<and> granted (putters pc) s e = {} \<and>
      sm_value (sem_at s e) \<le> 0 \<and> sm_value (sem_at s f) \<le> 0"
proof -
  note I = mvar_invD [OF assms]
  have one: "A = {c} \<and> B = {} \<and> a \<le> 0 \<and> b \<le> 0"
    if "c \<in> A" "finite A" "finite B" "int (card A) + int (card B) + max 0 a + max 0 b = 1" for A B :: "nat set" and a b
  proof -
    have "0 < card A" using that(1,2) by (auto simp: card_gt_0_iff)
    then have z: "card A = 1" "card B = 0" "a \<le> 0" "b \<le> 0" using that(4) by linarith+
    then show ?thesis using that(1,3) by (auto simp: card_1_singleton_iff)
  qed
  show "c \<in> granted (putters pc) s e \<Longrightarrow> granted (putters pc) s e = {c} \<and> granted (takers pc) s f = {} \<and>
      sm_value (sem_at s e) \<le> 0 \<and> sm_value (sem_at s f) \<le> 0"
    using one [OF _ I(7,8)] I(9) by blast
  show "c \<in> granted (takers pc) s f \<Longrightarrow> granted (takers pc) s f = {c} \<and> granted (putters pc) s e = {} \<and>
      sm_value (sem_at s e) \<le> 0 \<and> sm_value (sem_at s f) \<le> 0"
    using one [OF _ I(8,7), of "sm_value (sem_at s e)" "sm_value (sem_at s f)"] I(9) by linarith
qed

lemma put_done_run:
  assumes "mvar_inv nm m e f s pc P T" "current_process s = Some c" "pc c = Putting v"
    "p_pid (pcb_at s c) \<notin> set (items (sm_wait (sem_at s e)))"
  obtains t where "user_mvar_put_done m nm v s = Some (0, t)" "mvar_inv nm m e f t (pc(c := Out)) (P @ [v]) T"
proof -
  note I = mvar_invD [OF assms(1)] and a = mvar_atD [OF mvar_invD(1) [OF assms(1)]]
  let ?s = "upd_um m (\<lambda>u. u\<lparr>um_value := v\<rparr>) s"
  have at1: "mvar_at nm m e f ?s" using I(1) by (simp add: mvar_at_def find_umvar_value)
  have c: "c \<in> putters pc" "c \<in> granted (putters pc) s e" using assms(3,4) by (auto simp: granted_def putters_def)
  have ct: "c \<notin> takers pc" using assms(3) by (simp add: takers_def)
  note k = token(1) [OF assms(1) c(2)]
  have s1: "granted A ?s i = granted A s i" "queue_of A ?s i = queue_of A s i" for A i by (simp_all add: granted_def queue_of_def)
  obtain q t where t: "sem_post (Some (sem_full nm)) ?s = Some (0, t)" "sem_step f q ?s t" "queue_of (takers pc) t f"
    "sm_value (sem_at t f) = sm_value (sem_at ?s f) + 1"
    "if sm_value (sem_at ?s f) < 0 then \<exists>k\<in>takers pc. k \<notin> granted (takers pc) ?s f \<and> granted (takers pc) t f = insert k (granted (takers pc) ?s f)
     else granted (takers pc) t f = granted (takers pc) ?s f"
    by (rule post_side [of ?s c "sem_full nm" f "takers pc"]) (use mvar_atD [OF at1] assms(2) I(4,6) s1 in auto)
  have o: "granted (putters pc) t e = granted (putters pc) ?s e" "queue_of (putters pc) t e = queue_of (putters pc) ?s e"
    by (rule other_side [OF t(2) I(2)]; use I(3) in simp)+
  have at: "mvar_at nm m e f t" "um_at t m = um_at ?s m" using mvar_at_step [OF at1 t(2)] by simp_all
  have val: "um_value (um_at ?s m) = v" by (rule um_at_value [OF find_umvar_less [OF a(3)]])
  have ev: "sem_at t e = sem_at s e" using t(2) I(2) by (simp add: sem_step_def)
  have pid: "p_pid (pcb_at t c) = p_pid (pcb_at s c)" using step_pid [OF t(2), of c] I(3) [OF c(1)] by simp
  note d = queue_drop [of "putters pc" t e c]
  have e: "queue_of (putters pc - {c}) t e" "granted (putters pc - {c}) t e = {}"
    using d o s1 I(5) k assms(4) pid ev by simp_all
  have tk: "takers pc - {c} = takers pc" using ct by simp
  have run: "user_mvar_put_done m nm v s = Some (0, t)"
    using t(1) by (simp add: user_mvar_put_done_def my_sem_post_def sys_sem_post_def)
  have l: "live t k" if "(pc(c := Out)) k \<noteq> Out" for k
    using that assms(1) step_live [OF t(2)] by (auto simp: mvar_inv_def split: if_splits)
  have cnt: "int (card (granted (takers pc) t f)) + max 0 (sm_value (sem_at t f)) = 1 \<and> (granted (takers pc) t f \<noteq> {} \<or> 0 < sm_value (sem_at t f))"
    using t(4,5) k s1(1) by (auto split: if_splits)
  have "P = T" using I(10) k by simp
  then have "mvar_inv nm m e f t (pc(c := Out)) (P @ [v]) T"
    using I(2) at e t(3) k l cnt ev val unfolding mvar_inv_def pc_out tk by simp
  then show thesis using that [OF run] by simp
qed

lemma take_done_run:
  assumes "mvar_inv nm m e f s pc P T" "current_process s = Some c" "pc c = Taking"
    "p_pid (pcb_at s c) \<notin> set (items (sm_wait (sem_at s f)))"
  obtains r t where "user_mvar_take_done m nm s = Some (r, t)" "mvar_inv nm m e f t (pc(c := Out)) P (T @ [char_of r])"
    "r = of_char (um_value (um_at s m))"
proof -
  note I = mvar_invD [OF assms(1)] and a = mvar_atD [OF mvar_invD(1) [OF assms(1)]]
  have c: "c \<in> takers pc" "c \<in> granted (takers pc) s f" using assms(3,4) by (auto simp: granted_def takers_def)
  have ct: "c \<notin> putters pc" using assms(3) by (simp add: putters_def)
  note k = token(2) [OF assms(1) c(2)]
  obtain q t where t: "sem_post (Some (sem_empty nm)) s = Some (0, t)" "sem_step e q s t" "queue_of (putters pc) t e"
    "sm_value (sem_at t e) = sm_value (sem_at s e) + 1"
    "if sm_value (sem_at s e) < 0 then \<exists>k\<in>putters pc. k \<notin> granted (putters pc) s e \<and> granted (putters pc) t e = insert k (granted (putters pc) s e)
     else granted (putters pc) t e = granted (putters pc) s e"
    by (rule post_side [of s c "sem_empty nm" e "putters pc"]) (use a assms(2) I(3,5) in auto)
  have o: "granted (takers pc) t f = granted (takers pc) s f" "queue_of (takers pc) t f = queue_of (takers pc) s f"
    by (rule other_side [OF t(2) I(2) [symmetric]]; use I(4) in simp)+
  have at: "mvar_at nm m e f t" using mvar_at_step [OF I(1) t(2)] by simp
  have fv: "sem_at t f = sem_at s f" using t(2) I(2) by (simp add: sem_step_def)
  have pid: "p_pid (pcb_at t c) = p_pid (pcb_at s c)" using step_pid [OF t(2), of c] I(4) [OF c(1)] by simp
  note d = queue_drop [of "takers pc" t f c]
  have f: "queue_of (takers pc - {c}) t f" "granted (takers pc - {c}) t f = {}"
    using d o I(6) k assms(4) pid fv by simp_all
  have tk: "putters pc - {c} = putters pc" using ct by simp
  have run: "user_mvar_take_done m nm s = Some (of_char (um_value (um_at s m)), t)"
    using t(1) by (simp add: user_mvar_take_done_def my_sem_post_def sys_sem_post_def)
  have l: "live t k" if "(pc(c := Out)) k \<noteq> Out" for k
    using that assms(1) step_live [OF t(2)] by (auto simp: mvar_inv_def split: if_splits)
  have cnt: "int (card (granted (putters pc) t e)) + max 0 (sm_value (sem_at t e)) = 1"
    using t(4,5) k by (auto split: if_splits)
  have "P = T @ [um_value (um_at s m)]" using I(10) k by simp
  then have "mvar_inv nm m e f t (pc(c := Out)) P (T @ [char_of (of_char (um_value (um_at s m)) :: int)])"
    using I(2) at f t(3) k l cnt fv unfolding mvar_inv_def pc_out tk by simp
  then show thesis using that [OF run] by simp
qed

lemma mvar_inv_start:
  assumes "mvar_at nm m e f s" "sm_value (sem_at s e) = 1" "sm_value (sem_at s f) = 0"
  shows "mvar_inv nm m e f s (\<lambda>_. Out) [] []"
proof -
  note a = mvar_atD [OF assms(1)]
  have q: "queue_of {} s i" if "find_sem s (Some n) = Some i" "0 \<le> sm_value (sem_at s i)" for n i
  proof -
    have "slot_ok (live_pids s) (sem_at s i)" "0 < sm_open (sem_at s i)"
      using find_sem_SomeD [OF that(1)] sem_inv_slot [OF a(2)] by auto
    then have "q_count (sm_wait (sem_at s i)) = 0" using that(2) by (simp add: slot_ok_def)
    then have "items (sm_wait (sem_at s i)) = []" by simp
    then show ?thesis using that(2) by (simp add: queue_of_def)
  qed
  show ?thesis using q [OF a(4)] q [OF a(5)] assms names_apart [OF assms(1)]
    by (simp add: mvar_inv_def putters_def takers_def granted_def)
qed

lemma mvar_inv_env:
  assumes inv: "mvar_inv nm m e f s pc P T" and env: "mvar_env nm m e f pc s t"
  shows "mvar_inv nm m e f t pc P T"
proof -
  have p: "p_pid (pcb_at t k) = p_pid (pcb_at s k)" if "k \<in> putters pc \<union> takers pc" for k
  proof -
    have "pc k \<noteq> Out" using that by (auto simp: putters_def takers_def)
    then show ?thesis using env unfolding mvar_env_def by blast
  qed
  have s: "sm_wait (sem_at t e) = sm_wait (sem_at s e)" "sm_value (sem_at t e) = sm_value (sem_at s e)"
    "sm_wait (sem_at t f) = sm_wait (sem_at s f)" "sm_value (sem_at t f) = sm_value (sem_at s f)"
    "um_at t m = um_at s m" "mvar_at nm m e f t"
    using env by (simp_all add: mvar_env_def)
  have ge: "granted (putters pc) t e = granted (putters pc) s e" "queue_of (putters pc) t e = queue_of (putters pc) s e"
    by (rule granted_queue_cong [OF _ s(1,2)]; use p in blast)+
  have gf: "granted (takers pc) t f = granted (takers pc) s f" "queue_of (takers pc) t f = queue_of (takers pc) s f"
    by (rule granted_queue_cong [OF _ s(3,4)]; use p in blast)+
  have "live t k" if "pc k \<noteq> Out" for k using env that unfolding mvar_env_def by blast
  then show ?thesis using inv s ge gf by (simp add: mvar_inv_def)
qed

lemma mvar_inv_kept:
  assumes inv: "mvar_inv nm m e f s pc P T" and k: "units_kept s t" and at: "mvar_at nm m e f t"
  shows "mvar_inv nm m e f t pc P T"
proof (rule mvar_inv_env [OF inv])
  have b: "benign s t" using k by (simp add: units_kept_def)
  have "live t k \<and> p_pid (pcb_at t k) = p_pid (pcb_at s k)" if "pc k \<noteq> Out" for k
  proof -
    have "live s k" using inv that by (simp add: mvar_inv_def)
    then show ?thesis using benign_live [OF b] pid_benign [OF b] by simp
  qed
  moreover have "0 < sm_open (sem_at t e)" "0 < sm_open (sem_at t f)" using at find_sem_SomeD by (auto simp: mvar_at_def)
  ultimately show "mvar_env nm m e f pc s t" using k at by (simp add: mvar_env_def units_kept_def um_at_def)
qed

lemma open_sems_kept:
  assumes at: "mvar_at nm m e f s"
  shows "units_kept s (snd (user_mvar_open_sems nm s))" "mvar_at nm m e f (snd (user_mvar_open_sems nm s))"
proof -
  note a = mvar_atD [OF at]
  obtain t where t: "my_sem_open (sem_empty nm) 1 s = (1, t)" "units_kept s t" "find_sem t = find_sem s"
    by (rule open_kept [OF a(2,1,4), of 1]) simp
  have i: "sem_inv t" "table_inv t" using t(2) by (simp_all add: units_kept_def)
  have ff: "find_sem t (Some (sem_full nm)) = Some f" using a(5) by (simp add: t(3))
  obtain u where u: "my_sem_open (sem_full nm) 0 t = (1, u)" "units_kept t u" "find_sem u = find_sem t"
    by (rule open_kept [OF i ff, of 0]) simp
  have eq: "user_mvar_open_sems nm s = (1, u)"
    by (simp add: user_mvar_open_sems_def case_prod_beta Let_def t(1) u(1))
  show k: "units_kept s (snd (user_mvar_open_sems nm s))" using units_kept_trans [OF t(2) u(2)] by (simp add: eq)
  show "mvar_at nm m e f (snd (user_mvar_open_sems nm s))"
    using k a u(3) t(3) find_umvar_frame [of u s] by (simp add: eq mvar_at_def units_kept_def)
qed

lemma close_sems_kept:
  assumes at: "mvar_at nm m e f s"
  shows "units_kept s (user_mvar_close_sems nm s)"
proof -
  note a = mvar_atD [OF at]
  note k = close_kept [OF a(2,1), of "sem_empty nm"]
  have "units_kept (snd (my_sem_close (sem_empty nm) s)) (snd (my_sem_close (sem_full nm) (snd (my_sem_close (sem_empty nm) s))))"
    using k by (intro close_kept) (simp_all add: units_kept_def)
  from units_kept_trans [OF k this] show ?thesis by (simp add: user_mvar_close_sems_def case_prod_beta)
qed

lemma mvar_run_inv: "mvar_run nm m e f s pc P T \<Longrightarrow> mvar_inv nm m e f s pc P T"
proof (induction rule: mvar_run.induct)
  case (start s)
  then show ?case by (rule mvar_inv_start)
next
  case (env s pc P T t)
  show ?case by (rule mvar_inv_env [OF env.IH env.hyps(2)])
next
  case (joins s pc P T r t)
  note k = open_sems_kept [OF mvar_invD(1) [OF joins.IH], unfolded joins.hyps(2) snd_conv]
  show ?case by (rule mvar_inv_kept [OF joins.IH k])
next
  case (leaves s pc P T t)
  show ?case
    by (rule mvar_inv_kept [OF leaves.IH close_sems_kept [OF mvar_invD(1) [OF leaves.IH], unfolded leaves.hyps(2)] leaves.hyps(3)])
next
  case (put_wait s pc P T c m' t v)
  obtain t' where "user_mvar_put_wait nm s = Some (Some m, t')" "mvar_inv nm m e f t' (pc(c := Putting v)) P T"
    by (rule put_wait_run [OF put_wait.IH put_wait.hyps(2-4)])
  moreover from this have "t' = t" using put_wait.hyps(5) by simp
  ultimately show ?case by blast
next
  case (put_done s pc P T c v r t)
  obtain t' where "user_mvar_put_done m nm v s = Some (0, t')" "mvar_inv nm m e f t' (pc(c := Out)) (P @ [v]) T"
    by (rule put_done_run [OF put_done.IH put_done.hyps(2-4)])
  moreover from this have "t' = t" using put_done.hyps(5) by simp
  ultimately show ?case by blast
next
  case (take_wait s pc P T c m' t)
  obtain t' where "user_mvar_take_wait nm s = Some (Some m, t')" "mvar_inv nm m e f t' (pc(c := Taking)) P T"
    by (rule take_wait_run [OF take_wait.IH take_wait.hyps(2-4)])
  moreover from this have "t' = t" using take_wait.hyps(5) by simp
  ultimately show ?case by blast
next
  case (take_done s pc P T c r t)
  obtain r' t' where "user_mvar_take_done m nm s = Some (r', t')" "mvar_inv nm m e f t' (pc(c := Out)) P (T @ [char_of r'])"
    by (rule take_done_run [OF take_done.IH take_done.hyps(2-4)])
  moreover from this have "t' = t" "r' = r" using take_done.hyps(5) by simp_all
  ultimately show ?case by blast
qed

subsection \<open>The one-place buffer\<close>

text \<open>C33: However any number of writers and readers of an MVar interleave, with blocking and waking, with participants that open the
  semaphores late or close them when others stay, and with whatever the kernel does to other objects in between,
  the values taken are the values put, in the same order and without loss or repetition, up to at most one,
  which is the value in the slot. At most one process at a time is between its wait and its post. When nobody is,
  a writer waits only while there is a value and a reader only while there is none, so they never all wait.
  This is for participants that end by themselves: no one is killed inside an operation, and the clean-up after a death
  gives no unit back (a kill can do so, and then a value is overwritten: the next property).\<close>

theorem mvar_one_place:
  assumes "mvar_run nm m e f s pc P T"
  shows "(P = T \<or> P = T @ [um_value (um_at s m)]) \<and> card (granted (putters pc) s e) + card (granted (takers pc) s f) \<le> 1 \<and>
    (granted (putters pc) s e = {} \<and> granted (takers pc) s f = {} \<longrightarrow>
       (items (sm_wait (sem_at s e)) \<noteq> [] \<longrightarrow> P = T @ [um_value (um_at s m)]) \<and>
       (items (sm_wait (sem_at s f)) \<noteq> [] \<longrightarrow> P = T))"
proof -
  have inv: "mvar_inv nm m e f s pc P T" by (rule mvar_run_inv [OF assms])
  note I = mvar_invD [OF inv]
  have q: "0 \<le> sm_value (sem_at s i) \<Longrightarrow> items (sm_wait (sem_at s i)) = []" if "queue_of A s i" for A i
    using that by (simp add: queue_of_def)
  have one: "card (granted (putters pc) s e) + card (granted (takers pc) s f) \<le> 1" using I(9) by linarith
  have idle: "(items (sm_wait (sem_at s e)) \<noteq> [] \<longrightarrow> P = T @ [um_value (um_at s m)]) \<and> (items (sm_wait (sem_at s f)) \<noteq> [] \<longrightarrow> P = T)"
    if "granted (putters pc) s e = {}" "granted (takers pc) s f = {}"
  proof (cases "0 < sm_value (sem_at s f)")
    case True
    then show ?thesis using I(10) q [OF I(6)] by simp
  next
    case False
    then have "0 < sm_value (sem_at s e)" using I(9) that by simp
    then show ?thesis using I(10) q [OF I(5)] that False by simp
  qed
  show ?thesis using I(10) one idle by simp
qed

text \<open>A kernel in which the MVar ''m'' has been created and its semaphores opened by two processes.\<close>

definition demo_m :: msys where
  "demo_m = ksys.extend
     (demo_k\<lparr>sem_table := [\<lparr>sm_name = ''me'', sm_value = 1, sm_wait = empty_pidq, sm_open = 2, sm_lock = UNLOCKED\<rparr>,
        \<lparr>sm_name = ''mf'', sm_value = 0, sm_wait = empty_pidq, sm_open = 2, sm_lock = UNLOCKED\<rparr>] @ drop 2 (sem_table demo_sem)\<rparr>)
     \<lparr>umvar_table = \<lparr>um_name = ''m'', um_value = CHR 0x00, um_in_use = True\<rparr> # replicate 15 \<lparr>um_name = [], um_value = CHR 0x00, um_in_use = False\<rparr>,
      umvar_reclaim = 0\<rparr>"

lemma demo_m_fields:
  "process_table demo_m = demo_table" "current_process demo_m = Some 1" "next_pid demo_m = 3" "length (sem_table demo_m) = 32"
  by (simp_all add: demo_m_def ksys.defs demo_sem_fields demo_k_def)

lemma demo_m_sem:
  "sem_at demo_m 0 = \<lparr>sm_name = ''me'', sm_value = 1, sm_wait = empty_pidq, sm_open = 2, sm_lock = UNLOCKED\<rparr>"
  "sem_at demo_m 1 = \<lparr>sm_name = ''mf'', sm_value = 0, sm_wait = empty_pidq, sm_open = 2, sm_lock = UNLOCKED\<rparr>"
  "2 \<le> i \<Longrightarrow> i < 32 \<Longrightarrow> sem_at demo_m i = sem_at demo_sem i"
proof -
  show "sem_at demo_m i = sem_at demo_sem i" if "2 \<le> i" "i < 32"
  proof -
    from le_Suc_ex [OF that(1)] obtain j where "i = 2 + j" by blast
    then show ?thesis using that by (simp add: demo_m_def ksys.defs sem_at_def demo_sem_fields)
  qed
qed (simp_all add: demo_m_def ksys.defs sem_at_def)

lemma demo_m_live: "live demo_m 1" "live demo_m 2" "p_pid (pcb_at demo_m 1) = 2" "p_pid (pcb_at demo_m 2) = 3"
  using demo_sem_live by (simp_all add: live_def pcb_at_def demo_m_fields demo_sem_fields)

lemma demo_m_at: "mvar_at ''m'' 0 0 1 demo_m"
proof -
  have names: "build_sem_names ''m'' = (''me'', ''mf'')" by (simp add: build_sem_names_def str_copy_loop_eq cstr_def)
  have t: "table_inv demo_m" by (rule demo_table_inv) (simp_all add: demo_m_fields)
  have z: "q_count empty_pidq = 0" by (simp add: empty_pidq_def)
  have "slot_ok (live_pids demo_m) (sem_at demo_m i)" if "i < 32" for i
  proof -
    consider "i = 0" | "i = 1" | "2 \<le> i" by linarith
    then show ?thesis
    proof cases
      case 3
      then show ?thesis using that by (simp add: demo_m_sem demo_sem_at slot_ok_def)
    qed (use demo_m_sem(1,2) in \<open>simp_all add: slot_ok_def z\<close>)
  qed
  then have s: "sem_inv demo_m" by (simp add: sem_inv_def demo_m_fields)
  have "find_sem demo_m (Some ''me'') = Some 0" "find_sem demo_m (Some ''mf'') = Some 1"
    unfolding find_sem_def by (rule first_idx_SomeI; use demo_m_sem(1,2) in \<open>simp add: sem_at_def demo_m_fields less_Suc_eq cstr_def\<close>)+
  moreover have "find_umvar demo_m (Some ''m'') = Some 0"
    by (simp add: find_umvar_def demo_m_def ksys.defs umvar_str_eq_def)
  ultimately show ?thesis using t s names by (simp add: mvar_at_def)
qed

lemma mvar_one_place_witness:
  "\<exists>(s :: msys) pc. mvar_run ''m'' 0 0 1 s pc [CHR ''A''] [] \<and> um_value (um_at s 0) = CHR ''A''"
proof -
  note at = demo_m_at
  have v: "sm_value (sem_at demo_m 0) = 1" "sm_value (sem_at demo_m 1) = 0" using demo_m_sem(1,2) by simp_all
  note r0 = mvar_run.start [OF at v]
  obtain t where t: "user_mvar_put_wait ''m'' demo_m = Some (Some 0, t)" "mvar_inv ''m'' 0 0 1 t ((\<lambda>_. Out)(1 := Putting CHR ''A'')) [] []"
    "1 \<in> granted (putters ((\<lambda>_. Out)(1 := Putting CHR ''A''))) t 0" "benign demo_m t"
    using put_wait_run [OF mvar_inv_start [OF at v], of 1 "CHR ''A''"] v(1) demo_m_fields(2) demo_m_live(1) by auto
  note r1 = mvar_run.put_wait [OF r0 demo_m_fields(2) demo_m_live(1) refl t(1), of "CHR ''A''"]
  have c: "current_process t = Some 1" using benign_current [OF t(4)] demo_m_fields(2) by simp
  have nq: "p_pid (pcb_at t 1) \<notin> set (items (sm_wait (sem_at t 0)))" using t(3) by (simp add: granted_def)
  obtain u where u: "user_mvar_put_done 0 ''m'' (CHR ''A'') t = Some (0, u)"
    by (rule put_done_run [OF t(2) c _ nq]) simp_all
  have r2: "mvar_run ''m'' 0 0 1 u ((\<lambda>_. Out)(1 := Putting CHR ''A'', 1 := Out)) ([] @ [CHR ''A'']) []"
    by (rule mvar_run.put_done [OF r1 c _ nq u]) simp
  from mvar_one_place [OF r2] have "um_value (um_at u 0) = CHR ''A''" by simp
  moreover have "mvar_run ''m'' 0 0 1 u ((\<lambda>_. Out)(1 := Putting CHR ''A'', 1 := Out)) [CHR ''A''] []" using r2 by simp
  ultimately show ?thesis by blast
qed

subsection \<open>A death\<close>

text \<open>The clean-up of a dead process gives a unit of \<open>i\<close> back if the PCB says that it holds one.\<close>

lemma cleaned_held:
  assumes s: "sem_inv s" and p: "live s p" and i: "i < MAX_SEMS" "0 < sm_open (sem_at s i)" and h: "has_bit (p_held_sems (pcb_at s p)) i"
  shows "sm_value (sem_at (cleaned p pid i s) i) = sm_value (sem_at s i) + 1"
    "sm_open (sem_at s i) \<le> sm_open (sem_at (cleaned p pid i s) i) + 1"
  using s i h
  by (simp_all add: cleaned_def Let_def sem_inv_def sem_at_upd_sem dequeued_def passed_on_def released_def drop_open_def)

lemma cleaned_free:
  assumes s: "sem_inv s" and i: "i < MAX_SEMS" and h: "\<not> has_bit (p_held_sems (pcb_at s p)) i" "pid \<notin> set (items (sm_wait (sem_at s i)))"
  shows "sm_value (sem_at (cleaned p pid i s) i) = sm_value (sem_at s i)"
    "sm_open (sem_at s i) \<le> sm_open (sem_at (cleaned p pid i s) i) + 1"
  using s i h
  by (simp_all add: cleaned_def Let_def sem_inv_def sem_at_upd_sem drop_open_def)

lemma cleaned_held_other:
  assumes "sem_inv s" "live s p" "j < MAX_SEMS" "0 < sm_open (sem_at s j)" "j \<noteq> i"
  shows "has_bit (p_held_sems (pcb_at (cleaned p pid j s) p)) i = has_bit (p_held_sems (pcb_at s p)) i"
proof -
  have "live (cleaned p pid j s) p" using benign_live [OF cleaned_ok(2) [OF assms(1-4)]] assms(2) by simp
  then show ?thesis using cleaned_other [OF assms, of pid] assms(2) by (auto simp: holders_def holds_def)
qed

lemma cleanup_loop_other:
  assumes "sem_cleanup_loop p pid is s = Some t" "sem_inv s" "live s p" "\<forall>j\<in>set is. j < MAX_SEMS" "i \<notin> set is"
  shows "sem_at t i = sem_at s i"
  using assms
proof (induction "is" arbitrary: s)
  case (Cons j js)
  show ?case
  proof (cases "0 < sm_open (sem_at s j)")
    case True
    have j: "j < MAX_SEMS" using Cons.prems(4) by simp
    have jl: "j < length (sem_table s)" using Cons.prems(2) j by (simp add: sem_inv_def)
    note ok = cleaned_ok [OF Cons.prems(2,3) j True, where pid = pid]
    have "sem_cleanup_step p pid j s = Some (cleaned p pid j s)"
      using sem_inv_slot [OF Cons.prems(2) jl]
      by (intro sem_cleanup_step_eq [OF live_less [OF Cons.prems(3)] jl True]) (simp_all add: slot_ok_def)
    then have "sem_at t i = sem_at (cleaned p pid j s) i"
      using Cons.IH [OF _ ok(1)] Cons.prems benign_live [OF ok(2)] by simp
    then show ?thesis using ok(3) Cons.prems(5) by simp
  next
    case False
    then show ?thesis using Cons by (simp add: sem_cleanup_step_def)
  qed
qed simp

definition unit_back :: "nat \<Rightarrow> nat \<Rightarrow> 'a semsys_scheme \<Rightarrow> int" where
  "unit_back p i s = (if has_bit (p_held_sems (pcb_at s p)) i then 1 else 0)"

lemma cleanup_loop_value:
  assumes "sem_cleanup_loop p pid is s = Some t" "sem_inv s" "live s p" "\<forall>j\<in>set is. j < MAX_SEMS" "distinct is"
    "0 < sm_open (sem_at s i)" "pid \<notin> set (items (sm_wait (sem_at s i)))" "i < MAX_SEMS"
  shows "sm_value (sem_at t i) = sm_value (sem_at s i) + (if i \<in> set is then unit_back p i s else 0) \<and>
    sm_open (sem_at s i) \<le> sm_open (sem_at t i) + 1 \<and> (i \<notin> set is \<longrightarrow> sem_at t i = sem_at s i)"
  using assms
proof (induction "is" arbitrary: s)
  case (Cons j js)
  show ?case
  proof (cases "0 < sm_open (sem_at s j)")
    case True
    have j: "j < MAX_SEMS" using Cons.prems(4) by simp
    have jl: "j < length (sem_table s)" using Cons.prems(2) j by (simp add: sem_inv_def)
    note ok = cleaned_ok [OF Cons.prems(2,3) j True, where pid = pid]
    have "sem_cleanup_step p pid j s = Some (cleaned p pid j s)"
      using sem_inv_slot [OF Cons.prems(2) jl]
      by (intro sem_cleanup_step_eq [OF live_less [OF Cons.prems(3)] jl True]) (simp_all add: slot_ok_def)
    then have run: "sem_cleanup_loop p pid js (cleaned p pid j s) = Some t" using Cons.prems(1) by simp
    have l: "live (cleaned p pid j s) p" using benign_live [OF ok(2)] Cons.prems(3) by simp
    show ?thesis
    proof (cases "j = i")
      case False
      then have at: "sem_at (cleaned p pid j s) i = sem_at s i" using ok(3) by simp
      have "unit_back p i (cleaned p pid j s) = unit_back p i s"
        using cleaned_held_other [OF Cons.prems(2,3) j True False] by (simp add: unit_back_def)
      then show ?thesis using Cons.IH [OF run ok(1) l] Cons.prems at False by simp
    next
      case ji: True
      have v: "sm_value (sem_at (cleaned p pid i s) i) = sm_value (sem_at s i) + unit_back p i s"
        "sm_open (sem_at s i) \<le> sm_open (sem_at (cleaned p pid i s) i) + 1"
        using cleaned_held [OF Cons.prems(2,3,8,6), of pid] cleaned_free [OF Cons.prems(2,8) _ Cons.prems(7), of p]
        by (cases "has_bit (p_held_sems (pcb_at s p)) i"; simp add: unit_back_def)+
      have "sem_at t i = sem_at (cleaned p pid i s) i"
        by (rule cleanup_loop_other [OF run [unfolded ji]]) (use ok(1) l Cons.prems(4,5) ji in auto)
      then show ?thesis using v ji by simp
    qed
  next
    case False
    then show ?thesis using Cons by (simp add: sem_cleanup_step_def) (metis less_irrefl)
  qed
qed simp

lemma cleanup_loop_names:
  fixes s :: "'a msys_scheme"
  assumes "sem_cleanup_loop p pid is s = Some t" "sem_inv s" "live s p" "\<forall>j\<in>set is. j < MAX_SEMS"
  shows "sm_name (sem_at t i) = sm_name (sem_at s i) \<and> length (sem_table t) = length (sem_table s) \<and> umvar_table t = umvar_table s"
  using assms
proof (induction "is" arbitrary: s)
  case (Cons j js)
  show ?case
  proof (cases "0 < sm_open (sem_at s j)")
    case True
    have j: "j < MAX_SEMS" using Cons.prems(4) by simp
    have jl: "j < length (sem_table s)" using Cons.prems(2) j by (simp add: sem_inv_def)
    note ok = cleaned_ok [OF Cons.prems(2,3) j True, where pid = pid]
    have "sem_cleanup_step p pid j s = Some (cleaned p pid j s)"
      using sem_inv_slot [OF Cons.prems(2) jl]
      by (intro sem_cleanup_step_eq [OF live_less [OF Cons.prems(3)] jl True]) (simp_all add: slot_ok_def)
    moreover have "umvar_table (cleaned p pid j s) = umvar_table s" by (simp add: cleaned_def Let_def)
    ultimately show ?thesis
      using Cons.IH [OF _ ok(1)] Cons.prems benign_live [OF ok(2)] cleaned_slot(2,3) [OF jl] by simp
  next
    case False
    then show ?thesis using Cons by (simp add: sem_cleanup_step_def)
  qed
qed simp

text \<open>Death of a process that waits for neither semaphore.\<close>

lemma mvar_die:
  assumes at: "mvar_at nm m e f s" and p: "process_get s pid = Some p"
    and o: "2 \<le> sm_open (sem_at s e)" "2 \<le> sm_open (sem_at s f)"
    and q: "pid \<notin> set (items (sm_wait (sem_at s e)))" "pid \<notin> set (items (sm_wait (sem_at s f)))"
  obtains t where "sem_cleanup_for_process pid s = Some t" "mvar_at nm m e f t" "um_at t m = um_at s m"
    "sm_value (sem_at t e) = sm_value (sem_at s e) + unit_back p e s" "sm_value (sem_at t f) = sm_value (sem_at s f) + unit_back p f s"
    "benign s t"
proof -
  note a = mvar_atD [OF at]
  have lp: "live s p" using process_get_Some [OF p] by simp
  obtain u where u: "sem_cleanup_loop p pid [0..<MAX_SEMS] s = Some u"
    using cleanup_loop_ok [OF a(2) lp, of "[0..<MAX_SEMS]" pid] by auto
  let ?t = "upd_pcb p (\<lambda>x. x\<lparr>p_held_sems := 0, p_opened_sems := 0\<rparr>) u"
  have t: "sem_cleanup_for_process pid s = Some ?t" using p u by (simp add: sem_cleanup_for_process_def del: upt_Suc)
  have inv: "sem_inv ?t" "benign s ?t" using sem_cleanup_ok [OF a(2) p] t by auto
  have idx: "e < MAX_SEMS" "f < MAX_SEMS" using find_sem_SomeD [OF a(4)] find_sem_SomeD [OF a(5)] a(2) by (auto simp: sem_inv_def)
  have r: "\<forall>j\<in>set [0..<MAX_SEMS]. j < MAX_SEMS" "distinct [0..<MAX_SEMS]" by auto
  have oe: "0 < sm_open (sem_at s e)" "0 < sm_open (sem_at s f)" using o by simp_all
  note ve = cleanup_loop_value [OF u a(2) lp r oe(1) q(1) idx(1)] and vf = cleanup_loop_value [OF u a(2) lp r oe(2) q(2) idx(2)]
  note nm = cleanup_loop_names [OF u a(2) lp r(1)]
  have le: "sm_open (sem_at u j) \<le> sm_open (sem_at s j)" for j by (rule cleanup_loop_slots [OF u a(2) lp r(1)])
  have fe: "find_sem ?t (Some n) = Some i" if "find_sem s (Some n) = Some i" "0 < sm_open (sem_at u i)" for n i
    by (rule find_sem_mono [OF that(1)]) (use nm le that(2) in auto)
  have "mvar_at nm m e f ?t"
    using a(3) table_inv_benign [OF inv(2) a(1)] inv(1) fe [OF a(4)] fe [OF a(5)] ve vf o nm find_umvar_frame [of ?t s]
    by (simp add: mvar_at_def)
  moreover have "um_at ?t m = um_at s m" using nm by (simp add: um_at_def)
  ultimately show thesis using that [OF t] ve vf idx inv(2) by simp
qed

text \<open>A put while both semaphores have free units, or at least nobody waits.\<close>

lemma put_free:
  assumes at: "mvar_at nm m e f s" and v: "0 < sm_value (sem_at s e)" "0 \<le> sm_value (sem_at s f)"
    and c: "current_process s = Some c" "live s c"
  obtains t u where "user_mvar_put_wait nm s = Some (Some m, t)" "p_pid (pcb_at t c) \<notin> set (items (sm_wait (sem_at t e)))"
    "user_mvar_put_done m nm x t = Some (0, u)" "um_value (um_at u m) = x" "mvar_at nm m e f u" "benign s u"
    "sm_value (sem_at u e) = sm_value (sem_at s e) - 1" "sm_value (sem_at u f) = sm_value (sem_at s f) + 1"
    "sm_open (sem_at u e) = sm_open (sem_at s e)" "sm_open (sem_at u f) = sm_open (sem_at s f)"
    "items (sm_wait (sem_at u e)) = []" "items (sm_wait (sem_at u f)) = []"
    "has_bit (p_held_sems (pcb_at u c)) e" "\<not> has_bit (p_held_sems (pcb_at u c)) f"
proof -
  note a = mvar_atD [OF at] and ef = names_apart [OF at]
  have idx: "e < MAX_SEMS" "f < MAX_SEMS" "f < length (sem_table s)" "e < length (sem_table s)"
    using find_sem_SomeD [OF a(4)] find_sem_SomeD [OF a(5)] a(2) by (auto simp: sem_inv_def)
  have empty: "items (sm_wait (sem_at s e)) = []" "items (sm_wait (sem_at s f)) = []"
    using sem_inv_slot [OF a(2) idx(3)] sem_inv_slot [OF a(2) idx(4)] find_sem_SomeD [OF a(4)] find_sem_SomeD [OF a(5)] v
    by (auto simp: slot_ok_def)
  obtain t where t: "sem_wait (Some (sem_empty nm)) s = Some (0, t)" "sem_step e (taken (sem_at s e)) s t" "has_bit (p_held_sems (pcb_at t c)) e"
    using mvar_wait_step [OF a(2,1) c a(4)] empty v by auto
  have bt: "benign s t" using t(2) by (simp add: sem_step_def)
  let ?t = "upd_um m (\<lambda>u. u\<lparr>um_value := x\<rparr>) t"
  have att: "mvar_at nm m e f ?t" using mvar_at_step(1) [OF at t(2)] by (simp add: mvar_at_def find_umvar_value)
  have ct: "current_process ?t = Some c" "live ?t c" using benign_current [OF bt] benign_live [OF bt] c by simp_all
  have st: "sem_at t e = taken (sem_at s e)" "sem_at t f = sem_at s f" using t(2) ef by (simp_all add: sem_step_def)
  note b = mvar_atD [OF att]
  obtain u where u: "sem_post (Some (sem_full nm)) ?t = Some (0, u)" "sem_step f (released (sem_at s f)) ?t u"
    using post_step [OF b(2,1) ct(1) b(5)] st v by auto
  have fl: "f < length (sem_table ?t)" using find_sem_SomeD [OF b(5)] by simp
  have "u = upd_pcb c (clear_held f) (upd_sem f released ?t)"
    using sem_post_eq [OF b(5) sem_inv_lock [OF b(2) fl] ct(1)] u(1) st v by simp
  then have held: "has_bit (p_held_sems (pcb_at u c)) j = (has_bit (p_held_sems (pcb_at t c)) j \<and> j \<noteq> f)" for j
    using live_less [OF ct(2)] idx(2) by (simp add: pcb_at_upd clear_held_def)
  have su: "sem_at u e = taken (sem_at s e)" "sem_at u f = released (sem_at s f)" using u(2) ef st by (simp_all add: sem_step_def)
  have bu: "benign ?t u" using u(2) by (simp add: sem_step_def)
  have "benign s ?t" using bt by (rule benign_trans) simp
  from this bu have bs: "benign s u" by (rule benign_trans)
  have atu: "mvar_at nm m e f u" "um_value (um_at u m) = x"
    using mvar_at_step [OF att u(2)]
      um_at_value [OF find_umvar_less [OF mvar_atD(3) [OF mvar_at_step(1) [OF at t(2)]]], of x] by simp_all
  have "user_mvar_put_wait nm s = Some (Some m, t)" "user_mvar_put_done m nm x t = Some (0, u)"
    using a(3) t(1) u(1) by (simp_all add: user_mvar_put_wait_def my_sem_wait_def sys_sem_wait_def
      user_mvar_put_done_def my_sem_post_def sys_sem_post_def)
  then show thesis
    using that [of t u] atu bs su held t(3) ef empty st by (simp add: taken_def released_def)
qed

text \<open>C34: Killing a writer breaks the MVar. A process that has put a value is recorded as the holder of the unit of the ''empty'' semaphore
  that it took, because \<open>put\<close> posts the other semaphore; when it is killed, even while it does nothing with the MVar, the clean-up of the kernel
  gives this unit back although the slot is full. Both semaphores then stand at 1, and the next writer, in whatever state the kernel goes on with the
  same semaphores, does not block and overwrites the value before anybody has taken it.\<close>

theorem mvar_kill_overwrites:
  fixes s :: "'a msys_scheme"
  assumes "mvar_at nm m e f s" "sm_value (sem_at s e) = 1" "sm_value (sem_at s f) = 0"
    and "current_process s = Some c" "live s c" "2 \<le> sm_open (sem_at s e)" "2 \<le> sm_open (sem_at s f)"
  shows "\<exists>s1 s2 s3. user_mvar_put_wait nm s = Some (Some m, s1) \<and> user_mvar_put_done m nm v s1 = Some (0, s2) \<and>
    sem_cleanup_for_process (p_pid (pcb_at s c)) s2 = Some s3 \<and> um_value (um_at s3 m) = v \<and>
    sm_value (sem_at s3 e) = 1 \<and> sm_value (sem_at s3 f) = 1 \<and>
    (\<forall>(u :: 'a msys_scheme) c'. mvar_at nm m e f u \<and> sem_at u e = sem_at s3 e \<and> sem_at u f = sem_at s3 f \<and> um_at u m = um_at s3 m \<and>
        current_process u = Some c' \<and> live u c' \<longrightarrow>
      (\<exists>u1 u2. user_mvar_put_wait nm u = Some (Some m, u1) \<and> p_pid (pcb_at u1 c') \<notin> set (items (sm_wait (sem_at u1 e))) \<and>
        user_mvar_put_done m nm v' u1 = Some (0, u2) \<and> um_value (um_at u2 m) = v'))"
proof -
  obtain s1 s2 where p: "user_mvar_put_wait nm s = Some (Some m, s1)" "user_mvar_put_done m nm v s1 = Some (0, s2)"
    "um_value (um_at s2 m) = v" "mvar_at nm m e f s2" "benign s s2"
    "sm_value (sem_at s2 e) = 0" "sm_value (sem_at s2 f) = 1" "2 \<le> sm_open (sem_at s2 e)" "2 \<le> sm_open (sem_at s2 f)"
    "items (sm_wait (sem_at s2 e)) = []" "items (sm_wait (sem_at s2 f)) = []"
    "has_bit (p_held_sems (pcb_at s2 c)) e" "\<not> has_bit (p_held_sems (pcb_at s2 c)) f"
    by (rule put_free [OF assms(1) _ _ assms(4,5), of v]) (use assms(2,3,6,7) in auto)
  let ?pid = "p_pid (pcb_at s c)"
  have g: "process_get s2 ?pid = Some c"
    using table_inv_get [OF mvar_atD(1) [OF assms(1)] assms(5)] benign_process_get [OF p(5)] by simp
  obtain s3 where d: "sem_cleanup_for_process ?pid s2 = Some s3" "um_at s3 m = um_at s2 m"
    "sm_value (sem_at s3 e) = sm_value (sem_at s2 e) + unit_back c e s2" "sm_value (sem_at s3 f) = sm_value (sem_at s2 f) + unit_back c f s2"
    by (rule mvar_die [OF p(4) g p(8,9)]) (use p(10,11) in auto)
  have v3: "sm_value (sem_at s3 e) = 1" "sm_value (sem_at s3 f) = 1" using d p by (simp_all add: unit_back_def)
  have again: "\<exists>u1 u2. user_mvar_put_wait nm u = Some (Some m, u1) \<and> p_pid (pcb_at u1 c') \<notin> set (items (sm_wait (sem_at u1 e))) \<and>
        user_mvar_put_done m nm v' u1 = Some (0, u2) \<and> um_value (um_at u2 m) = v'"
    if "mvar_at nm m e f u \<and> sem_at u e = sem_at s3 e \<and> sem_at u f = sem_at s3 f \<and> um_at u m = um_at s3 m \<and>
        current_process u = Some c' \<and> live u c'" for u :: "'a msys_scheme" and c'
  proof -
    have u: "mvar_at nm m e f u" "0 < sm_value (sem_at u e)" "0 \<le> sm_value (sem_at u f)" "current_process u = Some c'" "live u c'"
      using that v3 by simp_all
    obtain u1 u2 where "user_mvar_put_wait nm u = Some (Some m, u1)" "p_pid (pcb_at u1 c') \<notin> set (items (sm_wait (sem_at u1 e)))"
      "user_mvar_put_done m nm v' u1 = Some (0, u2)" "um_value (um_at u2 m) = v'"
      by (rule put_free [OF u, of v'])
    then show ?thesis by blast
  qed
  have val: "um_value (um_at s3 m) = v" using d(2) p(3) by simp
  show ?thesis
    by (rule exI [of _ s1], rule exI [of _ s2], rule exI [of _ s3]) (use p(1,2) d(1) v3 again val in blast)
qed

lemma mvar_kill_overwrites_witness:
  "\<exists>s3. sem_cleanup_for_process 2 (snd (the (user_mvar_put_done 0 ''m'' (CHR ''A'') (snd (the (user_mvar_put_wait ''m'' demo_m)))))) = Some s3 \<and>
     um_value (um_at s3 0) = CHR ''A'' \<and> sm_value (sem_at s3 0) = 1 \<and> sm_value (sem_at s3 1) = 1"
proof -
  have v: "sm_value (sem_at demo_m 0) = 1" "sm_value (sem_at demo_m 1) = 0" "2 \<le> sm_open (sem_at demo_m 0)" "2 \<le> sm_open (sem_at demo_m 1)"
    using demo_m_sem(1,2) by simp_all
  from mvar_kill_overwrites [OF demo_m_at v(1,2) demo_m_fields(2) demo_m_live(1) v(3,4), of "CHR ''A''" "CHR ''B''"]
  obtain s1 s2 s3 where "user_mvar_put_wait ''m'' demo_m = Some (Some 0, s1)" "user_mvar_put_done 0 ''m'' (CHR ''A'') s1 = Some (0, s2)"
    "sem_cleanup_for_process (p_pid (pcb_at demo_m 1)) s2 = Some s3"
    "um_value (um_at s3 0) = CHR ''A''" "sm_value (sem_at s3 0) = 1" "sm_value (sem_at s3 1) = 1" by blast
  then show ?thesis unfolding demo_m_live(3) by simp
qed

end
