(* ===== verification/Utils.thy ===== *)
theory Utils
  imports Mvar
begin

text \<open>
  The small commands of \<open>Userland/c/commands\<close>: \<open>cat\<close>, \<open>filter\<close>, \<open>wc\<close>, \<open>kill\<close>, \<open>nice\<close>, \<open>block\<close>, \<open>mem\<close>. A command
  that reads its standard input until the end is a function of the results of its calls of \<open>sys_read\<close>, in order; the list
  ends while the program is blocked in the next call. Each result is the number returned and the bytes in the buffer;
  \<open>None\<close> stands for the value -1 of a call that has to be repeated. The output of a program is the list of the buffers
  it writes. The commands that act on the kernel are functions of its state.
\<close>

type_synonym read_result = "string option"

abbreviation (input) BUF_SIZE :: nat where "BUF_SIZE \<equiv> 128"

subsection \<open>Text\<close>

fun cat :: "read_result list \<Rightarrow> string list" where
  "cat [] = []"
| "cat (None # rs) = cat rs"
| "cat (Some b # rs) = (if length b = 0 then [] else b # cat rs)"

definition is_vowel :: "char \<Rightarrow> bool" where
  "is_vowel c \<longleftrightarrow> c = CHR ''a'' \<or> c = CHR ''e'' \<or> c = CHR ''i'' \<or> c = CHR ''o'' \<or> c = CHR ''u'' \<or>
     c = CHR ''A'' \<or> c = CHR ''E'' \<or> c = CHR ''I'' \<or> c = CHR ''O'' \<or> c = CHR ''U''"

text \<open>The loop compacts the buffer in place: the write index is never in front of the read index.\<close>

fun filter_loop :: "nat list \<Rightarrow> string \<times> nat \<Rightarrow> string \<times> nat" where
  "filter_loop [] (buf, out_len) = (buf, out_len)"
| "filter_loop (i # is) (buf, out_len) =
     filter_loop is (if \<not> is_vowel (buf ! i) then (buf[out_len := buf ! i], out_len + 1) else (buf, out_len))"

fun filter_cmd :: "read_result list \<Rightarrow> string list" where
  "filter_cmd [] = []"
| "filter_cmd (None # rs) = filter_cmd rs"
| "filter_cmd (Some b # rs) =
     (if length b = 0 then []
      else
        let (buf, out_len) = filter_loop [0..<length b] (b, 0)
        in (if out_len > 0 then [take out_len buf] else []) @ filter_cmd rs)"

definition is_space :: "char \<Rightarrow> bool" where
  "is_space c \<longleftrightarrow> c = CHR '' '' \<or> c = CHR 0x09 \<or> c = CHR 0x0A \<or> c = CHR 0x0D \<or> c = CHR 0x0C \<or> c = CHR 0x0B"

record wc_state =
  wc_lines :: u64
  wc_words :: u64
  wc_bytes :: u64
  wc_in_word :: bool

definition wc_char :: "char \<Rightarrow> wc_state \<Rightarrow> wc_state" where
  "wc_char c w =
     (let w1 = w\<lparr>wc_bytes := wc_bytes w + 1\<rparr>;
          w2 = (if c = CHR 0x0A then w1\<lparr>wc_lines := wc_lines w1 + 1\<rparr> else w1)
      in if is_space c then w2\<lparr>wc_in_word := False\<rparr>
         else if \<not> wc_in_word w2 then w2\<lparr>wc_in_word := True, wc_words := wc_words w2 + 1\<rparr>
         else w2)"

text \<open>The counts when the end of the input is read; \<open>None\<close> while the program waits.\<close>

fun wc_loop :: "read_result list \<Rightarrow> wc_state \<Rightarrow> wc_state option" where
  "wc_loop [] w = None"
| "wc_loop (None # rs) w = wc_loop rs w"
| "wc_loop (Some b # rs) w = (if length b = 0 then Some w else wc_loop rs (fold wc_char b w))"

definition wc_report :: "wc_state \<Rightarrow> string" where
  "wc_report w =
     [CHR 0x0A] @ ''Lineas: '' @ num_to_str (wc_lines w) 10 @ [CHR 0x0A] @ ''Palabras: '' @ num_to_str (wc_words w) 10 @
     [CHR 0x0A] @ ''Bytes: '' @ num_to_str (wc_bytes w) 10 @ [CHR 0x0A]"

definition wc :: "read_result list \<Rightarrow> string option" where
  "wc rs = map_option wc_report (wc_loop rs \<lparr>wc_lines = 0, wc_words = 0, wc_bytes = 0, wc_in_word = False\<rparr>)"

subsection \<open>Processes and memory\<close>

definition kill_cmd :: "string list \<Rightarrow> 'a ksys_scheme \<Rightarrow> (int \<times> 'a ksys_scheme) option" where
  "kill_cmd argv s =
     (if length argv \<noteq> 1 then Some (-1, shellPrintString (''uso: kill <pid>'' @ [CHR 0x0A]) s)
      else
        let pid = satoi (Some (argv ! 0))
        in if sint pid < 0 then Some (-1, shellPrintString (''PID invalido'' @ [CHR 0x0A]) s)
           else map_option (\<lambda>s1. (0, shellPrintString ('' terminado.'' @ [CHR 0x0A]) (shellPrintString (num_to_str pid 10)
                  (shellPrintString ''Proceso '' s1)))) (sys_kill pid s))"

definition nice_cmd :: "string list \<Rightarrow> 'a fdsys_scheme \<Rightarrow> int \<times> 'a fdsys_scheme" where
  "nice_cmd argv s =
     (if length argv \<noteq> 2 then (-1, shellPrintString (''uso: nice <pid> <prioridad>'' @ [CHR 0x0A]) s)
      else
        let pid = satoi (Some (argv ! 0)); prio = satoi (Some (argv ! 1))
        in if sint pid < 0 then (-1, shellPrintString (''PID invalido'' @ [CHR 0x0A]) s)
           else if sint prio < 1 \<or> sint prio > 5
           then (-1, shellPrintString (''Prioridad fuera de rango (1-5)'' @ [CHR 0x0A]) s)
           else
             let s1 = sys_nice pid prio s
             in (0, shellPrintString [CHR 0x0A] (shellPrintString (num_to_str prio 10) (shellPrintString '' cambiada a ''
                  (shellPrintString (num_to_str pid 10) (shellPrintString ''Prioridad de '' s1))))))"

definition block_cmd :: "string list \<Rightarrow> 'a fdsys_scheme \<Rightarrow> int \<times> 'a fdsys_scheme" where
  "block_cmd argv s =
     (if length argv \<noteq> 1 then (-1, shellPrintString (''uso: block <pid>'' @ [CHR 0x0A]) s)
      else
        let pid = satoi (Some (argv ! 0))
        in if sint pid < 0 then (-1, shellPrintString (''PID invalido'' @ [CHR 0x0A]) s)
           else
             let (rc, s1) = sys_block pid s
             in if rc < 0
                then (-1, shellPrintString (''No se puede modificar un proceso bloqueado por syscall interna.'' @ [CHR 0x0A]) s1)
                else (0, shellPrintString ('' alternado.'' @ [CHR 0x0A]) (shellPrintString (num_to_str pid 10)
                       (shellPrintString ''Estado de '' s1))))"

text \<open>\<open>mem\<close> prints what \<open>sys_mem_status\<close> stores.\<close>

definition mem_line :: "string \<Rightarrow> nat \<Rightarrow> string \<Rightarrow> 'a fdsys_scheme \<Rightarrow> 'a fdsys_scheme" where
  "mem_line label n unit_name s =
     shellPrintString (unit_name @ [CHR 0x0A]) (shellPrintString (num_to_str (of_nat n) 10) (shellPrintString label s))"

definition mem_cmd :: "mem_status \<Rightarrow> 'a fdsys_scheme \<Rightarrow> (int \<times> 'a fdsys_scheme) option" where
  "mem_cmd st0 s =
     (case sys_mem_status (Some st0) s of
        None \<Rightarrow> None
      | Some st1 \<Rightarrow>
          let st = the st1
          in Some (0, mem_line ''Alloc count: '' (ms_alloc_count st) []
               (mem_line ''Used (kern): '' (ms_used_kernel st) '' bytes'' (mem_line ''Used (user): '' (ms_used st) '' bytes''
               (mem_line ''Free:        '' (ms_free st) '' bytes'' (mem_line ''Total:       '' (ms_total st) '' bytes'' s))))))"

text \<open>\<open>is_valid_uint\<close> of \<open>tests/test_util.c\<close>.\<close>

definition is_valid_uint :: "string option \<Rightarrow> bool" where
  "is_valid_uint str =
     (case str of
        None \<Rightarrow> False
      | Some s \<Rightarrow> cget s 0 \<noteq> NUL \<and> list_all (\<lambda>c. \<not> (of_char c < (48 :: nat) \<or> of_char c > (57 :: nat))) (cstr s))"

end
