(* ===== verification/Utils_Props.thy ===== *)
theory Utils_Props
  imports Utils
begin

text \<open>
  The text commands do not depend on how the input is cut into reads: \<open>cat\<close> writes the text that is read, \<open>filter\<close> the
  text without vowels, \<open>wc\<close> counts. Numbers that are printed read back.
\<close>

subsection \<open>Input\<close>

text \<open>The bytes that are read up to the end of the input, and whether it came.\<close>

fun input_of :: "read_result list \<Rightarrow> string" where
  "input_of [] = []"
| "input_of (None # rs) = input_of rs"
| "input_of (Some b # rs) = (if b = [] then [] else b @ input_of rs)"

fun ended :: "read_result list \<Rightarrow> bool" where
  "ended [] = False"
| "ended (None # rs) = ended rs"
| "ended (Some b # rs) = (b = [] \<or> ended rs)"

lemma cat_text: "concat (cat rs) = input_of rs"
  by (induction rs rule: cat.induct) auto

lemma filter_loop_eq:
  assumes "filter_loop [i..<length b] (B, n) = (buf, out_len)" "i \<le> length b" "length B = length b" "drop i B = drop i b"
    "take n B = filter (\<lambda>c. \<not> is_vowel c) (take i b)" "n = length (filter (\<lambda>c. \<not> is_vowel c) (take i b))"
  shows "take out_len buf = filter (\<lambda>c. \<not> is_vowel c) b \<and> out_len = length (filter (\<lambda>c. \<not> is_vowel c) b)"
  using assms
proof (induction "length b - i" arbitrary: i B n)
  case 0
  then show ?case by simp
next
  case (Suc k)
  have i: "i < length b" using Suc.hyps(2) by simp
  have up: "[i..<length b] = i # [Suc i..<length b]" using i by (simp add: upt_conv_Cons)
  have t: "take (Suc i) b = take i b @ [b ! i]" using i by (simp add: take_Suc_conv_app_nth)
  have "length (filter (\<lambda>c. \<not> is_vowel c) (take i b)) \<le> length (take i b)" by (rule length_filter_le)
  then have n: "n \<le> i" using Suc.prems(6) i by simp
  have Bi: "B ! i = b ! i" using Suc.prems(3,4) i by (metis nth_via_drop Cons_nth_drop_Suc)
  have dS: "drop (Suc i) B = drop (Suc i) b" using Suc.prems(4) by (metis drop_Suc tl_drop)
  have k: "k = length b - Suc i" using Suc.hyps(2) by simp
  show ?case
  proof (cases "is_vowel (b ! i)")
    case True
    have "filter_loop [Suc i..<length b] (B, n) = (buf, out_len)" using Suc.prems(1) True Bi unfolding up by simp
    then show ?thesis by (rule Suc.hyps(1) [OF k]) (use Suc.prems dS True i in \<open>simp_all add: t\<close>)
  next
    case False
    have "filter_loop [Suc i..<length b] (B[n := b ! i], n + 1) = (buf, out_len)" using Suc.prems(1) False Bi unfolding up by simp
    moreover have "take (n + 1) (B[n := b ! i]) = take n B @ [b ! i]"
      using n i Suc.prems(3) by (simp add: take_Suc_conv_app_nth)
    moreover have "drop (Suc i) (B[n := b ! i]) = drop (Suc i) b" using n dS by (simp add: drop_update_cancel)
    ultimately show ?thesis
      by (intro Suc.hyps(1) [OF k]) (use Suc.prems False i in \<open>simp_all add: t\<close>)
  qed
qed

lemma filter_text:
  "concat (filter_cmd rs) = filter (\<lambda>c. \<not> is_vowel c) (input_of rs) \<and> [] \<notin> set (filter_cmd rs)"
proof (induction rs rule: filter_cmd.induct)
  case (3 b rs)
  obtain buf n where l: "filter_loop [0..<length b] (b, 0) = (buf, n)" by fastforce
  have f: "take n buf = filter (\<lambda>c. \<not> is_vowel c) b" "n = length (filter (\<lambda>c. \<not> is_vowel c) b)"
    using conjunct1 [OF filter_loop_eq [OF l]] conjunct2 [OF filter_loop_eq [OF l]] by simp_all
  show ?case
  proof (cases "b = []")
    case False
    have "filter_cmd (Some b # rs) = (if 0 < n then [take n buf] else []) @ filter_cmd rs" using False l by simp
    then show ?thesis using 3 [OF _ l [symmetric] refl] False f by (cases "n = 0") auto
  qed simp
qed auto

subsection \<open>Counting\<close>

text \<open>The reference: the maximal blocks without white space.\<close>

function words_of :: "string \<Rightarrow> string list" where
  "words_of t =
     (if dropWhile is_space t = [] then []
      else takeWhile (\<lambda>c. \<not> is_space c) (dropWhile is_space t) #
        words_of (dropWhile (\<lambda>c. \<not> is_space c) (dropWhile is_space t)))"
  by pat_completeness auto
termination
proof (relation "measure length", goal_cases)
  case (2 t)
  then obtain c r where d: "dropWhile is_space t = c # r" by (cases "dropWhile is_space t") auto
  then have "\<not> is_space c" by (simp add: dropWhile_eq_Cons_conv)
  moreover have "length (dropWhile (\<lambda>c. \<not> is_space c) r) \<le> length r" by (rule length_dropWhile_le)
  moreover have "length (c # r) \<le> length t" using length_dropWhile_le [of is_space t] d by simp
  ultimately show ?case by (simp add: d)
qed simp

declare words_of.simps [simp del]

fun starts :: "bool \<Rightarrow> string \<Rightarrow> nat" where
  "starts b [] = 0"
| "starts b (c # t) = (if is_space c then starts False t else (if b then 0 else 1) + starts True t)"

lemma starts_drop: "starts False (dropWhile is_space t) = starts False t"
  "starts True t = starts False (dropWhile (\<lambda>c. \<not> is_space c) t)"
  by (induction t) auto

lemma starts_words: "starts False t = length (words_of t)"
proof (induction t rule: words_of.induct)
  case (1 t)
  show ?case
  proof (cases "dropWhile is_space t")
    case Nil
    have "starts False (dropWhile is_space t) = 0" unfolding Nil by simp
    then have "starts False t = 0" using starts_drop(1) [of t] by simp
    then show ?thesis using Nil by (simp add: words_of.simps [of t])
  next
    case (Cons c r)
    then have c: "\<not> is_space c" by (simp add: dropWhile_eq_Cons_conv)
    have "starts False t = 1 + starts True r" using starts_drop(1) [of t] Cons c by simp
    also have "starts True r = length (words_of (dropWhile (\<lambda>c. \<not> is_space c) (dropWhile is_space t)))"
      using 1 Cons c starts_drop(2) [of r] by simp
    finally show ?thesis using Cons by (simp add: words_of.simps [of t])
  qed
qed

lemma wc_fold:
  "fold wc_char t w = \<lparr>wc_lines = wc_lines w + of_nat (count_list t (CHR 0x0A)), wc_words = wc_words w + of_nat (starts (wc_in_word w) t),
     wc_bytes = wc_bytes w + of_nat (length t), wc_in_word = (if t = [] then wc_in_word w else \<not> is_space (last t))\<rparr>"
proof (induction t arbitrary: w)
  case (Cons c t)
  show ?case unfolding fold_Cons comp_apply Cons.IH
    by (auto simp: wc_char_def Let_def is_space_def)
qed simp

lemma starts_append: "starts b (s @ t) = starts b s + starts (if s = [] then b else \<not> is_space (last s)) t"
  by (induction s arbitrary: b) auto

lemma wc_loop_eq:
  "ended rs \<Longrightarrow> wc_loop rs w = Some (fold wc_char (input_of rs) w)"
  by (induction rs w rule: wc_loop.induct) auto

subsection \<open>Numbers\<close>

text \<open>The value of a decimal numeral.\<close>

definition decimal :: "string \<Rightarrow> nat" where
  "decimal str = foldl (\<lambda>n c. 10 * n + (of_char c - 48)) 0 str"

lemma num_digits_10:
  "set (num_digits 10 n) \<subseteq> char_of ` {48..57 :: nat} \<and> foldr (\<lambda>c n. 10 * n + (of_char c - 48)) (num_digits 10 n) 0 = n"
proof (induction n rule: less_induct)
  case (less n)
  show ?case
  proof (cases "n = 0")
    case True
    then show ?thesis by (simp add: num_digits.simps)
  next
    case False
    have d: "num_digits 10 n = char_of (48 + n mod 10) # num_digits 10 (n div 10)"
      using False by (simp add: num_digits.simps [of 10 n] Let_def)
    have "of_char (char_of (48 + n mod 10) :: char) = 48 + n mod 10" by (simp add: of_char_mod_256 take_bit_nat_eq_self)
    then show ?thesis using less.IH [of "n div 10"] False unfolding d by (auto simp: image_iff)
  qed
qed

lemma num_to_str_10:
  "num_to_str v 10 = (if v = 0 then ''0'' else rev (num_digits 10 (unat v)))"
  by (simp add: num_to_str_def Let_def)

lemma num_to_str_decimal: "decimal (num_to_str v 10) = unat v" "set (num_to_str v 10) \<subseteq> char_of ` {48..57 :: nat}" "num_to_str v 10 \<noteq> []"
proof -
  show "decimal (num_to_str v 10) = unat v"
    using num_digits_10 [of "unat v"] by (simp add: num_to_str_10 decimal_def foldl_conv_foldr)
  have "char_of (48 :: nat) = CHR ''0''" by (simp add: char_of_eq_iff)
  then have "CHR ''0'' \<in> char_of ` {48..57 :: nat}" by (intro image_eqI [where x = 48]) simp_all
  then show "set (num_to_str v 10) \<subseteq> char_of ` {48..57 :: nat}"
    using num_digits_10 [of "unat v"] by (simp add: num_to_str_10)
  have "num_digits 10 (unat v) \<noteq> []" if "v \<noteq> 0"
    using that by (simp add: num_digits.simps [of 10 "unat v"] unat_eq_0 Let_def)
  then show "num_to_str v 10 \<noteq> []" by (simp add: num_to_str_10)
qed

text \<open>What is printed reads back.\<close>

lemma digit_char:
  assumes "c \<in> char_of ` {48..57 :: nat}"
  shows "of_char c - 48 < (10 :: nat)" "(48 :: nat) \<le> of_char c" "of_char c \<le> (57 :: nat)" "c \<noteq> NUL" "c \<noteq> CHR ''-''"
    "(of_char c :: u64) = of_nat (of_char c - 48) + 48"
proof -
  from assms obtain n :: nat where n: "c = char_of n" "48 \<le> n" "n \<le> 57" by auto
  then have v: "of_char c = n" by (simp add: of_char_mod_256 take_bit_nat_eq_self)
  then show "of_char c - 48 < (10 :: nat)" "(48 :: nat) \<le> of_char c" "of_char c \<le> (57 :: nat)" using n by simp_all
  have z: "of_char NUL = (0 :: nat)" "of_char CHR ''-'' = (45 :: nat)" by simp_all
  show "c \<noteq> NUL" using v z(1) n(2) by (cases "c = NUL") simp_all
  show "c \<noteq> CHR ''-''" using v z(2) n(2) by (cases "c = CHR ''-''") simp_all
  have "(of_char c :: u64) = of_nat (of_char c)" by (simp add: of_nat_of_char)
  then show "(of_char c :: u64) = of_nat (of_char c - 48) + 48" using v n(2) by simp
qed

lemma satoi_loop_digits:
  assumes "set (drop i str) \<subseteq> char_of ` {48..57 :: nat}" "i \<le> length str"
  shows "satoi_loop str i (of_nat n) = Some (of_nat (foldl (\<lambda>n c. 10 * n + (of_char c - 48)) n (drop i str)))"
  using assms
proof (induction "length str - i" arbitrary: i n)
  case 0
  then show ?case by (simp add: satoi_loop.simps [of str i] cget_def)
next
  case (Suc k)
  have i: "i < length str" using Suc.hyps(2) by simp
  have d: "drop i str = str ! i # drop (Suc i) str" using i by (simp add: Cons_nth_drop_Suc)
  have c: "str ! i \<in> char_of ` {48..57 :: nat}" using Suc.prems(1) unfolding d by simp
  note dc = digit_char [OF c]
  have "(of_nat n :: u64) * 10 + of_char (str ! i) - 48 = of_nat (10 * n + (of_char (str ! i) - 48))"
    unfolding dc(6) by (simp add: mult.commute)
  moreover have "satoi_loop str (Suc i) (of_nat (10 * n + (of_char (str ! i) - 48))) =
      Some (of_nat (foldl (\<lambda>n c. 10 * n + (of_char c - 48)) (10 * n + (of_char (str ! i) - 48)) (drop (Suc i) str)))"
    by (rule Suc.hyps(1)) (use Suc.hyps(2) Suc.prems(1) i d in auto)
  ultimately show ?case
    using dc i d by (subst satoi_loop.simps) (simp add: cget_def mult.commute)
qed

lemma satoi_num_to_str: "satoi (Some (num_to_str v 10)) = v"
proof -
  let ?s = "num_to_str v 10"
  note d = num_to_str_decimal [of v]
  have "cget ?s 0 = hd ?s" "hd ?s \<in> set ?s" using d(3) by (simp_all add: cget_def hd_conv_nth)
  then have "cget ?s 0 \<noteq> CHR ''-''" using d(2) digit_char(5) by (metis subsetD)
  moreover have "satoi_loop ?s 0 (of_nat 0) = Some (of_nat (decimal ?s))"
    using satoi_loop_digits [of 0 ?s 0] d(2) by (simp add: decimal_def)
  ultimately show ?thesis using d(1) by (simp add: satoi_def Let_def)
qed

subsection \<open>Pipelines of text commands\<close>

text \<open>C38: The text commands compute on the whole text, however reads cut it: in \<open>cat | filter | wc\<close>, where each program reads what the
  one before it has written in any portions and with any number of repeated calls, \<open>wc\<close> prints in decimal how many newlines, words (maximal
  blocks without white space) and bytes the input without its vowels has, modulo \<open>2\<^sup>6\<^sup>4\<close>.\<close>

theorem text_pipeline:
  assumes "input_of rs2 = concat (cat rs1)" "input_of rs3 = concat (filter_cmd rs2)" "ended rs3"
  defines "t \<equiv> filter (\<lambda>c. \<not> is_vowel c) (input_of rs1)"
  shows "\<exists>l w b. wc rs3 = Some ([CHR 0x0A] @ ''Lineas: '' @ l @ [CHR 0x0A] @ ''Palabras: '' @ w @ [CHR 0x0A] @ ''Bytes: '' @ b @ [CHR 0x0A]) \<and>
    decimal l = count_list t (CHR 0x0A) mod 2 ^ 64 \<and> decimal w = length (words_of t) mod 2 ^ 64 \<and> decimal b = length t mod 2 ^ 64"
proof -
  have "input_of rs3 = t" using assms(1,2) filter_text [of rs2] cat_text [of rs1] by (simp add: t_def)
  then have "wc rs3 = Some (wc_report (fold wc_char t \<lparr>wc_lines = 0, wc_words = 0, wc_bytes = 0, wc_in_word = False\<rparr>))"
    using wc_loop_eq [OF assms(3)] by (simp add: wc_def)
  then have "wc rs3 = Some ([CHR 0x0A] @ ''Lineas: '' @ num_to_str (of_nat (count_list t (CHR 0x0A))) 10 @ [CHR 0x0A] @
      ''Palabras: '' @ num_to_str (of_nat (length (words_of t))) 10 @ [CHR 0x0A] @ ''Bytes: '' @ num_to_str (of_nat (length t)) 10 @ [CHR 0x0A])"
    by (simp add: wc_fold wc_report_def starts_words)
  moreover have "decimal (num_to_str (of_nat k) 10) = k mod 2 ^ 64" for k
    using num_to_str_decimal(1) [of "of_nat k"] by (simp add: unat_of_nat)
  ultimately show ?thesis by blast
qed

lemma text_pipeline_witness:
  "\<exists>l w b. wc [Some ''hll'', None, Some '' wrld'', Some []] =
      Some ([CHR 0x0A] @ ''Lineas: '' @ l @ [CHR 0x0A] @ ''Palabras: '' @ w @ [CHR 0x0A] @ ''Bytes: '' @ b @ [CHR 0x0A]) \<and>
    decimal l = 0 \<and> decimal w = 2 \<and> decimal b = 8"
proof -
  define rs1 :: "read_result list" where "rs1 = [Some ''hello w'', Some ''orld'', Some []]"
  have f: "filter (\<lambda>c. \<not> is_vowel c) (input_of rs1) = ''hll wrld''" by (simp add: rs1_def is_vowel_def)
  have i: "input_of [Some (input_of rs1), Some []] = concat (cat rs1)" by (simp add: rs1_def)
  have "input_of [Some ''hll'', None, Some '' wrld'', Some []] = concat (filter_cmd [Some (input_of rs1), Some []])"
    using filter_text [of "[Some (input_of rs1), Some []]"] f by (simp add: rs1_def)
  note run = text_pipeline [OF i this, unfolded f]
  have counts: "count_list ''hll wrld'' (CHR 0x0A) mod 2 ^ 64 = 0" "length (words_of ''hll wrld'') mod 2 ^ 64 = 2"
    "length ''hll wrld'' mod 2 ^ 64 = 8" by (simp_all add: words_of.simps is_space_def)
  show ?thesis using run unfolding counts by (simp only: ended.simps list.distinct simp_thms)
qed

end
