(* ===== verification/Line_Reader.thy ===== *)
theory Line_Reader
  imports CStr
begin

text \<open>
  The input line of the shell and its copy of the screen: \<open>shellReadLine\<close> with the blinking cursor of
  \<open>Userland/c/shell/shell.c\<close>, the redraw buffer of \<open>userlib.c\<close>, and the clock of \<open>printTime\<close> and \<open>printDate\<close>. The system calls of
  one run are its trace of output actions; each pass of the reading loop has the character that was read, if any, and the
  value of \<open>sys_ticks\<close>.
\<close>

abbreviation (input) REDRAW_BUFF :: nat where "REDRAW_BUFF \<equiv> 4096"
abbreviation (input) CURSOR :: char where "CURSOR \<equiv> CHR ''_''"
abbreviation (input) BS :: char where "BS \<equiv> CHR 0x08"
abbreviation (input) NL :: char where "NL \<equiv> CHR 0x0A"
abbreviation (input) STDOUT :: u64 where "STDOUT \<equiv> 1"

datatype ui_action = Written u64 string | FontUp | FontDown | Cleared

record ui =
  cursorVisible :: bool
  redrawBuffer :: "(char \<times> u64) list"
  ui_out :: "ui_action list"

definition ui_do :: "ui_action \<Rightarrow> ui \<Rightarrow> ui" where
  "ui_do a u = u\<lparr>ui_out := ui_out u @ [a]\<rparr>"

definition showCursor :: "ui \<Rightarrow> ui" where
  "showCursor u = (if \<not> cursorVisible u then (ui_do (Written STDOUT [CURSOR]) u)\<lparr>cursorVisible := True\<rparr> else u)"

definition hideCursor :: "ui \<Rightarrow> ui" where
  "hideCursor u = (if cursorVisible u then (ui_do (Written STDOUT [BS]) u)\<lparr>cursorVisible := False\<rparr> else u)"

subsection \<open>The redraw buffer\<close>

definition redraw_reset :: "ui \<Rightarrow> ui" where
  "redraw_reset u = u\<lparr>redrawBuffer := []\<rparr>"

definition redraw_append_char :: "char \<Rightarrow> u64 \<Rightarrow> ui \<Rightarrow> ui" where
  "redraw_append_char c fd u =
     (let r = (if length (redrawBuffer u) \<ge> REDRAW_BUFF then tl (redrawBuffer u) else redrawBuffer u)
      in u\<lparr>redrawBuffer := r @ [(c, fd)]\<rparr>)"

definition ui_putchar :: "char \<Rightarrow> u64 \<Rightarrow> ui \<Rightarrow> ui" where
  "ui_putchar c fd u = ui_do (Written fd [c]) (redraw_append_char c fd u)"

text \<open>The loop of \<open>redrawFont\<close>: \<open>buffer[0..idx)\<close> is the list \<open>b\<close>.\<close>

fun redraw_loop :: "(char \<times> u64) list \<Rightarrow> u64 \<Rightarrow> string \<Rightarrow> ui \<Rightarrow> ui" where
  "redraw_loop [] current b u = (if length b > 0 then ui_do (Written current b) u else u)"
| "redraw_loop ((c, fd) # r) current b u =
     (if fd \<noteq> current \<or> length b \<ge> REDRAW_BUFF - 1
      then redraw_loop r fd [c] (if length b > 0 then ui_do (Written current b) u else u)
      else redraw_loop r current (b @ [c]) u)"

definition redrawFont :: "ui \<Rightarrow> ui" where
  "redrawFont u =
     (let u1 = ui_do Cleared u
      in if length (redrawBuffer u1) = 0 then u1 else redraw_loop (redrawBuffer u1) (snd (redrawBuffer u1 ! 0)) [] u1)"

definition clear :: "ui \<Rightarrow> ui" where
  "clear u = redraw_reset (ui_do Cleared u)"

subsection \<open>Reading a line\<close>

text \<open>\<open>buffer[0..idx)\<close> is the list \<open>b\<close>. The list of passes ends while the shell still reads.\<close>

fun read_loop :: "nat \<Rightarrow> (char option \<times> u64) list \<Rightarrow> string \<Rightarrow> u64 \<Rightarrow> ui \<Rightarrow> (string \<times> ui) option" where
  "read_loop mx [] b lastBlink u = None"
| "read_loop mx ((Some c, now) # evs) b lastBlink u =
     (if c = NL then Some (b, u)
      else if c = BS
      then (if length b > 0
            then read_loop mx evs (take (length b - 1) b) now (showCursor (ui_putchar BS STDOUT (hideCursor u)))
            else read_loop mx evs b now u)
      else if c = CHR ''+'' then read_loop mx evs b now (showCursor (redrawFont (ui_do FontUp (hideCursor u))))
      else if c = CHR ''-'' then read_loop mx evs b now (showCursor (redrawFont (ui_do FontDown (hideCursor u))))
      else if length b + 1 < mx
      then read_loop mx evs (b @ [c]) now (showCursor (ui_putchar c STDOUT (hideCursor u)))
      else read_loop mx evs b now u)"
| "read_loop mx ((None, now) # evs) b lastBlink u =
     (if now - lastBlink \<ge> 9
      then read_loop mx evs b now (if cursorVisible u then hideCursor u else showCursor u)
      else read_loop mx evs b lastBlink u)"

definition shellReadLine :: "nat \<Rightarrow> u64 \<Rightarrow> (char option \<times> u64) list \<Rightarrow> ui \<Rightarrow> (string \<times> ui) option" where
  "shellReadLine mx t0 evs u = read_loop mx evs [] t0 (showCursor u)"

subsection \<open>The clock\<close>

definition bcd :: "u8 \<Rightarrow> int" where
  "bcd b = uint (drop_bit 4 b) * 10 + uint (b AND 0x0F)"

definition to_bcd :: "int \<Rightarrow> u8" where
  "to_bcd n = of_int (n div 10 * 16 + n mod 10)"

definition adjustHour :: "u8 \<Rightarrow> int \<Rightarrow> u8" where
  "adjustHour hour offset =
     (let h = bcd hour + offset;
          h1 = (if h < 0 then h + 24 else if h \<ge> 24 then h - 24 else h)
      in to_bcd h1)"

definition two_digits :: "u8 \<Rightarrow> string" where
  "two_digits b =
     (let value = uint (drop_bit 4 b AND 0x0F) * 10 + uint (b AND 0x0F) in [char_of (48 + value div 10), char_of (48 + value mod 10)])"

definition printTimeAndDate :: "u8 list \<Rightarrow> char \<Rightarrow> string" where
  "printTimeAndDate buff separator =
     two_digits (buff ! 0) @ [separator] @ two_digits (buff ! 1) @ [separator] @ two_digits (buff ! 2) @ [NL]"

definition printTime :: "u8 list \<Rightarrow> string" where
  "printTime timeBuff = printTimeAndDate (timeBuff[0 := adjustHour (timeBuff ! 0) (-3)]) CHR '':''"

text \<open>The quotients are those of nonnegative numbers, except for the year 00, where \<open>year\<close> is -1 and the
  division of the source rounds towards zero.\<close>

definition c_bcd :: "int \<Rightarrow> u8" where
  "c_bcd n = (if 0 \<le> n then to_bcd n else of_int (- (- n div 10) * 16) OR of_int (- (- n mod 10)))"

definition local_date :: "u8 list \<Rightarrow> u8 list \<Rightarrow> u8 list" where
  "local_date timeBuff dateBuff =
     (let hour = bcd (timeBuff ! 0)
      in if hour < 3
         then
           let day = bcd (dateBuff ! 0) - 1
           in if day \<le> 0
              then
                let month = bcd (dateBuff ! 1) - 1;
                    d2 = (if month \<le> 0 then dateBuff[2 := c_bcd (bcd (dateBuff ! 2) - 1)] else dateBuff);
                    month1 = (if month \<le> 0 then 12 else month)
                in d2[1 := to_bcd month1, 0 := to_bcd 30]
              else dateBuff[0 := to_bcd day]
         else dateBuff)"

definition printDate :: "u8 list \<Rightarrow> u8 list \<Rightarrow> string" where
  "printDate timeBuff dateBuff = printTimeAndDate (local_date timeBuff dateBuff) CHR ''/''"

end
