(* ===== verification/Screen_Text.thy ===== *)
theory Screen_Text
  imports Video_Props Line_Reader
begin

text \<open>
  The screen as rows of text. A character, a new line, an erased cell, another font and clearing move the cursor here exactly as in
  the driver (\<open>screen_text_driver\<close>, \<open>screen_text_font\<close>): the line breaks by itself where the next cell would not fit, and a backspace at the start of
  a row does nothing. Of the pixels only the characters of each row are kept, with the rows that have left the screen at the top.
\<close>

abbreviation (input) CR :: char where "CR \<equiv> CHR 0x0D"

record text_screen =
  ts_w :: nat
  ts_h :: nat
  ts_font :: nat
  ts_x :: nat
  ts_y :: nat
  ts_above :: "string list"
  ts_row :: string

definition row_nl :: "text_screen \<Rightarrow> text_screen" where
  "row_nl t = t\<lparr>ts_x := 0, ts_y := (if ts_y t + 16 * ts_font t < ts_h t then ts_y t + 16 * ts_font t else ts_h t - 16 * ts_font t),
     ts_above := ts_above t @ [ts_row t], ts_row := []\<rparr>"

definition row_check :: "text_screen \<Rightarrow> text_screen" where
  "row_check t = (if ts_x t + 8 * ts_font t \<le> ts_w t \<and> ts_y t + 16 * ts_font t \<le> ts_h t then t else row_nl t)"

definition tput :: "char \<Rightarrow> text_screen \<Rightarrow> text_screen" where
  "tput c t =
     (if c = NL \<or> c = CR then row_nl t
      else if c = BS then (if 8 * ts_font t \<le> ts_x t then row_check (t\<lparr>ts_x := ts_x t - 8 * ts_font t, ts_row := butlast (ts_row t)\<rparr>) else t)
      else
        let t1 = t\<lparr>ts_row := ts_row t @ [c]\<rparr>
        in row_check (if ts_x t + 8 * ts_font t < ts_w t then t1\<lparr>ts_x := ts_x t + 8 * ts_font t\<rparr> else row_nl t1))"

definition text_clear :: "text_screen \<Rightarrow> text_screen" where
  "text_clear t = t\<lparr>ts_x := 0, ts_y := 0, ts_above := [], ts_row := []\<rparr>"

definition text_font :: "nat \<Rightarrow> text_screen \<Rightarrow> text_screen" where
  "text_font n t = row_check (t\<lparr>ts_font := n\<rparr>)"

subsection \<open>The cursor of the driver\<close>

definition text_at :: "video \<Rightarrow> text_screen \<Rightarrow> bool" where
  "text_at v t \<longleftrightarrow> scr_w v = ts_w t \<and> scr_h v = ts_h t \<and> fsize v = ts_font t \<and> unat (currentX v) = ts_x t \<and> unat (currentY v) = ts_y t"

lemma text_at_newLine:
  assumes "room_ok v" "size_ok v" "unat (currentY v) < scr_h v" "text_at v t"
  shows "text_at (newLine v) (row_nl t)"
  using newLine_ok [OF assms(1-3)] drawn_mode [OF newLine_ok(1) [OF assms(1-3)]] assms(4)
  by (auto simp: text_at_def row_nl_def)

lemma text_at_check:
  assumes "room_ok v" "size_ok v" "unat (currentX v) < 2 ^ 32" "unat (currentY v) < scr_h v" "text_at v t"
  shows "text_at (updateCursor v) (row_check t)"
proof -
  have "unat (currentY v) < 2 ^ 32" using assms(4) unat_u16_less [of "vm_height (vbe_mode v)"] by simp
  note f = cursor_fits [OF assms(2,3) this]
  show ?thesis using f assms(5) text_at_newLine [OF assms(1,2,4,5)] by (auto simp: updateCursor_def row_check_def text_at_def)
qed

lemma text_at_painted: "painted c P v w \<Longrightarrow> text_at v t \<Longrightarrow> text_at w t"
  using painted_mode [of c P v w] by (simp add: text_at_def painted_def)

lemma char_code: "of_char c = (of_char d :: u8) \<longleftrightarrow> c = d"
proof -
  have "unat (of_char e :: u8) = (of_char e :: nat)" for e
  proof -
    have "unat (of_nat (of_char e :: nat) :: u8) = of_char e" by (simp only: unat_of_nat) simp
    then show ?thesis by (simp only: of_nat_of_char)
  qed
  then have "of_char c = (of_char d :: u8) \<Longrightarrow> of_char c = (of_char d :: nat)" by metis
  then show ?thesis by auto
qed

text \<open>One character: the cursor of the driver is that of the rows.\<close>

lemma screen_text_driver:
  assumes "room_ok v" "cursor_ok v" "text_at v t"
  shows "text_at (videoPutChar_fb (of_char ch) color v) (tput ch t)"
proof -
  note s = cursor_small [OF assms(2)] and st = size_steps [OF cursor_small(3) [OF assms(2)]]
  have y: "unat (currentY v) < scr_h v" using assms(2) by (simp add: cursor_ok_def)
  have code: "of_char ch = (10 :: u8) \<longleftrightarrow> ch = NL" "of_char ch = (13 :: u8) \<longleftrightarrow> ch = CR" "of_char ch = (8 :: u8) \<longleftrightarrow> ch = BS"
    using char_code [of ch NL] char_code [of ch CR] char_code [of ch BS] by simp_all
  consider (line) "ch = NL \<or> ch = CR" | (erase) "ch = BS" "FONT_WIDTH * defaultTextSize v \<le> currentX v"
    | (home) "ch = BS" "\<not> FONT_WIDTH * defaultTextSize v \<le> currentX v" | (other) "ch \<noteq> NL" "ch \<noteq> CR" "ch \<noteq> BS" by blast
  then show ?thesis
  proof cases
    case line
    then show ?thesis using text_at_newLine [OF assms(1) s(3) y assms(3)] by (auto simp: videoPutChar_fb_def tput_def)
  next
    case home
    then show ?thesis using assms(3) by (auto simp: videoPutChar_fb_def Let_def tput_def text_at_def word_le_nat_alt st)
  next
    case erase
    let ?v1 = "v\<lparr>currentX := currentX v - FONT_WIDTH * defaultTextSize v\<rparr>"
    let ?f = "v_fillRectangle (currentX ?v1) (currentY ?v1) (currentX ?v1 + FONT_WIDTH * defaultTextSize v) (currentY ?v1 + FONT_HEIGHT * defaultTextSize v) bgColor ?v1"
    let ?t1 = "t\<lparr>ts_x := ts_x t - 8 * ts_font t, ts_row := butlast (ts_row t)\<rparr>"
    have e: "videoPutChar_fb (of_char ch) color v = updateCursor ?f" using erase by (simp add: videoPutChar_fb_def Let_def)
    have x: "unat (currentX ?v1) = unat (currentX v) - 8 * fsize v" using erase(2) by (simp add: unat_sub st)
    have le: "8 * fsize v \<le> unat (currentX v)" using erase(2) by (simp add: word_le_nat_alt st)
    have r1: "room_ok ?v1" using room_cong [of ?v1 v] assms(1) by simp
    have c1: "cursor_ok ?v1" using assms(2) x le unfolding cursor_ok_def size_ok_def by simp
    have "text_at ?v1 ?t1" using assms(3) x by (simp add: text_at_def)
    have "mode_ok ?v1" using r1 by (simp add: room_ok_def)
    note pf = fill_painted [OF this, of bgColor "currentX ?v1" "currentX ?v1 + FONT_WIDTH * defaultTextSize v"
          "currentY ?v1" "currentY ?v1 + FONT_HEIGHT * defaultTextSize v"]
    note p = painted_cursor [OF pf r1 c1]
    have x2: "unat (currentX ?f) < 2 ^ 32" by (rule less_trans [OF cursor_small(1) [OF p(3)]]) simp
    have y2: "unat (currentY ?f) < scr_h ?f" using p(3) by (simp add: cursor_ok_def)
    have "text_at (updateCursor ?f) (row_check ?t1)"
      by (rule text_at_check [OF p(2) cursor_small(3) [OF p(3)] x2 y2 text_at_painted [OF pf \<open>text_at ?v1 ?t1\<close>]])
    moreover have "tput ch t = row_check ?t1" using erase(1) le assms(3) by (simp add: tput_def text_at_def)
    ultimately show ?thesis unfolding e by simp
  next
    case other
    let ?d = "drawChar (ucast (currentX v)) (ucast (currentY v)) (of_char ch) color (defaultTextSize v) v"
    let ?t1 = "t\<lparr>ts_row := ts_row t @ [ch]\<rparr>"
    have e: "videoPutChar_fb (of_char ch) color v = updateCursor (moveRight ?d)" using other code by (simp add: videoPutChar_fb_def)
    note pd = draw_cursor [OF assms(1,2), of color "of_char ch"]
    note p = painted_cursor [OF pd assms(1,2)]
    note r = right_ok [OF p(2,3)]
    have rm: "room_ok (moveRight ?d)" using room_cong [OF drawn_mode [OF r(1)]] p(2) by simp
    have h: "scr_h (moveRight ?d) = scr_h ?d" using drawn_mode [OF r(1)] by simp
    have td: "text_at ?d ?t1" using text_at_painted [OF pd assms(3)] by (simp add: text_at_def)
    have "text_at (moveRight ?d) (if ts_x t + 8 * ts_font t < ts_w t then ?t1\<lparr>ts_x := ts_x t + 8 * ts_font t\<rparr> else row_nl ?t1)"
    proof (cases "unat (currentX ?d) + 8 * fsize ?d < scr_w ?d")
      case True
      then show ?thesis using r(5,7) td by (simp add: text_at_def)
    next
      case False
      have "unat (currentY ?d) < scr_h ?d" using p(3) by (simp add: cursor_ok_def)
      from text_at_newLine [OF p(2) cursor_small(3) [OF p(3)] this td] r(6) [OF False] False td show ?thesis by (simp add: text_at_def)
    qed
    from text_at_check [OF rm r(2,3) _ this] r(4) h show ?thesis unfolding e using other by (simp add: tput_def Let_def)
  qed
qed

text \<open>The other operations.\<close>

lemma screen_text_font:
  assumes "room_ok v" "cursor_ok v" "text_at v t"
  shows "text_at (clearScreen color v) (text_clear t)" "text_at (increaseFontSize v) (text_font (min 5 (ts_font t + 1)) t)"
    "text_at (decreaseFontSize v) (text_font (max 1 (ts_font t - 1)) t)"
proof -
  have "mode_ok v" using assms(1) by (simp add: room_ok_def)
  from text_at_painted [OF fill_painted [OF this] assms(3)] show "text_at (clearScreen color v) (text_clear t)"
    by (simp add: clearScreen_def drawFilledRect_def text_at_def text_clear_def)
  note s = cursor_small [OF assms(2)]
  have y: "unat (currentY v) < scr_h v" using assms(2) by (simp add: cursor_ok_def)
  have c: "text_at (updateCursor (v\<lparr>defaultTextSize := k\<rparr>)) (text_font (unat k) t)" if k: "1 \<le> unat k" "unat k \<le> 5" for k
  proof -
    let ?w = "v\<lparr>defaultTextSize := k\<rparr>"
    have "room_ok ?w" "size_ok ?w" "text_at ?w (t\<lparr>ts_font := unat k\<rparr>)"
      using assms room_cong [of ?w v] k by (simp_all add: size_ok_def text_at_def)
    from text_at_check [OF this(1,2) _ _ this(3)] s(1) y show ?thesis by (simp add: text_font_def)
  qed
  have f: "ts_font t = fsize v" using assms(3) by (simp add: text_at_def)
  show "text_at (increaseFontSize v) (text_font (min 5 (ts_font t + 1)) t)"
  proof (cases "defaultTextSize v < MAX_FONT_SIZE")
    case True
    then have "unat (defaultTextSize v + 1) = fsize v + 1" "fsize v < 5" by (simp_all add: word_less_nat_alt unat_add_small)
    then show ?thesis using c [of "defaultTextSize v + 1"] True f by (simp add: increaseFontSize_def)
  next
    case False
    then have "fsize v = 5" using s(5) by (simp add: word_less_nat_alt)
    then show ?thesis using c [of "defaultTextSize v"] False f by (simp add: increaseFontSize_def)
  qed
  show "text_at (decreaseFontSize v) (text_font (max 1 (ts_font t - 1)) t)"
  proof (cases "defaultTextSize v > 1")
    case True
    then have "unat (defaultTextSize v - 1) = fsize v - 1" "1 < fsize v" by (simp_all add: word_less_nat_alt unat_sub word_le_nat_alt)
    then show ?thesis using c [of "defaultTextSize v - 1"] s(5) True f by (simp add: decreaseFontSize_def)
  next
    case False
    then have "fsize v = 1" using s(4) by (simp add: word_less_nat_alt)
    then show ?thesis using c [of "defaultTextSize v"] False f by (simp add: decreaseFontSize_def)
  qed
qed

subsection \<open>Text that stays on its row\<close>

text \<open>The text \<open>b\<close> behind the cursor.\<close>

definition shown :: "text_screen \<Rightarrow> string \<Rightarrow> text_screen" where
  "shown t b = t\<lparr>ts_x := ts_x t + 8 * ts_font t * length b, ts_row := ts_row t @ b\<rparr>"

text \<open>Room for \<open>m\<close> characters, one more and the cursor behind them.\<close>

definition row_room :: "text_screen \<Rightarrow> nat \<Rightarrow> bool" where
  "row_room t m \<longleftrightarrow> ts_x t + 8 * ts_font t * (m + 2) \<le> ts_w t \<and> ts_y t + 16 * ts_font t \<le> ts_h t \<and> 1 \<le> ts_font t"

lemma shown_Nil [simp]: "shown t [] = t"
  by (simp add: shown_def)

lemma shown_geometry [simp]:
  "ts_w (shown t b) = ts_w t" "ts_h (shown t b) = ts_h t" "ts_font (shown t b) = ts_font t"
  by (simp_all add: shown_def)

lemma row_room_less: "row_room t m \<Longrightarrow> k \<le> m \<Longrightarrow> row_room t k"
proof -
  assume a: "row_room t m" "k \<le> m"
  have "8 * ts_font t * (k + 2) \<le> 8 * ts_font t * (m + 2)" using a(2) by (intro mult_le_mono2) simp
  then show ?thesis using a(1) unfolding row_room_def by linarith
qed

lemma tput_shown:
  assumes "row_room t (length b)" "c \<noteq> NL" "c \<noteq> CR" "c \<noteq> BS"
  shows "tput c (shown t b) = shown t (b @ [c])"
  using assms by (simp add: tput_def shown_def row_room_def row_check_def algebra_simps)

lemma tput_erase:
  assumes "row_room t (length b)" "b \<noteq> []"
  shows "tput BS (shown t b) = shown t (butlast b)"
proof -
  have l: "length b = length (butlast b) + 1" using assms(2) by (cases b) simp_all
  have "butlast (ts_row t @ b) = ts_row t @ butlast b" using assms(2) by (simp add: butlast_append)
  then show ?thesis using assms(1) unfolding tput_def shown_def row_room_def row_check_def l by (simp add: algebra_simps)
qed

text \<open>A cursor drawn in the last cell of a row breaks the line, and the backspace that should take it away does nothing.\<close>

lemma stray_cursor:
  assumes "ts_x t + 8 * ts_font t \<le> ts_w t" "ts_w t < ts_x t + 16 * ts_font t" "1 \<le> ts_font t" "8 * ts_font t \<le> ts_w t"
    and "ts_y t + 32 * ts_font t \<le> ts_h t"
  shows "last (ts_above (tput BS (tput CURSOR t))) = ts_row t @ [CURSOR] \<and> ts_row (tput BS (tput CURSOR t)) = []"
proof -
  have "tput CURSOR t = t\<lparr>ts_x := 0, ts_y := ts_y t + 16 * ts_font t, ts_above := ts_above t @ [ts_row t @ [CURSOR]], ts_row := []\<rparr>"
    using assms by (simp add: tput_def row_check_def row_nl_def Let_def)
  then show ?thesis using assms by (simp add: tput_def)
qed

end
