(* ===== verification/Line_Props.thy ===== *)
theory Line_Props
  imports Line_Reader Screen_Text
begin

text \<open>
  What the user types is what the shell gets and what the screen shows. The screen is that of \<open>Screen_Text\<close>, after the trace of
  output actions; \<open>redrawn\<close> is what a redraw of the logged characters gives on it.
\<close>

subsection \<open>The text on the screen\<close>

fun act_text :: "ui_action \<Rightarrow> text_screen \<Rightarrow> text_screen" where
  "act_text (Written fd s) t = fold tput s t"
| "act_text Cleared t = text_clear t"
| "act_text FontUp t = text_font (min 5 (ts_font t + 1)) t"
| "act_text FontDown t = text_font (max 1 (ts_font t - 1)) t"

text \<open>The screen of a state whose trace started on the screen \<open>t0\<close>.\<close>

definition screen_of :: "text_screen \<Rightarrow> ui \<Rightarrow> text_screen" where
  "screen_of t0 u = fold act_text (ui_out u) t0"

definition redrawn :: "string \<Rightarrow> text_screen \<Rightarrow> text_screen" where
  "redrawn l t = fold tput l (text_clear t)"

definition cursor_text :: "ui \<Rightarrow> string" where
  "cursor_text u = (if cursorVisible u then [CURSOR] else [])"

abbreviation log_of :: "ui \<Rightarrow> string" where
  "log_of u \<equiv> map fst (redrawBuffer u)"

lemma tput_geometry [simp]: "ts_w (tput c t) = ts_w t" "ts_h (tput c t) = ts_h t" "ts_font (tput c t) = ts_font t"
  by (simp_all add: tput_def row_check_def row_nl_def Let_def)

lemma fold_geometry [simp]: "ts_w (fold tput s t) = ts_w t" "ts_h (fold tput s t) = ts_h t" "ts_font (fold tput s t) = ts_font t"
  by (induction s arbitrary: t) simp_all

lemma redrawn_geometry [simp]: "ts_w (redrawn l t) = ts_w t" "ts_h (redrawn l t) = ts_h t" "ts_font (redrawn l t) = ts_font t"
  by (simp_all add: redrawn_def text_clear_def)

text \<open>A redraw depends on the size of the screen and the font only.\<close>

lemma redrawn_cong: "ts_w t = ts_w t' \<Longrightarrow> ts_h t = ts_h t' \<Longrightarrow> ts_font t = ts_font t' \<Longrightarrow> redrawn l t = redrawn l t'"
proof -
  assume a: "ts_w t = ts_w t'" "ts_h t = ts_h t'" "ts_font t = ts_font t'"
  have "text_clear t = text_clear t'" by (rule text_screen.equality) (simp_all add: text_clear_def a)
  then show ?thesis by (simp add: redrawn_def)
qed

lemma act_geometry: "ts_w (act_text a t) = ts_w t" "ts_h (act_text a t) = ts_h t"
  by (cases a; simp add: text_clear_def text_font_def row_check_def row_nl_def)+

lemma text_font_sel [simp]: "ts_font (text_font n t) = n"
  by (simp add: text_font_def row_check_def row_nl_def)

lemma screen_do: "screen_of t0 (ui_do a u) = act_text a (screen_of t0 u)"
  by (simp add: screen_of_def ui_do_def)

lemma ui_do_sels [simp]: "cursorVisible (ui_do a u) = cursorVisible u" "redrawBuffer (ui_do a u) = redrawBuffer u"
  by (simp_all add: ui_do_def)

lemma screen_upd [simp]: "screen_of t0 (u\<lparr>cursorVisible := b\<rparr>) = screen_of t0 u" "screen_of t0 (u\<lparr>redrawBuffer := r\<rparr>) = screen_of t0 u"
  by (simp_all add: screen_of_def)

lemma redraw_loop_text:
  "screen_of t0 (redraw_loop r cur b u) = fold tput (map fst r) (fold tput b (screen_of t0 u)) \<and>
   cursorVisible (redraw_loop r cur b u) = cursorVisible u \<and> redrawBuffer (redraw_loop r cur b u) = redrawBuffer u"
proof (induction r cur b u rule: redraw_loop.induct)
  case (1 current b u)
  then show ?case by (simp add: screen_do)
next
  case (2 c fd r current b u)
  then show ?case by (cases "fd \<noteq> current \<or> length b \<ge> REDRAW_BUFF - 1") (simp_all add: screen_do)
qed

text \<open>Redrawing shows the log, whatever was on the screen.\<close>

lemma redrawFont_text:
  "screen_of t0 (redrawFont u) = redrawn (log_of u) (screen_of t0 u)" "cursorVisible (redrawFont u) = cursorVisible u"
  "redrawBuffer (redrawFont u) = redrawBuffer u"
  using redraw_loop_text [of t0 "redrawBuffer u" "snd (redrawBuffer u ! 0)" "[]" "ui_do Cleared u"]
  by (auto simp: redrawFont_def Let_def screen_do redrawn_def)

subsection \<open>The line\<close>

text \<open>The keys up to the newline, what they make of a line of fewer than \<open>mx\<close> characters, and of the font.\<close>

fun keys_of :: "(char option \<times> u64) list \<Rightarrow> string" where
  "keys_of [] = []"
| "keys_of ((Some c, now) # evs) = (if c = NL then [] else c # keys_of evs)"
| "keys_of ((None, now) # evs) = keys_of evs"

definition edit_key :: "nat \<Rightarrow> char \<Rightarrow> string \<Rightarrow> string" where
  "edit_key mx c b =
     (if c = BS then butlast b else if c \<in> {CHR ''+'', CHR ''-''} then b else if length b + 1 < mx then b @ [c] else b)"

definition font_key :: "char \<Rightarrow> nat \<Rightarrow> nat" where
  "font_key c n = (if c = CHR ''+'' then min 5 (n + 1) else if c = CHR ''-'' then max 1 (n - 1) else n)"

text \<open>After every key, in the font of that moment, the row that follows the logged text \<open>l\<close> has room for the longest line so far
  (its length is \<open>m\<close>) and the cursor. No key is a carriage return.\<close>

fun line_fits :: "text_screen \<Rightarrow> string \<Rightarrow> nat \<Rightarrow> string \<Rightarrow> nat \<Rightarrow> string \<Rightarrow> bool" where
  "line_fits t l mx b m [] = row_room (redrawn l t) m"
| "line_fits t l mx b m (c # ks) =
     (row_room (redrawn l t) m \<and> c \<noteq> CR \<and>
      (let b' = edit_key mx c b in line_fits (t\<lparr>ts_font := font_key c (ts_font t)\<rparr>) l mx b' (max m (length b')) ks))"

lemma line_fits_room: "line_fits t l mx b m ks \<Longrightarrow> row_room (redrawn l t) m"
  by (cases ks) simp_all

lemma line_fits_cong: "ts_w t = ts_w t' \<Longrightarrow> ts_h t = ts_h t' \<Longrightarrow> ts_font t = ts_font t' \<Longrightarrow> line_fits t l mx b m ks = line_fits t' l mx b m ks"
proof (induction ks arbitrary: t t' b m)
  case Nil
  then show ?case using redrawn_cong [of t t' l] by simp
next
  case (Cons c ks)
  have r: "redrawn l t = redrawn l t'" using Cons.prems by (rule redrawn_cong)
  have "line_fits (t\<lparr>ts_font := font_key c (ts_font t)\<rparr>) l mx b' m' ks = line_fits (t'\<lparr>ts_font := font_key c (ts_font t')\<rparr>) l mx b' m' ks" for b' m'
    using Cons.prems by (intro Cons.IH) simp_all
  then show ?case by (simp add: Let_def r)
qed

text \<open>The keys logged so far put the line \<open>b\<close> on any row that has room for its longest form.\<close>

definition echoes :: "string \<Rightarrow> string \<Rightarrow> nat \<Rightarrow> bool" where
  "echoes lg b m \<longleftrightarrow> length b \<le> m \<and> (\<forall>t. row_room t m \<longrightarrow> fold tput lg t = shown t b)"

lemma echoes_Nil [simp]: "echoes [] [] 0"
  by (simp add: echoes_def)

lemma echoes_put:
  assumes "echoes lg b m" "c \<noteq> NL" "c \<noteq> CR" "c \<noteq> BS"
  shows "echoes (lg @ [c]) (b @ [c]) (max m (length b + 1))"
proof -
  have "fold tput (lg @ [c]) t = shown t (b @ [c])" if r: "row_room t (max m (length b + 1))" for t
    using assms tput_shown [OF row_room_less [OF r] assms(2-4), of b] row_room_less [OF r, of m] by (simp add: echoes_def)
  then show ?thesis using assms(1) by (simp add: echoes_def)
qed

lemma echoes_erase:
  assumes "echoes lg b m" "b \<noteq> []"
  shows "echoes (lg @ [BS]) (butlast b) m"
  using assms tput_erase [OF row_room_less, of _ m b] by (auto simp: echoes_def)

text \<open>What the loop keeps: the screen shows the text from before and the line with the cursor, the log the keys of the line.\<close>

definition reading :: "text_screen \<Rightarrow> string \<Rightarrow> string \<Rightarrow> nat \<Rightarrow> nat \<Rightarrow> ui \<Rightarrow> bool" where
  "reading t0 l b m n u \<longleftrightarrow> screen_of t0 u = shown (redrawn l (screen_of t0 u)) (b @ cursor_text u) \<and>
     (\<exists>lg. log_of u = l @ lg \<and> echoes lg b m) \<and> length (redrawBuffer u) + n \<le> REDRAW_BUFF"

lemma redrawn_shown [simp]: "redrawn l (shown t b) = redrawn l t" "redrawn l (redrawn k t) = redrawn l t"
  by (rule redrawn_cong; simp)+

text \<open>The cursor comes and goes.\<close>

lemma reading_cursor:
  assumes "reading t0 l b m n u" "row_room (redrawn l (screen_of t0 u)) m"
  shows "reading t0 l b m n (showCursor u)" "reading t0 l b m n (hideCursor u)"
    "redrawn l (screen_of t0 (showCursor u)) = redrawn l (screen_of t0 u)" "redrawn l (screen_of t0 (hideCursor u)) = redrawn l (screen_of t0 u)"
    "cursorVisible (showCursor u)" "\<not> cursorVisible (hideCursor u)"
proof -
  let ?r = "redrawn l (screen_of t0 u)"
  have len: "length b \<le> m" using assms(1) by (auto simp: reading_def echoes_def)
  have sc: "screen_of t0 u = shown ?r (b @ cursor_text u)" using assms(1) by (simp add: reading_def)
  have "tput CURSOR (shown ?r b) = shown ?r (b @ [CURSOR])" by (rule tput_shown [OF row_room_less [OF assms(2) len]]) simp_all
  then have s: "screen_of t0 (showCursor u) = shown ?r (b @ [CURSOR])"
    using sc by (auto simp: showCursor_def screen_do cursor_text_def)
  have "tput BS (shown ?r (b @ [CURSOR])) = shown ?r b"
  proof -
    have "ts_x ?r + 8 * ts_font ?r * (length b + 2) \<le> ts_w ?r" "ts_y ?r + 16 * ts_font ?r \<le> ts_h ?r"
      using row_room_less [OF assms(2) len] by (simp_all add: row_room_def)
    then show ?thesis by (simp add: tput_def shown_def row_check_def butlast_append algebra_simps)
  qed
  then have h: "screen_of t0 (hideCursor u) = shown ?r b"
    using sc by (auto simp: hideCursor_def screen_do cursor_text_def)
  show e: "redrawn l (screen_of t0 (showCursor u)) = ?r" "redrawn l (screen_of t0 (hideCursor u)) = ?r" unfolding s h by simp_all
  show v: "cursorVisible (showCursor u)" "\<not> cursorVisible (hideCursor u)" by (simp_all add: showCursor_def hideCursor_def)
  have b: "redrawBuffer (showCursor u) = redrawBuffer u" "redrawBuffer (hideCursor u) = redrawBuffer u" by (simp_all add: showCursor_def hideCursor_def)
  show "reading t0 l b m n (showCursor u)" unfolding reading_def e b
    using s v assms(1) by (simp add: cursor_text_def reading_def)
  show "reading t0 l b m n (hideCursor u)" unfolding reading_def e b
    using h v assms(1) by (simp add: cursor_text_def reading_def)
qed

text \<open>A key that is echoed.\<close>

lemma reading_put:
  assumes r: "reading t0 l b m (Suc n) u" "row_room (redrawn l (screen_of t0 u)) m"
    and e: "\<And>lg. echoes lg b m \<Longrightarrow> echoes (lg @ [c]) b' m'" and p: "\<And>t. row_room t m \<Longrightarrow> tput c (shown t b) = shown t b'"
    and r': "row_room (redrawn l (screen_of t0 u)) m'"
  shows "reading t0 l b' m' n (showCursor (ui_putchar c STDOUT (hideCursor u)))"
    "redrawn l (screen_of t0 (showCursor (ui_putchar c STDOUT (hideCursor u)))) = redrawn l (screen_of t0 u)"
proof -
  let ?h = "hideCursor u"
  note h = reading_cursor [OF r]
  have "length (redrawBuffer ?h) < REDRAW_BUFF" using h(2) by (simp add: reading_def)
  then have b: "redrawBuffer (ui_putchar c STDOUT ?h) = redrawBuffer ?h @ [(c, STDOUT)]"
    by (simp add: ui_putchar_def redraw_append_char_def)
  have sh: "screen_of t0 ?h = shown (redrawn l (screen_of t0 u)) b"
    using h(2,4,6) by (simp add: reading_def cursor_text_def)
  have sc: "screen_of t0 (ui_putchar c STDOUT ?h) = shown (redrawn l (screen_of t0 u)) b'"
    using p [OF r(2)] sh by (simp add: ui_putchar_def redraw_append_char_def Let_def screen_do)
  have q: "redrawn l (screen_of t0 (ui_putchar c STDOUT ?h)) = redrawn l (screen_of t0 u)" unfolding sc by simp
  have v: "\<not> cursorVisible (ui_putchar c STDOUT ?h)" using h(6) by (simp add: ui_putchar_def redraw_append_char_def Let_def)
  have "reading t0 l b' m' n (ui_putchar c STDOUT ?h)"
    unfolding reading_def q b using sc v h(2) e by (auto simp: reading_def cursor_text_def)
  from reading_cursor(1,3) [OF this] q r'
  show "reading t0 l b' m' n (showCursor (ui_putchar c STDOUT ?h))"
    "redrawn l (screen_of t0 (showCursor (ui_putchar c STDOUT ?h))) = redrawn l (screen_of t0 u)" by simp_all
qed

text \<open>A key that changes the font.\<close>

lemma reading_font:
  assumes r: "reading t0 l b m n u" "row_room (redrawn l (screen_of t0 u)) m"
    and a: "a = FontUp \<and> c = CHR ''+'' \<or> a = FontDown \<and> c = CHR ''-''"
    and r': "row_room (redrawn l ((screen_of t0 u)\<lparr>ts_font := font_key c (ts_font (screen_of t0 u))\<rparr>)) m"
  defines "w \<equiv> showCursor (redrawFont (ui_do a (hideCursor u)))"
  shows "reading t0 l b m n w" "ts_font (screen_of t0 w) = font_key c (ts_font (screen_of t0 u))"
    "ts_w (screen_of t0 w) = ts_w (screen_of t0 u)" "ts_h (screen_of t0 w) = ts_h (screen_of t0 u)"
proof -
  let ?h = "hideCursor u" and ?t = "(screen_of t0 u)\<lparr>ts_font := font_key c (ts_font (screen_of t0 u))\<rparr>"
  let ?v = "redrawFont (ui_do a ?h)"
  note h = reading_cursor [OF r]
  obtain lg where lg: "log_of ?h = l @ lg" "echoes lg b m" using h(2) by (auto simp: reading_def)
  have sh: "screen_of t0 ?h = shown (redrawn l (screen_of t0 u)) b"
    using h(2,4,6) by (simp add: reading_def cursor_text_def)
  have g: "ts_w (act_text a (screen_of t0 ?h)) = ts_w ?t" "ts_h (act_text a (screen_of t0 ?h)) = ts_h ?t"
    "ts_font (act_text a (screen_of t0 ?h)) = ts_font ?t"
    using a by (auto simp: act_geometry sh font_key_def)
  have "screen_of t0 ?v = redrawn (l @ lg) ?t"
    unfolding redrawFont_text(1) screen_do using redrawn_cong [OF g] lg(1) by simp
  also have "\<dots> = shown (redrawn l ?t) b" using lg(2) r' by (simp add: echoes_def redrawn_def)
  finally have sc: "screen_of t0 ?v = shown (redrawn l ?t) b" .
  have q: "redrawn l (screen_of t0 ?v) = redrawn l ?t" unfolding sc by simp
  have vis: "\<not> cursorVisible ?v" using h(6) by (simp add: redrawFont_text)
  have b: "redrawBuffer ?v = redrawBuffer ?h" by (simp add: redrawFont_text)
  have "reading t0 l b m n ?v" unfolding reading_def q b using sc vis h(2) by (simp add: reading_def cursor_text_def)
  note k = reading_cursor(1,3) [OF this]
  show "reading t0 l b m n w" using k(1) q r' by (simp add: w_def)
  have "redrawn l (screen_of t0 w) = redrawn l ?t" using k(2) q r' by (simp add: w_def)
  from arg_cong [OF this, of ts_font] arg_cong [OF this, of ts_w] arg_cong [OF this, of ts_h]
  show "ts_font (screen_of t0 w) = font_key c (ts_font (screen_of t0 u))"
    "ts_w (screen_of t0 w) = ts_w (screen_of t0 u)" "ts_h (screen_of t0 w) = ts_h (screen_of t0 u)" by simp_all
qed

lemma edit_key_simps:
  "edit_key mx BS b = butlast b" "edit_key mx CHR ''+'' b = b" "edit_key mx CHR ''-'' b = b"
  "c \<noteq> BS \<Longrightarrow> c \<noteq> CHR ''+'' \<Longrightarrow> c \<noteq> CHR ''-'' \<Longrightarrow> edit_key mx c b = (if length b + 1 < mx then b @ [c] else b)"
  by (simp_all add: edit_key_def)

lemma font_key_simps: "c \<noteq> CHR ''+'' \<Longrightarrow> c \<noteq> CHR ''-'' \<Longrightarrow> font_key c n = n"
  by (simp add: font_key_def)

text \<open>The line, whatever the screen does.\<close>

lemma read_loop_line:
  assumes "length b < mx"
  shows "case read_loop mx evs b lb u of
      None \<Rightarrow> Some NL \<notin> fst ` set evs
    | Some (line, u') \<Rightarrow> Some NL \<in> fst ` set evs \<and> line = fold (edit_key mx) (keys_of evs) b \<and> length line < mx"
  using assms
proof (induction mx evs b lb u rule: read_loop.induct)
  case (2 mx c now evs b lb u)
  have e: "take (length b - Suc 0) b = butlast b" by (simp add: butlast_conv_take)
  have n: "length (butlast b) < mx" using "2.prems" by simp
  consider "c = NL" | "c = BS" "b \<noteq> []" | "c = BS" "b = []" | "c = CHR ''+''" | "c = CHR ''-''"
    | "c \<notin> {NL, BS, CHR ''+'', CHR ''-''}" "length b + 1 < mx" | "c \<notin> {NL, BS, CHR ''+'', CHR ''-''}" "\<not> length b + 1 < mx" by auto
  then show ?case using 2 n by cases (simp_all add: e edit_key_simps split: option.splits prod.splits)
next
  case (3 mx now evs b lb u)
  then show ?case by (cases "9 \<le> now - lb") (simp_all split: option.splits prod.splits split del: if_split)
qed simp

text \<open>The screen and the log, when the line stays on its row.\<close>

lemma read_loop_screen:
  assumes "reading t0 l b m (length (keys_of evs)) u" "line_fits (screen_of t0 u) l mx b m (keys_of evs)"
    and "read_loop mx evs b lb u = Some (line, u')"
  shows "\<exists>m'. reading t0 l line m' 0 u'"
  using assms
proof (induction evs arbitrary: b m lb u)
  case Nil
  then show ?case by simp
next
  case (Cons ev evs)
  obtain k now where ev: "ev = (k, now)" by force
  note room = line_fits_room [OF Cons.prems(2)]
  note r = Cons.prems(1)
  show ?case
  proof (cases k)
    case None
    define w where "w = (if cursorVisible u then hideCursor u else showCursor u)"
    note rc = reading_cursor [OF r room]
    have w: "reading t0 l b m (length (keys_of evs)) w" "redrawn l (screen_of t0 w) = redrawn l (screen_of t0 u)"
      using rc(1-4) by (simp_all add: w_def ev None)
    have "line_fits (screen_of t0 w) l mx b m (keys_of evs) = line_fits (screen_of t0 u) l mx b m (keys_of evs)"
      using arg_cong [OF w(2), of ts_w] arg_cong [OF w(2), of ts_h] arg_cong [OF w(2), of ts_font]
      by (intro line_fits_cong) simp_all
    then have "line_fits (screen_of t0 w) l mx b m (keys_of evs)" using Cons.prems(2) by (simp add: ev None)
    note 1 = Cons.IH [OF w(1) this]
    have "read_loop mx evs b now w = Some (line, u') \<or> read_loop mx evs b lb u = Some (line, u')"
      using Cons.prems(3) by (auto simp: ev None w_def split: if_splits)
    then show ?thesis using 1 Cons.IH [of b m u lb] Cons.prems(1,2) by (auto simp: ev None)
  next
    case (Some c)
    show ?thesis
    proof (cases "c = NL")
      case True
      then show ?thesis using Cons.prems by (auto simp: ev Some)
    next
      case nl: False
      let ?b = "edit_key mx c b" and ?f = "font_key c (ts_font (screen_of t0 u))"
      let ?m = "max m (length ?b)"
      have cr: "c \<noteq> CR" and fit: "line_fits ((screen_of t0 u)\<lparr>ts_font := ?f\<rparr>) l mx ?b ?m (keys_of evs)"
        using Cons.prems(2) nl by (simp_all add: ev Some Let_def)
      have r1: "reading t0 l b m (Suc (length (keys_of evs))) u" using r nl by (simp add: ev Some)
      have lm: "length b \<le> m" using r by (auto simp: reading_def echoes_def)
      have go: "\<exists>m'. reading t0 l line m' 0 u'"
        if "reading t0 l ?b ?m (length (keys_of evs)) w" "read_loop mx evs ?b now w = Some (line, u')"
          "ts_w (screen_of t0 w) = ts_w (screen_of t0 u)" "ts_h (screen_of t0 w) = ts_h (screen_of t0 u)" "ts_font (screen_of t0 w) = ?f" for w
        using Cons.IH [OF that(1) _ that(2)] fit line_fits_cong [of "screen_of t0 w" "(screen_of t0 u)\<lparr>ts_font := ?f\<rparr>"] that(3-5) by simp
      consider (bs) "c = BS" "b \<noteq> []" | (font) "c = CHR ''+'' \<or> c = CHR ''-''"
        | (put) "c \<notin> {BS, CHR ''+'', CHR ''-''}" "length b + 1 < mx"
        | (home) "c = BS" "b = []" | (full) "c \<notin> {BS, CHR ''+'', CHR ''-''}" "\<not> length b + 1 < mx" by auto
      then show ?thesis
      proof cases
        case home
        then have b: "?b = b" "?f = ts_font (screen_of t0 u)" by (simp_all add: edit_key_simps font_key_simps)
        have "read_loop mx evs b now u = Some (line, u')" using Cons.prems(3) home by (simp add: ev Some)
        then show ?thesis using go [of u] b lm r1 by (simp add: reading_def)
      next
        case full
        then have b: "?b = b" "?f = ts_font (screen_of t0 u)" by (simp_all add: edit_key_simps font_key_simps)
        have "read_loop mx evs b now u = Some (line, u')" using Cons.prems(3) full nl by (simp add: ev Some)
        then show ?thesis using go [of u] b lm r1 by (simp add: reading_def)
      next
        case font
        then have b: "?b = b" by (auto simp: edit_key_simps)
        define a where "a = (if c = CHR ''+'' then FontUp else FontDown)"
        have a: "a = FontUp \<and> c = CHR ''+'' \<or> a = FontDown \<and> c = CHR ''-''" using font by (auto simp: a_def)
        have "row_room (redrawn l ((screen_of t0 u)\<lparr>ts_font := ?f\<rparr>)) m" using line_fits_room [OF fit] row_room_less b by simp
        note w = reading_font [OF _ room a this]
        have r2: "reading t0 l b m (length (keys_of evs)) u" using r1 by (simp add: reading_def)
        have "read_loop mx evs b now (showCursor (redrawFont (ui_do a (hideCursor u)))) = Some (line, u')"
          using Cons.prems(3) font by (auto simp: ev Some a_def)
        then show ?thesis using go [OF _ _ w(3,4,2) [OF r2]] w(1) [OF r2] b lm by (simp add: max_absorb1)
      next
        case bs
        then have b: "?b = butlast b" "?f = ts_font (screen_of t0 u)" by (auto simp: edit_key_simps font_key_simps)
        have m: "?m = m" using lm b(1) by simp
        note w = reading_put [OF r1 room, of c ?b ?m]
        have e: "reading t0 l ?b ?m (length (keys_of evs)) (showCursor (ui_putchar c STDOUT (hideCursor u)))"
          "redrawn l (screen_of t0 (showCursor (ui_putchar c STDOUT (hideCursor u)))) = redrawn l (screen_of t0 u)"
          unfolding m using bs b(1) room lm echoes_erase [of _ b m] tput_erase [OF row_room_less [OF _ lm]]
          by (intro w [unfolded m]; simp)+
        have "take (length b - Suc 0) b = butlast b" by (simp add: butlast_conv_take)
        then have "read_loop mx evs ?b now (showCursor (ui_putchar c STDOUT (hideCursor u))) = Some (line, u')"
          using Cons.prems(3) bs b(1) by (simp add: ev Some)
        from go [OF e(1) this] arg_cong [OF e(2), of ts_w] arg_cong [OF e(2), of ts_h] arg_cong [OF e(2), of ts_font] b(2)
        show ?thesis by simp
      next
        case put
        then have b: "?b = b @ [c]" "?f = ts_font (screen_of t0 u)" by (auto simp: edit_key_simps font_key_simps)
        have cc: "c \<noteq> BS" using put(1) by simp
        have "row_room (redrawn l (screen_of t0 u)) ?m" using line_fits_room [OF fit] b(2) by simp
        note w = reading_put [OF r1 room echoes_put [OF _ nl cr cc] tput_shown [OF row_room_less [OF _ lm] nl cr cc]]
        have e: "reading t0 l ?b ?m (length (keys_of evs)) (showCursor (ui_putchar c STDOUT (hideCursor u)))"
          "redrawn l (screen_of t0 (showCursor (ui_putchar c STDOUT (hideCursor u)))) = redrawn l (screen_of t0 u)"
          using w \<open>row_room (redrawn l (screen_of t0 u)) ?m\<close> b(1) by simp_all
        have "read_loop mx evs ?b now (showCursor (ui_putchar c STDOUT (hideCursor u))) = Some (line, u')"
          using Cons.prems(3) put nl b(1) by (auto simp: ev Some)
        from go [OF e(1) this] arg_cong [OF e(2), of ts_w] arg_cong [OF e(2), of ts_h] arg_cong [OF e(2), of ts_font] b(2)
        show ?thesis by simp
      qed
    qed
  qed
qed

subsection \<open>A line\<close>

text \<open>C37: Reading a line ends exactly when a newline is typed. The line is then what the keys make of an empty line: backspace takes
  the last character, plus and minus only change the font, characters beyond the size of the buffer are ignored; and it fits the
  buffer with its terminating NUL. This holds whatever the screen does. Moreover, suppose that at the start the screen is what a redraw of the log gives, with the
  cursor behind it if it is visible, that the log has room for one character for each key, that no key is a carriage return, and that
  the line stays on the row of its prompt: at every moment and in the font of that moment the row has room for the longest line so far and the cursor
  (\<open>line_fits\<close>). Then, however the cursor blinked and the screen was redrawn in between, the screen is again the redraw, in the font
  of the end, of the text from before, with the line and the visible cursor behind it on the same row. The screen is the rows of text that the driver makes,
  with its automatic line breaks and a backspace that does nothing at the start of a row (\<open>Screen_Text\<close>);
  where the line does not fit its row the shell can leave a stray cursor character, and nothing is said.\<close>

theorem shell_read_line:
  assumes "0 < mx"
  shows "case shellReadLine mx tick0 evs u of
      None \<Rightarrow> Some NL \<notin> fst ` set evs
    | Some (line, u') \<Rightarrow> Some NL \<in> fst ` set evs \<and> line = fold (edit_key mx) (keys_of evs) [] \<and> length line < mx \<and>
        (screen_of t0 u = shown (redrawn (log_of u) (screen_of t0 u)) (cursor_text u) \<longrightarrow>
         length (redrawBuffer u) + length (keys_of evs) \<le> 4096 \<longrightarrow> line_fits (screen_of t0 u) (log_of u) mx [] 0 (keys_of evs) \<longrightarrow>
         screen_of t0 u' = shown (redrawn (log_of u) (screen_of t0 u')) (line @ cursor_text u'))"
proof -
  have "screen_of t0 u' = shown (redrawn (log_of u) (screen_of t0 u')) (line @ cursor_text u')"
    if s: "screen_of t0 u = shown (redrawn (log_of u) (screen_of t0 u)) (cursor_text u)" "length (redrawBuffer u) + length (keys_of evs) \<le> 4096"
      and f: "line_fits (screen_of t0 u) (log_of u) mx [] 0 (keys_of evs)" and l: "shellReadLine mx tick0 evs u = Some (line, u')" for line u'
  proof -
    have r: "reading t0 (log_of u) [] 0 (length (keys_of evs)) u" using s by (simp add: reading_def exI [of _ "[]"])
    note c = reading_cursor(1,3) [OF r line_fits_room [OF f]]
    have "line_fits (screen_of t0 (showCursor u)) (log_of u) mx [] 0 (keys_of evs) = line_fits (screen_of t0 u) (log_of u) mx [] 0 (keys_of evs)"
      using arg_cong [OF c(2), of ts_w] arg_cong [OF c(2), of ts_h] arg_cong [OF c(2), of ts_font] by (intro line_fits_cong) simp_all
    then have "\<exists>m'. reading t0 (log_of u) line m' 0 u'"
      using read_loop_screen [OF c(1)] f l by (simp add: shellReadLine_def)
    then show ?thesis by (auto simp: reading_def)
  qed
  moreover have "length ([] :: string) < mx" using assms by simp
  ultimately show ?thesis
    using read_loop_line [of "[]" mx evs tick0 "showCursor u"] by (auto simp: shellReadLine_def split: option.splits)
qed

lemma shell_read_line_witness:
  "\<exists>u' t. shellReadLine 100 0 [(Some CHR ''l'', 1), (None, 20), (Some CHR ''x'', 21), (Some BS, 22), (Some CHR ''+'', 23), (Some CHR ''s'', 30), (Some NL, 31)]
     \<lparr>cursorVisible = False, redrawBuffer = [(CHR ''>'', 1)], ui_out = [Written 1 ''>'']\<rparr> = Some (''ls'', u') \<and>
     t = screen_of \<lparr>ts_w = 1024, ts_h = 768, ts_font = 1, ts_x = 0, ts_y = 0, ts_above = [], ts_row = []\<rparr> u' \<and>
     t = shown (redrawn ''>'' t) (''ls'' @ cursor_text u')"
proof -
  define evs :: "(char option \<times> u64) list" where
    "evs = [(Some CHR ''l'', 1), (None, 20), (Some CHR ''x'', 21), (Some BS, 22), (Some CHR ''+'', 23), (Some CHR ''s'', 30), (Some NL, 31)]"
  define u where "u = \<lparr>cursorVisible = False, redrawBuffer = [(CHR ''>'', 1)], ui_out = [Written 1 ''>'']\<rparr>"
  define t0 where "t0 = \<lparr>ts_w = 1024, ts_h = 768, ts_font = 1, ts_x = 0, ts_y = 0, ts_above = [], ts_row = []\<rparr>"
  have redraw: "redrawn ''>'' t = t\<lparr>ts_x := 8 * ts_font t, ts_y := 0, ts_above := [], ts_row := ''>''\<rparr>"
    if "16 * ts_font t \<le> ts_w t" "16 * ts_font t \<le> ts_h t" "1 \<le> ts_font t" for t
    using that by (simp add: redrawn_def text_clear_def tput_def row_check_def)
  have lo: "log_of u = ''>''" and sc: "screen_of t0 u = t0\<lparr>ts_x := 8, ts_row := ''>''\<rparr>"
    by (simp_all add: u_def t0_def screen_of_def tput_def row_check_def)
  have k: "keys_of evs = [CHR ''l'', CHR ''x'', BS, CHR ''+'', CHR ''s'']" "fold (edit_key 100) (keys_of evs) [] = ''ls''" "Some NL \<in> fst ` set evs"
    by (simp_all add: evs_def edit_key_def)
  have s: "screen_of t0 u = shown (redrawn (log_of u) (screen_of t0 u)) (cursor_text u)" "length (redrawBuffer u) + length (keys_of evs) \<le> 4096"
    unfolding sc lo k(1) by (simp_all add: redraw t0_def cursor_text_def u_def)
  have f: "line_fits (screen_of t0 u) (log_of u) 100 [] 0 (keys_of evs)"
    unfolding sc lo k(1) by (simp add: redraw t0_def row_room_def font_key_def edit_key_def Let_def)
  have pos: "0 < (100 :: nat)" by simp
  note t = shell_read_line [OF pos, where ?tick0.0 = 0 and evs = evs and u = u and ?t0.0 = t0]
  obtain line u' where l: "shellReadLine 100 0 evs u = Some (line, u')"
    using t k(3) by (cases "shellReadLine 100 0 evs u") (simp, force)
  from t [unfolded l option.case prod.case] s f have "line = fold (edit_key 100) (keys_of evs) []"
    "screen_of t0 u' = shown (redrawn (log_of u) (screen_of t0 u')) (line @ cursor_text u')" by blast+
  then have "shellReadLine 100 0 evs u = Some (''ls'', u') \<and> screen_of t0 u' = shown (redrawn ''>'' (screen_of t0 u')) (''ls'' @ cursor_text u')"
    using l unfolding k(2) lo by blast
  then show ?thesis unfolding evs_def u_def t0_def by blast
qed

subsection \<open>The clock\<close>

lemma bcd_to_bcd: "0 \<le> n \<Longrightarrow> n < 100 \<Longrightarrow> bcd (to_bcd n) = n"
proof -
  assume n: "0 \<le> n" "n < 100"
  let ?k = "n div 10 * 16 + n mod 10"
  have k: "0 \<le> ?k" "?k < 256" using n by simp_all
  have u: "uint (to_bcd n) = ?k" unfolding to_bcd_def by (simp only: uint_word_of_int) (use k in simp)
  have "uint (drop_bit 4 (to_bcd n)) = ?k div 16" by (simp add: drop_bit_eq_div uint_div u)
  moreover have "uint (to_bcd n AND 0x0F) = ?k mod 16"
  proof -
    have "?k AND 0x0F = take_bit 4 ?k" by (simp add: take_bit_eq_mask mask_eq_exp_minus_1)
    then show ?thesis by (simp add: uint_and u take_bit_eq_mod)
  qed
  moreover have "(q * 16 + r) div 16 = q" "(q * 16 + r) mod 16 = r" if "0 \<le> r" "r < 16" for q r :: int using that by simp_all
  then have "?k div 16 = n div 10" "?k mod 16 = n mod 10" using n by simp_all
  ultimately have "bcd (to_bcd n) = n div 10 * 10 + n mod 10" unfolding bcd_def by simp
  then show ?thesis by simp
qed

text \<open>The hour that is printed is the one three hours earlier.\<close>

lemma adjustHour_mod:
  assumes "0 \<le> h" "h < 24" "- 24 \<le> off" "off \<le> 24"
  shows "bcd (adjustHour (to_bcd h) off) = (h + off) mod 24"
proof -
  let ?h1 = "if h + off < 0 then h + off + 24 else if 24 \<le> h + off then h + off - 24 else h + off"
  have r: "0 \<le> ?h1" "?h1 < 24" using assms by auto
  have "(h + off) mod 24 = ?h1 mod 24" by simp
  then have "?h1 = (h + off) mod 24" using r by simp
  then show ?thesis using assms bcd_to_bcd [of h] bcd_to_bcd [of ?h1] r by (simp add: adjustHour_def Let_def)
qed

text \<open>At one in the morning of the first of March the date that is printed is the thirtieth of February.\<close>

lemma local_date_february: "local_date [0x01, 0, 0] [0x01, 0x03, 0x26] = [0x30, 0x02, 0x26]"
  by (simp add: local_date_def bcd_def to_bcd_def)

end
