(* ===== verification/Test_MM.thy ===== *)
theory Test_MM
  imports Utils Lib Buddy_Props
begin

text \<open>
  The test of the memory manager, \<open>Userland/c/tests/test_mm.c\<close>, and the helpers it takes from
  \<open>test_util.c\<close>: rounds of requesting blocks of random sizes, filling each with its number, checking the
  contents and releasing them. The memory manager is an argument (\<open>malloc\<close>, \<open>release\<close>); the bytes of the
  payloads are the memory of \<open>Lib\<close>, the headers belong to the heap of the manager. \<open>GetUniform\<close> computes
  with floating point numbers; \<open>rnd i mx\<close> is what its i-th call returns when the bound is \<open>mx\<close>.
\<close>

abbreviation (input) MAX_BLOCKS :: nat where "MAX_BLOCKS \<equiv> 128"

record mm_rq =
  rq_address :: ptr
  rq_size :: u32

subsection \<open>The code\<close>

text \<open>The generator under \<open>GetUniform\<close>, on \<open>m_z\<close> and \<open>m_w\<close>.\<close>

definition GetUint :: "u32 \<times> u32 \<Rightarrow> u32 \<times> u32 \<times> u32" where
  "GetUint g =
     (let m_z = 36969 * (fst g AND 65535) + drop_bit 16 (fst g);
          m_w = 18000 * (snd g AND 65535) + drop_bit 16 (snd g)
      in (push_bit 16 m_z + m_w, m_z, m_w))"

definition memcheck :: "addr \<Rightarrow> char \<Rightarrow> u32 \<Rightarrow> bytes_mem \<Rightarrow> bool" where
  "memcheck start val sz m \<longleftrightarrow> list_all (\<lambda>i. m (start + i) = val) [0..<unat sz]"

function request_blocks ::
  "(u64 \<Rightarrow> 'h \<Rightarrow> ('h \<times> ptr) option) \<Rightarrow> (nat \<Rightarrow> u32 \<Rightarrow> u32) \<Rightarrow> u64 \<Rightarrow> nat \<Rightarrow> u32 \<Rightarrow> mm_rq list \<Rightarrow> 'h \<Rightarrow>
   (nat \<times> mm_rq list \<times> 'h) option" where
  "request_blocks malloc rnd max_memory k tot rqs h =
     (if length rqs < MAX_BLOCKS \<and> ucast tot < max_memory
      then
        let sz = rnd k (ucast (max_memory - ucast tot - 1)) + 1
        in case malloc (ucast sz) h of
             None \<Rightarrow> None
           | Some (h1, None) \<Rightarrow> Some (Suc k, rqs, h1)
           | Some (h1, Some p) \<Rightarrow>
               request_blocks malloc rnd max_memory (Suc k) (tot + sz) (rqs @ [\<lparr>rq_address = Some p, rq_size = sz\<rparr>]) h1
      else Some (k, rqs, h))"
  by pat_completeness auto
termination
  by (relation "measure (\<lambda>(malloc, rnd, mx, k, tot, rqs, h). MAX_BLOCKS - length rqs)") auto

declare request_blocks.simps [simp del]

fun fill_blocks :: "nat \<Rightarrow> mm_rq list \<Rightarrow> bytes_mem \<Rightarrow> bytes_mem" where
  "fill_blocks i [] m = m"
| "fill_blocks i (r # rqs) m =
     fill_blocks (Suc i) rqs (case rq_address r of None \<Rightarrow> m | Some p \<Rightarrow> memset p (char_of i) (unat (rq_size r)) m)"

fun check_blocks :: "nat \<Rightarrow> mm_rq list \<Rightarrow> bytes_mem \<Rightarrow> bool" where
  "check_blocks i [] m = True"
| "check_blocks i (r # rqs) m =
     ((case rq_address r of None \<Rightarrow> True | Some p \<Rightarrow> memcheck p (char_of i) (rq_size r) m) \<and> check_blocks (Suc i) rqs m)"

fun free_blocks :: "(ptr \<Rightarrow> 'h \<Rightarrow> 'h option) \<Rightarrow> mm_rq list \<Rightarrow> 'h \<Rightarrow> 'h option" where
  "free_blocks release [] h = Some h"
| "free_blocks release (r # rqs) h =
     (case rq_address r of
        None \<Rightarrow> free_blocks release rqs h
      | Some p \<Rightarrow> (case release (Some p) h of None \<Rightarrow> None | Some h' \<Rightarrow> free_blocks release rqs h'))"

text \<open>The first \<open>n\<close> rounds of \<open>while(1)\<close>: \<open>None\<close> if a call never returns, \<open>Inl ()\<close> after "test_mm ERROR".\<close>

fun test_mm_rounds ::
  "(u64 \<Rightarrow> 'h \<Rightarrow> ('h \<times> ptr) option) \<Rightarrow> (ptr \<Rightarrow> 'h \<Rightarrow> 'h option) \<Rightarrow> (nat \<Rightarrow> u32 \<Rightarrow> u32) \<Rightarrow> u64 \<Rightarrow> nat \<Rightarrow>
   nat \<Rightarrow> bytes_mem \<times> 'h \<Rightarrow> (unit + bytes_mem \<times> 'h) option" where
  "test_mm_rounds malloc release rnd max_memory 0 k (m, h) = Some (Inr (m, h))"
| "test_mm_rounds malloc release rnd max_memory (Suc n) k (m, h) =
     (case request_blocks malloc rnd max_memory k 0 [] h of
        None \<Rightarrow> None
      | Some (k1, rqs, h1) \<Rightarrow>
          let m1 = fill_blocks 0 rqs m
          in if \<not> check_blocks 0 rqs m1 then Some (Inl ())
             else case free_blocks release rqs h1 of
                    None \<Rightarrow> None
                  | Some h2 \<Rightarrow> test_mm_rounds malloc release rnd max_memory n k1 (m1, h2))"

text \<open>The checks of the arguments: the message of a refusal (the program returns -1), or the limit for the rounds.\<close>

definition test_mm_args :: "string list \<Rightarrow> string + u64" where
  "test_mm_args argv =
     (if length argv \<noteq> 1 then Inl (''uso: test_mm <max_memory>'' @ [CHR 0x0A])
      else if \<not> is_valid_uint (Some (argv ! 0)) then Inl (''test_mm: max_memory debe ser un numero positivo'' @ [CHR 0x0A])
      else
        let max_memory = satoi (Some (argv ! 0))
        in if max_memory = 0 then Inl (''test_mm: max_memory debe ser mayor a 0'' @ [CHR 0x0A]) else Inr max_memory)"

subsection \<open>Blocks in a heap\<close>

text \<open>The blocks of the table are live regions that are large enough, each its own, and none of the regions \<open>L0\<close>.\<close>

definition holds_rqs :: "(nat \<times> nat) set \<Rightarrow> mm_rq list \<Rightarrow> (nat \<times> nat) set \<Rightarrow> bool" where
  "holds_rqs L0 rqs L \<longleftrightarrow>
     (\<exists>ps. L = L0 \<union> set ps \<and> distinct (map fst ps) \<and> fst ` set ps \<inter> fst ` L0 = {} \<and>
        list_all2 (\<lambda>r q. rq_address r = Some (fst q) \<and> unat (rq_size r) \<le> snd q) rqs ps)"

definition blocks_apart :: "mm_rq list \<Rightarrow> bool" where
  "blocks_apart rqs \<longleftrightarrow> (\<forall>i<length rqs. \<forall>j<length rqs. i \<noteq> j \<longrightarrow>
     (case (rq_address (rqs ! i), rq_address (rqs ! j)) of
        (Some p, Some q) \<Rightarrow> p + unat (rq_size (rqs ! i)) \<le> q \<or> q + unat (rq_size (rqs ! j)) \<le> p
      | _ \<Rightarrow> True))"

definition rq_byte :: "mm_rq \<Rightarrow> addr \<Rightarrow> bool" where
  "rq_byte r a \<longleftrightarrow> (case rq_address r of None \<Rightarrow> False | Some p \<Rightarrow> p \<le> a \<and> a < p + unat (rq_size r))"

lemma unat_ucast_u64 [simp]: "unat (ucast (w :: u32) :: u64) = unat w"
proof -
  have "unat w < 2 ^ 32" using unsigned_less [of w, where 'a = nat] by simp
  then show ?thesis by (simp add: unsigned_ucast_eq take_bit_nat_eq_self)
qed

lemma fill_blocks_outside: "\<forall>r\<in>set rqs. \<not> rq_byte r a \<Longrightarrow> fill_blocks i rqs m a = m a"
  by (induction i rqs m rule: fill_blocks.induct) (auto simp: rq_byte_def memset_eq split: option.splits)

lemma blocks_apart_Cons:
  assumes "blocks_apart (r # rqs)"
  shows "blocks_apart rqs" "s \<in> set rqs \<Longrightarrow> rq_byte r a \<Longrightarrow> \<not> rq_byte s a"
proof -
  show "blocks_apart rqs" unfolding blocks_apart_def
  proof (intro allI impI)
    fix i j assume "i < length rqs" "j < length rqs" "i \<noteq> j"
    then show "case (rq_address (rqs ! i), rq_address (rqs ! j)) of
        (Some p, Some q) \<Rightarrow> p + unat (rq_size (rqs ! i)) \<le> q \<or> q + unat (rq_size (rqs ! j)) \<le> p | _ \<Rightarrow> True"
      using assms [unfolded blocks_apart_def, THEN spec, of "Suc i", THEN mp, THEN spec, of "Suc j"] by (simp split: option.splits)
  qed
  show "s \<in> set rqs \<Longrightarrow> rq_byte r a \<Longrightarrow> \<not> rq_byte s a"
  proof -
    assume "s \<in> set rqs" "rq_byte r a"
    then obtain j where "j < length rqs" "s = rqs ! j" by (auto simp: in_set_conv_nth)
    then show ?thesis using assms [unfolded blocks_apart_def, THEN spec, of 0, THEN mp, THEN spec, of "Suc j"] \<open>rq_byte r a\<close>
      by (auto simp: rq_byte_def split: option.splits)
  qed
qed

lemma check_fill: "blocks_apart rqs \<Longrightarrow> check_blocks i rqs (fill_blocks i rqs m)"
proof (induction rqs arbitrary: i m)
  case Nil
  then show ?case by simp
next
  case (Cons r rqs)
  note apart = blocks_apart_Cons [OF Cons.prems]
  show ?case
  proof (cases "rq_address r")
    case None
    then show ?thesis using Cons.IH [OF apart(1)] by simp
  next
    case (Some p)
    let ?m = "memset p (char_of i) (unat (rq_size r)) m"
    have "fill_blocks (Suc i) rqs ?m (p + j) = char_of i" if "j < unat (rq_size r)" for j
    proof -
      have "rq_byte r (p + j)" using that Some by (simp add: rq_byte_def)
      then have "fill_blocks (Suc i) rqs ?m (p + j) = ?m (p + j)" using apart(2) by (intro fill_blocks_outside) blast
      then show ?thesis using that by (simp add: memset_eq)
    qed
    then show ?thesis using Some Cons.IH [OF apart(1), of "Suc i" ?m] by (simp add: memcheck_def list_all_iff)
  qed
qed

lemma holds_rqs_apart:
  assumes "holds_rqs L0 rqs L"
    and "\<And>p m q l. (p, m) \<in> L \<Longrightarrow> (q, l) \<in> L \<Longrightarrow> (p, m) \<noteq> (q, l) \<Longrightarrow> p + m \<le> q \<or> q + l \<le> p"
  shows "blocks_apart rqs"
proof -
  obtain ps where ps: "L = L0 \<union> set ps" "distinct (map fst ps)"
    "list_all2 (\<lambda>r q. rq_address r = Some (fst q) \<and> unat (rq_size r) \<le> snd q) rqs ps"
    using assms(1) by (auto simp: holds_rqs_def)
  have at: "rq_address (rqs ! i) = Some (fst (ps ! i))" "unat (rq_size (rqs ! i)) \<le> snd (ps ! i)" "ps ! i \<in> L" if "i < length rqs" for i
    using list_all2_nthD [OF ps(3) that] list_all2_lengthD [OF ps(3)] that ps(1) by simp_all
  have "fst (ps ! i) + unat (rq_size (rqs ! i)) \<le> fst (ps ! j) \<or> fst (ps ! j) + unat (rq_size (rqs ! j)) \<le> fst (ps ! i)"
    if "i < length rqs" "j < length rqs" "i \<noteq> j" for i j
  proof -
    have "fst (ps ! i) \<noteq> fst (ps ! j)" using ps(2) that list_all2_lengthD [OF ps(3)] by (metis length_map nth_eq_iff_index_eq nth_map)
    then have "ps ! i \<noteq> ps ! j" by metis
    then have "fst (ps ! i) + snd (ps ! i) \<le> fst (ps ! j) \<or> fst (ps ! j) + snd (ps ! j) \<le> fst (ps ! i)"
      using at(3) [OF that(1)] at(3) [OF that(2)] by (intro assms(2)) simp_all
    then show ?thesis using at(2) [OF that(1)] at(2) [OF that(2)] by linarith
  qed
  then show ?thesis by (auto simp: blocks_apart_def at(1))
qed

subsection \<open>The test on any memory manager that keeps its contract\<close>

context allocator
begin

lemma request_blocks_ok:
  "rep h L \<Longrightarrow> holds_rqs L0 rqs L \<Longrightarrow> (\<forall>w :: u32. fits (ucast w)) \<Longrightarrow>
   \<exists>k' rqs' h' L'. request_blocks (\<lambda>n. alloc n False) rnd mx k tot rqs h = Some (k', rqs', h') \<and> rep h' L' \<and> holds_rqs L0 rqs' L'"
proof (induction "\<lambda>n. alloc n False" rnd mx k tot rqs h arbitrary: L rule: request_blocks.induct)
  case (1 rnd mx k tot rqs h)
  show ?case
  proof (cases "length rqs < MAX_BLOCKS \<and> ucast tot < mx")
    case False
    then show ?thesis using 1(2,3) by (subst request_blocks.simps) auto
  next
    case True
    define sz where "sz = rnd k (ucast (mx - ucast tot - 1)) + 1"
    from alloc_ok [OF 1(2), of "ucast sz" False] obtain h1 r where a: "alloc (ucast sz) False h = Some (h1, r)"
      "case r of None \<Rightarrow> rep h1 L
       | Some p \<Rightarrow> \<exists>n. (fits (ucast sz) \<longrightarrow> unat (ucast sz :: u64) \<le> n) \<and> rep h1 (insert (p, n) L) \<and> p \<notin> fst ` L" by blast
    show ?thesis
    proof (cases r)
      case None
      then show ?thesis using True a 1(3) by (subst request_blocks.simps) (simp add: sz_def [symmetric] Let_def, blast)
    next
      case (Some p)
      with a(2) 1(4) obtain n where n: "unat sz \<le> n" "rep h1 (insert (p, n) L)" "p \<notin> fst ` L" by auto
      obtain ps where ps: "L = L0 \<union> set ps" "distinct (map fst ps)" "fst ` set ps \<inter> fst ` L0 = {}"
        "list_all2 (\<lambda>r q. rq_address r = Some (fst q) \<and> unat (rq_size r) \<le> snd q) rqs ps"
        using 1(3) by (auto simp: holds_rqs_def)
      have "holds_rqs L0 (rqs @ [\<lparr>rq_address = Some p, rq_size = sz\<rparr>]) (insert (p, n) L)"
        unfolding holds_rqs_def by (rule exI [of _ "ps @ [(p, n)]"]) (use ps n in \<open>auto simp: list_all2_appendI\<close>)
      from 1(1) [OF True sz_def a(1) [unfolded Some] refl refl n(2) this 1(4)]
      show ?thesis using True a(1) Some by (subst request_blocks.simps) (simp add: sz_def [symmetric] Let_def)
    qed
  qed
qed

lemma free_blocks_ok:
  "rep h L \<Longrightarrow> holds_rqs L0 rqs L \<Longrightarrow> \<exists>h'. free_blocks release rqs h = Some h' \<and> rep h' L0"
proof (induction rqs arbitrary: h L)
  case Nil
  then show ?case by (auto simp: holds_rqs_def)
next
  case (Cons r rqs)
  then obtain q ps where ps: "L = L0 \<union> set (q # ps)" "distinct (map fst (q # ps))" "fst ` set (q # ps) \<inter> fst ` L0 = {}"
    "rq_address r = Some (fst q)"
    "list_all2 (\<lambda>r q. rq_address r = Some (fst q) \<and> unat (rq_size r) \<le> snd q) rqs ps"
    by (auto simp: holds_rqs_def list_all2_Cons1)
  from release_ok [OF Cons.prems(1), of "fst q" "snd q"] ps(1) obtain h1 where
    h1: "release (Some (fst q)) h = Some h1" "rep h1 (L - {q})" by auto
  have "q \<notin> L0" "q \<notin> set ps" using ps(2,3) by auto
  then have "L - {q} = L0 \<union> set ps" using ps(1) by auto
  then have "holds_rqs L0 rqs (L - {q})" using ps by (auto simp: holds_rqs_def)
  from Cons.IH [OF h1(2) this] h1(1) ps(4) show ?case by simp
qed

lemma test_mm_rounds_ok:
  assumes "\<forall>w :: u32. fits (ucast w)"
  shows "rep h L \<Longrightarrow> \<exists>m' h'. test_mm_rounds (\<lambda>n. alloc n False) release rnd mx n k (m, h) = Some (Inr (m', h')) \<and> rep h' L"
proof (induction n arbitrary: k m h)
  case 0
  then show ?case by simp
next
  case (Suc n)
  have "holds_rqs L [] L" by (simp add: holds_rqs_def)
  from request_blocks_ok [OF Suc.prems this assms] obtain k1 rqs h1 L1 where
    r: "request_blocks (\<lambda>n. alloc n False) rnd mx k 0 [] h = Some (k1, rqs, h1)" "rep h1 L1" "holds_rqs L rqs L1" by blast
  have "check_blocks 0 rqs (fill_blocks 0 rqs m)"
    by (rule check_fill, rule holds_rqs_apart [OF r(3)], rule rep_disjoint [OF r(2)])
  moreover from free_blocks_ok [OF r(2,3)] obtain h2 where "free_blocks release rqs h1 = Some h2" "rep h2 L" by blast
  ultimately show ?case using r(1) Suc.IH [of h2 k1 "fill_blocks 0 rqs m"] by (simp add: Let_def)
qed

end

end
