(* ===== verification/Test_MM_Props.thy ===== *)
theory Test_MM_Props
  imports Test_MM FF_Props
begin

text \<open>
  The test of the memory manager passes on both memory managers: the contract of \<open>memoryManager.h\<close> is all the test
  needs, and each of the two keeps it.
\<close>

lemma ff_live_empty:
  assumes "ff_live a e h {}"
  shows "\<exists>k. ff_rep a e h [\<lparr>b_addr = a, b_size = e - a - HDR, b_free = True, b_kern = k\<rparr>]"
proof -
  from assms obtain bs where bs: "ff_rep a e h bs" "live_regions bs = {}" by (auto simp: ff_live_def)
  then have free: "\<forall>b\<in>set bs. b_free b" by (auto simp: live_regions_def)
  obtain b cs where b: "bs = b # cs" using bs(1) by (cases bs) (auto simp: ff_rep_def)
  have "coalesced (b # cs)" using bs(1) by (simp add: b ff_rep_def)
  then have "cs = []" using free by (cases cs) (simp_all add: b coalesced_simps)
  with bs(1) b have r: "ff_rep a e h [b]" by simp
  moreover from r have "contig a e [b]" unfolding ff_rep_def by blast
  moreover from this free b have "b = \<lparr>b_addr = a, b_size = e - a - HDR, b_free = True, b_kern = b_kern b\<rparr>"
    by (cases b) (auto simp: b_end_def)
  ultimately show ?thesis by metis
qed

lemma fits_u32: "ff_fits (ucast (w :: u32))" "buddy_fits (ucast (w :: u32))"
proof -
  have "unat w < 2 ^ 32" using unsigned_less [of w, where 'a = nat] by simp
  then show "ff_fits (ucast w)" "buddy_fits (ucast w)" by (simp_all add: ff_fits_def buddy_fits_def)
qed

text \<open>C35: \<open>test_mm\<close> passes. Whatever the random generator returns, any number of rounds of requesting blocks, filling them,
  checking them and releasing them ends without an error, with the First-Fit manager on every heap with room for a header and, on
  a heap of its own, with the buddy manager whenever it can tile that heap (a multiple of 16 below 16 MB, the 8 MB of the kernel
  among them). Afterwards nothing is allocated; the First-Fit heap is a single free block again.\<close>

theorem test_mm_passes:
  assumes "HDR < sz" "2 ^ MIN_ORDER dvd bsz" "bsz < 2 ^ Suc MAX_ORDER"
  shows "\<exists>m1 h1 m2 h2 k.
    test_mm_rounds mm_malloc mm_free rnd max_memory n 0 (m, mm_init a sz h) = Some (Inr (m1, h1)) \<and>
    ff_rep a (a + sz) h1 [\<lparr>b_addr = a, b_size = sz - HDR, b_free = True, b_kern = k\<rparr>] \<and>
    test_mm_rounds (\<lambda>n h. Some (buddy_malloc n h)) buddy_free rnd max_memory n 0 (m, buddy_init b bsz bh) = Some (Inr (m2, h2)) \<and>
    buddy_rep b bsz h2 {}"
proof -
  have "ff_live a (a + sz) (mm_init a sz h) {}"
    using ff_rep_init [OF assms(1), of a h] by (auto simp: ff_live_def live_regions_def intro!: exI)
  from ff.test_mm_rounds_ok [OF _ this, of rnd max_memory n 0 m] obtain m1 h1 where
    1: "test_mm_rounds mm_malloc mm_free rnd max_memory n 0 (m, mm_init a sz h) = Some (Inr (m1, h1))" "ff_live a (a + sz) h1 {}"
    by (auto simp: mm_malloc_def [abs_def] fits_u32)
  from buddy.test_mm_rounds_ok [OF _ buddy_rep_init [OF assms(2,3), of b bh], of rnd max_memory n 0 m] obtain m2 h2 where
    2: "test_mm_rounds (\<lambda>n h. Some (buddy_malloc n h)) buddy_free rnd max_memory n 0 (m, buddy_init b bsz bh) = Some (Inr (m2, h2))"
      "buddy_rep b bsz h2 {}"
    by (auto simp: buddy_malloc_def [abs_def] fits_u32)
  from ff_live_empty [OF 1(2)] 1(1) 2 show ?thesis by fastforce
qed

theorem test_mm_passes_witness:
  "\<exists>m1 h1 k. test_mm_rounds mm_malloc mm_free (\<lambda>i mx. of_nat i * 1000) 100000 50 0 (\<lambda>_. CHR 0x00,
      mm_init 6291456 8388608 \<lparr>heap_start = None, blocks = \<lambda>_. \<lparr>mb_size = 0, mb_is_free = False,
         mb_is_kernel = False, mb_next = None\<rparr>\<rparr>) = Some (Inr (m1, h1)) \<and>
    ff_rep 6291456 14680064 h1 [\<lparr>b_addr = 6291456, b_size = 8388584, b_free = True, b_kern = k\<rparr>]"
  using test_mm_passes [of 8388608 8388608 "\<lambda>i mx. of_nat i * 1000" 100000 50 "\<lambda>_. CHR 0x00" 6291456
    "\<lparr>heap_start = None, blocks = \<lambda>_. \<lparr>mb_size = 0, mb_is_free = False, mb_is_kernel = False, mb_next = None\<rparr>\<rparr>"]
  by fastforce

end
