(* ===== verification/Test_Sync.thy ===== *)
theory Test_Sync
  imports Mvar_Lemmas Frames Utils
begin

text \<open>
  The test of the semaphores, \<open>Userland/c/tests/test_sync.c\<close>: processes that add to a shared variable with
  a yield between reading and writing it, inside a semaphore or not. \<open>my_process_inc\<close> blocks in \<open>my_sem_wait\<close> and
  gives the processor away in \<open>slowInc\<close>, so its loop is a step relation, \<open>sync_run\<close>, one step for each part of an iteration
  that runs without interruption.
\<close>

record tsys = msys +
  sync_global :: u64

abbreviation (input) SEM_ID :: string where "SEM_ID \<equiv> ''sem''"

subsection \<open>The code\<close>

text \<open>The two halves of \<open>slowInc\<close>, before and after \<open>my_yield\<close>.\<close>

definition slowInc_read :: "'a tsys_scheme \<Rightarrow> u64" where
  "slowInc_read s = sync_global s"

definition slowInc_write :: "u64 \<Rightarrow> u64 \<Rightarrow> 'a tsys_scheme \<Rightarrow> 'a tsys_scheme" where
  "slowInc_write aux inc s = s\<lparr>sync_global := aux + inc\<rparr>"

text \<open>The arguments of \<open>my_process_inc\<close>: number of iterations, increment, use of the semaphore; \<open>None\<close> is the return with -1.\<close>

definition process_inc_args :: "string list \<Rightarrow> (u64 \<times> u64 \<times> bool) option" where
  "process_inc_args argv =
     (if length argv \<noteq> 3 then None
      else
        let n = satoi (Some (argv ! 0));
            inc = (ucast (satoi (Some (argv ! 1))) :: u8);
            use_sem = (ucast (satoi (Some (argv ! 2))) :: u8)
        in if n = 0 \<or> inc = 0 \<or> sint use_sem < 0 then None else Some (n, scast inc, use_sem \<noteq> 0))"

text \<open>The checks of \<open>test_sync_internal\<close>: the message of a refusal, or the number of iterations and the use of the semaphore. The
  two words of the line are cut by \<open>test_sync_cmd\<close>.\<close>

definition test_sync_args :: "string list \<Rightarrow> string + u64 \<times> bool" where
  "test_sync_args argv =
     (if length argv \<noteq> 2 then Inl (''uso: test_sync <n> <use_sem>'' @ [CHR 0x0A])
      else if \<not> is_valid_uint (Some (argv ! 0)) \<or> satoi (Some (argv ! 0)) = 0
      then Inl (''test_sync: n debe ser un numero positivo'' @ [CHR 0x0A])
      else if \<not> is_valid_uint (Some (argv ! 1)) \<or> sint (satoi (Some (argv ! 1))) > 1
      then Inl (''test_sync: use_sem debe ser 0 o 1'' @ [CHR 0x0A])
      else Inr (satoi (Some (argv ! 0)), satoi (Some (argv ! 1)) \<noteq> 0))"

definition test_sync_words :: "string \<Rightarrow> (string \<times> string) option" where
  "test_sync_words args =
     (let buf = take 63 (cstr args);
          p = dropWhile (\<lambda>c. c \<noteq> CHR '' '') buf
      in if p = [] then None else Some (takeWhile (\<lambda>c. c \<noteq> CHR '' '') buf, dropWhile (\<lambda>c. c = CHR '' '') (tl p)))"

definition sync_open :: "bool \<Rightarrow> 'a semsys_scheme \<Rightarrow> int \<times> 'a semsys_scheme" where
  "sync_open use_sem s = (if use_sem then my_sem_open SEM_ID 1 s else (1, s))"

definition sync_enter :: "bool \<Rightarrow> 'a semsys_scheme \<Rightarrow> (int \<times> 'a semsys_scheme) option" where
  "sync_enter use_sem s = (if use_sem then my_sem_wait SEM_ID s else Some (0, s))"

definition sync_leave :: "bool \<Rightarrow> 'a semsys_scheme \<Rightarrow> (int \<times> 'a semsys_scheme) option" where
  "sync_leave use_sem s = (if use_sem then my_sem_post SEM_ID s else Some (0, s))"

subsection \<open>The processes\<close>

text \<open>Where a process is in its loop, with the number of additions it still has to make.\<close>

datatype sync_pc = Next nat | Waiting nat | Adding nat u64 | Added nat

fun to_do :: "sync_pc \<Rightarrow> nat" where
  "to_do (Next n) = n" | "to_do (Waiting n) = n" | "to_do (Adding n aux) = n" | "to_do (Added n) = n"

definition active :: "(nat \<Rightarrow> sync_pc) \<Rightarrow> nat set" where
  "active pc = {k. \<forall>n. pc k \<noteq> Next n}"

definition sync_at :: "nat \<Rightarrow> 'a tsys_scheme \<Rightarrow> bool" where
  "sync_at i s \<longleftrightarrow> table_inv s \<and> sem_inv s \<and> find_sem s (Some SEM_ID) = Some i"

text \<open>The rest of the kernel may do anything, opening and closing the semaphore included, that keeps its value and queue, the variable
  and the processes at work.\<close>

definition sync_env :: "nat \<Rightarrow> (nat \<Rightarrow> sync_pc) \<Rightarrow> 'a tsys_scheme \<Rightarrow> 'a tsys_scheme \<Rightarrow> bool" where
  "sync_env i pc s t \<longleftrightarrow> sync_at i t \<and> sync_global t = sync_global s \<and> sm_value (sem_at t i) = sm_value (sem_at s i) \<and>
     sm_wait (sem_at t i) = sm_wait (sem_at s i) \<and> (\<forall>k\<in>active pc. live t k \<and> p_pid (pcb_at t k) = p_pid (pcb_at s k))"

text \<open>Process \<open>k\<close> makes \<open>n k\<close> additions of \<open>inc k\<close>.\<close>

inductive sync_run :: "bool \<Rightarrow> nat \<Rightarrow> (nat \<Rightarrow> u64) \<Rightarrow> (nat \<Rightarrow> nat) \<Rightarrow> 'a tsys_scheme \<Rightarrow> (nat \<Rightarrow> sync_pc) \<Rightarrow> bool"
  for use_sem :: bool and i :: nat and inc :: "nat \<Rightarrow> u64" and n :: "nat \<Rightarrow> nat" where
  start: "\<lbrakk>sync_at i s; sm_value (sem_at s i) = 1; sync_global s = 0\<rbrakk> \<Longrightarrow> sync_run use_sem i inc n s (\<lambda>k. Next (n k))"
| env: "\<lbrakk>sync_run use_sem i inc n s pc; sync_env i pc s t\<rbrakk> \<Longrightarrow> sync_run use_sem i inc n t pc"
| enter: "\<lbrakk>sync_run use_sem i inc n s pc; current_process s = Some c; live s c; pc c = Next (Suc m); sync_enter use_sem s = Some (r, t)\<rbrakk> \<Longrightarrow>
    sync_run use_sem i inc n t (pc(c := Waiting (Suc m)))"
| load: "\<lbrakk>sync_run use_sem i inc n s pc; current_process s = Some c; pc c = Waiting m;
    p_pid (pcb_at s c) \<notin> set (items (sm_wait (sem_at s i)))\<rbrakk> \<Longrightarrow> sync_run use_sem i inc n s (pc(c := Adding m (slowInc_read s)))"
| store: "\<lbrakk>sync_run use_sem i inc n s pc; current_process s = Some c; pc c = Adding (Suc m) aux\<rbrakk> \<Longrightarrow>
    sync_run use_sem i inc n (slowInc_write aux (inc c) s) (pc(c := Added m))"
| leave: "\<lbrakk>sync_run use_sem i inc n s pc; current_process s = Some c; pc c = Added m; sync_leave use_sem s = Some (r, t)\<rbrakk> \<Longrightarrow>
    sync_run use_sem i inc n t (pc(c := Next m))"

subsection \<open>What the operations leave alone\<close>

context sem_frame
begin

lemma fr_sem_wait: "sem_wait nm s = Some (r, t) \<Longrightarrow> fr t = fr s"
  unfolding sem_wait_def
  by (auto simp: Option.bind_eq_Some_conv Let_def case_prod_beta sem_unlock_def fr_upd_sem fr_pcb fr_block fr_upd_current
      dest!: fr_sem_lock split: if_splits option.splits)

lemma fr_sem_post: "sem_post nm s = Some (r, t) \<Longrightarrow> fr t = fr s"
  unfolding sem_post_def
  by (auto simp: Option.bind_eq_Some_conv Let_def case_prod_beta sem_unlock_def fr_upd_sem fr_pcb fr_upd_current fr_sem_wake
      dest!: fr_sem_lock split: if_splits option.splits)

end

interpretation glob: sem_frame "sync_global :: 'a tsys_scheme \<Rightarrow> _"
  by unfold_locales (simp_all add: upd_pcb_def)

lemma slowInc_write_sels [simp]:
  "process_table (slowInc_write a b s) = process_table s" "current_process (slowInc_write a b s) = current_process s"
  "sem_table (slowInc_write a b s) = sem_table s" "pcb_at (slowInc_write a b s) k = pcb_at s k" "live (slowInc_write a b s) = live s"
  "sem_at (slowInc_write a b s) i = sem_at s i" "next_pid (slowInc_write a b s) = next_pid s" "find_sem (slowInc_write a b s) nm = find_sem s nm"
  "sync_global (slowInc_write a b s) = a + b"
  by (simp_all add: slowInc_write_def pcb_at_def live_def sem_at_def find_sem_def fun_eq_iff)

lemma slowInc_write_inv [simp]: "sync_at i (slowInc_write a b s) = sync_at i s"
  by (simp add: sync_at_def sem_inv_def live_pids_def table_inv_def pids_unique_def)

subsection \<open>The invariant\<close>

text \<open>The sum of the additions made so far.\<close>

definition added_up :: "(nat \<Rightarrow> u64) \<Rightarrow> (nat \<Rightarrow> nat) \<Rightarrow> (nat \<Rightarrow> sync_pc) \<Rightarrow> u64" where
  "added_up inc n pc = (\<Sum>k | n k \<noteq> 0. of_nat (n k - to_do (pc k)) * inc k)"

definition inside :: "(nat \<Rightarrow> sync_pc) \<Rightarrow> nat set" where
  "inside pc = {k. (\<exists>m aux. pc k = Adding m aux) \<or> (\<exists>m. pc k = Added m)}"

definition sync_inv :: "nat \<Rightarrow> (nat \<Rightarrow> u64) \<Rightarrow> (nat \<Rightarrow> nat) \<Rightarrow> 'a tsys_scheme \<Rightarrow> (nat \<Rightarrow> sync_pc) \<Rightarrow> bool" where
  "sync_inv i inc n s pc \<longleftrightarrow> sync_at i s \<and> (\<forall>k\<in>active pc. live s k) \<and> queue_of (active pc) s i \<and>
     int (card (granted (active pc) s i)) + max 0 (sm_value (sem_at s i)) = 1 \<and>
     inside pc \<subseteq> granted (active pc) s i \<and> (\<forall>k m aux. pc k = Adding m aux \<longrightarrow> aux = sync_global s) \<and>
     (\<forall>k. to_do (pc k) \<le> n k) \<and> sync_global s = added_up inc n pc"

lemma added_up_same: "to_do p = to_do (pc c) \<Longrightarrow> added_up inc n (pc(c := p)) = added_up inc n pc"
  unfolding added_up_def by (rule sum.cong) auto

lemma added_up_add:
  assumes "finite {k. n k \<noteq> 0}" "to_do (pc c) = Suc m" "Suc m \<le> n c" "to_do p = m"
  shows "added_up inc n (pc(c := p)) = added_up inc n pc + inc c"
proof -
  have c: "c \<in> {k. n k \<noteq> 0}" using assms(3) by simp
  have "(\<Sum>k\<in>{k. n k \<noteq> 0} - {c}. of_nat (n k - to_do ((pc(c := p)) k)) * inc k) =
      (\<Sum>k\<in>{k. n k \<noteq> 0} - {c}. of_nat (n k - to_do (pc k)) * inc k)" by (rule sum.cong) auto
  moreover have "of_nat (n c - m) * inc c = of_nat (n c - Suc m) * inc c + inc c"
  proof -
    have "n c - m = Suc (n c - Suc m)" using assms(3) by simp
    then show ?thesis by (simp only: of_nat_Suc distrib_right mult_1_left add.commute)
  qed
  ultimately show ?thesis
    using sum.remove [OF assms(1) c, of "\<lambda>k. of_nat (n k - to_do ((pc(c := p)) k)) * inc k"]
      sum.remove [OF assms(1) c, of "\<lambda>k. of_nat (n k - to_do (pc k)) * inc k"] assms(2,4)
    by (simp only: added_up_def fun_upd_same ac_simps)
qed

end
