(* ===== verification/Test_Sync_Props.thy ===== *)
theory Test_Sync_Props
  imports Test_Sync Demo_Kernel
begin

text \<open>
  The test of the semaphores passes: with the semaphore no addition is lost. Without it one can be, which is what the test
  shows to the user.
\<close>

lemma sync_atD:
  assumes "sync_at i s"
  shows "table_inv s" "sem_inv s" "find_sem s (Some SEM_ID) = Some i"
  using assms by (simp_all add: sync_at_def)

lemma sync_at_step: "sync_at i s \<Longrightarrow> sem_step j q s t \<Longrightarrow> sync_at i t"
  by (simp add: sync_at_def sem_step_def)

lemma active_upd:
  "active (pc(c := Next m)) = active pc - {c}" "(\<And>m. p \<noteq> Next m) \<Longrightarrow> active (pc(c := p)) = insert c (active pc)"
  by (auto simp: active_def)

lemma inside_upd:
  "inside (pc(c := Next m)) = inside pc - {c}" "inside (pc(c := Waiting m)) = inside pc - {c}"
  "inside (pc(c := Adding m a)) = insert c (inside pc)" "inside (pc(c := Added m)) = insert c (inside pc)"
  by (auto simp: inside_def)

lemma inside_active: "inside pc \<subseteq> active pc"
  by (auto simp: inside_def active_def)

lemma sync_invD:
  assumes "sync_inv i inc n s pc"
  shows "sync_at i s" "k \<in> active pc \<Longrightarrow> live s k" "queue_of (active pc) s i" "finite (granted (active pc) s i)"
    "int (card (granted (active pc) s i)) + max 0 (sm_value (sem_at s i)) = 1"
    "inside pc \<subseteq> granted (active pc) s i" "pc k = Adding m aux \<Longrightarrow> aux = sync_global s" "to_do (pc k) \<le> n k"
    "sync_global s = added_up inc n pc"
proof -
  have fin: "finite {k. live s k}" by (rule finite_subset [of _ "{..<length (process_table s)}"]) (auto simp: live_def)
  show "finite (granted (active pc) s i)"
    by (rule finite_subset [OF _ fin]) (use assms in \<open>auto simp: granted_def sync_inv_def\<close>)
qed (use assms in \<open>auto simp: sync_inv_def\<close>)

text \<open>Whoever is inside is alone.\<close>

lemma alone:
  assumes "sync_inv i inc n s pc" "c \<in> granted (active pc) s i"
  shows "granted (active pc) s i = {c}" "sm_value (sem_at s i) \<le> 0" "inside pc \<subseteq> {c}"
proof -
  note I = sync_invD [OF assms(1)]
  have "0 < card (granted (active pc) s i)" using assms(2) I(4) by (auto simp: card_gt_0_iff)
  then have "card (granted (active pc) s i) = 1" "sm_value (sem_at s i) \<le> 0" using I(5) by linarith+
  then show "granted (active pc) s i = {c}" "sm_value (sem_at s i) \<le> 0" using assms(2) by (auto simp: card_1_singleton_iff)
  then show "inside pc \<subseteq> {c}" using I(6) by simp
qed

lemma sync_inv_start:
  assumes "sync_at i s" "sm_value (sem_at s i) = 1" "sync_global s = 0"
  shows "sync_inv i inc n s (\<lambda>k. Next (n k))"
proof -
  note a = sync_atD [OF assms(1)]
  have "slot_ok (live_pids s) (sem_at s i)" "0 < sm_open (sem_at s i)"
    using find_sem_SomeD [OF a(3)] sem_inv_slot [OF a(2)] by auto
  then have "q_count (sm_wait (sem_at s i)) = 0" using assms(2) by (simp add: slot_ok_def)
  then have "queue_of {} s i" using assms(2) by (simp add: queue_of_def)
  then show ?thesis using assms by (simp add: sync_inv_def active_def inside_def granted_def added_up_def)
qed

lemma sync_inv_env:
  assumes "sync_inv i inc n s pc" "sync_env i pc s t"
  shows "sync_inv i inc n t pc"
proof -
  have g: "granted (active pc) t i = granted (active pc) s i" "queue_of (active pc) t i = queue_of (active pc) s i"
    by (rule granted_queue_cong; use assms(2) in \<open>auto simp: sync_env_def\<close>)+
  note J = sync_invD [OF assms(1)]
  show ?thesis using J assms(2) g unfolding sync_inv_def sync_env_def by simp
qed

lemma sync_inv_enter:
  assumes I: "sync_inv i inc n s pc" and c: "current_process s = Some c" "live s c" "pc c = Next (Suc m)"
    and run: "sync_enter True s = Some (r, t)"
  shows "sync_inv i inc n t (pc(c := Waiting (Suc m)))"
proof -
  note J = sync_invD [OF I] and a = sync_atD [OF sync_invD(1) [OF I]]
  have ca: "c \<notin> active pc" using c(3) by (auto simp: active_def)
  obtain q t' where t: "sem_wait (Some SEM_ID) s = Some (0, t')" "sem_step i q s t'" "queue_of (insert c (active pc)) t' i"
    "sm_value (sem_at t' i) = sm_value (sem_at s i) - 1"
    "granted (insert c (active pc)) t' i = (if 0 < sm_value (sem_at s i) then insert c (granted (active pc) s i) else granted (active pc) s i)"
    "c \<notin> granted (active pc) s i"
    by (rule wait_side [OF a(2,1) c(1,2) ca a(3) J(2,3)])
  have tt: "t' = t" using run t(1) by (simp add: sync_enter_def my_sem_wait_def sys_sem_wait_def)
  have gl: "sync_global t' = sync_global s" by (rule glob.fr_sem_wait [OF t(1)])
  have act: "active (pc(c := Waiting (Suc m))) = insert c (active pc)" by (simp add: active_upd)
  have ins: "inside (pc(c := Waiting (Suc m))) = inside pc" using ca inside_active [of pc] by (auto simp: inside_upd)
  have cnt: "int (card (granted (insert c (active pc)) t' i)) + max 0 (sm_value (sem_at t' i)) = 1"
  proof (cases "0 < sm_value (sem_at s i)")
    case True
    then have "sm_value (sem_at s i) = 1" using J(5) by linarith
    then show ?thesis using J(4,5) t(4,6) unfolding t(5) by simp
  next
    case False
    then show ?thesis using J(5) t(4) unfolding t(5) by simp
  qed
  have sub: "inside pc \<subseteq> granted (insert c (active pc)) t' i" using J(6) unfolding t(5) by auto
  have sum: "added_up inc n (pc(c := Waiting (Suc m))) = added_up inc n pc" by (rule added_up_same) (simp add: c(3))
  have le: "\<forall>k. to_do ((pc(c := Waiting (Suc m))) k) \<le> n k" using J(8) [of c] J(8) c(3) by simp
  have add: "\<forall>k m' aux. (pc(c := Waiting (Suc m))) k = Adding m' aux \<longrightarrow> aux = sync_global t'"
    using J(7) gl by (auto split: if_splits)
  show ?thesis
    using sync_at_step [OF J(1) t(2)] J(2,9) c(2) t(3) step_live [OF t(2)] gl cnt sub sum le add act ins
    unfolding sync_inv_def tt [symmetric] by auto
qed

lemma sync_inv_load:
  assumes I: "sync_inv i inc n s pc" and c: "pc c = Waiting m" "p_pid (pcb_at s c) \<notin> set (items (sm_wait (sem_at s i)))"
  shows "sync_inv i inc n s (pc(c := Adding m (slowInc_read s)))"
proof -
  note J = sync_invD [OF I]
  have ca: "c \<in> active pc" using c(1) by (simp add: active_def)
  then have cg: "c \<in> granted (active pc) s i" using c(2) by (simp add: granted_def)
  have act: "active (pc(c := Adding m (slowInc_read s))) = active pc" using ca by (auto simp: active_upd)
  have sum: "added_up inc n (pc(c := Adding m (slowInc_read s))) = added_up inc n pc" by (rule added_up_same) (simp add: c(1))
  have le: "\<forall>k. to_do ((pc(c := Adding m (slowInc_read s))) k) \<le> n k" using J(8) [of c] J(8) c(1) by simp
  show ?thesis using J cg sum le unfolding sync_inv_def act inside_upd by (auto simp: slowInc_read_def split: if_splits)
qed

lemma sync_inv_store:
  assumes I: "sync_inv i inc n s pc" and fin: "finite {k. n k \<noteq> 0}" and c: "pc c = Adding (Suc m) aux"
  shows "sync_inv i inc n (slowInc_write aux (inc c) s) (pc(c := Added m))"
proof -
  note J = sync_invD [OF I]
  have ci: "c \<in> inside pc" "c \<in> active pc" using c by (auto simp: inside_def active_def)
  have one: "inside pc \<subseteq> {c}" by (rule alone(3) [OF I]) (use J(6) ci in auto)
  have act: "active (pc(c := Added m)) = active pc" using ci(2) by (auto simp: active_upd)
  have ins: "inside (pc(c := Added m)) = inside pc" using ci(1) by (auto simp: inside_upd)
  have cn: "Suc m \<le> n c" using J(8) [of c] c by simp
  have "added_up inc n (pc(c := Added m)) = added_up inc n pc + inc c"
    by (rule added_up_add [OF fin _ cn]) (use c in simp_all)
  moreover have "aux = added_up inc n pc" using J(7) [OF c] J(9) by simp
  moreover have "\<forall>k. to_do ((pc(c := Added m)) k) \<le> n k" using J(8) cn by auto
  moreover have "(pc(c := Added m)) k \<noteq> Adding m' a" for k m' a
    using one by (cases "k = c") (auto simp: inside_def)
  moreover have "granted A (slowInc_write aux (inc c) s) i = granted A s i" "queue_of A (slowInc_write aux (inc c) s) i = queue_of A s i" for A
    by (simp_all add: granted_def queue_of_def)
  ultimately show ?thesis using J(1-3,5,6) unfolding sync_inv_def act ins by simp
qed

lemma sync_inv_leave:
  assumes I: "sync_inv i inc n s pc" and c: "current_process s = Some c" "pc c = Added m" and run: "sync_leave True s = Some (r, t)"
  shows "sync_inv i inc n t (pc(c := Next m))"
proof -
  note J = sync_invD [OF I] and a = sync_atD [OF sync_invD(1) [OF I]]
  have ci: "c \<in> inside pc" "c \<in> active pc" using c(2) by (auto simp: inside_def active_def)
  then have cg: "c \<in> granted (active pc) s i" using J(6) by auto
  note al = alone [OF I cg]
  obtain q t' where t: "sem_post (Some SEM_ID) s = Some (0, t')" "sem_step i q s t'" "queue_of (active pc) t' i"
    "sm_value (sem_at t' i) = sm_value (sem_at s i) + 1"
    "if sm_value (sem_at s i) < 0 then \<exists>k\<in>active pc. k \<notin> granted (active pc) s i \<and> granted (active pc) t' i = insert k (granted (active pc) s i)
     else granted (active pc) t' i = granted (active pc) s i"
    by (rule post_side [OF a(2,1) c(1) a(3) J(2,3)])
  have tt: "t' = t" using run t(1) by (simp add: sync_leave_def my_sem_post_def sys_sem_post_def)
  have gl: "sync_global t' = sync_global s" by (rule glob.fr_sem_post [OF t(1)])
  have cq: "c \<in> granted (active pc) t' i" using t(5) cg by (auto split: if_splits)
  have drop: "queue_of (active pc - {c}) t' i" "granted (active pc - {c}) t' i = granted (active pc) t' i - {c}"
    using t(3) cq ci(2) by (auto simp: queue_of_def granted_def)
  have cnt: "int (card (granted (active pc - {c}) t' i)) + max 0 (sm_value (sem_at t' i)) = 1"
    using t(4,5) al(1,2) unfolding drop(2) by (auto split: if_splits)
  have ins: "inside (pc(c := Next m)) = {}" using al(3) by (auto simp: inside_upd)
  have sum: "added_up inc n (pc(c := Next m)) = added_up inc n pc" by (rule added_up_same) (simp add: c(2))
  have le: "\<forall>k. to_do ((pc(c := Next m)) k) \<le> n k" using J(8) [of c] J(8) c(2) by simp
  have add: "\<forall>k m' aux. (pc(c := Next m)) k = Adding m' aux \<longrightarrow> aux = sync_global t'" using J(7) gl by (auto split: if_splits)
  show ?thesis
    using sync_at_step [OF J(1) t(2)] J(2,9) step_live [OF t(2)] gl cnt sum le add drop(1)
    unfolding sync_inv_def tt [symmetric] active_upd(1) ins by auto
qed

lemma sync_run_inv: "sync_run True i inc n s pc \<Longrightarrow> finite {k. n k \<noteq> 0} \<Longrightarrow> sync_inv i inc n s pc"
proof (induction rule: sync_run.induct)
  case (start s)
  show ?case by (rule sync_inv_start [OF start.hyps])
next
  case (env s pc t)
  show ?case by (rule sync_inv_env [OF env.IH [OF env.prems] env.hyps(2)])
next
  case (enter s pc c m r t)
  show ?case by (rule sync_inv_enter [OF enter.IH [OF enter.prems] enter.hyps(2-5)])
next
  case (load s pc c m)
  show ?case by (rule sync_inv_load [OF load.IH [OF load.prems] load.hyps(3,4)])
next
  case (store s pc c m aux)
  show ?case by (rule sync_inv_store [OF store.IH [OF store.prems] store.prems store.hyps(3)])
next
  case (leave s pc c m r t)
  show ?case by (rule sync_inv_leave [OF leave.IH [OF leave.prems] leave.hyps(2-4)])
qed

text \<open>C36: \<open>test_sync\<close> with the semaphore: however its processes interleave, yield and block, the shared variable is the sum of the
  additions made so far, at most one process is between reading and leaving, and when as many decrementing as incrementing
  processes have made all of their \<open>N\<close> iterations the final value is 0.\<close>

theorem test_sync_zero:
  assumes "sync_run True i inc n s pc" "{k. n k \<noteq> 0} = D \<union> U" "finite D" "finite U" "D \<inter> U = {}" "card D = card U"
    "\<forall>k\<in>D. inc k = -1 \<and> n k = N" "\<forall>k\<in>U. inc k = 1 \<and> n k = N"
  shows "sync_global s = (\<Sum>k\<in>D \<union> U. of_nat (n k - to_do (pc k)) * inc k) \<and> card (inside pc) \<le> 1 \<and>
    ((\<forall>k\<in>D \<union> U. to_do (pc k) = 0) \<longrightarrow> sync_global s = 0)"
proof -
  have inv: "sync_inv i inc n s pc" by (rule sync_run_inv [OF assms(1)]) (simp only: assms(2-4) finite_Un)
  note J = sync_invD [OF inv]
  have glob: "sync_global s = (\<Sum>k\<in>D \<union> U. of_nat (n k - to_do (pc k)) * inc k)"
    using J(9) by (simp only: added_up_def assms(2))
  have "card (inside pc) \<le> card (granted (active pc) s i)" by (rule card_mono [OF J(4,6)])
  then have one: "card (inside pc) \<le> 1" using J(5) by linarith
  have "sync_global s = 0" if fin: "\<forall>k\<in>D \<union> U. to_do (pc k) = 0"
  proof -
    have "(\<Sum>k\<in>D. of_nat (n k - to_do (pc k)) * inc k) = (\<Sum>k\<in>D. - of_nat N)"
      by (rule sum.cong) (use fin assms(7) in auto)
    moreover have "(\<Sum>k\<in>U. of_nat (n k - to_do (pc k)) * inc k) = (\<Sum>k\<in>U. of_nat N)"
      by (rule sum.cong) (use fin assms(8) in auto)
    ultimately show ?thesis using assms(6) by (simp add: glob sum.union_disjoint [OF assms(3-5)])
  qed
  with glob one show ?thesis by blast
qed

text \<open>A kernel in which the semaphore of the test has been opened by two processes.\<close>

definition demo_t :: tsys where
  "demo_t = msys.extend (ksys.extend
     (demo_k\<lparr>sem_table := \<lparr>sm_name = ''sem'', sm_value = 1, sm_wait = empty_pidq, sm_open = 2, sm_lock = UNLOCKED\<rparr> # drop 1 (sem_table demo_sem)\<rparr>)
     \<lparr>umvar_table = [], umvar_reclaim = 0\<rparr>) \<lparr>sync_global = 0\<rparr>"

lemma demo_t_fields:
  "process_table demo_t = demo_table" "current_process demo_t = Some 1" "next_pid demo_t = 3" "length (sem_table demo_t) = 32" "sync_global demo_t = 0"
  by (simp_all add: demo_t_def ksys.defs msys.defs demo_sem_fields demo_k_def)

lemma demo_t_sem:
  "sem_at demo_t 0 = \<lparr>sm_name = ''sem'', sm_value = 1, sm_wait = empty_pidq, sm_open = 2, sm_lock = UNLOCKED\<rparr>"
  "0 < i \<Longrightarrow> i < 32 \<Longrightarrow> sem_at demo_t i = sem_at demo_sem i"
proof -
  show "sem_at demo_t i = sem_at demo_sem i" if "0 < i" "i < 32"
  proof -
    from that(1) obtain j where "i = Suc j" by (cases i) auto
    then show ?thesis using that by (simp add: demo_t_def ksys.defs msys.defs sem_at_def demo_sem_fields)
  qed
qed (simp add: demo_t_def ksys.defs msys.defs sem_at_def)

lemma demo_t_at: "sync_at 0 demo_t"
proof -
  have t: "table_inv demo_t" by (rule demo_table_inv) (simp_all add: demo_t_fields)
  have z: "q_count empty_pidq = 0" by (simp add: empty_pidq_def)
  have "slot_ok (live_pids demo_t) (sem_at demo_t i)" if "i < 32" for i
    using that by (cases "i = 0") (simp_all add: demo_t_sem demo_sem_at slot_ok_def z)
  then have s: "sem_inv demo_t" by (simp add: sem_inv_def demo_t_fields)
  have "find_sem demo_t (Some SEM_ID) = Some 0"
    unfolding find_sem_def by (rule first_idx_SomeI) (use demo_t_sem(1) in \<open>simp_all add: sem_at_def demo_t_fields cstr_def\<close>)
  with t s show ?thesis by (simp add: sync_at_def)
qed

lemma test_sync_zero_witness:
  "\<exists>(s :: tsys) pc. sync_run True 0 (\<lambda>k. if k = 1 then -1 else 1) (\<lambda>k. if k \<in> {1, 2} then 1 else 0) s pc \<and> sync_global s = -1"
proof -
  let ?inc = "\<lambda>k :: nat. if k = 1 then -1 else 1 :: u64" and ?n = "\<lambda>k :: nat. if k \<in> {1, 2} then 1 else 0 :: nat"
  let ?pc = "\<lambda>k. Next (?n k)"
  have l: "live demo_t 1" using demo_sem_live by (simp add: live_def pcb_at_def demo_t_fields demo_sem_fields)
  have r0: "sync_run True 0 ?inc ?n demo_t ?pc" by (rule sync_run.start [OF demo_t_at]) (simp_all add: demo_t_sem demo_t_fields)
  have inv0: "sync_inv 0 ?inc ?n demo_t ?pc" by (rule sync_inv_start [OF demo_t_at]) (simp_all add: demo_t_sem demo_t_fields)
  note J = sync_invD [OF inv0] and a = sync_atD [OF demo_t_at]
  obtain q t where t: "sem_wait (Some SEM_ID) demo_t = Some (0, t)" "sem_step 0 q demo_t t"
    "granted (insert 1 (active ?pc)) t 0 = (if 0 < sm_value (sem_at demo_t 0) then insert 1 (granted (active ?pc) demo_t 0) else granted (active ?pc) demo_t 0)"
    by (rule wait_side [OF a(2,1) demo_t_fields(2) l _ a(3) J(2,3)]) (auto simp: active_def)
  have e: "sync_enter True demo_t = Some (0, t)" using t(1) by (simp add: sync_enter_def my_sem_wait_def sys_sem_wait_def)
  have p1: "?pc 1 = Next (Suc 0)" by simp
  note r1 = sync_run.enter [OF r0 demo_t_fields(2) l p1 e]
  have c: "current_process t = Some 1" using t(2) benign_current [of demo_t t] demo_t_fields(2) by (simp add: sem_step_def)
  have nq: "p_pid (pcb_at t 1) \<notin> set (items (sm_wait (sem_at t 0)))"
    using t(3) demo_t_sem(1) by (auto simp: granted_def split: if_splits)
  note r2 = sync_run.load [OF r1 c fun_upd_same nq]
  note r3 = sync_run.store [OF r2 c fun_upd_same]
  have "{k. ?n k \<noteq> 0} = {1} \<union> {2}" by auto
  from test_sync_zero [OF r3 this, of 1]
  have "sync_global (slowInc_write (slowInc_read t) (?inc 1) t) = -1" by auto
  with r3 show ?thesis by blast
qed

end
