(* ===== verification/Test_Procs.thy ===== *)
theory Test_Procs
  imports Utils
begin

text \<open>
  The tests of processes, \<open>Userland/c/tests/test_processes.c\<close> and the checks of \<open>test_prio.c\<close>. \<open>rnd i\<close> is the i-th
  number from the generator. The wrappers of \<open>syscall.c\<close> return 0 whatever the system call did. A round of
  \<open>test_processes\<close> is a sequence of passes; each pass is modelled with all of its calls, and \<open>None\<close> is a call
  that never returns.
\<close>

subsection \<open>Wrappers\<close>

definition my_nice :: "u64 \<Rightarrow> u64 \<Rightarrow> 'a ssys_scheme \<Rightarrow> int \<times> 'a ssys_scheme" where
  "my_nice pid newPrio s = (0, sys_nice pid newPrio s)"

definition my_kill :: "u64 \<Rightarrow> 'a ksys_scheme \<Rightarrow> (int \<times> 'a ksys_scheme) option" where
  "my_kill pid s = map_option (Pair 0) (sys_kill pid s)"

definition my_block :: "u64 \<Rightarrow> 'a psys_scheme \<Rightarrow> int \<times> 'a psys_scheme" where
  "my_block pid s = (0, snd (sys_block pid s))"

definition my_unblock :: "u64 \<Rightarrow> 'a psys_scheme \<Rightarrow> int \<times> 'a psys_scheme" where
  "my_unblock pid s = (0, sys_unblock pid s)"

definition my_yield :: "'a psys_scheme \<Rightarrow> int \<times> 'a psys_scheme" where
  "my_yield s = (0, sys_yield s)"

definition my_wait :: "int \<Rightarrow> 'a ssys_scheme \<Rightarrow> (int \<times> 'a ssys_scheme) option" where
  "my_wait pid s = sys_waitpid (of_int pid) s"

definition my_getpid :: "'a psys_scheme \<Rightarrow> int" where
  "my_getpid s = sint (sys_getpid s)"

subsection \<open>Arguments\<close>

text \<open>The message of a refusal, or the number.\<close>

definition positive_arg :: "string \<Rightarrow> string \<Rightarrow> string \<Rightarrow> string list \<Rightarrow> string + u64" where
  "positive_arg usage invalid zero argv =
     (if length argv \<noteq> 1 then Inl usage
      else if \<not> is_valid_uint (Some (argv ! 0)) then Inl invalid
      else
        let n = satoi (Some (argv ! 0))
        in if n = 0 then Inl zero else Inr n)"

definition test_processes_args :: "string list \<Rightarrow> string + u64" where
  "test_processes_args argv =
     (case positive_arg (''uso: test_processes <max_processes>'' @ [CHR 0x0A])
         (''test_processes: max_processes debe ser un numero positivo'' @ [CHR 0x0A])
         (''test_processes: max_processes debe ser mayor a 0'' @ [CHR 0x0A]) argv of
        Inl m \<Rightarrow> Inl m
      | Inr n \<Rightarrow> if n > of_nat MAX_PROCESSES then Inl (''test_processes: max_processes excede el maximo (64)'' @ [CHR 0x0A]) else Inr n)"

definition test_prio_args :: "string list \<Rightarrow> string + u64" where
  "test_prio_args argv =
     positive_arg (''uso: test_prio <max_value>'' @ [CHR 0x0A])
       (''test_prio: max_value debe ser un numero positivo'' @ [CHR 0x0A])
       (''test_prio: max_value debe ser mayor a 0'' @ [CHR 0x0A]) argv"

definition get_current_priority :: "'a psys_scheme \<Rightarrow> u8" where
  "get_current_priority s =
     (case List.find (\<lambda>p. pi_pid p = sys_getpid s) (sys_ps MAX_PROCESSES s) of None \<Rightarrow> 0 | Some p \<Rightarrow> pi_priority p)"

subsection \<open>A round of \<open>test_processes\<close>\<close>

datatype State = RUNNING | BLOCKED | KILLED

record p_rq =
  prq_pid :: int
  prq_state :: State

text \<open>The creation of the processes: \<open>Inl ()\<close> after "ERROR creando proceso".\<close>

fun create_all :: "(nat \<Rightarrow> u64) \<Rightarrow> nat \<Rightarrow> p_rq list \<Rightarrow> u8 \<Rightarrow> 'a ksys_scheme \<Rightarrow> ((unit + p_rq list \<times> u8) \<times> 'a ksys_scheme) option" where
  "create_all fn 0 rqs alive s = Some (Inr (rqs, alive), s)"
| "create_all fn (Suc n) rqs alive s =
     (case my_create_process fn ''endless_loop'' [] s of
        None \<Rightarrow> None
      | Some (pid, s') \<Rightarrow>
          let p = sint (of_int pid :: 32 word)
          in if p = -1 then Some (Inl (), s')
             else create_all fn n (rqs @ [\<lparr>prq_pid = p, prq_state = RUNNING\<rparr>]) (alive + 1) s')"

text \<open>The pass that kills or blocks; the generator is asked once for each process.\<close>

fun act_pass :: "(nat \<Rightarrow> u32) \<Rightarrow> nat \<Rightarrow> p_rq list \<Rightarrow> u8 \<Rightarrow> 'a ksys_scheme \<Rightarrow> (p_rq list \<times> u8 \<times> nat \<times> 'a ksys_scheme) option" where
  "act_pass rnd i [] alive s = Some ([], alive, i, s)"
| "act_pass rnd i (r # rqs) alive s =
     (let action = rnd i mod 2
      in if action = 0 \<and> (prq_state r = RUNNING \<or> prq_state r = BLOCKED)
         then do {
           (rc, s1) \<leftarrow> my_kill (of_int (prq_pid r)) s;
           (rw, s2) \<leftarrow> my_wait (prq_pid r) s1;
           (rqs', alive', i', s3) \<leftarrow> act_pass rnd (Suc i) rqs (alive - 1) s2;
           Some (r\<lparr>prq_state := KILLED\<rparr> # rqs', alive', i', s3)
         }
         else
           let (r', s1) = (if action = 1 \<and> prq_state r = RUNNING
                           then (r\<lparr>prq_state := BLOCKED\<rparr>, snd (my_block (of_int (prq_pid r)) s)) else (r, s))
           in do {
             (rqs', alive', i', s2) \<leftarrow> act_pass rnd (Suc i) rqs alive s1;
             Some (r' # rqs', alive', i', s2)
           })"

text \<open>The pass that unblocks; the generator is asked for the blocked processes only.\<close>

fun unblock_pass :: "(nat \<Rightarrow> u32) \<Rightarrow> nat \<Rightarrow> p_rq list \<Rightarrow> 'a ksys_scheme \<Rightarrow> p_rq list \<times> nat \<times> 'a ksys_scheme" where
  "unblock_pass rnd i [] s = ([], i, s)"
| "unblock_pass rnd i (r # rqs) s =
     (if prq_state r \<noteq> BLOCKED then case unblock_pass rnd i rqs s of (rqs', i', s') \<Rightarrow> (r # rqs', i', s')
      else if rnd i mod 2 \<noteq> 0
      then case unblock_pass rnd (Suc i) rqs (snd (my_unblock (of_int (prq_pid r)) s)) of
             (rqs', i', s') \<Rightarrow> (r\<lparr>prq_state := RUNNING\<rparr> # rqs', i', s')
      else case unblock_pass rnd (Suc i) rqs s of (rqs', i', s') \<Rightarrow> (r # rqs', i', s'))"

text \<open>The counter is the number of processes that have not been killed.\<close>

definition still_alive :: "p_rq list \<Rightarrow> nat" where
  "still_alive rqs = length (filter (\<lambda>r. prq_state r \<noteq> KILLED) rqs)"

lemma still_alive_simps [simp]:
  "still_alive [] = 0" "still_alive (r # rqs) = (if prq_state r \<noteq> KILLED then 1 else 0) + still_alive rqs"
  by (simp_all add: still_alive_def)

lemma act_pass_alive:
  "act_pass rnd i rqs alive s = Some (rqs', alive', i', t) \<Longrightarrow> alive = of_nat (still_alive rqs) + d \<Longrightarrow>
   alive' = of_nat (still_alive rqs') + d \<and> map prq_pid rqs' = map prq_pid rqs"
proof (induction rnd i rqs alive s arbitrary: rqs' d rule: act_pass.induct)
  case (1 rnd i alive s)
  then show ?case by simp
next
  case (2 rnd i r rqs alive s)
  show ?case
  proof (cases "rnd i mod 2 = 0 \<and> (prq_state r = RUNNING \<or> prq_state r = BLOCKED)")
    case True
    then obtain rc s1 rw s2 rs where step: "my_kill (of_int (prq_pid r)) s = Some (rc, s1)" "my_wait (prq_pid r) s1 = Some (rw, s2)"
      "act_pass rnd (Suc i) rqs (alive - 1) s2 = Some (rs, alive', i', t)" "rqs' = r\<lparr>prq_state := KILLED\<rparr> # rs"
      using 2(3) by (auto simp: Let_def Option.bind_eq_Some_conv split: prod.splits)
    have "alive - 1 = of_nat (still_alive rqs) + d" using True 2(4) by auto
    from 2(1) [OF refl True step(1) refl step(2) refl step(3) this] show ?thesis using step(4) by simp
  next
    case False
    define q where "q = (if rnd i mod 2 = 1 \<and> prq_state r = RUNNING
      then (r\<lparr>prq_state := BLOCKED\<rparr>, snd (my_block (of_int (prq_pid r)) s)) else (r, s))"
    obtain rs where step: "act_pass rnd (Suc i) rqs alive (snd q) = Some (rs, alive', i', t)" "rqs' = fst q # rs"
      using 2(3) False by (auto simp: Let_def q_def Option.bind_eq_Some_conv split: prod.splits if_splits)
    have q: "prq_pid (fst q) = prq_pid r" "prq_state (fst q) \<noteq> KILLED \<longleftrightarrow> prq_state r \<noteq> KILLED" by (auto simp: q_def)
    have "alive = of_nat (still_alive rqs) + ((if prq_state r \<noteq> KILLED then 1 else 0) + d)" using 2(4) by simp
    from 2(2) [OF refl False q_def prod.collapse step(1) this] show ?thesis using step(2) q by (auto simp: ac_simps)
  qed
qed

end
