(* ===== verification/Builtins.thy ===== *)
theory Builtins
  imports Utils Line_Reader
begin

text \<open>
  The rest of the shell and of the library of the tests: the built-in commands \<open>registers\<close>, \<open>ps\<close> and \<open>playBeep\<close>, the text of
  \<open>help\<close>, the prompt of \<open>shell_run\<close>, \<open>getchar\<close>, and the \<open>printf\<close> of \<open>tests/test_util.c\<close>. A value that C reads before it is
  written, or an argument \<open>printf\<close> lacks, is \<open>None\<close>.
\<close>

subsection \<open>Built-in commands\<close>

definition registers :: "'a fdsys_scheme \<Rightarrow> 'a fdsys_scheme" where
  "registers s =
     (case sys_registers s of
        Some b \<Rightarrow> shellPrintString (map (\<lambda>c. char_of (unat c)) b) s
      | None \<Rightarrow> shellPrintString (''Presione CTRL para guardar los registros.'' @ [NL]) s)"

definition state_names :: "string list" where
  "state_names = [''FREE'', ''READY'', ''RUNNING'', ''BLOCKED'', ''ZOMBIE'']"

fun state_index :: "pstate \<Rightarrow> nat" where
  "state_index PROCESS_FREE = 0"
| "state_index PROCESS_READY = 1"
| "state_index PROCESS_RUNNING = 2"
| "state_index PROCESS_BLOCKED = 3"
| "state_index PROCESS_ZOMBIE = 4"

definition ps_line :: "ProcessInfo \<Rightarrow> string list" where
  "ps_line p =
     [num_to_str (pi_pid p) 10, ''    '', num_to_str (ucast (pi_priority p)) 10, ''    '',
      if pi_foreground p \<noteq> 0 then ''Y '' else ''N '', ''  '',
      if state_index (pi_state p) \<le> 4 then state_names ! state_index (pi_state p) else ''?'', ''  '', pi_name p, [NL]]"

definition ps :: "'a fdsys_scheme \<Rightarrow> 'a fdsys_scheme" where
  "ps s =
     fold shellPrintString
       ([''PID  PRI  FG  STATE    NAME'' @ [NL], ''---  ---  --  -------  --------'' @ [NL]] @ concat (map ps_line (sys_ps MAX_PROCESSES s))) s"

text \<open>The calls of \<open>sys_beep\<close>: frequency and duration.\<close>

definition playBeep :: "(u32 \<times> u64) list" where
  "playBeep =
    [(659, 50), (622, 50), (659, 50), (622, 50), (659, 50), (494, 50), (587, 50), (523, 50),
     (440, 100), (262, 50), (330, 50), (440, 50), (494, 100), (330, 50), (415, 50), (494, 50),
     (523, 100), (330, 50), (659, 50), (622, 50), (659, 50), (622, 50), (659, 50), (494, 50),
     (587, 50), (523, 50), (440, 100), (262, 50), (330, 50), (440, 50), (494, 100), (330, 50),
     (523, 50), (494, 50), (440, 100)]"

definition help_lines :: "string list" where
  "help_lines =
    [''Comandos disponibles: '',
     ''help                      ->   muestra la lista de comandos.'',
     ''clear                     ->   limpia la pantalla. (built-in) '',
     ''+                         ->   aumenta tamano de fuente (atajo de teclado).'',
     ''-                         ->   disminuye tamano de fuente (atajo de teclado).'',
     ''printTime                 ->   imprime la hora actual. (built-in) '',
     ''printDate                 ->   imprime la fecha actual. (built-in) '',
     ''registers                 ->   imprime registros. (built-in) '',
     ''testDiv0                  ->   division por cero. (built-in) '',
     ''invOp                     ->   instruccion invalida. (built-in) '',
     ''playBeep                  ->   reproduce un beep. (built-in) '',
     ''test_mm <max> [&]         ->   test de memory manager. (foreground/background)'',
     ''test_processes <max> [&]  ->   test de procesos. (foreground/background)'',
     ''test_prio <target> [&]    ->   test de prioridades. (foreground/background)'',
     ''test_sync <n> <sem> [&]   ->   test de sincronizacion. (foreground/background)'',
     ''mem                       ->   muestra estado de la memoria.'',
     ''kill <pid>                ->   termina el proceso indicado.'',
     ''nice <pid> <prio>         ->   cambia prioridad (1-5).'',
     ''block <pid>               ->   alterna estado BLOCKED/READY.'',
     ''loop                      ->   imprime PID periodicamente.'',
     ''sh                        ->   nueva shell.'',
     ''cat                       ->   copia stdin a stdout.'',
     ''wc                        ->   cuenta lineas, palabras y bytes de stdin. CTRL + D para finalizar.'',
     ''mvar <esc> <lec>          ->   MVar: escritores/lectores sincronizados.'',
     ''filter                    ->   filtra vocales del stdin.'',
     ''ps                        ->   lista de procesos activos.'']"

definition help_cmd :: "'a fdsys_scheme \<Rightarrow> int \<times> 'a fdsys_scheme" where
  "help_cmd s = (0, fold (\<lambda>l. shellPrintString (l @ [NL])) help_lines s)"

text \<open>The font keys, outside of the line reader, and \<open>putchar\<close>.\<close>

definition shellIncreaseFontSize :: "ui \<Rightarrow> ui" where
  "shellIncreaseFontSize u = redrawFont (ui_do FontUp u)"

definition shellDecreaseFontSize :: "ui \<Rightarrow> ui" where
  "shellDecreaseFontSize u = redrawFont (ui_do FontDown u)"

definition putchar :: "char \<Rightarrow> ui \<Rightarrow> ui" where
  "putchar c u = ui_do (Written STDOUT [c]) (redraw_append_char c STDOUT u)"

text \<open>The commands that raise an exception on purpose: the state of the screen before, and the number of the exception.\<close>

definition divideByZero :: "ui \<Rightarrow> ui \<times> nat" where
  "divideByZero u = (clear u, 0)"

definition invOp :: "ui \<Rightarrow> ui \<times> nat" where
  "invOp u = (u, 6)"

text \<open>The two wrappers of \<open>syscall.c\<close> for pipes.\<close>

definition my_pipe_open :: "string option \<Rightarrow> bool \<Rightarrow> 'a fdsys_scheme \<Rightarrow> int \<times> (int \<times> int) option \<times> 'a fdsys_scheme" where
  "my_pipe_open name fds s = sys_pipe_open name fds s"

definition my_pipe_setup :: "u64 \<Rightarrow> u64 \<Rightarrow> u64 \<Rightarrow> 'a fdsys_scheme \<Rightarrow> (int \<times> 'a fdsys_scheme) option" where
  "my_pipe_setup pid stdio_fd target s = sys_pipe_setup pid stdio_fd target s"

subsection \<open>The loop of the shell\<close>

text \<open>One pass of \<open>shell_run\<close> up to \<open>processLine\<close>, with what the reader gets: the prompt, the line, the end of the line.\<close>

definition ui_print :: "string \<Rightarrow> ui \<Rightarrow> ui" where
  "ui_print str u = fold (\<lambda>c. ui_putchar c STDOUT) (cstr str) u"

definition shell_banner :: "ui \<Rightarrow> ui" where
  "shell_banner u =
     ui_print (''Escriba 'help' para listar comandos.'' @ [NL]) (ui_putchar NL STDOUT (ui_print (''Bienvenido al MASS OS!'' @ [NL]) u))"

definition shell_prompt :: "u64 \<Rightarrow> (char option \<times> u64) list \<Rightarrow> ui \<Rightarrow> (string \<times> ui) option" where
  "shell_prompt t0 evs u =
     (case shellReadLine 100 t0 evs (showCursor (ui_print ''> '' u)) of
        None \<Rightarrow> None
      | Some (line, u') \<Rightarrow> Some (line, ui_putchar NL STDOUT (hideCursor u')))"

subsection \<open>Characters and numbers\<close>

text \<open>\<open>getchar\<close> on the results of its reads: at the end of the input it returns a variable that was never written.\<close>

fun getchar :: "read_result list \<Rightarrow> (char option \<times> read_result list) option" where
  "getchar [] = None"
| "getchar (None # rs) = getchar rs"
| "getchar (Some b # rs) = Some (if length b = 0 then None else Some (b ! 0), rs)"

definition print_uint :: "nat \<Rightarrow> string" where
  "print_uint v = (if v = 0 then ''0'' else rev (num_digits 10 v))"

definition print_int :: "int \<Rightarrow> string" where
  "print_int v = (if v < 0 then ''-'' @ print_uint (nat (- v)) else print_uint (nat v))"

definition print_str :: "string option \<Rightarrow> string" where
  "print_str s = (case s of None \<Rightarrow> ''(null)'' | Some str \<Rightarrow> cstr str)"

datatype printf_arg = AInt int | AUint u32 | AStr "string option" | AChar char

text \<open>The characters that \<open>printf\<close> writes; their number is its result.\<close>

fun printf_loop :: "string \<Rightarrow> printf_arg list \<Rightarrow> string option" where
  "printf_loop [] args = Some []"
| "printf_loop (c # fmt) args =
     (if c \<noteq> CHR ''%'' then map_option ((#) c) (printf_loop fmt args)
      else case fmt of
             [] \<Rightarrow> None
           | d # fmt' \<Rightarrow>
               if d = CHR ''d'' then (case args of AInt v # rest \<Rightarrow> map_option ((@) (print_int v)) (printf_loop fmt' rest) | _ \<Rightarrow> None)
               else if d = CHR ''u'' then (case args of AUint v # rest \<Rightarrow> map_option ((@) (print_uint (unat v))) (printf_loop fmt' rest) | _ \<Rightarrow> None)
               else if d = CHR ''s'' then (case args of AStr v # rest \<Rightarrow> map_option ((@) (print_str v)) (printf_loop fmt' rest) | _ \<Rightarrow> None)
               else if d = CHR ''c'' then (case args of AChar v # rest \<Rightarrow> map_option ((#) v) (printf_loop fmt' rest) | _ \<Rightarrow> None)
               else if d = CHR ''%'' then map_option ((#) CHR ''%'') (printf_loop fmt' args)
               else map_option (\<lambda>r. CHR ''%'' # d # r) (printf_loop fmt' args))"

definition printf :: "string \<Rightarrow> printf_arg list \<Rightarrow> (string \<times> int) option" where
  "printf fmt args = map_option (\<lambda>out. (out, int (length out))) (printf_loop (cstr fmt) args)"

lemma print_uint_num_to_str: "print_uint (unat v) = num_to_str v 10"
  by (simp add: print_uint_def num_to_str_def unat_eq_0 Let_def)

lemma printf_plain: "CHR ''%'' \<notin> set (cstr fmt) \<Longrightarrow> printf fmt args = Some (cstr fmt, int (length (cstr fmt)))"
proof -
  have "CHR ''%'' \<notin> set xs \<Longrightarrow> printf_loop xs args = Some xs" for xs
    by (induction xs) auto
  then show "CHR ''%'' \<notin> set (cstr fmt) \<Longrightarrow> printf fmt args = Some (cstr fmt, int (length (cstr fmt)))" by (simp add: printf_def)
qed

lemma printf_demo: "printf ''PROCESS %d DONE! PRIO: %d'' [AInt 17, AInt (- 3)] = Some (''PROCESS 17 DONE! PRIO: -3'', 25)"
  by code_simp

end
