(* ===== verification/Devices.thy ===== *)
theory Devices
  imports Video Line_Reader Keyboard
begin

text \<open>
  The clock and the speaker, \<open>Kernel/c/lib/time.c\<close> and \<open>Kernel/c/sound/sound.c\<close>, the text mode console
  \<open>Kernel/c/lib/naiveConsole.c\<close>, and the system calls that forward to the screen and to them. A write to a port is an
  action in a list, a value read from a port or from the clock chip an argument.
\<close>

subsection \<open>The clock\<close>

text \<open>The clock chip: what the assembly routines read from it, in BCD.\<close>

record rtc =
  getSeconds :: u8
  getMinutes :: u8
  getHour :: u8
  getDayOfMonth :: u8
  getMonth :: u8
  getYear :: u8

definition date :: "rtc \<Rightarrow> u8 list" where
  "date r = [getDayOfMonth r, getMonth r, getYear r]"

definition time :: "rtc \<Rightarrow> u8 list" where
  "time r = [getHour r, getMinutes r, getSeconds r]"

text \<open>\<open>sleep\<close>: the values of \<open>ticks\<close> in the tests of the loop, in order; the ones after it has ended, \<open>None\<close> while it waits.\<close>

fun sleep_loop :: "u64 \<Rightarrow> u64 \<Rightarrow> u64 list \<Rightarrow> u64 list option" where
  "sleep_loop start target [] = None"
| "sleep_loop start target (t # ts) = (if t - start < target then sleep_loop start target ts else Some ts)"

definition sleep :: "u64 \<Rightarrow> u64 \<Rightarrow> u64 list \<Rightarrow> u64 list option" where
  "sleep ms start ts = sleep_loop start (ms div 10) ts"

subsection \<open>The speaker\<close>

datatype port_io = Outb u16 u8

abbreviation (input) PIT_BASE_HZ :: u32 where "PIT_BASE_HZ \<equiv> 1193180"
abbreviation (input) PC_SPEAKER_PORT :: u16 where "PC_SPEAKER_PORT \<equiv> 0x61"
abbreviation (input) PIT_CHANNEL2_DATA_PORT :: u16 where "PIT_CHANNEL2_DATA_PORT \<equiv> 0x42"
abbreviation (input) PIT_CONTROL_PORT :: u16 where "PIT_CONTROL_PORT \<equiv> 0x43"

definition turnOff :: "u8 \<Rightarrow> port_io list" where
  "turnOff inb = [Outb PC_SPEAKER_PORT (inb AND 0xFC)]"

definition startSpeaker :: "u32 \<Rightarrow> u8 \<Rightarrow> port_io list" where
  "startSpeaker freq inb =
     (if freq = 0 then turnOff inb
      else
        let dv = PIT_BASE_HZ div freq
        in [Outb PIT_CONTROL_PORT 0xB6, Outb PIT_CHANNEL2_DATA_PORT (ucast (dv AND 0xFF)), Outb PIT_CHANNEL2_DATA_PORT (ucast (drop_bit 8 dv))] @
           (if inb AND 3 \<noteq> 3 then [Outb PC_SPEAKER_PORT (inb OR 3)] else []))"

text \<open>\<open>beep\<close> with the two values read from the speaker port and the ticks during the sleep.\<close>

definition beep :: "u32 \<Rightarrow> u64 \<Rightarrow> u8 \<Rightarrow> u8 \<Rightarrow> u64 \<Rightarrow> u64 list \<Rightarrow> port_io list \<times> u64 list option" where
  "beep freq tm inb1 inb2 start ts =
     (case sleep tm start ts of
        None \<Rightarrow> (startSpeaker freq inb1, None)
      | Some ts' \<Rightarrow> (startSpeaker freq inb1 @ turnOff inb2, Some ts'))"

subsection \<open>System calls on the screen and the devices\<close>

definition sys_increase_fontsize :: "video \<Rightarrow> video" where
  "sys_increase_fontsize v = increaseFontSize v"

definition sys_decrease_fontsize :: "video \<Rightarrow> video" where
  "sys_decrease_fontsize v = decreaseFontSize v"

definition sys_clear :: "video \<Rightarrow> video" where
  "sys_clear v = clearScreen 0 v"

definition sys_screen_width :: "video \<Rightarrow> u64" where
  "sys_screen_width v = ucast (getScreenWidth v)"

definition sys_screen_height :: "video \<Rightarrow> u64" where
  "sys_screen_height v = ucast (getScreenHeight v)"

definition sys_putpixel :: "u32 \<Rightarrow> u64 \<Rightarrow> u64 \<Rightarrow> video \<Rightarrow> video" where
  "sys_putpixel color x y v = putPixel color x y v"

definition sys_fill_rect :: "u64 \<Rightarrow> u64 \<Rightarrow> u64 \<Rightarrow> u64 \<Rightarrow> u32 \<Rightarrow> video \<Rightarrow> video" where
  "sys_fill_rect x y w h color v = fillRect x y w h color v"

definition sys_date :: "rtc \<Rightarrow> u8 list" where
  "sys_date r = date r"

definition sys_time :: "rtc \<Rightarrow> u8 list" where
  "sys_time r = time r"

definition sys_beep :: "u32 \<Rightarrow> u64 \<Rightarrow> u8 \<Rightarrow> u8 \<Rightarrow> u64 \<Rightarrow> u64 list \<Rightarrow> port_io list \<times> u64 list option" where
  "sys_beep freq tks inb1 inb2 start ts = beep freq tks inb1 inb2 start ts"

definition sys_speaker_start :: "u32 \<Rightarrow> u8 \<Rightarrow> port_io list" where
  "sys_speaker_start freq inb = startSpeaker freq inb"

definition sys_speaker_off :: "u8 \<Rightarrow> port_io list" where
  "sys_speaker_off inb = turnOff inb"

subsection \<open>The text mode console\<close>

text \<open>The position is an address; the memory of the console is 80 by 25 cells of two bytes at \<open>0xB8000\<close>.\<close>

record console =
  currentVideo :: addr
  nc_mem :: bytes_mem

abbreviation (input) nc_video :: addr where "nc_video \<equiv> 0xB8000"
abbreviation (input) nc_limit :: addr where "nc_limit \<equiv> 0xB8FA0"

definition nc_wrap :: "console \<Rightarrow> console" where
  "nc_wrap c = (if currentVideo c < nc_video \<or> nc_limit \<le> currentVideo c then c\<lparr>currentVideo := nc_video\<rparr> else c)"

definition nc_plain :: "char \<Rightarrow> console \<Rightarrow> console" where
  "nc_plain ch c = nc_wrap (c\<lparr>nc_mem := (nc_mem c)(currentVideo c := ch), currentVideo := currentVideo c + 2\<rparr>)"

text \<open>\<open>do ncPrintChar(' '); while ((currentVideo - video) % (width * 2) != 0)\<close>, from a position on the screen.\<close>

function ncNewline :: "console \<Rightarrow> console" where
  "ncNewline c =
     (if nc_limit \<le> currentVideo c then nc_plain CHR '' '' c
      else let c1 = nc_plain CHR '' '' c
           in if (currentVideo c1 - nc_video) mod 160 \<noteq> 0 then ncNewline c1 else c1)"
  by pat_completeness auto
termination
  by (relation "measure (\<lambda>c. nc_limit - currentVideo c)") (auto simp: nc_plain_def nc_wrap_def split: if_splits)

declare ncNewline.simps [simp del]

definition ncPrintChar :: "char \<Rightarrow> console \<Rightarrow> console" where
  "ncPrintChar ch c =
     nc_wrap (if ch = BS then c\<lparr>currentVideo := currentVideo c - 2, nc_mem := (nc_mem c)(currentVideo c - 2 := CHR 0x00)\<rparr>
              else if ch = NL then ncNewline c
              else c\<lparr>nc_mem := (nc_mem c)(currentVideo c := ch), currentVideo := currentVideo c + 2\<rparr>)"

definition ncPrint :: "string \<Rightarrow> console \<Rightarrow> console" where
  "ncPrint str c = fold ncPrintChar (cstr str) c"

definition ncPrintBase :: "u64 \<Rightarrow> u32 \<Rightarrow> console \<Rightarrow> console" where
  "ncPrintBase v base c = ncPrint (map (\<lambda>d. char_of (unat d)) (uintToBase v base)) c"

definition ncPrintDec :: "u64 \<Rightarrow> console \<Rightarrow> console" where
  "ncPrintDec v c = ncPrintBase v 10 c"

definition ncPrintHex :: "u64 \<Rightarrow> console \<Rightarrow> console" where
  "ncPrintHex v c = ncPrintBase v 16 c"

definition ncPrintBin :: "u64 \<Rightarrow> console \<Rightarrow> console" where
  "ncPrintBin v c = ncPrintBase v 2 c"

definition ncClear :: "console \<Rightarrow> console" where
  "ncClear c = c\<lparr>nc_mem := fold (\<lambda>i m. m(nc_video + i * 2 := CHR '' '')) [0..<2000] (nc_mem c), currentVideo := nc_video\<rparr>"

subsection \<open>What they keep\<close>

definition nc_ok :: "console \<Rightarrow> bool" where
  "nc_ok c \<longleftrightarrow> nc_video \<le> currentVideo c \<and> currentVideo c < nc_limit \<and> even (currentVideo c)"

text \<open>The bytes from the cell in front of the screen, which a backspace at the first cell clears, to its end.\<close>

definition nc_frame :: "console \<Rightarrow> console \<Rightarrow> bool" where
  "nc_frame c d \<longleftrightarrow> nc_ok d \<and> (\<forall>a. a < nc_video - 2 \<or> nc_limit \<le> a \<or> odd a \<longrightarrow> nc_mem d a = nc_mem c a)"

lemma nc_frame_refl: "nc_ok c \<Longrightarrow> nc_frame c c"
  by (simp add: nc_frame_def)

lemma nc_frame_trans: "nc_frame c d \<Longrightarrow> nc_frame d e \<Longrightarrow> nc_frame c e"
  by (simp add: nc_frame_def)

lemma nc_plain_frame: "nc_ok c \<Longrightarrow> nc_frame c (nc_plain ch c)"
  by (auto simp: nc_ok_def nc_frame_def nc_plain_def nc_wrap_def)

lemma ncNewline_frame: "nc_ok c \<Longrightarrow> nc_frame c (ncNewline c) \<and> (currentVideo (ncNewline c) - nc_video) mod 160 = 0"
proof (induction c rule: ncNewline.induct)
  case (1 c)
  let ?c1 = "nc_plain CHR '' '' c"
  have lim: "\<not> nc_limit \<le> currentVideo c" using 1(2) by (simp add: nc_ok_def)
  have f: "nc_frame c ?c1" by (rule nc_plain_frame [OF 1(2)])
  have s: "ncNewline c = (if (currentVideo ?c1 - nc_video) mod 160 \<noteq> 0 then ncNewline ?c1 else ?c1)"
    using lim by (subst ncNewline.simps) (simp add: Let_def)
  show ?case
  proof (cases "(currentVideo ?c1 - nc_video) mod 160 \<noteq> 0")
    case True
    from 1(1) [OF lim refl True] f have "nc_frame ?c1 (ncNewline ?c1) \<and> (currentVideo (ncNewline ?c1) - nc_video) mod 160 = 0"
      by (simp add: nc_frame_def)
    then show ?thesis using True s nc_frame_trans [OF f] by simp
  next
    case False
    then show ?thesis using s f by simp
  qed
qed

lemma ncPrintChar_frame:
  assumes "nc_ok c"
  shows "nc_frame c (ncPrintChar ch c)"
proof (cases "ch = NL")
  case True
  have "nc_frame c (ncNewline c)" using ncNewline_frame [OF assms] by simp
  then have "nc_wrap (ncNewline c) = ncNewline c" by (simp add: nc_frame_def nc_wrap_def nc_ok_def)
  then show ?thesis using True \<open>nc_frame c (ncNewline c)\<close> by (simp add: ncPrintChar_def)
next
  case False
  then show ?thesis using assms by (auto simp: ncPrintChar_def nc_wrap_def nc_ok_def nc_frame_def)
qed

lemma ncPrint_frame: "nc_ok c \<Longrightarrow> nc_frame c (ncPrint str c)"
proof -
  have "nc_frame c (fold ncPrintChar xs c)" if "nc_ok c" for xs c
    using that
  proof (induction xs arbitrary: c)
    case Nil
    then show ?case by (simp add: nc_frame_refl)
  next
    case (Cons x xs)
    have f: "nc_frame c (ncPrintChar x c)" by (rule ncPrintChar_frame [OF Cons.prems])
    then have "nc_ok (ncPrintChar x c)" by (simp add: nc_frame_def)
    from nc_frame_trans [OF f Cons.IH [OF this]] show ?case by simp
  qed
  then show "nc_ok c \<Longrightarrow> nc_frame c (ncPrint str c)" by (simp add: ncPrint_def)
qed

text \<open>A backspace at the first cell writes in front of the screen.\<close>

lemma nc_backspace_first: "currentVideo c = nc_video \<Longrightarrow> nc_mem (ncPrintChar BS c) (nc_video - 2) = CHR 0x00 \<and> currentVideo (ncPrintChar BS c) = nc_video"
  by (simp add: ncPrintChar_def nc_wrap_def)

text \<open>The two bytes written to the timer are the divisor of the frequency, from 19 Hz on; after a beep the speaker is off.\<close>

lemma speaker_divisor:
  assumes "19 \<le> freq"
  shows "\<exists>lo hi rest. startSpeaker freq inb = [Outb PIT_CONTROL_PORT 0xB6, Outb PIT_CHANNEL2_DATA_PORT lo, Outb PIT_CHANNEL2_DATA_PORT hi] @ rest \<and>
    unat lo + 256 * unat hi = 1193180 div unat freq"
proof -
  let ?d = "PIT_BASE_HZ div freq"
  have f: "19 \<le> unat freq" using assms by (simp add: word_le_nat_alt)
  have d: "unat ?d = 1193180 div unat freq" by (simp add: unat_div)
  have "1193180 div unat freq \<le> 1193180 div 19" using f by (rule div_le_mono2 [rotated]) simp
  then have lt: "unat ?d < 65536" unfolding d by simp
  have lo: "unat (ucast (?d AND 0xFF) :: u8) = unat ?d mod 256"
  proof -
    have "(0xFF :: u32) = mask 8" by (simp add: mask_eq_exp_minus_1)
    then have "?d AND 0xFF = take_bit 8 ?d" by (simp only: take_bit_eq_mask)
    then show ?thesis by (simp add: unsigned_ucast_eq unsigned_take_bit_eq) (simp add: take_bit_eq_mod)
  qed
  have hi: "unat (ucast (drop_bit 8 ?d) :: u8) = unat ?d div 256"
  proof -
    have "unat (drop_bit 8 ?d) = unat ?d div 256" by (simp only: unat_drop_bit_eq) (simp add: drop_bit_eq_div)
    moreover have "unat ?d div 256 < 256" using lt by (simp add: less_mult_imp_div_less)
    ultimately show ?thesis by (simp add: unsigned_ucast_eq take_bit_nat_eq_self)
  qed
  have "freq \<noteq> 0" using f by auto
  then show ?thesis using lo hi d mod_mult_div_eq [of "unat ?d" 256] by (simp add: startSpeaker_def Let_def)
qed

lemma beep_off:
  assumes "beep freq tm inb1 inb2 start ts = (out, Some ts')"
  shows "\<exists>b. last out = Outb PC_SPEAKER_PORT b \<and> b AND 3 = 0"
  using assms by (auto simp: beep_def turnOff_def and.assoc split: option.splits)

end
