(* ===== verification/Interrupts.thy ===== *)
theory Interrupts
  imports Video_Lemmas Keyboard_Lemmas Key_Handler
begin

text \<open>
  The interrupt table, \<open>Kernel/c/interrupts/idtLoader.c\<close>, the dispatch of the keyboard interrupt,
  \<open>irqDispatcher.c\<close>, and the screen a CPU exception shows, \<open>exceptions.c\<close>. The addresses of the assembly
  stubs are arguments; what the table loader does to the processor and the interrupt controller is a list of actions.
  The screen of an exception is drawn on the frame buffer of \<open>Video\<close> from the registers that the stub has saved.
\<close>

subsection \<open>The interrupt table\<close>

record DESCR_INT =
  offset_l :: u16
  selector :: u16
  cero :: u8
  access :: u8
  offset_m :: u16
  offset_h :: u32
  other_cero :: u32

abbreviation (input) ACS_INT :: u8 where "ACS_INT \<equiv> 0x8E"

definition setup_IDT_entry :: "nat \<Rightarrow> u64 \<Rightarrow> DESCR_INT list \<Rightarrow> DESCR_INT list" where
  "setup_IDT_entry index offset idt =
     idt[index := \<lparr>offset_l = ucast (offset AND 0xFFFF), selector = 0x08, cero = 0, access = ACS_INT,
       offset_m = ucast (drop_bit 16 offset AND 0xFFFF), offset_h = ucast (drop_bit 32 offset AND 0xFFFFFFFF), other_cero = 0\<rparr>]"

record handlers =
  irq00Handler :: u64
  irq01Handler :: u64
  exception0Handler :: u64
  exception6Handler :: u64
  irq128Handler :: u64

datatype idt_action = LoadIdt nat | MasterMask u8 | SlaveMask u8 | Sti

definition empty_gate :: DESCR_INT where
  "empty_gate = \<lparr>offset_l = 0, selector = 0, cero = 0, access = 0, offset_m = 0, offset_h = 0, other_cero = 0\<rparr>"

definition load_idt :: "handlers \<Rightarrow> DESCR_INT list \<times> idt_action list" where
  "load_idt hs =
     (let idt = replicate 256 empty_gate;
          idt = setup_IDT_entry 0x20 (irq00Handler hs) idt;
          idt = setup_IDT_entry 0x21 (irq01Handler hs) idt;
          idt = setup_IDT_entry 0x00 (exception0Handler hs) idt;
          idt = setup_IDT_entry 0x06 (exception6Handler hs) idt;
          idt = setup_IDT_entry 0x80 (irq128Handler hs) idt
      in (idt, [LoadIdt (16 * length idt - 1), MasterMask 0xFC, SlaveMask 0xFF, Sti]))"

text \<open>\<open>irqDispatcher(irq)\<close>; the argument after it is the scancode the handler reads.\<close>

definition irqDispatcher :: "u64 \<Rightarrow> u8 \<Rightarrow> 'a ksys_scheme \<Rightarrow> 'a ksys_scheme option" where
  "irqDispatcher irq scancode s = (if irq = 1 then handlePressedKey scancode s else Some s)"

subsection \<open>Exceptions\<close>

definition printHex64 :: "u64 \<Rightarrow> video \<Rightarrow> video" where
  "printHex64 v w =
     (let tmp = uintToBase v 16;
          n = length tmp;
          pad = (if n < 16 then 16 - n else 0)
      in videoPrint (replicate pad CHR ''0'' @ map (\<lambda>c. char_of (unat c)) tmp) 0xFFFFFF w)"

definition exception_regs :: "string list" where
  "exception_regs =
     [''RAX: 0x'', ''RBX: 0x'', ''RCX: 0x'', ''RDX: 0x'', ''RBP: 0x'', ''RDI: 0x'', ''RSI: 0x'',
      ''R8 : 0x'', ''R9 : 0x'', ''R10: 0x'', ''R11: 0x'', ''R12: 0x'', ''R13: 0x'', ''R14: 0x'', ''R15: 0x'',
      ''RIP: 0x'', ''CS : 0x'', ''RFL: 0x'', ''RSP: 0x'', ''SS : 0x'']"

definition printRegistersSnapshot :: "u64 list \<Rightarrow> video \<Rightarrow> video" where
  "printRegistersSnapshot regs v =
     fold (\<lambda>i v. newLine (printHex64 (regs ! i) (videoPrint (exception_regs ! i) 0xFFFFFF v))) [0..<20] v"

text \<open>The loop at the end: \<open>getFromBuffer\<close> after each interrupt, with what it returns in order. \<open>None\<close> while it waits.\<close>

fun wait_enter :: "u8 list \<Rightarrow> u8 list option" where
  "wait_enter [] = None"
| "wait_enter (c # cs) = (if c = 10 then Some cs else wait_enter cs)"

definition exception_screen :: "string \<Rightarrow> u64 list \<Rightarrow> video \<Rightarrow> video" where
  "exception_screen msg regs v =
     (let v = newLine v;
          v = newLine (videoPrint msg 0xFFFFFF v);
          v = newLine (videoPrint ''Snapshot de registros:'' 0xFFFFFF v);
          v = printRegistersSnapshot regs v
      in newLine (videoPrint ''Presiona ENTER para continuar...'' 0xFFFFFF v))"

definition exceptionHandler :: "string \<Rightarrow> u64 list \<Rightarrow> u8 list \<Rightarrow> video \<Rightarrow> (video \<times> u8 list) option" where
  "exceptionHandler msg regs keys v =
     (case wait_enter keys of None \<Rightarrow> None | Some keys' \<Rightarrow> Some (newLine (exception_screen msg regs v), keys'))"

definition exceptionMessage :: "string list" where
  "exceptionMessage = [''zeroDivision Exception!'', ''invalidOpcode Exception!'']"

definition zeroDivision :: "u64 list \<Rightarrow> u8 list \<Rightarrow> video \<Rightarrow> (video \<times> u8 list) option" where
  "zeroDivision = exceptionHandler (exceptionMessage ! 0)"

definition invalidOpcode :: "u64 list \<Rightarrow> u8 list \<Rightarrow> video \<Rightarrow> (video \<times> u8 list) option" where
  "invalidOpcode = exceptionHandler (exceptionMessage ! 1)"

text \<open>\<open>exceptionsArray\<close> has handlers at 0 and 6 only.\<close>

definition exceptionDispatcher :: "nat \<Rightarrow> u64 list \<Rightarrow> u8 list \<Rightarrow> video \<Rightarrow> (video \<times> u8 list) option" where
  "exceptionDispatcher ex regs keys v =
     (case [Some zeroDivision, None, None, None, None, None, Some invalidOpcode] ! ex of
        None \<Rightarrow> Some (v, keys)
      | Some h \<Rightarrow> h regs keys v)"

subsection \<open>The gates\<close>

text \<open>How the processor reads a gate.\<close>

definition gate_offset :: "DESCR_INT \<Rightarrow> u64" where
  "gate_offset d = ucast (offset_l d) OR push_bit 16 (ucast (offset_m d)) OR push_bit 32 (ucast (offset_h d))"

definition gate_present :: "DESCR_INT \<Rightarrow> bool" where
  "gate_present d \<longleftrightarrow> bit (access d) 7"

lemma masks: "(0xFFFF :: u64) = mask 16" "(0xFFFFFFFF :: u64) = mask 32"
  by (simp_all add: mask_eq_exp_minus_1)

lemma gate_offset_parts:
  "ucast (ucast (v AND 0xFFFF :: u64) :: u16) OR push_bit 16 (ucast (ucast (drop_bit 16 v AND 0xFFFF) :: u16)) OR
   push_bit 32 (ucast (ucast (drop_bit 32 v AND 0xFFFFFFFF) :: u32)) = v"
proof (rule bit_word_eqI)
  fix n assume n: "n < LENGTH(64)"
  consider "n < 16" | "16 \<le> n" "n < 32" | "32 \<le> n" "n < 64" using n by fastforce
  then show "bit (ucast (ucast (v AND 0xFFFF :: u64) :: u16) OR push_bit 16 (ucast (ucast (drop_bit 16 v AND 0xFFFF) :: u16)) OR
      push_bit 32 (ucast (ucast (drop_bit 32 v AND 0xFFFFFFFF) :: u32)) :: u64) n = bit v n"
    unfolding masks by cases (auto simp: bit_simps)
qed

lemma gate_setup:
  "i < length idt \<Longrightarrow> gate_offset (setup_IDT_entry i v idt ! i) = v \<and> gate_present (setup_IDT_entry i v idt ! i)"
  using gate_offset_parts [of v] by (simp add: gate_offset_def gate_present_def setup_IDT_entry_def)

lemma gate_other: "j \<noteq> i \<Longrightarrow> setup_IDT_entry i v idt ! j = idt ! j" "length (setup_IDT_entry i v idt) = length idt"
  by (simp_all add: setup_IDT_entry_def)

end
