(* ===== verification/Interrupts_Props.thy ===== *)
theory Interrupts_Props
  imports Interrupts Video_Props
begin

text \<open>
  The interrupt table holds the handlers it was given, and nothing else is present; the screen of an exception stays
  in the frame buffer and shows every register with all of its digits.
\<close>

lemma load_idt_gates:
  assumes "v < 256"
  shows "if v \<in> {0x00, 0x06, 0x20, 0x21, 0x80}
    then gate_present (fst (load_idt hs) ! v) \<and> gate_offset (fst (load_idt hs) ! v) =
      (if v = 0x00 then exception0Handler hs else if v = 0x06 then exception6Handler hs
       else if v = 0x20 then irq00Handler hs else if v = 0x21 then irq01Handler hs else irq128Handler hs)
    else \<not> gate_present (fst (load_idt hs) ! v)"
proof -
  have "\<not> gate_present empty_gate" by (simp add: gate_present_def empty_gate_def)
  then show ?thesis using assms by (simp add: load_idt_def Let_def gate_other gate_setup)
qed

lemma newLine_step: "room_ok v \<Longrightarrow> cursor_ok v \<Longrightarrow> screen_step_ok v (newLine v)"
  using screen_step [of v "Put 10 0"] by (simp add: videoPutChar_fb_def)

lemma videoPrint_step: "room_ok v \<Longrightarrow> cursor_ok v \<Longrightarrow> screen_step_ok v (videoPrint s c v)"
  using screen_step [of v "Str s c"] by simp

lemma screen_step_then:
  "screen_step_ok v w \<Longrightarrow> room_ok v \<Longrightarrow> (room_ok w \<Longrightarrow> cursor_ok w \<Longrightarrow> screen_step_ok w x) \<Longrightarrow> screen_step_ok v x"
  using drawn_trans [of v w x] room_cong [of w v] drawn_mode [of v w] by (auto simp: screen_step_ok_def)

lemma exception_screen_step:
  assumes "room_ok v" "cursor_ok v"
  shows "screen_step_ok v (exception_screen msg regs v)"
proof -
  have seq: "screen_step_ok u (fold (\<lambda>f. f) fs u)"
    if "\<forall>f\<in>set fs. \<forall>w. room_ok w \<longrightarrow> cursor_ok w \<longrightarrow> screen_step_ok w (f w)" "room_ok u" "cursor_ok u" for fs u
    by (rule step_fold) (use that in auto)
  have hex: "screen_step_ok u (printHex64 x u)" if "room_ok u" "cursor_ok u" for x u
    unfolding printHex64_def Let_def by (rule videoPrint_step [OF that])
  have line: "screen_step_ok u (newLine (printHex64 (regs ! i) (videoPrint (exception_regs ! i) 0xFFFFFF u)))"
    if "room_ok u" "cursor_ok u" for u i
    using seq [of "[videoPrint (exception_regs ! i) 0xFFFFFF, printHex64 (regs ! i), newLine]" u] that
    by (simp add: newLine_step videoPrint_step hex)
  have snap: "screen_step_ok u (printRegistersSnapshot regs u)" if "room_ok u" "cursor_ok u" for u
    unfolding printRegistersSnapshot_def by (rule step_fold [OF line that])
  show ?thesis
    using seq [of "[newLine, videoPrint msg 0xFFFFFF, newLine, videoPrint ''Snapshot de registros:'' 0xFFFFFF, newLine,
        printRegistersSnapshot regs, videoPrint ''Presiona ENTER para continuar...'' 0xFFFFFF, newLine]" v] assms
    by (simp add: newLine_step videoPrint_step snap exception_screen_def Let_def)
qed

text \<open>The handler returns when ENTER is typed.\<close>

lemma wait_enter_iff: "(\<exists>r. wait_enter keys = Some r) \<longleftrightarrow> 10 \<in> set keys"
  by (induction keys) auto

lemma exceptionHandler_returns:
  assumes "room_ok v" "cursor_ok v" "10 \<in> set keys"
  shows "\<exists>w r. exceptionHandler msg regs keys v = Some (w, r) \<and> screen_step_ok v w"
proof -
  obtain r where r: "wait_enter keys = Some r" using assms(3) wait_enter_iff by blast
  have "screen_step_ok v (newLine (exception_screen msg regs v))"
    by (rule screen_step_then [OF exception_screen_step [OF assms(1,2)] assms(1)]) (rule newLine_step)
  with r show ?thesis by (simp add: exceptionHandler_def)
qed

end
