(* ===== verification/Packer.thy ===== *)
theory Packer
  imports Lib
begin

text \<open>
  The tool that builds the image of the system, \<open>Toolchain/ModulePacker/main.c\<close>: the kernel, the number of modules, and
  each module after its size. Files are strings, the file system is a map from names to contents, and a file that is being
  written is what has been written so far. What it writes is what the loader of \<open>Lib\<close> reads at the start.
\<close>

abbreviation (input) BUFFER_SIZE :: nat where "BUFFER_SIZE \<equiv> 128"

abbreviation (input) MAX_FILES :: nat where "MAX_FILES \<equiv> 128"

abbreviation (input) OUTPUT_FILE :: string where "OUTPUT_FILE \<equiv> ''packedKernel.bin''"

subsection \<open>The code\<close>

text \<open>The bytes of a 32 bit number in memory.\<close>

definition le32 :: "u32 \<Rightarrow> string" where
  "le32 n = map (\<lambda>i. char_of (unat (drop_bit (8 * i) n AND 0xFF))) [0..<4]"

text \<open>\<open>feof\<close> holds after a read that got less than it asked for.\<close>

function write_file :: "string \<Rightarrow> string \<Rightarrow> string" where
  "write_file target source =
     (let buffer = take BUFFER_SIZE source
      in if length buffer < BUFFER_SIZE then target @ buffer
         else write_file (target @ buffer) (drop BUFFER_SIZE source))"
  by pat_completeness auto
termination
  by (relation "measure (\<lambda>(target, source). length source)") auto

declare write_file.simps [simp del]

definition write_size :: "string \<Rightarrow> string \<Rightarrow> string" where
  "write_size target file = target @ le32 (of_nat (length file))"

definition checkFiles :: "(string \<Rightarrow> string option) \<Rightarrow> string list \<Rightarrow> bool" where
  "checkFiles fs names \<longleftrightarrow> list_all (\<lambda>n. fs n \<noteq> None) names"

text \<open>The image, if the output file can be created; every file is known to be readable. The output file is not one of the
  files that are read.\<close>

definition buildImage :: "(string \<Rightarrow> string option) \<Rightarrow> bool \<Rightarrow> string list \<Rightarrow> string option" where
  "buildImage fs creatable names =
     (if \<not> creatable then None
      else let target = write_file [] (the (fs (names ! 0)));
               extraBinaries = length names - 1;
               target = target @ le32 (of_nat extraBinaries)
           in Some (fold (\<lambda>n target. write_file (write_size target (the (fs n))) (the (fs n))) (tl names) target))"

text \<open>\<open>main\<close> after the options have been parsed; \<open>None\<close> if it exits with 1.\<close>

definition pack :: "(string \<Rightarrow> string option) \<Rightarrow> bool \<Rightarrow> string list \<Rightarrow> string option" where
  "pack fs creatable names = (if \<not> checkFiles fs names then None else buildImage fs creatable names)"

subsection \<open>The command line\<close>

text \<open>What \<open>argp_parse\<close> reports: an option, an argument, the end of the line, or something else. The names that have been
  given are the first \<open>count\<close> entries of a table of \<open>MAX_FILES\<close>.\<close>

datatype opt_key = Key_o | ARGP_KEY_ARG | ARGP_KEY_END | Key_other

record arguments =
  args :: "string option list"
  output_file :: string
  arg_count :: nat

datatype opt_result = Opt_ok arguments | Opt_unknown | Opt_usage | Opt_outside

text \<open>\<open>Opt_usage\<close>: \<open>argp_usage\<close> ends the program. \<open>Opt_outside\<close>: the entry that is written lies behind the table, which is
  not checked.\<close>

fun parse_opt :: "opt_key \<Rightarrow> string \<Rightarrow> nat \<Rightarrow> arguments \<Rightarrow> opt_result" where
  "parse_opt Key_o arg n a = Opt_ok (a\<lparr>output_file := arg\<rparr>)"
| "parse_opt ARGP_KEY_ARG arg n a =
     (if n < length (args a) then Opt_ok (a\<lparr>args := (args a)[n := Some arg]\<rparr>) else Opt_outside)"
| "parse_opt ARGP_KEY_END arg n a = (if n < 1 then Opt_usage else Opt_ok (a\<lparr>arg_count := n\<rparr>))"
| "parse_opt Key_other arg n a = Opt_unknown"

definition initial_arguments :: arguments where
  "initial_arguments = \<lparr>args = replicate MAX_FILES None, output_file = OUTPUT_FILE, arg_count = 0\<rparr>"

text \<open>As the library documents it, the parser is called for the arguments in turn, here from number \<open>n\<close> on, and then for
  the end of the line.\<close>

fun parse_line_from :: "nat \<Rightarrow> string list \<Rightarrow> arguments \<Rightarrow> opt_result" where
  "parse_line_from n [] a = parse_opt ARGP_KEY_END [] n a"
| "parse_line_from n (x # xs) a =
     (case parse_opt ARGP_KEY_ARG x n a of Opt_ok b \<Rightarrow> parse_line_from (Suc n) xs b | r \<Rightarrow> r)"

lemma parse_line_from:
  "n + length xs \<le> length (args a) \<Longrightarrow> 0 < n + length xs \<Longrightarrow>
   parse_line_from n xs a = Opt_ok (a\<lparr>args := take n (args a) @ map Some xs @ drop (n + length xs) (args a), arg_count := n + length xs\<rparr>)"
proof (induction xs arbitrary: n a)
  case Nil
  then show ?case by simp
next
  case (Cons x xs)
  then show ?case by (simp add: take_Suc_conv_app_nth take_update_swap upd_conv_take_nth_drop add.commute)
qed

text \<open>Up to \<open>MAX_FILES\<close> names reach the table in their order; the next one is written behind it.\<close>

lemma names_parsed:
  assumes "names \<noteq> []" "length names \<le> MAX_FILES"
  shows "\<exists>a. parse_line_from 0 names initial_arguments = Opt_ok a \<and> take (arg_count a) (args a) = map Some names"
  using parse_line_from [of 0 names initial_arguments] assms by (simp add: initial_arguments_def)

lemma name_outside: "parse_opt ARGP_KEY_ARG x MAX_FILES initial_arguments = Opt_outside"
  by (simp add: initial_arguments_def)

subsection \<open>What is written\<close>

lemma write_file: "write_file target source = target @ source"
proof (induction target source rule: write_file.induct)
  case (1 target source)
  then show ?case by (subst write_file.simps) (simp add: Let_def)
qed

lemma length_le32 [simp]: "length (le32 n) = 4"
  by (simp add: le32_def)

definition module_bytes :: "string \<Rightarrow> string" where
  "module_bytes x = le32 (of_nat (length x)) @ x"

lemma buildImage_eq:
  assumes "fs k = Some kern" "map fs names = map Some ms"
  shows "buildImage fs True (k # names) = Some (kern @ le32 (of_nat (length ms)) @ concat (map module_bytes ms))"
proof -
  have "fold (\<lambda>n target. write_file (write_size target (the (fs n))) (the (fs n))) names t = t @ concat (map module_bytes ms)" for t
    using assms(2)
  proof (induction names arbitrary: ms t)
    case Nil
    then show ?case by simp
  next
    case (Cons n names)
    then obtain x xs where "ms = x # xs" "fs n = Some x" "map fs names = map Some xs" by auto
    then show ?case using Cons.IH [of xs] by (simp add: write_file write_size_def module_bytes_def [of x])
  qed
  moreover have "length names = length ms" using arg_cong [OF assms(2), of length] by simp
  ultimately show ?thesis using assms(1) by (simp add: buildImage_def write_file Let_def)
qed

subsection \<open>What the loader reads\<close>

lemma bytes_at_append: "bytes_at m a (xs @ ys) \<longleftrightarrow> bytes_at m a xs \<and> bytes_at m (a + length xs) ys"
proof -
  have "m (a + j) = (xs @ ys) ! j" if "bytes_at m a xs" "bytes_at m (a + length xs) ys" "j < length (xs @ ys)" for j
  proof (cases "j < length xs")
    case True
    then show ?thesis using that(1) by (simp add: bytes_at_def nth_append)
  next
    case False
    then have "j - length xs < length ys" using that(3) by simp
    then show ?thesis using that(2) [unfolded bytes_at_def, THEN spec, of "j - length xs"] False by (simp add: nth_append)
  qed
  moreover have "bytes_at m a xs" "bytes_at m (a + length xs) ys" if w: "bytes_at m a (xs @ ys)"
  proof -
    have *: "m (a + j) = (xs @ ys) ! j" if "j < length (xs @ ys)" for j using w that by (simp add: bytes_at_def)
    show "bytes_at m a xs" unfolding bytes_at_def
    proof (intro allI impI)
      fix j assume "j < length xs"
      then show "m (a + j) = xs ! j" using * [of j] by (simp add: nth_append)
    qed
    show "bytes_at m (a + length xs) ys" unfolding bytes_at_def
    proof (intro allI impI)
      fix j assume "j < length ys"
      then show "m (a + length xs + j) = ys ! j" using * [of "length xs + j"] by (simp add: nth_append add.assoc)
    qed
  qed
  ultimately show ?thesis unfolding bytes_at_def [of m a "xs @ ys"] by blast
qed

lemma digit_bytes: "n mod 256 + 256 * (n div 256 mod 256) + 65536 * (n div 65536 mod 256) + 16777216 * (n div 16777216 mod 256) = n"
  if "n < 4294967296" for n :: nat
proof -
  have 1: "n mod 256 + 256 * (n div 256) = n" by simp
  have 2: "n div 256 mod 256 + 256 * (n div 65536) = n div 256" using mod_mult_div_eq [of "n div 256" 256] by (simp add: div_mult2_eq [symmetric])
  have 3: "n div 65536 mod 256 + 256 * (n div 16777216) = n div 65536" using mod_mult_div_eq [of "n div 65536" 256] by (simp add: div_mult2_eq [symmetric])
  have 4: "n div 16777216 mod 256 = n div 16777216" using that by (simp add: less_mult_imp_div_less)
  from 1 2 3 4 show ?thesis by linarith
qed

lemma le32_byte: "i < 4 \<Longrightarrow> n < 2 ^ 32 \<Longrightarrow> of_char (le32 (of_nat n) ! i) = n div 2 ^ (8 * i) mod 256"
proof -
  assume i: "i < 4" and n: "n < 2 ^ 32"
  have m: "(0xFF :: u32) = mask 8" by (simp add: mask_eq_exp_minus_1)
  have "unat (drop_bit (8 * i) (of_nat n :: u32) AND 0xFF) = n div 2 ^ (8 * i) mod 256"
  proof -
    have "drop_bit (8 * i) (of_nat n :: u32) AND 0xFF = take_bit 8 (drop_bit (8 * i) (of_nat n))" by (simp only: m take_bit_eq_mask)
    then have "unat (drop_bit (8 * i) (of_nat n :: u32) AND 0xFF) = take_bit 8 (drop_bit (8 * i) (unat (of_nat n :: u32)))"
      by (simp only: unsigned_take_bit_eq unat_drop_bit_eq)
    moreover have "unat (of_nat n :: u32) = n" using n by (simp add: unat_of_nat)
    ultimately show ?thesis by (simp add: take_bit_eq_mod drop_bit_eq_div)
  qed
  then show ?thesis using i by (simp add: le32_def)
qed

lemma readUint32_le32:
  assumes "bytes_at m a (le32 (of_nat n))" "n < 2 ^ 32"
  shows "readUint32 a m = (n, a + 4)"
proof -
  have "m (a + i) = le32 (of_nat n) ! i" if "i < 4" for i using assms(1) that by (simp add: bytes_at_def)
  from this [of 0] this [of 1] this [of 2] this [of 3]
  show ?thesis using le32_byte [OF _ assms(2), of 0] le32_byte [OF _ assms(2), of 1] le32_byte [OF _ assms(2), of 2]
      le32_byte [OF _ assms(2), of 3] digit_bytes [of n] assms(2)
    by (simp add: readUint32_def)
qed

lemma modules_packed:
  "bytes_at m a (concat (map module_bytes ms)) \<Longrightarrow> \<forall>x\<in>set ms. length x < 2 ^ 32 \<Longrightarrow>
   modules_at m a ms (a + length (concat (map module_bytes ms)))"
proof (induction ms arbitrary: a)
  case Nil
  then show ?case by simp
next
  case (Cons x xs)
  have b: "bytes_at m a (le32 (of_nat (length x)))" "bytes_at m (a + 4) x" "bytes_at m (a + 4 + length x) (concat (map module_bytes xs))"
    using Cons.prems(1) by (simp_all add: module_bytes_def [of x] bytes_at_append)
  then show ?case using Cons.IH [OF b(3)] Cons.prems(2) readUint32_le32 [OF b(1)] by (simp add: module_bytes_def [of x] add.assoc)
qed

lemma payload_packed:
  assumes "fs k = Some kern" "map fs names = map Some ms" "buildImage fs True (k # names) = Some img" "bytes_at m a img"
    "\<forall>x\<in>set ms. length x < 2 ^ 32" "length ms < 2 ^ 32"
  shows "payload_at m (a + length kern) ms (a + length img)"
proof -
  have img: "img = kern @ le32 (of_nat (length ms)) @ concat (map module_bytes ms)"
    using assms(3) by (simp add: buildImage_eq [OF assms(1,2)])
  have b: "bytes_at m (a + length kern) (le32 (of_nat (length ms)))" "bytes_at m (a + length kern + 4) (concat (map module_bytes ms))"
    using assms(4) by (simp_all add: img bytes_at_append)
  from modules_packed [OF b(2) assms(5)] readUint32_le32 [OF b(1) assms(6)] show ?thesis
    by (simp add: payload_at_def img add.assoc)
qed

subsection \<open>From the files to the memory\<close>

text \<open>C39: Packing and loading are inverse. When the image that the tool builds from a kernel and its modules lies in memory,
  the loader, started at the end of the kernel, puts each module byte for byte at its address and changes nothing else.\<close>

theorem pack_then_load:
  assumes "pack fs creatable (k # names) = Some img" "fs k = Some kern" "map fs names = map Some ms" "bytes_at m a img"
    and "\<forall>x\<in>set ms. length x < 2 ^ 32" "length ms < 2 ^ 32" "targets_ok (a + length kern) (a + length img) ts ms"
  shows "\<exists>m'. loadModules (a + length kern) ts m = Some m' \<and> (\<forall>i<length ms. bytes_at m' (ts ! i) (ms ! i)) \<and>
    (\<forall>b. (\<forall>i<length ms. \<not> (ts ! i \<le> b \<and> b < ts ! i + length (ms ! i))) \<longrightarrow> m' b = m b)"
proof -
  have "buildImage fs True (k # names) = Some img"
    using assms(1) by (cases creatable) (simp_all add: pack_def buildImage_def split: if_splits)
  from loadModules_ok [OF payload_packed [OF assms(2,3) this assms(4-6)] assms(7)] show ?thesis .
qed

theorem pack_then_load_witness:
  "\<exists>img m'. pack [''kernel.bin'' \<mapsto> ''kern'', ''shell'' \<mapsto> ''code'', ''data'' \<mapsto> ''xyz''] True [''kernel.bin'', ''shell'', ''data''] = Some img \<and>
     loadModules 104 [400, 500] (\<lambda>b. if 100 \<le> b \<and> b < 100 + length img then img ! (b - 100) else CHR 0x00) = Some m' \<and> m' 502 = CHR ''z''"
proof -
  let ?fs = "[''kernel.bin'' \<mapsto> ''kern'', ''shell'' \<mapsto> ''code'', ''data'' \<mapsto> ''xyz'']"
  let ?names = "[''shell'', ''data'']" and ?ms = "[''code'', ''xyz'']"
  let ?img = "''kern'' @ le32 (of_nat (length ?ms)) @ concat (map module_bytes ?ms)"
  let ?m = "\<lambda>b. if 100 \<le> b \<and> b < 100 + length ?img then ?img ! (b - 100) else CHR 0x00"
  have f: "?fs ''kernel.bin'' = Some ''kern''" "map ?fs ?names = map Some ?ms" by simp_all
  have p: "pack ?fs True (''kernel.bin'' # ?names) = Some ?img" by (simp add: pack_def checkFiles_def buildImage_eq [OF f])
  have len: "length ?img = 23" by (simp add: module_bytes_def)
  have "\<exists>m'. loadModules (100 + length ''kern'') [400, 500] ?m = Some m' \<and> (\<forall>i<length ?ms. bytes_at m' ([400, 500] ! i) (?ms ! i)) \<and>
    (\<forall>b. (\<forall>i<length ?ms. \<not> ([400, 500] ! i \<le> b \<and> b < [400, 500] ! i + length (?ms ! i))) \<longrightarrow> m' b = ?m b)"
    by (rule pack_then_load [OF p f]) (simp_all add: bytes_at_def len module_bytes_def)
  then obtain m' where m': "loadModules 104 [400, 500] ?m = Some m'" "\<forall>i<length ?ms. bytes_at m' ([400, 500] ! i) (?ms ! i)" by auto
  from m'(2) [THEN spec, of 1] have "m' 502 = CHR ''z''" by (auto simp: bytes_at_def dest: spec [of _ 2])
  with p m'(1) show ?thesis by (intro exI conjI)
qed

end
