(* ===== verification/Spec2Isabelle.thy ===== *)
theory Spec2Isabelle
  imports Ring FF_Props Sched_Props Sem_Props Pipe_Props Tty_Props Fd_Props Process_Props Buddy_Props Boot Shell_Props Video_Props Mvar_Props Utils_Props Line_Props Test_MM_Props Test_Sync_Props Test_Procs Builtins Devices Interrupts_Props Packer
begin

text \<open>
  A verification of MASS OS: the kernel under \<open>Kernel/\<close> (x86-64, no paging, interrupts off inside system calls)
  and the shell with its commands under \<open>Userland/\<close>.

  \<^bold>\<open>The program and how its parts interact.\<close>
  The kernel keeps static tables. A process is a slot of \<open>process_table\<close>; the scheduler orders the slots that can run
  in a run queue and is entered by the timer (\<open>scheduler_tick\<close>) and after a system call that sets \<open>force_switch\<close>
  (\<open>scheduler_yield_impl\<close>). Semaphores and pipes block the current process by queuing its PID and wake it through
  \<open>process_unblock\<close>. Descriptors are reference counted and stand for the terminal or an end of a pipe; the keyboard
  interrupt fills the line of the terminal, wakes its reader and kills the foreground process on Ctrl-C. Creating a process
  takes its stack and the copy of its arguments from the memory manager, its death gives them back and closes its
  descriptors, semaphores and pipe queues. The shell reads a line, parses it and starts commands or pipelines of them by
  system calls; commands synchronise over semaphores.

  \<^bold>\<open>The state.\<close> The static variables of each file are a record that extends the record of the component below:
  \<open>psys\<close> (process table) \<open>\<rightarrow>\<close> \<open>ssys\<close> (run queue, heap) \<open>\<rightarrow>\<close> \<open>semsys\<close> \<open>\<rightarrow>\<close> \<open>pipesys\<close> \<open>\<rightarrow>\<close>
  \<open>kbdsys\<close> (keyboard and terminal) \<open>\<rightarrow>\<close> \<open>fdsys\<close> \<open>\<rightarrow>\<close> \<open>ksys\<close> (memory behind pointers) \<open>\<rightarrow>\<close> \<open>msys\<close> (the table
  of MVars). An operation is a function of the state with the arguments of the C function and gives its result and the new
  state; it is defined on every extension of its record, so the components above call it as it is. Pointers into static
  tables are indices (\<open>None\<close> is \<open>NULL\<close>), pointers into memory addresses. Integers whose width matters are words.

  \<^bold>\<open>What models what.\<close>
  \<^item> \<open>Prelude\<close>, \<open>Ring\<close>, \<open>CStr\<close>, \<open>Lib\<close>: tables, circular buffers, C strings, \<open>memset\<close> and \<open>memcpy\<close> (\<open>lib.c\<close>).
  \<^item> \<open>MM_FirstFit\<close> (\<open>memoryManagerFF.c\<close>) with \<open>FF_Spec\<close>, \<open>FF_Refine\<close>, \<open>FF_Props\<close>; \<open>MM_Buddy\<close>
    (\<open>memoryManagerBuddy.c\<close>) with \<open>Buddy_Tiles\<close>, \<open>Buddy_Lists\<close>, \<open>Buddy_Props\<close>. \<open>Allocator\<close> is the contract of
    \<open>memoryManager.h\<close>, a locale both implementations interpret.
  \<^item> \<open>Process_Core\<close>, \<open>Process\<close> (\<open>process.c\<close>) with \<open>Process_Lemmas\<close>, \<open>Process_End\<close>, \<open>Process_Props\<close>.
  \<^item> \<open>Scheduler\<close> (\<open>scheduler.c\<close>) with \<open>Sched_Queue\<close>, \<open>Sched_Select\<close>, \<open>Sched_Switch\<close>, \<open>Sched_Props\<close>.
  \<^item> \<open>Wait_Queue\<close>, \<open>Semaphore\<close> (\<open>semaphore.c\<close>) with \<open>Sem_Lemmas\<close>, \<open>Sem_Mutex\<close>, \<open>Sem_Props\<close>; \<open>Pipe\<close>
    (\<open>pipe.c\<close>) with \<open>Pipe_Lemmas\<close>, \<open>Pipe_Props\<close>.
  \<^item> \<open>Keyboard\<close>, \<open>Key_Handler\<close> (\<open>keyboardDriver.c\<close>) with \<open>Keyboard_Lemmas\<close>, \<open>Tty_Props\<close>; \<open>Fd\<close>
    (\<open>fd.c\<close>) and \<open>Syscalls\<close> (\<open>syscallDispatcher.c\<close>) with \<open>Fd_Lemmas\<close>, \<open>Fd_Calls\<close>, \<open>Fd_Props\<close>. \<open>Frames\<close>
    holds the locales that say which part of the state an operation leaves alone; \<open>Demo_Kernel\<close> is the concrete state
    of the witnesses.
  \<^item> \<open>Font\<close>, \<open>Video\<close> (\<open>videoDriver.c\<close>, \<open>font.h\<close>) with \<open>Video_Lemmas\<close>, \<open>Video_Props\<close>, and
    \<open>Screen_Text\<close>, the screen as rows of text with the cursor of the driver.
  \<^item> \<open>Boot\<close> (\<open>kernel.c\<close>, \<open>moduleLoader.c\<close>), and \<open>Packer\<close> (\<open>Toolchain/ModulePacker/main.c\<close>), the host tool that
    builds the image \<open>Boot\<close> loads the modules from.
  \<^item> \<open>Shell\<close>, \<open>Shell_Exec\<close>, \<open>Line_Reader\<close> (\<open>userlib.c\<close>, \<open>shell.c\<close>, \<open>syscall.c\<close> of the user
    space) with \<open>Shell_Parse\<close>, \<open>Pipeline\<close>, \<open>Pipeline_Start\<close>, \<open>Pipeline_Run\<close>, \<open>Shell_Props\<close>, \<open>Line_Props\<close>;
    \<open>Builtins\<close> (built-in commands, \<open>help.c\<close>, the prompt, \<open>printf\<close>); \<open>Mvar\<close> (\<open>commands/mvar.c\<close>)
    with \<open>Mvar_Lemmas\<close>, \<open>Mvar_Props\<close>; \<open>Utils\<close> (the other commands) with \<open>Utils_Props\<close>.
  \<^item> \<open>Interrupts\<close> (\<open>idtLoader.c\<close>, \<open>irqDispatcher.c\<close>, \<open>exceptions.c\<close>) with \<open>Interrupts_Props\<close>;
    \<open>Devices\<close> (\<open>time.c\<close>, \<open>sound.c\<close>, \<open>naiveConsole.c\<close> and the system calls that forward to devices).
  \<^item> \<open>Test_MM\<close>, \<open>Test_Sync\<close>, \<open>Test_Procs\<close> (\<open>Userland/c/tests\<close>) with \<open>Test_MM_Props\<close>, \<open>Test_Sync_Props\<close>.

  \<^bold>\<open>What is shown.\<close>
  \<^item> Memory: both allocators return, and live payloads never overlap under any sequence of requests and releases; the
    pointer code of First-Fit computes first fit with splitting and coalescing on the list of blocks.
  \<^item> Scheduling: the run queue is insertion into a priority list, the choice follows the stated policy, a switch keeps
    the invariants, and a background process of low priority starves behind a busy foreground process.
  \<^item> Synchronisation: what wait and post do on every branch, that every operation returns with the locks free, mutual exclusion
    while processes open and close the semaphore and die (as long as those in the section keep the discipline the property states), the clean-up after a death;
    a pipe is a byte stream from its first opening until its last end is closed and it is freed, with one reader that may stay asleep. On top of
    the semaphores an MVar is a one-place buffer while participants come and leave, until one is killed.
  \<^item> Processes: creation leaves either one fresh process whose stack frame and arguments read back as given, or everything as it was but for a stale
    stack pointer in a free slot;
    exit wakes the waiting parent, and an exit value is lost when the parent comes late; a kill removes a process everywhere.
  \<^item> Terminal and descriptors: the line editor of the cooked mode, the bounds of its buffer, delivery of lines, the
    register snapshot; reference counts agree with the ends of the pipes whatever calls run.
  \<^item> Screen: nothing is written outside the frame buffer, and what a printed character draws and where the cursor goes, at any place.
  \<^item> Start: the state after \<open>initializeKernelBinary\<close> satisfies the invariants all of this assumes, and the modules the
    image packer has written come out byte for byte.
  \<^item> Shell: the pointer code that cuts a line computes the words of a reference parser; a pipeline connects its processes
    and leaves no descriptor behind (a failed one neither, but without a free descriptor it loses a pipe); the line that is read is what the keys make of it and, while it fits
    its row, what the screen shows;
    \<open>cat\<close>, \<open>filter\<close> and \<open>wc\<close> do not depend on how the input is cut into reads.
  \<^item> Tests: on the models of the kernel the test of the memory manager passes with either manager, and the test of the
    semaphores ends with the value 0.
  \<^item> Interrupts and devices: the gates of the interrupt table lead to their handlers, the screen of an exception stays in
    the frame buffer, the text console in its memory but for one cell, the timer gets the divisor of the frequency.

  \<^bold>\<open>Bounds and loops.\<close> No definition has fuel. Loops over arrays are structural recursion or \<open>function\<close> with a measure.
  Loops that follow pointers through memory or spin on a lock are \<open>partial_function (option)\<close>, where \<open>None\<close> is "never
  returns"; that they return from reachable states is part of the theorems. The sizes of the tables (64 processes, 32
  semaphores, 32 pipes of 4096 bytes, 130 descriptors) are those of the headers.

  A program that blocks in the middle, as the participants of an MVar or of the test of the semaphores, is an inductive step
  relation with one step for each part that runs without interruption. A loop that polls a device or reads its input is a
  function of the list of the values it gets, and \<open>None\<close> while it still waits.

  \<^bold>\<open>Not modelled.\<close> The assembly stubs are represented by what they save and call: a saved context is the stack pointer of the
  process, and the values read from ports are arguments of the steps. Left out are the busy waits, the floating point scaling of the random numbers (the tests are proved for any numbers),
  and the sequence of calls of \<open>test_prio\<close>, which shows timing. The boot loader and file system
  (\<open>Bootloader/\<close>, Pure64 and BMFS) are third-party code.
\<close>

end
